(* ===== verification/Kernel_Prelude.thy ===== *)
theory Kernel_Prelude
  imports Main "HOL-Library.Word"
begin

text \<open>
  Shared vocabulary of the development: the machine integer types, the collections of
  simplification rules the component theories extend, the arithmetic helpers of
  \<^verbatim>\<open>src/kernel.h\<close>, the error codes of \<^verbatim>\<open>src/error.h\<close> with \<^verbatim>\<open>src/error.c\<close>, and the
  generic lemmas on lists and words that several components use.

  Conventions. A C \<^verbatim>\<open>unsigned long\<close> is a 64-bit word where wrap-around or bit patterns
  matter. An \<^verbatim>\<open>int\<close> result that is an error code or a small count is an HOL integer. An
  infinite loop (\<^verbatim>\<open>while (1);\<close>, a failed \<^verbatim>\<open>DBG_ASSERT\<close>) is the value \<^term>\<open>None\<close> of an
  option result.
\<close>

unbundle bit_operations_syntax

type_synonym u8 = "8 word"
type_synonym u16 = "16 word"
type_synonym u32 = "32 word"
type_synonym u64 = "64 word"

named_theorems kernel_simps \<open>unfolding rules of small C helpers\<close>
named_theorems heap_simps \<open>field reads after pointer writes\<close>
named_theorems inv_intros \<open>preservation of component invariants\<close>

section \<open>Arithmetic helpers of kernel.h\<close>

definition ALIGN_DOWN :: "u64 \<Rightarrow> u64 \<Rightarrow> u64" where
  "ALIGN_DOWN x a = x AND NOT (a - 1)"

definition ALIGN :: "u64 \<Rightarrow> u64 \<Rightarrow> u64" where
  "ALIGN x a = ALIGN_DOWN (x + a - 1) a"

definition MINU :: "u64 \<Rightarrow> u64 \<Rightarrow> u64" where
  "MINU l r = (if l < r then l else r)"

definition MAXU :: "u64 \<Rightarrow> u64 \<Rightarrow> u64" where
  "MAXU l r = (if l > r then l else r)"

definition MIN_s :: "int \<Rightarrow> int \<Rightarrow> int" where
  "MIN_s l r = (if l < r then l else r)"

definition MAX_s :: "int \<Rightarrow> int \<Rightarrow> int" where
  "MAX_s l r = (if l > r then l else r)"

definition BIT_CONST :: "nat \<Rightarrow> u64" where
  "BIT_CONST p = push_bit p 1"

definition BITS_CONST :: "nat \<Rightarrow> nat \<Rightarrow> u64" where
  "BITS_CONST hi lo = (BIT_CONST (hi + 1) - 1) AND push_bit lo (NOT 0)"

text \<open>The loop \<^verbatim>\<open>while ((x >>= 1)) ++order;\<close> of \<^verbatim>\<open>ilog2\<close>.\<close>

function ilog2_loop :: "u64 \<Rightarrow> int \<Rightarrow> int" where
  "ilog2_loop x order =
     (let x' = drop_bit 1 x in if x' = 0 then order else ilog2_loop x' (order + 1))"
  by pat_completeness auto
termination
proof (relation "measure (\<lambda>(x, order). unat x)")
  fix x x' :: u64 and order :: int
  assume "x' = drop_bit 1 x" "x' \<noteq> 0"
  then have "unat x' = unat x div 2"
    by (simp only: drop_bit_eq_div unat_div_distrib) simp
  moreover have "unat x' \<noteq> 0"
    using \<open>x' \<noteq> 0\<close> by (simp only: unat_eq_zero simp_thms)
  ultimately show "((x', order + 1), x, order) \<in> measure (\<lambda>(x, order). unat x)"
    by simp
qed simp

declare ilog2_loop.simps [simp del]

definition ilog2 :: "u64 \<Rightarrow> int" where
  "ilog2 x = ilog2_loop x 0"

section \<open>Error codes\<close>

abbreviation (input) ENOMEM :: int where "ENOMEM \<equiv> 1"
abbreviation (input) ENOENT :: int where "ENOENT \<equiv> 2"
abbreviation (input) ENOTSUP :: int where "ENOTSUP \<equiv> 3"
abbreviation (input) EBUSY :: int where "EBUSY \<equiv> 4"
abbreviation (input) EEXIST :: int where "EEXIST \<equiv> 5"
abbreviation (input) EINVAL :: int where "EINVAL \<equiv> 6"
abbreviation (input) EIO :: int where "EIO \<equiv> 7"
abbreviation (input) ENOEXEC :: int where "ENOEXEC \<equiv> 8"
abbreviation (input) ENOSYS :: int where "ENOSYS \<equiv> 9"

definition err_str :: "string list" where
  "err_str = [''No error'', ''Out of memory'', ''No such file or directory'',
     ''Operation not supported'', ''Resource is busy'',
     ''File or directory already exists'', ''Invalid value'', ''IO error'',
     ''Exec format error'', ''No such system call'', ''Unknown error'']"

definition errstr :: "int \<Rightarrow> string" where
  "errstr errc =
     (let max_errc = int (length err_str) - 1;
          e = (if errc < 0 then - errc else errc)
      in err_str ! nat (MIN_s e max_errc))"

section \<open>Generic lemmas\<close>

lemma unat_less_2p64: "unat (x :: u64) < 2 ^ 64"
  using unsigned_less [of x, where ?'a = nat] by simp

lemma unat_of_nat64: "m < 2 ^ 64 \<Longrightarrow> unat (of_nat m :: u64) = m"
  by (simp add: unsigned_of_nat take_bit_nat_eq_self)

lemma unat_add_noov:
  fixes x y :: u64
  assumes "unat x + unat y < 2 ^ 64"
  shows "unat (x + y) = unat x + unat y"
  using assms by (simp add: unat_word_ariths)

lemma unat_sub_noov:
  fixes x y :: u64
  assumes "y \<le> x"
  shows "unat (x - y) = unat x - unat y"
  using assms by (rule unat_sub)

lemma unat_exp2:
  assumes "k < 64"
  shows "unat (2 ^ k :: u64) = 2 ^ k"
proof -
  have "unat (push_bit k 1 :: u64) = take_bit 64 (push_bit k (unat (1 :: u64)))"
    by (simp only: unsigned_push_bit_eq) simp
  also have "\<dots> = 2 ^ k"
    using assms by (simp add: push_bit_eq_mult take_bit_nat_eq_self_iff)
  finally show ?thesis by (simp add: push_bit_eq_mult)
qed

lemma pow2_minus_1_mask: "(2 ^ k - 1 :: u64) = mask k"
  by (simp add: mask_eq_exp_minus_1)

lemma ALIGN_DOWN_unat:
  assumes "k < 64"
  shows "unat (ALIGN_DOWN x (2 ^ k)) = unat x div 2 ^ k * 2 ^ k"
proof -
  have "ALIGN_DOWN x (2 ^ k) = push_bit k (drop_bit k x)"
    unfolding ALIGN_DOWN_def pow2_minus_1_mask
    by (rule bit_word_eqI) (auto simp: bit_simps)
  also have "unat \<dots> = take_bit 64 (unat x div 2 ^ k * 2 ^ k)"
    unfolding unsigned_push_bit_eq unat_drop_bit_eq
    by (simp add: push_bit_eq_mult drop_bit_eq_div)
  also have "\<dots> = unat x div 2 ^ k * 2 ^ k"
  proof -
    have "unat x div 2 ^ k * 2 ^ k \<le> unat x" by simp
    also have "\<dots> < 2 ^ 64" by (rule unat_less_2p64)
    finally show ?thesis by (simp add: take_bit_nat_eq_self_iff)
  qed
  finally show ?thesis .
qed

lemma nat_round_down:
  fixes n m :: nat
  assumes "0 < m"
  shows "n div m * m \<le> n" and "n < n div m * m + m"
  using assms mod_less_divisor [OF assms, of n] div_mult_mod_eq [of n m] by linarith+

lemma ALIGN_DOWN_bounds:
  assumes "k < 64"
  shows "unat (ALIGN_DOWN x (2 ^ k)) \<le> unat x"
    and "unat x < unat (ALIGN_DOWN x (2 ^ k)) + 2 ^ k"
    and "2 ^ k dvd unat (ALIGN_DOWN x (2 ^ k))"
  using nat_round_down [of "2 ^ k" "unat x"] by (simp_all add: ALIGN_DOWN_unat assms)

lemma ALIGN_unat:
  assumes "k < 64" and "unat x + 2 ^ k \<le> 2 ^ 64"
  shows "unat (ALIGN x (2 ^ k)) = (unat x + 2 ^ k - 1) div 2 ^ k * 2 ^ k"
proof -
  have one: "unat (2 ^ k - 1 :: u64) = 2 ^ k - 1"
    using assms(1) by (simp add: unat_sub word_le_nat_alt unat_exp2)
  have "unat x + (2 ^ k - 1) < 2 ^ 64"
    using assms(2) by simp
  then have "unat (x + (2 ^ k - 1)) = unat x + (2 ^ k - 1)"
    by (subst unat_add_noov) (simp_all add: one)
  then show ?thesis
    using assms(1) by (simp add: ALIGN_def ALIGN_DOWN_unat add_diff_eq)
qed

lemma ALIGN_bounds:
  assumes "k < 64" and "unat x + 2 ^ k \<le> 2 ^ 64"
  shows "unat x \<le> unat (ALIGN x (2 ^ k))"
    and "unat (ALIGN x (2 ^ k)) < unat x + 2 ^ k"
    and "2 ^ k dvd unat (ALIGN x (2 ^ k))"
proof -
  have "unat x + 2 ^ k - 1 < (unat x + 2 ^ k - 1) div 2 ^ k * 2 ^ k + 2 ^ k"
    and "(unat x + 2 ^ k - 1) div 2 ^ k * 2 ^ k \<le> unat x + 2 ^ k - 1"
    using nat_round_down [of "2 ^ k" "unat x + 2 ^ k - 1"] by simp_all
  moreover have "0 < (2 :: nat) ^ k" by simp
  ultimately show "unat x \<le> unat (ALIGN x (2 ^ k))"
    and "unat (ALIGN x (2 ^ k)) < unat x + 2 ^ k"
    unfolding ALIGN_unat [OF assms] by linarith+
  show "2 ^ k dvd unat (ALIGN x (2 ^ k))"
    by (simp add: ALIGN_unat [OF assms])
qed

lemma ALIGN_least:
  assumes "k < 64" and "unat x + 2 ^ k \<le> 2 ^ 64" and "2 ^ k dvd m" and "unat x \<le> m"
  shows "unat (ALIGN x (2 ^ k)) \<le> m"
proof -
  obtain q where q: "m = 2 ^ k * q" using assms(3) by blast
  obtain r where r: "unat (ALIGN x (2 ^ k)) = 2 ^ k * r"
    using ALIGN_bounds(3) [OF assms(1,2)] by blast
  have "2 ^ k * r < 2 ^ k * (q + 1)"
    using ALIGN_bounds(2) [OF assms(1,2)] assms(4) q r by (simp add: distrib_left)
  then have "r < q + 1" by (simp only: mult_less_cancel1)
  then show ?thesis using q r by simp
qed

lemma ilog2_loop_add: "ilog2_loop x (a + b) = ilog2_loop x a + b"
proof (induction x a rule: ilog2_loop.induct)
  case (1 x a)
  show ?case
  proof (cases "drop_bit 1 x = 0")
    case True
    then show ?thesis by (simp add: ilog2_loop.simps [of x])
  next
    case False
    with 1 [OF refl False] show ?thesis
      by (simp add: ilog2_loop.simps [of x] algebra_simps)
  qed
qed

lemma ilog2_bounds:
  assumes "x \<noteq> 0"
  shows "0 \<le> ilog2 x" and "2 ^ nat (ilog2 x) \<le> unat x" and "unat x < 2 * 2 ^ nat (ilog2 x)"
proof -
  have "0 \<le> ilog2 x \<and> 2 ^ nat (ilog2 x) \<le> unat x \<and> unat x < 2 * 2 ^ nat (ilog2 x)"
    using assms
  proof (induction "unat x" arbitrary: x rule: less_induct)
    case less
    have half: "unat (drop_bit 1 x) = unat x div 2"
      by (simp add: drop_bit_eq_div unat_div_distrib)
    have "0 < unat x" using less.prems by (simp add: unat_gt_0)
    show ?case
    proof (cases "drop_bit 1 x = 0")
      case True
      then have "ilog2 x = 0" by (simp add: ilog2_def ilog2_loop.simps)
      moreover have "unat x div 2 = 0" using True half by (simp only: unat_0)
      ultimately show ?thesis using \<open>0 < unat x\<close> by auto
    next
      case False
      then have eq: "ilog2 x = ilog2 (drop_bit 1 x) + 1"
        using ilog2_loop_add [of "drop_bit 1 x" 0 1]
        by (simp add: ilog2_def ilog2_loop.simps [of x])
      have "unat (drop_bit 1 x) < unat x" using half \<open>0 < unat x\<close> by simp
      from less.hyps [OF this False] half
      have "0 \<le> ilog2 (drop_bit 1 x)" "2 ^ nat (ilog2 (drop_bit 1 x)) \<le> unat x div 2"
        "unat x div 2 < 2 * 2 ^ nat (ilog2 (drop_bit 1 x))" by simp_all
      moreover from this have "nat (ilog2 x) = Suc (nat (ilog2 (drop_bit 1 x)))"
        by (simp add: eq nat_add_distrib)
      ultimately show ?thesis by (simp add: eq) linarith
    qed
  qed
  then show "0 \<le> ilog2 x" and "2 ^ nat (ilog2 x) \<le> unat x"
    and "unat x < 2 * 2 ^ nat (ilog2 x)" by simp_all
qed

section \<open>Binary search and array moves\<close>

text \<open>
  The loop shared by the boot allocator's two bounds: \<^verbatim>\<open>left\<close> moves past \<^verbatim>\<open>mid\<close> when the test
  holds there, otherwise \<^verbatim>\<open>right\<close> moves down to it.
\<close>

function bsearch_loop :: "(nat \<Rightarrow> bool) \<Rightarrow> nat \<Rightarrow> nat \<Rightarrow> nat" where
  "bsearch_loop p left right =
     (if left < right
      then let mid = left + (right - left) div 2
           in if p mid then bsearch_loop p (mid + 1) right else bsearch_loop p left mid
      else left)"
  by pat_completeness auto
termination
  by (relation "measure (\<lambda>(p, left, right). right - left)") auto

declare bsearch_loop.simps [simp del]

lemma bsearch_loop_bounds: "l \<le> r \<Longrightarrow> l \<le> bsearch_loop p l r \<and> bsearch_loop p l r \<le> r"
proof (induction p l r rule: bsearch_loop.induct)
  case (1 p l r)
  let ?m = "l + (r - l) div 2"
  show ?case
  proof (cases "l < r")
    case True
    then have "?m < r" by linarith
    then show ?thesis
      using 1 True by (subst (1 2) bsearch_loop.simps) (auto simp: Let_def)
  next
    case False
    with 1 show ?thesis by (subst (1 2) bsearch_loop.simps) simp
  qed
qed

lemma bsearch_loop_split:
  assumes "\<And>i j. i \<le> j \<Longrightarrow> j < n \<Longrightarrow> p j \<Longrightarrow> p i"
    and "l \<le> r" "r \<le> n" "\<forall>i<l. p i" "\<forall>i. r \<le> i \<longrightarrow> i < n \<longrightarrow> \<not> p i"
  shows "\<forall>i<n. p i \<longleftrightarrow> i < bsearch_loop p l r"
  using assms
proof (induction p l r rule: bsearch_loop.induct)
  case (1 p l r)
  let ?m = "l + (r - l) div 2"
  show ?case
  proof (cases "l < r")
    case True
    then have m: "?m < r" "l \<le> ?m" by linarith+
    show ?thesis
    proof (cases "p ?m")
      case T: True
      have "\<forall>i<?m + 1. p i"
        using "1.prems"(1) [of _ ?m] T m(1) "1.prems"(3) by simp
      then have "\<forall>i<n. p i \<longleftrightarrow> i < bsearch_loop p (?m + 1) r"
        using "1.prems" True T m by (intro "1.IH"(1)) auto
      then show ?thesis using True T by (simp add: bsearch_loop.simps [of p l r] Let_def)
    next
      case F: False
      have "\<forall>i. ?m \<le> i \<longrightarrow> i < n \<longrightarrow> \<not> p i"
        using "1.prems"(1) [of ?m] F by blast
      then have "\<forall>i<n. p i \<longleftrightarrow> i < bsearch_loop p l ?m"
        using "1.prems" True F m by (intro "1.IH"(2)) auto
      then show ?thesis using True F by (simp add: bsearch_loop.simps [of p l r] Let_def)
    qed
  next
    case False
    then have "bsearch_loop p l r = l" by (subst bsearch_loop.simps) simp
    with "1.prems" False show ?thesis
      by (metis le_neq_implies_less linorder_not_less)
  qed
qed

text \<open>
  \<^verbatim>\<open>memmove\<close> of \<^verbatim>\<open>n\<close> elements inside one array: \<^term>\<open>None\<close> when it would read or write
  outside the array.
\<close>

definition array_move :: "nat \<Rightarrow> nat \<Rightarrow> nat \<Rightarrow> 'a list \<Rightarrow> 'a list option" where
  "array_move dst src n xs =
     (if dst + n \<le> length xs \<and> src + n \<le> length xs
      then Some (take dst xs @ take n (drop src xs) @ drop (dst + n) xs) else None)"

definition array_set :: "nat \<Rightarrow> 'a \<Rightarrow> 'a list \<Rightarrow> 'a list option" where
  "array_set i x xs = (if i < length xs then Some (xs[i := x]) else None)"

lemma array_move_length: "array_move dst src n xs = Some ys \<Longrightarrow> length ys = length xs"
  by (auto simp: array_move_def split: if_splits)

end
