(* ===== verification/Intrusive_List.thy ===== *)
theory Intrusive_List
  imports Kernel_Prelude
begin

text \<open>
  The doubly linked intrusive lists of \<^verbatim>\<open>src/list.c\<close> (the copy under \<^verbatim>\<open>src/hwfs\<close> is the same
  file). The heap is the pair of fields of \<^verbatim>\<open>struct list_head\<close>, one function per field;
  every operation is the sequence of pointer writes of the C code. \<^verbatim>\<open>dlist\<close> relates a heap
  and a head to the list of entries it holds. The locale \<^verbatim>\<open>intrusive_list\<close> is the contract
  that the allocators and queues of the kernel rely on, with the lemmas about families of
  lists that share one heap; it is interpreted on the heap operations at the end.
\<close>

section \<open>The heap and the operations of list.c\<close>

record 'p list_heap =
  l_next :: "'p \<Rightarrow> 'p"
  l_prev :: "'p \<Rightarrow> 'p"

definition set_next :: "'p \<Rightarrow> 'p \<Rightarrow> 'p list_heap \<Rightarrow> 'p list_heap" where
  "set_next p q h = h\<lparr>l_next := (l_next h)(p := q)\<rparr>"

definition set_prev :: "'p \<Rightarrow> 'p \<Rightarrow> 'p list_heap \<Rightarrow> 'p list_heap" where
  "set_prev p q h = h\<lparr>l_prev := (l_prev h)(p := q)\<rparr>"

definition list_init :: "'p \<Rightarrow> 'p list_heap \<Rightarrow> 'p list_heap" where
  "list_init head h = set_next head head (set_prev head head h)"

definition list_insert :: "'p \<Rightarrow> 'p \<Rightarrow> 'p \<Rightarrow> 'p list_heap \<Rightarrow> 'p list_heap" where
  "list_insert new prev nxt h =
     (let h = set_prev new prev h;
          h = set_next new nxt h;
          h = set_next prev new h
      in set_prev nxt new h)"

definition list_add :: "'p \<Rightarrow> 'p \<Rightarrow> 'p list_heap \<Rightarrow> 'p list_heap" where
  "list_add new head h = list_insert new head (l_next h head) h"

definition list_add_tail :: "'p \<Rightarrow> 'p \<Rightarrow> 'p list_heap \<Rightarrow> 'p list_heap" where
  "list_add_tail new head h = list_insert new (l_prev h head) head h"

definition list_del_between :: "'p \<Rightarrow> 'p \<Rightarrow> 'p list_heap \<Rightarrow> 'p list_heap" where
  "list_del_between prev nxt h = set_prev nxt prev (set_next prev nxt h)"

definition list_del :: "'p \<Rightarrow> 'p list_heap \<Rightarrow> 'p list_heap" where
  "list_del entry h = list_del_between (l_prev h entry) (l_next h entry) h"

definition list_splice_between :: "'p \<Rightarrow> 'p \<Rightarrow> 'p \<Rightarrow> 'p list_heap \<Rightarrow> 'p list_heap" where
  "list_splice_between lst prev nxt h =
     (let firstp = l_next h lst;
          lastp = l_prev h lst;
          h = set_prev firstp prev h;
          h = set_next prev firstp h;
          h = set_next lastp nxt h
      in set_prev nxt lastp h)"

definition list_empty :: "'p list_heap \<Rightarrow> 'p \<Rightarrow> bool" where
  "list_empty h head \<longleftrightarrow> l_next h head = head"

definition list_splice :: "'p \<Rightarrow> 'p \<Rightarrow> 'p list_heap \<Rightarrow> 'p list_heap" where
  "list_splice lst head h =
     (if \<not> list_empty h lst
      then list_init lst (list_splice_between lst head (l_next h head) h)
      else h)"

definition list_first :: "'p list_heap \<Rightarrow> 'p \<Rightarrow> 'p" where
  "list_first h head = l_next h head"

partial_function (option) list_size_loop :: "'p list_heap \<Rightarrow> 'p \<Rightarrow> 'p \<Rightarrow> nat \<Rightarrow> nat option" where
  "list_size_loop h head pos sz =
     (if pos \<noteq> head then list_size_loop h head (l_next h pos) (sz + 1) else Some sz)"

definition list_size :: "'p list_heap \<Rightarrow> 'p \<Rightarrow> nat option" where
  "list_size h head = list_size_loop h head (l_next h head) 0"

lemma field_writes [heap_simps]:
  "l_next (set_next p q h) = (l_next h)(p := q)"
  "l_prev (set_next p q h) = l_prev h"
  "l_next (set_prev p q h) = l_next h"
  "l_prev (set_prev p q h) = (l_prev h)(p := q)"
  by (simp_all add: set_next_def set_prev_def)

section \<open>Abstraction to lists of entries\<close>

fun dpath :: "'p list_heap \<Rightarrow> 'p \<Rightarrow> 'p list \<Rightarrow> 'p \<Rightarrow> bool" where
  "dpath h p [] q \<longleftrightarrow> l_next h p = q \<and> l_prev h q = p"
| "dpath h p (x # xs) q \<longleftrightarrow> l_next h p = x \<and> l_prev h x = p \<and> dpath h x xs q"

definition dlist :: "'p list_heap \<Rightarrow> 'p \<Rightarrow> 'p list \<Rightarrow> bool" where
  "dlist h head xs \<longleftrightarrow> dpath h head xs head \<and> distinct (head # xs)"

lemma dpath_append:
  "dpath h p (xs @ y # ys) q \<longleftrightarrow> dpath h p xs y \<and> dpath h y ys q"
  by (induction xs arbitrary: p) auto

lemma dpath_first: "dpath h p xs q \<Longrightarrow> l_next h p = (case xs of [] \<Rightarrow> q | x # _ \<Rightarrow> x)"
  by (cases xs) auto

lemma dpath_last: "dpath h p xs q \<Longrightarrow> l_prev h q = (if xs = [] then p else last xs)"
  by (induction xs arbitrary: p) auto

text \<open>A path reads \<^verbatim>\<open>next\<close> in all its points but the last and \<^verbatim>\<open>prev\<close> in all but the first.\<close>

lemma dpath_cong:
  assumes "dpath h p xs q"
    and "\<And>a. a \<in> insert p (set xs) \<Longrightarrow> l_next h' a = l_next h a"
    and "\<And>a. a \<in> insert q (set xs) \<Longrightarrow> l_prev h' a = l_prev h a"
  shows "dpath h' p xs q"
  using assms by (induction xs arbitrary: p) auto

lemma dlist_cong:
  assumes "dlist h head xs"
    and "\<And>a. a \<in> insert head (set xs) \<Longrightarrow> l_next h' a = l_next h a"
    and "\<And>a. a \<in> insert head (set xs) \<Longrightarrow> l_prev h' a = l_prev h a"
  shows "dlist h' head xs"
  using assms dpath_cong [of h head xs head h'] by (auto simp: dlist_def)

lemma dlist_unique: "dlist h head xs \<Longrightarrow> dlist h head ys \<Longrightarrow> xs = ys"
proof -
  have "dpath h p xs q \<Longrightarrow> dpath h p ys q \<Longrightarrow> q \<notin> set xs \<Longrightarrow> q \<notin> set ys \<Longrightarrow> xs = ys" for p q
  proof (induction xs arbitrary: p ys)
    case Nil
    then show ?case by (cases ys) auto
  next
    case (Cons x xs)
    then show ?case by (cases ys) auto
  qed
  then show "dlist h head xs \<Longrightarrow> dlist h head ys \<Longrightarrow> xs = ys"
    by (auto simp: dlist_def)
qed

section \<open>Every operation on the abstract list\<close>

lemma dlist_init: "dlist (list_init head h) head []"
  by (simp add: dlist_def list_init_def heap_simps)

lemma dlist_empty: "dlist h head xs \<Longrightarrow> list_empty h head \<longleftrightarrow> xs = []"
  by (cases xs) (auto simp: dlist_def list_empty_def)

lemma dlist_first: "dlist h head (x # xs) \<Longrightarrow> list_first h head = x"
  by (simp add: dlist_def list_first_def)

lemma dlist_add:
  assumes "dlist h head xs" and "new \<notin> insert head (set xs)"
  shows "dlist (list_add new head h) head (new # xs)"
proof (cases xs)
  case Nil
  with assms show ?thesis
    by (auto simp: dlist_def list_add_def list_insert_def heap_simps)
next
  case (Cons x ys)
  then have "dpath h x ys head" and "l_next h head = x" and "distinct (new # head # x # ys)"
    using assms by (auto simp: dlist_def)
  then show ?thesis
    unfolding Cons by (auto simp: dlist_def list_add_def list_insert_def heap_simps
        intro!: dpath_cong [of h])
qed

lemma dlist_add_tail:
  assumes "dlist h head xs" and "new \<notin> insert head (set xs)"
  shows "dlist (list_add_tail new head h) head (xs @ [new])"
proof (cases xs rule: rev_cases)
  case Nil
  with assms show ?thesis
    by (auto simp: dlist_def list_add_tail_def list_insert_def heap_simps)
next
  case (snoc ys x)
  then have "dpath h head ys x" and "l_prev h head = x" and "distinct (new # head # x # ys)"
    using assms by (auto simp: dlist_def dpath_append)
  then show ?thesis
    unfolding snoc by (auto simp: dlist_def list_add_tail_def list_insert_def heap_simps dpath_append
        intro!: dpath_cong [of h])
qed

lemma dlist_del_middle:
  assumes "dlist h head (xs @ e # ys)"
  shows "dlist (list_del e h) head (xs @ ys)"
proof -
  have xs: "dpath h head xs e" and ys: "dpath h e ys head" and dist: "distinct (head # e # xs @ ys)"
    using assms by (auto simp: dlist_def dpath_append)
  define p where "p = l_prev h e"
  define n where "n = l_next h e"
  have p: "p = (if xs = [] then head else last xs)"
    using dpath_last [OF xs] by (simp add: p_def)
  have n: "n = (case ys of [] \<Rightarrow> head | y # _ \<Rightarrow> y)"
    using dpath_first [OF ys] by (simp add: n_def)
  let ?h = "list_del e h"
  have h': "?h = set_prev n p (set_next p n h)"
    by (simp add: list_del_def list_del_between_def p_def n_def)
  show ?thesis
  proof (cases xs rule: rev_cases)
    case Nil
    then show ?thesis
      using ys dist p n unfolding h'
      by (cases ys) (auto simp: dlist_def heap_simps intro!: dpath_cong [of h _ _ head])
  next
    case (snoc zs x)
    then have zs: "dpath h head zs x" and "p = x" using xs p by (auto simp: dpath_append)
    then have "dpath ?h head zs x"
      using dist snoc n unfolding h'
      by (intro dpath_cong [OF zs]) (auto simp: heap_simps split: list.splits)
    moreover have "dpath ?h x ys head"
      using ys dist snoc n \<open>p = x\<close> unfolding h'
      by (cases ys) (auto simp: heap_simps intro!: dpath_cong [of h _ _ head])
    ultimately show ?thesis
      using dist snoc by (auto simp: dlist_def dpath_append)
  qed
qed

lemma dlist_del:
  assumes "dlist h head xs" and "e \<in> set xs"
  shows "dlist (list_del e h) head (remove1 e xs)"
proof -
  obtain ys zs where "xs = ys @ e # zs" and "e \<notin> set ys"
    using split_list_first [OF assms(2)] by blast
  then show ?thesis
    using dlist_del_middle assms(1) by (simp add: remove1_append)
qed

lemma dlist_splice:
  assumes "dlist h lst ys" and "dlist h head xs"
    and "insert lst (set ys) \<inter> insert head (set xs) = {}"
  shows "dlist (list_splice lst head h) head (ys @ xs)"
    and "dlist (list_splice lst head h) lst []"
proof -
  show "dlist (list_splice lst head h) lst []"
    using assms(1) dlist_init dlist_empty [OF assms(1)] by (auto simp: list_splice_def)
  show "dlist (list_splice lst head h) head (ys @ xs)"
  proof (cases ys rule: rev_cases)
    case Nil
    then show ?thesis using assms by (simp add: list_splice_def dlist_empty)
  next
    case (snoc zs z)
    let ?h = "list_splice lst head h"
    have xs: "dpath h head xs head" and zs: "dpath h lst zs z" and z: "l_prev h lst = z"
      and dist: "distinct (head # lst # z # zs @ xs)"
      using assms snoc by (auto simp: dlist_def dpath_append)
    define f where "f = l_next h lst"
    define n where "n = l_next h head"
    have f: "f = (case zs of [] \<Rightarrow> z | y # _ \<Rightarrow> y)" using dpath_first [OF zs] by (simp add: f_def)
    have n: "n = (case xs of [] \<Rightarrow> head | y # _ \<Rightarrow> y)" using dpath_first [OF xs] by (simp add: n_def)
    have h': "?h = list_init lst (set_prev n z (set_next z n (set_next head f (set_prev f head h))))"
      using assms(1) snoc z
      by (simp add: list_splice_def dlist_empty list_splice_between_def f_def n_def Let_def)
    have "dpath ?h head zs z"
      using zs dist f n unfolding h'
      by (cases zs) (auto simp: list_init_def heap_simps split: list.splits
          intro!: dpath_cong [of h _ _ z])
    moreover have "dpath ?h z xs head"
      using xs dist f n unfolding h'
      by (cases xs) (auto simp: list_init_def heap_simps split: list.splits
          intro!: dpath_cong [of h _ _ head])
    ultimately show ?thesis
      using dist snoc by (auto simp: dlist_def dpath_append)
  qed
qed

lemma list_size_loop_dpath:
  assumes "dpath h p xs head" and "head \<notin> set xs"
  shows "list_size_loop h head (l_next h p) n = Some (n + length xs)"
  using assms
proof (induction xs arbitrary: p n)
  case Nil
  then show ?case by (subst list_size_loop.simps) simp
next
  case (Cons x xs)
  then have "l_next h p = x" and "x \<noteq> head" by auto
  with Cons.IH [of x "n + 1"] Cons.prems show ?case
    by (subst list_size_loop.simps) simp
qed

lemma dlist_size: "dlist h head xs \<Longrightarrow> list_size h head = Some (length xs)"
  using list_size_loop_dpath [of h head xs head 0] by (simp add: dlist_def list_size_def)

text \<open>Lists that share the heap but no cell are not touched.\<close>

lemma dlist_neighbours:
  assumes "dlist h head xs" and "a \<in> insert head (set xs)"
  shows "l_next h a \<in> insert head (set xs)" and "l_prev h a \<in> insert head (set xs)"
proof -
  have "dpath h p xs q \<Longrightarrow> a \<in> insert p (set xs) \<Longrightarrow> l_next h a \<in> insert q (set xs)" for p q
    by (induction xs arbitrary: p) auto
  then show "l_next h a \<in> insert head (set xs)"
    using assms by (auto simp: dlist_def)
  have "dpath h p xs q \<Longrightarrow> a \<in> insert q (set xs) \<Longrightarrow> l_prev h a \<in> insert p (set xs)" for p q
    by (induction xs arbitrary: p) auto
  then show "l_prev h a \<in> insert head (set xs)"
    using assms by (auto simp: dlist_def)
qed

lemma dlist_frame_init:
  assumes "dlist h b ys" and "head \<notin> insert b (set ys)"
  shows "dlist (list_init head h) b ys"
  using assms by (auto simp: list_init_def heap_simps intro!: dlist_cong [of h b ys])

lemma dlist_frame_insert:
  assumes "dlist h b ys" and "{new, p, n} \<inter> insert b (set ys) = {}"
  shows "dlist (list_insert new p n h) b ys"
  using assms by (auto simp: list_insert_def heap_simps intro!: dlist_cong [of h b ys])

lemma dlist_frame_add:
  assumes "dlist h head xs" and "dlist h b ys" and "new \<notin> insert b (set ys)"
    and "insert head (set xs) \<inter> insert b (set ys) = {}"
  shows "dlist (list_add new head h) b ys"
  unfolding list_add_def
  using assms dlist_neighbours [OF assms(1), of head] by (intro dlist_frame_insert) auto

lemma dlist_frame_add_tail:
  assumes "dlist h head xs" and "dlist h b ys" and "new \<notin> insert b (set ys)"
    and "insert head (set xs) \<inter> insert b (set ys) = {}"
  shows "dlist (list_add_tail new head h) b ys"
  unfolding list_add_tail_def
  using assms dlist_neighbours [OF assms(1), of head] by (intro dlist_frame_insert) auto

lemma dlist_frame_del:
  assumes "dlist h head xs" and "e \<in> set xs" and "dlist h b ys"
    and "insert head (set xs) \<inter> insert b (set ys) = {}"
  shows "dlist (list_del e h) b ys"
proof -
  have "l_next h e \<notin> insert b (set ys)" "l_prev h e \<notin> insert b (set ys)"
    using dlist_neighbours [OF assms(1), of e] assms(2,4) by auto
  then show ?thesis
    by (auto simp: list_del_def list_del_between_def heap_simps intro!: dlist_cong [OF assms(3)])
qed

lemma dlist_frame_splice:
  assumes "dlist h lst ys" and "dlist h head xs" and "dlist h b zs"
    and "insert lst (set ys) \<inter> insert b (set zs) = {}" and "insert head (set xs) \<inter> insert b (set zs) = {}"
  shows "dlist (list_splice lst head h) b zs"
proof -
  have "l_next h lst \<notin> insert b (set zs)" "l_prev h lst \<notin> insert b (set zs)"
    "l_next h head \<notin> insert b (set zs)"
    using dlist_neighbours [OF assms(1), of lst] dlist_neighbours [OF assms(2), of head] assms(4,5) by auto
  then show ?thesis
    using assms(3-5)
    by (auto simp: list_splice_def list_splice_between_def list_init_def Let_def heap_simps
        intro!: dlist_cong [OF assms(3)])
qed

section \<open>The contract of the list component\<close>

text \<open>
  What a client of \<^verbatim>\<open>list.h\<close> may rely on: \<^verbatim>\<open>rep h a xs\<close> says that the list with head \<^verbatim>\<open>a\<close>
  holds the entries \<^verbatim>\<open>xs\<close> in heap \<^verbatim>\<open>h\<close>. \<^verbatim>\<open>fam h H f\<close> is a family of cell-disjoint lists, such
  as the free lists of a memory node, one for each head in \<^verbatim>\<open>H\<close>.
\<close>

locale intrusive_list =
  fixes rep :: "'h \<Rightarrow> 'p \<Rightarrow> 'p list \<Rightarrow> bool"
    and add :: "'p \<Rightarrow> 'p \<Rightarrow> 'h \<Rightarrow> 'h"
    and add_tail :: "'p \<Rightarrow> 'p \<Rightarrow> 'h \<Rightarrow> 'h"
    and del :: "'p \<Rightarrow> 'h \<Rightarrow> 'h"
    and is_empty :: "'h \<Rightarrow> 'p \<Rightarrow> bool"
    and first :: "'h \<Rightarrow> 'p \<Rightarrow> 'p"
  assumes rep_distinct: "rep h a xs \<Longrightarrow> distinct (a # xs)"
    and rep_empty: "rep h a xs \<Longrightarrow> is_empty h a \<longleftrightarrow> xs = []"
    and rep_first: "rep h a (x # xs) \<Longrightarrow> first h a = x"
    and rep_add: "rep h a xs \<Longrightarrow> x \<notin> insert a (set xs) \<Longrightarrow> rep (add x a h) a (x # xs)"
    and rep_add_tail: "rep h a xs \<Longrightarrow> x \<notin> insert a (set xs) \<Longrightarrow> rep (add_tail x a h) a (xs @ [x])"
    and rep_del: "rep h a xs \<Longrightarrow> x \<in> set xs \<Longrightarrow> rep (del x h) a (remove1 x xs)"
    and frame_add: "rep h a xs \<Longrightarrow> rep h b ys \<Longrightarrow> x \<notin> insert b (set ys) \<Longrightarrow>
          insert a (set xs) \<inter> insert b (set ys) = {} \<Longrightarrow> rep (add x a h) b ys"
    and frame_add_tail: "rep h a xs \<Longrightarrow> rep h b ys \<Longrightarrow> x \<notin> insert b (set ys) \<Longrightarrow>
          insert a (set xs) \<inter> insert b (set ys) = {} \<Longrightarrow> rep (add_tail x a h) b ys"
    and frame_del: "rep h a xs \<Longrightarrow> x \<in> set xs \<Longrightarrow> rep h b ys \<Longrightarrow>
          insert a (set xs) \<inter> insert b (set ys) = {} \<Longrightarrow> rep (del x h) b ys"
begin

definition fam :: "'h \<Rightarrow> 'p set \<Rightarrow> ('p \<Rightarrow> 'p list) \<Rightarrow> bool" where
  "fam h H f \<longleftrightarrow> (\<forall>a\<in>H. rep h a (f a)) \<and>
     (\<forall>a\<in>H. \<forall>b\<in>H. a \<noteq> b \<longrightarrow> insert a (set (f a)) \<inter> insert b (set (f b)) = {})"

lemma fam_rep: "fam h H f \<Longrightarrow> a \<in> H \<Longrightarrow> rep h a (f a)"
  by (simp add: fam_def)

lemma fam_disjoint:
  "fam h H f \<Longrightarrow> a \<in> H \<Longrightarrow> b \<in> H \<Longrightarrow> a \<noteq> b \<Longrightarrow> insert a (set (f a)) \<inter> insert b (set (f b)) = {}"
  by (simp add: fam_def)

lemma fam_head_fresh: "fam h H f \<Longrightarrow> a \<in> H \<Longrightarrow> b \<in> H \<Longrightarrow> b \<notin> set (f a)"
  using fam_disjoint [of h H f a b] rep_distinct [OF fam_rep [of h H f a]] by auto

lemma fam_index_unique:
  "fam h H f \<Longrightarrow> a \<in> H \<Longrightarrow> b \<in> H \<Longrightarrow> x \<in> set (f a) \<Longrightarrow> x \<in> set (f b) \<Longrightarrow> a = b"
  using fam_disjoint [of h H f a b] by auto

lemma fam_empty: "fam h H f \<Longrightarrow> a \<in> H \<Longrightarrow> is_empty h a \<longleftrightarrow> f a = []"
  using rep_empty fam_rep by blast

lemma fam_first: "fam h H f \<Longrightarrow> a \<in> H \<Longrightarrow> f a \<noteq> [] \<Longrightarrow> first h a = hd (f a)"
  using rep_first [of h a "hd (f a)" "tl (f a)"] fam_rep [of h H f a] by simp

lemma fam_update:
  assumes "fam h H f" and "a \<in> H" and "rep h' a ys"
    and "\<And>b. b \<in> H \<Longrightarrow> b \<noteq> a \<Longrightarrow> rep h' b (f b)"
    and "\<And>b. b \<in> H \<Longrightarrow> b \<noteq> a \<Longrightarrow> insert a (set ys) \<inter> insert b (set (f b)) = {}"
  shows "fam h' H (f(a := ys))"
proof -
  have "rep h' b ((f(a := ys)) b)" if "b \<in> H" for b
    using assms(3,4) that by simp
  moreover have "insert b (set ((f(a := ys)) b)) \<inter> insert c (set ((f(a := ys)) c)) = {}"
    if "b \<in> H" "c \<in> H" "b \<noteq> c" for b c
  proof (cases "b = a \<or> c = a")
    case True
    with assms(5) that show ?thesis by (metis Int_commute fun_upd_apply)
  next
    case False
    with fam_disjoint [OF assms(1) that] show ?thesis by simp
  qed
  ultimately show ?thesis by (simp add: fam_def)
qed

lemma fam_add:
  assumes "fam h H f" and "a \<in> H" and "\<forall>b\<in>H. x \<notin> insert b (set (f b))"
  shows "fam (add x a h) H (f(a := x # f a))"
proof -
  have "rep (add x a h) b (f b)" if "b \<in> H" "b \<noteq> a" for b
    using assms that fam_rep [OF assms(1)] fam_disjoint [OF assms(1,2) that(1)]
    by (intro frame_add [of h a "f a"]) auto
  moreover have "rep (add x a h) a (x # f a)"
    using assms fam_rep [OF assms(1,2)] by (intro rep_add) auto
  moreover note fam_disjoint [OF assms(1,2)]
  ultimately show ?thesis
    using assms(2,3) by (intro fam_update [OF assms(1,2)]) auto
qed

lemma fam_add_tail:
  assumes "fam h H f" and "a \<in> H" and "\<forall>b\<in>H. x \<notin> insert b (set (f b))"
  shows "fam (add_tail x a h) H (f(a := f a @ [x]))"
proof -
  have "rep (add_tail x a h) b (f b)" if "b \<in> H" "b \<noteq> a" for b
    using assms that fam_rep [OF assms(1)] fam_disjoint [OF assms(1,2) that(1)]
    by (intro frame_add_tail [of h a "f a"]) auto
  moreover have "rep (add_tail x a h) a (f a @ [x])"
    using assms fam_rep [OF assms(1,2)] by (intro rep_add_tail) auto
  moreover note fam_disjoint [OF assms(1,2)]
  ultimately show ?thesis
    using assms(2,3) by (intro fam_update [OF assms(1,2)]) auto
qed

lemma fam_del:
  assumes "fam h H f" and "a \<in> H" and "x \<in> set (f a)"
  shows "fam (del x h) H (f(a := remove1 x (f a)))"
proof -
  have "rep (del x h) b (f b)" if "b \<in> H" "b \<noteq> a" for b
    using assms that fam_rep [OF assms(1)] fam_disjoint [OF assms(1,2) that(1)]
    by (intro frame_del [of h a "f a"]) auto
  moreover have "rep (del x h) a (remove1 x (f a))"
    using assms fam_rep [OF assms(1,2)] by (intro rep_del) auto
  moreover have "insert a (set (remove1 x (f a))) \<inter> insert b (set (f b)) = {}"
    if "b \<in> H" "b \<noteq> a" for b
    using fam_disjoint [OF assms(1,2) that(1)] that(2) set_remove1_subset [of x "f a"] by blast
  ultimately show ?thesis
    by (intro fam_update [OF assms(1,2)])
qed

lemma fam_move:
  assumes "fam h H f" and "a \<in> H" "b \<in> H" and "x \<in> set (f a)" and "a \<noteq> b"
  shows "fam (add x b (del x h)) H (f(a := remove1 x (f a), b := x # f b))"
proof -
  have d: "distinct (f a)" using rep_distinct [OF fam_rep [OF assms(1,2)]] by simp
  have "\<forall>c\<in>H. x \<notin> insert c (set ((f(a := remove1 x (f a))) c))"
    using fam_head_fresh [OF assms(1,2)] fam_index_unique [OF assms(1,2)] assms(4) d by auto
  then show ?thesis
    using fam_add [OF fam_del [OF assms(1,2,4)] assms(3), of x] assms(5) by (auto simp: fun_upd_twist)
qed

end

interpretation dl: intrusive_list dlist list_add list_add_tail list_del list_empty list_first
proof unfold_locales
  fix h :: "'p list_heap" and a x :: 'p and xs
  show "dlist h a xs \<Longrightarrow> distinct (a # xs)" by (simp add: dlist_def)
  show "dlist h a xs \<Longrightarrow> list_empty h a \<longleftrightarrow> xs = []" by (rule dlist_empty)
  show "dlist h a (x # xs) \<Longrightarrow> list_first h a = x" by (rule dlist_first)
qed (auto intro: dlist_add dlist_add_tail dlist_del dlist_frame_add dlist_frame_add_tail
    dlist_frame_del)

section \<open>Properties\<close>

text \<open>C7: on a heap that holds a list of distinct cells, adding a new cell at either end, deleting a
  cell and measuring the list act on the sequence of its entries as they should, and the walk
  that counts them ends.\<close>

theorem list_ops_refine:
  assumes "dlist h head xs" and "new \<notin> insert head (set xs)" and "e \<in> set xs"
  shows "dlist (list_add new head h) head (new # xs) \<and>
    dlist (list_add_tail new head h) head (xs @ [new]) \<and>
    dlist (list_del e h) head (remove1 e xs) \<and>
    list_size h head = Some (length xs) \<and> list_first h head = hd xs \<and>
    dlist (list_add_tail e head (list_del e h)) head (remove1 e xs @ [e])"
proof -
  have "e \<notin> insert head (set (remove1 e xs))" using assms(1,3) by (auto simp: dlist_def)
  then have "dlist (list_add_tail e head (list_del e h)) head (remove1 e xs @ [e])"
    by (intro dlist_add_tail dlist_del assms(1,3))
  moreover have "list_first h head = hd xs" using assms(1,3) dlist_first by (cases xs) auto
  ultimately show ?thesis
    using dlist_add [OF assms(1,2)] dlist_add_tail [OF assms(1,2)] dlist_del [OF assms(1,3)]
      dlist_size [OF assms(1)] by simp
qed

theorem list_ops_refine_witness:
  "dlist (list_add (3 :: nat) 0 (list_add_tail 2 0 (list_add_tail 1 0 (list_init 0 \<lparr>l_next = id, l_prev = id\<rparr>))))
     0 [3, 1, 2]"
proof -
  let ?h = "list_add_tail (2 :: nat) 0 (list_add_tail 1 0 (list_init 0 \<lparr>l_next = id, l_prev = id\<rparr>))"
  have "dlist ?h 0 [1, 2]" by (simp add: dlist_def list_add_tail_def list_insert_def list_init_def heap_simps)
  then show ?thesis using list_ops_refine [of ?h 0 "[1, 2]" 3 1] by simp
qed

text \<open>Splicing moves all entries of one list, in order, in front of the entries of another, leaves
  the first list empty and touches no third list that shares the heap.\<close>

theorem list_splice_refine:
  assumes "dlist h lst ys" and "dlist h head xs" and "dlist h other zs"
    and "insert lst (set ys) \<inter> insert head (set xs) = {}"
    and "(insert lst (set ys) \<union> insert head (set xs)) \<inter> insert other (set zs) = {}"
  shows "dlist (list_splice lst head h) head (ys @ xs) \<and> dlist (list_splice lst head h) lst [] \<and>
    dlist (list_splice lst head h) other zs"
  using dlist_splice [OF assms(1,2,4)] dlist_frame_splice [OF assms(1-3)] assms(5) by blast

theorem list_splice_refine_witness:
  "let h = list_init 9 (list_add_tail (2 :: nat) 0 (list_init 0 (list_add 1 5 (list_init 5 \<lparr>l_next = id, l_prev = id\<rparr>))))
   in dlist (list_splice 5 0 h) 0 [1, 2] \<and> dlist (list_splice 5 0 h) 5 [] \<and> dlist (list_splice 5 0 h) 9 []"
proof -
  let ?h = "list_init 9 (list_add_tail (2 :: nat) 0 (list_init 0 (list_add 1 5 (list_init 5 \<lparr>l_next = id, l_prev = id\<rparr>))))"
  have "dlist ?h 5 [1]" "dlist ?h 0 [2]" "dlist ?h 9 []"
    by (simp_all add: dlist_def list_add_tail_def list_add_def list_insert_def list_init_def heap_simps)
  then show ?thesis using list_splice_refine [of ?h 5 "[1]" 0 "[2]" 9 "[]"] by (simp add: Let_def)
qed

end
