(* ===== verification/Boot_Alloc.thy ===== *)
theory Boot_Alloc
  imports Kernel_Prelude "HOL-Library.Monad_Syntax"
begin

text \<open>
  The boot-time region allocator of \<^verbatim>\<open>src/balloc.c\<close>: two sorted pools of address ranges, all
  memory and free memory. A pool is the fixed array of the C code with its current size;
  a write outside the array is the value \<^term>\<open>None\<close>. The lemmas show that insertion merges
  exactly the ranges it touches, that deletion removes exactly the range it is given, and
  that an aligned allocation returns memory that was free and is free no more.
\<close>

section \<open>Pools and their operations\<close>

record balloc_area =
  ba_addr :: u64
  ba_size :: u64

record balloc_pool =
  bp_areas :: "balloc_area list"
  bp_max_size :: nat
  bp_size :: nat

definition MAX_AREAS_COUNT :: nat where
  "MAX_AREAS_COUNT = 256"

definition balloc_lower_bound :: "balloc_pool \<Rightarrow> u64 \<Rightarrow> nat" where
  "balloc_lower_bound pool addr =
     bsearch_loop (\<lambda>mid. ba_addr (bp_areas pool ! mid) + ba_size (bp_areas pool ! mid) < addr)
       0 (bp_size pool)"

definition balloc_upper_bound :: "balloc_pool \<Rightarrow> u64 \<Rightarrow> nat" where
  "balloc_upper_bound pool addr =
     bsearch_loop (\<lambda>mid. \<not> ba_addr (bp_areas pool ! mid) > addr) 0 (bp_size pool)"

definition balloc_pool_insert :: "balloc_pool \<Rightarrow> u64 \<Rightarrow> u64 \<Rightarrow> balloc_pool option" where
  "balloc_pool_insert pool addr sz =
     (let end = addr + sz;
          first = balloc_lower_bound pool addr;
          last = balloc_upper_bound pool end;
          areas = bp_areas pool;
          addr' = (if first \<noteq> last \<and> ba_addr (areas ! first) < addr
                   then ba_addr (areas ! first) else addr);
          last_end = ba_addr (areas ! (last - 1)) + ba_size (areas ! (last - 1));
          end' = (if first \<noteq> last \<and> end < last_end then last_end else end)
      in do {
        areas \<leftarrow> (if first + 1 \<noteq> last
                  then array_move (first + 1) last (bp_size pool - last) areas else Some areas);
        areas \<leftarrow> array_set first \<lparr>ba_addr = addr', ba_size = end' - addr'\<rparr> areas;
        Some (pool\<lparr>bp_areas := areas, bp_size := bp_size pool + first + 1 - last\<rparr>)
      })"

definition balloc_pool_delete :: "balloc_pool \<Rightarrow> u64 \<Rightarrow> u64 \<Rightarrow> balloc_pool option" where
  "balloc_pool_delete pool addr sz =
     (let pos = balloc_lower_bound pool addr;
          n = bp_size pool - pos - 1;
          areas = bp_areas pool;
          area = areas ! pos
      in if \<not> pos < length areas then None
         else if ba_addr area = addr \<and> ba_size area > sz then
           Some (pool\<lparr>bp_areas := areas[pos := \<lparr>ba_addr = ba_addr area + sz, ba_size = ba_size area - sz\<rparr>]\<rparr>)
         else if ba_addr area + ba_size area = addr + sz \<and> ba_size area > sz then
           Some (pool\<lparr>bp_areas := areas[pos := area\<lparr>ba_size := ba_size area - sz\<rparr>]\<rparr>)
         else if ba_addr area = addr \<and> ba_size area = sz then do {
           areas \<leftarrow> array_move pos (pos + 1) n areas;
           Some (pool\<lparr>bp_areas := areas, bp_size := bp_size pool - 1\<rparr>)
         } else do {
           areas \<leftarrow> array_move (pos + 2) (pos + 1) n areas;
           areas \<leftarrow> array_set (pos + 1)
             \<lparr>ba_addr = addr + sz, ba_size = ba_addr area + ba_size area - (addr + sz)\<rparr> areas;
           areas \<leftarrow> array_set pos (area\<lparr>ba_size := addr - ba_addr area\<rparr>) areas;
           Some (pool\<lparr>bp_areas := areas, bp_size := bp_size pool + 1\<rparr>)
         })"

text \<open>
  The loop of \<^verbatim>\<open>balloc_alloc_aligned_from_pool\<close>; \<^verbatim>\<open>k\<close> counts the areas left, \<^verbatim>\<open>last - i\<close>.
  The result is the address returned, \<^term>\<open>None\<close> for \<^verbatim>\<open>-1\<close>, and the pool.
\<close>

fun balloc_alloc_loop ::
  "balloc_pool \<Rightarrow> nat \<Rightarrow> nat \<Rightarrow> u64 \<Rightarrow> u64 \<Rightarrow> u64 \<Rightarrow> u64 \<Rightarrow> (u64 option \<times> balloc_pool) option" where
  "balloc_alloc_loop pool i 0 low high sz align = Some (None, pool)"
| "balloc_alloc_loop pool i (Suc k) low high sz align =
     (let area = bp_areas pool ! i;
          start = ba_addr area;
          end = start + ba_size area;
          start = (if start < low then low else start);
          end = (if end > high then high else end);
          start = ALIGN start align
      in if start \<ge> end \<or> end - start < sz
         then balloc_alloc_loop pool (i + 1) k low high sz align
         else do {
           pool \<leftarrow> balloc_pool_delete pool start sz;
           Some (Some start, pool)
         })"

definition balloc_alloc_aligned_from_pool ::
  "balloc_pool \<Rightarrow> u64 \<Rightarrow> u64 \<Rightarrow> u64 \<Rightarrow> u64 \<Rightarrow> (u64 option \<times> balloc_pool) option" where
  "balloc_alloc_aligned_from_pool pool low high sz align =
     (let first = balloc_lower_bound pool low;
          last = balloc_upper_bound pool high
      in balloc_alloc_loop pool first (last - first) low high sz align)"

section \<open>The allocator's two pools\<close>

record balloc_state =
  ba_all :: balloc_pool
  ba_free :: balloc_pool

definition balloc_add_region :: "u64 \<Rightarrow> u64 \<Rightarrow> balloc_state \<Rightarrow> balloc_state option" where
  "balloc_add_region addr sz s = do {
     a \<leftarrow> balloc_pool_insert (ba_all s) addr sz;
     f \<leftarrow> balloc_pool_insert (ba_free s) addr sz;
     Some (s\<lparr>ba_all := a, ba_free := f\<rparr>)
   }"

definition balloc_reserve_region :: "u64 \<Rightarrow> u64 \<Rightarrow> balloc_state \<Rightarrow> balloc_state option" where
  "balloc_reserve_region addr sz s = do {
     f \<leftarrow> balloc_pool_delete (ba_free s) addr sz;
     Some (s\<lparr>ba_free := f\<rparr>)
   }"

definition balloc_iterate :: "balloc_pool \<Rightarrow> (u64 \<Rightarrow> u64 \<Rightarrow> 's \<Rightarrow> 's) \<Rightarrow> 's \<Rightarrow> 's" where
  "balloc_iterate pool exec s =
     fold (\<lambda>a. exec (ba_addr a) (ba_size a)) (take (bp_size pool) (bp_areas pool)) s"

definition balloc_alloc_aligned ::
  "u64 \<Rightarrow> u64 \<Rightarrow> u64 \<Rightarrow> u64 \<Rightarrow> balloc_state \<Rightarrow> (u64 option \<times> balloc_state) option" where
  "balloc_alloc_aligned low high sz align s =
     (if low \<ge> high \<or> high - low < sz then Some (None, s)
      else do {
        (r, f) \<leftarrow> balloc_alloc_aligned_from_pool (ba_free s) low high sz align;
        Some (r, s\<lparr>ba_free := f\<rparr>)
      })"

definition balloc_alloc ::
  "u64 \<Rightarrow> u64 \<Rightarrow> u64 \<Rightarrow> balloc_state \<Rightarrow> (u64 option \<times> balloc_state) option" where
  "balloc_alloc low high sz s = balloc_alloc_aligned low high sz 8 s"

definition balloc_free :: "u64 \<Rightarrow> u64 \<Rightarrow> balloc_state \<Rightarrow> balloc_state option" where
  "balloc_free addr sz s = do {
     f \<leftarrow> balloc_pool_insert (ba_free s) addr sz;
     Some (s\<lparr>ba_free := f\<rparr>)
   }"

definition balloc_init_pool :: balloc_pool where
  "balloc_init_pool = \<lparr>bp_areas = replicate MAX_AREAS_COUNT \<lparr>ba_addr = 0, ba_size = 0\<rparr>,
     bp_max_size = MAX_AREAS_COUNT, bp_size = 0\<rparr>"

section \<open>Ranges, well-formed pools and covered addresses\<close>

abbreviation ab :: "balloc_area \<Rightarrow> nat" where "ab a \<equiv> unat (ba_addr a)"
abbreviation ae :: "balloc_area \<Rightarrow> nat" where "ae a \<equiv> unat (ba_addr a) + unat (ba_size a)"

definition wf_areas :: "balloc_area list \<Rightarrow> bool" where
  "wf_areas xs \<longleftrightarrow> (\<forall>a \<in> set xs. ae a < 2 ^ 64) \<and> sorted_wrt (\<lambda>a b. ae a < ab b) xs"

definition covered :: "balloc_area list \<Rightarrow> nat set" where
  "covered xs = (\<Union>a \<in> set xs. {ab a ..< ae a})"

abbreviation used :: "balloc_pool \<Rightarrow> balloc_area list" where
  "used pool \<equiv> take (bp_size pool) (bp_areas pool)"

definition wf_pool :: "balloc_pool \<Rightarrow> bool" where
  "wf_pool pool \<longleftrightarrow> bp_size pool \<le> length (bp_areas pool) \<and>
     length (bp_areas pool) = bp_max_size pool \<and> wf_areas (used pool)"

lemma covered_simps [simp]:
  "covered [] = {}" "covered (a # xs) = {ab a ..< ae a} \<union> covered xs"
  "covered (xs @ ys) = covered xs \<union> covered ys"
  by (auto simp: covered_def)

lemma wf_areas_simps:
  "wf_areas []"
  "wf_areas (a # xs) \<longleftrightarrow> ae a < 2 ^ 64 \<and> (\<forall>b \<in> set xs. ae a < ab b) \<and> wf_areas xs"
  "wf_areas (xs @ ys) \<longleftrightarrow> wf_areas xs \<and> wf_areas ys \<and> (\<forall>a \<in> set xs. \<forall>b \<in> set ys. ae a < ab b)"
  by (auto simp: wf_areas_def sorted_wrt_append)

lemma wf_areas_end: "wf_areas xs \<Longrightarrow> a \<in> set xs \<Longrightarrow> unat (ba_addr a + ba_size a) = ae a"
  by (auto simp: wf_areas_def intro: unat_add_noov)

lemma wf_areas_nth_less: "wf_areas xs \<Longrightarrow> i < j \<Longrightarrow> j < length xs \<Longrightarrow> ae (xs ! i) < ab (xs ! j)"
  by (auto simp: wf_areas_def sorted_wrt_iff_nth_less)

text \<open>The two searches return the positions that split the pool at the wanted address.\<close>

lemma balloc_lower_bound_split:
  assumes "wf_pool pool"
  shows "balloc_lower_bound pool addr \<le> bp_size pool"
    and "\<And>i. i < bp_size pool \<Longrightarrow>
           ae (used pool ! i) < unat addr \<longleftrightarrow> i < balloc_lower_bound pool addr"
proof -
  let ?p = "\<lambda>mid. ba_addr (bp_areas pool ! mid) + ba_size (bp_areas pool ! mid) < addr"
  have wf: "wf_areas (used pool)" and len: "length (used pool) = bp_size pool"
    and le: "bp_size pool \<le> length (bp_areas pool)"
    using assms by (auto simp: wf_pool_def)
  have p: "?p i \<longleftrightarrow> ae (used pool ! i) < unat addr" if "i < bp_size pool" for i
  proof -
    have "used pool ! i \<in> set (used pool)" using that len by (simp only: nth_mem)
    from wf_areas_end [OF wf this] that show ?thesis by (simp add: word_less_nat_alt)
  qed
  have mono: "?p i" if "i \<le> j" "j < bp_size pool" "?p j" for i j
    using p [of i] p [of j] that wf_areas_nth_less [OF wf, of i j] le
    by (cases "i = j") auto
  show "balloc_lower_bound pool addr \<le> bp_size pool"
    using bsearch_loop_bounds [of 0 "bp_size pool" ?p] by (simp add: balloc_lower_bound_def)
  show "ae (used pool ! i) < unat addr \<longleftrightarrow> i < balloc_lower_bound pool addr"
    if "i < bp_size pool" for i
  proof -
    have "\<forall>i<bp_size pool. ?p i \<longleftrightarrow> i < bsearch_loop ?p 0 (bp_size pool)"
      by (rule bsearch_loop_split [OF mono]) auto
    then show ?thesis
      unfolding balloc_lower_bound_def using p [OF that] that by blast
  qed
qed

lemma balloc_upper_bound_split:
  assumes "wf_pool pool"
  shows "balloc_upper_bound pool addr \<le> bp_size pool"
    and "\<And>i. i < bp_size pool \<Longrightarrow>
           ab (used pool ! i) \<le> unat addr \<longleftrightarrow> i < balloc_upper_bound pool addr"
proof -
  let ?p = "\<lambda>mid. \<not> ba_addr (bp_areas pool ! mid) > addr"
  have wf: "wf_areas (used pool)" and len: "length (used pool) = bp_size pool"
    and le: "bp_size pool \<le> length (bp_areas pool)"
    using assms by (auto simp: wf_pool_def)
  have p: "?p i \<longleftrightarrow> ab (used pool ! i) \<le> unat addr" if "i < bp_size pool" for i
    using that by (simp add: word_less_nat_alt not_less)
  have mono: "?p i" if "i \<le> j" "j < bp_size pool" "?p j" for i j
    using p [of i] p [of j] that wf_areas_nth_less [OF wf, of i j] le
    by (cases "i = j") auto
  show "balloc_upper_bound pool addr \<le> bp_size pool"
    using bsearch_loop_bounds [of 0 "bp_size pool" ?p] by (simp add: balloc_upper_bound_def)
  show "ab (used pool ! i) \<le> unat addr \<longleftrightarrow> i < balloc_upper_bound pool addr"
    if "i < bp_size pool" for i
  proof -
    have "\<forall>i<bp_size pool. ?p i \<longleftrightarrow> i < bsearch_loop ?p 0 (bp_size pool)"
      by (rule bsearch_loop_split [OF mono]) auto
    then show ?thesis
      unfolding balloc_upper_bound_def using p [OF that] that by blast
  qed
qed

section \<open>Insertion merges the ranges it touches\<close>

lemma wf_areas_hd_last:
  assumes "wf_areas M" and "m \<in> set M"
  shows "ab (hd M) \<le> ab m" and "ae m \<le> ae (last M)"
proof -
  obtain i where i: "i < length M" "m = M ! i" using assms(2) by (auto simp: in_set_conv_nth)
  have "M \<noteq> []" using assms(2) by auto
  then have h: "hd M = M ! 0" and l: "last M = M ! (length M - 1)"
    by (simp_all add: hd_conv_nth last_conv_nth)
  show "ab (hd M) \<le> ab m"
    using wf_areas_nth_less [OF assms(1), of 0 i] i unfolding h by (cases "i = 0") auto
  show "ae m \<le> ae (last M)"
  proof (cases "i = length M - 1")
    case False
    then have "i < length M - 1" using i by simp
    from wf_areas_nth_less [OF assms(1) this] \<open>M \<noteq> []\<close> show ?thesis unfolding l i(2) by simp
  qed (simp add: l i(2))
qed

lemma insert_merge:
  assumes wf: "wf_areas (A @ M @ B)" and noov: "e < 2 ^ 64" and be: "b \<le> e"
    and A: "\<forall>a \<in> set A. ae a < b" and B: "\<forall>a \<in> set B. e < ab a"
    and M: "\<forall>a \<in> set M. b \<le> ae a \<and> ab a \<le> e"
    and lo: "ab n = (if M \<noteq> [] \<and> ab (hd M) < b then ab (hd M) else b)"
    and hi: "ae n = (if M \<noteq> [] \<and> e < ae (last M) then ae (last M) else e)"
  shows "wf_areas (A @ n # B)" and "covered (A @ n # B) = covered (A @ M @ B) \<union> {b ..< e}"
proof -
  have wfM: "wf_areas M" and AM: "\<forall>a \<in> set A. \<forall>m \<in> set M. ae a < ab m"
    and MB: "\<forall>m \<in> set M. \<forall>a \<in> set B. ae m < ab a" and Mb: "\<forall>m \<in> set M. ae m < 2 ^ 64"
    and AB: "wf_areas A" "wf_areas B" "\<forall>a \<in> set A. \<forall>a' \<in> set B. ae a < ab a'"
    using wf by (auto simp: wf_areas_simps) (auto simp: wf_areas_def)
  have cov: "{ab n ..< ae n} = covered M \<union> {b ..< e}"
  proof (cases "M = []")
    case True
    then show ?thesis using lo hi by simp
  next
    case False
    then have h: "hd M \<in> set M" "last M \<in> set M" by simp_all
    have "x \<in> covered M \<union> {b ..< e}" if "x \<in> {ab n ..< ae n}" for x
    proof -
      consider "x \<in> {b ..< e}" | "x < b" | "e \<le> x" by fastforce
      then show ?thesis
      proof cases
        case 2
        then have "x \<in> {ab (hd M) ..< ae (hd M)}"
          using that lo M h(1) by (fastforce split: if_splits)
        then show ?thesis using h(1) by (auto simp: covered_def)
      next
        case 3
        then have "x \<in> {ab (last M) ..< ae (last M)}"
          using that hi M h(2) by (fastforce split: if_splits)
        then show ?thesis using h(2) by (auto simp: covered_def)
      qed simp
    qed
    moreover have "covered M \<subseteq> {ab n ..< ae n}"
      using wf_areas_hd_last [OF wfM] M lo hi False
      by (fastforce simp: covered_def split: if_splits)
    moreover have "{b ..< e} \<subseteq> {ab n ..< ae n}"
      using lo hi by (auto split: if_splits)
    ultimately show ?thesis by blast
  qed
  show "covered (A @ n # B) = covered (A @ M @ B) \<union> {b ..< e}"
    using cov by auto
  have "ae a < ab n" if "a \<in> set A" for a
    using A AM that lo by (auto split: if_splits)
  moreover have "ae n < ab a" if "a \<in> set B" for a
    using B MB that hi by (auto split: if_splits)
  moreover have "ae n < 2 ^ 64" using noov Mb hi by (auto split: if_splits)
  ultimately show "wf_areas (A @ n # B)"
    using AB by (auto simp: wf_areas_simps)
qed

lemma array_replace_range:
  assumes "f \<le> l" "l \<le> s" "s \<le> length xs" "f + 1 + (s - l) \<le> length xs"
  obtains zs where
    "((if f + 1 \<noteq> l then array_move (f + 1) l (s - l) xs else Some xs) \<bind> array_set f n) = Some zs"
    and "length zs = length xs" and "take (s + f + 1 - l) zs = take f xs @ n # drop l (take s xs)"
proof (cases "f + 1 = l")
  case True
  then have "take (s + f + 1 - l) (xs[f := n]) = take f xs @ n # drop l (take s xs)"
    using assms by (intro nth_equalityI) (auto simp: nth_append nth_list_update nth_Cons')
  moreover have "array_set f n xs = Some (xs[f := n])"
    using assms True by (simp add: array_set_def)
  ultimately show ?thesis using True by (intro that) auto
next
  case False
  let ?ys = "take (f + 1) xs @ take (s - l) (drop l xs) @ drop (f + 1 + (s - l)) xs"
  have len: "length ?ys = length xs" using assms by simp
  have "array_move (f + 1) l (s - l) xs = Some ?ys"
    using assms by (simp add: array_move_def)
  moreover have "array_set f n ?ys = Some (?ys[f := n])"
    using assms len by (simp add: array_set_def)
  moreover have "take (s + f + 1 - l) (?ys[f := n]) = take f xs @ n # drop l (take s xs)"
    using assms by (intro nth_equalityI) (auto simp: nth_append nth_list_update nth_Cons')
  ultimately show ?thesis using False len by (intro that) auto
qed

lemma split_at_bounds:
  fixes xs :: "'a list"
  assumes "f \<le> l" "l \<le> length xs"
  defines "M \<equiv> take (l - f) (drop f xs)"
  shows "xs = take f xs @ M @ drop l xs"
    and "M = [] \<longleftrightarrow> f = l" and "f < l \<Longrightarrow> hd M = xs ! f" and "f < l \<Longrightarrow> last M = xs ! (l - 1)"
    and "a \<in> set (take f xs) \<Longrightarrow> \<exists>i<f. a = xs ! i"
    and "a \<in> set M \<Longrightarrow> \<exists>i. f \<le> i \<and> i < l \<and> a = xs ! i"
    and "a \<in> set (drop l xs) \<Longrightarrow> \<exists>i. l \<le> i \<and> i < length xs \<and> a = xs ! i"
proof -
  have "drop f xs = M @ drop l xs"
    using assms by (simp add: M_def flip: drop_drop) (metis append_take_drop_id drop_drop le_add_diff_inverse2)
  then show "xs = take f xs @ M @ drop l xs" by (metis append_take_drop_id)
  show "M = [] \<longleftrightarrow> f = l" using assms by (auto simp: M_def)
  show "f < l \<Longrightarrow> hd M = xs ! f" using assms by (simp add: M_def hd_drop_conv_nth)
  show "f < l \<Longrightarrow> last M = xs ! (l - 1)"
    using assms by (simp add: M_def last_conv_nth)
  show "a \<in> set (take f xs) \<Longrightarrow> \<exists>i<f. a = xs ! i"
    by (auto simp: in_set_conv_nth)
  show "a \<in> set M \<Longrightarrow> \<exists>i. f \<le> i \<and> i < l \<and> a = xs ! i"
    using assms by (auto simp: M_def in_set_conv_nth) (metis add.commute le_add1 less_diff_conv)
  show "a \<in> set (drop l xs) \<Longrightarrow> \<exists>i. l \<le> i \<and> i < length xs \<and> a = xs ! i"
    using assms by (auto simp: in_set_conv_nth) (metis add.commute le_add1 less_diff_conv)
qed

lemma balloc_bounds_ordered:
  assumes "wf_pool pool" and "unat addr \<le> unat end"
  shows "balloc_lower_bound pool addr \<le> balloc_upper_bound pool end"
proof (rule ccontr)
  assume "\<not> ?thesis"
  then have *: "balloc_upper_bound pool end < balloc_lower_bound pool addr" by simp
  let ?i = "balloc_upper_bound pool end"
  have i: "?i < bp_size pool"
    using * balloc_lower_bound_split(1) [OF assms(1), of addr] by simp
  have "ae (used pool ! ?i) < unat addr"
    using balloc_lower_bound_split(2) [OF assms(1) i, of addr] * by simp
  moreover have "\<not> ab (used pool ! ?i) \<le> unat end"
    using balloc_upper_bound_split(2) [OF assms(1) i, of "end"] by simp
  ultimately show False using assms(2) by simp
qed

lemma balloc_pool_insert_ok:
  assumes wf: "wf_pool pool" and room: "bp_size pool < bp_max_size pool"
    and noov: "unat addr + unat sz < 2 ^ 64"
  shows "\<exists>pool'. balloc_pool_insert pool addr sz = Some pool' \<and> wf_pool pool' \<and>
    bp_max_size pool' = bp_max_size pool \<and>
    covered (used pool') = covered (used pool) \<union> {unat addr ..< unat addr + unat sz}"
proof -
  define e where "e = addr + sz"
  define f where "f = balloc_lower_bound pool addr"
  define l where "l = balloc_upper_bound pool e"
  define xs where "xs = used pool"
  define M where "M = take (l - f) (drop f xs)"
  have e: "unat e = unat addr + unat sz" using noov by (simp add: e_def unat_add_noov)
  have len: "length xs = bp_size pool" "bp_size pool \<le> length (bp_areas pool)"
    "length (bp_areas pool) = bp_max_size pool" and wfxs: "wf_areas xs"
    using wf by (auto simp: wf_pool_def xs_def)
  have fl: "f \<le> l" "l \<le> length xs"
    using balloc_bounds_ordered [OF wf, of addr e] balloc_upper_bound_split(1) [OF wf, of e] e len
    by (simp_all add: f_def l_def)
  note sp = split_at_bounds [OF fl, folded M_def]
  have nth: "bp_areas pool ! i = xs ! i" if "i < length xs" for i
    using that len by (simp add: xs_def)
  have lb: "ae (xs ! i) < unat addr \<longleftrightarrow> i < f" if "i < length xs" for i
    using balloc_lower_bound_split(2) [OF wf, of i addr] that len by (simp add: f_def xs_def)
  have ub: "ab (xs ! i) \<le> unat e \<longleftrightarrow> i < l" if "i < length xs" for i
    using balloc_upper_bound_split(2) [OF wf, of i e] that len by (simp add: l_def xs_def)
  define lo where "lo = (if f \<noteq> l \<and> ba_addr (bp_areas pool ! f) < addr
    then ba_addr (bp_areas pool ! f) else addr)"
  define le where "le = ba_addr (bp_areas pool ! (l - 1)) + ba_size (bp_areas pool ! (l - 1))"
  define hi where "hi = (if f \<noteq> l \<and> e < le then le else e)"
  define n where "n = \<lparr>ba_addr = lo, ba_size = hi - lo\<rparr>"
  have hdM: "bp_areas pool ! f = hd M" and lastM: "bp_areas pool ! (l - 1) = last M" if "f \<noteq> l"
    using sp(3,4) nth [of f] nth [of "l - 1"] fl that by auto
  have le: "unat le = ae (last M)" if "f \<noteq> l"
    using wf_areas_end [OF wfxs, of "last M"] that lastM fl
    by (simp add: le_def) (metis One_nat_def diff_less fl(2) le_neq_implies_less less_le_trans nth_mem sp(4) zero_less_one linorder_not_le le_zero_eq)
  have lo': "unat lo = (if M \<noteq> [] \<and> ab (hd M) < unat addr then ab (hd M) else unat addr)"
    using hdM sp(2) by (auto simp: lo_def word_less_nat_alt)
  have hi': "unat hi = (if M \<noteq> [] \<and> unat e < ae (last M) then ae (last M) else unat e)"
    using le sp(2) by (auto simp: hi_def word_less_nat_alt)
  have "unat lo \<le> unat hi" using lo' hi' e by auto
  then have n: "ab n = unat lo" "ae n = unat hi"
    by (simp_all add: n_def unat_sub word_le_nat_alt)
  have merge: "wf_areas (take f xs @ n # drop l xs)"
    "covered (take f xs @ n # drop l xs) = covered xs \<union> {unat addr ..< unat e}"
  proof -
    have A: "\<forall>a \<in> set (take f xs). ae a < unat addr"
      using sp(5) lb fl by (metis dual_order.strict_trans1 less_le_trans)
    have B: "\<forall>a \<in> set (drop l xs). unat e < ab a"
      using sp(7) ub by (metis linorder_not_le)
    have M: "\<forall>a \<in> set M. unat addr \<le> ae a \<and> ab a \<le> unat e"
    proof
      fix a assume "a \<in> set M"
      then obtain i where i: "f \<le> i" "i < l" "a = xs ! i" using sp(6) by blast
      then have "i < length xs" using fl by simp
      from lb [OF this] ub [OF this] i show "unat addr \<le> ae a \<and> ab a \<le> unat e" by auto
    qed
    note im = insert_merge [of "take f xs" M "drop l xs" "unat e" "unat addr" n,
      folded sp(1), OF wfxs _ _ A B M]
    show "wf_areas (take f xs @ n # drop l xs)"
      "covered (take f xs @ n # drop l xs) = covered xs \<union> {unat addr ..< unat e}"
      using im e noov lo' hi' n by auto
  qed
  have fit: "f + 1 + (bp_size pool - l) \<le> length (bp_areas pool)"
    using fl len room by linarith
  obtain zs where zs:
    "((if f + 1 \<noteq> l then array_move (f + 1) l (bp_size pool - l) (bp_areas pool)
       else Some (bp_areas pool)) \<bind> array_set f n) = Some zs"
    "length zs = length (bp_areas pool)"
    "take (bp_size pool + f + 1 - l) zs = take f (bp_areas pool) @ n # drop l (take (bp_size pool) (bp_areas pool))"
    by (rule array_replace_range [of f l "bp_size pool" "bp_areas pool" n]) (use fl len fit in auto)
  let ?p = "pool\<lparr>bp_areas := zs, bp_size := bp_size pool + f + 1 - l\<rparr>"
  have "take f (bp_areas pool) = take f xs" using fl len by (simp add: xs_def)
  then have used: "used ?p = take f xs @ n # drop l xs" using zs(3) by (simp add: xs_def)
  have "balloc_pool_insert pool addr sz = Some ?p"
  proof -
    have "balloc_pool_insert pool addr sz =
      (((if f + 1 \<noteq> l then array_move (f + 1) l (bp_size pool - l) (bp_areas pool)
         else Some (bp_areas pool)) \<bind> array_set f n)
       \<bind> (\<lambda>a. Some (pool\<lparr>bp_areas := a, bp_size := bp_size pool + f + 1 - l\<rparr>)))"
      unfolding balloc_pool_insert_def Let_def n_def hi_def le_def lo_def l_def f_def e_def
      by (simp only: Option.bind_assoc)
    then show ?thesis by (simp only: zs(1) Option.bind.simps)
  qed
  moreover have "wf_pool ?p"
    using used merge(1) zs(2) len room fl by (simp add: wf_pool_def)
  ultimately show ?thesis
    using used merge(2) e by (auto simp: xs_def)
qed

section \<open>Deletion removes exactly the given range\<close>

lemma replace_area:
  assumes wf: "wf_areas (A @ a # B)" and sub: "ab a \<le> b" "e \<le> ae a"
    and ns: "wf_areas ns" "\<forall>n \<in> set ns. ab a \<le> ab n \<and> ae n \<le> ae a"
    and cov: "covered ns = {ab a ..< ae a} - {b ..< e}"
  shows "wf_areas (A @ ns @ B)" and "covered (A @ ns @ B) = covered (A @ a # B) - {b ..< e}"
proof -
  have AaB: "wf_areas A" "wf_areas B" "\<forall>x \<in> set A. ae x < ab a" "\<forall>y \<in> set B. ae a < ab y"
    "\<forall>x \<in> set A. \<forall>y \<in> set B. ae x < ab y"
    using wf by (auto simp: wf_areas_simps)
  then show "wf_areas (A @ ns @ B)"
    using ns by (fastforce simp: wf_areas_simps)
  have "covered A \<inter> {b ..< e} = {}" "covered B \<inter> {b ..< e} = {}"
    using AaB(3,4) sub by (fastforce simp: covered_def)+
  then show "covered (A @ ns @ B) = covered (A @ a # B) - {b ..< e}"
    using cov by auto
qed

lemma array_prefix_update:
  assumes "j < s" "s \<le> length xs"
  shows "take s (xs[j := n]) = take j (take s xs) @ [n] @ drop (j + 1) (take s xs)"
  using assms by (intro nth_equalityI) (auto simp: nth_append nth_list_update nth_Cons')

lemma array_prefix_remove:
  assumes "j < s" "s \<le> length xs"
  obtains zs where "array_move j (j + 1) (s - j - 1) xs = Some zs" and "length zs = length xs"
    and "take (s - 1) zs = take j (take s xs) @ drop (j + 1) (take s xs)"
proof -
  let ?zs = "take j xs @ take (s - j - 1) (drop (j + 1) xs) @ drop (j + (s - j - 1)) xs"
  have "array_move j (j + 1) (s - j - 1) xs = Some ?zs"
    using assms by (simp add: array_move_def)
  moreover have "take (s - 1) ?zs = take j (take s xs) @ drop (j + 1) (take s xs)"
    using assms by (intro nth_equalityI) (auto simp: nth_append)
  ultimately show ?thesis using assms by (intro that [of ?zs]) simp_all
qed

lemma array_prefix_split:
  assumes "j < s" "s < length xs"
  obtains zs where "(array_move (j + 2) (j + 1) (s - j - 1) xs
      \<bind> array_set (j + 1) n2) \<bind> array_set j n1 = Some zs" and "length zs = length xs"
    and "take (s + 1) zs = take j (take s xs) @ [n1, n2] @ drop (j + 1) (take s xs)"
proof -
  let ?ys = "take (j + 2) xs @ take (s - j - 1) (drop (j + 1) xs) @ drop (j + 2 + (s - j - 1)) xs"
  have "array_move (j + 2) (j + 1) (s - j - 1) xs = Some ?ys"
    using assms by (simp add: array_move_def)
  moreover have "length ?ys = length xs" using assms by simp
  moreover have "take (s + 1) (?ys[j + 1 := n2, j := n1]) =
      take j (take s xs) @ [n1, n2] @ drop (j + 1) (take s xs)"
    using assms by (intro nth_equalityI) (auto simp: nth_append nth_list_update nth_Cons')
  ultimately show ?thesis using assms
    by (intro that [of "?ys[j + 1 := n2, j := n1]"]) (simp_all add: array_set_def)
qed

lemma balloc_lower_bound_containing:
  assumes "wf_pool pool" and "j < bp_size pool"
    and "ab (used pool ! j) \<le> unat addr" and "unat addr \<le> ae (used pool ! j)"
  shows "balloc_lower_bound pool addr = j"
proof (rule antisym)
  show "balloc_lower_bound pool addr \<le> j"
    using balloc_lower_bound_split(2) [OF assms(1,2), of addr] assms(4) by simp
  show "j \<le> balloc_lower_bound pool addr"
  proof (cases j)
    case (Suc i)
    have "ae (used pool ! i) < ab (used pool ! j)"
      using assms(1,2) Suc by (intro wf_areas_nth_less) (auto simp: wf_pool_def)
    then show ?thesis
      using balloc_lower_bound_split(2) [OF assms(1), of i addr] assms(2,3) Suc by simp
  qed simp
qed

lemma balloc_pool_delete_ok:
  assumes wf: "wf_pool pool" and room: "bp_size pool < bp_max_size pool" and pos: "0 < unat sz"
    and j: "j < bp_size pool" "ab (used pool ! j) \<le> unat addr"
      "unat addr + unat sz \<le> ae (used pool ! j)"
  shows "\<exists>pool'. balloc_pool_delete pool addr sz = Some pool' \<and> wf_pool pool' \<and>
    bp_max_size pool' = bp_max_size pool \<and>
    covered (used pool') = covered (used pool) - {unat addr ..< unat addr + unat sz}"
proof -
  define xs where "xs = used pool"
  define a where "a = xs ! j"
  have len: "length xs = bp_size pool" "bp_size pool \<le> length (bp_areas pool)"
    "length (bp_areas pool) = bp_max_size pool" and wfxs: "wf_areas xs"
    using wf by (auto simp: wf_pool_def xs_def)
  have lb: "balloc_lower_bound pool addr = j"
    using balloc_lower_bound_containing [OF wf j(1,2)] j(3) by simp
  have a: "bp_areas pool ! j = a" using j(1) by (simp add: a_def xs_def)
  have xs: "xs = take j xs @ a # drop (j + 1) xs"
    using j(1) len by (simp add: a_def id_take_nth_drop)
  have inside: "ab a \<le> unat addr" "unat addr + unat sz \<le> ae a" and ae: "ae a < 2 ^ 64"
    using j wfxs len unfolding a_def xs_def [symmetric] wf_areas_def by auto
  have e: "unat (addr + sz) = unat addr + unat sz" using inside ae by (intro unat_add_noov) simp
  have aend: "unat (ba_addr a + ba_size a) = ae a" using ae by (rule unat_add_noov)
  have result: "?thesis"
    if "balloc_pool_delete pool addr sz = Some (pool\<lparr>bp_areas := zs, bp_size := s\<rparr>)"
      and "length zs = length (bp_areas pool)" and "s \<le> length zs"
      and "take s zs = take j xs @ ns @ drop (j + 1) xs"
      and "wf_areas ns" and "\<forall>n \<in> set ns. ab a \<le> ab n \<and> ae n \<le> ae a"
      and "covered ns = {ab a ..< ae a} - {unat addr ..< unat addr + unat sz}" for zs s ns
  proof -
    have w: "wf_areas (take j xs @ a # drop (j + 1) xs)"
      using wfxs by (simp only: xs [symmetric])
    note ra = replace_area [OF w inside that(5,6,7), folded xs]
    let ?p = "pool\<lparr>bp_areas := zs, bp_size := s\<rparr>"
    have u: "used ?p = take j xs @ ns @ drop (j + 1) xs" using that(4) by simp
    have "wf_pool ?p" using that(2,3) len(3) ra(1) u by (simp add: wf_pool_def)
    moreover have "covered (used ?p) = covered (used pool) - {unat addr ..< unat addr + unat sz}"
      using ra(2) unfolding u xs_def .
    ultimately show ?thesis using that(1) by (intro exI [of _ ?p]) simp
  qed
  note update = array_prefix_update [OF j(1) len(2), folded xs_def]
  have sizes: "unat (ba_size a - sz) = unat (ba_size a) - unat sz" if "unat sz \<le> unat (ba_size a)"
    using that by (simp add: unat_sub word_le_nat_alt)
  consider (cut_front) "ba_addr a = addr" "ba_size a > sz"
    | (cut_back) "\<not> (ba_addr a = addr \<and> ba_size a > sz)" "ba_addr a + ba_size a = addr + sz" "ba_size a > sz"
    | (cut_all) "ba_addr a = addr" "ba_size a = sz"
    | (cut_mid) "\<not> (ba_addr a = addr \<and> ba_size a > sz)"
        "\<not> (ba_addr a + ba_size a = addr + sz \<and> ba_size a > sz)"
        "\<not> (ba_addr a = addr \<and> ba_size a = sz)"
    by blast
  then show ?thesis
  proof cases
    case cut_front
    let ?n = "\<lparr>ba_addr = ba_addr a + sz, ba_size = ba_size a - sz\<rparr>"
    have n: "ab ?n = unat addr + unat sz" "ae ?n = ae a"
      using cut_front e sizes by (simp_all add: word_less_nat_alt)
    show ?thesis
    proof (rule result [where zs = "(bp_areas pool)[j := ?n]" and s = "bp_size pool" and ns = "[?n]"])
      show "balloc_pool_delete pool addr sz =
          Some (pool\<lparr>bp_areas := (bp_areas pool)[j := ?n], bp_size := bp_size pool\<rparr>)"
        using cut_front j(1) len by (simp add: balloc_pool_delete_def Let_def lb a)
    qed (use n inside ae cut_front len update in \<open>auto simp: wf_areas_simps\<close>)
  next
    case cut_back
    let ?n = "a\<lparr>ba_size := ba_size a - sz\<rparr>"
    have "ae a = unat addr + unat sz" using cut_back(2) aend e by (metis)
    then have n: "ab ?n = ab a" "ae ?n = unat addr"
      using cut_back(3) sizes by (simp_all add: word_less_nat_alt)
    show ?thesis
    proof (rule result [where zs = "(bp_areas pool)[j := ?n]" and s = "bp_size pool" and ns = "[?n]"])
      show "balloc_pool_delete pool addr sz =
          Some (pool\<lparr>bp_areas := (bp_areas pool)[j := ?n], bp_size := bp_size pool\<rparr>)"
        using cut_back j(1) len by (auto simp: balloc_pool_delete_def Let_def lb a)
    qed (use n inside ae \<open>ae a = _\<close> len update in \<open>auto simp: wf_areas_simps\<close>)
  next
    case cut_all
    obtain zs where zs: "array_move j (j + 1) (bp_size pool - j - 1) (bp_areas pool) = Some zs"
      "length zs = length (bp_areas pool)"
      "take (bp_size pool - 1) zs = take j xs @ drop (j + 1) xs"
      using array_prefix_remove [OF j(1) len(2)] unfolding xs_def by blast
    show ?thesis
    proof (rule result [where zs = zs and s = "bp_size pool - 1" and ns = "[]"])
      show "balloc_pool_delete pool addr sz = Some (pool\<lparr>bp_areas := zs, bp_size := bp_size pool - 1\<rparr>)"
        using cut_all j(1) len zs(1) aend e
        by (simp add: balloc_pool_delete_def Let_def lb a)
    qed (use zs inside cut_all len in \<open>auto simp: wf_areas_simps\<close>)
  next
    case cut_mid
    have strict: "ab a < unat addr" "unat addr + unat sz < ae a"
      using cut_mid inside pos aend e
      by (auto simp: word_less_nat_alt word_unat_eq_iff)
    let ?n1 = "a\<lparr>ba_size := addr - ba_addr a\<rparr>"
    let ?n2 = "\<lparr>ba_addr = addr + sz, ba_size = ba_addr a + ba_size a - (addr + sz)\<rparr>"
    have n: "ab ?n1 = ab a" "ae ?n1 = unat addr" "ab ?n2 = unat addr + unat sz" "ae ?n2 = ae a"
      using strict e aend by (simp_all add: unat_sub word_le_nat_alt)
    obtain zs where zs: "(array_move (j + 2) (j + 1) (bp_size pool - j - 1) (bp_areas pool)
        \<bind> array_set (j + 1) ?n2) \<bind> array_set j ?n1 = Some zs"
      "length zs = length (bp_areas pool)"
      "take (bp_size pool + 1) zs = take j xs @ [?n1, ?n2] @ drop (j + 1) xs"
      using array_prefix_split [OF j(1), of "bp_areas pool" ?n2 ?n1] room len unfolding xs_def by auto
    show ?thesis
    proof (rule result [where zs = zs and s = "bp_size pool + 1" and ns = "[?n1, ?n2]"])
      show "balloc_pool_delete pool addr sz = Some (pool\<lparr>bp_areas := zs, bp_size := bp_size pool + 1\<rparr>)"
        using cut_mid j(1) len zs(1)
        by (auto simp: balloc_pool_delete_def Let_def lb a Option.bind_assoc bind_eq_Some_conv)
    qed (use zs n inside ae strict pos len room in \<open>auto simp: wf_areas_simps\<close>)
  qed
qed

section \<open>Aligned allocation\<close>

text \<open>A block of \<^verbatim>\<open>n\<close> bytes at \<^verbatim>\<open>m\<close> fits a request in an area.\<close>

definition fits :: "u64 \<Rightarrow> u64 \<Rightarrow> nat \<Rightarrow> nat \<Rightarrow> balloc_area \<Rightarrow> nat \<Rightarrow> bool" where
  "fits low high n k a m \<longleftrightarrow> 2 ^ k dvd m \<and> unat low \<le> m \<and> m + n \<le> unat high \<and>
     ab a \<le> m \<and> m + n \<le> ae a"

definition alloc_start :: "u64 \<Rightarrow> u64 \<Rightarrow> u64 \<Rightarrow> balloc_area \<Rightarrow> u64" where
  "alloc_start low high align a = ALIGN (if ba_addr a < low then low else ba_addr a) align"

definition alloc_end :: "u64 \<Rightarrow> balloc_area \<Rightarrow> u64" where
  "alloc_end high a = (if ba_addr a + ba_size a > high then high else ba_addr a + ba_size a)"

lemma alloc_start_fits:
  assumes k: "k < 64" "unat high + 2 ^ k \<le> 2 ^ 64" and lh: "unat low \<le> unat high"
    and a: "ae a < 2 ^ 64" "ab a \<le> unat high" and sz: "0 < unat sz"
  defines "start \<equiv> alloc_start low high (2 ^ k) a" and "end \<equiv> alloc_end high a"
  shows "(\<exists>m. fits low high (unat sz) k a m) \<longleftrightarrow> \<not> (start \<ge> end \<or> end - start < sz)"
    and "\<not> (start \<ge> end \<or> end - start < sz) \<Longrightarrow> fits low high (unat sz) k a (unat start)"
proof -
  let ?s0 = "if ba_addr a < low then low else ba_addr a"
  have s0: "unat ?s0 = max (ab a) (unat low)" by (auto simp: word_less_nat_alt)
  then have ov: "unat ?s0 + 2 ^ k \<le> 2 ^ 64" using k lh a(2) by simp
  have st: "unat ?s0 \<le> unat start" "2 ^ k dvd unat start"
    and least: "2 ^ k dvd m \<Longrightarrow> unat ?s0 \<le> m \<Longrightarrow> unat start \<le> m" for m
    unfolding start_def alloc_start_def
    using ALIGN_bounds [OF k(1) ov] ALIGN_least [OF k(1) ov, of m] by auto
  have en: "unat end = min (ae a) (unat high)"
    using unat_add_noov [OF a(1)] by (auto simp: end_def alloc_end_def word_less_nat_alt)
  have cond: "\<not> (start \<ge> end \<or> end - start < sz) \<longleftrightarrow> unat start + unat sz \<le> unat end"
    using sz by (auto simp: word_le_nat_alt word_less_nat_alt unat_sub not_less not_le)
  show fit: "\<not> (start \<ge> end \<or> end - start < sz) \<Longrightarrow> fits low high (unat sz) k a (unat start)"
    unfolding cond fits_def using st s0 en by simp
  show "(\<exists>m. fits low high (unat sz) k a m) \<longleftrightarrow> \<not> (start \<ge> end \<or> end - start < sz)"
  proof
    assume "\<exists>m. fits low high (unat sz) k a m"
    then obtain m where m: "fits low high (unat sz) k a m" ..
    then have "unat start \<le> m" using s0 by (intro least) (auto simp: fits_def)
    then show "\<not> (start \<ge> end \<or> end - start < sz)"
      unfolding cond using m en by (simp add: fits_def)
  qed (use fit in blast)
qed

lemma balloc_alloc_loop_ok:
  assumes wf: "wf_pool pool" and room: "bp_size pool < bp_max_size pool"
    and k: "k < 64" "unat high + 2 ^ k \<le> 2 ^ 64" and lh: "unat low \<le> unat high" and sz: "0 < unat sz"
    and range: "i + m \<le> bp_size pool" "\<forall>j<i + m. ab (used pool ! j) \<le> unat high"
  shows "\<exists>r pool'. balloc_alloc_loop pool i m low high sz (2 ^ k) = Some (r, pool') \<and>
    (case r of
       None \<Rightarrow> pool' = pool \<and> (\<forall>j. i \<le> j \<and> j < i + m \<longrightarrow> (\<nexists>x. fits low high (unat sz) k (used pool ! j) x))
     | Some a \<Rightarrow> (\<exists>j<bp_size pool. fits low high (unat sz) k (used pool ! j) (unat a)) \<and>
         wf_pool pool' \<and> bp_max_size pool' = bp_max_size pool \<and>
         covered (used pool') = covered (used pool) - {unat a ..< unat a + unat sz})"
  using range
proof (induction m arbitrary: i)
  case 0
  then show ?case by fastforce
next
  case (Suc m)
  define a where "a = used pool ! i"
  have i: "i < bp_size pool" and a': "bp_areas pool ! i = a" using Suc.prems by (auto simp: a_def)
  have "a \<in> set (used pool)"
    unfolding a_def using i wf by (intro nth_mem) (simp add: wf_pool_def)
  then have ae: "ae a < 2 ^ 64" using wf by (auto simp: wf_pool_def wf_areas_def)
  have abh: "ab a \<le> unat high" using Suc.prems(2) by (simp add: a_def)
  let ?st = "alloc_start low high (2 ^ k) a" and ?en = "alloc_end high a"
  note f = alloc_start_fits [OF k lh ae abh sz]
  have step: "balloc_alloc_loop pool i (Suc m) low high sz (2 ^ k) =
    (if ?st \<ge> ?en \<or> ?en - ?st < sz then balloc_alloc_loop pool (i + 1) m low high sz (2 ^ k)
     else balloc_pool_delete pool ?st sz \<bind> (\<lambda>p. Some (Some ?st, p)))"
    by (simp add: Let_def a' alloc_start_def alloc_end_def)
  show ?case
  proof (cases "?st \<ge> ?en \<or> ?en - ?st < sz")
    case True
    then have no: "\<nexists>x. fits low high (unat sz) k (used pool ! i) x" using f(1) by (simp add: a_def)
    have "j = i \<or> i + 1 \<le> j" if "i \<le> j" for j using that by auto
    with Suc.IH [of "i + 1"] Suc.prems no True show ?thesis
      unfolding step by (fastforce split: option.splits)
  next
    case False
    then have fit: "fits low high (unat sz) k a (unat ?st)" using f(2) by simp
    then have "ab a \<le> unat ?st" "unat ?st + unat sz \<le> ae a" by (auto simp: fits_def)
    from balloc_pool_delete_ok [OF wf room sz i this [unfolded a_def]] obtain p where
      p: "balloc_pool_delete pool ?st sz = Some p" "wf_pool p" "bp_max_size p = bp_max_size pool"
        "covered (used p) = covered (used pool) - {unat ?st ..< unat ?st + unat sz}"
      unfolding a_def by blast
    then show ?thesis using False fit i unfolding step by (auto simp: a_def)
  qed
qed

lemma fits_in_bounds:
  assumes "wf_pool pool" and "j < bp_size pool" and "0 < n" and "fits low high n k (used pool ! j) m"
  shows "balloc_lower_bound pool low \<le> j" and "j < balloc_upper_bound pool high"
  using assms balloc_lower_bound_split(2) [OF assms(1,2), of low]
    balloc_upper_bound_split(2) [OF assms(1,2), of high] by (auto simp: fits_def)

lemma balloc_alloc_aligned_from_pool_ok:
  assumes wf: "wf_pool pool" and room: "bp_size pool < bp_max_size pool"
    and k: "k < 64" "unat high + 2 ^ k \<le> 2 ^ 64" and lh: "unat low \<le> unat high" and sz: "0 < unat sz"
  shows "\<exists>r pool'. balloc_alloc_aligned_from_pool pool low high sz (2 ^ k) = Some (r, pool') \<and>
    (case r of
       None \<Rightarrow> pool' = pool \<and> (\<forall>a \<in> set (used pool). \<nexists>x. fits low high (unat sz) k a x)
     | Some a \<Rightarrow> (\<exists>j<bp_size pool. fits low high (unat sz) k (used pool ! j) (unat a)) \<and>
         wf_pool pool' \<and> bp_max_size pool' = bp_max_size pool \<and>
         covered (used pool') = covered (used pool) - {unat a ..< unat a + unat sz})"
proof -
  let ?f = "balloc_lower_bound pool low" and ?l = "balloc_upper_bound pool high"
  have fl: "?f \<le> ?l" "?l \<le> bp_size pool"
    using balloc_bounds_ordered [OF wf lh] balloc_upper_bound_split(1) [OF wf] by auto
  have "\<forall>j<?f + (?l - ?f). ab (used pool ! j) \<le> unat high"
    using balloc_upper_bound_split(2) [OF wf, of _ high] fl by (metis le_add_diff_inverse less_le_trans)
  from balloc_alloc_loop_ok [OF wf room k lh sz _ this] fl obtain r pool' where
    loop: "balloc_alloc_loop pool ?f (?l - ?f) low high sz (2 ^ k) = Some (r, pool')" and
    post: "case r of
       None \<Rightarrow> pool' = pool \<and> (\<forall>j. ?f \<le> j \<and> j < ?f + (?l - ?f) \<longrightarrow> (\<nexists>x. fits low high (unat sz) k (used pool ! j) x))
     | Some a \<Rightarrow> (\<exists>j<bp_size pool. fits low high (unat sz) k (used pool ! j) (unat a)) \<and>
         wf_pool pool' \<and> bp_max_size pool' = bp_max_size pool \<and>
         covered (used pool') = covered (used pool) - {unat a ..< unat a + unat sz}"
    by auto
  have "\<forall>a \<in> set (used pool). \<nexists>x. fits low high (unat sz) k a x" if "r = None"
  proof
    fix a assume "a \<in> set (used pool)"
    then obtain j where j: "j < bp_size pool" "a = used pool ! j" by (auto simp: in_set_conv_nth)
    show "\<nexists>x. fits low high (unat sz) k a x"
    proof
      assume "\<exists>x. fits low high (unat sz) k a x"
      then obtain x where x: "fits low high (unat sz) k (used pool ! j) x" using j(2) by blast
      from fits_in_bounds [OF wf j(1) sz x] have "?f \<le> j" "j < ?f + (?l - ?f)" using fl by auto
      with post that x show False by (simp only: option.case) blast
    qed
  qed
  then show ?thesis
    using loop post by (auto simp: balloc_alloc_aligned_from_pool_def split: option.splits)
qed

section \<open>Properties of the boot allocator\<close>

text \<open>C6: inserting a range into a well-formed pool with a free slot succeeds, keeps the pool sorted,
  disjoint and non-adjacent, and adds exactly the addresses of the range.\<close>

theorem balloc_insert_correct:
  assumes "wf_pool pool" and "bp_size pool < bp_max_size pool" and "unat addr + unat sz < 2 ^ 64"
  shows "\<exists>pool'. balloc_pool_insert pool addr sz = Some pool' \<and> wf_pool pool' \<and>
    covered (used pool') = covered (used pool) \<union> {unat addr ..< unat addr + unat sz}"
  using balloc_pool_insert_ok [OF assms] by blast

definition sample_pool :: balloc_pool where
  "sample_pool = \<lparr>bp_areas = [\<lparr>ba_addr = 16, ba_size = 16\<rparr>, \<lparr>ba_addr = 64, ba_size = 4096\<rparr>,
     \<lparr>ba_addr = 0, ba_size = 0\<rparr>], bp_max_size = 3, bp_size = 2\<rparr>"

lemma sample_pool_wf: "wf_pool sample_pool" "bp_size sample_pool < bp_max_size sample_pool"
  by (simp_all add: sample_pool_def wf_pool_def wf_areas_def)

theorem balloc_insert_correct_witness:
  "\<exists>pool'. balloc_pool_insert sample_pool 32 32 = Some pool' \<and> wf_pool pool' \<and>
    covered (used pool') = covered (used sample_pool) \<union> {32 ..< 64}"
  using balloc_insert_correct [OF sample_pool_wf, of 32 32] by simp

text \<open>Reserving a non-empty range that lies inside one area of a well-formed pool with a free
  slot succeeds, keeps the pool well formed and removes exactly the addresses of the range.\<close>

theorem balloc_delete_correct:
  assumes "wf_pool pool" and "bp_size pool < bp_max_size pool" and "0 < unat sz"
    and "a \<in> set (used pool)" and "ab a \<le> unat addr" and "unat addr + unat sz \<le> ae a"
  shows "\<exists>pool'. balloc_pool_delete pool addr sz = Some pool' \<and> wf_pool pool' \<and>
    covered (used pool') = covered (used pool) - {unat addr ..< unat addr + unat sz}"
proof -
  obtain j where "j < bp_size pool" "a = used pool ! j"
    using assms(4) by (auto simp: in_set_conv_nth)
  then show ?thesis using balloc_pool_delete_ok [OF assms(1-3)] assms(5,6) by blast
qed

theorem balloc_delete_correct_witness:
  "\<exists>pool'. balloc_pool_delete sample_pool 128 64 = Some pool' \<and> wf_pool pool' \<and>
    covered (used pool') = covered (used sample_pool) - {128 ..< 192}"
  using balloc_delete_correct [OF sample_pool_wf, of 64 "\<lparr>ba_addr = 64, ba_size = 4096\<rparr>" 128]
  by (simp add: sample_pool_def)

text \<open>C4: an aligned allocation always returns; the block it returns is aligned, inside the requested
  window, was free before and is removed from the free pool, whose other addresses stay free;
  it reports failure only when no free area holds an aligned block of that size in the window.\<close>

theorem balloc_alloc_aligned_correct:
  assumes "wf_pool (ba_free s)" and "bp_size (ba_free s) < bp_max_size (ba_free s)"
    and "k < 64" and "unat high + 2 ^ k \<le> 2 ^ 64" and "0 < unat sz"
  shows "\<exists>r s'. balloc_alloc_aligned low high sz (2 ^ k) s = Some (r, s') \<and> ba_all s' = ba_all s \<and>
    (case r of
       None \<Rightarrow> s' = s \<and> (\<forall>a \<in> set (used (ba_free s)). \<nexists>x. fits low high (unat sz) k a x)
     | Some a \<Rightarrow> 2 ^ k dvd unat a \<and> unat low \<le> unat a \<and> unat a + unat sz \<le> unat high \<and>
         {unat a ..< unat a + unat sz} \<subseteq> covered (used (ba_free s)) \<and> wf_pool (ba_free s') \<and>
         covered (used (ba_free s')) = covered (used (ba_free s)) - {unat a ..< unat a + unat sz})"
proof (cases "low \<ge> high \<or> high - low < sz")
  case True
  then have "unat high < unat low + unat sz"
    using assms(5) by (auto simp: word_le_nat_alt word_less_nat_alt unat_sub_if' split: if_splits)
  then show ?thesis using True by (auto simp: balloc_alloc_aligned_def fits_def)
next
  case False
  then have "unat low \<le> unat high" by (simp add: word_le_nat_alt not_le)
  from balloc_alloc_aligned_from_pool_ok [OF assms(1-4) this assms(5)] obtain r f where
    al: "balloc_alloc_aligned_from_pool (ba_free s) low high sz (2 ^ k) = Some (r, f)" and
    post: "case r of
       None \<Rightarrow> f = ba_free s \<and> (\<forall>a \<in> set (used (ba_free s)). \<nexists>x. fits low high (unat sz) k a x)
     | Some a \<Rightarrow> (\<exists>j<bp_size (ba_free s). fits low high (unat sz) k (used (ba_free s) ! j) (unat a)) \<and>
         wf_pool f \<and> bp_max_size f = bp_max_size (ba_free s) \<and>
         covered (used f) = covered (used (ba_free s)) - {unat a ..< unat a + unat sz}"
    by blast
  have sub: "{m ..< m + n} \<subseteq> covered (used (ba_free s))"
    if "j < bp_size (ba_free s)" "fits low high n k (used (ba_free s) ! j) m" for j m n
  proof -
    have "used (ba_free s) ! j \<in> set (used (ba_free s))"
      using that(1) assms(1) by (intro nth_mem) (simp add: wf_pool_def)
    moreover have "{m ..< m + n} \<subseteq> {ab (used (ba_free s) ! j) ..< ae (used (ba_free s) ! j)}"
      using that(2) by (auto simp: fits_def)
    ultimately show ?thesis unfolding covered_def by blast
  qed
  have run: "balloc_alloc_aligned low high sz (2 ^ k) s = Some (r, s\<lparr>ba_free := f\<rparr>)"
    using al False by (simp add: balloc_alloc_aligned_def)
  show ?thesis
  proof (cases r)
    case None
    then show ?thesis using run post by simp
  next
    case (Some a)
    then obtain j where j: "j < bp_size (ba_free s)"
      "fits low high (unat sz) k (used (ba_free s) ! j) (unat a)" using post by auto
    from sub [OF j] j(2) show ?thesis using run post Some by (simp add: fits_def)
  qed
qed

theorem balloc_alloc_aligned_correct_witness:
  "\<exists>r s'. balloc_alloc_aligned 0 65536 64 (2 ^ 12) \<lparr>ba_all = sample_pool, ba_free = sample_pool\<rparr>
      = Some (r, s') \<and> (\<forall>a. r = Some a \<longrightarrow> 4096 dvd unat a) \<and> wf_pool (ba_free s')"
proof -
  let ?s = "\<lparr>ba_all = sample_pool, ba_free = sample_pool\<rparr>"
  obtain r s' where "balloc_alloc_aligned 0 65536 64 (2 ^ 12) ?s = Some (r, s')"
    and "case r of None \<Rightarrow> s' = ?s
      | Some a \<Rightarrow> 2 ^ 12 dvd unat a \<and> wf_pool (ba_free s')"
    using balloc_alloc_aligned_correct [of ?s 12 65536 64 0] sample_pool_wf
    by (auto split: option.splits)
  then show ?thesis using sample_pool_wf by (cases r) auto
qed

end
