(* ===== verification/Buddy.thy ===== *)
theory Buddy
  imports Intrusive_List Boot_Alloc
begin

text \<open>
  The page allocator of \<^verbatim>\<open>src/memory.c\<close> and \<^verbatim>\<open>src/memory.h\<close>: memory nodes, their page
  descriptors and the binary buddy allocator. A \<^verbatim>\<open>struct page *\<close> of a node is its index in the
  node's \<^verbatim>\<open>mmap\<close> array, which is also the node-relative page frame number; frame numbers are
  natural numbers because \<^verbatim>\<open>MAX_PHYS_SIZE\<close> keeps them below \<^verbatim>\<open>2^24\<close>. The free lists are the
  intrusive lists of \<^verbatim>\<open>list.c\<close>, one heap per node, used through the contract of
  \<^verbatim>\<open>Intrusive_List\<close>.

  The invariant relates a node to the ghost sets of free blocks, allocated blocks and the block
  in transit inside an operation; page flags are constrained only for block heads, because
  merging leaves stale flags behind on the upper half of a merged block.
\<close>

section \<open>Pages and nodes\<close>

definition BUDDY_ORDERS :: nat where "BUDDY_ORDERS = 12"

definition PAGE_NODE_BITS :: nat where "PAGE_NODE_BITS = 8"
definition PAGE_NODE_MASK :: u64 where "PAGE_NODE_MASK = BIT_CONST PAGE_NODE_BITS - 1"
definition PAGE_BUSY_MASK :: u64 where "PAGE_BUSY_MASK = BIT_CONST PAGE_NODE_BITS"

text \<open>The union \<^verbatim>\<open>u\<close> of \<^verbatim>\<open>struct page\<close> is one 64-bit cell; \<^verbatim>\<open>u.order\<close> is its low 32 bits.\<close>

record page =
  pg_flags :: u64
  pg_u :: u64

definition page_node_id :: "page \<Rightarrow> nat" where
  "page_node_id p = unat (pg_flags p AND PAGE_NODE_MASK)"

definition page_busy :: "page \<Rightarrow> bool" where
  "page_busy p \<longleftrightarrow> pg_flags p AND PAGE_BUSY_MASK \<noteq> 0"

definition page_free :: "page \<Rightarrow> bool" where
  "page_free p \<longleftrightarrow> \<not> page_busy p"

definition page_set_busy :: "page \<Rightarrow> page" where
  "page_set_busy p = p\<lparr>pg_flags := pg_flags p OR PAGE_BUSY_MASK\<rparr>"

definition page_set_free :: "page \<Rightarrow> page" where
  "page_set_free p = p\<lparr>pg_flags := pg_flags p AND NOT PAGE_BUSY_MASK\<rparr>"

definition page_get_order :: "page \<Rightarrow> int" where
  "page_get_order p = sint (ucast (pg_u p) :: u32)"

definition page_set_order :: "int \<Rightarrow> page \<Rightarrow> page" where
  "page_set_order order p =
     p\<lparr>pg_u := (pg_u p AND NOT (mask 32)) OR ucast (word_of_int order :: u32)\<rparr>"

datatype node_type = NT_LOW | NT_HIGH

text \<open>Link cells: the heads \<^verbatim>\<open>free_list[i]\<close> of the node and the \<^verbatim>\<open>link\<close> fields of its pages.\<close>

datatype bptr = FreeHead nat | PageLink nat

record memory_node =
  mn_mmap :: "page list"
  mn_links :: "bptr list_heap"
  mn_begin_pfn :: nat
  mn_end_pfn :: nat
  mn_id :: nat
  mn_type :: node_type

text \<open>\<^verbatim>\<open>LIST_ENTRY(ptr, struct page, link)\<close>; never applied to a list head.\<close>

fun LIST_ENTRY_page :: "bptr \<Rightarrow> nat" where
  "LIST_ENTRY_page (PageLink p) = p"
| "LIST_ENTRY_page (FreeHead i) = 0"

definition page_upd :: "nat \<Rightarrow> (page \<Rightarrow> page) \<Rightarrow> memory_node \<Rightarrow> memory_node" where
  "page_upd i f node = node\<lparr>mn_mmap := (mn_mmap node)[i := f (mn_mmap node ! i)]\<rparr>"

definition links_upd :: "(bptr list_heap \<Rightarrow> bptr list_heap) \<Rightarrow> memory_node \<Rightarrow> memory_node" where
  "links_upd f node = node\<lparr>mn_links := f (mn_links node)\<rparr>"

section \<open>The buddy algorithm on one node\<close>

function pfn_max_order_from :: "nat \<Rightarrow> nat \<Rightarrow> nat" where
  "pfn_max_order_from pfn i =
     (if i < BUDDY_ORDERS - 1
      then if pfn AND push_bit i 1 \<noteq> 0 then i else pfn_max_order_from pfn (i + 1)
      else BUDDY_ORDERS - 1)"
  by pat_completeness auto
termination
  by (relation "measure (\<lambda>(pfn, i). BUDDY_ORDERS - i)") auto

declare pfn_max_order_from.simps [simp del]

definition pfn_max_order :: "nat \<Rightarrow> nat" where
  "pfn_max_order pfn = pfn_max_order_from pfn 0"

definition buddy_pfn :: "nat \<Rightarrow> nat \<Rightarrow> nat" where
  "buddy_pfn pfn order = pfn XOR push_bit order 1"

function find_coorder :: "memory_node \<Rightarrow> nat \<Rightarrow> nat" where
  "find_coorder node coorder =
     (if coorder < BUDDY_ORDERS
      then if \<not> list_empty (mn_links node) (FreeHead coorder) then coorder
           else find_coorder node (coorder + 1)
      else coorder)"
  by pat_completeness auto
termination
  by (relation "measure (\<lambda>(node, i). BUDDY_ORDERS - i)") auto

declare find_coorder.simps [simp del]

text \<open>The loop \<^verbatim>\<open>while (coorder > order)\<close> of \<^verbatim>\<open>__alloc_pages_node\<close>.\<close>

fun split_pages :: "memory_node \<Rightarrow> nat \<Rightarrow> nat \<Rightarrow> nat \<Rightarrow> memory_node" where
  "split_pages node pg 0 order = node"
| "split_pages node pg (Suc coorder) order =
     (if Suc coorder > order
      then let bpfn = buddy_pfn pg coorder;
               node = page_upd bpfn (page_set_order (int coorder)) node;
               node = page_upd bpfn page_set_free node;
               node = links_upd (list_add (PageLink bpfn) (FreeHead coorder)) node
           in split_pages node pg coorder order
      else node)"

definition alloc_pages_node_unlocked :: "nat \<Rightarrow> memory_node \<Rightarrow> nat option \<times> memory_node" where
  "alloc_pages_node_unlocked order node =
     (let coorder = find_coorder node order
      in if coorder \<ge> BUDDY_ORDERS then (None, node)
         else let pg = LIST_ENTRY_page (list_first (mn_links node) (FreeHead coorder));
                  node = links_upd (list_del (PageLink pg)) node;
                  node = page_upd pg page_set_busy node
              in (Some pg, split_pages node pg coorder order))"

text \<open>The loop of \<^verbatim>\<open>__free_pages_node\<close>: the node, the block's frame and its order when it ends.\<close>

function merge_pages :: "memory_node \<Rightarrow> nat \<Rightarrow> nat \<Rightarrow> memory_node \<times> nat \<times> nat" where
  "merge_pages node pfn order =
     (let node_pfns = mn_end_pfn node - mn_begin_pfn node;
          bpfn = buddy_pfn pfn order;
          buddy = mn_mmap node ! bpfn
      in if order < BUDDY_ORDERS - 1
         then if bpfn \<ge> node_pfns then (node, pfn, order)
              else if bpfn + push_bit order 1 > node_pfns then (node, pfn, order)
              else if page_busy buddy then (node, pfn, order)
              else if int order \<noteq> page_get_order buddy then (node, pfn, order)
              else merge_pages (links_upd (list_del (PageLink bpfn)) node)
                     (if bpfn < pfn then bpfn else pfn) (order + 1)
         else (node, pfn, order))"
  by pat_completeness auto
termination
  by (relation "measure (\<lambda>(node, pfn, order). BUDDY_ORDERS - order)") (auto simp: BUDDY_ORDERS_def)

declare merge_pages.simps [simp del]

definition free_pages_node_unlocked :: "nat \<Rightarrow> nat \<Rightarrow> memory_node \<Rightarrow> memory_node" where
  "free_pages_node_unlocked pages order node =
     (let (node, pg, order) = merge_pages node pages order;
          node = page_upd pg (page_set_order (int order)) node;
          node = page_upd pg page_set_free node
      in links_upd (list_add (PageLink pg) (FreeHead order)) node)"

section \<open>Facts about page descriptors\<close>

lemma bit_PAGE_BUSY_MASK [simp]: "bit PAGE_BUSY_MASK n \<longleftrightarrow> n = 8"
  unfolding PAGE_BUSY_MASK_def BIT_CONST_def PAGE_NODE_BITS_def bit_push_bit_iff bit_1_iff
  by auto

lemma page_busy_bit: "page_busy p \<longleftrightarrow> bit (pg_flags p) 8"
  by (simp add: page_busy_def PAGE_BUSY_MASK_def BIT_CONST_def PAGE_NODE_BITS_def
      bit_iff_and_push_bit_not_eq_0)

lemma page_set_busy_busy [simp]: "page_busy (page_set_busy p)"
  by (simp add: page_busy_bit page_set_busy_def bit_simps)

lemma page_set_free_busy [simp]: "\<not> page_busy (page_set_free p)"
  by (simp add: page_busy_bit page_set_free_def bit_simps)

lemma page_set_order_busy [simp]: "page_busy (page_set_order n p) \<longleftrightarrow> page_busy p"
  by (simp add: page_busy_def page_set_order_def)

lemma PAGE_NODE_MASK_mask: "PAGE_NODE_MASK = mask 8"
  by (simp add: PAGE_NODE_MASK_def BIT_CONST_def PAGE_NODE_BITS_def mask_eq_exp_minus_1 push_bit_eq_mult)

lemma page_set_node_id [simp]:
  "page_node_id (page_set_busy p) = page_node_id p"
  "page_node_id (page_set_free p) = page_node_id p"
  "page_node_id (page_set_order n p) = page_node_id p"
proof -
  have "(f OR PAGE_BUSY_MASK) AND mask 8 = f AND mask 8"
    "(f AND NOT PAGE_BUSY_MASK) AND mask 8 = f AND mask 8" for f :: u64
    by (rule bit_word_eqI, auto simp: bit_simps)+
  then show "page_node_id (page_set_busy p) = page_node_id p"
    "page_node_id (page_set_free p) = page_node_id p"
    "page_node_id (page_set_order n p) = page_node_id p"
    by (simp_all add: page_node_id_def page_set_busy_def page_set_free_def page_set_order_def
        PAGE_NODE_MASK_mask)
qed

lemma page_get_set_order [simp]:
  assumes "0 \<le> n" "n < 2 ^ 31"
  shows "page_get_order (page_set_order n p) = n"
proof -
  have "(ucast ((pg_u p AND NOT (mask 32)) OR ucast (word_of_int n :: u32)) :: u32) = word_of_int n"
    by (rule bit_word_eqI) (auto simp: bit_simps)
  then have "page_get_order (page_set_order n p) = sint (word_of_int n :: u32)"
    by (simp add: page_get_order_def page_set_order_def)
  also have "\<dots> = n"
    using assms by (simp add: sint_sbintrunc' signed_take_bit_int_eq_self_iff)
  finally show ?thesis .
qed

lemma page_get_order_set_free [simp]:
  "page_get_order (page_set_free p) = page_get_order p"
  "page_get_order (page_set_busy p) = page_get_order p"
  by (simp_all add: page_get_order_def page_set_free_def page_set_busy_def)

section \<open>Aligned blocks and buddies\<close>

definition blk :: "nat \<Rightarrow> nat \<Rightarrow> nat set" where
  "blk p k = {p ..< p + 2 ^ k}"

lemma blk_mem [simp]: "x \<in> blk p k \<longleftrightarrow> p \<le> x \<and> x < p + 2 ^ k"
  by (simp add: blk_def)

lemma blk_head: "p \<in> blk p k"
  by simp

lemma buddy_pfn_buddy [simp]: "buddy_pfn (buddy_pfn p k) k = p"
  by (simp add: buddy_pfn_def xor.assoc)

lemma buddy_pfn_eq:
  "buddy_pfn p k = (if bit p k then p - 2 ^ k else p + 2 ^ k)"
proof -
  have up: "buddy_pfn q k = q + 2 ^ k" if "\<not> bit q k" for q
    using that disjunctive_add_eq_xor [of q "2 ^ k"]
    by (simp add: buddy_pfn_def push_bit_eq_mult and_exp_eq_0_iff_not_bit)
  have "\<not> bit (buddy_pfn p k) k" if "bit p k"
    using that by (simp add: buddy_pfn_def bit_simps)
  then have "p = buddy_pfn p k + 2 ^ k" if "bit p k"
    using up [of "buddy_pfn p k"] that by simp
  then show ?thesis using up by auto
qed

lemma aligned_bit: "2 ^ k dvd (p :: nat) \<Longrightarrow> bit p k \<longleftrightarrow> \<not> 2 ^ Suc k dvd p"
  by (auto simp: bit_iff_odd elim!: dvdE)

lemma buddy_pfn_low: "2 ^ Suc k dvd p \<Longrightarrow> buddy_pfn p k = p + 2 ^ k"
proof -
  assume *: "2 ^ Suc k dvd p"
  then have "2 ^ k dvd p" by (metis dvd_trans le_imp_power_dvd le_Suc_eq order_refl)
  with * show "buddy_pfn p k = p + 2 ^ k" using aligned_bit [of k p] by (simp add: buddy_pfn_eq)
qed

lemma buddy_pfn_high:
  assumes "2 ^ k dvd p" and "\<not> 2 ^ Suc k dvd p"
  shows "2 ^ k \<le> p" and "buddy_pfn p k = p - 2 ^ k" and "2 ^ Suc k dvd p - 2 ^ k"
proof -
  obtain q where q: "p = 2 ^ k * q" using assms(1) by blast
  then have "odd q" using assms(2) by auto
  then obtain r where "q = 2 * r + 1" using oddE by blast
  then have "p = 2 ^ Suc k * r + 2 ^ k" using q by (simp add: algebra_simps)
  then show "2 ^ k \<le> p" and "2 ^ Suc k dvd p - 2 ^ k" by simp_all
  show "buddy_pfn p k = p - 2 ^ k"
    using aligned_bit [OF assms(1)] assms(2) by (simp add: buddy_pfn_eq)
qed

text \<open>A block and its buddy are the halves of the block of the next order at their minimum.\<close>

lemma buddy_pair:
  assumes "2 ^ k dvd p"
  shows "2 ^ k dvd buddy_pfn p k" and "2 ^ Suc k dvd min p (buddy_pfn p k)"
    and "blk p k \<inter> blk (buddy_pfn p k) k = {}"
    and "blk p k \<union> blk (buddy_pfn p k) k = blk (min p (buddy_pfn p k)) (Suc k)"
    and "buddy_pfn p k \<noteq> p"
proof -
  have *: "2 ^ k dvd buddy_pfn p k \<and> 2 ^ Suc k dvd min p (buddy_pfn p k) \<and>
      (buddy_pfn p k = p + 2 ^ k \<or> p = buddy_pfn p k + 2 ^ k)"
  proof (cases "2 ^ Suc k dvd p")
    case True
    then show ?thesis using assms by (auto simp: buddy_pfn_low)
  next
    case False
    note h = buddy_pfn_high [OF assms False]
    then have "min p (buddy_pfn p k) = p - 2 ^ k" by simp
    then show ?thesis using assms h by (auto intro: dvd_diff_nat)
  qed
  then show "2 ^ k dvd buddy_pfn p k" and "2 ^ Suc k dvd min p (buddy_pfn p k)" by auto
  have pos: "0 < (2 :: nat) ^ k" by simp
  from * show "buddy_pfn p k \<noteq> p" by (metis add_eq_self_zero nat_less_le pos)
  from * consider "buddy_pfn p k = p + 2 ^ k" | "p = buddy_pfn p k + 2 ^ k" by blast
  note cases = this
  show "blk p k \<inter> blk (buddy_pfn p k) k = {}"
    using cases by cases (auto simp: blk_def)
  show "blk p k \<union> blk (buddy_pfn p k) k = blk (min p (buddy_pfn p k)) (Suc k)"
    using cases by cases (auto simp: blk_def)
qed

text \<open>An aligned frame inside a larger or equal aligned block is its head or has its buddy inside too.\<close>

lemma aligned_inside:
  assumes "2 ^ k dvd b" and "2 ^ j dvd q" and "b \<in> blk q j" and "b \<noteq> q"
  shows "k < j" and "blk b k \<union> blk (buddy_pfn b k) k \<subseteq> blk q j"
proof -
  show "k < j"
  proof (rule ccontr)
    assume "\<not> k < j"
    then have "2 ^ j dvd b" using assms(1) by (meson dvd_trans le_imp_power_dvd not_le)
    then have "2 ^ j dvd b - q" using assms(2,3) by (simp add: dvd_diff_nat)
    moreover have "0 < b - q" "b - q < 2 ^ j" using assms(3,4) by auto
    ultimately show False using nat_dvd_not_less by blast
  qed
  then have "2 ^ Suc k dvd (2 :: nat) ^ j" by (intro le_imp_power_dvd) simp
  let ?m = "min b (buddy_pfn b k)"
  have bm: "b \<in> blk ?m (Suc k)" using buddy_pair(4) [OF assms(1)] blk_head by blast
  have "2 ^ Suc k dvd q" using \<open>2 ^ Suc k dvd 2 ^ j\<close> assms(2) dvd_trans by blast
  then obtain c where c: "q = 2 ^ Suc k * c" by blast
  obtain d where d: "?m = 2 ^ Suc k * d" using buddy_pair(2) [OF assms(1)] by blast
  obtain f where f: "(2 :: nat) ^ j = 2 ^ Suc k * f" using \<open>2 ^ Suc k dvd 2 ^ j\<close> by blast
  have "2 ^ Suc k * c < 2 ^ Suc k * (d + 1)" "2 ^ Suc k * d < 2 ^ Suc k * (c + f)"
    using bm assms(3) c d f by (simp_all add: distrib_left)
  then have "c < d + 1" "d < c + f" by (simp_all only: mult_less_cancel1)
  then have "2 ^ Suc k * c \<le> 2 ^ Suc k * d" "2 ^ Suc k * (d + 1) \<le> 2 ^ Suc k * (c + f)"
    by (simp_all only: mult_le_mono2 Suc_leI Suc_eq_plus1 less_Suc_eq_le)
  then have "q \<le> ?m" "?m + 2 ^ Suc k \<le> q + 2 ^ j"
    by (simp_all only: c d f distrib_left mult_1_right)
  then have "blk ?m (Suc k) \<subseteq> blk q j" unfolding blk_def by auto
  then show "blk b k \<union> blk (buddy_pfn b k) k \<subseteq> blk q j"
    by (simp only: buddy_pair(4) [OF assms(1)])
qed

section \<open>The allocator invariant\<close>

type_synonym block = "nat \<times> nat"

definition wf_block :: "nat \<Rightarrow> block \<Rightarrow> bool" where
  "wf_block n b \<longleftrightarrow> snd b < BUDDY_ORDERS \<and> 2 ^ snd b dvd fst b \<and> fst b + 2 ^ snd b \<le> n"

abbreviation bset :: "block \<Rightarrow> nat set" where "bset b \<equiv> blk (fst b) (snd b)"

definition frames :: "block set \<Rightarrow> nat set" where
  "frames X = (\<Union>b \<in> X. bset b)"

definition block_partition :: "nat \<Rightarrow> block set \<Rightarrow> bool" where
  "block_partition n X \<longleftrightarrow> (\<forall>b \<in> X. wf_block n b) \<and>
     (\<forall>b \<in> X. \<forall>c \<in> X. b \<noteq> c \<longrightarrow> disjnt (bset b) (bset c))"

definition blocks :: "(nat \<Rightarrow> nat list) \<Rightarrow> block set" where
  "blocks F = {(p, k). k < BUDDY_ORDERS \<and> p \<in> set (F k)}"

fun free_links :: "(nat \<Rightarrow> nat list) \<Rightarrow> bptr \<Rightarrow> bptr list" where
  "free_links F (FreeHead k) = map PageLink (F k)"
| "free_links F (PageLink p) = []"

abbreviation heads :: "bptr set" where "heads \<equiv> FreeHead ` {..<BUDDY_ORDERS}"

definition flags_ok :: "memory_node \<Rightarrow> (nat \<Rightarrow> nat list) \<Rightarrow> block set \<Rightarrow> nat set \<Rightarrow> bool" where
  "flags_ok node F A fr \<longleftrightarrow>
     (\<forall>b \<in> blocks F. page_free (mn_mmap node ! fst b) \<and>
        page_get_order (mn_mmap node ! fst b) = int (snd b)) \<and>
     (\<forall>b \<in> A. page_busy (mn_mmap node ! fst b)) \<and>
     (\<forall>p < length (mn_mmap node). p \<notin> fr \<longrightarrow> page_busy (mn_mmap node ! p)) \<and>
     (\<forall>p < length (mn_mmap node). page_node_id (mn_mmap node ! p) = mn_id node)"

definition coalesced :: "(nat \<Rightarrow> nat list) \<Rightarrow> bool" where
  "coalesced F \<longleftrightarrow> (\<forall>b \<in> blocks F. snd b < BUDDY_ORDERS - 1 \<longrightarrow>
     (buddy_pfn (fst b) (snd b), snd b) \<notin> blocks F)"

text \<open>\<^verbatim>\<open>A\<close> are the allocated blocks, \<^verbatim>\<open>C\<close> the block an operation holds while it works.\<close>

definition buddy_inv :: "memory_node \<Rightarrow> (nat \<Rightarrow> nat list) \<Rightarrow> block set \<Rightarrow> block set \<Rightarrow> bool" where
  "buddy_inv node F A C \<longleftrightarrow>
     length (mn_mmap node) = mn_end_pfn node - mn_begin_pfn node \<and>
     dl.fam (mn_links node) heads (free_links F) \<and>
     block_partition (length (mn_mmap node)) (blocks F \<union> A \<union> C) \<and>
     blocks F \<inter> (A \<union> C) = {} \<and> A \<inter> C = {} \<and>
     flags_ok node F A (frames (blocks F \<union> A \<union> C)) \<and> coalesced F"

lemma frames_simps [simp]:
  "frames {} = {}" "frames (insert b X) = bset b \<union> frames X" "frames (X \<union> Y) = frames X \<union> frames Y"
  by (auto simp: frames_def)

lemma free_links_add:
  "k < BUDDY_ORDERS \<Longrightarrow> (free_links F)(FreeHead k := PageLink p # free_links F (FreeHead k)) =
     free_links (F(k := p # F k))"
proof
  fix h show "((free_links F)(FreeHead k := PageLink p # free_links F (FreeHead k))) h =
     free_links (F(k := p # F k)) h" by (cases h) auto
qed

lemma map_remove1_inj: "inj f \<Longrightarrow> map f (remove1 x xs) = remove1 (f x) (map f xs)"
  by (induction xs) (auto dest: injD)

lemma inj_PageLink: "inj PageLink"
  by (rule injI) simp

lemma free_links_del:
  "(free_links F)(FreeHead k := remove1 (PageLink p) (free_links F (FreeHead k))) =
     free_links (F(k := remove1 p (F k)))"
proof
  fix h show "((free_links F)(FreeHead k := remove1 (PageLink p) (free_links F (FreeHead k)))) h =
     free_links (F(k := remove1 p (F k))) h"
    by (cases h) (auto simp: map_remove1_inj [OF inj_PageLink])
qed

lemma blocks_add: "k < BUDDY_ORDERS \<Longrightarrow> blocks (F(k := p # F k)) = insert (p, k) (blocks F)"
  by (auto simp: blocks_def split: if_splits)

lemma blocks_del: "distinct (F k) \<Longrightarrow> blocks (F(k := remove1 p (F k))) = blocks F - {(p, k)}"
  by (auto simp: blocks_def split: if_splits)

lemma fam_distinct: "dl.fam h heads (free_links F) \<Longrightarrow> k < BUDDY_ORDERS \<Longrightarrow> distinct (F k)"
  using dl.rep_distinct [OF dl.fam_rep, of h heads "free_links F" "FreeHead k"]
  by (auto simp: distinct_map)

lemma block_partitionD:
  assumes "block_partition n X" and "b \<in> X"
  shows "wf_block n b" and "c \<in> X \<Longrightarrow> b \<noteq> c \<Longrightarrow> disjnt (bset b) (bset c)"
  using assms by (simp_all add: block_partition_def)

lemma block_partition_subset: "block_partition n X \<Longrightarrow> Y \<subseteq> X \<Longrightarrow> block_partition n Y"
  unfolding block_partition_def by blast

lemma block_partition_insert:
  "block_partition n (insert b X) \<longleftrightarrow> block_partition n X \<and> wf_block n b \<and>
     (\<forall>c \<in> X. b \<noteq> c \<longrightarrow> disjnt (bset b) (bset c))"
  unfolding block_partition_def by (auto intro: disjnt_sym)

lemma block_partition_frames:
  assumes "block_partition n (insert b X)" and "b \<notin> X"
  shows "disjnt (bset b) (frames X)"
proof -
  have "\<forall>c \<in> X. disjnt (bset b) (bset c)" using assms by (auto simp: block_partition_insert)
  then show ?thesis by (simp add: frames_def disjnt_def Int_UN_distrib)
qed

lemma disjnt_blk_heads: "disjnt (blk p k) (blk q j) \<Longrightarrow> p \<noteq> q"
  by (metis blk_head disjnt_iff)

lemma disjnt_blkD: "disjnt (blk p k) (blk q j) \<Longrightarrow> x \<in> blk p k \<Longrightarrow> x \<notin> blk q j"
  by (auto simp: disjnt_def)

text \<open>Splitting a block in two halves keeps a partition; so does joining two buddies.\<close>

lemma block_partition_halve:
  assumes "block_partition n (insert (p, Suc c) X)" and "(p, Suc c) \<notin> X"
  shows "block_partition n (insert (p, c) (insert (p + 2 ^ c, c) X))"
    and "(p, c) \<notin> X" and "(p + 2 ^ c, c) \<notin> X"
proof -
  have X: "block_partition n X" and wf: "wf_block n (p, Suc c)"
    and dis: "\<forall>b \<in> X. disjnt (blk p (Suc c)) (bset b)"
    using assms by (auto simp: block_partition_insert)
  have sub: "blk p c \<subseteq> blk p (Suc c)" "blk (p + 2 ^ c) c \<subseteq> blk p (Suc c)"
    and low: "p + 2 ^ c \<in> blk p (Suc c)" "p \<in> blk p (Suc c)" by auto
  have dis2: "\<forall>b \<in> X. disjnt (blk p c) (bset b) \<and> disjnt (blk (p + 2 ^ c) c) (bset b)"
    using dis sub by (meson disjnt_subset1)
  then show "(p, c) \<notin> X" "(p + 2 ^ c, c) \<notin> X"
    using disjnt_blk_heads by fastforce+
  have "2 ^ c dvd p" using wf by (auto simp: wf_block_def elim: dvd_mult_right)
  then have "wf_block n (p, c)" "wf_block n (p + 2 ^ c, c)" using wf by (auto simp: wf_block_def)
  moreover have "disjnt (blk p c) (blk (p + 2 ^ c) c)" by (auto simp: disjnt_def)
  ultimately show "block_partition n (insert (p, c) (insert (p + 2 ^ c, c) X))"
    using X dis2 by (simp add: block_partition_insert)
qed

lemma block_partition_join:
  assumes "block_partition n (insert (p, k) (insert (buddy_pfn p k, k) X))"
    and "(p, k) \<notin> X" and "(buddy_pfn p k, k) \<notin> X" and "Suc k < BUDDY_ORDERS"
  shows "block_partition n (insert (min p (buddy_pfn p k), Suc k) X)"
    and "(min p (buddy_pfn p k), Suc k) \<notin> X"
proof -
  let ?b = "buddy_pfn p k"
  have X: "block_partition n X" and wf: "wf_block n (p, k)" "wf_block n (?b, k)"
    and dis: "\<forall>c \<in> X. disjnt (blk p k \<union> blk ?b k) (bset c)"
    using assms by (auto simp: block_partition_insert disjnt_Un1)
  have al: "2 ^ k dvd p" using wf by (simp add: wf_block_def)
  note bp = buddy_pair [OF al]
  have dis': "\<forall>c \<in> X. disjnt (blk (min p ?b) (Suc k)) (bset c)" using dis by (simp only: bp(4))
  then show "(min p ?b, Suc k) \<notin> X" using disjnt_blk_heads by fastforce
  have "blk (min p ?b) (Suc k) \<subseteq> {..<n}"
    using wf unfolding bp(4) [symmetric] by (auto simp: wf_block_def)
  moreover have "min p ?b + 2 ^ Suc k - 1 \<in> blk (min p ?b) (Suc k)"
    unfolding blk_mem using zero_less_power [of "2 :: nat" "Suc k"] by linarith
  ultimately have "min p ?b + 2 ^ Suc k - 1 < n" by blast
  then have "wf_block n (min p ?b, Suc k)" using bp(2) assms(4) by (simp add: wf_block_def)
  then show "block_partition n (insert (min p ?b, Suc k) X)"
    using X dis' by (simp add: block_partition_insert)
qed

section \<open>Moving blocks between the free lists and an operation\<close>

lemma node_fields_simps [simp]:
  "mn_mmap (page_upd i f node) = (mn_mmap node)[i := f (mn_mmap node ! i)]"
  "mn_links (page_upd i f node) = mn_links node"
  "mn_begin_pfn (page_upd i f node) = mn_begin_pfn node"
  "mn_end_pfn (page_upd i f node) = mn_end_pfn node" "mn_id (page_upd i f node) = mn_id node"
  "mn_type (page_upd i f node) = mn_type node"
  "mn_mmap (links_upd g node) = mn_mmap node" "mn_links (links_upd g node) = g (mn_links node)"
  "mn_begin_pfn (links_upd g node) = mn_begin_pfn node"
  "mn_end_pfn (links_upd g node) = mn_end_pfn node" "mn_id (links_upd g node) = mn_id node"
  "mn_type (links_upd g node) = mn_type node"
  by (simp_all add: page_upd_def links_upd_def)

lemma buddy_invD:
  assumes "buddy_inv node F A C"
  shows "length (mn_mmap node) = mn_end_pfn node - mn_begin_pfn node"
    and "dl.fam (mn_links node) heads (free_links F)"
    and "block_partition (length (mn_mmap node)) (blocks F \<union> A \<union> C)"
    and "blocks F \<inter> (A \<union> C) = {}" and "A \<inter> C = {}"
    and "flags_ok node F A (frames (blocks F \<union> A \<union> C))" and "coalesced F"
  using assms unfolding buddy_inv_def by blast+

lemma buddy_inv_wf:
  "buddy_inv node F A C \<Longrightarrow> b \<in> blocks F \<union> A \<union> C \<Longrightarrow> wf_block (length (mn_mmap node)) b"
  using block_partitionD(1) [OF buddy_invD(3)] by blast

lemma buddy_inv_heads_differ:
  assumes "buddy_inv node F A C" and "b \<in> blocks F \<union> A \<union> C" "c \<in> blocks F \<union> A \<union> C" and "b \<noteq> c"
  shows "fst b \<noteq> fst c"
  using block_partitionD(2) [OF buddy_invD(3) [OF assms(1)] assms(2,3,4)] disjnt_blk_heads by blast

lemma del_free_block:
  assumes inv: "buddy_inv node F A C" and b: "(b, k) \<in> blocks F"
  shows "buddy_inv (links_upd (list_del (PageLink b)) node) (F(k := remove1 b (F k))) A (insert (b, k) C)"
proof -
  have k: "k < BUDDY_ORDERS" "b \<in> set (F k)" using b by (auto simp: blocks_def)
  note i = buddy_invD [OF inv]
  have bl: "blocks (F(k := remove1 b (F k))) = blocks F - {(b, k)}"
    using fam_distinct [OF i(2) k(1)] by (rule blocks_del)
  have all: "blocks F - {(b, k)} \<union> A \<union> insert (b, k) C = blocks F \<union> A \<union> C" using b by blast
  have "dl.fam (list_del (PageLink b) (mn_links node)) heads (free_links (F(k := remove1 b (F k))))"
    unfolding free_links_del [symmetric] by (rule dl.fam_del [OF i(2)]) (use k in auto)
  moreover have "flags_ok (links_upd (list_del (PageLink b)) node) (F(k := remove1 b (F k))) A
      (frames (blocks F \<union> A \<union> C))"
    using i(6) unfolding flags_ok_def bl by simp
  moreover have "coalesced (F(k := remove1 b (F k)))"
    using i(7) unfolding coalesced_def bl by blast
  ultimately show ?thesis
    unfolding buddy_inv_def bl all using i(1,3,4,5) b by auto
qed

lemma add_free_block:
  assumes inv: "buddy_inv node F A (insert (b, k) C)" and fresh: "(b, k) \<notin> C"
    and nobuddy: "k < BUDDY_ORDERS - 1 \<longrightarrow> (buddy_pfn b k, k) \<notin> blocks F"
  defines "node' \<equiv> links_upd (list_add (PageLink b) (FreeHead k))
    (page_upd b page_set_free (page_upd b (page_set_order (int k)) node))"
  shows "buddy_inv node' (F(k := b # F k)) A C"
proof -
  note i = buddy_invD [OF inv]
  have wf: "wf_block (length (mn_mmap node)) (b, k)" using buddy_inv_wf [OF inv, of "(b, k)"] by simp
  then have k: "k < BUDDY_ORDERS" and bn: "b < length (mn_mmap node)"
    by (auto simp: wf_block_def intro: less_le_trans [of b "b + 2 ^ k"])
  have bl: "blocks (F(k := b # F k)) = insert (b, k) (blocks F)" using k by (rule blocks_add)
  have nb: "(b, k) \<notin> blocks F \<union> A" using i(4,5) by blast
  have all: "insert (b, k) (blocks F) \<union> A \<union> C = blocks F \<union> A \<union> insert (b, k) C" by blast
  have head: "fst c \<noteq> b" if "c \<in> blocks F \<union> A" for c
    using buddy_inv_heads_differ [OF inv, of c "(b, k)"] that nb by (cases "c = (b, k)") auto
  have "\<forall>h \<in> heads. PageLink b \<notin> insert h (set (free_links F h))"
    using head by (fastforce simp: blocks_def)
  then have "dl.fam (list_add (PageLink b) (FreeHead k) (mn_links node)) heads (free_links (F(k := b # F k)))"
    unfolding free_links_add [OF k, symmetric] by (intro dl.fam_add [OF i(2)]) (use k in auto)
  then have fam: "dl.fam (mn_links node') heads (free_links (F(k := b # F k)))" by (simp add: node'_def)
  have mm: "mn_mmap node' ! x = (if x = b then page_set_free (page_set_order (int k) (mn_mmap node ! b))
      else mn_mmap node ! x)" for x
    using bn by (simp add: node'_def nth_list_update)
  have len: "length (mn_mmap node') = length (mn_mmap node)" by (simp add: node'_def)
  have "int k < 2 ^ 31" using k by (simp add: BUDDY_ORDERS_def)
  then have flags: "flags_ok node' (F(k := b # F k)) A (frames (blocks F \<union> A \<union> insert (b, k) C))"
    using i(6) head unfolding flags_ok_def bl len mm by (auto simp: page_free_def node'_def)
  have "coalesced (F(k := b # F k))"
    using i(7) nobuddy nb buddy_pair(5) [of k b] wf unfolding coalesced_def bl
    by (auto simp: wf_block_def)
  then show ?thesis
    unfolding buddy_inv_def bl all len using i(1,3,4,5) fam flags fresh nb by (auto simp: node'_def)
qed

lemma set_busy_in_transit:
  assumes inv: "buddy_inv node F A C" and b: "(b, k) \<in> C"
  shows "buddy_inv (page_upd b page_set_busy node) F A C"
    and "page_busy (mn_mmap (page_upd b page_set_busy node) ! b)"
proof -
  note i = buddy_invD [OF inv]
  have "wf_block (length (mn_mmap node)) (b, k)" using buddy_inv_wf [OF inv] b by simp
  then have bn: "b < length (mn_mmap node)"
    by (auto simp: wf_block_def intro: less_le_trans [of b "b + 2 ^ k"])
  have head: "fst c \<noteq> b" if "c \<in> blocks F \<union> A" for c
    using buddy_inv_heads_differ [OF inv, of c "(b, k)"] that b i(4,5) by (cases "c = (b, k)") auto
  show "page_busy (mn_mmap (page_upd b page_set_busy node) ! b)" using bn by simp
  have "flags_ok (page_upd b page_set_busy node) F A (frames (blocks F \<union> A \<union> C))"
    using i(6) head bn unfolding flags_ok_def by (auto simp: nth_list_update)
  then show "buddy_inv (page_upd b page_set_busy node) F A C"
    using i unfolding buddy_inv_def by simp
qed

text \<open>Ghost steps: the block in transit is halved, joined with its buddy, handed out or taken back.\<close>

lemma buddy_inv_retransit:
  assumes inv: "buddy_inv node F A C" and fr: "frames C = frames D"
    and part: "block_partition (length (mn_mmap node)) (blocks F \<union> A \<union> D)"
    and dis: "blocks F \<inter> D = {}" "A \<inter> D = {}"
  shows "buddy_inv node F A D"
proof -
  note i = buddy_invD [OF inv]
  have "frames (blocks F \<union> A \<union> D) = frames (blocks F \<union> A \<union> C)" using fr by simp
  moreover have "blocks F \<inter> (A \<union> D) = {}" using i(4) dis(1) by blast
  ultimately show ?thesis unfolding buddy_inv_def using i(1,2,6,7) part dis(2) by simp
qed

lemma transit_halve:
  assumes inv: "buddy_inv node F A {(p, Suc c)}"
  shows "buddy_inv node F A (insert (p + 2 ^ c, c) {(p, c)})"
    and "buddy_pfn p c = p + 2 ^ c" and "(p, c) \<notin> blocks F"
proof -
  note i = buddy_invD [OF inv]
  let ?X = "blocks F \<union> A"
  have part: "block_partition (length (mn_mmap node)) (insert (p, Suc c) ?X)" and nin: "(p, Suc c) \<notin> ?X"
    using i(3,4,5) by (auto simp: insert_commute)
  note h = block_partition_halve [OF part nin]
  have "wf_block (length (mn_mmap node)) (p, Suc c)" using part by (simp add: block_partition_insert)
  then show "buddy_pfn p c = p + 2 ^ c" by (intro buddy_pfn_low) (simp add: wf_block_def)
  show "(p, c) \<notin> blocks F" using h by blast
  have fr: "frames {(p, Suc c)} = frames (insert (p + 2 ^ c, c) {(p, c)})" by (auto simp: blk_def)
  have "?X \<union> insert (p + 2 ^ c, c) {(p, c)} = insert (p, c) (insert (p + 2 ^ c, c) ?X)" by blast
  with h(1) have "block_partition (length (mn_mmap node)) (?X \<union> insert (p + 2 ^ c, c) {(p, c)})" by simp
  then show "buddy_inv node F A (insert (p + 2 ^ c, c) {(p, c)})"
    by (rule buddy_inv_retransit [OF inv fr]) (use h(2,3) in blast)+
qed

lemma transit_join:
  assumes inv: "buddy_inv node F A (insert (buddy_pfn p k, k) {(p, k)})" and k: "Suc k < BUDDY_ORDERS"
  shows "buddy_inv node F A {(min p (buddy_pfn p k), Suc k)}"
proof -
  note i = buddy_invD [OF inv]
  let ?X = "blocks F \<union> A" and ?b = "buddy_pfn p k"
  have wf: "wf_block (length (mn_mmap node)) (p, k)" using buddy_inv_wf [OF inv] by simp
  then have al: "2 ^ k dvd p" by (simp add: wf_block_def)
  have part: "block_partition (length (mn_mmap node)) (insert (p, k) (insert (?b, k) ?X))"
    and nin: "(p, k) \<notin> ?X" "(?b, k) \<notin> ?X"
    using i(3,4,5) by (auto simp: insert_commute)
  note j = block_partition_join [OF part nin k]
  have "frames (insert (?b, k) {(p, k)}) = blk p k \<union> blk ?b k" by auto
  also have "\<dots> = frames {(min p ?b, Suc k)}" unfolding buddy_pair(4) [OF al] by simp
  finally have fr: "frames (insert (?b, k) {(p, k)}) = frames {(min p ?b, Suc k)}" .
  have "block_partition (length (mn_mmap node)) (?X \<union> {(min p ?b, Suc k)})" using j(1) by simp
  then show ?thesis by (rule buddy_inv_retransit [OF inv fr]) (use j(2) in blast)+
qed

lemma transit_hand_out:
  assumes inv: "buddy_inv node F A {b}" and busy: "page_busy (mn_mmap node ! fst b)"
  shows "buddy_inv node F (insert b A) {}" and "b \<notin> A"
proof -
  note i = buddy_invD [OF inv]
  have eq: "blocks F \<union> insert b A \<union> {} = blocks F \<union> A \<union> {b}" by blast
  have "flags_ok node F (insert b A) (frames (blocks F \<union> A \<union> {b}))"
    using i(6) busy unfolding flags_ok_def by blast
  moreover have "blocks F \<inter> (insert b A \<union> {}) = {}" using i(4) by blast
  ultimately show "buddy_inv node F (insert b A) {}"
    unfolding buddy_inv_def eq using i(1,2,3,7) by simp
  show "b \<notin> A" using i(5) by blast
qed

lemma transit_take_back:
  assumes inv: "buddy_inv node F A {}" and b: "b \<in> A"
  shows "buddy_inv node F (A - {b}) {b}"
proof -
  note i = buddy_invD [OF inv]
  have eq: "blocks F \<union> (A - {b}) \<union> {b} = blocks F \<union> A \<union> {}" using b by blast
  have "flags_ok node F (A - {b}) (frames (blocks F \<union> A \<union> {}))"
    using i(6) unfolding flags_ok_def by blast
  moreover have "blocks F \<inter> (A - {b} \<union> {b}) = {}" using i(4) b by blast
  ultimately show ?thesis unfolding buddy_inv_def eq using i(1,2,3,7) by simp
qed

text \<open>Frames outside every block may be given to the allocator, as at boot.\<close>

lemma transit_adopt:
  assumes inv: "buddy_inv node F A {}" and wf: "wf_block (length (mn_mmap node)) b"
    and out: "disjnt (bset b) (frames (blocks F \<union> A))"
  shows "buddy_inv node F A {b}"
proof -
  note i = buddy_invD [OF inv]
  have d: "disjnt (bset b) (bset c)" if "c \<in> blocks F \<union> A" for c
    using out that unfolding frames_def by (meson UN_upper disjnt_subset2)
  then have nin: "b \<notin> blocks F \<union> A" using disjnt_blk_heads by blast
  have "block_partition (length (mn_mmap node)) (insert b (blocks F \<union> A))"
    using i(3) wf d by (simp add: block_partition_insert)
  moreover have "flags_ok node F A (frames (blocks F \<union> A \<union> {b}))"
    using i(6) unfolding flags_ok_def by simp
  ultimately show ?thesis
    unfolding buddy_inv_def using i(1,2,4,5,7) nin by auto
qed

text \<open>The test the code makes on the buddy's flags and order decides whether it is free.\<close>

lemma buddy_test:
  assumes inv: "buddy_inv node F A {(p, k)}" and k: "k < BUDDY_ORDERS - 1"
  defines "b \<equiv> buddy_pfn p k" and "n \<equiv> mn_end_pfn node - mn_begin_pfn node"
  shows "(b, k) \<in> blocks F \<longleftrightarrow> b < n \<and> b + push_bit k 1 \<le> n \<and> \<not> page_busy (mn_mmap node ! b) \<and>
    page_get_order (mn_mmap node ! b) = int k"
proof
  note i = buddy_invD [OF inv]
  assume bF: "(b, k) \<in> blocks F"
  then have "wf_block (length (mn_mmap node)) (b, k)" using buddy_inv_wf [OF inv] by simp
  then have "b + 2 ^ k \<le> n" using i(1) by (simp add: wf_block_def n_def)
  moreover from this have "b < n" using zero_less_power [of "2 :: nat" k] by linarith
  ultimately show "b < n \<and> b + push_bit k 1 \<le> n \<and> \<not> page_busy (mn_mmap node ! b) \<and>
    page_get_order (mn_mmap node ! b) = int k"
    using i(6) bF by (auto simp: flags_ok_def page_free_def push_bit_eq_mult)
next
  note i = buddy_invD [OF inv]
  assume t: "b < n \<and> b + push_bit k 1 \<le> n \<and> \<not> page_busy (mn_mmap node ! b) \<and>
    page_get_order (mn_mmap node ! b) = int k"
  have al: "2 ^ k dvd p" using buddy_inv_wf [OF inv, of "(p, k)"] by (simp add: wf_block_def)
  note bp = buddy_pair [OF al, folded b_def]
  have "b \<in> frames (blocks F \<union> A \<union> {(p, k)})"
    using t i(1,6) by (auto simp: flags_ok_def n_def)
  moreover have "b \<notin> blk p k" using bp(3) blk_head by blast
  ultimately obtain c where c: "c \<in> blocks F \<union> A" "b \<in> bset c" by (auto simp: frames_def)
  have "b = fst c"
  proof (rule ccontr)
    assume "b \<noteq> fst c"
    have "2 ^ snd c dvd fst c" using buddy_inv_wf [OF inv, of c] c(1) by (simp add: wf_block_def)
    from aligned_inside(2) [OF bp(1) this c(2) \<open>b \<noteq> fst c\<close>] have "p \<in> bset c"
      using blk_head [of p k] buddy_pfn_buddy [of p k] unfolding b_def by (metis UnCI subsetD)
    moreover have "c \<noteq> (p, k)" using i(4,5) c(1) by auto
    then have "disjnt (bset c) (blk p k)"
      using block_partitionD(2) [OF i(3), of c "(p, k)"] c(1) by simp
    ultimately show False using disjnt_blkD blk_head by blast
  qed
  moreover have "c \<notin> A" using t i(6) \<open>b = fst c\<close> by (auto simp: flags_ok_def)
  ultimately have "c \<in> blocks F" "snd c = k" using c(1) t i(6) by (auto simp: flags_ok_def)
  then show "(b, k) \<in> blocks F" using \<open>b = fst c\<close> by (metis prod.collapse)
qed

section \<open>Allocation and release on one node\<close>

lemma find_coorder_ge: "k \<le> find_coorder node k"
proof (induction node k rule: find_coorder.induct)
  case (1 node k)
  then show ?case by (auto simp: find_coorder.simps [of node k] dest: Suc_leD)
qed

lemma find_coorder_stop:
  "find_coorder node k < BUDDY_ORDERS \<Longrightarrow> \<not> list_empty (mn_links node) (FreeHead (find_coorder node k))"
proof (induction node k rule: find_coorder.induct)
  case (1 node k)
  then show ?case by (simp add: find_coorder.simps [of node k] split: if_splits)
qed

lemma find_coorder_skip:
  "k \<le> j \<Longrightarrow> j < find_coorder node k \<Longrightarrow> j < BUDDY_ORDERS \<Longrightarrow> list_empty (mn_links node) (FreeHead j)"
proof (induction node k rule: find_coorder.induct)
  case (1 node k)
  then show ?case by (cases "j = k") (auto simp: find_coorder.simps [of node k] split: if_splits)
qed

lemma find_coorder_spec:
  assumes "dl.fam (mn_links node) heads (free_links F)"
  shows "k \<le> find_coorder node k"
    and "\<forall>j. k \<le> j \<and> j < find_coorder node k \<and> j < BUDDY_ORDERS \<longrightarrow> F j = []"
    and "find_coorder node k < BUDDY_ORDERS \<Longrightarrow> F (find_coorder node k) \<noteq> []"
proof -
  have e: "list_empty (mn_links node) (FreeHead j) \<longleftrightarrow> F j = []" if "j < BUDDY_ORDERS" for j
    using dl.fam_empty [OF assms, of "FreeHead j"] that by simp
  show "k \<le> find_coorder node k"
    and "\<forall>j. k \<le> j \<and> j < find_coorder node k \<and> j < BUDDY_ORDERS \<longrightarrow> F j = []"
    and "find_coorder node k < BUDDY_ORDERS \<Longrightarrow> F (find_coorder node k) \<noteq> []"
    using find_coorder_ge find_coorder_stop find_coorder_skip e by blast+
qed

definition same_shape :: "memory_node \<Rightarrow> memory_node \<Rightarrow> bool" where
  "same_shape node node' \<longleftrightarrow> length (mn_mmap node') = length (mn_mmap node) \<and>
     mn_begin_pfn node' = mn_begin_pfn node \<and> mn_end_pfn node' = mn_end_pfn node \<and>
     mn_id node' = mn_id node \<and> mn_type node' = mn_type node"

lemma same_shape_refl [simp]: "same_shape node node"
  by (simp add: same_shape_def)

lemma same_shape_upd [simp]:
  "same_shape node (page_upd i f node') \<longleftrightarrow> same_shape node node'"
  "same_shape node (links_upd g node') \<longleftrightarrow> same_shape node node'"
  by (simp_all add: same_shape_def)

lemma same_shape_trans: "same_shape a b \<Longrightarrow> same_shape b c \<Longrightarrow> same_shape a c"
  by (simp add: same_shape_def)

lemma split_pages_ok:
  assumes "buddy_inv node F A {(p, c)}" and "order \<le> c" and "page_busy (mn_mmap node ! p)"
    and "\<forall>j. order \<le> j \<and> j < c \<longrightarrow> F j = []"
  shows "\<exists>F'. buddy_inv (split_pages node p c order) F' A {(p, order)} \<and>
    frames (blocks F') \<union> blk p order = frames (blocks F) \<union> blk p c \<and>
    page_busy (mn_mmap (split_pages node p c order) ! p) \<and> same_shape node (split_pages node p c order)"
  using assms
proof (induction c arbitrary: node F)
  case 0
  then show ?case by auto
next
  case (Suc c)
  show ?case
  proof (cases "order = Suc c")
    case True
    then show ?thesis using Suc.prems by auto
  next
    case False
    with Suc.prems(2) have oc: "order \<le> c" by simp
    let ?b = "p + 2 ^ c"
    let ?node = "links_upd (list_add (PageLink ?b) (FreeHead c))
      (page_upd ?b page_set_free (page_upd ?b (page_set_order (int c)) node))"
    note h = transit_halve [OF Suc.prems(1)]
    have bud: "buddy_pfn ?b c = p" by (metis buddy_pfn_buddy h(2))
    have "buddy_inv ?node (F(c := ?b # F c)) A {(p, c)}"
      by (rule add_free_block [OF h(1)]) (simp_all add: bud h(3))
    moreover have "page_busy (mn_mmap ?node ! p)" using Suc.prems(3) by (simp add: nth_list_update)
    moreover have "\<forall>j. order \<le> j \<and> j < c \<longrightarrow> (F(c := ?b # F c)) j = []" using Suc.prems(4) by simp
    ultimately obtain F' where F': "buddy_inv (split_pages ?node p c order) F' A {(p, order)}"
      "frames (blocks F') \<union> blk p order = frames (blocks (F(c := ?b # F c))) \<union> blk p c"
      "page_busy (mn_mmap (split_pages ?node p c order) ! p)" "same_shape ?node (split_pages ?node p c order)"
      using Suc.IH [OF _ oc] by blast
    have c: "c < BUDDY_ORDERS" using buddy_inv_wf [OF Suc.prems(1), of "(p, Suc c)"] by (simp add: wf_block_def)
    have "blk ?b c \<union> blk p c = blk p (Suc c)" by (auto simp: blk_def)
    then have "frames (blocks F') \<union> blk p order = frames (blocks F) \<union> blk p (Suc c)"
      using F'(2) by (simp add: blocks_add [OF c]) blast
    moreover have "split_pages node p (Suc c) order = split_pages ?node p c order"
      using oc by (simp add: h(2) Let_def)
    moreover have "same_shape node ?node" by simp
    ultimately show ?thesis using F'(1,3) same_shape_trans [OF _ F'(4)] by auto
  qed
qed

lemma alloc_pages_node_fail:
  assumes inv: "buddy_inv node F A {}" and o: "order < BUDDY_ORDERS"
    and r: "alloc_pages_node_unlocked order node = (None, node')"
  shows "node' = node" and "\<forall>k. order \<le> k \<and> k < BUDDY_ORDERS \<longrightarrow> F k = []"
proof -
  have *: "find_coorder node order \<ge> BUDDY_ORDERS \<and> node' = node"
    using r by (auto simp: alloc_pages_node_unlocked_def Let_def split: if_splits)
  then show "node' = node" by simp
  show "\<forall>k. order \<le> k \<and> k < BUDDY_ORDERS \<longrightarrow> F k = []"
    using find_coorder_spec(2) [OF buddy_invD(2) [OF inv], of order] * by auto
qed

lemma alloc_pages_node_ok:
  assumes inv: "buddy_inv node F A {}" and o: "order < BUDDY_ORDERS"
    and r: "alloc_pages_node_unlocked order node = (Some p, node')"
  shows "\<exists>F'. buddy_inv node' F' (insert (p, order) A) {} \<and> (p, order) \<notin> A \<and>
    frames (blocks F) = frames (blocks F') \<union> blk p order \<and>
    disjnt (blk p order) (frames (blocks F')) \<and> same_shape node node'"
proof -
  let ?c = "find_coorder node order"
  note i = buddy_invD [OF inv] and f = find_coorder_spec [OF buddy_invD(2) [OF inv], of order]
  have c: "?c < BUDDY_ORDERS" "order \<le> ?c" "F ?c \<noteq> []"
    using r f o by (auto simp: alloc_pages_node_unlocked_def Let_def split: if_splits)
  have first: "LIST_ENTRY_page (list_first (mn_links node) (FreeHead ?c)) = hd (F ?c)"
    using dl.fam_first [OF i(2), of "FreeHead ?c"] c by (auto simp: hd_map)
  let ?n1 = "links_upd (list_del (PageLink (hd (F ?c)))) node"
  let ?n2 = "page_upd (hd (F ?c)) page_set_busy ?n1"
  have p: "p = hd (F ?c)" and n': "node' = split_pages ?n2 p ?c order"
    using r c by (auto simp: alloc_pages_node_unlocked_def Let_def first split: if_splits)
  have pF: "(p, ?c) \<in> blocks F" using c by (simp add: blocks_def p)
  note d = del_free_block [OF inv pF]
  have "(p, ?c) \<in> insert (p, ?c) {}" by simp
  note s = set_busy_in_transit [OF d this]
  have "\<forall>j. order \<le> j \<and> j < ?c \<longrightarrow> (F(?c := remove1 p (F ?c))) j = []" using f(2) c(1) by auto
  from split_pages_ok [OF s(1) c(2) s(2) this]
  have sp: "\<exists>F'. buddy_inv node' F' A {(p, order)} \<and>
    frames (blocks F') \<union> blk p order = frames (blocks (F(?c := remove1 p (F ?c)))) \<union> blk p ?c \<and>
    page_busy (mn_mmap node' ! p) \<and> same_shape ?n2 node'" unfolding n' p [symmetric] .
  have sh: "same_shape node ?n2" by simp
  obtain F' where
    F': "buddy_inv node' F' A {(p, order)}"
    "frames (blocks F') \<union> blk p order = frames (blocks (F(?c := remove1 p (F ?c)))) \<union> blk p ?c"
    "page_busy (mn_mmap node' ! p)" "same_shape node node'"
    using sp same_shape_trans [OF sh] by blast
  have "blocks F = insert (p, ?c) (blocks (F(?c := remove1 p (F ?c))))"
    using pF blocks_del [of F ?c p] fam_distinct [OF i(2) c(1)] by auto
  then have "frames (blocks F) = frames (blocks F') \<union> blk p order"
    using F'(2) by (metis Un_commute frames_simps(2) fst_conv snd_conv)
  moreover have "disjnt (blk p order) (frames (blocks F'))"
  proof -
    note j = buddy_invD [OF F'(1)]
    have "block_partition (length (mn_mmap node')) (insert (p, order) (blocks F'))"
      by (rule block_partition_subset [OF j(3)]) blast
    from block_partition_frames [OF this] j(4) show ?thesis by auto
  qed
  ultimately show ?thesis using transit_hand_out [OF F'(1)] F'(3,4) by auto
qed

lemma merge_pages_ok:
  assumes "buddy_inv node F A {(p, k)}" and "merge_pages node p k = (node', p', k')"
  shows "\<exists>F'. buddy_inv node' F' A {(p', k')} \<and>
    (k' < BUDDY_ORDERS - 1 \<longrightarrow> (buddy_pfn p' k', k') \<notin> blocks F') \<and>
    frames (blocks F') \<union> blk p' k' = frames (blocks F) \<union> blk p k \<and> same_shape node node'"
  using assms
proof (induction node p k arbitrary: F rule: merge_pages.induct)
  case (1 node p k)
  let ?b = "buddy_pfn p k"
  let ?n = "mn_end_pfn node - mn_begin_pfn node"
  have stop: "?case" if "k < BUDDY_ORDERS - 1 \<longrightarrow> (?b, k) \<notin> blocks F" "(node', p', k') = (node, p, k)"
    using that "1.prems"(1) by auto
  show ?case
  proof (cases "k < BUDDY_ORDERS - 1 \<and> (?b, k) \<in> blocks F")
    case False
    then show ?thesis
      using stop buddy_test [OF "1.prems"(1)] "1.prems"(2)
      by (auto simp: merge_pages.simps [of node p k] Let_def split: if_splits)
  next
    case True
    then have k: "k < BUDDY_ORDERS - 1" and bF: "(?b, k) \<in> blocks F" by auto
    note t = buddy_test [OF "1.prems"(1) k, THEN iffD1, OF bF]
    let ?node = "links_upd (list_del (PageLink ?b)) node" and ?p = "min p ?b"
    let ?F = "F(k := remove1 ?b (F k))"
    have m: "merge_pages ?node ?p (k + 1) = (node', p', k')" and pm: "(if ?b < p then ?b else p) = ?p"
      using "1.prems"(2) t k by (auto simp: merge_pages.simps [of node p k] Let_def min_def)
    have al: "2 ^ k dvd p" using buddy_inv_wf [OF "1.prems"(1), of "(p, k)"] by (simp add: wf_block_def)
    have "buddy_inv ?node ?F A {(?p, Suc k)}"
      using transit_join [OF del_free_block [OF "1.prems"(1) bF]] k by simp
    then obtain F' where F': "buddy_inv node' F' A {(p', k')}"
      "k' < BUDDY_ORDERS - 1 \<longrightarrow> (buddy_pfn p' k', k') \<notin> blocks F'"
      "frames (blocks F') \<union> blk p' k' = frames (blocks ?F) \<union> blk ?p (Suc k)" "same_shape ?node node'"
      using "1.IH" [OF refl refl refl k] t m unfolding pm by fastforce
    have "blocks F = insert (?b, k) (blocks ?F)"
      using bF blocks_del [of F k ?b] fam_distinct [OF buddy_invD(2) [OF "1.prems"(1)], of k] k by auto
    then have "frames (blocks F) \<union> blk p k = frames (blocks ?F) \<union> blk ?p (Suc k)"
      unfolding buddy_pair(4) [OF al, symmetric] by auto
    moreover have "same_shape node ?node" by simp
    ultimately show ?thesis using F' same_shape_trans by metis
  qed
qed

lemma free_transit_ok:
  assumes "buddy_inv node F A {(p, k)}"
  shows "\<exists>F'. buddy_inv (free_pages_node_unlocked p k node) F' A {} \<and>
    frames (blocks F') = frames (blocks F) \<union> blk p k \<and> same_shape node (free_pages_node_unlocked p k node)"
proof -
  obtain node' p' k' where m: "merge_pages node p k = (node', p', k')" by (metis prod_cases3)
  from merge_pages_ok [OF assms m] obtain F' where F': "buddy_inv node' F' A (insert (p', k') {})"
    "k' < BUDDY_ORDERS - 1 \<longrightarrow> (buddy_pfn p' k', k') \<notin> blocks F'"
    "frames (blocks F') \<union> blk p' k' = frames (blocks F) \<union> blk p k" "same_shape node node'" by blast
  have k': "k' < BUDDY_ORDERS" using buddy_inv_wf [OF F'(1), of "(p', k')"] by (simp add: wf_block_def)
  have "buddy_inv (free_pages_node_unlocked p k node) (F'(k' := p' # F' k')) A {}"
    unfolding free_pages_node_unlocked_def m Let_def prod.case
    by (rule add_free_block [OF F'(1)]) (use F'(2) in simp_all)
  moreover have "frames (blocks (F'(k' := p' # F' k'))) = frames (blocks F) \<union> blk p k"
    using F'(3) by (simp add: blocks_add [OF k'] Un_commute)
  ultimately show ?thesis using F'(4) by (auto simp: free_pages_node_unlocked_def m)
qed

section \<open>No fragmentation beyond alignment\<close>

lemma aligned_block_inside:
  assumes "2 ^ k dvd b" and "2 ^ j dvd q" and "b \<in> blk q j" and "k \<le> j"
  shows "blk b k \<subseteq> blk q j"
proof (cases "b = q")
  case True
  have "(2 :: nat) ^ k \<le> 2 ^ j" using assms(4) by simp
  then show ?thesis using True by (auto simp: blk_def)
next
  case False
  then show ?thesis using aligned_inside(2) [OF assms(1-3)] by blast
qed

text \<open>In a coalesced partition an aligned run of free frames lies inside one free block.\<close>

lemma free_run_in_block:
  assumes inv: "buddy_inv node F A {}"
  shows "k < BUDDY_ORDERS \<Longrightarrow> 2 ^ k dvd q \<Longrightarrow> blk q k \<subseteq> frames (blocks F) \<Longrightarrow>
    \<exists>b \<in> blocks F. k \<le> snd b \<and> blk q k \<subseteq> bset b"
proof (induction k arbitrary: q)
  case 0
  then obtain b where "b \<in> blocks F" "q \<in> bset b" by (auto simp: frames_def blk_def)
  then show ?case by (auto simp: blk_def)
next
  case (Suc k)
  note wf = buddy_inv_wf [OF inv]
  let ?r = "q + 2 ^ k"
  have halves: "blk q (Suc k) = blk q k \<union> blk ?r k" by (auto simp: blk_def)
  have alq: "2 ^ k dvd q" using Suc.prems(2) by (metis dvd_mult_right power_Suc)
  then have alr: "2 ^ k dvd ?r" by simp
  have grow: "\<exists>b \<in> blocks F. Suc k \<le> snd b \<and> blk q (Suc k) \<subseteq> bset b"
    if b: "b \<in> blocks F" "blk x k \<subseteq> bset b" "Suc k \<le> snd b" and x: "x = q \<or> x = ?r" for b x
  proof -
    have alb: "2 ^ snd b dvd fst b" using wf [of b] b(1) by (simp add: wf_block_def)
    obtain c where c: "fst b = 2 ^ Suc k * c"
      using alb b(3) by (metis dvdE dvd_trans le_imp_power_dvd)
    obtain d where d: "q = 2 ^ Suc k * d" using Suc.prems(2) by blast
    have "x \<in> bset b" using b(2) blk_head by blast
    then have "fst b \<le> x" by simp
    moreover have "x < q + 2 ^ Suc k" using x by auto
    ultimately have "2 ^ Suc k * c < 2 ^ Suc k * (d + 1)"
      unfolding c [symmetric] distrib_left d [symmetric] by linarith
    then have "c \<le> d" by (simp only: mult_less_cancel1) simp
    then have "fst b \<le> q" unfolding c d by (rule mult_le_mono2)
    then have "q \<in> bset b" using \<open>x \<in> bset b\<close> x by auto
    then show ?thesis using aligned_block_inside [OF Suc.prems(2) alb _ b(3)] b(1,3) by blast
  qed
  have ks: "k < BUDDY_ORDERS" "k < BUDDY_ORDERS - 1" using Suc.prems(1) by auto
  have sub: "blk q k \<subseteq> frames (blocks F)" "blk ?r k \<subseteq> frames (blocks F)"
    using Suc.prems(3) unfolding halves by blast+
  obtain b where b: "b \<in> blocks F" "k \<le> snd b" "blk q k \<subseteq> bset b"
    using Suc.IH [OF ks(1) alq sub(1)] by blast
  obtain c where c: "c \<in> blocks F" "k \<le> snd c" "blk ?r k \<subseteq> bset c"
    using Suc.IH [OF ks(1) alr sub(2)] by blast
  have same: "e = (x, k)" if "e \<in> blocks F" "blk x k \<subseteq> bset e" "snd e = k" for e x
  proof -
    have "x \<in> blk x k" "x + 2 ^ k - 1 \<in> blk x k"
      unfolding blk_mem using zero_less_power [of "2 :: nat" k] by linarith+
    then have "x \<in> blk (fst e) k" "x + 2 ^ k - 1 \<in> blk (fst e) k" using that(2,3) by blast+
    then have "x = fst e" using zero_less_power [of "2 :: nat" k] by (simp, linarith)
    then show ?thesis using that(3) by (metis prod.collapse)
  qed
  have "\<not> (snd b = k \<and> snd c = k)"
  proof
    assume "snd b = k \<and> snd c = k"
    then have "(q, k) \<in> blocks F" "(?r, k) \<in> blocks F" using same b(1,3) c(1,3) by metis+
    then show False
      using buddy_invD(7) [OF inv] ks(2) buddy_pfn_low [OF Suc.prems(2)] by (fastforce simp: coalesced_def)
  qed
  then have "Suc k \<le> snd b \<or> Suc k \<le> snd c" using b(2) c(2) by linarith
  then show ?case using grow [OF b(1,3)] grow [OF c(1,3)] by blast
qed

section \<open>Descriptors of live and foreign frames are not written\<close>

lemma split_pages_frame:
  "2 ^ c dvd p \<Longrightarrow> i \<notin> blk p c \<Longrightarrow> mn_mmap (split_pages node p c order) ! i = mn_mmap node ! i"
proof (induction c arbitrary: node)
  case (Suc c)
  have al: "2 ^ c dvd p" using Suc.prems(1) by (metis dvd_mult_right power_Suc)
  have "i \<noteq> p + 2 ^ c" "i \<notin> blk p c" using Suc.prems(2) by auto
  then show ?case using Suc.IH [OF al] buddy_pfn_low [OF Suc.prems(1)] by (simp add: Let_def)
qed simp

lemma alloc_pages_node_frame:
  assumes inv: "buddy_inv node F A {}" and r: "alloc_pages_node_unlocked order node = (r, node')"
    and i: "i \<notin> frames (blocks F)"
  shows "mn_mmap node' ! i = mn_mmap node ! i"
proof -
  let ?c = "find_coorder node order"
  show ?thesis
  proof (cases "BUDDY_ORDERS \<le> ?c")
    case True
    then show ?thesis using r by (simp add: alloc_pages_node_unlocked_def)
  next
    case False
    note d = buddy_invD [OF inv]
    let ?p = "hd (F ?c)"
    have ne: "F ?c \<noteq> []" using find_coorder_spec(3) [OF d(2)] False by simp
    have first: "LIST_ENTRY_page (list_first (mn_links node) (FreeHead ?c)) = ?p"
      using dl.fam_first [OF d(2), of "FreeHead ?c"] ne False by (auto simp: hd_map)
    have b: "(?p, ?c) \<in> blocks F" using ne False by (simp add: blocks_def)
    then have al: "2 ^ ?c dvd ?p" using buddy_inv_wf [OF inv, of "(?p, ?c)"] by (simp add: wf_block_def)
    have out: "i \<notin> blk ?p ?c" using i b unfolding frames_def by auto
    then have "i \<noteq> ?p" by (metis blk_head)
    then show ?thesis
      using r False split_pages_frame [OF al out]
      by (auto simp: alloc_pages_node_unlocked_def Let_def first)
  qed
qed

lemma merge_pages_mmap: "merge_pages node p k = (node', p', k') \<Longrightarrow> mn_mmap node' = mn_mmap node"
proof (induction node p k rule: merge_pages.induct)
  case (1 node p k)
  from "1.prems" show ?case
    by (simp only: merge_pages.simps [of node p k] Let_def split: if_splits)
      (use "1.IH" in \<open>simp_all add: Let_def\<close>)
qed

lemma free_transit_frame:
  assumes inv: "buddy_inv node F A {(p, k)}" and i: "i \<notin> frames (blocks F) \<union> blk p k"
  shows "mn_mmap (free_pages_node_unlocked p k node) ! i = mn_mmap node ! i"
proof -
  obtain node' p' k' where m: "merge_pages node p k = (node', p', k')" by (metis prod_cases3)
  obtain F' where "frames (blocks F') \<union> blk p' k' = frames (blocks F) \<union> blk p k"
    using merge_pages_ok [OF inv m] by blast
  then have "i \<noteq> p'" using i blk_head [of p' k'] by blast
  then show ?thesis by (simp add: free_pages_node_unlocked_def m merge_pages_mmap [OF m])
qed

text \<open>The owner of a frame may use the union of its descriptor.\<close>

lemma buddy_inv_set_u:
  assumes inv: "buddy_inv node F A {}" and i: "i \<notin> frames (blocks F)"
  shows "buddy_inv (page_upd i (\<lambda>p. p\<lparr>pg_u := u\<rparr>) node) F A {}"
proof -
  note d = buddy_invD [OF inv]
  have head: "fst b \<noteq> i" if "b \<in> blocks F" for b
    using i that blk_head [of "fst b" "snd b"] unfolding frames_def by blast
  have pg: "page_busy (x\<lparr>pg_u := u\<rparr>) = page_busy x" "page_node_id (x\<lparr>pg_u := u\<rparr>) = page_node_id x" for x
    by (simp_all add: page_busy_def page_node_id_def)
  have "(mn_mmap node)[i := (mn_mmap node ! i)\<lparr>pg_u := u\<rparr>] ! j =
      (if j = i \<and> i < length (mn_mmap node) then (mn_mmap node ! i)\<lparr>pg_u := u\<rparr> else mn_mmap node ! j)" for j
    by (cases "i < length (mn_mmap node)") (auto simp: nth_list_update list_update_beyond)
  then have "flags_ok (page_upd i (\<lambda>p. p\<lparr>pg_u := u\<rparr>) node) F A (frames (blocks F \<union> A \<union> {}))"
    using d(6) head unfolding flags_ok_def by (auto simp: pg)
  then show ?thesis using d unfolding buddy_inv_def by simp
qed

section \<open>The contract of a page allocator\<close>

text \<open>
  What callers rely on: \<^verbatim>\<open>inv s U L\<close> holds when the state \<^verbatim>\<open>s\<close> has the free frames \<^verbatim>\<open>U\<close> and the
  live blocks \<^verbatim>\<open>L\<close>. An allocation takes its extent out of \<^verbatim>\<open>U\<close>, a release of a live block puts it
  back, and live blocks never overlap.
\<close>

datatype 'p request = Req_alloc nat | Req_free 'p nat

fun serve :: "(nat \<Rightarrow> 's \<Rightarrow> 'p option \<times> 's) \<Rightarrow> ('p \<Rightarrow> nat \<Rightarrow> 's \<Rightarrow> 's) \<Rightarrow>
    'p request \<Rightarrow> 's \<times> ('p \<times> nat) set \<Rightarrow> 's \<times> ('p \<times> nat) set" where
  "serve alloc free (Req_alloc k) (s, L) =
     (case alloc k s of (None, s') \<Rightarrow> (s', L) | (Some p, s') \<Rightarrow> (s', insert (p, k) L))"
| "serve alloc free (Req_free p k) (s, L) =
     (if (p, k) \<in> L then (free p k s, L - {(p, k)}) else (s, L))"

fun req_ok :: "nat \<Rightarrow> 'p request \<Rightarrow> bool" where
  "req_ok n (Req_alloc k) \<longleftrightarrow> k < n"
| "req_ok n (Req_free p k) \<longleftrightarrow> True"

locale page_allocator =
  fixes inv :: "'s \<Rightarrow> 'f set \<Rightarrow> ('p \<times> nat) set \<Rightarrow> bool"
    and extent :: "'p \<times> nat \<Rightarrow> 'f set"
    and orders :: nat
    and alloc :: "nat \<Rightarrow> 's \<Rightarrow> 'p option \<times> 's"
    and free :: "'p \<Rightarrow> nat \<Rightarrow> 's \<Rightarrow> 's"
  assumes live_disjoint: "inv s U L \<Longrightarrow> b \<in> L \<Longrightarrow> c \<in> L \<Longrightarrow> b \<noteq> c \<Longrightarrow> disjnt (extent b) (extent c)"
    and live_not_free: "inv s U L \<Longrightarrow> b \<in> L \<Longrightarrow> disjnt (extent b) U"
    and alloc_none: "inv s U L \<Longrightarrow> k < orders \<Longrightarrow> alloc k s = (None, s') \<Longrightarrow> inv s' U L"
    and alloc_some: "inv s U L \<Longrightarrow> k < orders \<Longrightarrow> alloc k s = (Some p, s') \<Longrightarrow>
      (p, k) \<notin> L \<and> extent (p, k) \<subseteq> U \<and> inv s' (U - extent (p, k)) (insert (p, k) L)"
    and free_live: "inv s U L \<Longrightarrow> (p, k) \<in> L \<Longrightarrow> inv (free p k s) (U \<union> extent (p, k)) (L - {(p, k)})"
begin

lemma serve_inv:
  assumes "inv s U L" and "req_ok orders r" and "serve alloc free r (s, L) = (s', L')"
  shows "\<exists>U'. inv s' U' L' \<and> U' \<union> \<Union> (extent ` L') = U \<union> \<Union> (extent ` L)"
proof (cases r)
  case (Req_alloc k)
  obtain q t where a: "alloc k s = (q, t)" by fastforce
  show ?thesis
  proof (cases q)
    case None
    then have "inv s' U L" "L' = L" using a assms Req_alloc alloc_none [of s U L k s'] by auto
    then show ?thesis by blast
  next
    case (Some p)
    then have "extent (p, k) \<subseteq> U \<and> inv t (U - extent (p, k)) (insert (p, k) L)"
      using alloc_some [of s U L k p t] a assms(1,2) Req_alloc by auto
    moreover have "s' = t" "L' = insert (p, k) L" using assms(3) Req_alloc a Some by auto
    ultimately show ?thesis by (intro exI [of _ "U - extent (p, k)"]) auto
  qed
next
  case (Req_free p k)
  show ?thesis
  proof (cases "(p, k) \<in> L")
    case True
    then show ?thesis
      using free_live [OF assms(1) True] assms(3) Req_free
      by (intro exI [of _ "U \<union> extent (p, k)"]) auto
  next
    case False
    then show ?thesis using assms Req_free by auto
  qed
qed

lemma run_inv:
  assumes "inv s U L" and "\<forall>r \<in> set rs. req_ok orders r" and "fold (serve alloc free) rs (s, L) = (s', L')"
  shows "\<exists>U'. inv s' U' L' \<and> U' \<union> \<Union> (extent ` L') = U \<union> \<Union> (extent ` L)"
  using assms
proof (induction rs arbitrary: s U L)
  case (Cons r rs)
  obtain s1 L1 where st: "serve alloc free r (s, L) = (s1, L1)" by fastforce
  obtain U1 where U1: "inv s1 U1 L1" "U1 \<union> \<Union> (extent ` L1) = U \<union> \<Union> (extent ` L)"
    using serve_inv [OF Cons.prems(1) _ st] Cons.prems(2) by auto
  have "\<exists>U'. inv s' U' L' \<and> U' \<union> \<Union> (extent ` L') = U1 \<union> \<Union> (extent ` L1)"
    by (rule Cons.IH [OF U1(1)]) (use Cons.prems st in auto)
  then show ?case using U1(2) by simp
qed auto

text \<open>Over any sequence of requests no frame is lost, duplicated or handed out twice.\<close>

lemma run_safe:
  assumes "inv s U {}" and "\<forall>r \<in> set rs. req_ok orders r" and "fold (serve alloc free) rs (s, {}) = (s', L')"
  shows "\<exists>U'. inv s' U' L' \<and> U' \<union> \<Union> (extent ` L') = U \<and>
    (\<forall>b \<in> L'. disjnt (extent b) U') \<and> (\<forall>b \<in> L'. \<forall>c \<in> L'. b \<noteq> c \<longrightarrow> disjnt (extent b) (extent c))"
proof -
  obtain U' where U': "inv s' U' L'" "U' \<union> \<Union> (extent ` L') = U"
    using run_inv [OF assms] by auto
  then show ?thesis using live_disjoint live_not_free by blast
qed

end

definition node_inv :: "memory_node \<Rightarrow> nat set \<Rightarrow> block set \<Rightarrow> bool" where
  "node_inv node U L \<longleftrightarrow> (\<exists>F. buddy_inv node F L {} \<and> U = frames (blocks F))"

lemma node_inv_alloc_some:
  assumes "node_inv node U L" and "k < BUDDY_ORDERS"
    and "alloc_pages_node_unlocked k node = (Some p, node')"
  shows "(p, k) \<notin> L \<and> blk p k \<subseteq> U \<and> node_inv node' (U - blk p k) (insert (p, k) L)" and "same_shape node node'"
proof -
  obtain F where F: "buddy_inv node F L {}" "U = frames (blocks F)"
    using assms(1) by (auto simp: node_inv_def)
  obtain F' where F': "buddy_inv node' F' (insert (p, k) L) {}" "(p, k) \<notin> L"
    "U = frames (blocks F') \<union> blk p k" "disjnt (blk p k) (frames (blocks F'))" "same_shape node node'"
    using alloc_pages_node_ok [OF F(1) assms(2,3)] F(2) by blast
  have "U - blk p k = frames (blocks F')" using F'(3,4) unfolding disjnt_def by blast
  then show "(p, k) \<notin> L \<and> blk p k \<subseteq> U \<and> node_inv node' (U - blk p k) (insert (p, k) L)"
    using F' by (auto simp: node_inv_def)
  show "same_shape node node'" by (rule F')
qed

lemma node_inv_alloc_none:
  assumes "node_inv node U L" and "k < BUDDY_ORDERS"
    and "alloc_pages_node_unlocked k node = (None, node')"
  shows "node' = node" and "2 ^ k dvd q \<Longrightarrow> \<not> blk q k \<subseteq> U"
proof -
  obtain F where F: "buddy_inv node F L {}" "U = frames (blocks F)"
    using assms(1) by (auto simp: node_inv_def)
  note f = alloc_pages_node_fail [OF F(1) assms(2,3)]
  show "node' = node" by (rule f)
  assume al: "2 ^ k dvd q"
  show "\<not> blk q k \<subseteq> U"
  proof
    assume "blk q k \<subseteq> U"
    then obtain b where "b \<in> blocks F" "k \<le> snd b"
      using free_run_in_block [OF F(1) assms(2) al] F(2) by blast
    then show False using f(2) by (auto simp: blocks_def)
  qed
qed

lemma node_inv_free:
  assumes "node_inv node U L" and "(p, k) \<in> L"
  shows "node_inv (free_pages_node_unlocked p k node) (U \<union> blk p k) (L - {(p, k)})"
    and "same_shape node (free_pages_node_unlocked p k node)"
proof -
  obtain F where F: "buddy_inv node F L {}" "U = frames (blocks F)"
    using assms(1) by (auto simp: node_inv_def)
  from free_transit_ok [OF transit_take_back [OF F(1) assms(2)]] F(2)
  show "node_inv (free_pages_node_unlocked p k node) (U \<union> blk p k) (L - {(p, k)})"
    and "same_shape node (free_pages_node_unlocked p k node)"
    by (auto simp: node_inv_def)
qed

lemma node_inv_disjoint:
  assumes "node_inv node U L" and "b \<in> L"
  shows "c \<in> L \<Longrightarrow> b \<noteq> c \<Longrightarrow> disjnt (bset b) (bset c)" and "disjnt (bset b) U"
proof -
  obtain F where F: "buddy_inv node F L {}" "U = frames (blocks F)"
    using assms(1) by (auto simp: node_inv_def)
  note i = buddy_invD [OF F(1)]
  show "disjnt (bset b) (bset c)" if "c \<in> L" "b \<noteq> c"
    using block_partitionD(2) [OF i(3), of b c] assms(2) that by simp
  have "block_partition (length (mn_mmap node)) (insert b (blocks F))"
    by (rule block_partition_subset [OF i(3)]) (use assms(2) in auto)
  then show "disjnt (bset b) U" using block_partition_frames [of _ b "blocks F"] i(4) assms(2) F(2) by blast
qed

lemma node_inv_frames:
  assumes "node_inv node U L"
  shows "alloc_pages_node_unlocked k node = (r, node') \<Longrightarrow> i \<notin> U \<Longrightarrow> mn_mmap node' ! i = mn_mmap node ! i"
    and "(p, k) \<in> L \<Longrightarrow> i \<notin> U \<union> blk p k \<Longrightarrow> mn_mmap (free_pages_node_unlocked p k node) ! i = mn_mmap node ! i"
    and "i \<notin> U \<Longrightarrow> node_inv (page_upd i (\<lambda>p. p\<lparr>pg_u := u\<rparr>) node) U L"
proof -
  obtain F where F: "buddy_inv node F L {}" "U = frames (blocks F)"
    using assms by (auto simp: node_inv_def)
  show "alloc_pages_node_unlocked k node = (r, node') \<Longrightarrow> i \<notin> U \<Longrightarrow> mn_mmap node' ! i = mn_mmap node ! i"
    using alloc_pages_node_frame [OF F(1)] F(2) by blast
  show "(p, k) \<in> L \<Longrightarrow> i \<notin> U \<union> blk p k \<Longrightarrow> mn_mmap (free_pages_node_unlocked p k node) ! i = mn_mmap node ! i"
    using free_transit_frame [OF transit_take_back [OF F(1)]] F(2) by blast
  show "i \<notin> U \<Longrightarrow> node_inv (page_upd i (\<lambda>p. p\<lparr>pg_u := u\<rparr>) node) U L"
    using buddy_inv_set_u [OF F(1)] F(2) by (auto simp: node_inv_def)
qed

interpretation node: page_allocator node_inv bset BUDDY_ORDERS alloc_pages_node_unlocked free_pages_node_unlocked
proof
  fix s U L b c k p s'
  show "node_inv s U L \<Longrightarrow> b \<in> L \<Longrightarrow> c \<in> L \<Longrightarrow> b \<noteq> c \<Longrightarrow> disjnt (bset b) (bset c)"
    by (rule node_inv_disjoint(1))
  show "node_inv s U L \<Longrightarrow> b \<in> L \<Longrightarrow> disjnt (bset b) U" by (rule node_inv_disjoint(2))
  show "node_inv s U L \<Longrightarrow> k < BUDDY_ORDERS \<Longrightarrow> alloc_pages_node_unlocked k s = (None, s') \<Longrightarrow> node_inv s' U L"
    using node_inv_alloc_none(1) by blast
  show "node_inv s U L \<Longrightarrow> k < BUDDY_ORDERS \<Longrightarrow> alloc_pages_node_unlocked k s = (Some p, s') \<Longrightarrow>
      (p, k) \<notin> L \<and> bset (p, k) \<subseteq> U \<and> node_inv s' (U - bset (p, k)) (insert (p, k) L)"
    using node_inv_alloc_some(1) by simp
  show "node_inv s U L \<Longrightarrow> (p, k) \<in> L \<Longrightarrow>
      node_inv (free_pages_node_unlocked p k s) (U \<union> bset (p, k)) (L - {(p, k)})"
    using node_inv_free(1) by simp
qed

end
