(* ===== verification/Local_Irq.thy ===== *)
theory Local_Irq
  imports Kernel_Prelude
begin

text \<open>
  Interrupt masking and spin locks: the inline functions of \<^verbatim>\<open>src/interrupt.h\<close>,
  \<^verbatim>\<open>src/threads_defs.h\<close> and the spin locks of \<^verbatim>\<open>src/locking.h\<close>. The kernel runs on one CPU, so
  its only state here is the flags register: \<^verbatim>\<open>cli\<close> and \<^verbatim>\<open>sti\<close> clear and set bit 9, and a spin
  lock is a section with that bit clear. The lemmas show that the save and restore pairs nest:
  a critical section leaves the register as it found it.
\<close>

section \<open>The flags register\<close>

definition RFLAGS_IF :: u64 where "RFLAGS_IF = push_bit 9 1"

definition local_irq_disable :: "u64 \<Rightarrow> u64" where
  "local_irq_disable fl = fl AND NOT RFLAGS_IF"

definition local_irq_enable :: "u64 \<Rightarrow> u64" where
  "local_irq_enable fl = fl OR RFLAGS_IF"

definition local_save_flags :: "u64 \<Rightarrow> u64" where
  "local_save_flags fl = fl"

definition local_restore_flags :: "u64 \<Rightarrow> u64 \<Rightarrow> u64" where
  "local_restore_flags flags fl = flags"

definition local_irq_enabled :: "u64 \<Rightarrow> bool" where
  "local_irq_enabled fl \<longleftrightarrow> local_save_flags fl AND RFLAGS_IF \<noteq> 0"

definition local_irq_disabled :: "u64 \<Rightarrow> bool" where
  "local_irq_disabled fl \<longleftrightarrow> \<not> local_irq_enabled fl"

definition local_irqsave :: "u64 \<Rightarrow> u64 \<times> u64" where
  "local_irqsave fl = (let flags = local_save_flags fl in (flags, local_irq_disable fl))"

definition local_irqrestore :: "u64 \<Rightarrow> u64 \<Rightarrow> u64" where
  "local_irqrestore flags fl = (if flags AND RFLAGS_IF \<noteq> 0 then local_irq_enable fl else fl)"

section \<open>Preemption and spin locks\<close>

definition local_preempt_disable :: "u64 \<Rightarrow> u64" where
  "local_preempt_disable fl = local_irq_disable fl"

definition local_preempt_enable :: "u64 \<Rightarrow> u64" where
  "local_preempt_enable fl = local_irq_enable fl"

definition local_preempt_enabled :: "u64 \<Rightarrow> bool" where
  "local_preempt_enabled fl \<longleftrightarrow> local_irq_enabled fl"

definition local_preempt_disabled :: "u64 \<Rightarrow> bool" where
  "local_preempt_disabled fl \<longleftrightarrow> local_irq_disabled fl"

definition local_preempt_save :: "u64 \<Rightarrow> bool \<times> u64" where
  "local_preempt_save fl =
     (let enabled = local_preempt_enabled fl in (enabled, local_preempt_disable fl))"

definition local_preempt_restore :: "bool \<Rightarrow> u64 \<Rightarrow> u64" where
  "local_preempt_restore enabled fl = (if enabled then local_preempt_enable fl else fl)"

definition spin_lock :: "u64 \<Rightarrow> u64" where
  "spin_lock fl = local_preempt_disable fl"

definition spin_unlock :: "u64 \<Rightarrow> u64" where
  "spin_unlock fl = local_preempt_enable fl"

definition spin_lock_irqsave :: "u64 \<Rightarrow> bool \<times> u64" where
  "spin_lock_irqsave fl = local_preempt_save fl"

definition spin_unlock_irqrestore :: "bool \<Rightarrow> u64 \<Rightarrow> u64" where
  "spin_unlock_irqrestore enabled fl = local_preempt_restore enabled fl"

section \<open>Masking laws\<close>

lemma local_irq_enabled_bit: "local_irq_enabled fl \<longleftrightarrow> bit fl 9"
  by (simp add: local_irq_enabled_def local_save_flags_def RFLAGS_IF_def bit_iff_and_push_bit_not_eq_0)

lemma bit_RFLAGS_IF [simp]: "bit RFLAGS_IF n \<longleftrightarrow> n = 9"
  unfolding RFLAGS_IF_def bit_push_bit_iff bit_1_iff by auto

lemma irq_disable_enabled [simp]: "\<not> local_irq_enabled (local_irq_disable fl)"
  by (simp add: local_irq_enabled_bit local_irq_disable_def bit_simps)

lemma irq_enable_enabled [simp]: "local_irq_enabled (local_irq_enable fl)"
  by (simp add: local_irq_enabled_bit local_irq_enable_def bit_simps)

lemma irq_enable_disable: "local_irq_enabled fl \<Longrightarrow> local_irq_enable (local_irq_disable fl) = fl"
  by (rule bit_word_eqI) (auto simp: local_irq_enabled_bit local_irq_enable_def local_irq_disable_def bit_simps)

lemma irq_disable_disabled: "\<not> local_irq_enabled fl \<Longrightarrow> local_irq_disable fl = fl"
  by (rule bit_word_eqI) (auto simp: local_irq_enabled_bit local_irq_disable_def bit_simps)

text \<open>
  A critical section: \<^verbatim>\<open>save\<close> returns a token and masks interrupts, \<^verbatim>\<open>restore\<close> gives the register
  back. Whatever masked section runs in between, nested ones included, the register survives.
\<close>

locale irq_section =
  fixes save :: "'w \<Rightarrow> 't \<times> 'w" and restore :: "'t \<Rightarrow> 'w \<Rightarrow> 'w" and masked :: "'w \<Rightarrow> bool"
  assumes save_masks: "masked (snd (save w))"
    and save_restore: "restore (fst (save w)) (snd (save w)) = w"
begin

text \<open>The register after \<^verbatim>\<open>n\<close> nested sections and the body at the innermost level.\<close>

fun nest :: "nat \<Rightarrow> ('w \<Rightarrow> 'w) \<Rightarrow> 'w \<Rightarrow> 'w" where
  "nest 0 body w = body w"
| "nest (Suc n) body w = restore (fst (save w)) (nest n body (snd (save w)))"

lemma nest_preserves:
  assumes "\<And>w. body w = w"
  shows "nest n body w = w"
  by (induction n arbitrary: w) (simp_all add: assms save_restore)

lemma section_frame:
  assumes "save w = (t, w')" and "\<And>w. masked w \<Longrightarrow> body w = w"
  shows "restore t (body w') = w"
  using assms save_masks [of w] save_restore [of w] by simp

end

interpretation irqsave: irq_section local_irqsave local_irqrestore local_irq_disabled
proof
  fix w :: u64
  show "local_irq_disabled (snd (local_irqsave w))"
    by (simp add: local_irqsave_def local_irq_disabled_def)
  show "local_irqrestore (fst (local_irqsave w)) (snd (local_irqsave w)) = w"
    using irq_enable_disable [of w] irq_disable_disabled [of w]
    by (auto simp: local_irqsave_def local_irqrestore_def local_save_flags_def local_irq_enabled_def)
qed

interpretation spinlock: irq_section spin_lock_irqsave spin_unlock_irqrestore local_preempt_disabled
proof
  fix w :: u64
  show "local_preempt_disabled (snd (spin_lock_irqsave w))"
    by (simp add: spin_lock_irqsave_def local_preempt_save_def local_preempt_disable_def
        local_preempt_disabled_def local_irq_disabled_def)
  show "spin_unlock_irqrestore (fst (spin_lock_irqsave w)) (snd (spin_lock_irqsave w)) = w"
    using irq_enable_disable [of w] irq_disable_disabled [of w]
    by (auto simp: spin_lock_irqsave_def spin_unlock_irqrestore_def local_preempt_save_def
        local_preempt_restore_def local_preempt_enable_def local_preempt_disable_def local_preempt_enabled_def)
qed

lemmas irq_section_simps = spinlock.save_restore irqsave.save_restore

declare spinlock.save_restore [simp] irqsave.save_restore [simp]

text \<open>C8: a spin-lock section masks interrupts inside and gives the whole flags register back at the
  end, whether or not interrupts were enabled at its start, and also when sections nest.\<close>

theorem spin_lock_irqsave_restores:
  "local_irq_disabled (snd (spin_lock_irqsave fl)) \<and>
   spin_unlock_irqrestore (fst (spin_lock_irqsave fl)) (snd (spin_lock_irqsave fl)) = fl \<and>
   spinlock.nest n (\<lambda>w. w) fl = fl"
  using spinlock.save_masks [of fl] spinlock.nest_preserves [of "\<lambda>w. w"]
  by (simp add: local_preempt_disabled_def)

end
