(* ===== verification/Page_Alloc.thy ===== *)
theory Page_Alloc
  imports Buddy Local_Irq
begin

text \<open>
  The memory nodes together, after \<^verbatim>\<open>src/memory.c\<close>: how boot turns the regions of the boot
  allocator into nodes and gives their free frames to the buddy allocator, the order in which
  allocations try the nodes, and the conversions between frame numbers and descriptors. A
  \<^verbatim>\<open>struct page *\<close> is the pair of its node and its index in that node's \<^verbatim>\<open>mmap\<close>.
\<close>

section \<open>State\<close>

definition PAGE_BITS :: nat where "PAGE_BITS = 12"
definition PAGE_SIZE :: u64 where "PAGE_SIZE = BIT_CONST PAGE_BITS"
definition LOWMEM_SIZE :: u64 where "LOWMEM_SIZE = 4 * 1024 * 1024 * 1024"
definition MAX_PHYS_SIZE :: u64 where "MAX_PHYS_SIZE = BIT_CONST 36"
definition HIGH_BASE :: u64 where "HIGH_BASE = 0xffff800000000000"
definition KERNEL_BASE :: u64 where "KERNEL_BASE = 0xffffffff80000000"
definition MAX_MEMORY_NODES :: nat where "MAX_MEMORY_NODES = 256"

definition pa :: "u64 \<Rightarrow> u64" where "pa vaddr = vaddr - HIGH_BASE"
definition va :: "u64 \<Rightarrow> u64" where "va paddr = paddr + HIGH_BASE"
definition kernel_phys :: "u64 \<Rightarrow> u64" where "kernel_phys vaddr = vaddr - KERNEL_BASE"
definition kernel_virt :: "u64 \<Rightarrow> u64" where "kernel_virt paddr = paddr + KERNEL_BASE"

type_synonym page_ptr = "nat \<times> nat"

text \<open>Link cells of the node lists: the global order, the per-type heads of \<^verbatim>\<open>setup_buddy\<close>, the nodes.\<close>

datatype nptr = NodeOrder | TypeNodes node_type | NodeLink nat

record mem_state =
  ms_rflags :: u64
  ms_nodes :: "memory_node list"
  ms_links :: "nptr list_heap"
  ms_node_type :: "node_type \<Rightarrow> nptr"

fun LIST_ENTRY_node :: "nptr \<Rightarrow> nat" where
  "LIST_ENTRY_node (NodeLink n) = n"
| "LIST_ENTRY_node _ = 0"

section \<open>Creating nodes\<close>

text \<open>\<^verbatim>\<open>raw\<close> is what the memory of the descriptors held before: the union is not initialised.\<close>

definition init_page :: "nat \<Rightarrow> u64 \<Rightarrow> page" where
  "init_page nid raw = page_set_busy \<lparr>pg_flags = of_nat nid, pg_u = raw\<rparr>"

definition init_links :: "nat \<Rightarrow> bptr list_heap \<Rightarrow> bptr list_heap" where
  "init_links pages h =
     (let h = fold list_init (map FreeHead [0..<BUDDY_ORDERS]) h
      in fold list_init (map PageLink [0..<pages]) h)"

definition make_node ::
  "node_type \<Rightarrow> nat \<Rightarrow> nat \<Rightarrow> nat \<Rightarrow> (nat \<Rightarrow> u64) \<Rightarrow> bptr list_heap \<Rightarrow> memory_node" where
  "make_node ty pfn pages nid raw h =
     \<lparr>mn_mmap = map (\<lambda>i. init_page nid (raw i)) [0..<pages], mn_links = init_links pages h,
      mn_begin_pfn = pfn, mn_end_pfn = pfn + pages, mn_id = nid, mn_type = ty\<rparr>"

text \<open>\<^verbatim>\<open>sizeof(struct page)\<close>: the flags, the two link pointers and the union.\<close>

definition sizeof_page :: u64 where "sizeof_page = 32"

definition memory_node_add_range ::
  "(nat \<Rightarrow> u64) \<Rightarrow> bptr list_heap \<Rightarrow> node_type \<Rightarrow> u64 \<Rightarrow> u64 \<Rightarrow>
   balloc_state \<times> mem_state \<Rightarrow> (balloc_state \<times> mem_state) option" where
  "memory_node_add_range raw h ty begin end = (\<lambda>(bs, ms).
     (let pages = drop_bit PAGE_BITS (end - begin);
          pfn = drop_bit PAGE_BITS begin;
          nid = length (ms_nodes ms)
      in if nid \<ge> MAX_MEMORY_NODES then None
         else do {
           (mmap, bs) \<leftarrow> balloc_alloc_aligned PAGE_SIZE LOWMEM_SIZE (sizeof_page * pages) PAGE_SIZE bs;
           _ \<leftarrow> mmap;
           Some (bs, ms\<lparr>ms_nodes := ms_nodes ms @ [make_node ty (unat pfn) (unat pages) nid raw h],
                        ms_links := list_init (NodeLink nid) (ms_links ms)\<rparr>)
         }))"

definition memory_node_add ::
  "(nat \<Rightarrow> u64) \<Rightarrow> bptr list_heap \<Rightarrow> u64 \<Rightarrow> u64 \<Rightarrow>
   balloc_state \<times> mem_state \<Rightarrow> (balloc_state \<times> mem_state) option" where
  "memory_node_add raw h addr sz st =
     (let begin = ALIGN addr PAGE_SIZE;
          end = MINU (ALIGN_DOWN (addr + sz) PAGE_SIZE) MAX_PHYS_SIZE
      in if begin \<ge> end then Some st
         else if begin < LOWMEM_SIZE \<and> end > LOWMEM_SIZE then do {
           st \<leftarrow> memory_node_add_range raw h NT_LOW begin LOWMEM_SIZE st;
           memory_node_add_range raw h NT_HIGH LOWMEM_SIZE end st
         } else memory_node_add_range raw h (if end \<le> LOWMEM_SIZE then NT_LOW else NT_HIGH) begin end st)"

section \<open>Pages, frames and nodes\<close>

fun pfn_node_from :: "memory_node list \<Rightarrow> nat \<Rightarrow> nat \<Rightarrow> nat option" where
  "pfn_node_from [] i pfn = None"
| "pfn_node_from (node # nodes) i pfn =
     (if mn_end_pfn node \<le> pfn then pfn_node_from nodes (i + 1) pfn else Some i)"

definition pfn_node :: "mem_state \<Rightarrow> nat \<Rightarrow> nat option" where
  "pfn_node ms pfn = pfn_node_from (ms_nodes ms) 0 pfn"

definition page_of :: "mem_state \<Rightarrow> page_ptr \<Rightarrow> page" where
  "page_of ms p = mn_mmap (ms_nodes ms ! fst p) ! snd p"

definition page_node :: "mem_state \<Rightarrow> page_ptr \<Rightarrow> nat" where
  "page_node ms p = page_node_id (page_of ms p)"

text \<open>As in the C code the frame number is not checked against the node's first frame.\<close>

definition pfn2page :: "mem_state \<Rightarrow> nat \<Rightarrow> page_ptr option" where
  "pfn2page ms pfn =
     (case pfn_node ms pfn of
        None \<Rightarrow> None
      | Some n \<Rightarrow> Some (n, pfn - mn_begin_pfn (ms_nodes ms ! n)))"

definition page2pfn :: "mem_state \<Rightarrow> page_ptr \<Rightarrow> nat" where
  "page2pfn ms p = mn_begin_pfn (ms_nodes ms ! page_node ms p) + snd p"

definition page_paddr :: "mem_state \<Rightarrow> page_ptr \<Rightarrow> u64" where
  "page_paddr ms p = push_bit PAGE_BITS (of_nat (page2pfn ms p))"

definition page_addr :: "mem_state \<Rightarrow> page_ptr \<Rightarrow> u64" where
  "page_addr ms p = va (page_paddr ms p)"

definition max_pfns :: "mem_state \<Rightarrow> nat" where
  "max_pfns ms = fold (\<lambda>node m. max m (mn_end_pfn node)) (ms_nodes ms) 0"

section \<open>Allocation and release\<close>

definition node_upd :: "nat \<Rightarrow> memory_node \<Rightarrow> mem_state \<Rightarrow> mem_state" where
  "node_upd n node ms = ms\<lparr>ms_nodes := (ms_nodes ms)[n := node]\<rparr>"

definition alloc_pages_node :: "nat \<Rightarrow> nat \<Rightarrow> mem_state \<Rightarrow> page_ptr option \<times> mem_state" where
  "alloc_pages_node order n ms =
     (let (enabled, fl) = spin_lock_irqsave (ms_rflags ms);
          (pages, node) = alloc_pages_node_unlocked order (ms_nodes ms ! n)
      in (map_option (Pair n) pages,
          (node_upd n node ms)\<lparr>ms_rflags := spin_unlock_irqrestore enabled fl\<rparr>))"

definition free_pages_node :: "page_ptr option \<Rightarrow> nat \<Rightarrow> nat \<Rightarrow> mem_state \<Rightarrow> mem_state" where
  "free_pages_node pages order n ms =
     (case pages of
        None \<Rightarrow> ms
      | Some p \<Rightarrow>
          (let (enabled, fl) = spin_lock_irqsave (ms_rflags ms);
               node = free_pages_node_unlocked (snd p) order (ms_nodes ms ! n)
           in (node_upd n node ms)\<lparr>ms_rflags := spin_unlock_irqrestore enabled fl\<rparr>))"

partial_function (option) alloc_pages_walk ::
  "nat \<Rightarrow> nptr \<Rightarrow> mem_state \<Rightarrow> (page_ptr option \<times> mem_state) option" where
  "alloc_pages_walk order ptr ms =
     (if ptr = NodeOrder then Some (None, ms)
      else let (pages, ms) = alloc_pages_node order (LIST_ENTRY_node ptr) ms
           in case pages of
                Some p \<Rightarrow> Some (Some p, ms)
              | None \<Rightarrow> alloc_pages_walk order (l_next (ms_links ms) ptr) ms)"

definition alloc_pages_type :: "nat \<Rightarrow> node_type \<Rightarrow> mem_state \<Rightarrow> (page_ptr option \<times> mem_state) option" where
  "alloc_pages_type order ty ms = alloc_pages_walk order (ms_node_type ms ty) ms"

definition alloc_pages :: "nat \<Rightarrow> mem_state \<Rightarrow> (page_ptr option \<times> mem_state) option" where
  "alloc_pages order ms = alloc_pages_type order NT_HIGH ms"

definition free_pages :: "page_ptr option \<Rightarrow> nat \<Rightarrow> mem_state \<Rightarrow> mem_state" where
  "free_pages pages order ms =
     (case pages of None \<Rightarrow> ms | Some p \<Rightarrow> free_pages_node (Some p) order (page_node ms p) ms)"

section \<open>Giving regions to the buddy allocator\<close>

fun clamp_order :: "nat \<Rightarrow> nat \<Rightarrow> nat \<Rightarrow> nat" where
  "clamp_order pfn pages 0 = 0"
| "clamp_order pfn pages (Suc order) =
     (if pfn + push_bit (Suc order) 1 > pages then clamp_order pfn pages order else Suc order)"

partial_function (option) free_region_loop ::
  "nat \<Rightarrow> nat \<Rightarrow> nat \<Rightarrow> nat \<Rightarrow> mem_state \<Rightarrow> mem_state option" where
  "free_region_loop n pages stop pfn ms =
     (if pfn \<noteq> stop
      then let order = clamp_order pfn pages (pfn_max_order pfn);
               ms = free_pages_node (Some (n, pfn)) order n ms
           in free_region_loop n pages stop (pfn + push_bit order 1) ms
      else Some ms)"

definition memory_free_range :: "u64 \<Rightarrow> u64 \<Rightarrow> mem_state \<Rightarrow> mem_state option" where
  "memory_free_range begin end ms =
     (let b = unat (drop_bit PAGE_BITS begin);
          e = unat (drop_bit PAGE_BITS end);
          pages = e - b
      in do {
        n \<leftarrow> pfn_node ms b;
        let node_pfn = b - mn_begin_pfn (ms_nodes ms ! n);
        free_region_loop n pages (node_pfn + pages) node_pfn ms
      })"

definition memory_free_region :: "u64 \<Rightarrow> u64 \<Rightarrow> mem_state \<Rightarrow> mem_state option" where
  "memory_free_region addr sz ms =
     (let begin = ALIGN addr PAGE_SIZE;
          end = MINU (ALIGN_DOWN (addr + sz) PAGE_SIZE) MAX_PHYS_SIZE
      in if begin \<ge> end then Some ms
         else if begin < LOWMEM_SIZE \<and> end > LOWMEM_SIZE then do {
           ms \<leftarrow> memory_free_range begin LOWMEM_SIZE ms;
           memory_free_range LOWMEM_SIZE end ms
         } else memory_free_range begin end ms)"

definition order_nodes :: "mem_state \<Rightarrow> mem_state" where
  "order_nodes ms =
     (let h = fold (\<lambda>ty. list_init (TypeNodes ty)) [NT_LOW, NT_HIGH] (ms_links ms);
          h = fold (\<lambda>i. list_add_tail (NodeLink i) (TypeNodes (mn_type (ms_nodes ms ! i))))
                [0..<length (ms_nodes ms)] h
      in fold (\<lambda>ty ms. let h = list_splice (TypeNodes ty) NodeOrder (ms_links ms)
                       in ms\<lparr>ms_links := h, ms_node_type := (ms_node_type ms)(ty := l_next h NodeOrder)\<rparr>)
           [NT_LOW, NT_HIGH] (ms\<lparr>ms_links := h\<rparr>))"

definition setup_buddy ::
  "(nat \<Rightarrow> u64) \<Rightarrow> bptr list_heap \<Rightarrow> balloc_state \<Rightarrow> mem_state \<Rightarrow> (balloc_state \<times> mem_state) option" where
  "setup_buddy raw h bs ms = do {
     (bs, ms) \<leftarrow> balloc_iterate (ba_all bs) (\<lambda>addr sz st. Option.bind st (memory_node_add raw h addr sz)) (Some (bs, ms));
     ms \<leftarrow> balloc_iterate (ba_free bs) (\<lambda>addr sz st. Option.bind st (memory_free_region addr sz)) (Some ms);
     Some (bs, order_nodes ms)
   }"

section \<open>The invariant over all nodes\<close>

definition nodes_ok :: "mem_state \<Rightarrow> bool" where
  "nodes_ok ms \<longleftrightarrow> length (ms_nodes ms) \<le> MAX_MEMORY_NODES \<and>
     (\<forall>n < length (ms_nodes ms). mn_id (ms_nodes ms ! n) = n \<and>
        mn_begin_pfn (ms_nodes ms ! n) < mn_end_pfn (ms_nodes ms ! n) \<and>
        mn_end_pfn (ms_nodes ms ! n) \<le> 2 ^ 24) \<and>
     sorted_wrt (\<lambda>a b. mn_end_pfn a \<le> mn_begin_pfn b) (ms_nodes ms)"

definition node_ids :: "node_type \<Rightarrow> mem_state \<Rightarrow> nat list" where
  "node_ids ty ms = filter (\<lambda>i. mn_type (ms_nodes ms ! i) = ty) [0..<length (ms_nodes ms)]"

text \<open>\<^verbatim>\<open>__alloc_pages\<close> walks the high nodes and then the low ones, or only the low ones.\<close>

fun tried_nodes :: "node_type \<Rightarrow> mem_state \<Rightarrow> nat list" where
  "tried_nodes NT_HIGH ms = node_ids NT_HIGH ms @ node_ids NT_LOW ms"
| "tried_nodes NT_LOW ms = node_ids NT_LOW ms"

definition order_ok :: "mem_state \<Rightarrow> bool" where
  "order_ok ms \<longleftrightarrow> dlist (ms_links ms) NodeOrder (map NodeLink (tried_nodes NT_HIGH ms)) \<and>
     (\<forall>ty. ms_node_type ms ty = (case tried_nodes ty ms of [] \<Rightarrow> NodeOrder | i # _ \<Rightarrow> NodeLink i))"

definition frames_of :: "nat \<Rightarrow> page_ptr set \<Rightarrow> nat set" where
  "frames_of n U = {i. (n, i) \<in> U}"

definition live_of :: "nat \<Rightarrow> (page_ptr \<times> nat) set \<Rightarrow> block set" where
  "live_of n L = {(p, k). ((n, p), k) \<in> L}"

definition page_extent :: "page_ptr \<times> nat \<Rightarrow> page_ptr set" where
  "page_extent b = Pair (fst (fst b)) ` blk (snd (fst b)) (snd b)"

definition mem_inv :: "mem_state \<Rightarrow> page_ptr set \<Rightarrow> (page_ptr \<times> nat) set \<Rightarrow> bool" where
  "mem_inv ms U L \<longleftrightarrow> nodes_ok ms \<and>
     (\<forall>n < length (ms_nodes ms). node_inv (ms_nodes ms ! n) (frames_of n U) (live_of n L)) \<and>
     (\<forall>p \<in> U. fst p < length (ms_nodes ms)) \<and> (\<forall>b \<in> L. fst (fst b) < length (ms_nodes ms))"

lemma node_upd_simps [simp]:
  "ms_nodes (node_upd n node ms) = (ms_nodes ms)[n := node]"
  "ms_links (node_upd n node ms) = ms_links ms" "ms_node_type (node_upd n node ms) = ms_node_type ms"
  "ms_rflags (node_upd n node ms) = ms_rflags ms"
  by (simp_all add: node_upd_def)

lemma nodes_ok_upd:
  assumes "nodes_ok ms" and "same_shape (ms_nodes ms ! n) node"
  shows "nodes_ok (node_upd n node ms)"
proof -
  have "mn_begin_pfn ((ms_nodes ms)[n := node] ! i) = mn_begin_pfn (ms_nodes ms ! i)"
    "mn_end_pfn ((ms_nodes ms)[n := node] ! i) = mn_end_pfn (ms_nodes ms ! i)"
    "mn_id ((ms_nodes ms)[n := node] ! i) = mn_id (ms_nodes ms ! i)" if "i < length (ms_nodes ms)" for i
    using assms(2) that by (cases "n = i"; auto simp: same_shape_def)+
  then show ?thesis using assms(1) by (simp add: nodes_ok_def sorted_wrt_iff_nth_less)
qed

lemma node_ids_upd:
  assumes "same_shape (ms_nodes ms ! n) node"
  shows "node_ids ty (node_upd n node ms) = node_ids ty ms"
proof -
  have "mn_type ((ms_nodes ms)[n := node] ! i) = mn_type (ms_nodes ms ! i)" if "i < length (ms_nodes ms)" for i
    using assms that by (cases "n = i") (auto simp: same_shape_def)
  then show ?thesis unfolding node_ids_def by (intro filter_cong) auto
qed

lemma order_ok_upd:
  assumes "order_ok ms" and "same_shape (ms_nodes ms ! n) node"
  shows "order_ok (node_upd n node ms)"
proof -
  have "tried_nodes ty (node_upd n node ms) = tried_nodes ty ms" for ty
    by (cases ty) (simp_all add: node_ids_upd [OF assms(2)])
  then show ?thesis using assms(1) by (simp add: order_ok_def)
qed

lemma mem_inv_upd:
  assumes inv: "mem_inv ms U L" and n: "n < length (ms_nodes ms)"
    and node: "node_inv node (frames_of n V) (live_of n M)" and shape: "same_shape (ms_nodes ms ! n) node"
    and other: "\<And>m. m \<noteq> n \<Longrightarrow> frames_of m V = frames_of m U \<and> live_of m M = live_of m L"
  shows "mem_inv (node_upd n node ms) V M"
proof -
  have "fst p < length (ms_nodes ms)" if "p \<in> V" for p
  proof (cases "fst p = n")
    case False
    then have "p \<in> U" using other [of "fst p"] that by (cases p) (auto simp: frames_of_def)
    then show ?thesis using inv by (simp add: mem_inv_def)
  qed (use n in simp)
  moreover have "fst (fst b) < length (ms_nodes ms)" if "b \<in> M" for b
  proof (cases "fst (fst b) = n")
    case False
    obtain m p k where b: "b = ((m, p), k)" by (metis prod.collapse)
    with False that have "(p, k) \<in> live_of m L" using other [of m] by (auto simp: live_of_def)
    then have "b \<in> L" by (simp add: b live_of_def)
    then show ?thesis using inv by (simp add: mem_inv_def)
  qed (use n in simp)
  moreover have "node_inv ((ms_nodes ms)[n := node] ! m) (frames_of m V) (live_of m M)"
    if "m < length (ms_nodes ms)" for m
    using that node inv other [of m] by (cases "m = n") (auto simp: mem_inv_def)
  ultimately show ?thesis
    using inv nodes_ok_upd [OF _ shape] by (simp add: mem_inv_def)
qed

text \<open>What allocation and release leave alone: the nodes' shapes, their order and the flags.\<close>

definition same_frame :: "mem_state \<Rightarrow> mem_state \<Rightarrow> bool" where
  "same_frame ms ms' \<longleftrightarrow> length (ms_nodes ms') = length (ms_nodes ms) \<and>
     (\<forall>n < length (ms_nodes ms). same_shape (ms_nodes ms ! n) (ms_nodes ms' ! n)) \<and>
     ms_links ms' = ms_links ms \<and> ms_node_type ms' = ms_node_type ms \<and> ms_rflags ms' = ms_rflags ms"

lemma same_frame_refl [simp]: "same_frame ms ms"
  by (simp add: same_frame_def)

lemma same_frame_trans: "same_frame a b \<Longrightarrow> same_frame b c \<Longrightarrow> same_frame a c"
  by (auto simp: same_frame_def intro: same_shape_trans)

lemma same_frame_upd: "same_shape (ms_nodes ms ! n) node \<Longrightarrow> same_frame ms (node_upd n node ms)"
  by (simp add: same_frame_def nth_list_update node_upd_def) (metis nth_list_update_eq nth_list_update_neq same_shape_refl)

lemma same_frame_tried: "same_frame ms ms' \<Longrightarrow> tried_nodes ty ms' = tried_nodes ty ms"
proof -
  assume sf: "same_frame ms ms'"
  then have "node_ids t ms' = node_ids t ms" for t
    unfolding node_ids_def same_frame_def by (intro filter_cong) (auto simp: same_shape_def)
  then show ?thesis by (cases ty) simp_all
qed

lemma mem_inv_node: "mem_inv ms U L \<Longrightarrow> n < length (ms_nodes ms) \<Longrightarrow>
    node_inv (ms_nodes ms ! n) (frames_of n U) (live_of n L)"
  by (simp add: mem_inv_def)

section \<open>Allocation over the nodes\<close>

lemma alloc_pages_node_eq:
  "alloc_pages_node k n ms = (case alloc_pages_node_unlocked k (ms_nodes ms ! n) of
     (r, node) \<Rightarrow> (map_option (Pair n) r, node_upd n node ms))"
proof -
  have "spin_unlock_irqrestore e fl = ms_rflags ms" if "spin_lock_irqsave (ms_rflags ms) = (e, fl)" for e fl
    using spinlock.save_restore [of "ms_rflags ms"] that by simp
  then show ?thesis
    by (auto simp: alloc_pages_node_def node_upd_def split: prod.splits)
qed

lemma free_pages_node_eq:
  "free_pages_node (Some p) k n ms = node_upd n (free_pages_node_unlocked (snd p) k (ms_nodes ms ! n)) ms"
proof -
  have "spin_unlock_irqrestore e fl = ms_rflags ms" if "spin_lock_irqsave (ms_rflags ms) = (e, fl)" for e fl
    using spinlock.save_restore [of "ms_rflags ms"] that by simp
  then show ?thesis
    by (auto simp: free_pages_node_def node_upd_def split: prod.splits)
qed

lemma node_upd_same: "n < length (ms_nodes ms) \<Longrightarrow> node_upd n (ms_nodes ms ! n) ms = ms"
  by (simp add: node_upd_def)

lemma alloc_pages_node_none:
  assumes inv: "mem_inv ms U L" and n: "n < length (ms_nodes ms)" and k: "k < BUDDY_ORDERS"
    and a: "alloc_pages_node k n ms = (None, ms')"
  shows "ms' = ms" and "2 ^ k dvd q \<Longrightarrow> \<not> page_extent ((n, q), k) \<subseteq> U"
proof -
  obtain node where u: "alloc_pages_node_unlocked k (ms_nodes ms ! n) = (None, node)" "ms' = node_upd n node ms"
    using a by (auto simp: alloc_pages_node_eq split: prod.splits)
  note f = node_inv_alloc_none [OF mem_inv_node [OF inv n] k u(1)]
  show "ms' = ms" using u(2) f(1) n by (simp add: node_upd_same)
  show "2 ^ k dvd q \<Longrightarrow> \<not> page_extent ((n, q), k) \<subseteq> U"
    using f(2) [of q] by (auto simp: frames_of_def page_extent_def)
qed

lemma alloc_pages_node_some:
  assumes inv: "mem_inv ms U L" and n: "n < length (ms_nodes ms)" and k: "k < BUDDY_ORDERS"
    and a: "alloc_pages_node k n ms = (Some p, ms')"
  shows "fst p = n" and "(p, k) \<notin> L" and "page_extent (p, k) \<subseteq> U"
    and "mem_inv ms' (U - page_extent (p, k)) (insert (p, k) L)"
    and "order_ok ms \<Longrightarrow> order_ok ms'" and "ms_rflags ms' = ms_rflags ms"
proof -
  obtain i node where u: "alloc_pages_node_unlocked k (ms_nodes ms ! n) = (Some i, node)"
    and p: "p = (n, i)" and ms': "ms' = node_upd n node ms"
    using a by (auto simp: alloc_pages_node_eq split: prod.splits)
  note s = node_inv_alloc_some [OF mem_inv_node [OF inv n] k u]
  show "fst p = n" "(p, k) \<notin> L" "page_extent (p, k) \<subseteq> U"
    using s(1) p by (auto simp: live_of_def frames_of_def page_extent_def)
  have fr: "frames_of m (U - page_extent (p, k)) = (if m = n then frames_of n U - blk i k else frames_of m U)" for m
    by (auto simp: frames_of_def page_extent_def p)
  have li: "live_of m (insert (p, k) L) = (if m = n then insert (i, k) (live_of n L) else live_of m L)" for m
    by (auto simp: live_of_def p)
  show "mem_inv ms' (U - page_extent (p, k)) (insert (p, k) L)"
    unfolding ms' by (rule mem_inv_upd [OF inv n _ s(2)]) (use s(1) in \<open>simp_all add: fr li\<close>)
  show "order_ok ms \<Longrightarrow> order_ok ms'" unfolding ms' by (rule order_ok_upd [OF _ s(2)])
  show "ms_rflags ms' = ms_rflags ms" by (simp add: ms')
qed

text \<open>The walk over the nodes returns, and fails only when no node it tried has a run of frames.\<close>

lemma alloc_pages_walk_ok:
  assumes "dpath (ms_links ms) ptr (map NodeLink ns) NodeOrder" and "mem_inv ms U L"
    and "k < BUDDY_ORDERS" and "\<forall>n \<in> set ns. n < length (ms_nodes ms)"
  shows "\<exists>r ms'. alloc_pages_walk k (l_next (ms_links ms) ptr) ms = Some (r, ms') \<and>
    (case r of
       None \<Rightarrow> ms' = ms \<and> (\<forall>n \<in> set ns. \<forall>q. 2 ^ k dvd q \<longrightarrow> \<not> page_extent ((n, q), k) \<subseteq> U)
     | Some p \<Rightarrow> \<exists>n \<in> set ns. alloc_pages_node k n ms = (Some p, ms'))"
  using assms
proof (induction ns arbitrary: ptr)
  case Nil
  then show ?case by (subst alloc_pages_walk.simps) simp
next
  case (Cons n ns)
  then have nx: "l_next (ms_links ms) ptr = NodeLink n" and n: "n < length (ms_nodes ms)"
    and rest: "dpath (ms_links ms) (NodeLink n) (map NodeLink ns) NodeOrder" by auto
  obtain r ms1 where a: "alloc_pages_node k n ms = (r, ms1)" by fastforce
  have st: "alloc_pages_walk k (l_next (ms_links ms) ptr) ms =
      (case r of Some p \<Rightarrow> Some (Some p, ms1)
       | None \<Rightarrow> alloc_pages_walk k (l_next (ms_links ms1) (NodeLink n)) ms1)"
    unfolding nx by (subst alloc_pages_walk.simps) (simp add: a)
  show ?case
  proof (cases r)
    case None
    note f = alloc_pages_node_none [OF Cons.prems(2) n Cons.prems(3) a [unfolded None]]
    obtain r' ms' where w: "alloc_pages_walk k (l_next (ms_links ms) (NodeLink n)) ms = Some (r', ms')"
      "case r' of
         None \<Rightarrow> ms' = ms \<and> (\<forall>n \<in> set ns. \<forall>q. 2 ^ k dvd q \<longrightarrow> \<not> page_extent ((n, q), k) \<subseteq> U)
       | Some p \<Rightarrow> \<exists>n \<in> set ns. alloc_pages_node k n ms = (Some p, ms')"
      using Cons.IH [OF rest Cons.prems(2,3)] Cons.prems(4) by auto
    then show ?thesis
      using st None f by (cases r') auto
  next
    case (Some p)
    then show ?thesis using st a by auto
  qed
qed

lemma node_ids_bound: "n \<in> set (tried_nodes ty ms) \<Longrightarrow> n < length (ms_nodes ms)"
  by (cases ty) (auto simp: node_ids_def)

lemma tried_nodes_path:
  assumes "order_ok ms"
  shows "\<exists>ptr. dpath (ms_links ms) ptr (map NodeLink (tried_nodes ty ms)) NodeOrder \<and>
    ms_node_type ms ty = l_next (ms_links ms) ptr"
proof -
  have all: "dpath (ms_links ms) NodeOrder (map NodeLink (node_ids NT_HIGH ms) @ map NodeLink (node_ids NT_LOW ms)) NodeOrder"
    using assms by (simp add: order_ok_def dlist_def)
  have "\<exists>ptr. dpath (ms_links ms) ptr (map NodeLink (tried_nodes ty ms)) NodeOrder"
  proof (cases ty)
    case NT_HIGH
    then show ?thesis using all by auto
  next
    case NT_LOW
    show ?thesis
    proof (cases "map NodeLink (node_ids NT_HIGH ms)" rule: rev_cases)
      case Nil
      then show ?thesis using all NT_LOW by auto
    next
      case (snoc xs x)
      then have "dpath (ms_links ms) x (map NodeLink (node_ids NT_LOW ms)) NodeOrder"
        using all by (simp add: dpath_append)
      then show ?thesis using NT_LOW by auto
    qed
  qed
  then obtain ptr where p: "dpath (ms_links ms) ptr (map NodeLink (tried_nodes ty ms)) NodeOrder" by blast
  have "ms_node_type ms ty = l_next (ms_links ms) ptr"
    using dpath_first [OF p] assms by (cases "tried_nodes ty ms") (auto simp: order_ok_def)
  then show ?thesis using p by blast
qed

definition mem_ready :: "mem_state \<Rightarrow> page_ptr set \<Rightarrow> (page_ptr \<times> nat) set \<Rightarrow> bool" where
  "mem_ready ms U L \<longleftrightarrow> mem_inv ms U L \<and> order_ok ms"

lemma alloc_pages_type_ok:
  assumes "mem_ready ms U L" and "k < BUDDY_ORDERS"
  shows "\<exists>r ms'. alloc_pages_type k ty ms = Some (r, ms') \<and>
    (case r of
       None \<Rightarrow> ms' = ms \<and> (\<forall>n \<in> set (tried_nodes ty ms). \<forall>q. 2 ^ k dvd q \<longrightarrow> \<not> page_extent ((n, q), k) \<subseteq> U)
     | Some p \<Rightarrow> fst p \<in> set (tried_nodes ty ms) \<and> (p, k) \<notin> L \<and> page_extent (p, k) \<subseteq> U \<and>
         mem_ready ms' (U - page_extent (p, k)) (insert (p, k) L) \<and> ms_rflags ms' = ms_rflags ms)"
proof -
  have inv: "mem_inv ms U L" and ord: "order_ok ms" using assms(1) by (auto simp: mem_ready_def)
  obtain ptr where p: "dpath (ms_links ms) ptr (map NodeLink (tried_nodes ty ms)) NodeOrder"
    "ms_node_type ms ty = l_next (ms_links ms) ptr"
    using tried_nodes_path [OF ord] by blast
  obtain r ms' where w: "alloc_pages_type k ty ms = Some (r, ms')"
    "case r of
       None \<Rightarrow> ms' = ms \<and> (\<forall>n \<in> set (tried_nodes ty ms). \<forall>q. 2 ^ k dvd q \<longrightarrow> \<not> page_extent ((n, q), k) \<subseteq> U)
     | Some p \<Rightarrow> \<exists>n \<in> set (tried_nodes ty ms). alloc_pages_node k n ms = (Some p, ms')"
    using alloc_pages_walk_ok [OF p(1) inv assms(2)] node_ids_bound p(2)
    by (auto simp: alloc_pages_type_def)
  show ?thesis
  proof (cases r)
    case None
    then show ?thesis using w by auto
  next
    case (Some p)
    then obtain n where n: "n \<in> set (tried_nodes ty ms)" "alloc_pages_node k n ms = (Some p, ms')"
      using w(2) by auto
    note s = alloc_pages_node_some [OF inv node_ids_bound [OF n(1)] assms(2) n(2)]
    show ?thesis using w(1) Some n(1) s ord by (auto simp: mem_ready_def)
  qed
qed

lemma alloc_pages_type_succeeds:
  assumes "mem_ready ms U L" and "k < BUDDY_ORDERS" and "n \<in> set (tried_nodes ty ms)"
    and "2 ^ k dvd q" and "page_extent ((n, q), k) \<subseteq> U"
  shows "\<exists>p ms'. alloc_pages_type k ty ms = Some (Some p, ms') \<and> page_extent (p, k) \<subseteq> U \<and>
    mem_ready ms' (U - page_extent (p, k)) (insert (p, k) L)"
  using alloc_pages_type_ok [OF assms(1,2), of ty] assms(3-5) by (auto split: option.splits)

lemma node_inv_page_id:
  assumes "node_inv node U L" and "i < length (mn_mmap node)"
  shows "page_node_id (mn_mmap node ! i) = mn_id node"
  using assms by (auto simp: node_inv_def buddy_inv_def flags_ok_def)

lemma node_inv_bounds:
  assumes "node_inv node U L" and "b \<in> L"
  shows "wf_block (length (mn_mmap node)) b"
  using assms buddy_inv_wf unfolding node_inv_def by blast

lemma node_inv_length: "node_inv node U L \<Longrightarrow> length (mn_mmap node) = mn_end_pfn node - mn_begin_pfn node"
  by (auto simp: node_inv_def buddy_inv_def)

lemma page_node_ok:
  assumes "mem_inv ms U L" and "n < length (ms_nodes ms)" and "i < length (mn_mmap (ms_nodes ms ! n))"
  shows "page_node ms (n, i) = n"
  using node_inv_page_id [OF mem_inv_node [OF assms(1,2)] assms(3)] assms(1,2)
  by (auto simp: page_node_def page_of_def mem_inv_def nodes_ok_def)

lemma free_pages_ok:
  assumes "mem_ready ms U L" and b: "(p, k) \<in> L"
  shows "mem_ready (free_pages (Some p) k ms) (U \<union> page_extent (p, k)) (L - {(p, k)})"
    and "ms_rflags (free_pages (Some p) k ms) = ms_rflags ms"
proof -
  have inv: "mem_inv ms U L" and ord: "order_ok ms" using assms(1) by (auto simp: mem_ready_def)
  obtain n i where p: "p = (n, i)" by fastforce
  have n: "n < length (ms_nodes ms)" using inv b p by (auto simp: mem_inv_def)
  have live: "(i, k) \<in> live_of n L" using b p by (simp add: live_of_def)
  have "i + 2 ^ k \<le> length (mn_mmap (ms_nodes ms ! n))"
    using node_inv_bounds [OF mem_inv_node [OF inv n] live] by (simp add: wf_block_def)
  moreover have "i < i + 2 ^ k" by simp
  ultimately have "page_node ms p = n" unfolding p by (intro page_node_ok [OF inv n]) linarith
  then have eq: "free_pages (Some p) k ms = node_upd n (free_pages_node_unlocked i k (ms_nodes ms ! n)) ms"
    by (simp add: free_pages_def free_pages_node_eq p)
  note f = node_inv_free [OF mem_inv_node [OF inv n] live]
  have fr: "frames_of m (U \<union> page_extent (p, k)) = (if m = n then frames_of n U \<union> blk i k else frames_of m U)" for m
    by (auto simp: frames_of_def page_extent_def p)
  have li: "live_of m (L - {(p, k)}) = (if m = n then live_of n L - {(i, k)} else live_of m L)" for m
    by (auto simp: live_of_def p)
  have "mem_inv (free_pages (Some p) k ms) (U \<union> page_extent (p, k)) (L - {(p, k)})"
    unfolding eq by (rule mem_inv_upd [OF inv n _ f(2)]) (use f(1) in \<open>simp_all add: fr li\<close>)
  then show "mem_ready (free_pages (Some p) k ms) (U \<union> page_extent (p, k)) (L - {(p, k)})"
    unfolding eq mem_ready_def using order_ok_upd [OF ord f(2)] by simp
  show "ms_rflags (free_pages (Some p) k ms) = ms_rflags ms" by (simp add: eq)
qed

lemma mem_inv_disjoint:
  assumes inv: "mem_inv ms U L" and b: "b \<in> L"
  shows "c \<in> L \<Longrightarrow> b \<noteq> c \<Longrightarrow> disjnt (page_extent b) (page_extent c)" and "disjnt (page_extent b) U"
proof -
  obtain n i k where be: "b = ((n, i), k)" by (metis prod.collapse)
  have n: "n < length (ms_nodes ms)" using inv b be by (auto simp: mem_inv_def)
  note d = node_inv_disjoint [OF mem_inv_node [OF inv n], of "(i, k)"]
  have live: "(i, k) \<in> live_of n L" using b be by (simp add: live_of_def)
  show "disjnt (page_extent b) U"
    using d(2) [OF live] by (auto simp: disjnt_iff page_extent_def be frames_of_def)
  assume c: "c \<in> L" "b \<noteq> c"
  obtain m j l where ce: "c = ((m, j), l)" by (metis prod.collapse)
  show "disjnt (page_extent b) (page_extent c)"
  proof (cases "m = n")
    case True
    then have "(j, l) \<in> live_of n L" "(i, k) \<noteq> (j, l)" using c be ce by (auto simp: live_of_def)
    from d(1) [OF live this] show ?thesis by (auto simp: disjnt_iff page_extent_def be ce)
  qed (auto simp: disjnt_iff page_extent_def be ce)
qed

interpretation memory: page_allocator mem_ready page_extent BUDDY_ORDERS
  "\<lambda>k ms. the (alloc_pages k ms)" "\<lambda>p. free_pages (Some p)"
proof
  fix s s' :: mem_state and U L b c k p
  show "mem_ready s U L \<Longrightarrow> b \<in> L \<Longrightarrow> c \<in> L \<Longrightarrow> b \<noteq> c \<Longrightarrow> disjnt (page_extent b) (page_extent c)"
    unfolding mem_ready_def using mem_inv_disjoint(1) by blast
  show "mem_ready s U L \<Longrightarrow> b \<in> L \<Longrightarrow> disjnt (page_extent b) U"
    unfolding mem_ready_def using mem_inv_disjoint(2) by blast
  show "mem_ready s U L \<Longrightarrow> k < BUDDY_ORDERS \<Longrightarrow> the (alloc_pages k s) = (None, s') \<Longrightarrow> mem_ready s' U L"
    using alloc_pages_type_ok [of s U L k NT_HIGH] by (auto simp: alloc_pages_def)
  show "mem_ready s U L \<Longrightarrow> k < BUDDY_ORDERS \<Longrightarrow> the (alloc_pages k s) = (Some p, s') \<Longrightarrow>
      (p, k) \<notin> L \<and> page_extent (p, k) \<subseteq> U \<and> mem_ready s' (U - page_extent (p, k)) (insert (p, k) L)"
    using alloc_pages_type_ok [of s U L k NT_HIGH] by (auto simp: alloc_pages_def)
  show "mem_ready s U L \<Longrightarrow> (p, k) \<in> L \<Longrightarrow>
      mem_ready (free_pages (Some p) k s) (U \<union> page_extent (p, k)) (L - {(p, k)})"
    by (rule free_pages_ok(1))
qed

section \<open>Frame numbers and descriptors\<close>

lemma pfn_node_from_ok:
  assumes "sorted_wrt (\<lambda>a b. mn_end_pfn a \<le> mn_begin_pfn b) nodes" and "n < length nodes"
    and "\<forall>m < length nodes. mn_begin_pfn (nodes ! m) < mn_end_pfn (nodes ! m)"
    and "mn_begin_pfn (nodes ! n) \<le> pfn" and "pfn < mn_end_pfn (nodes ! n)"
  shows "pfn_node_from nodes i pfn = Some (i + n)"
  using assms
proof (induction nodes arbitrary: n i)
  case (Cons node nodes)
  show ?case
  proof (cases n)
    case 0
    then show ?thesis using Cons.prems by simp
  next
    case (Suc m)
    then have "mn_end_pfn node \<le> pfn" using Cons.prems(1,2,4) by (auto dest: nth_mem intro: le_trans)
    moreover have "pfn_node_from nodes (i + 1) pfn = Some (i + 1 + m)"
      by (rule Cons.IH) (use Cons.prems Suc in auto)
    ultimately show ?thesis using Suc by simp
  qed
qed simp

lemma pfn_node_ok:
  assumes "nodes_ok ms" and "n < length (ms_nodes ms)"
    and "mn_begin_pfn (ms_nodes ms ! n) \<le> pfn" and "pfn < mn_end_pfn (ms_nodes ms ! n)"
  shows "pfn_node ms pfn = Some n"
  using pfn_node_from_ok [of "ms_nodes ms" n pfn 0] assms by (auto simp: pfn_node_def nodes_ok_def)

lemma max_pfns_ge: "n < length (ms_nodes ms) \<Longrightarrow> mn_end_pfn (ms_nodes ms ! n) \<le> max_pfns ms"
proof -
  have "node \<in> set nodes \<or> mn_end_pfn node \<le> m \<Longrightarrow>
      mn_end_pfn node \<le> fold (\<lambda>node m. max m (mn_end_pfn node)) nodes m" for node nodes m
  proof (induction nodes arbitrary: m)
    case (Cons a nodes)
    show ?case by (simp, rule Cons.IH) (use Cons.prems in auto)
  qed auto
  then show "n < length (ms_nodes ms) \<Longrightarrow> mn_end_pfn (ms_nodes ms ! n) \<le> max_pfns ms"
    unfolding max_pfns_def using nth_mem by blast
qed

definition valid_page :: "mem_state \<Rightarrow> page_ptr \<Rightarrow> bool" where
  "valid_page ms p \<longleftrightarrow> fst p < length (ms_nodes ms) \<and> snd p < length (mn_mmap (ms_nodes ms ! fst p))"

abbreviation frame_no :: "mem_state \<Rightarrow> page_ptr \<Rightarrow> nat" where
  "frame_no ms p \<equiv> mn_begin_pfn (ms_nodes ms ! fst p) + snd p"

lemma valid_page_facts:
  assumes inv: "mem_inv ms U L" and v: "valid_page ms p"
  shows "page_node ms p = fst p" and "page2pfn ms p = frame_no ms p" and "pfn_node ms (frame_no ms p) = Some (fst p)"
    and "pfn2page ms (frame_no ms p) = Some p" and "frame_no ms p < mn_end_pfn (ms_nodes ms ! fst p)"
    and "frame_no ms p < 2 ^ 24"
proof -
  obtain n i where p: "p = (n, i)" by fastforce
  have n: "n < length (ms_nodes ms)" and i: "i < length (mn_mmap (ms_nodes ms ! n))"
    using v by (auto simp: valid_page_def p)
  show pn: "page_node ms p = fst p" using page_node_ok [OF inv n i] by (simp add: p)
  show "page2pfn ms p = frame_no ms p" by (simp add: page2pfn_def pn)
  have "length (mn_mmap (ms_nodes ms ! n)) = mn_end_pfn (ms_nodes ms ! n) - mn_begin_pfn (ms_nodes ms ! n)"
    by (rule node_inv_length [OF mem_inv_node [OF inv n]])
  then show lt: "frame_no ms p < mn_end_pfn (ms_nodes ms ! fst p)" using i by (simp add: p)
  have ok: "nodes_ok ms" using inv by (simp add: mem_inv_def)
  then have "mn_end_pfn (ms_nodes ms ! n) \<le> 2 ^ 24" using n by (simp add: nodes_ok_def)
  then show "frame_no ms p < 2 ^ 24" using lt by (simp add: p)
  show nd: "pfn_node ms (frame_no ms p) = Some (fst p)"
    using pfn_node_ok [OF ok n] lt by (simp add: p)
  show "pfn2page ms (frame_no ms p) = Some p" by (simp add: pfn2page_def nd)
qed

lemma frame_no_inj:
  assumes "mem_inv ms U L" and "valid_page ms p" "valid_page ms q" and "frame_no ms p = frame_no ms q"
  shows "p = q"
proof -
  have "Some p = Some q"
    unfolding valid_page_facts(4) [OF assms(1,2), symmetric] valid_page_facts(4) [OF assms(1,3), symmetric]
      assms(4) ..
  then show ?thesis by simp
qed

lemma page_addr_unat:
  assumes inv: "mem_inv ms U L" and v: "valid_page ms p"
  shows "unat (page_addr ms p) = unat HIGH_BASE + frame_no ms p * 4096"
proof -
  note f = valid_page_facts [OF inv v]
  have w: "push_bit PAGE_BITS (of_nat (frame_no ms p) :: u64) = of_nat (frame_no ms p * 4096)"
    by (simp add: PAGE_BITS_def push_bit_eq_mult)
  have small: "frame_no ms p * 4096 < 2 ^ 36" using f(6) by simp
  then have u: "unat (of_nat (frame_no ms p * 4096) :: u64) = frame_no ms p * 4096"
    by (intro unat_of_nat64) simp
  have "unat (of_nat (frame_no ms p * 4096) + HIGH_BASE) = unat (of_nat (frame_no ms p * 4096) :: u64) + unat HIGH_BASE"
    by (rule unat_add_noov) (use small in \<open>simp only: u, simp add: HIGH_BASE_def\<close>)
  then show ?thesis unfolding page_addr_def page_paddr_def va_def f(2) w u by simp
qed

text \<open>An address inside a page leads back to its descriptor.\<close>

lemma addr_to_page:
  assumes inv: "mem_inv ms U L" and v: "valid_page ms p" and d: "d < 4096"
  shows "pfn2page ms (unat (drop_bit PAGE_BITS (pa (of_nat (unat (page_addr ms p) + d))))) = Some p"
proof -
  note f = valid_page_facts [OF inv v]
  have "(of_nat (unat (page_addr ms p) + d) :: u64) = HIGH_BASE + of_nat (frame_no ms p * 4096 + d)"
    unfolding page_addr_unat [OF inv v] by (simp add: add.assoc)
  then have "pa (of_nat (unat (page_addr ms p) + d)) = of_nat (frame_no ms p * 4096 + d)"
    by (simp add: pa_def)
  moreover have "frame_no ms p * 4096 + d < 2 ^ 64" using f(6) d by simp
  then have "unat (of_nat (frame_no ms p * 4096 + d) :: u64) = frame_no ms p * 4096 + d"
    by (rule unat_of_nat64)
  ultimately have "unat (drop_bit PAGE_BITS (pa (of_nat (unat (page_addr ms p) + d)))) = frame_no ms p"
    using d by (simp only: PAGE_BITS_def drop_bit_eq_div unat_div_distrib) simp
  then show ?thesis using f(4) by simp
qed

lemma live_valid_page:
  assumes inv: "mem_inv ms U L" and b: "((n, i), k) \<in> L" and j: "j < 2 ^ k"
  shows "valid_page ms (n, i + j)" and "(n, i + j) \<notin> U"
proof -
  have n: "n < length (ms_nodes ms)" using inv b by (auto simp: mem_inv_def)
  have "(i, k) \<in> live_of n L" using b by (simp add: live_of_def)
  from node_inv_bounds [OF mem_inv_node [OF inv n] this] n j show "valid_page ms (n, i + j)"
    by (simp add: valid_page_def wf_block_def)
  show "(n, i + j) \<notin> U"
    using mem_inv_disjoint(2) [OF inv b] j by (auto simp: disjnt_iff page_extent_def)
qed

text \<open>Allocation and release write descriptors of free frames and of the released block only.\<close>

lemma alloc_pages_type_frame:
  assumes "mem_ready ms U L" and "k < BUDDY_ORDERS" and "alloc_pages_type k ty ms = Some (r, ms')"
  shows "same_frame ms ms'" and "p \<notin> U \<Longrightarrow> page_of ms' p = page_of ms p"
proof -
  have inv: "mem_inv ms U L" and ord: "order_ok ms" using assms(1) by (auto simp: mem_ready_def)
  obtain ptr where q: "dpath (ms_links ms) ptr (map NodeLink (tried_nodes ty ms)) NodeOrder"
    "ms_node_type ms ty = l_next (ms_links ms) ptr"
    using tried_nodes_path [OF ord] by blast
  have *: "same_frame ms ms' \<and> (p \<notin> U \<longrightarrow> page_of ms' p = page_of ms p)"
  proof (cases r)
    case None
    then show ?thesis
      using alloc_pages_walk_ok [OF q(1) inv assms(2)] node_ids_bound q(2) assms(3)
      by (auto simp: alloc_pages_type_def)
  next
    case (Some pg)
    then obtain n where n: "n \<in> set (tried_nodes ty ms)" "alloc_pages_node k n ms = (Some pg, ms')"
      using alloc_pages_walk_ok [OF q(1) inv assms(2)] node_ids_bound q(2) assms(3)
      by (auto simp: alloc_pages_type_def)
    have nl: "n < length (ms_nodes ms)" by (rule node_ids_bound [OF n(1)])
    obtain i node where u: "alloc_pages_node_unlocked k (ms_nodes ms ! n) = (Some i, node)" "ms' = node_upd n node ms"
      using n(2) by (auto simp: alloc_pages_node_eq split: prod.splits)
    note inv_n = mem_inv_node [OF inv nl]
    have "same_frame ms ms'" unfolding u(2) by (rule same_frame_upd [OF node_inv_alloc_some(2) [OF inv_n assms(2) u(1)]])
    moreover have "page_of ms' p = page_of ms p" if "p \<notin> U"
      using node_inv_frames(1) [OF inv_n u(1), of "snd p"] that nl
      by (cases p, cases "fst p = n") (auto simp: page_of_def u(2) frames_of_def)
    ultimately show ?thesis by blast
  qed
  then show "same_frame ms ms'" "p \<notin> U \<Longrightarrow> page_of ms' p = page_of ms p" by auto
qed

lemma free_pages_frame:
  assumes "mem_ready ms U L" and b: "(q, k) \<in> L"
  shows "same_frame ms (free_pages (Some q) k ms)"
    and "p \<notin> U \<union> page_extent (q, k) \<Longrightarrow> page_of (free_pages (Some q) k ms) p = page_of ms p"
proof -
  have inv: "mem_inv ms U L" using assms(1) by (auto simp: mem_ready_def)
  obtain n i where q: "q = (n, i)" by fastforce
  have n: "n < length (ms_nodes ms)" using inv b q by (auto simp: mem_inv_def)
  have live: "(i, k) \<in> live_of n L" using b q by (simp add: live_of_def)
  have "page_node ms q = n"
    using valid_page_facts(1) [OF inv, of q] live_valid_page(1) [OF inv, of n i k 0] b q by simp
  then have eq: "free_pages (Some q) k ms = node_upd n (free_pages_node_unlocked i k (ms_nodes ms ! n)) ms"
    by (simp add: free_pages_def free_pages_node_eq q)
  note inv_n = mem_inv_node [OF inv n]
  show "same_frame ms (free_pages (Some q) k ms)"
    unfolding eq by (rule same_frame_upd [OF node_inv_free(2) [OF inv_n live]])
  show "page_of (free_pages (Some q) k ms) p = page_of ms p" if "p \<notin> U \<union> page_extent (q, k)"
  proof (cases "fst p = n")
    case True
    then have p: "p = (n, snd p)" by (cases p) simp
    have "snd p \<notin> frames_of n U \<union> blk i k"
      using that p unfolding frames_of_def page_extent_def q by auto
    then show ?thesis using node_inv_frames(2) [OF inv_n live] n True unfolding eq page_of_def by simp
  next
    case False
    then show ?thesis unfolding eq page_of_def by simp
  qed
qed

lemma mem_ready_set_u:
  assumes "mem_ready ms U L" and "(n, i) \<notin> U"
    and ms'_def: "ms' = node_upd n (page_upd i (\<lambda>p. p\<lparr>pg_u := u\<rparr>) (ms_nodes ms ! n)) ms"
  shows "mem_ready ms' U L" and "same_frame ms ms'"
proof -
  have inv: "mem_inv ms U L" and ord: "order_ok ms" using assms(1) by (auto simp: mem_ready_def)
  have sh: "same_shape (ms_nodes ms ! n) (page_upd i (\<lambda>p. p\<lparr>pg_u := u\<rparr>) (ms_nodes ms ! n))" by simp
  show "same_frame ms ms'" unfolding ms'_def by (rule same_frame_upd [OF sh])
  show "mem_ready ms' U L"
  proof (cases "n < length (ms_nodes ms)")
    case True
    have "mem_inv ms' U L" unfolding ms'_def
      by (rule mem_inv_upd [OF inv True node_inv_frames(3) [OF mem_inv_node [OF inv True]] sh])
        (use assms(2) in \<open>auto simp: frames_of_def\<close>)
    then show ?thesis using order_ok_upd [OF ord sh] by (simp add: mem_ready_def ms'_def)
  next
    case False
    then have "ms' = ms" by (simp add: ms'_def node_upd_def list_update_beyond)
    then show ?thesis using assms(1) by simp
  qed
qed

section \<open>Boot: fresh nodes and their free regions\<close>

lemma fold_list_init:
  assumes "a \<in> set xs \<or> dlist h a []"
  shows "dlist (fold list_init xs h) a []"
  using assms
proof (induction xs arbitrary: h)
  case (Cons x xs)
  have "dlist (list_init x h) a [] \<or> a \<in> set xs"
    using Cons.prems dlist_init [of x h] dlist_frame_init [of h a "[]" x] by auto
  then show ?case using Cons.IH by auto
qed simp

lemma init_page_id: "nid < 256 \<Longrightarrow> page_node_id (init_page nid raw) = nid"
proof -
  assume nid: "nid < 256"
  have "unat ((of_nat nid :: u64) AND mask 8) = nid"
    unfolding take_bit_eq_mask [symmetric] unsigned_take_bit_eq
    using nid by (simp add: unsigned_of_nat take_bit_nat_eq_self)
  then show ?thesis
    by (simp add: init_page_def) (simp add: page_node_id_def PAGE_NODE_MASK_mask)
qed

lemma make_node_inv:
  assumes "nid < MAX_MEMORY_NODES"
  shows "node_inv (make_node ty pfn pages nid raw h) {} {}"
proof -
  let ?node = "make_node ty pfn pages nid raw h"
  have lists: "dlist (init_links pages h) (FreeHead k) []" if "k < BUDDY_ORDERS" for k
    unfolding init_links_def Let_def
    by (intro fold_list_init disjI2 disjI1) (use that in auto)
  have "dl.fam (mn_links ?node) heads (free_links (\<lambda>_. []))"
    using lists by (auto simp: dl.fam_def make_node_def)
  moreover have "flags_ok ?node (\<lambda>_. []) {} {}"
    using assms by (auto simp: flags_ok_def blocks_def make_node_def init_page_id MAX_MEMORY_NODES_def)
      (simp add: init_page_def)
  ultimately have "buddy_inv ?node (\<lambda>_. []) {} {}"
    by (simp add: buddy_inv_def blocks_def block_partition_def coalesced_def make_node_def)
  then show ?thesis by (auto simp: node_inv_def blocks_def)
qed

lemma pfn_max_order_from_ok:
  assumes "i < BUDDY_ORDERS" and "2 ^ i dvd pfn"
  shows "pfn_max_order_from pfn i < BUDDY_ORDERS \<and> 2 ^ pfn_max_order_from pfn i dvd pfn"
  using assms
proof (induction pfn i rule: pfn_max_order_from.induct)
  case (1 pfn i)
  show ?case
  proof (cases "i < BUDDY_ORDERS - 1 \<and> \<not> bit pfn i")
    case True
    then have "2 ^ Suc i dvd pfn" using aligned_bit [OF "1.prems"(2)] by simp
    moreover have "pfn AND push_bit i 1 = 0" using True by (simp add: bit_iff_and_push_bit_not_eq_0)
    moreover have "Suc i < BUDDY_ORDERS" using True by linarith
    ultimately show ?thesis using "1.IH" True by (subst (1 2) pfn_max_order_from.simps) simp
  next
    case False
    have "pfn AND push_bit i 1 \<noteq> 0 \<longleftrightarrow> bit pfn i" by (simp add: bit_iff_and_push_bit_not_eq_0)
    moreover have "i = BUDDY_ORDERS - 1" if "\<not> i < BUDDY_ORDERS - 1" using that "1.prems"(1) by simp
    ultimately show ?thesis using False "1.prems"
      by (cases "i < BUDDY_ORDERS - 1") (subst (1 2) pfn_max_order_from.simps, simp)+
  qed
qed

lemma clamp_order_ok:
  "clamp_order pfn pages k \<le> k \<and> (clamp_order pfn pages k = 0 \<or> pfn + 2 ^ clamp_order pfn pages k \<le> pages)"
  by (induction k) (auto simp: push_bit_eq_mult)

text \<open>The orders the loop uses are aligned at the frame and stay inside the region.\<close>

lemma region_step_order:
  assumes "pfn < node_pfn + pages"
  defines "k \<equiv> clamp_order pfn pages (pfn_max_order pfn)"
  shows "k < BUDDY_ORDERS" and "2 ^ k dvd pfn" and "pfn + 2 ^ k \<le> node_pfn + pages"
proof -
  have m: "pfn_max_order pfn < BUDDY_ORDERS" "2 ^ pfn_max_order pfn dvd pfn"
    using pfn_max_order_from_ok [of 0 pfn] by (simp_all add: pfn_max_order_def BUDDY_ORDERS_def)
  have c: "k \<le> pfn_max_order pfn" "k = 0 \<or> pfn + 2 ^ k \<le> pages"
    using clamp_order_ok [of pfn pages "pfn_max_order pfn"] by (auto simp: k_def)
  show "k < BUDDY_ORDERS" using c(1) m(1) by simp
  show "2 ^ k dvd pfn" using c(1) m(2) by (meson dvd_trans le_imp_power_dvd)
  show "pfn + 2 ^ k \<le> node_pfn + pages" using c(2) assms(1) by auto
qed

lemma node_inv_adopt:
  assumes inv: "node_inv node U L" and wf: "wf_block (length (mn_mmap node)) (p, k)"
    and out: "disjnt (blk p k) (U \<union> frames L)"
  shows "node_inv (free_pages_node_unlocked p k node) (U \<union> blk p k) L"
    and "same_shape node (free_pages_node_unlocked p k node)"
proof -
  obtain F where F: "buddy_inv node F L {}" "U = frames (blocks F)" using inv by (auto simp: node_inv_def)
  have "buddy_inv node F L {(p, k)}" by (rule transit_adopt [OF F(1) wf]) (use out F(2) in simp)
  from free_transit_ok [OF this] F(2)
  show "node_inv (free_pages_node_unlocked p k node) (U \<union> blk p k) L"
    and "same_shape node (free_pages_node_unlocked p k node)"
    by (auto simp: node_inv_def)
qed

lemma mem_inv_adopt:
  assumes inv: "mem_inv ms U L" and n: "n < length (ms_nodes ms)"
    and wf: "wf_block (length (mn_mmap (ms_nodes ms ! n))) (p, k)"
    and out: "disjnt (page_extent ((n, p), k)) (U \<union> \<Union> (page_extent ` L))"
  defines "ms' \<equiv> free_pages_node (Some (n, p)) k n ms"
  shows "mem_inv ms' (U \<union> page_extent ((n, p), k)) L"
    and "same_frame ms ms'"
proof -
  have eq: "ms' = node_upd n (free_pages_node_unlocked p k (ms_nodes ms ! n)) ms"
    by (simp add: ms'_def free_pages_node_eq)
  have "disjnt (blk p k) (frames_of n U \<union> frames (live_of n L))"
    using out by (fastforce simp: disjnt_iff page_extent_def frames_of_def frames_def live_of_def)
  note a = node_inv_adopt [OF mem_inv_node [OF inv n] wf this]
  have fr: "frames_of m (U \<union> page_extent ((n, p), k)) = (if m = n then frames_of n U \<union> blk p k else frames_of m U)" for m
    by (auto simp: frames_of_def page_extent_def)
  show "mem_inv ms' (U \<union> page_extent ((n, p), k)) L"
    unfolding eq by (rule mem_inv_upd [OF inv n _ a(2)]) (use a(1) in \<open>simp_all add: fr\<close>)
  show "same_frame ms ms'" unfolding eq by (rule same_frame_upd [OF a(2)])
qed

lemma free_region_loop_ok:
  assumes "mem_inv ms U L" and "n < length (ms_nodes ms)" and "pfn \<le> node_pfn + pages"
    and "node_pfn + pages \<le> length (mn_mmap (ms_nodes ms ! n))"
    and "disjnt (Pair n ` {pfn..<node_pfn + pages}) (U \<union> \<Union> (page_extent ` L))"
  shows "\<exists>ms'. free_region_loop n pages (node_pfn + pages) pfn ms = Some ms' \<and>
    mem_inv ms' (U \<union> Pair n ` {pfn..<node_pfn + pages}) L \<and> same_frame ms ms'"
  using assms
proof (induction "node_pfn + pages - pfn" arbitrary: pfn ms U rule: less_induct)
  case less
  show ?case
  proof (cases "pfn = node_pfn + pages")
    case True
    then show ?thesis using less.prems(1) by (subst free_region_loop.simps) simp
  next
    case False
    then have lt: "pfn < node_pfn + pages" using less.prems(3) by simp
    define k where "k = clamp_order pfn pages (pfn_max_order pfn)"
    note o = region_step_order [OF lt, folded k_def]
    let ?ms = "free_pages_node (Some (n, pfn)) k n ms" and ?e = "page_extent ((n, pfn), k)"
    have split: "Pair n ` {pfn..<node_pfn + pages} = ?e \<union> Pair n ` {pfn + 2 ^ k..<node_pfn + pages}"
      using o(3) by (auto simp: page_extent_def image_iff)
    have rest: "disjnt ?e (Pair n ` {pfn + 2 ^ k..<node_pfn + pages})"
      by (auto simp: disjnt_iff page_extent_def)
    have out: "disjnt ?e (U \<union> \<Union> (page_extent ` L))"
      "disjnt (Pair n ` {pfn + 2 ^ k..<node_pfn + pages}) (U \<union> \<Union> (page_extent ` L))"
      using less.prems(5) unfolding split disjnt_Un1 by simp_all
    have "wf_block (length (mn_mmap (ms_nodes ms ! n))) (pfn, k)"
      using o less.prems(4) by (simp add: wf_block_def)
    note a = mem_inv_adopt [OF less.prems(1,2) this out(1)]
    have len: "length (mn_mmap (ms_nodes ?ms ! n)) = length (mn_mmap (ms_nodes ms ! n))"
      using a(2) less.prems(2) by (simp add: same_frame_def same_shape_def)
    have "\<exists>ms'. free_region_loop n pages (node_pfn + pages) (pfn + 2 ^ k) ?ms = Some ms' \<and>
        mem_inv ms' (U \<union> ?e \<union> Pair n ` {pfn + 2 ^ k..<node_pfn + pages}) L \<and> same_frame ?ms ms'"
    proof (rule less.hyps [OF _ a(1)])
      show "node_pfn + pages - (pfn + 2 ^ k) < node_pfn + pages - pfn" using lt by (simp add: diff_less_mono2)
      show "n < length (ms_nodes ?ms)" using a(2) less.prems(2) by (simp add: same_frame_def)
      show "pfn + 2 ^ k \<le> node_pfn + pages" by (rule o)
      show "node_pfn + pages \<le> length (mn_mmap (ms_nodes ?ms ! n))" using less.prems(4) len by simp
      show "disjnt (Pair n ` {pfn + 2 ^ k..<node_pfn + pages}) (U \<union> ?e \<union> \<Union> (page_extent ` L))"
        using out(2) rest by (simp add: disjnt_Un2 disjnt_sym)
    qed
    moreover have "free_region_loop n pages (node_pfn + pages) pfn ms =
        free_region_loop n pages (node_pfn + pages) (pfn + 2 ^ k) ?ms"
      using False by (subst free_region_loop.simps) (simp add: k_def push_bit_eq_mult Let_def)
    ultimately show ?thesis unfolding split Un_assoc [symmetric] using same_frame_trans [OF a(2)] by auto
  qed
qed

lemma unat_drop_PAGE_BITS: "unat (drop_bit PAGE_BITS x) = unat x div 2 ^ 12" for x :: u64
  unfolding PAGE_BITS_def drop_bit_eq_div unat_div_distrib by simp

text \<open>A page-aligned range of a node, none of it free or live, becomes free.\<close>

lemma memory_free_range_ok:
  assumes inv: "mem_inv ms U L" and n: "n < length (ms_nodes ms)"
    and b: "unat begin div 2 ^ 12 = b" and e: "unat end div 2 ^ 12 = e"
    and f: "mn_begin_pfn (ms_nodes ms ! n) = f"
    and rng: "f \<le> b" "b < e" "e \<le> mn_end_pfn (ms_nodes ms ! n)"
    and out: "disjnt (Pair n ` {b - f..<e - f}) (U \<union> \<Union> (page_extent ` L))"
  shows "\<exists>ms'. memory_free_range begin end ms = Some ms' \<and>
    mem_inv ms' (U \<union> Pair n ` {b - f..<e - f}) L \<and> same_frame ms ms'"
proof -
  have ok: "nodes_ok ms" using inv by (simp add: mem_inv_def)
  have pn: "pfn_node ms b = Some n" by (rule pfn_node_ok [OF ok n]) (use rng f in auto)
  have stop: "b - f + (e - b) = e - f" using rng by simp
  have len: "e - f \<le> length (mn_mmap (ms_nodes ms ! n))"
    using node_inv_length [OF mem_inv_node [OF inv n]] rng f by simp
  have "memory_free_range begin end ms = free_region_loop n (e - b) (b - f + (e - b)) (b - f) ms"
    unfolding memory_free_range_def unat_drop_PAGE_BITS b e Let_def pn by (simp add: f)
  then show ?thesis
    using free_region_loop_ok [OF inv n, of "b - f" "b - f" "e - b"] len out rng unfolding stop by simp
qed

section \<open>Boot: the order of the nodes\<close>

abbreviation order_heads :: "nptr set" where
  "order_heads \<equiv> {NodeOrder, TypeNodes NT_LOW, TypeNodes NT_HIGH}"

fun type_lists :: "memory_node list \<Rightarrow> nat list \<Rightarrow> nptr \<Rightarrow> nptr list" where
  "type_lists nodes is (TypeNodes ty) = map NodeLink (filter (\<lambda>i. mn_type (nodes ! i) = ty) is)"
| "type_lists nodes is _ = []"

lemma type_lists_fold:
  assumes "dl.fam h order_heads (type_lists nodes is)" and "distinct (is @ js)"
  shows "dl.fam (fold (\<lambda>i. list_add_tail (NodeLink i) (TypeNodes (mn_type (nodes ! i)))) js h)
    order_heads (type_lists nodes (is @ js))"
  using assms
proof (induction js arbitrary: h "is")
  case (Cons j js)
  let ?t = "TypeNodes (mn_type (nodes ! j))"
  have t: "?t \<in> order_heads" by (cases "mn_type (nodes ! j)") auto
  have "\<forall>a \<in> order_heads. NodeLink j \<notin> insert a (set (type_lists nodes is a))"
    using Cons.prems(2) by auto
  note fam = dl.fam_add_tail [OF Cons.prems(1) t this]
  have "(type_lists nodes is)(?t := type_lists nodes is ?t @ [NodeLink j]) = type_lists nodes (is @ [j])"
  proof
    fix a show "((type_lists nodes is)(?t := type_lists nodes is ?t @ [NodeLink j])) a = type_lists nodes (is @ [j]) a"
      by (cases a) auto
  qed
  with fam have "dl.fam (list_add_tail (NodeLink j) ?t h) order_heads (type_lists nodes (is @ [j]))" by simp
  from Cons.IH [OF this] Cons.prems(2) show ?case by simp
qed simp

lemma order_nodes_ok:
  assumes "dlist (ms_links ms) NodeOrder []"
  shows "order_ok (order_nodes ms)" and "ms_nodes (order_nodes ms) = ms_nodes ms"
    and "ms_rflags (order_nodes ms) = ms_rflags ms"
proof -
  let ?N = "[0..<length (ms_nodes ms)]"
  define h0 where "h0 = list_init (TypeNodes NT_HIGH) (list_init (TypeNodes NT_LOW) (ms_links ms))"
  define h1 where "h1 = fold (\<lambda>i. list_add_tail (NodeLink i) (TypeNodes (mn_type (ms_nodes ms ! i)))) ?N h0"
  define h2 where "h2 = list_splice (TypeNodes NT_LOW) NodeOrder h1"
  define h3 where "h3 = list_splice (TypeNodes NT_HIGH) NodeOrder h2"
  have eq: "order_nodes ms = ms\<lparr>ms_links := h3, ms_node_type := (ms_node_type ms)
      (NT_LOW := l_next h2 NodeOrder, NT_HIGH := l_next h3 NodeOrder)\<rparr>"
    by (simp add: order_nodes_def h0_def h1_def h2_def h3_def Let_def)
  show "ms_nodes (order_nodes ms) = ms_nodes ms" "ms_rflags (order_nodes ms) = ms_rflags ms"
    by (simp_all add: eq)
  let ?lo = "map NodeLink (node_ids NT_LOW ms)" and ?hi = "map NodeLink (node_ids NT_HIGH ms)"
  have "dlist h0 NodeOrder []" "dlist h0 (TypeNodes NT_LOW) []" "dlist h0 (TypeNodes NT_HIGH) []"
    unfolding h0_def by (intro dlist_frame_init assms dlist_init; simp)+
  then have "dl.fam h0 order_heads (type_lists (ms_nodes ms) [])" by (auto simp: dl.fam_def)
  from type_lists_fold [OF this, of ?N]
  have fam: "dl.fam h1 order_heads (type_lists (ms_nodes ms) ?N)" by (simp add: h1_def)
  have l1: "dlist h1 NodeOrder []" "dlist h1 (TypeNodes NT_LOW) ?lo" "dlist h1 (TypeNodes NT_HIGH) ?hi"
    using dl.fam_rep [OF fam, of NodeOrder] dl.fam_rep [OF fam, of "TypeNodes NT_LOW"]
      dl.fam_rep [OF fam, of "TypeNodes NT_HIGH"] by (simp_all add: node_ids_def)
  have l2: "dlist h2 NodeOrder ?lo" unfolding h2_def using dlist_splice(1) [OF l1(2,1)] by auto
  have l2h: "dlist h2 (TypeNodes NT_HIGH) ?hi"
    unfolding h2_def by (rule dlist_frame_splice [OF l1(2,1,3)]) (auto simp: node_ids_def)
  have l3: "dlist h3 NodeOrder (?hi @ ?lo)"
    unfolding h3_def by (rule dlist_splice(1) [OF l2h l2]) (auto simp: node_ids_def)
  have ids: "node_ids ty (order_nodes ms) = node_ids ty ms" for ty by (simp add: eq node_ids_def)
  have "l_next h NodeOrder = (case ns of [] \<Rightarrow> NodeOrder | i # _ \<Rightarrow> NodeLink i)"
    if "dlist h NodeOrder (map NodeLink ns)" for h ns
    using that by (cases ns) (auto simp: dlist_def)
  note fst_of = this
  have "ms_node_type (order_nodes ms) ty = (case tried_nodes ty (order_nodes ms) of [] \<Rightarrow> NodeOrder | i # _ \<Rightarrow> NodeLink i)" for ty
  proof (cases ty)
    case NT_LOW
    then show ?thesis using fst_of [OF l2] by (simp add: ids, simp add: eq)
  next
    case NT_HIGH
    then show ?thesis using fst_of [of h3 "node_ids NT_HIGH ms @ node_ids NT_LOW ms"] l3
      by (simp add: ids, simp add: eq)
  qed
  moreover have "dlist (ms_links (order_nodes ms)) NodeOrder (map NodeLink (tried_nodes NT_HIGH (order_nodes ms)))"
    using l3 by (simp add: ids, simp add: eq)
  ultimately show "order_ok (order_nodes ms)" by (simp add: order_ok_def)
qed

section \<open>A small machine\<close>

text \<open>One low node of four frames, all given to the allocator and the nodes ordered as at boot.\<close>

definition sample_node :: memory_node where
  "sample_node = make_node NT_LOW 0 4 0 (\<lambda>_. 0) \<lparr>l_next = id, l_prev = id\<rparr>"

definition sample_boot :: mem_state where
  "sample_boot = \<lparr>ms_rflags = RFLAGS_IF, ms_nodes = [sample_node],
     ms_links = list_init NodeOrder \<lparr>l_next = id, l_prev = id\<rparr>, ms_node_type = (\<lambda>_. NodeOrder)\<rparr>"

definition sample_mem :: mem_state where
  "sample_mem = order_nodes (the (free_region_loop 0 4 4 0 sample_boot))"

lemma sample_boot_inv: "mem_inv sample_boot {} {}"
  using make_node_inv [of 0 NT_LOW 0 4 "\<lambda>_. 0" "\<lparr>l_next = id, l_prev = id\<rparr>"]
  by (simp add: mem_inv_def nodes_ok_def sample_boot_def sample_node_def frames_of_def live_of_def
      MAX_MEMORY_NODES_def) (simp add: make_node_def)

lemma sample_mem_ready: "mem_ready sample_mem (Pair 0 ` {0..<4}) {}" "tried_nodes ty sample_mem = [0]"
proof -
  have len: "length (mn_mmap (ms_nodes sample_boot ! 0)) = 4"
    by (simp add: sample_boot_def sample_node_def make_node_def)
  have "0 < length (ms_nodes sample_boot)" by (simp add: sample_boot_def)
  from free_region_loop_ok [OF sample_boot_inv this, of 0 0 4] len
  obtain ms where ms: "free_region_loop 0 4 4 0 sample_boot = Some ms" "mem_inv ms (Pair 0 ` {0..<4}) {}"
    "same_frame sample_boot ms" by auto
  have "dlist (ms_links ms) NodeOrder []"
    using ms(3) dlist_init by (simp add: sample_boot_def same_frame_def)
  note o = order_nodes_ok [OF this]
  from o ms(2) show "mem_ready sample_mem (Pair 0 ` {0..<4}) {}"
    by (simp add: mem_ready_def sample_mem_def ms(1) mem_inv_def nodes_ok_def)
  have "tried_nodes ty sample_mem = tried_nodes ty ms"
    using o(2) by (cases ty) (simp_all add: sample_mem_def ms(1) node_ids_def)
  also have "\<dots> = tried_nodes ty sample_boot" by (rule same_frame_tried [OF ms(3)])
  finally show "tried_nodes ty sample_mem = [0]"
    by (cases ty) (simp_all add: node_ids_def sample_boot_def sample_node_def make_node_def)
qed

section \<open>Properties\<close>

text \<open>C1: an allocation of \<^verbatim>\<open>2^k\<close> frames from the nodes of a type always returns and gives the
  interrupt flag back. Either it takes an aligned free block out of the free frames, adds it to
  the live blocks and keeps the allocator's invariant, or nothing changed and no node it may use
  has an aligned run of \<^verbatim>\<open>2^k\<close> free frames.\<close>

theorem alloc_pages_correct:
  assumes "mem_ready ms U L" and "k < BUDDY_ORDERS"
  shows "\<exists>r ms'. alloc_pages_type k ty ms = Some (r, ms') \<and> ms_rflags ms' = ms_rflags ms \<and>
    (case r of
       None \<Rightarrow> ms' = ms \<and> (\<forall>n \<in> set (tried_nodes ty ms). \<forall>q. 2 ^ k dvd q \<longrightarrow> \<not> page_extent ((n, q), k) \<subseteq> U)
     | Some p \<Rightarrow> fst p \<in> set (tried_nodes ty ms) \<and> 2 ^ k dvd snd p \<and> (p, k) \<notin> L \<and>
         page_extent (p, k) \<subseteq> U \<and> mem_ready ms' (U - page_extent (p, k)) (insert (p, k) L))"
proof -
  obtain r ms' where a: "alloc_pages_type k ty ms = Some (r, ms')"
    "case r of
       None \<Rightarrow> ms' = ms \<and> (\<forall>n \<in> set (tried_nodes ty ms). \<forall>q. 2 ^ k dvd q \<longrightarrow> \<not> page_extent ((n, q), k) \<subseteq> U)
     | Some p \<Rightarrow> fst p \<in> set (tried_nodes ty ms) \<and> (p, k) \<notin> L \<and> page_extent (p, k) \<subseteq> U \<and>
         mem_ready ms' (U - page_extent (p, k)) (insert (p, k) L) \<and> ms_rflags ms' = ms_rflags ms"
    using alloc_pages_type_ok [OF assms] by blast
  have "2 ^ k dvd snd p" if "r = Some p" for p
  proof -
    have inv: "mem_inv ms' (U - page_extent (p, k)) (insert (p, k) L)"
      using a(2) that by (simp add: mem_ready_def)
    then have "fst p < length (ms_nodes ms')" by (auto simp: mem_inv_def)
    from node_inv_bounds [OF mem_inv_node [OF inv this], of "(snd p, k)"]
    show ?thesis by (simp add: live_of_def wf_block_def)
  qed
  then show ?thesis using a by (cases r) auto
qed

theorem alloc_pages_correct_witness:
  "\<exists>p ms'. alloc_pages_type 1 NT_HIGH sample_mem = Some (Some p, ms') \<and>
     mem_ready ms' (Pair 0 ` {0..<4} - page_extent (p, 1)) {(p, 1)}"
proof -
  have "page_extent ((0, 0), 1) \<subseteq> Pair 0 ` {0..<4}" by (auto simp: page_extent_def)
  then show ?thesis
    using alloc_pages_correct [OF sample_mem_ready(1), of 1 NT_HIGH] sample_mem_ready(2) [of NT_HIGH]
    by (auto simp: BUDDY_ORDERS_def split: option.splits)
qed

text \<open>C2: releasing a live block returns exactly its frames to the free ones, whatever buddies it is
  merged with, and an allocation followed by the release of its block gives the same free frames.\<close>

theorem free_pages_correct:
  assumes "mem_ready ms U L" and "(p, k) \<in> L"
  shows "mem_ready (free_pages (Some p) k ms) (U \<union> page_extent (p, k)) (L - {(p, k)}) \<and>
    ms_rflags (free_pages (Some p) k ms) = ms_rflags ms \<and> free_pages None k ms = ms"
  using free_pages_ok [OF assms] by (simp add: free_pages_def)

theorem free_pages_correct_witness:
  "\<exists>p ms'. alloc_pages_type 0 NT_LOW sample_mem = Some (Some p, ms') \<and>
     mem_ready (free_pages (Some p) 0 ms') (Pair 0 ` {0..<4}) {}"
proof -
  have ext: "page_extent ((0, 0), 0) \<subseteq> Pair 0 ` {0..<4}" by (auto simp: page_extent_def)
  have k: "0 < BUDDY_ORDERS" by (simp add: BUDDY_ORDERS_def)
  obtain p ms' where r: "alloc_pages_type 0 NT_LOW sample_mem = Some (Some p, ms')"
    and sub: "page_extent (p, 0) \<subseteq> Pair 0 ` {0..<4}"
    and inv: "mem_ready ms' (Pair 0 ` {0..<4} - page_extent (p, 0)) {(p, 0)}"
    using alloc_pages_type_succeeds [OF sample_mem_ready(1) k _ _ ext, of NT_LOW]
      sample_mem_ready(2) [of NT_LOW] by auto
  have "Pair 0 ` {0..<4} - page_extent (p, 0) \<union> page_extent (p, 0) = Pair 0 ` {0..<4}" using sub by blast
  then show ?thesis using free_pages_correct [OF inv, of p 0] r by auto
qed

text \<open>C3: over any sequence of allocations of legal orders and releases of live blocks, starting
  from free memory, no two live blocks overlap, no live block overlaps a free frame and the live
  and free frames together are those memory started with: none is lost and none appears twice.\<close>

theorem page_allocator_run_safe:
  assumes "mem_ready ms U {}" and "\<forall>r \<in> set rs. req_ok BUDDY_ORDERS r"
    and "fold (serve (\<lambda>k ms. the (alloc_pages k ms)) (\<lambda>p. free_pages (Some p))) rs (ms, {}) = (ms', L)"
  shows "\<exists>U'. mem_ready ms' U' L \<and> U' \<union> \<Union> (page_extent ` L) = U \<and>
    (\<forall>b \<in> L. disjnt (page_extent b) U') \<and>
    (\<forall>b \<in> L. \<forall>c \<in> L. b \<noteq> c \<longrightarrow> disjnt (page_extent b) (page_extent c))"
  using memory.run_safe [OF assms] .

theorem page_allocator_run_safe_witness:
  "\<exists>ms' L U'. fold (serve (\<lambda>k ms. the (alloc_pages k ms)) (\<lambda>p. free_pages (Some p)))
      [Req_alloc 1, Req_alloc 0, Req_free (0, 0) 1] (sample_mem, {}) = (ms', L) \<and>
    mem_ready ms' U' L \<and> U' \<union> \<Union> (page_extent ` L) = Pair 0 ` {0..<4}"
proof -
  obtain ms' L where e: "fold (serve (\<lambda>k ms. the (alloc_pages k ms)) (\<lambda>p. free_pages (Some p)))
      [Req_alloc 1, Req_alloc 0, Req_free (0, 0) 1] (sample_mem, {}) = (ms', L)" by (metis prod.exhaust)
  then show ?thesis
    using page_allocator_run_safe [OF sample_mem_ready(1) _ e] by (auto simp: BUDDY_ORDERS_def)
qed

text \<open>Frame numbers and descriptors convert into each other: the frame number of every descriptor
  of a node is found in that node again, at the same descriptor, below \<^verbatim>\<open>max_pfns\<close>.\<close>

theorem pfn2page_page2pfn:
  assumes "mem_inv ms U L" and "n < length (ms_nodes ms)" and "i < length (mn_mmap (ms_nodes ms ! n))"
  shows "pfn2page ms (page2pfn ms (n, i)) = Some (n, i) \<and> page2pfn ms (n, i) < max_pfns ms \<and>
    page2pfn ms (the (pfn2page ms (page2pfn ms (n, i)))) = page2pfn ms (n, i)"
proof -
  let ?node = "ms_nodes ms ! n"
  have pn: "page2pfn ms (n, i) = mn_begin_pfn ?node + i"
    using page_node_ok [OF assms] by (simp add: page2pfn_def)
  have "length (mn_mmap ?node) = mn_end_pfn ?node - mn_begin_pfn ?node"
    by (rule node_inv_length [OF mem_inv_node [OF assms(1,2)]])
  then have lt: "mn_begin_pfn ?node + i < mn_end_pfn ?node" using assms(3) by simp
  have "pfn_node ms (mn_begin_pfn ?node + i) = Some n"
    by (rule pfn_node_ok [OF _ assms(2)]) (use assms(1) lt in \<open>auto simp: mem_inv_def\<close>)
  then have "pfn2page ms (page2pfn ms (n, i)) = Some (n, i)" by (simp add: pn pfn2page_def)
  then show ?thesis using lt max_pfns_ge [OF assms(2)] by (simp add: pn)
qed

theorem pfn2page_page2pfn_witness:
  "pfn2page sample_boot (page2pfn sample_boot (0, 3)) = Some (0, 3)"
  using pfn2page_page2pfn [OF sample_boot_inv, of 0 3]
  by (simp add: sample_boot_def sample_node_def make_node_def)

text \<open>C5: giving a page-aligned range of a node to the allocator at boot ends and makes exactly the
  frames of that range free, although the loop picks its block sizes from the frame number and the
  number of pages alone.\<close>

theorem memory_free_range_correct:
  assumes "mem_inv ms U L" and "n < length (ms_nodes ms)"
    and "unat begin div 2 ^ 12 = b" and "unat end div 2 ^ 12 = e" and "mn_begin_pfn (ms_nodes ms ! n) = f"
    and "f \<le> b" and "b < e" and "e \<le> mn_end_pfn (ms_nodes ms ! n)"
    and "disjnt (Pair n ` {b - f..<e - f}) (U \<union> \<Union> (page_extent ` L))"
  shows "\<exists>ms'. memory_free_range begin end ms = Some ms' \<and>
    mem_inv ms' (U \<union> Pair n ` {b - f..<e - f}) L \<and> ms_rflags ms' = ms_rflags ms"
  using memory_free_range_ok [OF assms] by (auto simp: same_frame_def)

theorem memory_free_range_correct_witness:
  "\<exists>ms'. memory_free_range 0x1000 0x4000 sample_boot = Some ms' \<and> mem_inv ms' (Pair 0 ` {1..<4}) {}"
  using memory_free_range_correct [OF sample_boot_inv, of 0 "0x1000" 1 "0x4000" 4 0]
  by (auto simp: sample_boot_def sample_node_def make_node_def)

text \<open>The order that \<^verbatim>\<open>setup_buddy\<close> gives to the nodes makes \<^verbatim>\<open>alloc_pages\<close> try every node, high
  memory first, and a request for low memory try the low nodes only.\<close>

theorem order_nodes_correct:
  assumes "dlist (ms_links ms) NodeOrder []" and "mem_inv ms U L"
  shows "mem_ready (order_nodes ms) U L \<and>
    set (tried_nodes NT_HIGH (order_nodes ms)) = {..<length (ms_nodes ms)} \<and>
    set (tried_nodes NT_LOW (order_nodes ms)) = {n. n < length (ms_nodes ms) \<and> mn_type (ms_nodes ms ! n) = NT_LOW}"
proof -
  note o = order_nodes_ok [OF assms(1)]
  have "mem_ready (order_nodes ms) U L"
    using o assms(2) by (simp add: mem_ready_def mem_inv_def nodes_ok_def)
  moreover have "mn_type x \<noteq> NT_HIGH \<longleftrightarrow> mn_type x = NT_LOW" for x :: memory_node by (cases "mn_type x") auto
  then have "set (tried_nodes NT_HIGH (order_nodes ms)) = {..<length (ms_nodes ms)}"
    unfolding tried_nodes.simps node_ids_def o(2) by auto
  ultimately show ?thesis by (simp add: node_ids_def o(2))
qed

theorem order_nodes_correct_witness:
  "mem_ready (order_nodes sample_boot) {} {} \<and> set (tried_nodes NT_LOW (order_nodes sample_boot)) = {0}"
proof -
  have "dlist (ms_links sample_boot) NodeOrder []" by (simp add: sample_boot_def dlist_init)
  note c = order_nodes_correct [OF this sample_boot_inv]
  have "{n. n < length (ms_nodes sample_boot) \<and> mn_type (ms_nodes sample_boot ! n) = NT_LOW} = {0}"
    unfolding sample_boot_def sample_node_def make_node_def by auto
  then show ?thesis using c by simp
qed

end
