(* ===== verification/Slab.thy ===== *)
theory Slab
  imports Page_Alloc
begin

text \<open>
  The object caches of \<^verbatim>\<open>src/kmem_cache.c\<close>: caches of small objects with border tags behind each
  object, caches of large objects with tags taken from a small cache, and the size classes of
  \<^verbatim>\<open>kmem_alloc\<close>. Pointers are natural numbers with \<^verbatim>\<open>0\<close> for \<^verbatim>\<open>NULL\<close>. Each C structure is a function
  from addresses to records, and each link field a function of its own, so that writes to one
  structure do not change another. The value \<^term>\<open>None\<close> stands for a null pointer that is followed.
  The page allocator below is the model of \<^verbatim>\<open>memory.c\<close>.
\<close>

section \<open>State\<close>

datatype cache_ops = Small_cache_ops | Large_cache_ops
datatype slab_ops = Small_slab_ops | Large_slab_ops

record kmem_slab =
  sl_ops :: slab_ops
  sl_cache :: nat
  sl_pages :: page_ptr
  sl_free :: nat
  sl_total :: nat
  sl_free_list :: nat
  sl_free_tags :: nat
  sl_busy_tags :: nat

record kmem_cache =
  kc_ops :: cache_ops
  kc_object_size :: nat
  kc_order :: nat
  kc_padded_size :: nat
  kc_slab_cache :: nat
  kc_tag_cache :: nat

datatype kptr = PartList nat | FreeList nat | FullList nat | ReapList | SlabLink nat

record kmem =
  k_mem :: mem_state
  k_links :: "kptr list_heap"
  k_cache :: "nat \<Rightarrow> kmem_cache"
  k_slab :: "nat \<Rightarrow> kmem_slab"
  k_border :: "nat \<Rightarrow> nat"
  k_tag_next :: "nat \<Rightarrow> nat"
  k_tag_ptr :: "nat \<Rightarrow> nat"
  k_small_cache_cache :: nat
  k_large_cache_cache :: nat
  k_large_slab_cache :: nat
  k_large_tag_cache :: nat
  k_pool :: "nat list"

fun LIST_ENTRY_slab :: "kptr \<Rightarrow> nat" where
  "LIST_ENTRY_slab (SlabLink s) = s"
| "LIST_ENTRY_slab _ = 0"

definition upd_slab :: "nat \<Rightarrow> (kmem_slab \<Rightarrow> kmem_slab) \<Rightarrow> kmem \<Rightarrow> kmem" where
  "upd_slab s f st = st\<lparr>k_slab := (k_slab st)(s := f (k_slab st s))\<rparr>"

definition upd_cache :: "nat \<Rightarrow> (kmem_cache \<Rightarrow> kmem_cache) \<Rightarrow> kmem \<Rightarrow> kmem" where
  "upd_cache c f st = st\<lparr>k_cache := (k_cache st)(c := f (k_cache st c))\<rparr>"

definition upd_links :: "(kptr list_heap \<Rightarrow> kptr list_heap) \<Rightarrow> kmem \<Rightarrow> kmem" where
  "upd_links f st = st\<lparr>k_links := f (k_links st)\<rparr>"

definition upd_mem :: "(mem_state \<Rightarrow> mem_state) \<Rightarrow> kmem \<Rightarrow> kmem" where
  "upd_mem f st = st\<lparr>k_mem := f (k_mem st)\<rparr>"

definition kmem_lock :: "kmem \<Rightarrow> bool \<times> kmem" where
  "kmem_lock st = (let (enabled, fl) = spin_lock_irqsave (ms_rflags (k_mem st))
                   in (enabled, upd_mem (\<lambda>m. m\<lparr>ms_rflags := fl\<rparr>) st))"

definition kmem_unlock :: "bool \<Rightarrow> kmem \<Rightarrow> kmem" where
  "kmem_unlock enabled st =
     upd_mem (\<lambda>m. m\<lparr>ms_rflags := spin_unlock_irqrestore enabled (ms_rflags m)\<rparr>) st"

definition sizeof_small_slab :: nat where "sizeof_small_slab = 64"
definition sizeof_large_slab :: nat where "sizeof_large_slab = 72"
definition sizeof_small_cache :: nat where "sizeof_small_cache = 96"
definition sizeof_large_cache :: nat where "sizeof_large_cache = 104"
definition sizeof_tag :: nat where "sizeof_tag = 16"

section \<open>Slabs of small objects\<close>

definition kmem_small_slab_alloc :: "nat \<Rightarrow> nat \<Rightarrow> kmem \<Rightarrow> (nat \<times> kmem) option" where
  "kmem_small_slab_alloc c s st =
     (let tag = sl_free_list (k_slab st s)
      in if tag = 0 then None
         else Some (tag - kc_object_size (k_cache st c),
                    upd_slab s (\<lambda>sl. sl\<lparr>sl_free_list := k_border st tag\<rparr>) st))"

definition kmem_small_slab_free :: "nat \<Rightarrow> nat \<Rightarrow> nat \<Rightarrow> kmem \<Rightarrow> kmem" where
  "kmem_small_slab_free c s ptr st =
     (let tag = ptr + kc_object_size (k_cache st c);
          st = st\<lparr>k_border := (k_border st)(tag := sl_free_list (k_slab st s))\<rparr>
      in upd_slab s (\<lambda>sl. sl\<lparr>sl_free_list := tag\<rparr>) st)"

partial_function (option) small_slab_fill :: "nat \<Rightarrow> nat \<Rightarrow> nat \<Rightarrow> nat \<Rightarrow> kmem \<Rightarrow> kmem option" where
  "small_slab_fill c s sz ptr st =
     (if ptr + sz \<le> s
      then let st = kmem_small_slab_free c s ptr st;
               st = upd_slab s (\<lambda>sl. sl\<lparr>sl_total := sl_total sl + 1, sl_free := sl_free sl + 1\<rparr>) st
           in small_slab_fill c s sz (ptr + sz) st
      else Some st)"

definition kmem_small_slab_create :: "nat \<Rightarrow> page_ptr \<Rightarrow> kmem \<Rightarrow> (nat \<times> kmem) option" where
  "kmem_small_slab_create c pg st =
     (let pages = push_bit (kc_order (k_cache st c)) 1;
          sz = 2 ^ PAGE_BITS * pages;
          off = sz - sizeof_small_slab;
          vaddr = unat (page_addr (k_mem st) pg);
          s = vaddr + off;
          st = upd_slab s (\<lambda>sl. sl\<lparr>sl_ops := Small_slab_ops, sl_total := 0, sl_free := 0, sl_free_list := 0\<rparr>) st
      in do {
        st \<leftarrow> small_slab_fill c s (kc_padded_size (k_cache st c)) vaddr st;
        Some (s, st)
      })"

section \<open>Slabs of large objects\<close>

definition kmem_large_slab_alloc :: "nat \<Rightarrow> nat \<Rightarrow> kmem \<Rightarrow> (nat \<times> kmem) option" where
  "kmem_large_slab_alloc c s st =
     (let tag = sl_free_tags (k_slab st s)
      in if tag = 0 then None
         else let ptr = k_tag_ptr st tag;
                  st = upd_slab s (\<lambda>sl. sl\<lparr>sl_free_tags := k_tag_next st tag\<rparr>) st;
                  st = st\<lparr>k_tag_next := (k_tag_next st)(tag := sl_busy_tags (k_slab st s))\<rparr>;
                  st = upd_slab s (\<lambda>sl. sl\<lparr>sl_busy_tags := tag\<rparr>) st
              in Some (ptr, st))"

definition kmem_large_slab_free :: "nat \<Rightarrow> nat \<Rightarrow> nat \<Rightarrow> kmem \<Rightarrow> kmem option" where
  "kmem_large_slab_free c s ptr st =
     (let tag = sl_busy_tags (k_slab st s)
      in if tag = 0 then None
         else let st = upd_slab s (\<lambda>sl. sl\<lparr>sl_busy_tags := k_tag_next st tag\<rparr>) st;
                  st = st\<lparr>k_tag_next := (k_tag_next st)(tag := sl_free_tags (k_slab st s))\<rparr>;
                  st = st\<lparr>k_tag_ptr := (k_tag_ptr st)(tag := ptr)\<rparr>
              in Some (upd_slab s (\<lambda>sl. sl\<lparr>sl_free_tags := tag\<rparr>) st))"

definition slab_ops_alloc :: "nat \<Rightarrow> nat \<Rightarrow> kmem \<Rightarrow> (nat \<times> kmem) option" where
  "slab_ops_alloc c s st =
     (case sl_ops (k_slab st s) of
        Small_slab_ops \<Rightarrow> kmem_small_slab_alloc c s st
      | Large_slab_ops \<Rightarrow> kmem_large_slab_alloc c s st)"

definition slab_ops_free :: "nat \<Rightarrow> nat \<Rightarrow> nat \<Rightarrow> kmem \<Rightarrow> kmem option" where
  "slab_ops_free c s ptr st =
     (case sl_ops (k_slab st s) of
        Small_slab_ops \<Rightarrow> Some (kmem_small_slab_free c s ptr st)
      | Large_slab_ops \<Rightarrow> kmem_large_slab_free c s ptr st)"

section \<open>Caches\<close>

definition kmem_cache_init :: "nat \<Rightarrow> kmem \<Rightarrow> kmem" where
  "kmem_cache_init c st =
     upd_links (\<lambda>h. list_init (FullList c) (list_init (PartList c) (list_init (FreeList c) h))) st"

definition set_page_slab :: "page_ptr \<Rightarrow> nat \<Rightarrow> nat \<Rightarrow> mem_state \<Rightarrow> mem_state" where
  "set_page_slab pg s i ms =
     node_upd (fst pg) (page_upd (snd pg + i) (\<lambda>p. p\<lparr>pg_u := of_nat s\<rparr>) (ms_nodes ms ! fst pg)) ms"

text \<open>\<^verbatim>\<open>create\<close> is the operation of the cache, \<^verbatim>\<open>cache->ops->create\<close>; a result \<^verbatim>\<open>0\<close> is its failure.\<close>

definition kmem_cache_grow ::
  "(nat \<Rightarrow> page_ptr \<Rightarrow> kmem \<Rightarrow> (nat \<times> kmem) option) \<Rightarrow> nat \<Rightarrow> kmem \<Rightarrow> (bool \<times> kmem) option" where
  "kmem_cache_grow create c st =
     (let order = kc_order (k_cache st c); pfs = push_bit order 1
      in do {
        (pages, m) \<leftarrow> alloc_pages order (k_mem st);
        let st = st\<lparr>k_mem := m\<rparr>;
        (case pages of
           None \<Rightarrow> Some (False, st)
         | Some pg \<Rightarrow> do {
             (s, st) \<leftarrow> create c pg st;
             if s = 0 then Some (False, upd_mem (free_pages (Some pg) order) st)
             else let st = upd_mem (fold (set_page_slab pg s) [0..<pfs]) st;
                      st = upd_slab s (\<lambda>sl. sl\<lparr>sl_cache := c, sl_pages := pg\<rparr>) st;
                      (enabled, st) = kmem_lock st;
                      st = upd_links (list_add (SlabLink s) (FreeList c)) st
                  in Some (True, kmem_unlock enabled st)
           })
      })"

definition take_part :: "nat \<Rightarrow> kmem \<Rightarrow> (nat \<times> kmem) option" where
  "take_part c st =
     (let s = LIST_ENTRY_slab (list_first (k_links st) (PartList c))
      in do {
        (ptr, st) \<leftarrow> slab_ops_alloc c s st;
        let st = upd_slab s (\<lambda>sl. sl\<lparr>sl_free := sl_free sl - 1\<rparr>) st;
        Some (ptr, if sl_free (k_slab st s) = 0
                   then upd_links (\<lambda>h. list_add (SlabLink s) (FullList c) (list_del (SlabLink s) h)) st
                   else st)
      })"

definition take_free :: "nat \<Rightarrow> kmem \<Rightarrow> (nat \<times> kmem) option" where
  "take_free c st =
     (let s = LIST_ENTRY_slab (list_first (k_links st) (FreeList c))
      in do {
        (ptr, st) \<leftarrow> slab_ops_alloc c s st;
        let st = upd_slab s (\<lambda>sl. sl\<lparr>sl_free := sl_free sl - 1\<rparr>) st;
        Some (ptr, upd_links (\<lambda>h. list_add (SlabLink s) (PartList c) (list_del (SlabLink s) h)) st)
      })"

definition kmem_cache_alloc_by ::
  "(nat \<Rightarrow> page_ptr \<Rightarrow> kmem \<Rightarrow> (nat \<times> kmem) option) \<Rightarrow> nat \<Rightarrow> kmem \<Rightarrow> (nat \<times> kmem) option" where
  "kmem_cache_alloc_by create c st =
     (let (enabled, st) = kmem_lock st
      in if \<not> list_empty (k_links st) (PartList c) then do {
           (ptr, st) \<leftarrow> take_part c st;
           Some (ptr, kmem_unlock enabled st)
         } else do {
           (ok, st) \<leftarrow> (if list_empty (k_links st) (FreeList c) then kmem_cache_grow create c st
                        else Some (True, st));
           if \<not> ok then Some (0, kmem_unlock enabled st)
           else do {
             (ptr, st) \<leftarrow> take_free c st;
             Some (ptr, kmem_unlock enabled st)
           }
         })"

definition kmem_get_slab :: "nat \<Rightarrow> kmem \<Rightarrow> nat option" where
  "kmem_get_slab ptr st = do {
     pg \<leftarrow> pfn2page (k_mem st) (unat (drop_bit PAGE_BITS (pa (of_nat ptr))));
     Some (unat (pg_u (page_of (k_mem st) pg)))
   }"

definition kmem_cache_free :: "nat \<Rightarrow> nat \<Rightarrow> kmem \<Rightarrow> kmem option" where
  "kmem_cache_free c ptr st = do {
     s \<leftarrow> kmem_get_slab ptr st;
     let (enabled, st) = kmem_lock st;
     st \<leftarrow> slab_ops_free c s ptr st;
     let st = upd_slab s (\<lambda>sl. sl\<lparr>sl_free := sl_free sl + 1\<rparr>) st;
     let sl = k_slab st s;
     let st = (if sl_free sl = sl_total sl
               then upd_links (\<lambda>h. list_add (SlabLink s) (FreeList c) (list_del (SlabLink s) h)) st
               else if sl_free sl = 1
               then upd_links (\<lambda>h. list_add (SlabLink s) (PartList c) (list_del (SlabLink s) h)) st
               else st);
     Some (kmem_unlock enabled st)
   }"

text \<open>
  \<^verbatim>\<open>slab_cache\<close> and \<^verbatim>\<open>tag_cache\<close> of a large cache are set once, to two static caches of small
  objects, so the recursion of \<^verbatim>\<open>kmem_cache_alloc\<close> through \<^verbatim>\<open>kmem_large_slab_create\<close> has depth two.
  The inner level refuses a cache of large objects.
\<close>

definition inner_create :: "nat \<Rightarrow> page_ptr \<Rightarrow> kmem \<Rightarrow> (nat \<times> kmem) option" where
  "inner_create c pg st =
     (case kc_ops (k_cache st c) of
        Small_cache_ops \<Rightarrow> kmem_small_slab_create c pg st
      | Large_cache_ops \<Rightarrow> None)"

partial_function (option) kmem_large_slab_release :: "nat \<Rightarrow> nat \<Rightarrow> kmem \<Rightarrow> kmem option" where
  "kmem_large_slab_release c s st =
     (let tag = sl_free_tags (k_slab st s)
      in if tag \<noteq> 0
         then do {
           let st = upd_slab s (\<lambda>sl. sl\<lparr>sl_free_tags := k_tag_next st tag\<rparr>) st;
           st \<leftarrow> kmem_cache_free (kc_tag_cache (k_cache st c)) tag st;
           kmem_large_slab_release c s st
         }
         else kmem_cache_free (kc_slab_cache (k_cache st c)) s st)"

fun large_slab_fill :: "nat \<Rightarrow> nat \<Rightarrow> nat \<Rightarrow> nat \<Rightarrow> kmem \<Rightarrow> (nat \<times> kmem) option" where
  "large_slab_fill c s 0 ptr st = Some (s, st)"
| "large_slab_fill c s (Suc n) ptr st = do {
     (tag, st) \<leftarrow> kmem_cache_alloc_by inner_create (kc_tag_cache (k_cache st c)) st;
     if tag = 0 then do {
       st \<leftarrow> kmem_large_slab_release c s st;
       Some (0, st)
     } else do {
       let st = st\<lparr>k_tag_next := (k_tag_next st)(tag := sl_free_tags (k_slab st s))\<rparr>;
       let st = st\<lparr>k_tag_ptr := (k_tag_ptr st)(tag := ptr)\<rparr>;
       let st = upd_slab s (\<lambda>sl. sl\<lparr>sl_free_tags := tag\<rparr>) st;
       large_slab_fill c s n (ptr + kc_object_size (k_cache st c)) st
     }
   }"

text \<open>\<^verbatim>\<open>slab->free\<close> is not initialised: the chain of tags ends in whatever the object held before.\<close>

definition kmem_large_slab_create :: "nat \<Rightarrow> page_ptr \<Rightarrow> kmem \<Rightarrow> (nat \<times> kmem) option" where
  "kmem_large_slab_create c pg st = do {
     (s, st) \<leftarrow> kmem_cache_alloc_by inner_create (kc_slab_cache (k_cache st c)) st;
     if s = 0 then Some (0, st)
     else do {
       let pfs = push_bit (kc_order (k_cache st c)) 1;
       let count = (pfs * 2 ^ PAGE_BITS) div kc_object_size (k_cache st c);
       let ptr = unat (page_addr (k_mem st) pg);
       let st = upd_slab s (\<lambda>sl. sl\<lparr>sl_ops := Large_slab_ops, sl_total := count, sl_free := count\<rparr>) st;
       large_slab_fill c s count ptr st
     }
   }"

definition kmem_large_slab_destroy :: "nat \<Rightarrow> nat \<Rightarrow> kmem \<Rightarrow> kmem option" where
  "kmem_large_slab_destroy c s st = kmem_large_slab_release c s st"

definition cache_ops_create :: "nat \<Rightarrow> page_ptr \<Rightarrow> kmem \<Rightarrow> (nat \<times> kmem) option" where
  "cache_ops_create c pg st =
     (case kc_ops (k_cache st c) of
        Small_cache_ops \<Rightarrow> kmem_small_slab_create c pg st
      | Large_cache_ops \<Rightarrow> kmem_large_slab_create c pg st)"

definition kmem_cache_alloc :: "nat \<Rightarrow> kmem \<Rightarrow> (nat \<times> kmem) option" where
  "kmem_cache_alloc c st = kmem_cache_alloc_by cache_ops_create c st"

partial_function (option) reap_loop :: "nat \<Rightarrow> kptr \<Rightarrow> kmem \<Rightarrow> kmem option" where
  "reap_loop c ptr st =
     (if ptr = ReapList then Some st
      else let s = LIST_ENTRY_slab ptr;
               pages = sl_pages (k_slab st s);
               ptr = l_next (k_links st) ptr
           in do {
             st \<leftarrow> (case kc_ops (k_cache st c) of
                     Small_cache_ops \<Rightarrow> Some st
                   | Large_cache_ops \<Rightarrow> kmem_large_slab_destroy c s st);
             reap_loop c ptr (upd_mem (free_pages (Some pages) (kc_order (k_cache st c))) st)
           })"

definition kmem_cache_reap :: "nat \<Rightarrow> kmem \<Rightarrow> kmem option" where
  "kmem_cache_reap c st =
     (let st = upd_links (list_init ReapList) st;
          (enabled, st) = kmem_lock st;
          st = upd_links (list_splice (FreeList c) ReapList) st;
          st = kmem_unlock enabled st
      in reap_loop c (l_next (k_links st) ReapList) st)"

section \<open>Creating caches and the size classes\<close>

definition kmem_small_cache_init :: "nat \<Rightarrow> u64 \<Rightarrow> u64 \<Rightarrow> kmem \<Rightarrow> kmem" where
  "kmem_small_cache_init c sz align st =
     (let tag_sz = 8; al = 8;
          sz = ALIGN sz al;
          align = MAXU align al;
          st = upd_cache c (\<lambda>kc. kc\<lparr>kc_ops := Small_cache_ops, kc_object_size := unat sz, kc_order := 0,
                 kc_padded_size := unat (ALIGN (sz + tag_sz) align)\<rparr>) st
      in kmem_cache_init c st)"

definition kmem_small_cache_create :: "u64 \<Rightarrow> u64 \<Rightarrow> kmem \<Rightarrow> (nat \<times> kmem) option" where
  "kmem_small_cache_create sz align st = do {
     (c, st) \<leftarrow> kmem_cache_alloc (k_small_cache_cache st) st;
     if c = 0 then Some (0, st) else Some (c, kmem_small_cache_init c sz align st)
   }"

definition kmem_small_cache_setup :: "kmem \<Rightarrow> kmem" where
  "kmem_small_cache_setup st = kmem_small_cache_init (k_small_cache_cache st) (of_nat sizeof_small_cache) 8 st"

fun large_cache_order :: "u64 \<Rightarrow> nat \<Rightarrow> nat \<Rightarrow> nat" where
  "large_cache_order object_size order 0 = order"
| "large_cache_order object_size order (Suc k) =
     (if push_bit order PAGE_SIZE div object_size \<ge> 8 then order
      else large_cache_order object_size (order + 1) k)"

definition kmem_large_cache_init :: "nat \<Rightarrow> u64 \<Rightarrow> u64 \<Rightarrow> kmem \<Rightarrow> kmem" where
  "kmem_large_cache_init c sz align st =
     (let object_size = ALIGN sz align;
          order = large_cache_order object_size 0 BUDDY_ORDERS;
          st = upd_cache c (\<lambda>kc. kc\<lparr>kc_object_size := unat object_size, kc_order := order,
                 kc_ops := Large_cache_ops, kc_slab_cache := k_large_slab_cache st,
                 kc_tag_cache := k_large_tag_cache st\<rparr>) st
      in kmem_cache_init c st)"

definition kmem_large_cache_create :: "u64 \<Rightarrow> u64 \<Rightarrow> kmem \<Rightarrow> (nat \<times> kmem) option" where
  "kmem_large_cache_create sz align st = do {
     (c, st) \<leftarrow> kmem_cache_alloc (k_large_cache_cache st) st;
     if c = 0 then Some (0, st) else Some (c, kmem_large_cache_init c sz align st)
   }"

definition kmem_large_cache_setup :: "kmem \<Rightarrow> kmem" where
  "kmem_large_cache_setup st =
     (let st = kmem_small_cache_init (k_large_cache_cache st) (of_nat sizeof_large_cache) 8 st;
          st = kmem_small_cache_init (k_large_slab_cache st) (of_nat sizeof_large_slab) 8 st
      in kmem_small_cache_init (k_large_tag_cache st) (of_nat sizeof_tag) 8 st)"

definition kmem_cache_create :: "u64 \<Rightarrow> u64 \<Rightarrow> kmem \<Rightarrow> (nat \<times> kmem) option" where
  "kmem_cache_create sz align st =
     (if sz \<le> PAGE_SIZE div 8 then kmem_small_cache_create sz align st
      else kmem_large_cache_create sz align st)"

definition kmem_cache_destroy :: "nat \<Rightarrow> kmem \<Rightarrow> kmem option" where
  "kmem_cache_destroy c st = do {
     st \<leftarrow> kmem_cache_reap c st;
     if \<not> list_empty (k_links st) (PartList c) then Some st
     else if \<not> list_empty (k_links st) (FullList c) then Some st
     else do {
       s \<leftarrow> kmem_get_slab c st;
       kmem_cache_free (sl_cache (k_slab st s)) c st
     }
   }"

definition kmem_size :: "nat list" where
  "kmem_size = [8, 16, 24, 32, 40, 48, 56, 64, 72, 80, 88, 96, 104, 112, 120, 128,
     256, 384, 512, 640, 768, 1024, 1280, 1536, 1792, 2048, 3072, 4096,
     8 * 1024, 16 * 1024, 32 * 1024, 64 * 1024, 128 * 1024, 256 * 1024]"

definition kmem_cache_index :: "nat \<Rightarrow> nat option" where
  "kmem_cache_index sz = List.find (\<lambda>i. sz \<le> kmem_size ! i) [0..<length kmem_size]"

definition kmem_alloc :: "nat \<Rightarrow> kmem \<Rightarrow> (nat \<times> kmem) option" where
  "kmem_alloc sz st =
     (case kmem_cache_index sz of
        None \<Rightarrow> Some (0, st)
      | Some i \<Rightarrow> kmem_cache_alloc (k_pool st ! i) st)"

definition kmem_free :: "nat \<Rightarrow> kmem \<Rightarrow> kmem option" where
  "kmem_free ptr st =
     (if ptr = 0 then Some st
      else do {
        s \<leftarrow> kmem_get_slab ptr st;
        if s = 0 then Some st else kmem_cache_free (sl_cache (k_slab st s)) ptr st
      })"

fun setup_pools :: "nat list \<Rightarrow> kmem \<Rightarrow> kmem option" where
  "setup_pools [] st = Some st"
| "setup_pools (sz # szs) st = do {
     (c, st) \<leftarrow> kmem_cache_create (of_nat sz) 8 st;
     if c = 0 then None else setup_pools szs (st\<lparr>k_pool := k_pool st @ [c]\<rparr>)
   }"

definition setup_alloc :: "kmem \<Rightarrow> kmem option" where
  "setup_alloc st =
     (let st = kmem_small_cache_setup st;
          st = kmem_large_cache_setup st
      in setup_pools kmem_size (st\<lparr>k_pool := []\<rparr>))"

end
