(* ===== verification/Slab_Inv.thy ===== *)
theory Slab_Inv
  imports Slab
begin

text \<open>
  The invariant of the caches of small objects and its preservation by \<^verbatim>\<open>kmem_cache_alloc\<close> and
  \<^verbatim>\<open>kmem_cache_free\<close>: every slab lies in one page that the page allocator handed out, its chain of
  border tags holds exactly the objects that are not live, and it hangs on the list that its
  number of free objects asks for. The contract \<^verbatim>\<open>object_cache\<close> is interpreted on these operations.
\<close>

section \<open>Chains, slots and slabs\<close>

fun bchain :: "(nat \<Rightarrow> nat) \<Rightarrow> nat \<Rightarrow> nat list \<Rightarrow> bool" where
  "bchain nxt p [] \<longleftrightarrow> p = 0"
| "bchain nxt p (t # ts) \<longleftrightarrow> p = t \<and> t \<noteq> 0 \<and> bchain nxt (nxt t) ts"

lemma bchain_cong: "bchain nxt p ts \<Longrightarrow> (\<And>t. t \<in> set ts \<Longrightarrow> nxt' t = nxt t) \<Longrightarrow> bchain nxt' p ts"
  by (induction ts arbitrary: p) auto

text \<open>The usable bytes of a one-page slab end where its header starts.\<close>

definition SLAB_BYTES :: nat where "SLAB_BYTES = 4032"

definition slots :: "nat \<Rightarrow> nat \<Rightarrow> nat set" where
  "slots s sz = (\<lambda>j. s - SLAB_BYTES + j * sz) ` {..<SLAB_BYTES div sz}"

definition small_cache_ok :: "kmem_cache \<Rightarrow> bool" where
  "small_cache_ok kc \<longleftrightarrow> kc_ops kc = Small_cache_ops \<and> kc_order kc = 0 \<and>
     kc_object_size kc + 8 \<le> kc_padded_size kc \<and> 2 * kc_padded_size kc \<le> SLAB_BYTES"

definition slab_ok :: "kmem \<Rightarrow> nat \<Rightarrow> nat \<Rightarrow> nat list \<Rightarrow> bool" where
  "slab_ok st c s av \<longleftrightarrow>
     (let sl = k_slab st s; kc = k_cache st c
      in sl_ops sl = Small_slab_ops \<and> sl_cache sl = c \<and> valid_page (k_mem st) (sl_pages sl) \<and>
         unat (page_addr (k_mem st) (sl_pages sl)) + SLAB_BYTES = s \<and>
         unat (pg_u (page_of (k_mem st) (sl_pages sl))) = s \<and>
         bchain (k_border st) (sl_free_list sl) (map (\<lambda>p. p + kc_object_size kc) av) \<and>
         distinct av \<and> set av \<subseteq> slots s (kc_padded_size kc) \<and>
         sl_free sl = length av \<and> sl_total sl = SLAB_BYTES div kc_padded_size kc)"

abbreviation cache_heads :: "nat set \<Rightarrow> kptr set" where
  "cache_heads K \<equiv> PartList ` K \<union> FreeList ` K \<union> FullList ` K"

definition slabs_of :: "(kptr \<Rightarrow> nat list) \<Rightarrow> nat \<Rightarrow> nat set" where
  "slabs_of ls c = set (ls (PartList c)) \<union> set (ls (FreeList c)) \<union> set (ls (FullList c))"

definition kmem_core ::
  "(page_ptr \<times> nat) set \<Rightarrow> kmem \<Rightarrow> nat set \<Rightarrow> (kptr \<Rightarrow> nat list) \<Rightarrow> (nat \<Rightarrow> nat list) \<Rightarrow> page_ptr set \<Rightarrow> (page_ptr \<times> nat) set \<Rightarrow> bool" where
  "kmem_core P st K ls av U L \<longleftrightarrow>
     mem_ready (k_mem st) U (L \<union> P) \<and> L \<inter> P = {} \<and> (\<forall>c \<in> K. small_cache_ok (k_cache st c)) \<and>
     dl.fam (k_links st) (cache_heads K) (\<lambda>a. map SlabLink (ls a)) \<and>
     (\<forall>c \<in> K. \<forall>s \<in> slabs_of ls c. slab_ok st c s (av s) \<and> (sl_pages (k_slab st s), 0) \<in> L)"

definition buckets_ok :: "kmem \<Rightarrow> (kptr \<Rightarrow> nat list) \<Rightarrow> (nat \<Rightarrow> nat list) \<Rightarrow> nat \<Rightarrow> bool" where
  "buckets_ok st ls av c \<longleftrightarrow>
     (let n = SLAB_BYTES div kc_padded_size (k_cache st c)
      in (\<forall>s \<in> set (ls (PartList c)). 0 < length (av s) \<and> length (av s) < n) \<and>
         (\<forall>s \<in> set (ls (FreeList c)). length (av s) = n) \<and>
         (\<forall>s \<in> set (ls (FullList c)). av s = []))"

definition live_objects :: "kmem \<Rightarrow> (kptr \<Rightarrow> nat list) \<Rightarrow> (nat \<Rightarrow> nat list) \<Rightarrow> nat \<Rightarrow> nat set" where
  "live_objects st ls av c = (\<Union>s \<in> slabs_of ls c. slots s (kc_padded_size (k_cache st c)) - set (av s))"

lemma kmem_fields [simp]:
  "k_mem (upd_slab s f st) = k_mem st" "k_links (upd_slab s f st) = k_links st" "k_cache (upd_slab s f st) = k_cache st"
  "k_border (upd_slab s f st) = k_border st" "k_slab (upd_slab s f st) = (k_slab st)(s := f (k_slab st s))"
  "k_mem (upd_links g st) = k_mem st" "k_links (upd_links g st) = g (k_links st)" "k_cache (upd_links g st) = k_cache st"
  "k_border (upd_links g st) = k_border st" "k_slab (upd_links g st) = k_slab st"
  "k_mem (upd_mem m st) = m (k_mem st)" "k_links (upd_mem m st) = k_links st" "k_cache (upd_mem m st) = k_cache st"
  "k_border (upd_mem m st) = k_border st" "k_slab (upd_mem m st) = k_slab st"
  by (simp_all add: upd_slab_def upd_links_def upd_mem_def)

lemma HIGH_BASE_mod: "unat HIGH_BASE mod 4096 = 0"
  by (simp add: HIGH_BASE_def)

lemma page_addr_nonzero: "mem_inv ms U L \<Longrightarrow> valid_page ms p \<Longrightarrow> 0 < unat (page_addr ms p)"
  by (simp add: page_addr_unat HIGH_BASE_def)

lemma page_addr_mod: "mem_inv ms U L \<Longrightarrow> valid_page ms p \<Longrightarrow> unat (page_addr ms p) mod 4096 = 0"
  unfolding page_addr_unat using HIGH_BASE_mod by presburger

lemma slab_ok_aligned:
  assumes "mem_inv (k_mem st) U L" and "slab_ok st c s av"
  shows "s mod 4096 = SLAB_BYTES" and "SLAB_BYTES \<le> s" and "SLAB_BYTES < s"
proof -
  have v: "valid_page (k_mem st) (sl_pages (k_slab st s))"
    and s: "unat (page_addr (k_mem st) (sl_pages (k_slab st s))) + SLAB_BYTES = s"
    using assms(2) unfolding slab_ok_def Let_def by blast+
  show "SLAB_BYTES < s" using s page_addr_nonzero [OF assms(1) v] by linarith
  then show "SLAB_BYTES \<le> s" by simp
  have "(unat (page_addr (k_mem st) (sl_pages (k_slab st s))) + SLAB_BYTES) mod 4096 = SLAB_BYTES"
    using page_addr_mod [OF assms(1) v] by (auto simp: SLAB_BYTES_def mod_eq_0_iff_dvd elim!: dvdE)
  then show "s mod 4096 = SLAB_BYTES" unfolding s .
qed

lemma slots_inside:
  assumes "p \<in> slots s sz" and "SLAB_BYTES \<le> s"
  shows "s - SLAB_BYTES \<le> p" and "p + sz \<le> s"
proof -
  obtain j where j: "p = s - SLAB_BYTES + j * sz" "j < SLAB_BYTES div sz" using assms(1) by (auto simp: slots_def)
  then show "s - SLAB_BYTES \<le> p" by simp
  have "Suc j * sz \<le> SLAB_BYTES div sz * sz" using j(2) by (intro mult_le_mono1) simp
  also have "\<dots> \<le> SLAB_BYTES" by simp
  finally show "p + sz \<le> s" using j(1) assms(2) by simp
qed

lemma same_page:
  assumes "s mod 4096 = SLAB_BYTES" and "s - SLAB_BYTES \<le> x" "x < s"
  shows "x div 4096 = s div 4096"
proof -
  have s: "s = s div 4096 * 4096 + 4032" using assms(1) mod_div_mult_eq [of s 4096] by (simp add: SLAB_BYTES_def)
  then have "s div 4096 * 4096 \<le> x" "x < s div 4096 * 4096 + 4096" using assms(2,3) by (auto simp: SLAB_BYTES_def)
  then show ?thesis by (intro div_nat_eqI) auto
qed

text \<open>Border tags of different slabs are different cells.\<close>

lemma tags_apart:
  assumes "s mod 4096 = SLAB_BYTES" "t mod 4096 = SLAB_BYTES" and "s \<noteq> t"
    and "s - SLAB_BYTES \<le> x" "x < s" and "t - SLAB_BYTES \<le> y" "y < t"
  shows "x \<noteq> y"
proof
  assume "x = y"
  then have "s div 4096 = t div 4096" using same_page [OF assms(1,4,5)] same_page [OF assms(2,6,7)] by simp
  then show False using assms(1-3) by (metis mod_div_mult_eq)
qed

lemma tag_inside:
  assumes "p \<in> slots s (kc_padded_size kc)" and "SLAB_BYTES \<le> s" and "small_cache_ok kc"
  shows "s - SLAB_BYTES \<le> p + kc_object_size kc" and "p + kc_object_size kc < s"
  using slots_inside [OF assms(1,2)] assms(3) by (auto simp: small_cache_ok_def)

section \<open>Taking and returning an object of a slab\<close>

lemma kmem_coreD:
  assumes "kmem_core P st K ls av U L"
  shows "mem_ready (k_mem st) U (L \<union> P)" and "mem_inv (k_mem st) U (L \<union> P)" and "c \<in> K \<Longrightarrow> small_cache_ok (k_cache st c)"
    and "dl.fam (k_links st) (cache_heads K) (\<lambda>a. map SlabLink (ls a))"
    and "c \<in> K \<Longrightarrow> s \<in> slabs_of ls c \<Longrightarrow> slab_ok st c s (av s)"
    and "c \<in> K \<Longrightarrow> s \<in> slabs_of ls c \<Longrightarrow> (sl_pages (k_slab st s), 0) \<in> L"
  using assms by (auto simp: kmem_core_def mem_ready_def)

lemma slab_owner:
  assumes "kmem_core P st K ls av U L" and "c \<in> K" "d \<in> K" and "s \<in> slabs_of ls c" "s \<in> slabs_of ls d"
  shows "c = d"
  using kmem_coreD(5) [OF assms(1,2,4)] kmem_coreD(5) [OF assms(1,3,5)] by (auto simp: slab_ok_def Let_def)

text \<open>A change of one slab's chain keeps the core invariant when the slab is well formed afterwards
  and the border tags of the other slabs are not written.\<close>

lemma kmem_core_slab:
  assumes core: "kmem_core P st K ls av U L" and c: "c \<in> K" "s \<in> slabs_of ls c"
    and ok: "slab_ok st' c s xs" and pages: "sl_pages (k_slab st' s) = sl_pages (k_slab st s)"
    and same: "k_mem st' = k_mem st" "k_links st' = k_links st" "k_cache st' = k_cache st"
      "\<And>t. t \<noteq> s \<Longrightarrow> k_slab st' t = k_slab st t"
    and border: "\<And>x. \<not> (s - SLAB_BYTES \<le> x \<and> x < s) \<Longrightarrow> k_border st' x = k_border st x"
  shows "kmem_core P st' K ls (av(s := xs)) U L"
proof -
  note d = kmem_coreD [OF core]
  have "slab_ok st' e t ((av(s := xs)) t) \<and> (sl_pages (k_slab st' t), 0) \<in> L"
    if e: "e \<in> K" "t \<in> slabs_of ls e" for e t
  proof (cases "t = s")
    case True
    then have "e = c" using slab_owner [OF core e(1) c(1)] e(2) c(2) by simp
    then show ?thesis using True ok pages d(6) [OF c] by simp
  next
    case False
    note so = d(5) [OF e]
    have "k_border st' (p + kc_object_size (k_cache st e)) = k_border st (p + kc_object_size (k_cache st e))"
      if "p \<in> set (av t)" for p
    proof -
      have "p \<in> slots t (kc_padded_size (k_cache st e))" using so that by (auto simp: slab_ok_def Let_def)
      note ti = tag_inside [OF this slab_ok_aligned(2) [OF d(2) so] d(3) [OF e(1)]]
      have "s mod 4096 = SLAB_BYTES" using slab_ok_aligned(1) [OF d(2) d(5) [OF c]] .
      from tags_apart [OF this slab_ok_aligned(1) [OF d(2) so] False [symmetric] _ _ ti]
      show ?thesis by (intro border) blast
    qed
    moreover have "bchain (k_border st) (sl_free_list (k_slab st t)) (map (\<lambda>p. p + kc_object_size (k_cache st e)) (av t))"
      using so by (simp add: slab_ok_def Let_def)
    ultimately have "bchain (k_border st') (sl_free_list (k_slab st t)) (map (\<lambda>p. p + kc_object_size (k_cache st e)) (av t))"
      by (elim bchain_cong) auto
    then have "slab_ok st' e t (av t)" using so same False by (simp add: slab_ok_def Let_def)
    then show ?thesis using False d(6) [OF e] same(4) by simp
  qed
  then show ?thesis using core same unfolding kmem_core_def by simp
qed

lemma slab_pop:
  assumes core: "kmem_core P st K ls av U L" and c: "c \<in> K" "s \<in> slabs_of ls c" and av: "av s = p # ps"
  defines "st' \<equiv> upd_slab s (\<lambda>sl. sl\<lparr>sl_free := sl_free sl - 1\<rparr>)
    (upd_slab s (\<lambda>sl. sl\<lparr>sl_free_list := k_border st (p + kc_object_size (k_cache st c))\<rparr>) st)"
  shows "slab_ops_alloc c s st = Some (p, upd_slab s (\<lambda>sl. sl\<lparr>sl_free_list := k_border st (p + kc_object_size (k_cache st c))\<rparr>) st)"
    and "kmem_core P st' K ls (av(s := ps)) U L" and "sl_free (k_slab st' s) = length ps"
proof -
  have so: "slab_ok st c s (p # ps)" using kmem_coreD(5) [OF core c] av by simp
  then have tag: "sl_free_list (k_slab st s) = p + kc_object_size (k_cache st c)"
    "p + kc_object_size (k_cache st c) \<noteq> 0" and ops: "sl_ops (k_slab st s) = Small_slab_ops"
    by (auto simp: slab_ok_def Let_def)
  show "slab_ops_alloc c s st = Some (p, upd_slab s (\<lambda>sl. sl\<lparr>sl_free_list := k_border st (p + kc_object_size (k_cache st c))\<rparr>) st)"
    using tag by (simp add: slab_ops_alloc_def ops kmem_small_slab_alloc_def Let_def)
  have "slab_ok st' c s ps" using so by (auto simp: slab_ok_def Let_def st'_def)
  then show "kmem_core P st' K ls (av(s := ps)) U L"
    by (rule kmem_core_slab [OF core c]) (simp_all add: st'_def)
  show "sl_free (k_slab st' s) = length ps" using so by (simp add: slab_ok_def Let_def st'_def)
qed

lemma slab_push:
  assumes core: "kmem_core P st K ls av U L" and c: "c \<in> K" "s \<in> slabs_of ls c"
    and p: "p \<in> slots s (kc_padded_size (k_cache st c))" "p \<notin> set (av s)"
  defines "st' \<equiv> upd_slab s (\<lambda>sl. sl\<lparr>sl_free := sl_free sl + 1\<rparr>) (kmem_small_slab_free c s p st)"
  shows "slab_ops_free c s p st = Some (kmem_small_slab_free c s p st)"
    and "kmem_core P st' K ls (av(s := p # av s)) U L"
    and "sl_free (k_slab st' s) = Suc (length (av s))" and "k_mem st' = k_mem st" and "k_cache st' = k_cache st"
    and "sl_total (k_slab st' s) = SLAB_BYTES div kc_padded_size (k_cache st c)"
proof -
  note d = kmem_coreD [OF core]
  have so: "slab_ok st c s (av s)" by (rule d(5) [OF c])
  note ti = tag_inside [OF p(1) slab_ok_aligned(2) [OF d(2) so] d(3) [OF c(1)]]
  let ?o = "kc_object_size (k_cache st c)"
  show "slab_ops_free c s p st = Some (kmem_small_slab_free c s p st)"
    using so by (simp add: slab_ops_free_def slab_ok_def Let_def)
  have fields: "k_mem st' = k_mem st" "k_links st' = k_links st" "k_cache st' = k_cache st"
    "k_border st' = (k_border st)(p + ?o := sl_free_list (k_slab st s))"
    "k_slab st' = (k_slab st)(s := (k_slab st s)\<lparr>sl_free_list := p + ?o, sl_free := sl_free (k_slab st s) + 1\<rparr>)"
    by (simp_all add: st'_def kmem_small_slab_free_def Let_def)
  have "bchain (k_border st') (sl_free_list (k_slab st s)) (map (\<lambda>q. q + ?o) (av s))"
  proof (rule bchain_cong)
    show "bchain (k_border st) (sl_free_list (k_slab st s)) (map (\<lambda>q. q + ?o) (av s))"
      using so by (simp add: slab_ok_def Let_def)
    show "k_border st' t = k_border st t" if "t \<in> set (map (\<lambda>q. q + ?o) (av s))" for t
      using that p(2) by (auto simp: fields)
  qed
  moreover have "p + ?o \<noteq> 0"
    using ti slab_ok_aligned(3) [OF d(2) so] by linarith
  ultimately have "slab_ok st' c s (p # av s)" using so p by (simp add: slab_ok_def Let_def fields)
  then show "kmem_core P st' K ls (av(s := p # av s)) U L"
    by (rule kmem_core_slab [OF core c]) (use ti in \<open>auto simp: fields\<close>)
  show "sl_free (k_slab st' s) = Suc (length (av s))"
    "sl_total (k_slab st' s) = SLAB_BYTES div kc_padded_size (k_cache st c)"
    using so by (simp_all add: slab_ok_def Let_def fields)
  show "k_mem st' = k_mem st" "k_cache st' = k_cache st" by (simp_all add: fields)
qed

section \<open>Moving a slab between the lists of its cache\<close>

lemma map_SlabLink_upd:
  "(\<lambda>a. map SlabLink ((ls(x := remove1 s (ls x), y := s # ls y)) a)) =
     (\<lambda>a. map SlabLink (ls a))(x := remove1 (SlabLink s) (map SlabLink (ls x)), y := SlabLink s # map SlabLink (ls y))"
proof -
  have "inj SlabLink" by (rule injI) simp
  then show ?thesis by (auto simp: fun_eq_iff map_remove1_inj)
qed

lemma slab_move:
  assumes core: "kmem_core P st K ls av U L" and c: "c \<in> K" and a: "a \<in> cache_heads {c}" "b \<in> cache_heads {c}" "a \<noteq> b"
    and s: "s \<in> set (ls a)"
  defines "ls' \<equiv> ls(a := remove1 s (ls a), b := s # ls b)"
  shows "kmem_core P (upd_links (\<lambda>h. list_add (SlabLink s) b (list_del (SlabLink s) h)) st) K ls' av U L"
    and "slabs_of ls' d = slabs_of ls d"
proof -
  note d = kmem_coreD [OF core]
  have H: "a \<in> cache_heads K" "b \<in> cache_heads K" using a c by auto
  have "distinct (map SlabLink (ls a))" using dl.rep_distinct [OF dl.fam_rep [OF d(4) H(1)]] by simp
  then have dist: "distinct (ls a)" by (simp add: distinct_map)
  have "dl.fam (list_add (SlabLink s) b (list_del (SlabLink s) (k_links st))) (cache_heads K) (\<lambda>x. map SlabLink (ls' x))"
    unfolding ls'_def map_SlabLink_upd by (rule dl.fam_move [OF d(4) H _ a(3)]) (use s in simp)
  moreover have slabs: "slabs_of ls' e = slabs_of ls e" for e
    using a s dist by (auto simp: slabs_of_def ls'_def)
  ultimately show "kmem_core P (upd_links (\<lambda>h. list_add (SlabLink s) b (list_del (SlabLink s) h)) st) K ls' av U L"
    using core unfolding kmem_core_def slabs by (simp add: slab_ok_def)
  show "slabs_of ls' d = slabs_of ls d" by (rule slabs)
qed

lemma slab_in_one_list:
  assumes "kmem_core P st K ls av U L" and "c \<in> K" "e \<in> K" and "a \<in> cache_heads {c}" "b \<in> cache_heads {e}"
    and "s \<in> set (ls a)" "s \<in> set (ls b)"
  shows "a = b"
  by (rule dl.fam_index_unique [OF kmem_coreD(4) [OF assms(1)], of a b "SlabLink s"]) (use assms in auto)

lemma slab_lists_distinct:
  assumes "kmem_core P st K ls av U L" and "c \<in> K" and "a \<in> cache_heads {c}"
  shows "distinct (ls a)"
  using dl.rep_distinct [OF dl.fam_rep [OF kmem_coreD(4) [OF assms(1)], of a]] assms(2,3)
  by (auto simp: distinct_map)

lemma list_entry_first:
  assumes "kmem_core P st K ls av U L" and "a \<in> cache_heads K"
  shows "list_empty (k_links st) a \<longleftrightarrow> ls a = []"
    and "ls a \<noteq> [] \<Longrightarrow> LIST_ENTRY_slab (list_first (k_links st) a) = hd (ls a)"
  using dl.fam_empty [OF kmem_coreD(4) [OF assms(1)] assms(2)]
    dl.fam_first [OF kmem_coreD(4) [OF assms(1)] assms(2)] by (auto simp: hd_map)

section \<open>Locking\<close>

definition set_rflags :: "u64 \<Rightarrow> kmem \<Rightarrow> kmem" where
  "set_rflags fl st = upd_mem (\<lambda>m. m\<lparr>ms_rflags := fl\<rparr>) st"

lemma mem_ready_rflags [simp]: "mem_ready (m\<lparr>ms_rflags := fl\<rparr>) U L \<longleftrightarrow> mem_ready m U L"
proof -
  have "node_ids ty (m\<lparr>ms_rflags := fl\<rparr>) = node_ids ty m" for ty by (simp add: node_ids_def)
  then have "tried_nodes ty (m\<lparr>ms_rflags := fl\<rparr>) = tried_nodes ty m" for ty by (cases ty) simp_all
  then show ?thesis by (simp add: mem_ready_def mem_inv_def order_ok_def nodes_ok_def)
qed

text \<open>No node that \<^verbatim>\<open>alloc_pages\<close> tries has a free page.\<close>

definition out_of_pages :: "mem_state \<Rightarrow> bool" where
  "out_of_pages m \<longleftrightarrow> (\<forall>U L. mem_ready m U L \<longrightarrow> (\<forall>n \<in> set (tried_nodes NT_HIGH m). \<forall>q. (n, q) \<notin> U))"

lemma tried_nodes_rflags [simp]: "tried_nodes ty (m\<lparr>ms_rflags := fl\<rparr>) = tried_nodes ty m"
  by (cases ty) (simp_all add: node_ids_def)

lemma out_of_pages_rflags [simp]: "out_of_pages (m\<lparr>ms_rflags := fl\<rparr>) \<longleftrightarrow> out_of_pages m"
  by (simp add: out_of_pages_def)

lemma out_of_pagesD: "out_of_pages m \<Longrightarrow> mem_ready m U L \<Longrightarrow> n \<in> set (tried_nodes NT_HIGH m) \<Longrightarrow> (n, q) \<notin> U"
  unfolding out_of_pages_def by (drule spec, drule spec, drule (1) mp, drule (1) bspec, erule spec)

lemma out_of_pagesI:
  assumes "alloc_pages_type 0 NT_HIGH m = Some (None, m')"
  shows "out_of_pages m"
  unfolding out_of_pages_def
proof (intro allI impI ballI)
  fix U L n q assume "mem_ready m U L" "n \<in> set (tried_nodes NT_HIGH m)"
  then have "\<not> page_extent ((n, q), 0) \<subseteq> U"
    using alloc_pages_type_ok [of m U L 0 NT_HIGH] assms by (auto simp: BUDDY_ORDERS_def)
  then show "(n, q) \<notin> U" by (auto simp: page_extent_def blk_def)
qed

lemma page_facts_rflags [simp]:
  "page_of (m\<lparr>ms_rflags := fl\<rparr>) p = page_of m p" "page_addr (m\<lparr>ms_rflags := fl\<rparr>) p = page_addr m p"
  "valid_page (m\<lparr>ms_rflags := fl\<rparr>) p = valid_page m p" "pfn2page (m\<lparr>ms_rflags := fl\<rparr>) x = pfn2page m x"
  by (simp_all add: page_of_def page_addr_def page_paddr_def page2pfn_def page_node_def valid_page_def
      pfn2page_def pfn_node_def cong: option.case_cong)

lemma kmem_core_rflags [simp]: "kmem_core P (set_rflags fl st) K ls av U L \<longleftrightarrow> kmem_core P st K ls av U L"
  by (simp add: kmem_core_def set_rflags_def slab_ok_def)

lemma set_rflags_fields [simp]:
  "k_links (set_rflags fl st) = k_links st" "k_cache (set_rflags fl st) = k_cache st"
  "k_slab (set_rflags fl st) = k_slab st" "ms_rflags (k_mem (set_rflags fl st)) = fl"
  "k_mem (set_rflags fl st) = (k_mem st)\<lparr>ms_rflags := fl\<rparr>"
  by (simp_all add: set_rflags_def)

lemma kmem_lock_eq:
  "kmem_lock st = (fst (spin_lock_irqsave (ms_rflags (k_mem st))), set_rflags (snd (spin_lock_irqsave (ms_rflags (k_mem st)))) st)"
  by (simp add: kmem_lock_def set_rflags_def split: prod.splits)

lemma kmem_unlock_eq: "kmem_unlock e st = set_rflags (spin_unlock_irqrestore e (ms_rflags (k_mem st))) st"
  by (simp add: kmem_unlock_def set_rflags_def upd_mem_def)

section \<open>Live objects\<close>

lemma slots_apart:
  assumes core: "kmem_core P st K ls av U L" and c: "c \<in> K" "s \<in> slabs_of ls c" and e: "e \<in> K" "t \<in> slabs_of ls e"
    and "s \<noteq> t" and p: "p \<in> slots s (kc_padded_size (k_cache st c))"
  shows "p \<notin> slots t (kc_padded_size (k_cache st e))"
proof
  assume q: "p \<in> slots t (kc_padded_size (k_cache st e))"
  note d = kmem_coreD [OF core]
  note as = slab_ok_aligned [OF d(2) d(5) [OF c]] and at = slab_ok_aligned [OF d(2) d(5) [OF e]]
  have "0 < kc_padded_size (k_cache st c)" "0 < kc_padded_size (k_cache st e)"
    using d(3) [OF c(1)] d(3) [OF e(1)] by (auto simp: small_cache_ok_def)
  then show False
    using tags_apart [OF as(1) at(1) \<open>s \<noteq> t\<close>, of p p] slots_inside [OF p as(2)] slots_inside [OF q at(2)] by simp
qed

lemma live_objects_upd:
  assumes "s \<in> slabs_of ls c"
  shows "live_objects st ls (av(s := xs)) c =
    (\<Union>t \<in> slabs_of ls c - {s}. slots t (kc_padded_size (k_cache st c)) - set (av t)) \<union>
    (slots s (kc_padded_size (k_cache st c)) - set xs)"
proof -
  define f where "f = (\<lambda>t. slots t (kc_padded_size (k_cache st c)) - set ((av(s := xs)) t))"
  have "slabs_of ls c = insert s (slabs_of ls c - {s})" using assms by blast
  then have "live_objects st ls (av(s := xs)) c = \<Union> (f ` insert s (slabs_of ls c - {s}))"
    unfolding live_objects_def f_def by simp
  also have "\<dots> = \<Union> (f ` (slabs_of ls c - {s})) \<union> f s" by blast
  also have "\<Union> (f ` (slabs_of ls c - {s})) =
    (\<Union>t \<in> slabs_of ls c - {s}. slots t (kc_padded_size (k_cache st c)) - set (av t))"
    unfolding f_def by (intro SUP_cong) auto
  finally show ?thesis unfolding f_def fun_upd_same .
qed

lemma live_objects_pop:
  assumes core: "kmem_core P st K ls av U L" and c: "c \<in> K" "s \<in> slabs_of ls c" and av: "av s = p # ps"
  shows "live_objects st ls (av(s := ps)) c = insert p (live_objects st ls av c)"
    and "p \<notin> live_objects st ls av c"
proof -
  let ?sz = "kc_padded_size (k_cache st c)"
  have so: "distinct (p # ps)" "p \<in> slots s ?sz"
    using kmem_coreD(5) [OF core c] av by (auto simp: slab_ok_def Let_def)
  have apart: "p \<notin> slots t ?sz" if "t \<in> slabs_of ls c - {s}" for t
    using slots_apart [OF core c c(1) _ _ so(2)] that by blast
  have old: "live_objects st ls av c = (\<Union>t \<in> slabs_of ls c - {s}. slots t ?sz - set (av t)) \<union> (slots s ?sz - set (p # ps))"
    using live_objects_upd [OF c(2), of st av "p # ps"] av by (metis fun_upd_triv)
  show "p \<notin> live_objects st ls av c" unfolding old using apart by auto
  show "live_objects st ls (av(s := ps)) c = insert p (live_objects st ls av c)"
    unfolding old live_objects_upd [OF c(2)] using so by auto
qed

lemma live_objects_push:
  assumes core: "kmem_core P st K ls av U L" and c: "c \<in> K" "s \<in> slabs_of ls c"
    and p: "p \<in> slots s (kc_padded_size (k_cache st c))"
  shows "live_objects st ls (av(s := p # av s)) c = live_objects st ls av c - {p}"
proof -
  let ?sz = "kc_padded_size (k_cache st c)"
  have apart: "p \<notin> slots t ?sz" if "t \<in> slabs_of ls c - {s}" for t
    using slots_apart [OF core c c(1) _ _ p] that by blast
  have old: "live_objects st ls av c = (\<Union>t \<in> slabs_of ls c - {s}. slots t ?sz - set (av t)) \<union> (slots s ?sz - set (av s))"
    using live_objects_upd [OF c(2), of st av "av s"] by simp
  show ?thesis unfolding old live_objects_upd [OF c(2)] using apart by auto
qed

text \<open>Objects of other caches are not concerned.\<close>

lemma live_objects_other:
  assumes core: "kmem_core P st K ls av U L" and c: "c \<in> K" "s \<in> slabs_of ls c" and e: "e \<in> K" "e \<noteq> c"
  shows "live_objects st ls (av(s := xs)) e = live_objects st ls av e"
proof -
  have "s \<notin> slabs_of ls e" using slab_owner [OF core c(1) e(1) c(2)] e(2) by blast
  then show ?thesis unfolding live_objects_def by (intro SUP_cong) auto
qed

lemma buckets_other:
  assumes core: "kmem_core P st K ls av U L" and c: "c \<in> K" "s \<in> slabs_of ls c" and e: "e \<in> K" "e \<noteq> c"
    and ls: "\<And>a. a \<in> cache_heads {e} \<Longrightarrow> ls' a = ls a" and b: "buckets_ok st ls av e"
  shows "buckets_ok st ls' (av(s := xs)) e"
proof -
  have "s \<notin> slabs_of ls e" using slab_owner [OF core c(1) e(1) c(2)] e(2) by blast
  then show ?thesis using b ls by (auto simp: buckets_ok_def Let_def slabs_of_def)
qed

lemma buckets_same: "k_cache st' = k_cache st \<Longrightarrow> buckets_ok st' ls av c = buckets_ok st ls av c"
  by (simp add: buckets_ok_def)

lemma live_same: "k_cache st' = k_cache st \<Longrightarrow> slabs_of ls' c = slabs_of ls c \<Longrightarrow>
    live_objects st' ls' av c = live_objects st ls av c"
  by (simp add: live_objects_def)

section \<open>The invariant with live objects\<close>

definition kmem_inv :: "(page_ptr \<times> nat) set \<Rightarrow> kmem \<Rightarrow> nat set \<Rightarrow> (nat \<Rightarrow> nat set) \<Rightarrow> bool" where
  "kmem_inv P st K live \<longleftrightarrow> (\<exists>ls av U L. kmem_core P st K ls av U L \<and> (\<forall>c \<in> K. buckets_ok st ls av c) \<and>
     (\<forall>c \<in> K. live c = live_objects st ls av c))"

lemma slab_slots_two:
  assumes "small_cache_ok kc"
  shows "2 \<le> SLAB_BYTES div kc_padded_size kc"
proof -
  have "0 < kc_padded_size kc" "2 * kc_padded_size kc \<le> SLAB_BYTES" using assms by (auto simp: small_cache_ok_def)
  then show ?thesis by (metis div_le_mono nonzero_mult_div_cancel_right less_numeral_extra(3))
qed

lemma take_part_ok:
  assumes core: "kmem_core P st K ls av U L" and c: "c \<in> K" and b: "\<forall>e \<in> K. buckets_ok st ls av e"
    and live: "\<forall>e \<in> K. live e = live_objects st ls av e" and ne: "ls (PartList c) \<noteq> []"
  shows "\<exists>p st'. take_part c st = Some (p, st') \<and> p \<noteq> 0 \<and> p \<notin> live c \<and> kmem_inv P st' K (live(c := insert p (live c))) \<and>
    k_mem st' = k_mem st \<and> k_cache st' = k_cache st"
proof -
  define s where "s = hd (ls (PartList c))"
  have sp: "s \<in> set (ls (PartList c))" and sc: "s \<in> slabs_of ls c" using ne by (auto simp: s_def slabs_of_def)
  have "0 < length (av s)" using b c sp by (auto simp: buckets_ok_def Let_def)
  then obtain p ps where av: "av s = p # ps" by (cases "av s") auto
  note pop = slab_pop [OF core c sc av] and lp = live_objects_pop [OF core c sc av]
  have first: "LIST_ENTRY_slab (list_first (k_links st) (PartList c)) = s"
    using list_entry_first(2) [OF core _ ne] c by (simp add: s_def)
  define st1 where "st1 = upd_slab s (\<lambda>sl. sl\<lparr>sl_free := sl_free sl - 1\<rparr>)
    (upd_slab s (\<lambda>sl. sl\<lparr>sl_free_list := k_border st (p + kc_object_size (k_cache st c))\<rparr>) st)"
  define st2 where "st2 = (if ps = [] then upd_links (\<lambda>h. list_add (SlabLink s) (FullList c) (list_del (SlabLink s) h)) st1 else st1)"
  define ls' where "ls' = (if ps = [] then ls(PartList c := remove1 s (ls (PartList c)), FullList c := s # ls (FullList c)) else ls)"
  have tp: "take_part c st = Some (p, st2)"
  proof -
    have "sl_free (k_slab st1 s) = 0 \<longleftrightarrow> ps = []" using pop(3) by (simp add: st1_def)
    then show ?thesis
      unfolding take_part_def first Let_def pop(1) bind.simps prod.case st1_def [symmetric] st2_def by simp
  qed
  have core1: "kmem_core P st1 K ls (av(s := ps)) U L" using pop(2) by (simp add: st1_def)
  have core2: "kmem_core P st2 K ls' (av(s := ps)) U L" and slabs: "slabs_of ls' d = slabs_of ls d" for d
    using slab_move [OF core1 c, of "PartList c" "FullList c" s] core1 sp by (auto simp: st2_def ls'_def)
  have kc: "k_cache st2 = k_cache st" "k_mem st2 = k_mem st" by (simp_all add: st2_def st1_def)
  have bucket: "buckets_ok st ls' (av(s := ps)) e" if e: "e \<in> K" for e
  proof (cases "e = c")
    case True
    have sf: "s \<notin> set (ls (FreeList c))" "s \<notin> set (ls (FullList c))"
      using slab_in_one_list [OF core c c, of "PartList c" _ s] sp by auto
    have "distinct (ls (PartList c))" by (rule slab_lists_distinct [OF core c]) simp
    moreover have "length ps < SLAB_BYTES div kc_padded_size (k_cache st c)"
    proof -
      have "length (av s) < SLAB_BYTES div kc_padded_size (k_cache st c)"
        using b c sp by (simp add: buckets_ok_def Let_def)
      then show ?thesis by (simp add: av)
    qed
    ultimately show ?thesis using b c sf av sp True by (auto simp: buckets_ok_def Let_def ls'_def)
  next
    case False
    then show ?thesis using b e by (intro buckets_other [OF core c sc e False]) (auto simp: ls'_def)
  qed
  have "live_objects st2 ls' (av(s := ps)) e = (live(c := insert p (live c))) e" if "e \<in> K" for e
    using live that c lp(1) live_objects_other [OF core c sc that, of ps] live_same [OF kc(1) slabs]
    by auto
  then have "kmem_inv P st2 K (live(c := insert p (live c)))"
    unfolding kmem_inv_def using core2 bucket buckets_same [OF kc(1)] by (metis (no_types, lifting))
  moreover have "p \<noteq> 0"
  proof -
    have "p \<in> slots s (kc_padded_size (k_cache st c))"
      using kmem_coreD(5) [OF core c sc] av by (auto simp: slab_ok_def Let_def)
    then show ?thesis
      using slots_inside(1) slab_ok_aligned(3) [OF kmem_coreD(2) [OF core] kmem_coreD(5) [OF core c sc]] by fastforce
  qed
  ultimately show ?thesis using tp lp(2) live c kc by auto
qed

lemma take_free_ok:
  assumes core: "kmem_core P st K ls av U L" and c: "c \<in> K" and b: "\<forall>e \<in> K. buckets_ok st ls av e"
    and live: "\<forall>e \<in> K. live e = live_objects st ls av e" and ne: "ls (FreeList c) \<noteq> []"
  shows "\<exists>p st'. take_free c st = Some (p, st') \<and> p \<noteq> 0 \<and> p \<notin> live c \<and> kmem_inv P st' K (live(c := insert p (live c))) \<and>
    k_mem st' = k_mem st \<and> k_cache st' = k_cache st"
proof -
  define s where "s = hd (ls (FreeList c))"
  have sp: "s \<in> set (ls (FreeList c))" and sc: "s \<in> slabs_of ls c" using ne by (auto simp: s_def slabs_of_def)
  have two: "2 \<le> SLAB_BYTES div kc_padded_size (k_cache st c)"
    by (rule slab_slots_two [OF kmem_coreD(3) [OF core c]])
  have len: "length (av s) = SLAB_BYTES div kc_padded_size (k_cache st c)"
    using b c sp by (simp add: buckets_ok_def Let_def)
  then obtain p ps where av: "av s = p # ps" using two by (cases "av s") auto
  note pop = slab_pop [OF core c sc av] and lp = live_objects_pop [OF core c sc av]
  have first: "LIST_ENTRY_slab (list_first (k_links st) (FreeList c)) = s"
    using list_entry_first(2) [OF core _ ne] c by (simp add: s_def)
  define st1 where "st1 = upd_slab s (\<lambda>sl. sl\<lparr>sl_free := sl_free sl - 1\<rparr>)
    (upd_slab s (\<lambda>sl. sl\<lparr>sl_free_list := k_border st (p + kc_object_size (k_cache st c))\<rparr>) st)"
  define st2 where "st2 = upd_links (\<lambda>h. list_add (SlabLink s) (PartList c) (list_del (SlabLink s) h)) st1"
  define ls' where "ls' = ls(FreeList c := remove1 s (ls (FreeList c)), PartList c := s # ls (PartList c))"
  have tp: "take_free c st = Some (p, st2)"
    unfolding take_free_def first Let_def pop(1) bind.simps prod.case st1_def [symmetric] st2_def by simp
  have core1: "kmem_core P st1 K ls (av(s := ps)) U L" using pop(2) by (simp add: st1_def)
  have core2: "kmem_core P st2 K ls' (av(s := ps)) U L" and slabs: "slabs_of ls' d = slabs_of ls d" for d
    using slab_move [OF core1 c, of "FreeList c" "PartList c" s] sp by (auto simp: st2_def ls'_def)
  have kc: "k_cache st2 = k_cache st" "k_mem st2 = k_mem st" by (simp_all add: st2_def st1_def)
  have bucket: "buckets_ok st ls' (av(s := ps)) e" if e: "e \<in> K" for e
  proof (cases "e = c")
    case True
    have sf: "s \<notin> set (ls (PartList c))" "s \<notin> set (ls (FullList c))"
      using slab_in_one_list [OF core c c, of "FreeList c" _ s] sp by auto
    have "distinct (ls (FreeList c))" by (rule slab_lists_distinct [OF core c]) simp
    moreover have "0 < length ps" "length ps < SLAB_BYTES div kc_padded_size (k_cache st c)"
      using len two av by auto
    ultimately show ?thesis using b c sf True by (auto simp: buckets_ok_def Let_def ls'_def)
  next
    case False
    then show ?thesis using b e by (intro buckets_other [OF core c sc e False]) (auto simp: ls'_def)
  qed
  have "live_objects st2 ls' (av(s := ps)) e = (live(c := insert p (live c))) e" if "e \<in> K" for e
    using live that c lp(1) live_objects_other [OF core c sc that, of ps] live_same [OF kc(1) slabs]
    by auto
  then have "kmem_inv P st2 K (live(c := insert p (live c)))"
    unfolding kmem_inv_def using core2 bucket buckets_same [OF kc(1)] by (metis (no_types, lifting))
  moreover have "p \<noteq> 0"
  proof -
    have "p \<in> slots s (kc_padded_size (k_cache st c))"
      using kmem_coreD(5) [OF core c sc] av by (auto simp: slab_ok_def Let_def)
    then show ?thesis
      using slots_inside(1) slab_ok_aligned(3) [OF kmem_coreD(2) [OF core] kmem_coreD(5) [OF core c sc]] by fastforce
  qed
  ultimately show ?thesis using tp lp(2) live c kc by auto
qed

section \<open>Releasing an object\<close>

lemma get_slab_ok:
  assumes core: "kmem_core P st K ls av U L" and c: "c \<in> K" "s \<in> slabs_of ls c"
    and p: "p \<in> slots s (kc_padded_size (k_cache st c))"
  shows "kmem_get_slab p st = Some s"
proof -
  note d = kmem_coreD [OF core]
  have so: "slab_ok st c s (av s)" by (rule d(5) [OF c])
  have v: "valid_page (k_mem st) (sl_pages (k_slab st s))"
    and s: "unat (page_addr (k_mem st) (sl_pages (k_slab st s))) + SLAB_BYTES = s"
    and u: "unat (pg_u (page_of (k_mem st) (sl_pages (k_slab st s)))) = s"
    using so unfolding slab_ok_def Let_def by blast+
  have "0 < kc_padded_size (k_cache st c)" using d(3) [OF c(1)] by (auto simp: small_cache_ok_def)
  then have "s - SLAB_BYTES \<le> p" "p < s" using slots_inside [OF p slab_ok_aligned(2) [OF d(2) so]] by auto
  then obtain i where i: "p = unat (page_addr (k_mem st) (sl_pages (k_slab st s))) + i" "i < 4096"
    using s that [of "p - unat (page_addr (k_mem st) (sl_pages (k_slab st s)))"] by (simp add: SLAB_BYTES_def)
  then show ?thesis using addr_to_page [OF d(2) v i(2)] u by (simp add: kmem_get_slab_def)
qed

lemma bucket_of:
  assumes "buckets_ok st ls av c" and "s \<in> slabs_of ls c" and "SLAB_BYTES div kc_padded_size (k_cache st c) = n" "0 < n"
  shows "av s = [] \<Longrightarrow> s \<in> set (ls (FullList c))" and "length (av s) = n \<Longrightarrow> s \<in> set (ls (FreeList c))"
    and "0 < length (av s) \<Longrightarrow> length (av s) < n \<Longrightarrow> s \<in> set (ls (PartList c))"
  using assms by (auto simp: buckets_ok_def slabs_of_def Let_def)

lemma free_room:
  assumes core: "kmem_core P st K ls av U L" and c: "c \<in> K" "s \<in> slabs_of ls c"
    and p: "p \<in> slots s (kc_padded_size (k_cache st c))" "p \<notin> set (av s)"
  shows "length (av s) < SLAB_BYTES div kc_padded_size (k_cache st c)"
proof -
  let ?sl = "slots s (kc_padded_size (k_cache st c))"
  have d: "distinct (av s)" "set (av s) \<subseteq> ?sl" using kmem_coreD(5) [OF core c] by (auto simp: slab_ok_def Let_def)
  have "finite ?sl" by (simp add: slots_def)
  moreover have "set (av s) \<subset> ?sl" using d(2) p by blast
  ultimately have "card (set (av s)) < card ?sl" by (rule psubset_card_mono)
  also have "card ?sl \<le> SLAB_BYTES div kc_padded_size (k_cache st c)"
    unfolding slots_def by (metis card_image_le card_lessThan finite_lessThan)
  finally show ?thesis using distinct_card [OF d(1)] by simp
qed

text \<open>After a release the slab is on the list its number of free objects asks for.\<close>

lemma rebucket_freed:
  assumes core: "kmem_core P st K ls av U L" and core1: "kmem_core P st1 K ls (av(s := p # av s)) U L"
    and kc: "k_cache st0 = k_cache st" and c: "c \<in> K" and sc: "s \<in> slabs_of ls c"
    and b: "\<forall>e \<in> K. buckets_ok st ls av e" and len: "length (av s) < SLAB_BYTES div kc_padded_size (k_cache st c)"
  shows "\<exists>ls'. kmem_core P (if Suc (length (av s)) = SLAB_BYTES div kc_padded_size (k_cache st c)
      then upd_links (\<lambda>h. list_add (SlabLink s) (FreeList c) (list_del (SlabLink s) h)) st1
      else if Suc (length (av s)) = 1
      then upd_links (\<lambda>h. list_add (SlabLink s) (PartList c) (list_del (SlabLink s) h)) st1 else st1)
        K ls' (av(s := p # av s)) U L \<and>
    (\<forall>e. slabs_of ls' e = slabs_of ls e) \<and> (\<forall>e \<in> K. buckets_ok st ls' (av(s := p # av s)) e)"
proof -
  let ?n = "SLAB_BYTES div kc_padded_size (k_cache st c)" and ?av = "av(s := p # av s)"
  have two: "2 \<le> ?n" by (rule slab_slots_two [OF kmem_coreD(3) [OF core c]])
  then have n0: "0 < ?n" by simp
  note bo = bucket_of [OF b [rule_format, OF c] sc refl n0]
  have all: "\<forall>e \<in> K. buckets_ok st ls' ?av e"
    if "buckets_ok st ls' ?av c" "\<forall>a. a \<notin> cache_heads {c} \<longrightarrow> ls' a = ls a" for ls'
  proof
    fix e assume e: "e \<in> K"
    show "buckets_ok st ls' ?av e"
    proof (cases "e = c")
      case False
      have "ls' a = ls a" if "a \<in> cache_heads {e}" for a
        using that \<open>\<forall>a. a \<notin> cache_heads {c} \<longrightarrow> ls' a = ls a\<close> False by auto
      then show ?thesis using buckets_other [OF core c sc e False] b e by blast
    qed (use that in simp)
  qed
  have dist: "distinct (ls (PartList c))" "distinct (ls (FullList c))"
    by (rule slab_lists_distinct [OF core c]; simp)+
  have one: "x = y" if "x \<in> cache_heads {c}" "y \<in> cache_heads {c}" "s \<in> set (ls x)" "s \<in> set (ls y)" for x y
    by (rule slab_in_one_list [OF core c c that])
  consider (free) "Suc (length (av s)) = ?n" | (part) "Suc (length (av s)) \<noteq> ?n" "av s = []"
    | (stay) "Suc (length (av s)) \<noteq> ?n" "av s \<noteq> []" by blast
  then show ?thesis
  proof cases
    case free
    let ?ls = "ls(PartList c := remove1 s (ls (PartList c)), FreeList c := s # ls (FreeList c))"
    have sp: "s \<in> set (ls (PartList c))" using bo(3) free two by (metis One_nat_def Suc_1 Suc_le_lessD lessI Suc_less_eq)
    note mv = slab_move [OF core1 c, of "PartList c" "FreeList c" s]
    have "s \<notin> set (ls (FreeList c))" "s \<notin> set (ls (FullList c))"
      using one [of "PartList c" "FreeList c"] one [of "PartList c" "FullList c"] sp by auto
    then have "buckets_ok st ?ls ?av c"
      using b c dist free by (auto simp: buckets_ok_def Let_def)
    then have "\<forall>e \<in> K. buckets_ok st ?ls ?av e" by (rule all) simp
    then show ?thesis using mv sp free by (intro exI [of _ ?ls]) simp
  next
    case part
    let ?ls = "ls(FullList c := remove1 s (ls (FullList c)), PartList c := s # ls (PartList c))"
    have sp: "s \<in> set (ls (FullList c))" using bo(1) part by simp
    note mv = slab_move [OF core1 c, of "FullList c" "PartList c" s]
    have "s \<notin> set (ls (FreeList c))" "s \<notin> set (ls (PartList c))"
      using one [of "FullList c" "FreeList c"] one [of "FullList c" "PartList c"] sp by auto
    then have "buckets_ok st ?ls ?av c"
      using b c dist part two by (auto simp: buckets_ok_def Let_def)
    then have "\<forall>e \<in> K. buckets_ok st ?ls ?av e" by (rule all) simp
    then show ?thesis using mv sp part by (intro exI [of _ ?ls]) simp
  next
    case stay
    then have sp: "s \<in> set (ls (PartList c))" using bo(3) len by simp
    have "s \<notin> set (ls (FreeList c))" "s \<notin> set (ls (FullList c))"
      using one [of "PartList c" "FreeList c"] one [of "PartList c" "FullList c"] sp by auto
    then have "buckets_ok st ls ?av c" using b c stay len by (auto simp: buckets_ok_def Let_def)
    then have "\<forall>e \<in> K. buckets_ok st ls ?av e" by (rule all) simp
    then show ?thesis using core1 stay by (intro exI [of _ ls]) simp
  qed
qed

lemma kmem_cache_free_ok:
  assumes inv: "kmem_inv P st K live" and c: "c \<in> K" and p: "p \<in> live c"
  shows "\<exists>st'. kmem_cache_free c p st = Some st' \<and> kmem_inv P st' K (live(c := live c - {p})) \<and>
    k_mem st' = k_mem st"
proof -
  obtain ls av U L where core: "kmem_core P st K ls av U L" and b: "\<forall>e \<in> K. buckets_ok st ls av e"
    and live: "\<forall>e \<in> K. live e = live_objects st ls av e"
    using inv by (auto simp: kmem_inv_def)
  obtain s where sc: "s \<in> slabs_of ls c" and ps: "p \<in> slots s (kc_padded_size (k_cache st c))" "p \<notin> set (av s)"
    using p live c by (auto simp: live_objects_def)
  let ?n = "SLAB_BYTES div kc_padded_size (k_cache st c)"
  define fl where "fl = snd (spin_lock_irqsave (ms_rflags (k_mem st)))"
  define en where "en = fst (spin_lock_irqsave (ms_rflags (k_mem st)))"
  define st0 where "st0 = set_rflags fl st"
  have core0: "kmem_core P st0 K ls av U L" and kc0: "k_cache st0 = k_cache st" using core by (simp_all add: st0_def)
  define st1 where "st1 = upd_slab s (\<lambda>sl. sl\<lparr>sl_free := sl_free sl + 1\<rparr>) (kmem_small_slab_free c s p st0)"
  note push = slab_push [OF core0 c sc ps(1) [folded kc0] ps(2), folded st1_def]
  define av' where "av' = av(s := p # av s)"
  define st2 where "st2 = (if Suc (length (av s)) = ?n
      then upd_links (\<lambda>h. list_add (SlabLink s) (FreeList c) (list_del (SlabLink s) h)) st1
      else if Suc (length (av s)) = 1
      then upd_links (\<lambda>h. list_add (SlabLink s) (PartList c) (list_del (SlabLink s) h)) st1 else st1)"
  have ret: "kmem_cache_free c p st = Some (kmem_unlock en st2)"
    unfolding kmem_cache_free_def get_slab_ok [OF core c sc ps(1)] kmem_lock_eq en_def [symmetric]
      fl_def [symmetric] st0_def [symmetric] Let_def prod.case push(1) bind.simps st1_def [symmetric]
      push(3,6) kc0 st2_def ..
  have fields: "k_cache st2 = k_cache st" "k_mem st2 = k_mem st0"
    using push(4,5) kc0 by (auto simp: st2_def)
  then have irq: "k_mem (kmem_unlock en st2) = k_mem st"
    by (simp add: kmem_unlock_eq st0_def en_def fl_def)
  obtain ls' where ls': "kmem_core P st2 K ls' av' U L" "\<And>e. slabs_of ls' e = slabs_of ls e"
      "\<forall>e \<in> K. buckets_ok st ls' av' e"
    using rebucket_freed [OF core push(2) kc0 c sc b free_room [OF core c sc ps]]
    unfolding av'_def st2_def by blast
  have "live_objects (kmem_unlock en st2) ls' av' e = (live(c := live c - {p})) e" if "e \<in> K" for e
    using live that c live_objects_push [OF core c sc ps(1)] live_objects_other [OF core c sc that, of "p # av s"]
      live_same [of "kmem_unlock en st2" st ls' e ls av'] ls'(2) fields(1) by (auto simp: av'_def kmem_unlock_eq)
  moreover have "buckets_ok (kmem_unlock en st2) ls' av' e" if "e \<in> K" for e
    using ls'(3) that buckets_same [of "kmem_unlock en st2" st] fields(1) by (simp add: kmem_unlock_eq)
  moreover have "kmem_core P (kmem_unlock en st2) K ls' av' U L" using ls'(1) by (simp add: kmem_unlock_eq)
  ultimately have "kmem_inv P (kmem_unlock en st2) K (live(c := live c - {p}))"
    unfolding kmem_inv_def by (metis (no_types, lifting))
  then show ?thesis using ret irq by blast
qed

section \<open>Growing a cache\<close>

definition slab_frame :: "nat \<Rightarrow> kmem \<Rightarrow> kmem \<Rightarrow> bool" where
  "slab_frame s st st' \<longleftrightarrow> k_mem st' = k_mem st \<and> k_links st' = k_links st \<and> k_cache st' = k_cache st \<and>
     (\<forall>t. t \<noteq> s \<longrightarrow> k_slab st' t = k_slab st t) \<and>
     (\<forall>x. \<not> (s - SLAB_BYTES \<le> x \<and> x < s) \<longrightarrow> k_border st' x = k_border st x) \<and>
     sl_ops (k_slab st' s) = sl_ops (k_slab st s)"

lemma slab_frame_trans: "slab_frame s a b \<Longrightarrow> slab_frame s b c \<Longrightarrow> slab_frame s a c"
  by (auto simp: slab_frame_def)

definition chain_ok :: "kmem \<Rightarrow> nat \<Rightarrow> nat \<Rightarrow> nat list \<Rightarrow> bool" where
  "chain_ok st c s av \<longleftrightarrow>
     bchain (k_border st) (sl_free_list (k_slab st s)) (map (\<lambda>p. p + kc_object_size (k_cache st c)) av) \<and>
     sl_free (k_slab st s) = length av \<and> sl_total (k_slab st s) = length av"

lemma fill_step:
  assumes ch: "chain_ok st c s av" and p: "p \<notin> set av" "0 < p" "s - SLAB_BYTES \<le> p" "p + kc_object_size (k_cache st c) < s"
  defines "st' \<equiv> upd_slab s (\<lambda>sl. sl\<lparr>sl_total := sl_total sl + 1, sl_free := sl_free sl + 1\<rparr>) (kmem_small_slab_free c s p st)"
  shows "chain_ok st' c s (p # av)" and "slab_frame s st st'"
proof -
  let ?o = "kc_object_size (k_cache st c)"
  have f: "k_mem st' = k_mem st" "k_links st' = k_links st" "k_cache st' = k_cache st"
    "k_border st' = (k_border st)(p + ?o := sl_free_list (k_slab st s))"
    "k_slab st' = (k_slab st)(s := (k_slab st s)\<lparr>sl_free_list := p + ?o, sl_total := sl_total (k_slab st s) + 1,
      sl_free := sl_free (k_slab st s) + 1\<rparr>)"
    by (simp_all add: st'_def kmem_small_slab_free_def Let_def)
  have "bchain (k_border st') (sl_free_list (k_slab st s)) (map (\<lambda>q. q + ?o) av)"
    by (rule bchain_cong [of "k_border st"]) (use ch p(1) in \<open>auto simp: chain_ok_def f\<close>)
  then show "chain_ok st' c s (p # av)" using ch p(2) by (simp add: chain_ok_def f)
  show "slab_frame s st st'" using p(3,4) by (auto simp: slab_frame_def f)
qed

definition all_slots :: "nat \<Rightarrow> nat \<Rightarrow> nat \<Rightarrow> nat list" where
  "all_slots b sz j = rev (map (\<lambda>i. b + i * sz) [0..<j])"

lemma all_slots_facts:
  assumes "0 < sz"
  shows "length (all_slots b sz j) = j" and "distinct (all_slots b sz j)"
    and "set (all_slots b sz j) = (\<lambda>i. b + i * sz) ` {..<j}"
  using assms by (auto simp: all_slots_def distinct_map inj_on_def atLeast0LessThan)

lemma small_slab_fill_ok:
  assumes "chain_ok st c s (all_slots b sz j)" and "s = b + SLAB_BYTES" and "0 < b"
    and "kc_object_size (k_cache st c) + 8 \<le> sz" and "j \<le> SLAB_BYTES div sz"
  shows "\<exists>st'. small_slab_fill c s sz (b + j * sz) st = Some st' \<and>
    chain_ok st' c s (all_slots b sz (SLAB_BYTES div sz)) \<and> slab_frame s st st'"
  using assms
proof (induction "SLAB_BYTES div sz - j" arbitrary: j st)
  case 0
  then have j: "j = SLAB_BYTES div sz" and sz: "0 < sz" by auto
  have "SLAB_BYTES < (SLAB_BYTES div sz) * sz + sz" using dividend_less_div_times [OF sz] by (simp add: add.commute)
  then have "\<not> b + j * sz + sz \<le> s" using 0 j by simp
  then show ?case using 0 j by (subst small_slab_fill.simps) (auto simp: slab_frame_def)
next
  case (Suc x)
  have sz: "0 < sz" using Suc.prems(4) by simp
  let ?p = "b + j * sz"
  have "j < SLAB_BYTES div sz" using Suc.hyps(2) by simp
  then have "Suc j * sz \<le> SLAB_BYTES" using sz by (simp add: less_eq_div_iff_mult_less_eq flip: Suc_le_eq)
  then have in_range: "?p + sz \<le> s" using Suc.prems(2) by simp
  define st1 where "st1 = upd_slab s (\<lambda>sl. sl\<lparr>sl_total := sl_total sl + 1, sl_free := sl_free sl + 1\<rparr>)
    (kmem_small_slab_free c s ?p st)"
  have "?p \<notin> set (all_slots b sz j)" using sz by (auto simp: all_slots_facts)
  note step = fill_step [OF Suc.prems(1) this, folded st1_def]
  have s1: "chain_ok st1 c s (?p # all_slots b sz j)" "slab_frame s st st1"
    using step Suc.prems(2-4) in_range by simp_all
  have "?p # all_slots b sz j = all_slots b sz (Suc j)" by (simp add: all_slots_def)
  with s1 have ch1: "chain_ok st1 c s (all_slots b sz (Suc j))" by simp
  have "k_cache st1 = k_cache st" using s1(2) by (simp add: slab_frame_def)
  moreover have "x = SLAB_BYTES div sz - Suc j" using Suc.hyps(2) by simp
  ultimately obtain st' where st': "small_slab_fill c s sz (b + Suc j * sz) st1 = Some st'"
    "chain_ok st' c s (all_slots b sz (SLAB_BYTES div sz))" "slab_frame s st1 st'"
    using Suc.hyps(1) [of "Suc j" st1] Suc.prems ch1 \<open>j < SLAB_BYTES div sz\<close> by auto
  have "small_slab_fill c s sz ?p st = small_slab_fill c s sz (b + Suc j * sz) st1"
    using in_range by (subst small_slab_fill.simps) (simp add: st1_def Let_def add.assoc add.commute [of sz])
  then show ?case using st' slab_frame_trans [OF s1(2)] by auto
qed

lemma kmem_small_slab_create_ok:
  assumes inv: "mem_inv (k_mem st) U L" and v: "valid_page (k_mem st) pg" and kc: "small_cache_ok (k_cache st c)"
  defines "b \<equiv> unat (page_addr (k_mem st) pg)"
  shows "\<exists>st'. kmem_small_slab_create c pg st = Some (b + SLAB_BYTES, st') \<and> slab_frame (b + SLAB_BYTES) (upd_slab (b + SLAB_BYTES)
      (\<lambda>sl. sl\<lparr>sl_ops := Small_slab_ops, sl_total := 0, sl_free := 0, sl_free_list := 0\<rparr>) st) st' \<and>
    chain_ok st' c (b + SLAB_BYTES) (all_slots b (kc_padded_size (k_cache st c)) (SLAB_BYTES div kc_padded_size (k_cache st c)))"
proof -
  let ?s = "b + SLAB_BYTES" and ?sz = "kc_padded_size (k_cache st c)"
  define st0 where "st0 = upd_slab ?s (\<lambda>sl. sl\<lparr>sl_ops := Small_slab_ops, sl_total := 0, sl_free := 0, sl_free_list := 0\<rparr>) st"
  have "chain_ok st0 c ?s (all_slots b ?sz 0)" by (simp add: chain_ok_def st0_def all_slots_def)
  moreover have "kc_object_size (k_cache st0 c) + 8 \<le> ?sz" using kc by (simp add: st0_def small_cache_ok_def)
  ultimately obtain st' where st': "small_slab_fill c ?s ?sz b st0 = Some st'"
    "chain_ok st' c ?s (all_slots b ?sz (SLAB_BYTES div ?sz))" "slab_frame ?s st0 st'"
    using small_slab_fill_ok [of st0 c ?s b ?sz 0] page_addr_nonzero [OF inv v] by (auto simp: b_def)
  have off: "2 ^ PAGE_BITS * push_bit (kc_order (k_cache st c)) 1 - sizeof_small_slab = SLAB_BYTES"
    using kc by (simp add: small_cache_ok_def PAGE_BITS_def sizeof_small_slab_def SLAB_BYTES_def)
  have "kmem_small_slab_create c pg st = Some (?s, st')"
    unfolding kmem_small_slab_create_def Let_def off b_def [symmetric] st0_def [symmetric]
    using st'(1) by (simp add: st0_def)
  then show ?thesis using st'(2,3) unfolding st0_def by blast
qed

lemma page_addr_frame:
  assumes "mem_inv ms U L" "mem_inv ms' U' L'" and "same_frame ms ms'" and "valid_page ms p"
  shows "valid_page ms' p" and "unat (page_addr ms' p) = unat (page_addr ms p)"
proof -
  show v: "valid_page ms' p" using assms(3,4) by (auto simp: valid_page_def same_frame_def same_shape_def)
  have "mn_begin_pfn (ms_nodes ms' ! fst p) = mn_begin_pfn (ms_nodes ms ! fst p)"
    using assms(3,4) by (auto simp: valid_page_def same_frame_def same_shape_def)
  then show "unat (page_addr ms' p) = unat (page_addr ms p)"
    using page_addr_unat [OF assms(1,4)] page_addr_unat [OF assms(2) v] by simp
qed

text \<open>The page of a slab stays what it is when other frames are allocated.\<close>

lemma slab_ok_frame:
  assumes so: "slab_ok st e t xs" and inv: "mem_inv (k_mem st) U L" "mem_inv (k_mem st') U' L'"
    and fr: "same_frame (k_mem st) (k_mem st')" and kc: "small_cache_ok (k_cache st e)" "k_cache st' e = k_cache st e"
    and sl: "k_slab st' t = k_slab st t"
    and pg: "page_of (k_mem st') (sl_pages (k_slab st t)) = page_of (k_mem st) (sl_pages (k_slab st t))"
    and s: "s \<noteq> t" "s mod 4096 = SLAB_BYTES"
    and border: "\<And>x. \<not> (s - SLAB_BYTES \<le> x \<and> x < s) \<Longrightarrow> k_border st' x = k_border st x"
  shows "slab_ok st' e t xs"
proof -
  have v: "valid_page (k_mem st) (sl_pages (k_slab st t))" using so unfolding slab_ok_def Let_def by blast
  have "bchain (k_border st') (sl_free_list (k_slab st t)) (map (\<lambda>p. p + kc_object_size (k_cache st e)) xs)"
  proof (rule bchain_cong)
    show "bchain (k_border st) (sl_free_list (k_slab st t)) (map (\<lambda>p. p + kc_object_size (k_cache st e)) xs)"
      using so unfolding slab_ok_def Let_def by blast
    fix y assume "y \<in> set (map (\<lambda>p. p + kc_object_size (k_cache st e)) xs)"
    then obtain p where p: "p \<in> set xs" "y = p + kc_object_size (k_cache st e)" by auto
    then have "p \<in> slots t (kc_padded_size (k_cache st e))" using so unfolding slab_ok_def Let_def by blast
    note ti = tag_inside [OF this slab_ok_aligned(2) [OF inv(1) so] kc(1)]
    show "k_border st' y = k_border st y"
      unfolding p(2) using tags_apart [OF s(2) slab_ok_aligned(1) [OF inv(1) so] s(1) _ _ ti]
      by (intro border) blast
  qed
  then show ?thesis
    using so page_addr_frame [OF inv fr v] pg unfolding slab_ok_def Let_def kc(2) sl by simp
qed

lemma set_page_slab_ok:
  assumes "mem_ready ms U L" and "pg \<notin> U" and v: "valid_page ms pg"
  shows "mem_ready (set_page_slab pg s 0 ms) U L" and "same_frame ms (set_page_slab pg s 0 ms)"
    and "q \<noteq> pg \<Longrightarrow> page_of (set_page_slab pg s 0 ms) q = page_of ms q"
    and "pg_u (page_of (set_page_slab pg s 0 ms) pg) = of_nat s"
proof -
  have e: "set_page_slab pg s 0 ms = node_upd (fst pg) (page_upd (snd pg) (\<lambda>p. p\<lparr>pg_u := of_nat s\<rparr>) (ms_nodes ms ! fst pg)) ms"
    by (simp add: set_page_slab_def)
  have "(fst pg, snd pg) \<notin> U" using assms(2) by simp
  from mem_ready_set_u [OF assms(1) this e]
  show "mem_ready (set_page_slab pg s 0 ms) U L" "same_frame ms (set_page_slab pg s 0 ms)" .
  show "pg_u (page_of (set_page_slab pg s 0 ms) pg) = of_nat s"
    using v by (simp add: e page_of_def valid_page_def)
  show "page_of (set_page_slab pg s 0 ms) q = page_of ms q" if "q \<noteq> pg"
  proof (cases "fst q = fst pg")
    case True
    then have "snd q \<noteq> snd pg" using that by (auto simp: prod_eq_iff)
    then show ?thesis using v True by (simp add: e page_of_def valid_page_def)
  next
    case False
    then show ?thesis by (simp add: e page_of_def)
  qed
qed

lemma unat_slab_addr:
  assumes "mem_inv ms U L" and "valid_page ms pg"
  shows "unat (of_nat (unat (page_addr ms pg) + SLAB_BYTES) :: u64) = unat (page_addr ms pg) + SLAB_BYTES"
proof (rule unat_of_nat64)
  have "frame_no ms pg < 2 ^ 24" by (rule valid_page_facts(6) [OF assms])
  then show "unat (page_addr ms pg) + SLAB_BYTES < 2 ^ 64"
    unfolding page_addr_unat [OF assms] by (simp add: SLAB_BYTES_def HIGH_BASE_def)
qed

text \<open>The pages that clients hold keep their descriptors.\<close>

definition pages_kept :: "(page_ptr \<times> nat) set \<Rightarrow> mem_state \<Rightarrow> mem_state \<Rightarrow> bool" where
  "pages_kept P m m' \<longleftrightarrow> same_frame m m' \<and> (\<forall>q. (q, 0) \<in> P \<longrightarrow> page_of m' q = page_of m q)"

lemma pages_kept_refl [simp]: "pages_kept P m m"
  by (simp add: pages_kept_def)

text \<open>The state after \<^verbatim>\<open>kmem_cache_grow\<close> took a page and built a slab in it.\<close>

lemma kmem_cache_grow_ok:
  assumes core: "kmem_core P st K ls av U L" and c: "c \<in> K"
    and create: "\<And>pg st'. k_cache st' = k_cache st \<Longrightarrow> create c pg st' = kmem_small_slab_create c pg st'"
  shows "kmem_cache_grow create c st = Some (False, st) \<and> out_of_pages (k_mem st) \<or>
    (\<exists>s st' U' L'. kmem_cache_grow create c st = Some (True, st') \<and>
      kmem_core P st' K (ls(FreeList c := s # ls (FreeList c)))
        (av(s := all_slots (s - SLAB_BYTES) (kc_padded_size (k_cache st c)) (SLAB_BYTES div kc_padded_size (k_cache st c)))) U' L' \<and>
      (\<forall>e \<in> K. s \<notin> slabs_of ls e) \<and> k_cache st' = k_cache st \<and>
      ms_rflags (k_mem st') = ms_rflags (k_mem st) \<and> SLAB_BYTES \<le> s \<and> pages_kept P (k_mem st) (k_mem st'))"
proof -
  note d = kmem_coreD [OF core]
  have kc: "small_cache_ok (k_cache st c)" by (rule d(3) [OF c])
  then have ord: "kc_order (k_cache st c) = 0" by (simp add: small_cache_ok_def)
  have k0: "0 < BUDDY_ORDERS" by (simp add: BUDDY_ORDERS_def)
  obtain r m where al: "alloc_pages_type 0 NT_HIGH (k_mem st) = Some (r, m)"
    "case r of None \<Rightarrow> m = k_mem st \<and> (\<forall>n \<in> set (tried_nodes NT_HIGH (k_mem st)). \<forall>q. 2 ^ 0 dvd q \<longrightarrow> \<not> page_extent ((n, q), 0) \<subseteq> U)
     | Some p \<Rightarrow> fst p \<in> set (tried_nodes NT_HIGH (k_mem st)) \<and> (p, 0) \<notin> L \<union> P \<and> page_extent (p, 0) \<subseteq> U \<and>
         mem_ready m (U - page_extent (p, 0)) (insert (p, 0) (L \<union> P)) \<and> ms_rflags m = ms_rflags (k_mem st)"
    using alloc_pages_type_ok [OF d(1) k0, of NT_HIGH] by blast
  show ?thesis
  proof (cases r)
    case None
    then have "kmem_cache_grow create c st = Some (False, st)"
      using al by (simp add: kmem_cache_grow_def ord alloc_pages_def Let_def)
    then show ?thesis using out_of_pagesI al(1) None by blast
  next
    case (Some pg)
    define U' where "U' = U - page_extent (pg, 0)"
    define L' where "L' = insert (pg, 0) L"
    have new: "(pg, 0) \<notin> L" "page_extent (pg, 0) \<subseteq> U" "(pg, 0) \<notin> P" and rdy: "mem_ready m U' (L' \<union> P)" and irq: "ms_rflags m = ms_rflags (k_mem st)"
      using al(2) Some by (auto simp: U'_def L'_def)
    then have inv1: "mem_inv m U' (L' \<union> P)" by (simp add: mem_ready_def)
    have pgU: "pg \<in> U" "pg \<notin> U'" using new by (auto simp: U'_def page_extent_def blk_def image_iff)
    have v: "valid_page m pg"
      using live_valid_page(1) [OF inv1, of "fst pg" "snd pg" 0 0] by (simp add: L'_def)
    note af = alloc_pages_type_frame [OF d(1) k0 al(1)]
    define b where "b = unat (page_addr m pg)"
    define s where "s = b + SLAB_BYTES"
    let ?sz = "kc_padded_size (k_cache st c)"
    let ?xs = "all_slots b ?sz (SLAB_BYTES div ?sz)"
    define st1 where "st1 = st\<lparr>k_mem := m\<rparr>"
    have kc1: "k_cache st1 = k_cache st" "k_mem st1 = m" "k_slab st1 = k_slab st" "k_border st1 = k_border st" "k_links st1 = k_links st"
      by (simp_all add: st1_def)
    obtain st2 where st2: "kmem_small_slab_create c pg st1 = Some (s, st2)"
      "slab_frame s (upd_slab s (\<lambda>sl. sl\<lparr>sl_ops := Small_slab_ops, sl_total := 0, sl_free := 0, sl_free_list := 0\<rparr>) st1) st2"
      "chain_ok st2 c s ?xs"
      using kmem_small_slab_create_ok [of st1 U' "L' \<union> P" pg c] inv1 v kc by (auto simp: kc1 b_def s_def)
    define st3 where "st3 = upd_slab s (\<lambda>sl. sl\<lparr>sl_cache := c, sl_pages := pg\<rparr>) (upd_mem (set_page_slab pg s 0) st2)"
    define st4 where "st4 = upd_links (list_add (SlabLink s) (FreeList c)) st3"
    have f2: "k_mem st2 = m" "k_links st2 = k_links st" "k_cache st2 = k_cache st" "sl_ops (k_slab st2 s) = Small_slab_ops"
      "\<And>t. t \<noteq> s \<Longrightarrow> k_slab st2 t = k_slab st t"
      "\<And>x. \<not> (s - SLAB_BYTES \<le> x \<and> x < s) \<Longrightarrow> k_border st2 x = k_border st x"
      using st2(2) by (simp_all add: slab_frame_def kc1)
    note sp = set_page_slab_ok [OF rdy pgU(2) v, where s = s]
    have f4: "k_mem st4 = set_page_slab pg s 0 m" "k_cache st4 = k_cache st" "k_border st4 = k_border st2"
      "\<And>t. t \<noteq> s \<Longrightarrow> k_slab st4 t = k_slab st t" "k_links st4 = list_add (SlabLink s) (FreeList c) (k_links st)"
      "k_slab st4 s = (k_slab st2 s)\<lparr>sl_cache := c, sl_pages := pg\<rparr>"
      by (simp_all add: st4_def st3_def f2)
    have inv4: "mem_inv (k_mem st4) U' (L' \<union> P)" using sp(1) by (simp add: f4 mem_ready_def)
    have fr4: "same_frame (k_mem st) (k_mem st4)" unfolding f4(1) by (rule same_frame_trans [OF af(1) sp(2)])
    have kept: "pages_kept P (k_mem st) (k_mem st4)"
      unfolding pages_kept_def
    proof (intro conjI allI impI)
      show "same_frame (k_mem st) (k_mem st4)" by (rule fr4)
      fix q :: page_ptr assume q: "(q, 0) \<in> P"
      then have "q \<notin> U" using live_valid_page(2) [OF d(2), of "fst q" "snd q" 0 0] by simp
      then have "page_of m q = page_of (k_mem st) q" by (rule af(2))
      moreover have "q \<noteq> pg" using q new(3) by auto
      ultimately show "page_of (k_mem st4) q = page_of (k_mem st) q" using sp(3) by (simp add: f4)
    qed
    have sa: "s mod 4096 = SLAB_BYTES"
      using page_addr_mod [OF inv1 v] by (auto simp: s_def b_def SLAB_BYTES_def mod_eq_0_iff_dvd elim!: dvdE)
    have fresh: "s \<notin> slabs_of ls e" if e: "e \<in> K" for e
    proof
      assume t: "s \<in> slabs_of ls e"
      let ?q = "sl_pages (k_slab st s)"
      have vq: "valid_page (k_mem st) ?q" and sq: "unat (page_addr (k_mem st) ?q) + SLAB_BYTES = s"
        using d(5) [OF e t] unfolding slab_ok_def Let_def by blast+
      note pf = page_addr_frame [OF d(2) inv1 af(1) vq]
      have "unat (page_addr m ?q) = unat (page_addr m pg)" using pf(2) sq by (simp add: s_def b_def)
      then have "frame_no m ?q = frame_no m pg"
        unfolding page_addr_unat [OF inv1 pf(1)] page_addr_unat [OF inv1 v] by simp
      from frame_no_inj [OF inv1 pf(1) v this] d(6) [OF e t] new(1) show False by simp
    qed
    have old: "slab_ok st4 e t (av t) \<and> (sl_pages (k_slab st4 t), 0) \<in> L'" if e: "e \<in> K" "t \<in> slabs_of ls e" for e t
    proof -
      have ts: "s \<noteq> t" using fresh e by blast
      have q: "(sl_pages (k_slab st t), 0) \<in> L" by (rule d(6) [OF e])
      have "sl_pages (k_slab st t) \<notin> U"
        using live_valid_page(2) [OF d(2), of "fst (sl_pages (k_slab st t))" "snd (sl_pages (k_slab st t))" 0 0] q by simp
      moreover have "sl_pages (k_slab st t) \<noteq> pg" using q new(1) by auto
      ultimately have pq: "page_of (k_mem st4) (sl_pages (k_slab st t)) = page_of (k_mem st) (sl_pages (k_slab st t))"
        unfolding f4(1) using sp(3) af(2) by simp
      have "slab_ok st4 e t (av t)"
        by (rule slab_ok_frame [OF d(5) [OF e] d(2) inv4 fr4 d(3) [OF e(1)] _ _ pq ts sa])
          (use ts f2(6) in \<open>simp_all add: f4\<close>)
      then show ?thesis using q ts by (simp add: f4(4) L'_def)
    qed
    have new_ok: "slab_ok st4 c s ?xs"
    proof -
      note pf = page_addr_frame [OF inv1 inv4, unfolded f4(1), OF sp(2) v]
      have "0 < ?sz" using kc by (simp add: small_cache_ok_def)
      note as = all_slots_facts [OF this, of b "SLAB_BYTES div ?sz"]
      have "set ?xs \<subseteq> slots s ?sz" unfolding as(3) slots_def by (simp add: s_def)
      moreover have "unat (of_nat s :: u64) = s" using unat_slab_addr [OF inv1 v] by (simp only: s_def b_def)
      moreover have "unat (page_addr (set_page_slab pg s 0 m) pg) + SLAB_BYTES = s"
        using pf(2) s_def b_def by simp
      ultimately show ?thesis
        using st2(3) f2(4) pf(1) as(1,2)
        unfolding slab_ok_def Let_def f4 chain_ok_def f2(3) by (simp add: sp(4))
    qed
    have lists: "dl.fam (k_links st4) (cache_heads K) (\<lambda>a. map SlabLink ((ls(FreeList c := s # ls (FreeList c))) a))"
    proof -
      have eq: "(\<lambda>a. map SlabLink ((ls(FreeList c := s # ls (FreeList c))) a)) =
        (\<lambda>a. map SlabLink (ls a))(FreeList c := SlabLink s # map SlabLink (ls (FreeList c)))" by auto
      show ?thesis unfolding eq f4(5)
        by (rule dl.fam_add [OF d(4)]) (use c fresh in \<open>auto simp: slabs_of_def\<close>)
    qed
    define ls' where "ls' = ls(FreeList c := s # ls (FreeList c))"
    have slabs: "slabs_of ls' e = (if e = c then insert s (slabs_of ls c) else slabs_of ls e)" for e
      by (auto simp: slabs_of_def ls'_def)
    have core4: "kmem_core P st4 K ls' (av(s := ?xs)) U' L'"
      unfolding kmem_core_def
    proof (intro conjI ballI)
      show "mem_ready (k_mem st4) U' (L' \<union> P)" using sp(1) by (simp add: f4)
      show "L' \<inter> P = {}" using new(3) core by (simp add: L'_def kmem_core_def)
      show "small_cache_ok (k_cache st4 e)" if "e \<in> K" for e using d(3) [OF that] by (simp add: f4)
      show "dl.fam (k_links st4) (cache_heads K) (\<lambda>a. map SlabLink (ls' a))" unfolding ls'_def by (rule lists)
      show "slab_ok st4 e t ((av(s := ?xs)) t)" if "e \<in> K" "t \<in> slabs_of ls' e" for e t
        using that old [of e t] new_ok fresh [of e] unfolding slabs by (cases "t = s") (auto split: if_splits)
      show "(sl_pages (k_slab st4 t), 0) \<in> L'" if "e \<in> K" "t \<in> slabs_of ls' e" for e t
        using that old [of e t] fresh [of e] unfolding slabs by (cases "t = s") (auto simp: f4 L'_def split: if_splits)
    qed
    have irq4: "ms_rflags (k_mem st4) = ms_rflags (k_mem st)"
      using sp(2) irq by (simp add: f4 same_frame_def)
    define fl where "fl = snd (spin_lock_irqsave (ms_rflags (k_mem st3)))"
    define en where "en = fst (spin_lock_irqsave (ms_rflags (k_mem st3)))"
    define st5 where "st5 = kmem_unlock en (upd_links (list_add (SlabLink s) (FreeList c)) (set_rflags fl st3))"
    have "spin_unlock_irqrestore en fl = ms_rflags (k_mem st3)" by (simp add: en_def fl_def)
    then have st5: "st5 = st4"
      by (simp add: st5_def kmem_unlock_eq st4_def set_rflags_def upd_mem_def upd_links_def)
    have sne: "s \<noteq> 0" by (simp add: s_def SLAB_BYTES_def)
    have "kmem_cache_grow create c st = Some (True, st5)"
    proof -
      have one: "fold (set_page_slab pg s) [0..<push_bit 0 1] = set_page_slab pg s 0" by simp
      show ?thesis
        unfolding kmem_cache_grow_def ord alloc_pages_def Let_def al(1) Some bind.simps prod.case option.case
          st1_def [symmetric] create [of st1 pg, OF kc1(1)] st2(1) one st3_def [symmetric] kmem_lock_eq
          en_def [symmetric] fl_def [symmetric] st5_def [symmetric] if_not_P [OF sne] ..
    qed
    then show ?thesis
      using core4 fresh irq4 kept unfolding st5 by (intro disjI2 exI [of _ s] exI [of _ st4] exI [of _ U'] exI [of _ L'])
        (simp add: ls'_def f4 s_def)
  qed
qed

section \<open>Allocating an object\<close>

lemma live_objects_grow:
  assumes fresh: "\<forall>e \<in> K. s \<notin> slabs_of ls e" and s: "SLAB_BYTES \<le> s" and e: "e \<in> K" and sz: "0 < kc_padded_size (k_cache st c)"
  defines "xs \<equiv> all_slots (s - SLAB_BYTES) (kc_padded_size (k_cache st c)) (SLAB_BYTES div kc_padded_size (k_cache st c))"
  shows "live_objects st (ls(FreeList c := s # ls (FreeList c))) (av(s := xs)) e = live_objects st ls av e"
proof -
  have full: "slots s (kc_padded_size (k_cache st c)) - set xs = {}"
    unfolding xs_def all_slots_facts(3) [OF sz] slots_def by simp
  have slabs: "slabs_of (ls(FreeList c := s # ls (FreeList c))) e =
      (if e = c then insert s (slabs_of ls c) else slabs_of ls e)" by (auto simp: slabs_of_def)
  have "slots t (kc_padded_size (k_cache st e)) - set ((av(s := xs)) t) = slots t (kc_padded_size (k_cache st e)) - set (av t)"
    if "t \<in> slabs_of ls e" for t
    using that fresh e by auto
  then have "(\<Union>t \<in> slabs_of ls e. slots t (kc_padded_size (k_cache st e)) - set ((av(s := xs)) t)) = live_objects st ls av e"
    unfolding live_objects_def by (intro SUP_cong) auto
  then show ?thesis unfolding live_objects_def slabs using full by (cases "e = c") auto
qed

lemma buckets_grow:
  assumes b: "\<forall>e \<in> K. buckets_ok st ls av e" and fresh: "\<forall>e \<in> K. s \<notin> slabs_of ls e" and e: "e \<in> K"
    and len: "length xs = SLAB_BYTES div kc_padded_size (k_cache st c)"
  shows "buckets_ok st (ls(FreeList c := s # ls (FreeList c))) (av(s := xs)) e"
  using b [rule_format, OF e] fresh [rule_format, OF e] len
  by (cases "e = c") (auto simp: buckets_ok_def slabs_of_def Let_def)

lemma kmem_inv_rflags [simp]: "kmem_inv P (set_rflags fl st) K live \<longleftrightarrow> kmem_inv P st K live"
proof -
  have "live_objects (set_rflags fl st) ls av c = live_objects st ls av c"
    "buckets_ok (set_rflags fl st) ls av c = buckets_ok st ls av c" for ls av c
    by (simp_all add: live_objects_def buckets_ok_def)
  then show ?thesis by (simp add: kmem_inv_def)
qed

lemma kmem_cache_alloc_by_ok:
  assumes inv: "kmem_inv P st K live" and c: "c \<in> K"
    and create: "\<And>pg st'. k_cache st' = k_cache st \<Longrightarrow> create c pg st' = kmem_small_slab_create c pg st'"
  shows "\<exists>p st'. kmem_cache_alloc_by create c st = Some (p, st') \<and> ms_rflags (k_mem st') = ms_rflags (k_mem st) \<and>
    k_cache st' = k_cache st \<and> pages_kept P (k_mem st) (k_mem st') \<and>
    (if p = 0 then out_of_pages (k_mem st) \<and> out_of_pages (k_mem st') \<and> kmem_inv P st' K live
     else p \<notin> live c \<and> kmem_inv P st' K (live(c := insert p (live c))))"
proof -
  define fl where "fl = snd (spin_lock_irqsave (ms_rflags (k_mem st)))"
  define en where "en = fst (spin_lock_irqsave (ms_rflags (k_mem st)))"
  define st0 where "st0 = set_rflags fl st"
  have unlock: "ms_rflags (k_mem (kmem_unlock en s)) = ms_rflags (k_mem st)" "k_cache (kmem_unlock en s) = k_cache s"
    "kmem_inv P (kmem_unlock en s) K l = kmem_inv P s K l" if "ms_rflags (k_mem s) = fl" for s l
    using that by (simp_all add: kmem_unlock_eq fl_def en_def)
  have kept: "pages_kept P (k_mem st) (k_mem (kmem_unlock en s))" if "pages_kept P (k_mem st0) (k_mem s)" for s
    using that by (simp add: pages_kept_def kmem_unlock_eq st0_def en_def fl_def same_frame_def)
  have fl0: "ms_rflags (k_mem st0) = fl" and kc0: "k_cache st0 = k_cache st" by (simp_all add: st0_def)
  have inv0: "kmem_inv P st0 K live" using inv by (simp add: st0_def)
  then obtain ls av U L where core: "kmem_core P st0 K ls av U L" and b: "\<forall>e \<in> K. buckets_ok st0 ls av e"
    and live: "\<forall>e \<in> K. live e = live_objects st0 ls av e"
    by (auto simp: kmem_inv_def)
  have start: "kmem_cache_alloc_by create c st = (if \<not> list_empty (k_links st0) (PartList c) then do {
           (ptr, st) \<leftarrow> take_part c st0;
           Some (ptr, kmem_unlock en st)
         } else do {
           (ok, st) \<leftarrow> (if list_empty (k_links st0) (FreeList c) then kmem_cache_grow create c st0 else Some (True, st0));
           if \<not> ok then Some (0, kmem_unlock en st)
           else do {
             (ptr, st) \<leftarrow> take_free c st;
             Some (ptr, kmem_unlock en st)
           }
         })"
    unfolding kmem_cache_alloc_by_def kmem_lock_eq en_def [symmetric] fl_def [symmetric] st0_def [symmetric]
      Let_def prod.case ..
  have emp: "list_empty (k_links st0) (PartList c) \<longleftrightarrow> ls (PartList c) = []"
    "list_empty (k_links st0) (FreeList c) \<longleftrightarrow> ls (FreeList c) = []"
    using list_entry_first(1) [OF core, of "PartList c"] list_entry_first(1) [OF core, of "FreeList c"] c by auto
  show ?thesis
  proof (cases "ls (PartList c) = []")
    case False
    from take_part_ok [OF core c b live False] obtain p s where
      "take_part c st0 = Some (p, s)" "p \<noteq> 0" "p \<notin> live c" "kmem_inv P s K (live(c := insert p (live c)))"
      "k_mem s = k_mem st0" "k_cache s = k_cache st0" by blast
    then show ?thesis using start emp False unlock [of s] kept [of s] fl0 kc0 by auto
  next
    case True
    have finish: ?thesis
      if s: "(if list_empty (k_links st0) (FreeList c) then kmem_cache_grow create c st0 else Some (True, st0)) = Some (True, s)"
        and cs: "kmem_core P s K ls' av' U' L'" "\<forall>e \<in> K. buckets_ok s ls' av' e" "\<forall>e \<in> K. live e = live_objects s ls' av' e"
        "ls' (FreeList c) \<noteq> []" "ms_rflags (k_mem s) = fl" "k_cache s = k_cache st" "pages_kept P (k_mem st0) (k_mem s)" for s ls' av' U' L'
    proof -
      from take_free_ok [OF cs(1) c cs(2,3,4)] obtain p t where
        t: "take_free c s = Some (p, t)" "p \<noteq> 0" "p \<notin> live c" "kmem_inv P t K (live(c := insert p (live c)))"
        "k_mem t = k_mem s" "k_cache t = k_cache s" by blast
      then have "kmem_cache_alloc_by create c st = Some (p, kmem_unlock en t)" using start s emp True by simp
      then show ?thesis using t unlock [of t] kept [of t] cs(5,6,7) by auto
    qed
    show ?thesis
    proof (cases "ls (FreeList c) = []")
      case False
      then show ?thesis using finish [OF _ core b live False fl0 kc0 pages_kept_refl] emp by simp
    next
      case fe: True
      have cr: "create c pg st' = kmem_small_slab_create c pg st'" if "k_cache st' = k_cache st0" for pg st'
        using create that kc0 by simp
      consider (no) "kmem_cache_grow create c st0 = Some (False, st0)" "out_of_pages (k_mem st0)"
        | (yes) s st' U' L' where "kmem_cache_grow create c st0 = Some (True, st')"
          "kmem_core P st' K (ls(FreeList c := s # ls (FreeList c)))
             (av(s := all_slots (s - SLAB_BYTES) (kc_padded_size (k_cache st0 c)) (SLAB_BYTES div kc_padded_size (k_cache st0 c)))) U' L'"
          "\<forall>e \<in> K. s \<notin> slabs_of ls e" "k_cache st' = k_cache st0" "ms_rflags (k_mem st') = ms_rflags (k_mem st0)" "SLAB_BYTES \<le> s" "pages_kept P (k_mem st0) (k_mem st')"
        using kmem_cache_grow_ok [OF core c, of create] cr by blast
      then show ?thesis
      proof cases
        case no
        then show ?thesis using start emp True fe unlock [of st0] kept [of st0] fl0 kc0 inv0 by (auto simp: st0_def kmem_unlock_eq)
      next
        case yes
        have sz: "0 < kc_padded_size (k_cache st0 c)"
          using kmem_coreD(3) [OF core c] by (simp add: small_cache_ok_def)
        have grown: "(if list_empty (k_links st0) (FreeList c) then kmem_cache_grow create c st0 else Some (True, st0)) = Some (True, st')"
          using yes(1) emp fe by simp
        show ?thesis
          by (rule finish [OF grown yes(2)])
            (use b live live_objects_grow [OF yes(3,6) _ sz] buckets_grow [OF b yes(3) _ all_slots_facts(1) [OF sz]]
              yes(4,5,7) fl0 kc0 in \<open>auto simp: buckets_same [OF yes(4)] live_same [OF yes(4) refl]\<close>)
      qed
    qed
  qed
qed

section \<open>The contract of an object cache\<close>

text \<open>
  \<^verbatim>\<open>inv s live\<close> says that the caches in \<^verbatim>\<open>s\<close> have handed out the objects \<^verbatim>\<open>live c\<close>. An allocation
  returns a new object or fails and leaves every cache as it was for its clients.
\<close>

locale object_cache =
  fixes inv :: "'s \<Rightarrow> ('c \<Rightarrow> 'o set) \<Rightarrow> bool" and full :: "'s \<Rightarrow> bool" and caches :: "'c set" and null :: 'o
    and alloc :: "'c \<Rightarrow> 's \<Rightarrow> ('o \<times> 's) option" and free :: "'c \<Rightarrow> 'o \<Rightarrow> 's \<Rightarrow> 's option"
  assumes alloc_spec: "inv s live \<Longrightarrow> c \<in> caches \<Longrightarrow> \<exists>p s'. alloc c s = Some (p, s') \<and>
      (if p = null then full s \<and> full s' \<and> inv s' live else p \<notin> live c \<and> inv s' (live(c := insert p (live c))))"
    and free_spec: "inv s live \<Longrightarrow> c \<in> caches \<Longrightarrow> p \<in> live c \<Longrightarrow>
      \<exists>s'. free c p s = Some s' \<and> inv s' (live(c := live c - {p})) \<and> (full s \<longrightarrow> full s')"
begin

text \<open>Allocating and releasing again is invisible to the clients.\<close>

lemma alloc_free:
  assumes "inv s live" and "c \<in> caches" and "alloc c s = Some (p, s')" and "p \<noteq> null"
  shows "\<exists>s''. free c p s' = Some s'' \<and> inv s'' live"
proof -
  have p: "p \<notin> live c" "inv s' (live(c := insert p (live c)))"
    using alloc_spec [OF assms(1,2)] assms(3,4) by auto
  then obtain s'' where "free c p s' = Some s''" "inv s'' ((live(c := insert p (live c)))(c := insert p (live c) - {p}))"
    using free_spec [of s' "live(c := insert p (live c))" c p] assms(2) by auto
  moreover have "(live(c := insert p (live c)))(c := insert p (live c) - {p}) = live" using p(1) by auto
  ultimately show ?thesis by auto
qed

lemma alloc_many:
  assumes "inv s live" and "\<forall>c \<in> set cs. c \<in> caches"
  shows "\<exists>ps s' live'. fold (\<lambda>c acc. Option.bind acc (\<lambda>(ps, s). Option.bind (alloc c s) (\<lambda>(p, s'). Some (ps @ [(c, p)], s'))))
      cs (Some (qs, s)) = Some (qs @ ps, s') \<and> inv s' live' \<and> map fst ps = cs \<and> (\<forall>c. live c \<subseteq> live' c) \<and>
    (\<forall>(c, p) \<in> set ps. p = null \<or> p \<in> live' c - live c) \<and> distinct (filter (\<lambda>(c, p). p \<noteq> null) ps)"
  using assms
proof (induction cs arbitrary: s live qs)
  case (Cons c cs)
  obtain p s1 where a: "alloc c s = Some (p, s1)"
    "if p = null then inv s1 live else p \<notin> live c \<and> inv s1 (live(c := insert p (live c)))"
    using alloc_spec [OF Cons.prems(1), of c] Cons.prems(2) by (auto split: if_splits)
  define live1 where "live1 = (if p = null then live else live(c := insert p (live c)))"
  have "inv s1 live1" using a(2) by (auto simp: live1_def split: if_splits)
  from Cons.IH [OF this, of "qs @ [(c, p)]"] Cons.prems(2)
  obtain ps s' live' where r: "fold (\<lambda>c acc. Option.bind acc (\<lambda>(ps, s). Option.bind (alloc c s) (\<lambda>(p, s'). Some (ps @ [(c, p)], s'))))
      cs (Some (qs @ [(c, p)], s1)) = Some ((qs @ [(c, p)]) @ ps, s')" "inv s' live'" "map fst ps = cs"
    "\<forall>c. live1 c \<subseteq> live' c" "\<forall>(c, p) \<in> set ps. p = null \<or> p \<in> live' c - live1 c"
    "distinct (filter (\<lambda>(c, p). p \<noteq> null) ps)" by auto
  have sub: "live d \<subseteq> live1 d" for d by (auto simp: live1_def)
  have p1: "p = null \<or> p \<in> live1 c - live c" using a(2) by (auto simp: live1_def)
  have "(c, p) \<notin> set ps" if "p \<noteq> null" using r(5) p1 that by auto
  then have "distinct (filter (\<lambda>(c, p). p \<noteq> null) ((c, p) # ps))" using r(6) by auto
  moreover have "\<forall>(d, q) \<in> set ((c, p) # ps). q = null \<or> q \<in> live' d - live d"
    using r(4,5) p1 sub by fastforce
  moreover have "\<forall>c. live c \<subseteq> live' c" using r(4) sub by blast
  ultimately show ?case
    using r(1-3) a(1) by (intro exI [of _ "(c, p) # ps"] exI [of _ s'] exI [of _ live'] conjI) simp_all
qed auto

end

text \<open>Caches whose operations are those of small objects.\<close>

interpretation small_caches: object_cache "\<lambda>st. kmem_inv P st K" "\<lambda>st. out_of_pages (k_mem st)" K 0 kmem_cache_alloc kmem_cache_free for K
proof
  fix s :: kmem and live c p
  assume inv: "kmem_inv P s K live" and c: "c \<in> K"
  have "kc_ops (k_cache s c) = Small_cache_ops"
    using inv c by (auto simp: kmem_inv_def kmem_core_def small_cache_ok_def)
  then have "cache_ops_create c pg st' = kmem_small_slab_create c pg st'" if "k_cache st' = k_cache s" for pg st'
    using that by (simp add: cache_ops_create_def)
  with kmem_cache_alloc_by_ok [OF inv c, of cache_ops_create]
  show "\<exists>p s'. kmem_cache_alloc c s = Some (p, s') \<and>
      (if p = 0 then out_of_pages (k_mem s) \<and> out_of_pages (k_mem s') \<and> kmem_inv P s' K live
       else p \<notin> live c \<and> kmem_inv P s' K (live(c := insert p (live c))))"
    unfolding kmem_cache_alloc_def by blast
  show "p \<in> live c \<Longrightarrow> \<exists>s'. kmem_cache_free c p s = Some s' \<and> kmem_inv P s' K (live(c := live c - {p})) \<and>
      (out_of_pages (k_mem s) \<longrightarrow> out_of_pages (k_mem s'))"
    using kmem_cache_free_ok [OF inv c, of p] by auto
qed

section \<open>New caches\<close>

lemma MAXU_unat: "unat (MAXU a b) = max (unat a) (unat b)"
  by (simp add: MAXU_def max_def word_le_nat_alt word_less_nat_alt)

lemma small_cache_geometry:
  assumes sz: "unat sz \<le> 512" and k: "3 \<le> k" "k \<le> 10"
  shows "unat (ALIGN sz 8) + 8 \<le> unat (ALIGN (ALIGN sz 8 + 8) (2 ^ k))"
    and "2 * unat (ALIGN (ALIGN sz 8 + 8) (2 ^ k)) \<le> SLAB_BYTES"
proof -
  have "unat sz + 2 ^ 3 \<le> 2 ^ 64" using sz by simp
  then have o: "unat (ALIGN sz 8) < unat sz + 8" using ALIGN_bounds [of 3 sz] by simp
  then have o8: "unat (ALIGN sz 8 + 8) = unat (ALIGN sz 8) + 8" using sz by (subst unat_add_noov) simp_all
  have p: "(2 :: nat) ^ k \<le> 2 ^ 10" using k(2) by (rule power_increasing) simp
  then have le: "unat (ALIGN sz 8 + 8) + 2 ^ k \<le> 2 ^ 64" using o o8 sz by simp
  have "k < 64" using k by simp
  note b = ALIGN_bounds [OF this le]
  show "unat (ALIGN sz 8) + 8 \<le> unat (ALIGN (ALIGN sz 8 + 8) (2 ^ k))" using b(1) o8 by simp
  have "unat (ALIGN (ALIGN sz 8 + 8) (2 ^ k)) < unat (ALIGN sz 8 + 8) + 2 ^ k" using b by simp
  then show "2 * unat (ALIGN (ALIGN sz 8 + 8) (2 ^ k)) \<le> SLAB_BYTES"
    using o o8 sz p by (simp add: SLAB_BYTES_def)
qed

lemma kmem_small_cache_init_ok:
  assumes inv: "kmem_inv P st K live" and c: "c \<notin> K" and sz: "unat sz \<le> 512" and k: "k \<le> 10"
  shows "kmem_inv P (kmem_small_cache_init c sz (2 ^ k) st) (insert c K) (live(c := {}))"
proof -
  obtain ls av U L where core: "kmem_core P st K ls av U L" and b: "\<forall>e \<in> K. buckets_ok st ls av e"
    and live: "\<forall>e \<in> K. live e = live_objects st ls av e"
    using inv by (auto simp: kmem_inv_def)
  note d = kmem_coreD [OF core]
  define st' where "st' = kmem_small_cache_init c sz (2 ^ k) st"
  define ls' where "ls' = ls(PartList c := [], FreeList c := [], FullList c := [])"
  define m where "m = max k 3"
  have al: "MAXU (2 ^ k) 8 = 2 ^ m"
  proof -
    have "unat (2 ^ k :: u64) = 2 ^ k" "unat (2 ^ m :: u64) = 2 ^ m" using k by (auto intro: unat_exp2 simp: m_def)
    moreover have "max ((2 :: nat) ^ k) 8 = 2 ^ m" using power_increasing_iff [of 2 k 3] power_increasing_iff [of 2 3 k]
      by (auto simp: m_def max_def)
    ultimately show ?thesis by (simp add: word_unat_eq_iff MAXU_unat)
  qed
  have fields: "k_mem st' = k_mem st" "k_slab st' = k_slab st" "k_border st' = k_border st"
    "\<And>e. e \<noteq> c \<Longrightarrow> k_cache st' e = k_cache st e"
    "k_links st' = list_init (FullList c) (list_init (PartList c) (list_init (FreeList c) (k_links st)))"
    by (simp_all add: st'_def kmem_small_cache_init_def kmem_cache_init_def Let_def upd_cache_def)
  have "small_cache_ok (k_cache st' c)"
    using small_cache_geometry [OF sz, of m] k
    by (simp add: st'_def kmem_small_cache_init_def kmem_cache_init_def Let_def upd_cache_def small_cache_ok_def al m_def)
  then have caches: "\<forall>e \<in> insert c K. small_cache_ok (k_cache st' e)" using d(3) fields(4) c by (metis insertE)
  have "dl.fam (k_links st') (cache_heads (insert c K)) (\<lambda>a. map SlabLink (ls' a))"
  proof -
    have old: "dlist (k_links st') a (map SlabLink (ls a))" if "a \<in> cache_heads K" for a
      unfolding fields(5) using dl.fam_rep [OF d(4) that] that c
      by (intro dlist_frame_init) auto
    have new: "dlist (k_links st') (PartList c) []" "dlist (k_links st') (FreeList c) []" "dlist (k_links st') (FullList c) []"
      unfolding fields(5) by (auto intro!: dlist_init dlist_frame_init)
    have "dlist (k_links st') a (map SlabLink (ls' a))" if "a \<in> cache_heads (insert c K)" for a
      using that old [of a] new c by (auto simp: ls'_def)
    moreover have "insert a (set (map SlabLink (ls' a))) \<inter> insert x (set (map SlabLink (ls' x))) = {}"
      if "a \<in> cache_heads (insert c K)" "x \<in> cache_heads (insert c K)" "a \<noteq> x" for a x
    proof -
      have same: "ls' y = ls y" if "y \<in> cache_heads K" for y using that c by (auto simp: ls'_def)
      have none: "ls' y = []" if "y \<in> cache_heads {c}" for y using that by (auto simp: ls'_def)
      have link: "y \<noteq> SlabLink s" if "y \<in> cache_heads (insert c K)" for y s using that by auto
      have split: "a \<in> cache_heads K \<or> a \<in> cache_heads {c}" "x \<in> cache_heads K \<or> x \<in> cache_heads {c}"
        using that(1,2) by auto
      show ?thesis
      proof (cases "a \<in> cache_heads K \<and> x \<in> cache_heads K")
        case True
        then have "ls' a = ls a" "ls' x = ls x" using same by blast+
        then show ?thesis using dl.fam_disjoint [OF d(4), of a x] True that(3) by metis
      next
        case False
        then have "ls' a = [] \<or> ls' x = []" using none split by blast
        then show ?thesis using link [OF that(1)] link [OF that(2)] that(3) by force
      qed
    qed
    ultimately show ?thesis by (simp add: dl.fam_def)
  qed
  moreover have slabs: "slabs_of ls' e = (if e = c then {} else slabs_of ls e)" for e
    by (auto simp: slabs_of_def ls'_def)
  moreover have "slab_ok st' e s (av s) = slab_ok st e s (av s)" if "e \<noteq> c" for e s
    using fields(4) [OF that] by (simp add: slab_ok_def fields)
  ultimately have "kmem_core P st' (insert c K) ls' av U L"
    using core caches c unfolding kmem_core_def by (auto simp: fields)
  moreover have "buckets_ok st' ls' av e" if "e \<in> insert c K" for e
    using b that c fields(4) [of e] by (auto simp: buckets_ok_def ls'_def Let_def)
  moreover have "(live(c := {})) e = live_objects st' ls' av e" if "e \<in> insert c K" for e
    using live that fields(4) [of e] by (auto simp: live_objects_def slabs)
  ultimately have "kmem_inv P st' (insert c K) (live(c := {}))" unfolding kmem_inv_def by blast
  then show ?thesis by (simp add: st'_def)
qed

section \<open>Properties\<close>

definition sample_kmem :: kmem where
  "sample_kmem = \<lparr>k_mem = sample_mem, k_links = \<lparr>l_next = id, l_prev = id\<rparr>, k_cache = (\<lambda>_. undefined),
     k_slab = (\<lambda>_. undefined), k_border = (\<lambda>_. 0), k_tag_next = (\<lambda>_. 0), k_tag_ptr = (\<lambda>_. 0),
     k_small_cache_cache = 1, k_large_cache_cache = 2, k_large_slab_cache = 3, k_large_tag_cache = 4, k_pool = []\<rparr>"

lemma sample_kmem_inv: "kmem_inv {} sample_kmem {} (\<lambda>_. {})"
proof -
  have "kmem_core {} sample_kmem {} (\<lambda>_. []) (\<lambda>_. []) (Pair 0 ` {0..<4}) {}"
    using sample_mem_ready(1) by (simp add: kmem_core_def sample_kmem_def dl.fam_def)
  then show ?thesis unfolding kmem_inv_def by blast
qed

lemma const_upd: "(\<lambda>_. a)(x := a) = (\<lambda>_. a)"
  by auto

lemma sample_cache_inv: "kmem_inv {} (kmem_small_cache_init 7 100 (2 ^ 4) sample_kmem) {7} (\<lambda>_. {})"
  using kmem_small_cache_init_ok [OF sample_kmem_inv, of 7 100 4] by (simp add: const_upd)

lemma sample_not_full:
  assumes "k_mem st = sample_mem"
  shows "\<not> out_of_pages (k_mem st)"
proof
  assume "out_of_pages (k_mem st)"
  then have "(0, 0) \<notin> Pair (0 :: nat) ` {0..<4 :: nat}"
    unfolding assms by (rule out_of_pagesD [OF _ sample_mem_ready(1)]) (unfold sample_mem_ready(2), simp)
  then show False by (simp add: image_iff)
qed

lemma small_cache_init_mem [simp]: "k_mem (kmem_small_cache_init c sz al st) = k_mem st"
  by (simp add: kmem_small_cache_init_def kmem_cache_init_def Let_def upd_cache_def)

lemma sample_cache_pages: "\<not> out_of_pages (k_mem (kmem_small_cache_init c sz al sample_kmem))"
  by (rule sample_not_full) (simp add: sample_kmem_def)

text \<open>Initialising a cache of objects of up to 512 bytes and an alignment of up to 1024 adds a
  well-formed empty cache and leaves the objects of all other caches alone.\<close>

theorem kmem_small_cache_init_correct:
  assumes "kmem_inv P st K live" and "c \<notin> K" and "unat sz \<le> 512" and "k \<le> 10"
  shows "kmem_inv P (kmem_small_cache_init c sz (2 ^ k) st) (insert c K) (live(c := {}))"
  by (rule kmem_small_cache_init_ok [OF assms])

theorem kmem_small_cache_init_correct_witness:
  "kmem_inv {} (kmem_small_cache_init 7 100 (2 ^ 4) sample_kmem) {7} (\<lambda>_. {})"
  using kmem_small_cache_init_correct [OF sample_kmem_inv, of 7 100 4] by (simp add: const_upd)

text \<open>C9: allocating from a cache of small objects always returns and gives the interrupt flag back:
  a null pointer, only when the page allocator has no free page, with every live object kept, or a
  non-null object that was not live, whether it came from a partly used slab, a free slab or a new page.\<close>

theorem kmem_cache_alloc_correct:
  assumes "kmem_inv P st K live" and "c \<in> K"
  shows "\<exists>p st'. kmem_cache_alloc c st = Some (p, st') \<and> ms_rflags (k_mem st') = ms_rflags (k_mem st) \<and>
    (if p = 0 then out_of_pages (k_mem st) \<and> out_of_pages (k_mem st') \<and> kmem_inv P st' K live
     else p \<notin> live c \<and> kmem_inv P st' K (live(c := insert p (live c))))"
proof -
  have "kc_ops (k_cache st c) = Small_cache_ops"
    using assms by (auto simp: kmem_inv_def kmem_core_def small_cache_ok_def)
  then have "cache_ops_create c pg st' = kmem_small_slab_create c pg st'" if "k_cache st' = k_cache st" for pg st'
    using that by (simp add: cache_ops_create_def)
  then show ?thesis
    using kmem_cache_alloc_by_ok [OF assms, of cache_ops_create] unfolding kmem_cache_alloc_def by blast
qed

theorem kmem_cache_alloc_correct_witness:
  "\<exists>p st'. kmem_cache_alloc 7 (kmem_small_cache_init 7 100 (2 ^ 4) sample_kmem) = Some (p, st') \<and>
     p \<noteq> 0 \<and> kmem_inv {} st' {7} ((\<lambda>_. {})(7 := {p}))"
proof -
  show ?thesis using kmem_cache_alloc_correct [OF sample_cache_inv, of 7] sample_cache_pages by (auto split: if_splits)
qed

text \<open>C10: releasing a live object of a cache of small objects finds its slab from the address alone,
  always returns, and makes exactly this object available again.\<close>

theorem kmem_cache_free_correct:
  assumes "kmem_inv P st K live" and "c \<in> K" and "p \<in> live c"
  shows "\<exists>st'. kmem_cache_free c p st = Some st' \<and> kmem_inv P st' K (live(c := live c - {p})) \<and>
    ms_rflags (k_mem st') = ms_rflags (k_mem st)"
  using kmem_cache_free_ok [OF assms] by auto

theorem kmem_cache_free_correct_witness:
  "\<exists>p st'. kmem_cache_alloc 7 (kmem_small_cache_init 7 100 (2 ^ 4) sample_kmem) = Some (p, st') \<and>
     p \<noteq> 0 \<and> (\<exists>st''. kmem_cache_free 7 p st' = Some st'' \<and> kmem_inv {} st'' {7} (\<lambda>_. {}))"
proof -
  note inv = sample_cache_inv
  obtain p st' where a: "kmem_cache_alloc 7 (kmem_small_cache_init 7 100 (2 ^ 4) sample_kmem) = Some (p, st')"
    "p \<noteq> 0" "kmem_inv {} st' {7} ((\<lambda>_. {})(7 := {p}))"
    using small_caches.alloc_spec [OF inv, of 7] sample_cache_pages by (auto split: if_splits)
  moreover have "\<exists>st''. kmem_cache_free 7 p st' = Some st'' \<and> kmem_inv {} st'' {7} (\<lambda>_. {})"
    using kmem_cache_free_correct [OF a(3), of 7 p] by (auto simp: const_upd)
  ultimately show ?thesis by auto
qed

text \<open>The size class of \<^verbatim>\<open>kmem_alloc\<close> is the smallest one that holds the request, and a request
  has none exactly when it is larger than the largest class.\<close>

theorem kmem_cache_index_correct:
  "case kmem_cache_index sz of
     None \<Rightarrow> 256 * 1024 < sz
   | Some i \<Rightarrow> i < length kmem_size \<and> sz \<le> kmem_size ! i \<and> (\<forall>j < i. kmem_size ! j < sz)"
proof (cases "kmem_cache_index sz")
  case None
  then have "\<not> sz \<le> kmem_size ! i" if "i < length kmem_size" for i
    using that by (auto simp: kmem_cache_index_def find_None_iff)
  from this [of 33] show ?thesis using None by (simp add: kmem_size_def)
next
  case (Some i)
  then have "i < length kmem_size \<and> sz \<le> kmem_size ! i \<and> (\<forall>j < i. kmem_size ! j < sz)"
    by (auto simp: kmem_cache_index_def find_Some_iff not_le)
  then show ?thesis using Some by simp
qed

theorem kmem_cache_index_correct_witness:
  "kmem_cache_index 100 = Some 12 \<and> kmem_size ! 11 < 100 \<and> 100 \<le> kmem_size ! 12"
proof -
  have "kmem_cache_index 100 = Some 12" by (simp add: kmem_cache_index_def kmem_size_def upt_rec)
  then show ?thesis using kmem_cache_index_correct [of 100] by simp
qed

text \<open>The tags of a large slab: a chain of those with an available object and one of spare tags.\<close>

definition tags_ok :: "kmem \<Rightarrow> nat \<Rightarrow> nat list \<Rightarrow> nat list \<Rightarrow> bool" where
  "tags_ok st s fs bs \<longleftrightarrow> bchain (k_tag_next st) (sl_free_tags (k_slab st s)) fs \<and>
     bchain (k_tag_next st) (sl_busy_tags (k_slab st s)) bs \<and> distinct (fs @ bs)"

text \<open>An allocation from a slab of large objects returns the object of the first available tag and
  keeps the tag as spare; a release puts any object back on the next spare tag, so that the
  available objects are the released one and those available before.\<close>

theorem kmem_large_slab_ops_correct:
  assumes "tags_ok st s (t # ts) bs"
  shows "\<exists>st'. kmem_large_slab_alloc c s st = Some (k_tag_ptr st t, st') \<and> tags_ok st' s ts (t # bs) \<and>
    k_tag_ptr st' = k_tag_ptr st \<and>
    (\<exists>st''. kmem_large_slab_free c s p st' = Some st'' \<and> tags_ok st'' s (t # ts) bs \<and>
       map (k_tag_ptr st'') (t # ts) = p # map (k_tag_ptr st) ts)"
proof -
  have t: "sl_free_tags (k_slab st s) = t" "t \<noteq> 0" and ts: "bchain (k_tag_next st) (k_tag_next st t) ts"
    and bs: "bchain (k_tag_next st) (sl_busy_tags (k_slab st s)) bs" and dist: "distinct (t # ts @ bs)"
    using assms by (auto simp: tags_ok_def)
  define st1 where "st1 = snd (the (kmem_large_slab_alloc c s st))"
  have a: "kmem_large_slab_alloc c s st = Some (k_tag_ptr st t, st1)"
    using t by (simp add: st1_def kmem_large_slab_alloc_def Let_def)
  have f1: "k_tag_next st1 = (k_tag_next st)(t := sl_busy_tags (k_slab st s))" "k_tag_ptr st1 = k_tag_ptr st"
    "sl_free_tags (k_slab st1 s) = k_tag_next st t" "sl_busy_tags (k_slab st1 s) = t"
    using t by (simp_all add: st1_def kmem_large_slab_alloc_def Let_def upd_slab_def)
  have c1: "bchain (k_tag_next st1) (k_tag_next st t) ts" "bchain (k_tag_next st1) (sl_busy_tags (k_slab st s)) bs"
    using dist by (auto simp: f1 intro!: bchain_cong [OF ts] bchain_cong [OF bs])
  have ok1: "tags_ok st1 s ts (t # bs)" using c1 t dist f1 by (simp add: tags_ok_def)
  define st2 where "st2 = the (kmem_large_slab_free c s p st1)"
  have b: "kmem_large_slab_free c s p st1 = Some st2"
    using t f1 by (simp add: st2_def kmem_large_slab_free_def Let_def)
  have f2: "k_tag_next st2 = (k_tag_next st1)(t := k_tag_next st t)" "k_tag_ptr st2 = (k_tag_ptr st)(t := p)"
    "sl_free_tags (k_slab st2 s) = t" "sl_busy_tags (k_slab st2 s) = sl_busy_tags (k_slab st s)"
    using t f1 by (simp_all add: st2_def kmem_large_slab_free_def Let_def upd_slab_def)
  have c2: "bchain (k_tag_next st2) (k_tag_next st t) ts" "bchain (k_tag_next st2) (sl_busy_tags (k_slab st s)) bs"
    using dist by (auto simp: f2 intro!: bchain_cong [OF c1(1)] bchain_cong [OF c1(2)])
  have "tags_ok st2 s (t # ts) bs" using c2 t dist f2 by (simp add: tags_ok_def)
  moreover have "map (k_tag_ptr st2) (t # ts) = p # map (k_tag_ptr st) ts" using dist by (auto simp: f2)
  ultimately have fin: "\<exists>st''. kmem_large_slab_free c s p st1 = Some st'' \<and> tags_ok st'' s (t # ts) bs \<and>
       map (k_tag_ptr st'') (t # ts) = p # map (k_tag_ptr st) ts" using b by (intro exI [of _ st2] conjI)
  show ?thesis by (rule exI [of _ st1]) (use a ok1 f1(2) fin in simp)
qed

definition sample_large :: kmem where
  "sample_large = sample_kmem\<lparr>k_tag_ptr := (\<lambda>_. 0)(5 := 77),
     k_slab := (\<lambda>_. undefined\<lparr>sl_free_tags := 5, sl_busy_tags := 0\<rparr>)\<rparr>"

theorem kmem_large_slab_ops_correct_witness:
  "\<exists>st'. kmem_large_slab_alloc 2 9 sample_large = Some (77, st') \<and> tags_ok st' 9 [] [5]"
proof -
  have "tags_ok sample_large 9 [5] []" "k_tag_ptr sample_large 5 = 77"
    by (simp_all add: tags_ok_def sample_large_def sample_kmem_def)
  then show ?thesis using kmem_large_slab_ops_correct [of sample_large 9 5 "[]" "[]" 2 0] by auto
qed

end
