(* ===== verification/CString.thy ===== *)
theory CString
  imports Kernel_Prelude "HOL-Library.Monad_Syntax"
begin

text \<open>
  The C library of the kernel: \<^verbatim>\<open>src/string.c\<close>, \<^verbatim>\<open>src/ctype.c\<close> and \<^verbatim>\<open>src/stdlib.c\<close> (user space has
  copies of these files under \<^verbatim>\<open>src/initramfs\<close>). Memory is a function from addresses to bytes and
  every loop reads and writes it byte by byte in the order of the code. \<^verbatim>\<open>char\<close> is signed, so the
  value of a byte in a comparison is its signed value. A loop without a bound of its own is a
  partial function: on memory without a terminator it does not return.
\<close>

section \<open>Memory\<close>

type_synonym mem = "nat \<Rightarrow> u8"

definition char_val :: "u8 \<Rightarrow> int" where "char_val b = sint b"

fun memcpy :: "nat \<Rightarrow> nat \<Rightarrow> nat \<Rightarrow> mem \<Rightarrow> mem" where
  "memcpy d s 0 m = m"
| "memcpy d s (Suc n) m = memcpy (d + 1) (s + 1) n (m(d := m s))"

fun memcpy_r_loop :: "nat \<Rightarrow> nat \<Rightarrow> nat \<Rightarrow> mem \<Rightarrow> mem" where
  "memcpy_r_loop d s 0 m = m"
| "memcpy_r_loop d s (Suc n) m = memcpy_r_loop (d - 1) (s - 1) n (m(d - 1 := m (s - 1)))"

definition memcpy_r :: "nat \<Rightarrow> nat \<Rightarrow> nat \<Rightarrow> mem \<Rightarrow> mem" where
  "memcpy_r dst src n m = memcpy_r_loop (dst + n) (src + n) n m"

definition memmove :: "nat \<Rightarrow> nat \<Rightarrow> nat \<Rightarrow> mem \<Rightarrow> mem" where
  "memmove dst src n m = (if dst > src then memcpy_r dst src n m else memcpy dst src n m)"

fun memset :: "nat \<Rightarrow> int \<Rightarrow> nat \<Rightarrow> mem \<Rightarrow> mem" where
  "memset p v 0 m = m"
| "memset p v (Suc n) m = memset (p + 1) v n (m(p := word_of_int v))"

fun memcmp :: "nat \<Rightarrow> nat \<Rightarrow> nat \<Rightarrow> mem \<Rightarrow> int" where
  "memcmp l r 0 m = 0"
| "memcmp l r (Suc n) m =
     (if m l = m r then memcmp (l + 1) (r + 1) n m else char_val (m l) - char_val (m r))"

section \<open>Strings\<close>

partial_function (option) strlen_loop :: "mem \<Rightarrow> nat \<Rightarrow> nat option" where
  "strlen_loop m pos = (if m pos \<noteq> 0 then strlen_loop m (pos + 1) else Some pos)"

definition strlen :: "mem \<Rightarrow> nat \<Rightarrow> nat option" where
  "strlen m str = do { pos \<leftarrow> strlen_loop m str; Some (pos - str) }"

partial_function (option) strchr :: "mem \<Rightarrow> nat \<Rightarrow> int \<Rightarrow> nat option option" where
  "strchr m str c =
     (if m str \<noteq> 0 \<and> char_val (m str) \<noteq> c then strchr m (str + 1) c
      else Some (if m str \<noteq> 0 then Some str else None))"

partial_function (option) strcmp :: "mem \<Rightarrow> nat \<Rightarrow> nat \<Rightarrow> int option" where
  "strcmp m l r =
     (if m l = m r \<and> m l \<noteq> 0 then strcmp m (l + 1) (r + 1) else Some (char_val (m l) - char_val (m r)))"

fun strncpy :: "nat \<Rightarrow> nat \<Rightarrow> nat \<Rightarrow> mem \<Rightarrow> mem" where
  "strncpy d s 0 m = m"
| "strncpy d s (Suc n) m = (if m s \<noteq> 0 then strncpy (d + 1) (s + 1) n (m(d := m s)) else m)"

partial_function (option) strcpy :: "nat \<Rightarrow> nat \<Rightarrow> mem \<Rightarrow> mem option" where
  "strcpy d s m = (if m s \<noteq> 0 then strcpy (d + 1) (s + 1) (m(d := m s)) else Some (m(d := 0)))"

section \<open>Characters and numbers\<close>

definition toupper :: "int \<Rightarrow> int" where
  "toupper c = (if c < 97 \<or> c > 122 then c else c + (65 - 97))"

definition tolower :: "int \<Rightarrow> int" where
  "tolower c = (if c < 65 \<or> c > 90 then c else c + (97 - 65))"

definition isdigit :: "int \<Rightarrow> bool" where
  "isdigit c \<longleftrightarrow> c \<ge> 48 \<and> c \<le> 57"

definition isspace :: "int \<Rightarrow> bool" where
  "isspace c \<longleftrightarrow> c \<in> {32, 9, 10, 11, 12, 13}"

text \<open>
  \<^verbatim>\<open>strchr(digits, c)\<close> on the constant string of the digits, as the index of the digit found: the
  array is a constant, so the search is over its characters.
\<close>

definition digit_chars :: "int list" where
  "digit_chars = map (\<lambda>i. 48 + int i) [0..<10] @ map (\<lambda>i. 97 + int i) [0..<26]"

fun index_of :: "int list \<Rightarrow> int \<Rightarrow> nat \<Rightarrow> nat option" where
  "index_of [] c i = None"
| "index_of (x # xs) c i = (if x \<noteq> c then index_of xs c (i + 1) else Some i)"

partial_function (option) strtoul_loop :: "mem \<Rightarrow> nat \<Rightarrow> u64 \<Rightarrow> u64 \<Rightarrow> (u64 \<times> nat) option" where
  "strtoul_loop m str base answer =
     (case index_of digit_chars (tolower (char_val (m str))) 0 of
        Some pos \<Rightarrow> strtoul_loop m (str + 1) base (answer * base + of_nat pos)
      | None \<Rightarrow> Some (answer, str))"

text \<open>The result is the value and the position of \<^verbatim>\<open>*endptr\<close>.\<close>

definition strtoul :: "mem \<Rightarrow> nat \<Rightarrow> int \<Rightarrow> (u64 \<times> nat) option" where
  "strtoul m str base =
     (let (base, str) =
            (if base = 0 \<and> char_val (m str) = 48
             then if m (str + 1) \<noteq> 0 \<and> (char_val (m (str + 1)) = 120 \<or> char_val (m (str + 1)) = 88)
                  then (16, str + 2) else (8, str + 1)
             else (base, str));
          base = (if base = 0 then 10 else base)
      in strtoul_loop m str (word_of_int base) 0)"

partial_function (option) skip_space :: "mem \<Rightarrow> nat \<Rightarrow> nat option" where
  "skip_space m str = (if isspace (char_val (m str)) then skip_space m (str + 1) else Some str)"

definition strtol :: "mem \<Rightarrow> nat \<Rightarrow> int \<Rightarrow> (u64 \<times> nat) option" where
  "strtol m str base = do {
     str \<leftarrow> skip_space m str;
     let signed = (char_val (m str) = 45 \<or> char_val (m str) = 43);
     let sign = (char_val (m str) = 45);
     let str = (if signed then str + 1 else str);
     (value, endptr) \<leftarrow> strtoul m str base;
     Some (if sign then - value else value, endptr)
   }"

section \<open>Block operations\<close>

lemma memcpy_apply:
  assumes "d \<le> s \<or> s + n \<le> d"
  shows "memcpy d s n m = (\<lambda>a. if d \<le> a \<and> a < d + n then m (s + (a - d)) else m a)"
  using assms
proof (induction n arbitrary: d s m)
  case (Suc n)
  have "memcpy (d + 1) (s + 1) n (m(d := m s)) =
      (\<lambda>a. if d + 1 \<le> a \<and> a < d + 1 + n then (m(d := m s)) (s + 1 + (a - (d + 1))) else (m(d := m s)) a)"
    by (rule Suc.IH) (use Suc.prems in auto)
  then show ?case using Suc.prems by (auto simp: fun_eq_iff Suc_diff_Suc)
qed (auto simp: fun_eq_iff)

lemma memcpy_r_apply:
  assumes "s \<le> d"
  shows "memcpy_r d s n m = (\<lambda>a. if d \<le> a \<and> a < d + n then m (s + (a - d)) else m a)"
  unfolding memcpy_r_def
proof (induction n arbitrary: m)
  case (Suc n)
  have "memcpy_r_loop (d + n) (s + n) n (m(d + n := m (s + n))) =
      (\<lambda>a. if d \<le> a \<and> a < d + n then (m(d + n := m (s + n))) (s + (a - d)) else (m(d + n := m (s + n))) a)"
    by (rule Suc.IH)
  then show ?case using assms by (auto simp: fun_eq_iff)
qed (auto simp: fun_eq_iff)

lemma memset_apply: "memset p v n m = (\<lambda>a. if p \<le> a \<and> a < p + n then word_of_int v else m a)"
  by (induction n arbitrary: p m) (auto simp: fun_eq_iff)

lemma char_val_inj [simp]: "char_val a = char_val b \<longleftrightarrow> a = b"
  unfolding char_val_def using signed_word_eqI by blast

lemma memcmp_zero: "memcmp l r n m = 0 \<longleftrightarrow> (\<forall>i < n. m (l + i) = m (r + i))"
proof (induction n arbitrary: l r)
  case (Suc n)
  show ?case using Suc [of "l + 1" "r + 1"] by (auto simp: All_less_Suc2)
qed simp

section \<open>Null-terminated strings\<close>

definition cstr :: "mem \<Rightarrow> nat \<Rightarrow> u8 list \<Rightarrow> bool" where
  "cstr m p s \<longleftrightarrow> (\<forall>i < length s. m (p + i) = s ! i) \<and> m (p + length s) = 0 \<and> 0 \<notin> set s"

lemma cstr_Nil [simp]: "cstr m p [] \<longleftrightarrow> m p = 0"
  by (simp add: cstr_def)

lemma cstr_Cons [simp]: "cstr m p (c # s) \<longleftrightarrow> m p = c \<and> c \<noteq> 0 \<and> cstr m (p + 1) s"
  by (auto simp: cstr_def All_less_Suc2)

lemma cstr_unique: "cstr m p s \<Longrightarrow> cstr m p t \<Longrightarrow> s = t"
proof (induction s arbitrary: p t)
  case Nil
  then show ?case by (cases t) auto
next
  case (Cons c s)
  then show ?case by (cases t) auto
qed

lemma strlen_loop_cstr: "cstr m p s \<Longrightarrow> strlen_loop m p = Some (p + length s)"
  by (induction s arbitrary: p) (subst strlen_loop.simps, simp)+

lemma strlen_cstr: "cstr m p s \<Longrightarrow> strlen m p = Some (length s)"
  by (simp add: strlen_def strlen_loop_cstr)

lemma strchr_cstr:
  "cstr m p s \<Longrightarrow> \<exists>r. strchr m p c = Some r \<and>
     (case r of
        None \<Rightarrow> \<forall>x \<in> set s. char_val x \<noteq> c
      | Some q \<Rightarrow> \<exists>i < length s. q = p + i \<and> char_val (s ! i) = c \<and> (\<forall>j < i. char_val (s ! j) \<noteq> c))"
proof (induction s arbitrary: p)
  case Nil
  then show ?case by (subst strchr.simps) simp
next
  case (Cons x s)
  show ?case
  proof (cases "char_val x = c")
    case True
    then have "strchr m p c = Some (Some p)" using Cons.prems by (subst strchr.simps) auto
    then show ?thesis using True by (auto intro!: exI [of _ "0 :: nat"])
  next
    case False
    then have e: "strchr m p c = strchr m (p + 1) c" using Cons.prems by (subst strchr.simps) auto
    obtain r where r: "strchr m (p + 1) c = Some r"
      "case r of None \<Rightarrow> \<forall>x \<in> set s. char_val x \<noteq> c
       | Some q \<Rightarrow> \<exists>i < length s. q = p + 1 + i \<and> char_val (s ! i) = c \<and> (\<forall>j < i. char_val (s ! j) \<noteq> c)"
      using Cons.IH [of "p + 1"] Cons.prems by auto
    show ?thesis
    proof (cases r)
      case None
      then show ?thesis using e r False by auto
    next
      case (Some q)
      then obtain i where i: "i < length s" "q = p + 1 + i" "char_val (s ! i) = c" "\<forall>j < i. char_val (s ! j) \<noteq> c"
        using r(2) by auto
      have "\<forall>j < Suc i. char_val ((x # s) ! j) \<noteq> c" using i(4) False by (auto simp: All_less_Suc2)
      then show ?thesis using e r(1) Some i by (auto intro!: exI [of _ "Suc i"])
    qed
  qed
qed

lemma strcmp_cstr:
  assumes "cstr m l s" and "cstr m r t"
  shows "\<exists>x. strcmp m l r = Some x \<and> (x = 0 \<longleftrightarrow> s = t) \<and>
    (x < 0 \<longrightarrow> (\<exists>i. take i s = take i t \<and> char_val (m (l + i)) < char_val (m (r + i))))"
  using assms
proof (induction s arbitrary: l r t)
  case Nil
  then show ?case
    by (cases t; subst strcmp.simps) (auto simp: exI [of _ 0] intro!: exI [of _ "0 :: nat"])
next
  case (Cons c s)
  show ?case
  proof (cases "m r = c")
    case True
    then obtain u where t: "t = c # u" using Cons.prems by (cases t) auto
    obtain x where x: "strcmp m (l + 1) (r + 1) = Some x" "x = 0 \<longleftrightarrow> s = u"
      "x < 0 \<longrightarrow> (\<exists>i. take i s = take i u \<and> char_val (m (l + 1 + i)) < char_val (m (r + 1 + i)))"
      using Cons.IH [of "l + 1" "r + 1" u] Cons.prems t by auto
    have "strcmp m l r = Some x" using x(1) True Cons.prems by (subst strcmp.simps) simp
    moreover have "\<exists>i. take i (c # s) = take i t \<and> char_val (m (l + i)) < char_val (m (r + i))" if "x < 0"
      using x(3) that t by (metis add.assoc plus_1_eq_Suc take_Suc_Cons)
    ultimately show ?thesis using x(2) t by auto
  next
    case False
    then have "strcmp m l r = Some (char_val c - char_val (m r))" using Cons.prems by (subst strcmp.simps) simp
    moreover have "c # s \<noteq> t" using False Cons.prems by (cases t) auto
    ultimately show ?thesis using False Cons.prems by (auto intro!: exI [of _ "0 :: nat"])
  qed
qed

lemma strcpy_cstr:
  assumes "cstr m s x" and "d + length x < s \<or> s + length x < d"
  shows "\<exists>m'. strcpy d s m = Some m' \<and> cstr m' d x \<and> (\<forall>a. a < d \<or> d + length x < a \<longrightarrow> m' a = m a)"
  using assms
proof (induction x arbitrary: d s m)
  case Nil
  then show ?case by (subst strcpy.simps) auto
next
  case (Cons c x)
  let ?m = "m(d := m s)"
  have "cstr ?m (s + 1) x"
    using Cons.prems unfolding cstr_def by (auto simp: All_less_Suc2)
  moreover have "d + 1 + length x < s + 1 \<or> s + 1 + length x < d + 1" using Cons.prems(2) by auto
  ultimately obtain m' where m': "strcpy (d + 1) (s + 1) ?m = Some m'" "cstr m' (d + 1) x"
    "\<forall>a. a < d + 1 \<or> d + 1 + length x < a \<longrightarrow> m' a = ?m a"
    using Cons.IH by blast
  have "strcpy d s m = Some m'" using Cons.prems(1) m'(1) by (subst strcpy.simps) simp
  moreover have "cstr m' d (c # x)" using m'(2,3) Cons.prems(1) by simp
  ultimately show ?case using m'(3) by auto
qed

section \<open>Reading numbers\<close>

definition digit_of :: "u8 \<Rightarrow> nat option" where
  "digit_of b = index_of digit_chars (tolower (char_val b)) 0"

fun horner :: "u64 \<Rightarrow> nat list \<Rightarrow> u64 \<Rightarrow> u64" where
  "horner base [] a = a"
| "horner base (d # ds) a = horner base ds (a * base + of_nat d)"

lemma strtoul_loop_digits:
  assumes "\<forall>i < length ds. digit_of (m (p + i)) = Some (ds ! i)" and "digit_of (m (p + length ds)) = None"
  shows "strtoul_loop m p base a = Some (horner base ds a, p + length ds)"
  using assms
proof (induction ds arbitrary: p a)
  case Nil
  then show ?case by (subst strtoul_loop.simps) (simp add: digit_of_def)
next
  case (Cons d ds)
  have "digit_of (m p) = Some d" using Cons.prems(1) by force
  moreover have "strtoul_loop m (p + 1) base (a * base + of_nat d) = Some (horner base ds (a * base + of_nat d), p + 1 + length ds)"
    by (rule Cons.IH) (use Cons.prems in \<open>auto simp: All_less_Suc2\<close>)
  ultimately show ?case by (subst strtoul_loop.simps) (simp add: digit_of_def)
qed

lemma strtoul_digits:
  assumes "\<forall>i < length ds. digit_of (m (p + i)) = Some (ds ! i)" and "digit_of (m (p + length ds)) = None" and "base \<noteq> 0"
  shows "strtoul m p base = Some (horner (word_of_int base) ds 0, p + length ds)"
  using strtoul_loop_digits [OF assms(1,2)] assms(3) by (simp add: strtoul_def)

definition bytes_of :: "string \<Rightarrow> u8 list" where
  "bytes_of s = map (\<lambda>c. word_of_nat (of_char c)) s"

definition mem_of :: "u8 list \<Rightarrow> mem" where
  "mem_of bs a = (if a < length bs then bs ! a else 0)"

lemma cstr_mem_of: "0 \<notin> set bs \<Longrightarrow> cstr (mem_of bs) 0 bs"
  by (simp add: cstr_def mem_of_def)

section \<open>Properties\<close>

text \<open>C14: \<^verbatim>\<open>memmove\<close> copies the source block as it was before the call, for every overlap of the two
  blocks, and changes no byte outside the destination.\<close>

theorem memmove_correct:
  "memmove dst src n m = (\<lambda>a. if dst \<le> a \<and> a < dst + n then m (src + (a - dst)) else m a)"
  by (cases "dst > src") (simp_all add: memmove_def memcpy_r_apply memcpy_apply)

text \<open>On null-terminated strings the string functions return: \<^verbatim>\<open>strlen\<close> the length, \<^verbatim>\<open>strcmp\<close> zero
  exactly for equal strings and otherwise the order of the first bytes that differ, and \<^verbatim>\<open>strcpy\<close>
  into a disjoint block makes an equal string and writes nothing else.\<close>

theorem cstring_functions_correct:
  assumes "cstr m p s" and "cstr m q t" and "d + length s < p \<or> p + length s < d"
  shows "strlen m p = Some (length s) \<and>
    (\<exists>x. strcmp m p q = Some x \<and> (x = 0 \<longleftrightarrow> s = t) \<and>
       (x < 0 \<longrightarrow> (\<exists>i. take i s = take i t \<and> char_val (m (p + i)) < char_val (m (q + i))))) \<and>
    (\<exists>m'. strcpy d p m = Some m' \<and> cstr m' d s \<and> (\<forall>a. a < d \<or> d + length s < a \<longrightarrow> m' a = m a))"
  using strlen_cstr [OF assms(1)] strcmp_cstr [OF assms(1,2)] strcpy_cstr [OF assms(1,3)] by blast

theorem cstring_functions_correct_witness:
  "strlen (mem_of (bytes_of ''init'')) 0 = Some 4 \<and>
   (\<exists>m'. strcpy 10 0 (mem_of (bytes_of ''init'')) = Some m' \<and> cstr m' 10 (bytes_of ''init''))"
proof -
  have "cstr (mem_of (bytes_of ''init'')) 0 (bytes_of ''init'')"
    by (rule cstr_mem_of) (simp add: bytes_of_def)
  from cstring_functions_correct [OF this this, of 10] show ?thesis by (auto simp: bytes_of_def)
qed



end
