(* ===== verification/Format.thy ===== *)
theory Format
  imports CString
begin

text \<open>
  Formatted output: \<^verbatim>\<open>src/vsinkprintf.c\<close> and the buffer sink of \<^verbatim>\<open>src/stdio.c\<close>. A sink is the function
  its \<^verbatim>\<open>write\<close> callback computes on the sink's state. The format string and string arguments are
  addresses in a byte memory; the arguments are the 64-bit words that \<^verbatim>\<open>va_arg\<close> reads. Missing
  arguments and division by a zero base are the value \<^term>\<open>None\<close>. The format and the strings are read
  in the memory at the call: as in standard C, the buffer of \<^verbatim>\<open>vsnprintf\<close> does not overlap them.
\<close>

section \<open>Sinks\<close>

type_synonym 's sink = "u8 list \<Rightarrow> 's \<Rightarrow> 's"

definition vsinkprintf_write :: "'s sink \<Rightarrow> u8 list \<Rightarrow> 's \<Rightarrow> 's" where
  "vsinkprintf_write write data st = write data st"

definition vsinkprintf_putchar :: "'s sink \<Rightarrow> int \<Rightarrow> 's \<Rightarrow> 's" where
  "vsinkprintf_putchar write c st = write [word_of_int c] st"

fun vsinkprintf_repeat :: "'s sink \<Rightarrow> int \<Rightarrow> nat \<Rightarrow> 's \<Rightarrow> 's" where
  "vsinkprintf_repeat write c 0 st = st"
| "vsinkprintf_repeat write c (Suc n) st = vsinkprintf_repeat write c n (vsinkprintf_putchar write c st)"

definition mem_bytes :: "mem \<Rightarrow> nat \<Rightarrow> nat \<Rightarrow> u8 list" where
  "mem_bytes m p n = map (\<lambda>i. m (p + i)) [0..<n]"

definition vsinkprintf_puts_nonewline :: "'s sink \<Rightarrow> mem \<Rightarrow> nat \<Rightarrow> 's \<Rightarrow> 's option" where
  "vsinkprintf_puts_nonewline write m str st = do {
     len \<leftarrow> strlen m str;
     Some (write (mem_bytes m str len) st)
   }"

section \<open>Decoding a conversion\<close>

datatype format_type = FT_NONE | FT_CHAR | FT_STR | FT_PERCENT | FT_PTR | FT_INTMAX | FT_SIZE | FT_PTRDIFF
  | FT_LLONG | FT_LONG | FT_INT | FT_SHORT | FT_BYTE | FT_INVALID

definition FF_SIGNED :: nat where "FF_SIGNED = 1"
definition FF_ZEROPAD :: nat where "FF_ZEROPAD = 2"
definition FF_SIGN :: nat where "FF_SIGN = 4"
definition FF_PREFIX :: nat where "FF_PREFIX = 8"

record format_spec =
  fs_type :: format_type
  fs_flags :: nat
  fs_base :: nat
  fs_qualifier :: int
  fs_width :: int

partial_function (option) skip_text :: "mem \<Rightarrow> nat \<Rightarrow> nat option" where
  "skip_text m fmt = (if m fmt \<noteq> 0 \<and> char_val (m fmt) \<noteq> 37 then skip_text m (fmt + 1) else Some fmt)"

partial_function (option) decode_flags :: "mem \<Rightarrow> nat \<Rightarrow> nat \<Rightarrow> (nat \<times> nat) option" where
  "decode_flags m fmt flags =
     (let fmt = fmt + 1; c = char_val (m fmt)
      in if c = 43 then decode_flags m fmt (flags OR FF_SIGN)
         else if c = 35 then decode_flags m fmt (flags OR FF_PREFIX)
         else Some (fmt, flags))"

definition length_mod :: "int list" where
  "length_mod = [104, 108, 106, 122, 116]"

text \<open>The letter of the length modifier, doubled as its capital, and the position after it.\<close>

definition decode_qualifier :: "mem \<Rightarrow> nat \<Rightarrow> int \<times> nat" where
  "decode_qualifier m fmt =
     (if char_val (m fmt) \<in> set length_mod
      then let q = char_val (m fmt); fmt = fmt + 1
           in if char_val (m fmt) = q then (toupper q, fmt + 1) else (q, fmt)
      else (0, fmt))"

definition qualifier_type :: "int \<Rightarrow> format_type" where
  "qualifier_type q =
     (if q = 72 then FT_BYTE
      else if q = 104 then FT_SHORT
      else if q = 108 then FT_LONG
      else if q = 76 then FT_LLONG
      else if q = 106 then FT_INTMAX
      else if q = 122 then FT_SIZE
      else if q = 116 then FT_PTRDIFF
      else FT_INT)"

definition format_decode :: "mem \<Rightarrow> nat \<Rightarrow> (nat \<times> format_spec) option" where
  "format_decode m start =
     (let spec = \<lparr>fs_type = FT_NONE, fs_flags = 0, fs_base = 10, fs_qualifier = 0, fs_width = 0\<rparr>
      in do {
        fmt \<leftarrow> skip_text m start;
        if fmt \<noteq> start \<or> m fmt = 0 then Some (fmt - start, spec)
        else do {
          (fmt, flags) \<leftarrow> decode_flags m fmt 0;
          (width, fmt) \<leftarrow> (if isdigit (char_val (m fmt))
                           then do { (v, p) \<leftarrow> strtol m fmt 10; Some (sint (ucast v :: u32), p) }
                           else Some (0, fmt));
          let (q, fmt) = decode_qualifier m fmt;
          let spec = spec\<lparr>fs_flags := flags, fs_width := width, fs_qualifier := q\<rparr>;
          let c = char_val (m fmt);
          if c = 99 then Some (fmt + 1 - start, spec\<lparr>fs_type := FT_CHAR\<rparr>)
          else if c = 115 then Some (fmt + 1 - start, spec\<lparr>fs_type := FT_STR\<rparr>)
          else if c = 37 then Some (fmt + 1 - start, spec\<lparr>fs_type := FT_PERCENT\<rparr>)
          else if c = 112 then
            Some (fmt + 1 - start, spec\<lparr>fs_type := FT_PTR, fs_base := 16, fs_flags := FF_PREFIX\<rparr>)
          else
            let spec = (if c = 100 \<or> c = 105 then spec\<lparr>fs_flags := fs_flags spec OR FF_SIGNED\<rparr>
                        else if c = 111 then spec\<lparr>fs_base := 8\<rparr>
                        else if c = 120 \<or> c = 88 then spec\<lparr>fs_base := 16\<rparr>
                        else if c = 117 then spec
                        else spec\<lparr>fs_type := FT_INVALID\<rparr>);
                spec = spec\<lparr>fs_type := qualifier_type q\<rparr>
            in Some (fmt + 1 - start, spec)
        }
      })"

section \<open>Numbers\<close>

definition digit_byte :: "nat \<Rightarrow> u8" where
  "digit_byte d = word_of_int (digit_chars ! d)"

partial_function (option) untoa_loop :: "u64 \<Rightarrow> u64 \<Rightarrow> u8 list \<Rightarrow> u8 list option" where
  "untoa_loop value base str =
     (if base = 0 then None
      else let str = str @ [digit_byte (unat (value mod base))]; value = value div base
           in if value \<noteq> 0 then untoa_loop value base str else Some str)"

fun swap_ends :: "nat \<Rightarrow> nat \<Rightarrow> nat \<Rightarrow> 'a list \<Rightarrow> 'a list" where
  "swap_ends 0 i pos str = str"
| "swap_ends (Suc k) i pos str =
     (let tmp = str ! i; str = str[i := str ! (pos - i - 1)]
      in swap_ends k (i + 1) pos (str[pos - i - 1 := tmp]))"

text \<open>The digits without the terminator; their number is the result of the C function.\<close>

definition untoa :: "u64 \<Rightarrow> u64 \<Rightarrow> u8 list option" where
  "untoa value base = do {
     str \<leftarrow> untoa_loop value base [];
     Some (swap_ends (length str div 2) 0 (length str) str)
   }"

definition format_number :: "'s sink \<Rightarrow> u64 \<Rightarrow> format_spec \<Rightarrow> 's \<Rightarrow> 's option" where
  "format_number write value spec st =
     (let negative = (fs_flags spec AND FF_SIGNED \<noteq> 0 \<and> sint value < 0)
      in do {
        num \<leftarrow> untoa (if negative then - value else value) (of_nat (fs_base spec));
        let sign = (if negative then [45] else if fs_flags spec AND FF_SIGN \<noteq> 0 then [43] else []);
        let prefix = (if fs_flags spec AND FF_PREFIX \<noteq> 0
                      then if fs_base spec = 8 then [48] else if fs_base spec = 16 then [48, 120] else []
                      else []);
        let len = int (length num + length sign + length prefix);
        let padding = (if len < fs_width spec then nat (fs_width spec - len) else 0);
        let st = vsinkprintf_repeat write 32 padding st;
        let st = write sign st;
        let st = write prefix st;
        Some (write num st)
      })"

section \<open>The formatter\<close>

definition arg_value :: "format_type \<Rightarrow> u64 \<Rightarrow> u64" where
  "arg_value ty a =
     (if ty \<in> {FT_PTR, FT_LLONG, FT_LONG, FT_INTMAX, FT_SIZE, FT_PTRDIFF} then a
      else word_of_int (sint (ucast a :: u32)))"

text \<open>The \<^verbatim>\<open>switch (spec.type)\<close> of the loop: the remaining arguments and the state of the sink.\<close>

definition format_item ::
  "'s sink \<Rightarrow> mem \<Rightarrow> nat \<Rightarrow> nat \<Rightarrow> format_spec \<Rightarrow> u64 list \<Rightarrow> 's \<Rightarrow> (u64 list \<times> 's) option" where
  "format_item write m save n spec args st =
     (case fs_type spec of
        FT_NONE \<Rightarrow> Some (args, vsinkprintf_write write (mem_bytes m save n) st)
      | FT_CHAR \<Rightarrow>
          (case args of
             [] \<Rightarrow> None
           | a # args \<Rightarrow>
               let st = vsinkprintf_repeat write 32 (nat (MAX_s (fs_width spec) 0)) st
               in Some (args, vsinkprintf_putchar write (sint (ucast a :: u8)) st))
      | FT_STR \<Rightarrow>
          (case args of
             [] \<Rightarrow> None
           | a # args \<Rightarrow> do {
               len \<leftarrow> strlen m (unat a);
               let st = vsinkprintf_repeat write 32 (nat (MAX_s (fs_width spec - int len) 0)) st;
               st \<leftarrow> vsinkprintf_puts_nonewline write m (unat a) st;
               Some (args, st)
             })
      | FT_PERCENT \<Rightarrow> Some (args, vsinkprintf_putchar write 37 st)
      | FT_INVALID \<Rightarrow> Some (args, vsinkprintf_putchar write 63 st)
      | ty \<Rightarrow>
          (case args of
             [] \<Rightarrow> None
           | a # args \<Rightarrow> do {
               st \<leftarrow> format_number write (arg_value ty a) spec st;
               Some (args, st)
             }))"

partial_function (option) vsinkprintf :: "'s sink \<Rightarrow> mem \<Rightarrow> nat \<Rightarrow> u64 list \<Rightarrow> 's \<Rightarrow> 's option" where
  "vsinkprintf write m fmt args st =
     (if m fmt = 0 then Some st
      else do {
        (n, spec) \<leftarrow> format_decode m fmt;
        (args, st) \<leftarrow> format_item write m fmt n spec args st;
        vsinkprintf write m (fmt + n) args st
      })"

section \<open>The buffer sink of vsnprintf\<close>

record buffer_sink =
  bs_mem :: mem
  bs_data :: nat
  bs_size :: int
  bs_pos :: int

definition write_bytes :: "nat \<Rightarrow> u8 list \<Rightarrow> mem \<Rightarrow> mem" where
  "write_bytes p bs m = (\<lambda>a. if p \<le> a \<and> a < p + length bs then bs ! (a - p) else m a)"

definition vsinkprintf_buffer_write :: "u8 list \<Rightarrow> buffer_sink \<Rightarrow> buffer_sink" where
  "vsinkprintf_buffer_write data buf =
     (let remain = MAX_s (bs_size buf - 1 - bs_pos buf) 0;
          buf = (if remain \<noteq> 0
                 then buf\<lparr>bs_mem := write_bytes (bs_data buf + nat (bs_pos buf)) (take (nat remain) data) (bs_mem buf)\<rparr>
                 else buf)
      in buf\<lparr>bs_pos := bs_pos buf + int (length data)\<rparr>)"

definition vsnprintf :: "mem \<Rightarrow> nat \<Rightarrow> int \<Rightarrow> nat \<Rightarrow> u64 list \<Rightarrow> (int \<times> mem) option" where
  "vsnprintf m buf sz fmt args = do {
     sink \<leftarrow> vsinkprintf vsinkprintf_buffer_write m fmt args
       \<lparr>bs_mem = m, bs_data = buf, bs_size = sz, bs_pos = 0\<rparr>;
     let i = MIN_s (bs_size sink - 1) (bs_pos sink);
     Some (bs_pos sink, (bs_mem sink)(nat (int (bs_data sink) + i) := 0))
   }"

section \<open>Digits\<close>

function radix_rev :: "nat \<Rightarrow> nat \<Rightarrow> nat list" where
  "radix_rev b n = n mod b # (if b < 2 \<or> n div b = 0 then [] else radix_rev b (n div b))"
  by pat_completeness auto
termination
proof (relation "measure snd")
  fix b n :: nat
  assume "\<not> (b < 2 \<or> n div b = 0)"
  then have "1 < b" "0 < n" by (auto intro: gr0I)
  then show "((b, n div b), b, n) \<in> measure snd" by simp
qed simp

declare radix_rev.simps [simp del]

definition radix :: "nat \<Rightarrow> nat \<Rightarrow> nat list" where
  "radix b n = rev (radix_rev b n)"

lemma radix_rev_digits: "0 < b \<Longrightarrow> d \<in> set (radix_rev b n) \<Longrightarrow> d < b"
proof (induction b n rule: radix_rev.induct)
  case (1 b n)
  then show ?case by (subst (asm) (2) radix_rev.simps) (auto split: if_splits)
qed

lemma radix_rev_value: "2 \<le> b \<Longrightarrow> foldr (\<lambda>d a. d + b * a) (radix_rev b n) 0 = n"
proof (induction b n rule: radix_rev.induct)
  case (1 b n)
  then show ?case by (subst radix_rev.simps) (auto simp: div_eq_0_iff)
qed

lemma radix_rev_length: "2 \<le> b \<Longrightarrow> n < 2 ^ k \<Longrightarrow> 0 < k \<Longrightarrow> length (radix_rev b n) \<le> k"
proof (induction b n arbitrary: k rule: radix_rev.induct)
  case (1 b n)
  show ?case
  proof (cases "n div b = 0")
    case True
    then show ?thesis using "1.prems" by (subst radix_rev.simps) simp
  next
    case False
    have "n div b \<le> n div 2" using "1.prems"(1) by (rule div_le_mono2 [rotated]) simp
    also have "\<dots> < 2 ^ (k - 1)" using "1.prems"(2,3) by (cases k) auto
    finally have lt: "n div b < 2 ^ (k - 1)" .
    then have "0 < k - 1" using False by (cases "k - 1") auto
    with "1.IH" [of "k - 1"] "1.prems" False lt show ?thesis by (subst radix_rev.simps) auto
  qed
qed

lemma swap_ends_length [simp]: "length (swap_ends k i n xs) = length xs"
  by (induction k i n xs rule: swap_ends.induct) (auto simp: Let_def)

lemma swap_ends_nth:
  assumes "n = length xs" and "i + k = n div 2" and "j < n"
  shows "swap_ends k i n xs ! j = (if i \<le> j \<and> j < n - i then xs ! (n - 1 - j) else xs ! j)"
  using assms
proof (induction k i n xs arbitrary: j rule: swap_ends.induct)
  case (1 i n xs)
  then have "i = n div 2" by simp
  then have "n - 1 - j = j" if "i \<le> j" "j < n - i" using that by linarith
  then show ?case by simp
next
  case (2 k i n xs)
  let ?ys = "xs[i := xs ! (n - i - 1), n - i - 1 := xs ! i]"
  have i: "i < n div 2" "i < length xs" "n - i - 1 < length xs" "i \<noteq> n - i - 1" using "2.prems" by auto
  have ih: "swap_ends k (i + 1) n ?ys ! j = (if i + 1 \<le> j \<and> j < n - (i + 1) then ?ys ! (n - 1 - j) else ?ys ! j)"
    using "2.IH" [OF refl refl, of j] "2.prems" i by simp
  have ys: "?ys ! t = (if t = n - i - 1 then xs ! i else if t = i then xs ! (n - i - 1) else xs ! t)" if "t < n" for t
    using that i "2.prems"(1) by (simp add: nth_list_update)
  show ?case
  proof (cases "j = i \<or> j = n - i - 1")
    case True
    then have "\<not> (i + 1 \<le> j \<and> j < n - (i + 1))" "i \<le> j" "j < n - i" "j = i \<longrightarrow> n - 1 - j = n - i - 1"
      "j = n - i - 1 \<longrightarrow> n - 1 - j = i" using i "2.prems" by linarith+
    then show ?thesis using True ih ys [OF "2.prems"(3)] by (simp add: Let_def split: if_splits)
  next
    case False
    have t: "n - 1 - j < n" using "2.prems"(3) by simp
    have "(i + 1 \<le> j \<and> j < n - (i + 1)) = (i \<le> j \<and> j < n - i)" "n - 1 - j \<noteq> i" "n - 1 - j \<noteq> n - i - 1"
      using False i "2.prems" by linarith+
    then show ?thesis using False ih ys [OF "2.prems"(3)] ys [OF t] by (simp add: Let_def)
  qed
qed

lemma swap_ends_rev: "swap_ends (length xs div 2) 0 (length xs) xs = rev xs"
  by (rule nth_equalityI) (simp_all add: swap_ends_nth rev_nth)

lemma untoa_loop_radix:
  assumes "2 \<le> unat base"
  shows "untoa_loop v base str = Some (str @ map digit_byte (radix_rev (unat base) (unat v)))"
proof (induction "unat v" arbitrary: v str rule: less_induct)
  case less
  have b0: "base \<noteq> 0" using assms by auto
  let ?v = "v div base"
  have uv: "unat ?v = unat v div unat base" "unat (v mod base) = unat v mod unat base"
    by (simp_all add: unat_div_distrib unat_mod_distrib)
  have nz: "?v \<noteq> 0 \<longleftrightarrow> unat v div unat base \<noteq> 0" using uv(1) by (metis unsigned_0 unat_eq_zero)
  show ?case
  proof (cases "?v = 0")
    case True
    then show ?thesis using nz uv b0 by (subst untoa_loop.simps, subst radix_rev.simps) simp
  next
    case False
    then have "unat ?v < unat v"
      using nz uv(1) assms by (metis One_nat_def Suc_1 Suc_le_lessD div_less_dividend div_0 gr0I)
    from less.hyps [OF this, of "str @ [digit_byte (unat (v mod base))]"]
    show ?thesis using False nz uv b0 assms
      by (subst untoa_loop.simps, subst radix_rev.simps) simp
  qed
qed

lemma untoa_radix: "2 \<le> unat base \<Longrightarrow> untoa value base = Some (map digit_byte (radix (unat base) (unat value)))"
  using swap_ends_rev [of "map digit_byte (radix_rev (unat base) (unat value))"]
  by (simp add: untoa_def untoa_loop_radix radix_def rev_map)

lemma digit_byte_15: "digit_byte 15 = 102"
  by code_simp

lemma digit_of_byte: "d < 36 \<Longrightarrow> digit_of (digit_byte d) = Some d"
proof -
  have "\<forall>d \<in> {0..<36}. digit_of (digit_byte d) = Some d" by code_simp
  then show "d < 36 \<Longrightarrow> digit_of (digit_byte d) = Some d" by simp
qed

lemma horner_append: "horner b (xs @ ys) a = horner b ys (horner b xs a)"
  by (induction xs arbitrary: a) auto

lemma horner_radix:
  assumes "2 \<le> b"
  shows "horner (of_nat b) (radix b n) 0 = of_nat n"
proof -
  have "horner (of_nat b) (rev ds) 0 = of_nat (foldr (\<lambda>d a. d + b * a) ds 0)" for ds
    by (induction ds) (simp_all add: horner_append algebra_simps)
  then show ?thesis unfolding radix_def by (simp add: radix_rev_value [OF assms])
qed

section \<open>Formats as sequences of items\<close>

definition holds_at :: "mem \<Rightarrow> nat \<Rightarrow> u8 list \<Rightarrow> bool" where
  "holds_at m p bs \<longleftrightarrow> (\<forall>i < length bs. m (p + i) = bs ! i)"

lemma holds_at_simps [simp]:
  "holds_at m p []" "holds_at m p (b # bs) \<longleftrightarrow> m p = b \<and> holds_at m (p + 1) bs"
  "holds_at m p (as @ bs) \<longleftrightarrow> holds_at m p as \<and> holds_at m (p + length as) bs"
proof -
  show "holds_at m p []" "holds_at m p (b # bs) \<longleftrightarrow> m p = b \<and> holds_at m (p + 1) bs" for p b bs
    by (auto simp: holds_at_def All_less_Suc2)
  then show "holds_at m p (as @ bs) \<longleftrightarrow> holds_at m p as \<and> holds_at m (p + length as) bs"
    by (induction as arbitrary: p) auto
qed

lemma cstr_append: "cstr m p (as @ bs) \<longleftrightarrow> holds_at m p as \<and> 0 \<notin> set as \<and> cstr m (p + length as) bs"
  by (induction as arbitrary: p) auto

lemma mem_bytes_holds: "holds_at m p bs \<Longrightarrow> mem_bytes m p (length bs) = bs"
  by (rule nth_equalityI) (auto simp: mem_bytes_def holds_at_def)

datatype item = Lit "u8 list" | CChar | CStr | CPct | CNum "u8 list" "u8 list" u8

fun item_bytes :: "item \<Rightarrow> u8 list" where
  "item_bytes (Lit s) = s"
| "item_bytes CChar = [37, 99]"
| "item_bytes CStr = [37, 115]"
| "item_bytes CPct = [37, 37]"
| "item_bytes (CNum fl q c) = 37 # fl @ q @ [c]"

fun item_ok :: "item \<Rightarrow> bool" where
  "item_ok (Lit s) \<longleftrightarrow> s \<noteq> [] \<and> 0 \<notin> set s \<and> 37 \<notin> set s"
| "item_ok (CNum fl q c) \<longleftrightarrow> set fl \<subseteq> {43, 35} \<and>
     q \<in> {[], [104], [104, 104], [108], [108, 108], [106], [122], [116]} \<and> c \<in> {100, 105, 111, 120, 88, 117}"
| "item_ok _ \<longleftrightarrow> True"

fun items_ok :: "item list \<Rightarrow> bool" where
  "items_ok (Lit s # Lit t # its) \<longleftrightarrow> False"
| "items_ok (it # its) \<longleftrightarrow> item_ok it \<and> items_ok its"
| "items_ok [] \<longleftrightarrow> True"

definition qual_of :: "u8 list \<Rightarrow> int" where
  "qual_of q = (case q of [] \<Rightarrow> 0 | [x] \<Rightarrow> char_val x | x # _ \<Rightarrow> toupper (char_val x))"

definition conv_base :: "u8 \<Rightarrow> nat" where
  "conv_base c = (if c = 111 then 8 else if c = 120 \<or> c = 88 then 16 else 10)"

text \<open>What a conversion of a number prints: sign, prefix and the digits of its magnitude.\<close>

definition number_text :: "u8 list \<Rightarrow> u8 list \<Rightarrow> u8 \<Rightarrow> u64 \<Rightarrow> u8 list" where
  "number_text fl q c a =
     (let v = arg_value (qualifier_type (qual_of q)) a;
          neg = (c \<in> {100, 105} \<and> sint v < 0);
          sign = (if neg then [45] else if 43 \<in> set fl then [43] else []);
          prefix = (if 35 \<in> set fl then if conv_base c = 8 then [48] else if conv_base c = 16 then [48, 120] else [] else [])
      in sign @ prefix @ map digit_byte (radix (conv_base c) (unat (if neg then - v else v))))"

fun render :: "mem \<Rightarrow> item list \<Rightarrow> u64 list \<Rightarrow> u8 list option" where
  "render m [] args = Some []"
| "render m (Lit s # its) args = map_option ((@) s) (render m its args)"
| "render m (CPct # its) args = map_option ((@) [37]) (render m its args)"
| "render m (CChar # its) (a # args) = map_option ((@) [ucast a]) (render m its args)"
| "render m (CStr # its) (a # args) =
     (case strlen m (unat a) of
        None \<Rightarrow> None
      | Some n \<Rightarrow> map_option ((@) (mem_bytes m (unat a) n)) (render m its args))"
| "render m (CNum fl q c # its) (a # args) = map_option ((@) (number_text fl q c a)) (render m its args)"
| "render m (_ # its) [] = None"

lemma skip_text_ok:
  assumes "holds_at m p s" and "0 \<notin> set s" "37 \<notin> set s" and "m (p + length s) = 0 \<or> m (p + length s) = 37"
  shows "skip_text m p = Some (p + length s)"
proof -
  have pc: "char_val b = 37 \<longleftrightarrow> b = 37" for b
    using char_val_inj [of b 37] by (simp add: char_val_def)
  show ?thesis using assms
  proof (induction s arbitrary: p)
    case Nil
    then show ?case by (subst skip_text.simps) (auto simp: pc)
  next
    case (Cons b s)
    then have "skip_text m (p + 1) = Some (p + 1 + length s)" by (intro Cons.IH) auto
    then show ?case using Cons.prems by (subst skip_text.simps) (auto simp: pc)
  qed
qed

fun flag_bits :: "u8 list \<Rightarrow> nat \<Rightarrow> nat" where
  "flag_bits [] f = f"
| "flag_bits (b # bs) f = flag_bits bs (f OR (if b = 43 then FF_SIGN else FF_PREFIX))"

lemma char_vals [simp]:
  "char_val 43 = 43" "char_val 35 = 35" "char_val 37 = 37" "char_val 0 = 0" "char_val 99 = 99" "char_val 115 = 115"
  "char_val 100 = 100" "char_val 105 = 105" "char_val 111 = 111" "char_val 120 = 120" "char_val 88 = 88"
  "char_val 117 = 117" "char_val 104 = 104" "char_val 108 = 108" "char_val 106 = 106" "char_val 122 = 122" "char_val 116 = 116"
  by (simp_all add: char_val_def)

lemma decode_flags_ok:
  assumes "holds_at m (p + 1) fl" and "set fl \<subseteq> {43, 35}" and "m (p + 1 + length fl) \<notin> {43, 35}"
  shows "decode_flags m p f = Some (p + 1 + length fl, flag_bits fl f)"
  using assms
proof (induction fl arbitrary: p f)
  case Nil
  have "char_val (m (p + 1)) \<noteq> 43" "char_val (m (p + 1)) \<noteq> 35"
    using Nil.prems(3) char_val_inj [of "m (p + 1)" 43] char_val_inj [of "m (p + 1)" 35] by auto
  then show ?case by (subst decode_flags.simps) (simp add: Let_def)
next
  case (Cons b fl)
  have "decode_flags m (p + 1) (f OR (if b = 43 then FF_SIGN else FF_PREFIX)) =
      Some (p + 1 + 1 + length fl, flag_bits fl (f OR (if b = 43 then FF_SIGN else FF_PREFIX)))"
    by (rule Cons.IH) (use Cons.prems in auto)
  then show ?case using Cons.prems by (subst decode_flags.simps) (auto simp: Let_def)
qed

lemma flag_tests:
  "x AND FF_SIGNED \<noteq> 0 \<longleftrightarrow> bit x 0" "x AND FF_SIGN \<noteq> 0 \<longleftrightarrow> bit x 2" "x AND FF_PREFIX \<noteq> 0 \<longleftrightarrow> bit x 3" for x :: nat
  by (simp_all add: FF_SIGNED_def FF_SIGN_def FF_PREFIX_def bit_iff_and_push_bit_not_eq_0 push_bit_eq_mult)

lemma flag_push_bit: "FF_SIGNED = push_bit 0 1" "FF_SIGN = push_bit 2 1" "FF_PREFIX = push_bit 3 1"
  by (simp_all add: FF_SIGNED_def FF_SIGN_def FF_PREFIX_def push_bit_eq_mult)

lemma bit_flags [simp]:
  "bit FF_SIGNED n \<longleftrightarrow> n = 0" "bit FF_SIGN n \<longleftrightarrow> n = 2" "bit FF_PREFIX n \<longleftrightarrow> n = 3"
  unfolding flag_push_bit bit_push_bit_iff_nat bit_1_iff by auto

lemma bit_flag_bits:
  "set fl \<subseteq> {43, 35} \<Longrightarrow> bit (flag_bits fl f) n \<longleftrightarrow> bit f n \<or> (n = 2 \<and> 43 \<in> set fl) \<or> (n = 3 \<and> 35 \<in> set fl)"
  by (induction fl arbitrary: f) (auto simp: bit_or_iff)

definition spec0 :: format_spec where
  "spec0 = \<lparr>fs_type = FT_NONE, fs_flags = 0, fs_base = 10, fs_qualifier = 0, fs_width = 0\<rparr>"

lemma decode_literal:
  assumes "holds_at m p s" and "s \<noteq> []" "0 \<notin> set s" "37 \<notin> set s" and "m (p + length s) = 0 \<or> m (p + length s) = 37"
  shows "format_decode m p = Some (length s, spec0)"
  using assms by (simp add: format_decode_def skip_text_ok spec0_def)

lemma decode_letter:
  assumes "m p = 37" and "m (p + 1) = c" and "c \<in> {99, 115, 37}"
  shows "format_decode m p =
    Some (Suc (Suc 0), spec0\<lparr>fs_type := if c = 99 then FT_CHAR else if c = 115 then FT_STR else FT_PERCENT\<rparr>)"
proof -
  have "skip_text m p = Some p" using assms(1) skip_text_ok [of m p "[]"] by simp
  moreover have "decode_flags m p 0 = Some (p + 1, 0)"
    using assms(2,3) decode_flags_ok [of m p "[]" 0] by auto
  ultimately show ?thesis using assms
    by (auto simp: format_decode_def isdigit_def decode_qualifier_def length_mod_def spec0_def)
qed

lemma conversion_letter:
  assumes "c \<in> {100, 105, 111, 120, 88, 117}"
  shows "char_val c \<notin> set length_mod" and "\<not> isdigit (char_val c)" and "c \<notin> {43, 35}"
  using assms by (elim insertE; simp add: length_mod_def isdigit_def)+

lemma modifier_letter:
  assumes "x \<in> {104, 108, 106, 122, 116}"
  shows "char_val x \<in> set length_mod" and "\<not> isdigit (char_val x)" and "x \<notin> {43, 35}"
  using assms by (elim insertE; simp add: length_mod_def isdigit_def)+

lemma modifier_cases:
  assumes "q \<in> {[], [104], [104, 104], [108], [108, 108], [106], [122], [116 :: u8]}"
  obtains "q = []" | x where "q = [x]" "x \<in> {104, 108, 106, 122, 116}"
    | x where "q = [x, x]" "x \<in> {104, 108, 106, 122, 116}"
  using assms by blast

lemma decode_qualifier_ok:
  assumes "holds_at m p (q @ [c])" and "q \<in> {[], [104], [104, 104], [108], [108, 108], [106], [122], [116]}"
    and "c \<in> {100, 105, 111, 120, 88, 117}"
  shows "decode_qualifier m p = (qual_of q, p + length q)" and "\<not> isdigit (char_val (m p))"
    and "m p \<notin> {43, 35}"
proof -
  note c = conversion_letter [OF assms(3)]
  have "decode_qualifier m p = (qual_of q, p + length q) \<and> \<not> isdigit (char_val (m p)) \<and> m p \<notin> {43, 35}"
    using assms(2)
  proof (cases rule: modifier_cases)
    case 1
    then show ?thesis using assms(1) c by (simp add: decode_qualifier_def qual_of_def)
  next
    case (2 x)
    note x = modifier_letter [OF 2(2)]
    have "char_val c \<noteq> char_val x" using c(1) x(1) by metis
    then show ?thesis using assms(1) 2(1) x by (simp add: decode_qualifier_def qual_of_def)
  next
    case (3 x)
    note x = modifier_letter [OF 3(2)]
    show ?thesis using assms(1) 3(1) x by (simp add: decode_qualifier_def qual_of_def)
  qed
  then show "decode_qualifier m p = (qual_of q, p + length q)" "\<not> isdigit (char_val (m p))" "m p \<notin> {43, 35}"
    by simp_all
qed

lemma decode_number:
  assumes "holds_at m p (37 # fl @ q @ [c])" and "item_ok (CNum fl q c)"
  shows "format_decode m p = Some (length fl + length q + 2,
    \<lparr>fs_type = qualifier_type (qual_of q), fs_flags = flag_bits fl 0 OR (if c \<in> {100, 105} then FF_SIGNED else 0),
     fs_base = conv_base c, fs_qualifier = qual_of q, fs_width = 0\<rparr>)"
proof -
  let ?p = "p + 1 + length fl"
  have m: "m p = 37" "holds_at m (p + 1) fl" "holds_at m ?p (q @ [c])" "m (?p + length q) = c"
    using assms(1) by simp_all
  have ok: "set fl \<subseteq> {43, 35}" "q \<in> {[], [104], [104, 104], [108], [108, 108], [106], [122], [116]}"
    "c \<in> {100, 105, 111, 120, 88, 117}" using assms(2) by simp_all
  note q = decode_qualifier_ok [OF m(3) ok(2,3)]
  have "skip_text m p = Some p" using m(1) skip_text_ok [of m p "[]"] by simp
  moreover have "decode_flags m p 0 = Some (?p, flag_bits fl 0)"
    by (rule decode_flags_ok [OF m(2) ok(1) q(3)])
  moreover have "char_val c \<notin> {99, 115, 37, 112}" "char_val c = 100 \<or> char_val c = 105 \<longleftrightarrow> c \<in> {100, 105}"
    "char_val c = 111 \<longleftrightarrow> c = 111" "char_val c = 120 \<or> char_val c = 88 \<longleftrightarrow> c = 120 \<or> c = 88"
    "char_val c \<in> {100, 105, 111, 120, 88, 117}"
    using ok(3) by (elim insertE; simp)+
  ultimately show ?thesis using q(1,2) m(1,4)
    by (auto simp: format_decode_def conv_base_def)
qed

lemma qualifier_type_number: "qualifier_type q \<notin> {FT_NONE, FT_CHAR, FT_STR, FT_PERCENT, FT_INVALID, FT_PTR}"
  by (simp add: qualifier_type_def)

section \<open>Sinks that consume a stream of bytes\<close>

text \<open>
  The contract of a sink: writing two pieces is writing their concatenation. Under it the formatter
  only determines the bytes written, whatever the pieces are.
\<close>

locale byte_sink =
  fixes emit :: "'s sink" and live :: "'s \<Rightarrow> bool"
  assumes live_emit: "live st \<Longrightarrow> live (emit bs st)"
    and emit_nil: "live st \<Longrightarrow> emit [] st = st"
    and emit_append: "live st \<Longrightarrow> emit bs (emit as st) = emit (as @ bs) st"
begin

lemma emit_number:
  assumes "live st" and "fs_width spec = 0" and "2 \<le> fs_base spec" "fs_base spec < 37"
  shows "format_number emit v spec st =
    (let neg = (bit (fs_flags spec) 0 \<and> sint v < 0)
     in Some (emit ((if neg then [45] else if bit (fs_flags spec) 2 then [43] else []) @
          (if bit (fs_flags spec) 3 then if fs_base spec = 8 then [48] else if fs_base spec = 16 then [48, 120] else [] else []) @
          map digit_byte (radix (fs_base spec) (unat (if neg then - v else v)))) st))"
proof -
  have "unat (of_nat (fs_base spec) :: u64) = fs_base spec"
    using assms(4) by (simp add: unat_of_nat64)
  then have "untoa w (of_nat (fs_base spec)) = Some (map digit_byte (radix (fs_base spec) (unat w)))" for w
    using untoa_radix [of "of_nat (fs_base spec)" w] assms(3) by simp
  then show ?thesis using assms(1,2)
    unfolding format_number_def flag_tests by (simp add: Let_def emit_append live_emit)
qed

lemma emit_item:
  assumes "live st" and "item_ok it" and "holds_at m p (item_bytes it)"
    and "\<And>t. it = Lit t \<Longrightarrow> m (p + length t) = 0 \<or> m (p + length t) = 37"
    and "render m (it # its) args = Some out"
  shows "\<exists>spec args' out1 out2. format_decode m p = Some (length (item_bytes it), spec) \<and>
    format_item emit m p (length (item_bytes it)) spec args st = Some (args', emit out1 st) \<and>
    render m its args' = Some out2 \<and> out = out1 @ out2"
proof (cases it)
  case (Lit t)
  then have "format_decode m p = Some (length t, spec0)" using assms(2-4) by (intro decode_literal) simp_all
  moreover have "mem_bytes m p (length t) = t" using Lit assms(3) by (simp add: mem_bytes_holds)
  ultimately show ?thesis using Lit assms(5)
    by (auto simp: format_item_def spec0_def vsinkprintf_write_def)
next
  case CChar
  then obtain a as where "args = a # as" using assms(5) by (cases args) auto
  then show ?thesis using CChar assms(3,5) decode_letter [of m p 99]
    by (auto simp: format_item_def spec0_def vsinkprintf_putchar_def MAX_s_def)
next
  case CStr
  then obtain a as n where a: "args = a # as" "strlen m (unat a) = Some n"
    using assms(5) by (cases args) (auto split: option.splits)
  then show ?thesis using CStr assms(3,5) decode_letter [of m p 115]
    by (auto simp: format_item_def spec0_def vsinkprintf_puts_nonewline_def MAX_s_def)
next
  case CPct
  then show ?thesis using assms(3,5) decode_letter [of m p 37]
    by (auto simp: format_item_def spec0_def vsinkprintf_putchar_def)
next
  case (CNum fl q c)
  obtain a as where a: "args = a # as" using CNum assms(5) by (cases args) auto
  let ?flags = "flag_bits fl 0 OR (if c \<in> {100, 105} then FF_SIGNED else 0)"
  let ?spec = "\<lparr>fs_type = qualifier_type (qual_of q), fs_flags = ?flags, fs_base = conv_base c,
    fs_qualifier = qual_of q, fs_width = 0\<rparr>"
  have fl: "set fl \<subseteq> {43, 35}" using assms(2) CNum by simp
  have dec: "format_decode m p = Some (length (item_bytes it), ?spec)"
    using decode_number [of m p fl q c] assms(2,3) CNum by simp
  have bits: "bit ?flags 0 \<longleftrightarrow> c \<in> {100, 105}" "bit ?flags 2 \<longleftrightarrow> 43 \<in> set fl" "bit ?flags 3 \<longleftrightarrow> 35 \<in> set fl"
    by (auto simp: bit_or_iff bit_flag_bits [OF fl])
  have "2 \<le> conv_base c" "conv_base c < 37" by (simp_all add: conv_base_def)
  then have "format_number emit (arg_value (qualifier_type (qual_of q)) a) ?spec st = Some (emit (number_text fl q c a) st)"
    using assms(1) by (subst emit_number) (simp_all only: format_spec.simps bits number_text_def Let_def)
  then have "format_item emit m p (length (item_bytes it)) ?spec args st = Some (as, emit (number_text fl q c a) st)"
    using a qualifier_type_number [of "qual_of q"]
    by (cases "qualifier_type (qual_of q)") (simp_all add: format_item_def)
  then show ?thesis using dec a CNum assms(5) by auto
qed

lemma emit_formatted:
  assumes "live st" and "items_ok its" and "cstr m p (concat (map item_bytes its))" and "render m its args = Some out"
  shows "vsinkprintf emit m p args st = Some (emit out st)"
  using assms
proof (induction its arbitrary: p args st out)
  case Nil
  then show ?case by (subst vsinkprintf.simps) (simp add: emit_nil)
next
  case (Cons it its)
  have ok: "item_ok it" "items_ok its" using Cons.prems(2) by (cases it; cases its; simp; cases "hd its"; simp)+
  have m: "holds_at m p (item_bytes it)" "0 \<notin> set (item_bytes it)" "cstr m (p + length (item_bytes it)) (concat (map item_bytes its))"
    using Cons.prems(3) by (simp_all add: cstr_append)
  have end_lit: "m (p + length t) = 0 \<or> m (p + length t) = 37" if "it = Lit t" for t
    using that Cons.prems(2) m(3) by (cases its; simp; cases "hd its"; simp)
  obtain spec args' out1 out2 where step: "format_decode m p = Some (length (item_bytes it), spec)"
    "format_item emit m p (length (item_bytes it)) spec args st = Some (args', emit out1 st)"
    "render m its args' = Some out2" "out = out1 @ out2"
    using emit_item [OF Cons.prems(1) ok(1) m(1) end_lit Cons.prems(4)] by blast
  have "vsinkprintf emit m (p + length (item_bytes it)) args' (emit out1 st) = Some (emit out2 (emit out1 st))"
    by (rule Cons.IH) (use Cons.prems(1) ok m(3) step(3) in \<open>simp_all add: live_emit\<close>)
  moreover have "m p \<noteq> 0" using m(1,2) ok(1) by (cases it; cases "item_bytes it"; auto)
  ultimately show ?case using step Cons.prems(1) by (subst vsinkprintf.simps) (simp add: emit_append)
qed

end

text \<open>The buffer of \<^verbatim>\<open>vsnprintf\<close> and the console of \<^verbatim>\<open>vprintf\<close> are such sinks.\<close>

record console_sink =
  con_output :: "u8 list"
  con_count :: int

definition vsinkprintf_console_write :: "u8 list \<Rightarrow> console_sink \<Rightarrow> console_sink" where
  "vsinkprintf_console_write data con =
     (let con = con\<lparr>con_output := con_output con @ data\<rparr>
      in con\<lparr>con_count := con_count con + int (length data)\<rparr>)"

definition vprintf :: "mem \<Rightarrow> nat \<Rightarrow> u64 list \<Rightarrow> u8 list \<Rightarrow> (int \<times> u8 list) option" where
  "vprintf m fmt args out = do {
     con \<leftarrow> vsinkprintf vsinkprintf_console_write m fmt args \<lparr>con_output = out, con_count = 0\<rparr>;
     Some (con_count con, con_output con)
   }"

definition putchar :: "int \<Rightarrow> u8 list \<Rightarrow> int \<times> u8 list" where
  "putchar c out = (0, out @ [word_of_int c])"

definition puts :: "mem \<Rightarrow> nat \<Rightarrow> u8 list \<Rightarrow> (int \<times> u8 list) option" where
  "puts m str out = do {
     len \<leftarrow> strlen m str;
     let out = out @ mem_bytes m str len;
     Some (0, snd (putchar 10 out))
   }"

interpretation console: byte_sink vsinkprintf_console_write "\<lambda>_. True"
  by unfold_locales (simp_all add: vsinkprintf_console_write_def)

lemma write_bytes_append:
  "write_bytes (p + length as) bs (write_bytes p as m) = write_bytes p (as @ bs) m"
  by (rule ext) (auto simp: write_bytes_def nth_append)

lemma write_bytes_nil [simp]: "write_bytes p [] m = m"
  by (rule ext) (auto simp: write_bytes_def)

lemma buffer_write_alt:
  assumes "0 \<le> bs_pos b"
  shows "vsinkprintf_buffer_write data b =
    b\<lparr>bs_mem := write_bytes (bs_data b + nat (bs_pos b)) (take (nat (bs_size b - 1 - bs_pos b)) data) (bs_mem b),
      bs_pos := bs_pos b + int (length data)\<rparr>"
  by (auto simp: vsinkprintf_buffer_write_def MAX_s_def Let_def)

interpretation buffer: byte_sink vsinkprintf_buffer_write "\<lambda>b. 0 \<le> bs_pos b"
proof
  fix st :: buffer_sink and as bs :: "u8 list"
  assume st: "0 \<le> bs_pos st"
  show "0 \<le> bs_pos (vsinkprintf_buffer_write bs st)" "vsinkprintf_buffer_write [] st = st"
    using st by (simp_all add: buffer_write_alt)
  let ?n = "nat (bs_size st - 1 - bs_pos st)"
  have "write_bytes (bs_data st + nat (bs_pos st + int (length as))) (take (nat (bs_size st - 1 - (bs_pos st + int (length as)))) bs)
      (write_bytes (bs_data st + nat (bs_pos st)) (take ?n as) (bs_mem st)) =
    write_bytes (bs_data st + nat (bs_pos st)) (take ?n (as @ bs)) (bs_mem st)"
  proof (cases "length as < ?n")
    case True
    then have e: "bs_data st + nat (bs_pos st + int (length as)) = bs_data st + nat (bs_pos st) + length (take ?n as)"
      "nat (bs_size st - 1 - (bs_pos st + int (length as))) = ?n - length as" using st by simp_all
    show ?thesis unfolding e write_bytes_append by simp
  qed simp
  then show "vsinkprintf_buffer_write bs (vsinkprintf_buffer_write as st) = vsinkprintf_buffer_write (as @ bs) st"
    using st by (simp add: buffer_write_alt add.assoc)
qed



text \<open>C12: printing an unsigned number in any base from 2 to 36 and reading it back with strtoul in the
  same base gives the number, and leaves the end pointer at the terminator.
\<close>

theorem untoa_strtoul_roundtrip:
  assumes "2 \<le> b" and "b \<le> 36" and "untoa v (of_nat b) = Some ds" and "cstr m p ds"
  shows "strtoul m p (int b) = Some (v, p + length ds)"
proof -
  have b: "unat (of_nat b :: u64) = b" using assms(2) by (simp add: unat_of_nat64)
  have ds: "ds = map digit_byte (radix b (unat v))"
    using untoa_radix [of "of_nat b" v] assms(1,3) b by simp
  have "digit_of (m (p + i)) = Some (radix b (unat v) ! i)" if i: "i < length (radix b (unat v))" for i
  proof -
    have "m (p + i) = digit_byte (radix b (unat v) ! i)" using assms(4) i by (simp add: cstr_def ds)
    moreover have "radix b (unat v) ! i \<in> set (radix_rev b (unat v))" using nth_mem [OF i] by (simp add: radix_def)
    then have "radix b (unat v) ! i < 36" using radix_rev_digits [of b] assms(1,2) by fastforce
    ultimately show ?thesis by (simp add: digit_of_byte)
  qed
  moreover have "digit_of (m (p + length (radix b (unat v)))) = None"
  proof -
    have "m (p + length (radix b (unat v))) = 0" using assms(4) by (simp add: cstr_def ds)
    moreover have "digit_of 0 = None" by code_simp
    ultimately show ?thesis by simp
  qed
  ultimately have "strtoul m p (int b) = Some (horner (word_of_int (int b)) (radix b (unat v)) 0, p + length ds)"
    using strtoul_digits [of "radix b (unat v)" m p "int b"] assms(1) by (simp add: ds)
  then show ?thesis using horner_radix [OF assms(1), of "unat v"] by simp
qed

theorem untoa_strtoul_roundtrip_witness:
  "strtoul (mem_of (bytes_of ''ff'')) 0 16 = Some (255, 2)"
proof -
  have "untoa 255 (of_nat 16) = Some (bytes_of ''ff'')"
  proof -
    have "radix 16 255 = [15, 15]" by (simp add: radix_def radix_rev.simps)
    then show ?thesis using untoa_radix [of 16 255] by (simp add: digit_byte_15 bytes_of_def)
  qed
  moreover have "cstr (mem_of (bytes_of ''ff'')) 0 (bytes_of ''ff'')"
    by (rule cstr_mem_of) (simp add: bytes_of_def)
  ultimately show ?thesis using untoa_strtoul_roundtrip [of 16 255 "bytes_of ''ff''"] by (simp add: bytes_of_def)
qed

text \<open>C13: the digits of any 64-bit number in any base of at least 2 fit the 256-byte buffer of
  format_number, terminator included, and untoa does return.
\<close>

theorem untoa_bounded:
  assumes "2 \<le> unat base"
  shows "\<exists>ds. untoa v base = Some ds \<and> 1 \<le> length ds \<and> length ds \<le> 64"
proof -
  have "unat v < 2 ^ 64" using unat_less_2p64 [of v] by simp
  then have "length (radix (unat base) (unat v)) \<le> 64"
    unfolding radix_def using radix_rev_length [OF assms, of "unat v" 64] by simp
  moreover have "radix (unat base) (unat v) \<noteq> []" unfolding radix_def by (subst radix_rev.simps) simp
  ultimately show ?thesis by (simp add: untoa_radix [OF assms] Suc_le_eq)
qed

theorem untoa_bounded_witness: "\<exists>ds. untoa (- 1) 2 = Some ds \<and> 1 \<le> length ds \<and> length ds \<le> 64"
  using untoa_bounded [of 2 "- 1"] by simp

end
