(* ===== verification/Kernel_Heap.thy ===== *)
theory Kernel_Heap
  imports Slab_Inv
begin

text \<open>
  The memory services as their clients see them: objects from caches (\<^verbatim>\<open>kmem_cache_alloc\<close>) and whole
  pages (\<^verbatim>\<open>alloc_pages\<close>) from the same page allocator. The invariant names the objects that are live
  in each cache and the blocks of pages that the clients hold; file systems and threads rely on it.
\<close>

definition heap_alloc_pages :: "nat \<Rightarrow> kmem \<Rightarrow> (page_ptr option \<times> kmem) option" where
  "heap_alloc_pages order st = do {
     (p, m) \<leftarrow> alloc_pages order (k_mem st);
     Some (p, st\<lparr>k_mem := m\<rparr>)
   }"

definition heap_free_pages :: "page_ptr option \<Rightarrow> nat \<Rightarrow> kmem \<Rightarrow> kmem" where
  "heap_free_pages p order st = upd_mem (free_pages p order) st"

lemma kmem_core_mem:
  assumes core: "kmem_core P st K ls av U L" and new: "mem_ready m U' (L \<union> P')" "L \<inter> P' = {}"
    and fr: "same_frame (k_mem st) m"
    and pages: "\<And>p. (p, 0) \<in> L \<Longrightarrow> page_of m p = page_of (k_mem st) p"
  shows "kmem_core P' (st\<lparr>k_mem := m\<rparr>) K ls av U' L"
proof -
  note d = kmem_coreD [OF core]
  have inv: "mem_inv m U' (L \<union> P')" using new(1) by (simp add: mem_ready_def)
  have "slab_ok (st\<lparr>k_mem := m\<rparr>) c s (av s)" if "c \<in> K" "s \<in> slabs_of ls c" for c s
  proof -
    let ?p = "sl_pages (k_slab st s)"
    have so: "slab_ok st c s (av s)" by (rule d(5) [OF that])
    then have v: "valid_page (k_mem st) ?p" unfolding slab_ok_def Let_def by blast
    have "page_of m ?p = page_of (k_mem st) ?p" by (rule pages [OF d(6) [OF that]])
    then show ?thesis using so page_addr_frame [OF d(2) inv fr v] unfolding slab_ok_def Let_def by simp
  qed
  then show ?thesis using core new unfolding kmem_core_def by simp
qed

lemma kmem_inv_mem:
  assumes "kmem_core P' (st\<lparr>k_mem := m\<rparr>) K ls av U' L" and "\<forall>c \<in> K. buckets_ok st ls av c"
    and "\<forall>c \<in> K. live c = live_objects st ls av c"
  shows "kmem_inv P' (st\<lparr>k_mem := m\<rparr>) K live"
proof -
  have "\<forall>c \<in> K. buckets_ok (st\<lparr>k_mem := m\<rparr>) ls av c" "\<forall>c \<in> K. live c = live_objects (st\<lparr>k_mem := m\<rparr>) ls av c"
    using assms(2,3) by (simp_all add: buckets_ok_def live_objects_def)
  then show ?thesis unfolding kmem_inv_def using assms(1) by blast
qed

lemma block_page_self: "p \<in> page_extent (p, k)"
  by (cases p) (auto simp: page_extent_def blk_def image_iff)

lemma heap_alloc_pages_ok:
  assumes "kmem_inv P st K live" and "k < BUDDY_ORDERS"
  shows "\<exists>r st'. heap_alloc_pages k st = Some (r, st') \<and> k_cache st' = k_cache st \<and>
    (case r of None \<Rightarrow> st' = st \<and> (k = 0 \<longrightarrow> out_of_pages (k_mem st)) | Some p \<Rightarrow> (p, k) \<notin> P \<and> kmem_inv (insert (p, k) P) st' K live)"
proof -
  obtain ls av U L where core: "kmem_core P st K ls av U L" and b: "\<forall>c \<in> K. buckets_ok st ls av c"
    and l: "\<forall>c \<in> K. live c = live_objects st ls av c" using assms(1) by (auto simp: kmem_inv_def)
  note d = kmem_coreD [OF core]
  obtain r m where a: "alloc_pages_type k NT_HIGH (k_mem st) = Some (r, m)"
    "case r of None \<Rightarrow> m = k_mem st \<and> (\<forall>n \<in> set (tried_nodes NT_HIGH (k_mem st)). \<forall>q. 2 ^ k dvd q \<longrightarrow> \<not> page_extent ((n, q), k) \<subseteq> U)
     | Some p \<Rightarrow> fst p \<in> set (tried_nodes NT_HIGH (k_mem st)) \<and> (p, k) \<notin> L \<union> P \<and> page_extent (p, k) \<subseteq> U \<and>
         mem_ready m (U - page_extent (p, k)) (insert (p, k) (L \<union> P)) \<and> ms_rflags m = ms_rflags (k_mem st)"
    using alloc_pages_type_ok [OF d(1) assms(2), of NT_HIGH] by blast
  have call: "heap_alloc_pages k st = Some (r, st\<lparr>k_mem := m\<rparr>)" using a(1) by (simp add: heap_alloc_pages_def alloc_pages_def)
  show ?thesis
  proof (cases r)
    case None
    then show ?thesis using call a out_of_pagesI [of "k_mem st" m] by auto
  next
    case (Some p)
    have new: "(p, k) \<notin> L" "(p, k) \<notin> P" "mem_ready m (U - page_extent (p, k)) (L \<union> insert (p, k) P)" using a(2) Some by auto
    note fr = alloc_pages_type_frame [OF d(1) assms(2) a(1)]
    have "page_of m q = page_of (k_mem st) q" if "(q, 0) \<in> L" for q
      using fr(2) live_valid_page(2) [OF d(2), of "fst q" "snd q" 0 0] that by simp
    moreover have "L \<inter> insert (p, k) P = {}" using new(1) core by (simp add: kmem_core_def)
    ultimately have "kmem_core (insert (p, k) P) (st\<lparr>k_mem := m\<rparr>) K ls av (U - page_extent (p, k)) L"
      by (intro kmem_core_mem [OF core new(3) _ fr(1)])
    from kmem_inv_mem [OF this b l] show ?thesis using call Some new(2) by simp
  qed
qed

lemma heap_free_pages_ok:
  assumes "kmem_inv P st K live" and "(p, k) \<in> P"
  shows "kmem_inv (P - {(p, k)}) (heap_free_pages (Some p) k st) K live"
    and "k_cache (heap_free_pages (Some p) k st) = k_cache st"
proof -
  obtain ls av U L where core: "kmem_core P st K ls av U L" and b: "\<forall>c \<in> K. buckets_ok st ls av c"
    and l: "\<forall>c \<in> K. live c = live_objects st ls av c" using assms(1) by (auto simp: kmem_inv_def)
  note d = kmem_coreD [OF core]
  let ?m = "free_pages (Some p) k (k_mem st)"
  have pL: "(p, k) \<in> L \<union> P" "(p, k) \<notin> L" "L \<inter> P = {}" using assms(2) core by (auto simp: kmem_core_def)
  have rdy: "mem_ready ?m (U \<union> page_extent (p, k)) (L \<union> (P - {(p, k)}))"
    using free_pages_ok(1) [OF d(1) pL(1)] pL by (simp add: Un_Diff)
  note fr = free_pages_frame [OF d(1) pL(1)]
  have "page_of ?m q = page_of (k_mem st) q" if q: "(q, 0) \<in> L" for q
  proof (rule fr(2))
    have "q \<notin> U" using live_valid_page(2) [OF d(2), of "fst q" "snd q" 0 0] q by simp
    moreover have "disjnt (page_extent (q, 0)) (page_extent (p, k))"
      by (rule mem_inv_disjoint(1) [OF d(2)]) (use q pL in auto)
    ultimately show "q \<notin> U \<union> page_extent (p, k)" using block_page_self [of q 0] by (cases q) (auto simp: disjnt_iff)
  qed
  then have "kmem_core (P - {(p, k)}) (st\<lparr>k_mem := ?m\<rparr>) K ls av (U \<union> page_extent (p, k)) L"
    using pL(3) by (intro kmem_core_mem [OF core rdy _ fr(1)]) auto
  from kmem_inv_mem [OF this b l] show "kmem_inv (P - {(p, k)}) (heap_free_pages (Some p) k st) K live"
    by (simp add: heap_free_pages_def upd_mem_def)
  show "k_cache (heap_free_pages (Some p) k st) = k_cache st" by (simp add: heap_free_pages_def)
qed

section \<open>What the services leave alone\<close>

lemma held_page:
  assumes "kmem_inv P st K live" and "(p, 0) \<in> P"
  shows "valid_page (k_mem st) p" "page2pfn (k_mem st) p = frame_no (k_mem st) p"
    "pfn2page (k_mem st) (frame_no (k_mem st) p) = Some p" "frame_no (k_mem st) p < 2 ^ 24"
proof -
  obtain ls av U L where core: "kmem_core P st K ls av U L" using assms(1) by (auto simp: kmem_inv_def)
  note d = kmem_coreD [OF core]
  have v: "valid_page (k_mem st) p" using live_valid_page(1) [OF d(2), of "fst p" "snd p" 0 0] assms(2) by simp
  then show "valid_page (k_mem st) p" "page2pfn (k_mem st) p = frame_no (k_mem st) p"
    "pfn2page (k_mem st) (frame_no (k_mem st) p) = Some p" "frame_no (k_mem st) p < 2 ^ 24"
    using valid_page_facts [OF d(2) v] by simp_all
qed

lemma heap_alloc_pages_frame:
  assumes "kmem_inv P st K live" and "k < BUDDY_ORDERS" and "heap_alloc_pages k st = Some (r, st')"
  shows "same_frame (k_mem st) (k_mem st')" "(q, 0) \<in> P \<Longrightarrow> page_of (k_mem st') q = page_of (k_mem st) q"
proof -
  obtain ls av U L where core: "kmem_core P st K ls av U L" using assms(1) by (auto simp: kmem_inv_def)
  note d = kmem_coreD [OF core]
  have a: "alloc_pages_type k NT_HIGH (k_mem st) = Some (r, k_mem st')"
    using assms(3) by (auto simp: heap_alloc_pages_def alloc_pages_def split: Option.bind_splits)
  show "same_frame (k_mem st) (k_mem st')" by (rule alloc_pages_type_frame(1) [OF d(1) assms(2) a])
  assume "(q, 0) \<in> P"
  then have "q \<notin> U" using live_valid_page(2) [OF d(2), of "fst q" "snd q" 0 0] by simp
  then show "page_of (k_mem st') q = page_of (k_mem st) q" by (rule alloc_pages_type_frame(2) [OF d(1) assms(2) a])
qed

lemma heap_free_pages_frame:
  assumes "kmem_inv P st K live" and "(p, k) \<in> P"
  shows "same_frame (k_mem st) (k_mem (heap_free_pages (Some p) k st))"
    "(q, 0) \<in> P \<Longrightarrow> (q, 0) \<noteq> (p, k) \<Longrightarrow> page_of (k_mem (heap_free_pages (Some p) k st)) q = page_of (k_mem st) q"
proof -
  obtain ls av U L where core: "kmem_core P st K ls av U L" using assms(1) by (auto simp: kmem_inv_def)
  note d = kmem_coreD [OF core]
  have pL: "(p, k) \<in> L \<union> P" using assms(2) by simp
  have e: "k_mem (heap_free_pages (Some p) k st) = free_pages (Some p) k (k_mem st)" by (simp add: heap_free_pages_def)
  show "same_frame (k_mem st) (k_mem (heap_free_pages (Some p) k st))" unfolding e by (rule free_pages_frame(1) [OF d(1) pL])
  assume q: "(q, 0) \<in> P" "(q, 0) \<noteq> (p, k)"
  have "q \<notin> U" using live_valid_page(2) [OF d(2), of "fst q" "snd q" 0 0] q by simp
  moreover have "disjnt (page_extent (q, 0)) (page_extent (p, k))" by (rule mem_inv_disjoint(1) [OF d(2)]) (use q pL in auto)
  ultimately have "q \<notin> U \<union> page_extent (p, k)" using block_page_self [of q 0] by (cases q) (auto simp: disjnt_iff)
  then show "page_of (k_mem (heap_free_pages (Some p) k st)) q = page_of (k_mem st) q" unfolding e by (rule free_pages_frame(2) [OF d(1) pL])
qed

text \<open>The holder of a page may use the union in its descriptor.\<close>

lemma heap_set_u:
  assumes "kmem_inv P st K live" and p: "(p, 0) \<in> P"
    and ms': "ms' = node_upd (fst p) (page_upd (snd p) (\<lambda>x. x\<lparr>pg_u := u\<rparr>) (ms_nodes (k_mem st) ! fst p)) (k_mem st)"
  shows "kmem_inv P (st\<lparr>k_mem := ms'\<rparr>) K live" "same_frame (k_mem st) ms'"
    "pg_u (page_of ms' p) = u" "q \<noteq> p \<Longrightarrow> page_of ms' q = page_of (k_mem st) q" "page_node_id (page_of ms' q) = page_node_id (page_of (k_mem st) q)"
proof -
  obtain ls av U L where core: "kmem_core P st K ls av U L" and b: "\<forall>c \<in> K. buckets_ok st ls av c"
    and l: "\<forall>c \<in> K. live c = live_objects st ls av c" using assms(1) by (auto simp: kmem_inv_def)
  note d = kmem_coreD [OF core] and v = held_page(1) [OF assms(1) p]
  have pU: "(fst p, snd p) \<notin> U" using live_valid_page(2) [OF d(2), of "fst p" "snd p" 0 0] p by simp
  note rdy = mem_ready_set_u [OF d(1) pU ms']
  then show "same_frame (k_mem st) ms'" by simp
  show pg: "page_of ms' q = page_of (k_mem st) q" if "q \<noteq> p" for q
  proof (cases "fst q = fst p")
    case True
    then have "snd q \<noteq> snd p" using that by (auto simp: prod_eq_iff)
    then show ?thesis using v True by (simp add: ms' page_of_def valid_page_def)
  next
    case False
    then show ?thesis by (simp add: ms' page_of_def)
  qed
  show "pg_u (page_of ms' p) = u" using v by (simp add: ms' page_of_def valid_page_def)
  have "page_node_id (page_of ms' p) = page_node_id (page_of (k_mem st) p)"
    using v by (simp add: ms' page_of_def valid_page_def page_node_id_def)
  then show "page_node_id (page_of ms' q) = page_node_id (page_of (k_mem st) q)" using pg by (cases "q = p") simp_all
  have LP: "L \<inter> P = {}" using core by (simp add: kmem_core_def)
  then have "kmem_core P (st\<lparr>k_mem := ms'\<rparr>) K ls av U L"
    by (intro kmem_core_mem [OF core rdy(1) _ rdy(2)] pg) (use p in auto)
  from kmem_inv_mem [OF this b l] show "kmem_inv P (st\<lparr>k_mem := ms'\<rparr>) K live" .
qed

lemma heap_cache_alloc_ok:
  assumes "kmem_inv P st K live" and "c \<in> K"
  shows "\<exists>p st'. kmem_cache_alloc c st = Some (p, st') \<and> k_cache st' = k_cache st \<and> pages_kept P (k_mem st) (k_mem st') \<and>
    (if p = 0 then kmem_inv P st' K live else p \<notin> live c \<and> kmem_inv P st' K (live(c := insert p (live c))))"
proof -
  have "kc_ops (k_cache st c) = Small_cache_ops" using assms by (auto simp: kmem_inv_def kmem_core_def small_cache_ok_def)
  then have "cache_ops_create c pg st' = kmem_small_slab_create c pg st'" if "k_cache st' = k_cache st" for pg st'
    using that by (simp add: cache_ops_create_def)
  then obtain p st' where a: "kmem_cache_alloc c st = Some (p, st')" "k_cache st' = k_cache st" "pages_kept P (k_mem st) (k_mem st')"
    "if p = 0 then out_of_pages (k_mem st) \<and> out_of_pages (k_mem st') \<and> kmem_inv P st' K live
     else p \<notin> live c \<and> kmem_inv P st' K (live(c := insert p (live c)))"
    using kmem_cache_alloc_by_ok [OF assms, of cache_ops_create] unfolding kmem_cache_alloc_def by blast
  show ?thesis by (rule exI [of _ p], rule exI [of _ st']) (use a in \<open>cases "p = 0"; simp\<close>)
qed

end
