(* ===== verification/Rb_Tree.thy ===== *)
theory Rb_Tree
  imports Kernel_Prelude "HOL-Library.Tree" "HOL-Library.Monad_Syntax"
begin

text \<open>
  The red-black trees of \<^verbatim>\<open>src/rbtree.c\<close> (and of its copy \<^verbatim>\<open>src/hwfs/rbtree.c\<close>) on a heap of nodes. A node
  is an address, \<^verbatim>\<open>0\<close> is the null pointer, and the word \<^verbatim>\<open>parent\<close> with its colour bit is the two
  fields \<open>rb_parent\<close> and \<open>rb_color\<close>. An operation takes the heap and the root of its tree;
  \<^term>\<open>None\<close> stands for a null pointer that is followed or a loop that does not end.
\<close>

section \<open>Nodes\<close>

datatype color = RED | BLACK

record rb_heap =
  rb_left :: "nat \<Rightarrow> nat"
  rb_right :: "nat \<Rightarrow> nat"
  rb_parent :: "nat \<Rightarrow> nat"
  rb_color :: "nat \<Rightarrow> color"

type_synonym rb_tree = "rb_heap \<times> nat"

definition set_left :: "nat \<Rightarrow> nat \<Rightarrow> rb_heap \<Rightarrow> rb_heap" where
  "set_left n v h = h\<lparr>rb_left := (rb_left h)(n := v)\<rparr>"

definition set_right :: "nat \<Rightarrow> nat \<Rightarrow> rb_heap \<Rightarrow> rb_heap" where
  "set_right n v h = h\<lparr>rb_right := (rb_right h)(n := v)\<rparr>"

definition rb_set_parent :: "nat \<Rightarrow> nat \<Rightarrow> rb_heap \<Rightarrow> rb_heap" where
  "rb_set_parent n v h = h\<lparr>rb_parent := (rb_parent h)(n := v)\<rparr>"

definition rb_set_color :: "nat \<Rightarrow> color \<Rightarrow> rb_heap \<Rightarrow> rb_heap" where
  "rb_set_color n c h = h\<lparr>rb_color := (rb_color h)(n := c)\<rparr>"

definition rb_red :: "rb_heap \<Rightarrow> nat \<Rightarrow> bool" where
  "rb_red h n \<longleftrightarrow> n \<noteq> 0 \<and> rb_color h n = RED"

definition rb_black :: "rb_heap \<Rightarrow> nat \<Rightarrow> bool" where
  "rb_black h n \<longleftrightarrow> \<not> rb_red h n"

text \<open>A pointer that the code follows.\<close>

definition follow :: "nat \<Rightarrow> nat option" where
  "follow p = (if p = 0 then None else Some p)"

section \<open>Rotations\<close>

text \<open>The link from the parent of \<open>x\<close>, or the root, is set to \<open>y\<close>.\<close>

definition relink :: "nat \<Rightarrow> nat \<Rightarrow> nat \<Rightarrow> rb_tree \<Rightarrow> rb_tree" where
  "relink p x y = (\<lambda>(h, root).
     if p \<noteq> 0 then if rb_left h p = x then (set_left p y h, root) else (set_right p y h, root)
     else (h, y))"

definition rb_rotate_left :: "nat \<Rightarrow> rb_tree \<Rightarrow> rb_tree option" where
  "rb_rotate_left x = (\<lambda>(h, root). do {
     let p = rb_parent h x;
     r \<leftarrow> follow (rb_right h x);
     let h = set_right x (rb_left h r) h;
     let h = (if rb_right h x \<noteq> 0 then rb_set_parent (rb_right h x) x h else h);
     let h = set_left r x h;
     let h = rb_set_parent r p h;
     let (h, root) = relink p x r (h, root);
     Some (rb_set_parent x r h, root)
   })"

definition rb_rotate_right :: "nat \<Rightarrow> rb_tree \<Rightarrow> rb_tree option" where
  "rb_rotate_right x = (\<lambda>(h, root). do {
     let p = rb_parent h x;
     l \<leftarrow> follow (rb_left h x);
     let h = set_left x (rb_right h l) h;
     let h = (if rb_left h x \<noteq> 0 then rb_set_parent (rb_left h x) x h else h);
     let h = set_right l x h;
     let h = rb_set_parent l p h;
     let (h, root) = relink p x l (h, root);
     Some (rb_set_parent x l h, root)
   })"

section \<open>Order\<close>

partial_function (option) rightmost_loop :: "rb_heap \<Rightarrow> nat \<Rightarrow> nat option" where
  "rightmost_loop h n = (if rb_right h n \<noteq> 0 then rightmost_loop h (rb_right h n) else Some n)"

definition rb_rightmost :: "rb_heap \<Rightarrow> nat \<Rightarrow> nat option" where
  "rb_rightmost h n = (if n = 0 then Some 0 else rightmost_loop h n)"

partial_function (option) leftmost_loop :: "rb_heap \<Rightarrow> nat \<Rightarrow> nat option" where
  "leftmost_loop h n = (if rb_left h n \<noteq> 0 then leftmost_loop h (rb_left h n) else Some n)"

definition rb_leftmost :: "rb_heap \<Rightarrow> nat \<Rightarrow> nat option" where
  "rb_leftmost h n = (if n = 0 then Some 0 else leftmost_loop h n)"

partial_function (option) next_up :: "rb_heap \<Rightarrow> nat \<Rightarrow> nat \<Rightarrow> nat option" where
  "next_up h p n = (if p \<noteq> 0 \<and> rb_right h p = n then next_up h (rb_parent h p) p else Some p)"

definition rb_next :: "rb_heap \<Rightarrow> nat \<Rightarrow> nat option" where
  "rb_next h n =
     (if n = 0 then Some 0
      else if rb_right h n \<noteq> 0 then rb_leftmost h (rb_right h n)
      else next_up h (rb_parent h n) n)"

partial_function (option) prev_up :: "rb_heap \<Rightarrow> nat \<Rightarrow> nat \<Rightarrow> nat option" where
  "prev_up h p n = (if p \<noteq> 0 \<and> rb_left h p = n then prev_up h (rb_parent h p) p else Some p)"

definition rb_prev :: "rb_heap \<Rightarrow> nat \<Rightarrow> nat option" where
  "rb_prev h n =
     (if n = 0 then Some 0
      else if rb_left h n \<noteq> 0 then rb_rightmost h (rb_left h n)
      else prev_up h (rb_parent h n) n)"

section \<open>Insertion\<close>

text \<open>\<^verbatim>\<open>plink\<close> is the address of the link to write: the root or a side of the parent.\<close>

datatype plink = RootLink | LeftLink nat | RightLink nat

fun store_link :: "plink \<Rightarrow> nat \<Rightarrow> rb_tree \<Rightarrow> rb_tree" where
  "store_link RootLink n (h, root) = (h, n)"
| "store_link (LeftLink p) n (h, root) = (set_left p n h, root)"
| "store_link (RightLink p) n (h, root) = (set_right p n h, root)"

definition rb_link :: "nat \<Rightarrow> nat \<Rightarrow> plink \<Rightarrow> rb_tree \<Rightarrow> rb_tree" where
  "rb_link n parent plink = (\<lambda>(h, root).
     let h = rb_set_color n RED (rb_set_parent n parent h);
         h = set_left n 0 (set_right n 0 h)
     in store_link plink n (h, root))"

text \<open>The end of the loop body, once the uncle was found black: at most two rotations and a recolouring.\<close>

definition insert_rotate_left :: "nat \<Rightarrow> nat \<Rightarrow> nat \<Rightarrow> rb_tree \<Rightarrow> rb_tree option" where
  "insert_rotate_left n p g = (\<lambda>(h, root). do {
     (p, h, root) \<leftarrow> (if n = rb_right h p
                       then do { (h, root) \<leftarrow> rb_rotate_left p (h, root); Some (n, h, root) }
                       else Some (p, h, root));
     (h, root) \<leftarrow> rb_rotate_right g (h, root);
     Some (rb_set_color g RED (rb_set_color p BLACK h), root)
   })"

definition insert_rotate_right :: "nat \<Rightarrow> nat \<Rightarrow> nat \<Rightarrow> rb_tree \<Rightarrow> rb_tree option" where
  "insert_rotate_right n p g = (\<lambda>(h, root). do {
     (p, h, root) \<leftarrow> (if n = rb_left h p
                       then do { (h, root) \<leftarrow> rb_rotate_right p (h, root); Some (n, h, root) }
                       else Some (p, h, root));
     (h, root) \<leftarrow> rb_rotate_left g (h, root);
     Some (rb_set_color g RED (rb_set_color p BLACK h), root)
   })"

definition recolor_uncle :: "nat \<Rightarrow> nat \<Rightarrow> nat \<Rightarrow> rb_heap \<Rightarrow> rb_heap" where
  "recolor_uncle g p u h = rb_set_color u BLACK (rb_set_color p BLACK (rb_set_color g RED h))"

partial_function (option) insert_loop :: "nat \<Rightarrow> nat \<Rightarrow> rb_heap \<Rightarrow> nat \<Rightarrow> rb_tree option" where
  "insert_loop n p h root =
     (if rb_red h p then
        let g = rb_parent h p in
        if g = 0 then None
        else if p = rb_left h g then
          let r = rb_right h g in
          if rb_red h r then
            let h = recolor_uncle g p r h in insert_loop g (rb_parent h g) h root
          else insert_rotate_left n p g (h, root)
        else
          let l = rb_left h g in
          if rb_red h l then
            let h = recolor_uncle g p l h in insert_loop g (rb_parent h g) h root
          else insert_rotate_right n p g (h, root)
      else Some (h, root))"

definition rb_insert :: "nat \<Rightarrow> rb_tree \<Rightarrow> rb_tree option" where
  "rb_insert n = (\<lambda>(h, root). do {
     (h, root) \<leftarrow> insert_loop n (rb_parent h n) h root;
     root \<leftarrow> follow root;
     Some (rb_set_color root BLACK h, root)
   })"

section \<open>Removal\<close>

text \<open>
  One iteration of the loop that repairs a missing black node, for a child on the left and on the
  right of its parent. First a red sibling is rotated up; \<open>b\<close> is the sibling after that. Then the
  result is the next child and parent, and whether the loop is left by \<^verbatim>\<open>break\<close>.
\<close>

definition erase_red_left :: "nat \<Rightarrow> rb_tree \<Rightarrow> (nat \<times> rb_tree) option" where
  "erase_red_left parent = (\<lambda>(h, root).
     let b = rb_right h parent in
     if rb_red h b
     then do {
       let h = rb_set_color parent RED (rb_set_color b BLACK h);
       (h, root) \<leftarrow> rb_rotate_left parent (h, root);
       Some (rb_right h parent, h, root)
     }
     else Some (b, h, root))"

definition erase_black_left :: "nat \<Rightarrow> nat \<Rightarrow> rb_tree \<Rightarrow> (bool \<times> nat \<times> nat \<times> rb_tree) option" where
  "erase_black_left parent b = (\<lambda>(h, root). do {
     b \<leftarrow> follow b;
     if rb_black h (rb_left h b) \<and> rb_black h (rb_right h b)
     then let h = rb_set_color b RED h in Some (False, parent, rb_parent h parent, h, root)
     else do {
       (b, h, root) \<leftarrow>
         (if rb_black h (rb_right h b)
          then do {
            l \<leftarrow> follow (rb_left h b);
            let h = rb_set_color b RED (rb_set_color l BLACK h);
            (h, root) \<leftarrow> rb_rotate_right b (h, root);
            Some (rb_right h parent, h, root)
          }
          else Some (b, h, root));
       b \<leftarrow> follow b;
       let h = rb_set_color b (rb_color h parent) h;
       let h = rb_set_color parent BLACK h;
       let h = (if rb_right h b \<noteq> 0 then rb_set_color (rb_right h b) BLACK h else h);
       (h, root) \<leftarrow> rb_rotate_left parent (h, root);
       Some (True, root, parent, h, root)
     }
   })"

definition erase_red_right :: "nat \<Rightarrow> rb_tree \<Rightarrow> (nat \<times> rb_tree) option" where
  "erase_red_right parent = (\<lambda>(h, root).
     let b = rb_left h parent in
     if rb_red h b
     then do {
       let h = rb_set_color parent RED (rb_set_color b BLACK h);
       (h, root) \<leftarrow> rb_rotate_right parent (h, root);
       Some (rb_left h parent, h, root)
     }
     else Some (b, h, root))"

definition erase_black_right :: "nat \<Rightarrow> nat \<Rightarrow> rb_tree \<Rightarrow> (bool \<times> nat \<times> nat \<times> rb_tree) option" where
  "erase_black_right parent b = (\<lambda>(h, root). do {
     b \<leftarrow> follow b;
     if rb_black h (rb_right h b) \<and> rb_black h (rb_left h b)
     then let h = rb_set_color b RED h in Some (False, parent, rb_parent h parent, h, root)
     else do {
       (b, h, root) \<leftarrow>
         (if rb_black h (rb_left h b)
          then do {
            l \<leftarrow> follow (rb_right h b);
            let h = rb_set_color b RED (rb_set_color l BLACK h);
            (h, root) \<leftarrow> rb_rotate_left b (h, root);
            Some (rb_left h parent, h, root)
          }
          else Some (b, h, root));
       b \<leftarrow> follow b;
       let h = rb_set_color b (rb_color h parent) h;
       let h = rb_set_color parent BLACK h;
       let h = (if rb_left h b \<noteq> 0 then rb_set_color (rb_left h b) BLACK h else h);
       (h, root) \<leftarrow> rb_rotate_right parent (h, root);
       Some (True, root, parent, h, root)
     }
   })"

definition erase_fix_step :: "nat \<Rightarrow> nat \<Rightarrow> rb_tree \<Rightarrow> (bool \<times> nat \<times> nat \<times> rb_tree) option" where
  "erase_fix_step child parent hr = do {
     parent \<leftarrow> follow parent;
     if child = rb_left (fst hr) parent
     then do { (b, hr) \<leftarrow> erase_red_left parent hr; erase_black_left parent b hr }
     else do { (b, hr) \<leftarrow> erase_red_right parent hr; erase_black_right parent b hr }
   }"

partial_function (option) erase_fix_loop :: "nat \<Rightarrow> nat \<Rightarrow> rb_tree \<Rightarrow> (nat \<times> rb_tree) option" where
  "erase_fix_loop child parent hr =
     (if rb_black (fst hr) child \<and> child \<noteq> snd hr
      then do {
        (stop, child, parent, hr) \<leftarrow> erase_fix_step child parent hr;
        if stop then Some (child, hr) else erase_fix_loop child parent hr
      }
      else Some (child, hr))"

definition rb_erase_fix :: "nat \<Rightarrow> nat \<Rightarrow> rb_tree \<Rightarrow> rb_tree option" where
  "rb_erase_fix child parent hr = do {
     (child, h, root) \<leftarrow> erase_fix_loop child parent hr;
     Some (if child \<noteq> 0 then rb_set_color child BLACK h else h, root)
   }"

text \<open>\<^verbatim>\<open>*x = *node\<close>\<close>

definition copy_node :: "nat \<Rightarrow> nat \<Rightarrow> rb_heap \<Rightarrow> rb_heap" where
  "copy_node x n h = rb_set_color x (rb_color h n) (rb_set_parent x (rb_parent h n)
     (set_right x (rb_right h n) (set_left x (rb_left h n) h)))"

text \<open>The first half of the removal: the node that takes the place, its former colour, and the child
  and parent where a black node may be missing.\<close>

definition erase_splice :: "nat \<Rightarrow> rb_heap \<Rightarrow> (nat \<times> nat \<times> nat \<times> color \<times> rb_heap) option" where
  "erase_splice n h =
     (if rb_left h n \<noteq> 0 \<and> rb_right h n \<noteq> 0
      then do {
        x \<leftarrow> rb_next h n;
        x \<leftarrow> follow x;
        let c = rb_right h x;
        let color = rb_color h x;
        if x = rb_right h n
        then let h = set_left x (rb_left h n) h;
                 h = rb_set_color x (rb_color h n) (rb_set_parent x (rb_parent h n) h)
             in Some (x, c, x, color, rb_set_parent (rb_left h x) x h)
        else do {
          let p = rb_parent h x;
          let h = copy_node x n h;
          p \<leftarrow> follow p;
          let h = set_left p c h;
          let h = (if c \<noteq> 0 then rb_set_parent c p h else h);
          let h = rb_set_parent (rb_left h x) x h;
          Some (x, c, p, color, rb_set_parent (rb_right h x) x h)
        }
      }
      else
        let p = rb_parent h n;
            c = (if rb_left h n \<noteq> 0 then rb_left h n else rb_right h n)
        in Some (c, c, p, rb_color h n, if c \<noteq> 0 then rb_set_parent c p h else h))"

definition rb_erase :: "nat \<Rightarrow> rb_tree \<Rightarrow> rb_tree option" where
  "rb_erase n = (\<lambda>(h, root). do {
     (x, c, p, color, h) \<leftarrow> erase_splice n h;
     let hr = relink (rb_parent h n) n x (h, root);
     if color = BLACK then rb_erase_fix c p hr else Some hr
   })"

section \<open>Trees in the heap\<close>

type_synonym rbt = "(nat \<times> color) tree"

fun ptr :: "rbt \<Rightarrow> nat" where
  "ptr Leaf = 0"
| "ptr (Node l (x, k) r) = x"

abbreviation nodes :: "rbt \<Rightarrow> nat list" where
  "nodes t \<equiv> map fst (inorder t)"

fun rep :: "rb_heap \<Rightarrow> nat \<Rightarrow> rbt \<Rightarrow> bool" where
  "rep h par Leaf \<longleftrightarrow> True"
| "rep h par (Node l (x, k) r) \<longleftrightarrow> x \<noteq> 0 \<and> rb_parent h x = par \<and> rb_color h x = k \<and>
     rb_left h x = ptr l \<and> rb_right h x = ptr r \<and> rep h x l \<and> rep h x r"

definition tree_at :: "rb_heap \<Rightarrow> nat \<Rightarrow> rbt \<Rightarrow> bool" where
  "tree_at h root t \<longleftrightarrow> rep h 0 t \<and> root = ptr t \<and> distinct (nodes t)"

text \<open>Two heaps agree outside a set of nodes.\<close>

definition same_out :: "nat set \<Rightarrow> rb_heap \<Rightarrow> rb_heap \<Rightarrow> bool" where
  "same_out N h h' \<longleftrightarrow> (\<forall>y. y \<notin> N \<longrightarrow> rb_left h' y = rb_left h y \<and> rb_right h' y = rb_right h y \<and>
     rb_parent h' y = rb_parent h y \<and> rb_color h' y = rb_color h y)"

lemma same_out_refl [simp]: "same_out N h h"
  by (simp add: same_out_def)

lemma same_out_trans: "same_out N h h' \<Longrightarrow> same_out N h' h'' \<Longrightarrow> same_out N h h''"
  by (simp add: same_out_def)

lemma same_out_mono: "same_out N h h' \<Longrightarrow> N \<subseteq> N' \<Longrightarrow> same_out N' h h'"
  by (auto simp: same_out_def)

lemma rb_set_simps [simp]:
  "rb_left (set_left n v h) = (rb_left h)(n := v)" "rb_right (set_left n v h) = rb_right h"
  "rb_parent (set_left n v h) = rb_parent h" "rb_color (set_left n v h) = rb_color h"
  "rb_left (set_right n v h) = rb_left h" "rb_right (set_right n v h) = (rb_right h)(n := v)"
  "rb_parent (set_right n v h) = rb_parent h" "rb_color (set_right n v h) = rb_color h"
  "rb_left (rb_set_parent n v h) = rb_left h" "rb_right (rb_set_parent n v h) = rb_right h"
  "rb_parent (rb_set_parent n v h) = (rb_parent h)(n := v)" "rb_color (rb_set_parent n v h) = rb_color h"
  "rb_left (rb_set_color n k h) = rb_left h" "rb_right (rb_set_color n k h) = rb_right h"
  "rb_parent (rb_set_color n k h) = rb_parent h" "rb_color (rb_set_color n k h) = (rb_color h)(n := k)"
  by (simp_all add: set_left_def set_right_def rb_set_parent_def rb_set_color_def)

lemma follow_simps [simp]: "follow 0 = None" "p \<noteq> 0 \<Longrightarrow> follow p = Some p"
  by (simp_all add: follow_def)

lemma ptr_in_nodes: "t \<noteq> Leaf \<Longrightarrow> ptr t \<in> set (nodes t)"
  by (cases t rule: ptr.cases) auto

lemma rep_nonzero: "rep h par t \<Longrightarrow> 0 \<notin> set (nodes t)"
  by (induction h par t rule: rep.induct) auto

lemma ptr_zero: "rep h par t \<Longrightarrow> ptr t = 0 \<longleftrightarrow> t = Leaf"
  by (cases t rule: ptr.cases) auto

lemma ptr_eq_node: "rep h par t \<Longrightarrow> ptr t = x \<Longrightarrow> x \<noteq> 0 \<Longrightarrow> x \<in> set (nodes t)"
  using ptr_in_nodes [of t] by (cases "t = Leaf") auto

lemma rep_frame:
  assumes "rep h par t" and "distinct (nodes t)"
    and "\<And>y. y \<in> set (nodes t) \<Longrightarrow> rb_left h' y = rb_left h y \<and> rb_right h' y = rb_right h y \<and> rb_color h' y = rb_color h y"
    and "\<And>y. y \<in> set (nodes t) \<Longrightarrow> y \<noteq> ptr t \<Longrightarrow> rb_parent h' y = rb_parent h y"
    and "t \<noteq> Leaf \<Longrightarrow> rb_parent h' (ptr t) = par'"
  shows "rep h' par' t"
  using assms
proof (induction h par t arbitrary: par' rule: rep.induct)
  case (2 h par l x k r)
  have ne: "x \<noteq> ptr l" "x \<noteq> ptr r" "x \<noteq> 0" "rep h x l" "rep h x r" and par: "l \<noteq> Leaf \<Longrightarrow> rb_parent h (ptr l) = x"
    "r \<noteq> Leaf \<Longrightarrow> rb_parent h (ptr r) = x"
    using "2.prems"(1,2) ptr_in_nodes [of l] ptr_in_nodes [of r]
    by (auto, (cases "l = Leaf"; force), (cases "r = Leaf"; force), (cases l rule: ptr.cases; auto), (cases r rule: ptr.cases; auto))
  have p: "rb_parent h' y = rb_parent h y" if "y \<in> set (nodes l) \<or> y \<in> set (nodes r)" for y
  proof -
    have "y \<noteq> x" using that "2.prems"(2) by auto
    then show ?thesis using that "2.prems"(4) [of y] by auto
  qed
  have "rep h' x l"
    by (rule "2.IH"(1)) (use "2.prems"(1-3) ne par p ptr_in_nodes [of l] in auto)
  moreover have "rep h' x r"
    by (rule "2.IH"(2)) (use "2.prems"(1-3) ne par p ptr_in_nodes [of r] in auto)
  ultimately show ?case using "2.prems" by auto
qed simp

lemma rep_same_out:
  "rep h par t \<Longrightarrow> distinct (nodes t) \<Longrightarrow> same_out N h h' \<Longrightarrow> N \<inter> set (nodes t) = {} \<Longrightarrow> rep h' par t"
proof -
  assume a: "rep h par t" "distinct (nodes t)" "same_out N h h'" "N \<inter> set (nodes t) = {}"
  have eq: "y \<notin> N" if "y \<in> set (nodes t)" for y using a(4) that by blast
  have "rb_parent h (ptr t) = par" if "t \<noteq> Leaf" using a(1) that by (cases t rule: ptr.cases) auto
  then show "rep h' par t"
    using a(3) eq ptr_in_nodes [of t] unfolding same_out_def by (intro rep_frame [OF a(1,2)]) auto
qed

section \<open>Contexts\<close>

datatype ctx = Top | CL ctx "nat \<times> color" rbt | CR rbt "nat \<times> color" ctx

fun cptr :: "ctx \<Rightarrow> nat" where
  "cptr Top = 0"
| "cptr (CL c (x, k) r) = x"
| "cptr (CR l (x, k) c) = x"

fun plug :: "ctx \<Rightarrow> rbt \<Rightarrow> rbt" where
  "plug Top t = t"
| "plug (CL c a r) t = plug c (Node t a r)"
| "plug (CR l a c) t = plug c (Node l a t)"

fun before :: "ctx \<Rightarrow> (nat \<times> color) list" where
  "before Top = []"
| "before (CL c a r) = before c"
| "before (CR l a c) = before c @ inorder l @ [a]"

fun after :: "ctx \<Rightarrow> (nat \<times> color) list" where
  "after Top = []"
| "after (CL c a r) = a # inorder r @ after c"
| "after (CR l a c) = after c"

lemma inorder_plug: "inorder (plug c t) = before c @ inorder t @ after c"
  by (induction c arbitrary: t) auto

fun crep :: "rb_heap \<Rightarrow> nat \<Rightarrow> ctx \<Rightarrow> nat \<Rightarrow> bool" where
  "crep h root Top q \<longleftrightarrow> root = q"
| "crep h root (CL c (x, k) r) q \<longleftrightarrow> x \<noteq> 0 \<and> rb_parent h x = cptr c \<and> rb_color h x = k \<and> rb_left h x = q \<and>
     rb_right h x = ptr r \<and> rep h x r \<and> crep h root c x"
| "crep h root (CR l (x, k) c) q \<longleftrightarrow> x \<noteq> 0 \<and> rb_parent h x = cptr c \<and> rb_color h x = k \<and> rb_right h x = q \<and>
     rb_left h x = ptr l \<and> rep h x l \<and> crep h root c x"

lemma rep_plug: "rep h 0 (plug c t) \<and> root = ptr (plug c t) \<longleftrightarrow> rep h (cptr c) t \<and> crep h root c (ptr t)"
proof (induction c arbitrary: t)
  case (CL c a r)
  then show ?case by (cases a) auto
next
  case (CR l a c)
  then show ?case by (cases a) auto
qed auto

abbreviation cnodes :: "ctx \<Rightarrow> nat list" where
  "cnodes c \<equiv> map fst (before c @ after c)"

lemma cnodes_distinct:
  "distinct (cnodes (CL c a r)) \<longleftrightarrow> distinct (cnodes c) \<and> fst a \<notin> set (cnodes c) \<and> distinct (nodes r) \<and>
     fst a \<notin> set (nodes r) \<and> set (nodes r) \<inter> set (cnodes c) = {}"
  "distinct (cnodes (CR r a c)) \<longleftrightarrow> distinct (cnodes c) \<and> fst a \<notin> set (cnodes c) \<and> distinct (nodes r) \<and>
     fst a \<notin> set (nodes r) \<and> set (nodes r) \<inter> set (cnodes c) = {}"
proof -
  have "distinct (xs @ x # ys @ zs) \<longleftrightarrow> distinct (xs @ zs) \<and> x \<notin> set (xs @ zs) \<and> distinct ys \<and> x \<notin> set ys \<and> set ys \<inter> set (xs @ zs) = {}"
    "distinct ((xs @ ys @ [x]) @ zs) \<longleftrightarrow> distinct (xs @ zs) \<and> x \<notin> set (xs @ zs) \<and> distinct ys \<and> x \<notin> set ys \<and> set ys \<inter> set (xs @ zs) = {}"
    for x :: nat and xs ys zs by auto
  from this(1) [of "map fst (before c)" "fst a" "nodes r" "map fst (after c)"] this(2) [of "map fst (before c)" "nodes r" "fst a" "map fst (after c)"]
  show "distinct (cnodes (CL c a r)) \<longleftrightarrow> distinct (cnodes c) \<and> fst a \<notin> set (cnodes c) \<and> distinct (nodes r) \<and>
      fst a \<notin> set (nodes r) \<and> set (nodes r) \<inter> set (cnodes c) = {}"
    "distinct (cnodes (CR r a c)) \<longleftrightarrow> distinct (cnodes c) \<and> fst a \<notin> set (cnodes c) \<and> distinct (nodes r) \<and>
      fst a \<notin> set (nodes r) \<and> set (nodes r) \<inter> set (cnodes c) = {}"
    by (simp_all only: before.simps after.simps map_append list.map append_Cons append_Nil append_assoc)
qed

lemma tree_at_plug:
  "tree_at h root (plug c t) \<longleftrightarrow> rep h (cptr c) t \<and> crep h root c (ptr t) \<and> distinct (nodes t) \<and> distinct (cnodes c) \<and>
     set (nodes t) \<inter> set (cnodes c) = {}"
  using rep_plug [of h c t root] by (auto simp: tree_at_def inorder_plug)

lemma crep_same_out:
  assumes "crep h root c q" and "distinct (cnodes c)" and "same_out N h h'" and "N \<inter> set (cnodes c) = {}"
  shows "crep h' root c q"
  using assms
proof (induction h root c q rule: crep.induct)
  case (2 h root c x k r q)
  have "rep h' x r" by (rule rep_same_out [of h x r N]) (use "2.prems" in auto)
  moreover have "crep h' root c x" by (rule "2.IH") (use "2.prems" in auto)
  ultimately show ?case using "2.prems" by (auto simp: same_out_def)
next
  case (3 h root l x k c q)
  have "rep h' x l" by (rule rep_same_out [of h x l N]) (use "3.prems" in auto)
  moreover have "crep h' root c x" by (rule "3.IH") (use "3.prems" in auto)
  ultimately show ?case using "3.prems" by (auto simp: same_out_def)
qed simp

lemma same_out_set [intro]:
  "n \<in> N \<Longrightarrow> same_out N h (set_left n v h)" "n \<in> N \<Longrightarrow> same_out N h (set_right n v h)"
  "n \<in> N \<Longrightarrow> same_out N h (rb_set_parent n v h)" "n \<in> N \<Longrightarrow> same_out N h (rb_set_color n k h)"
  by (auto simp: same_out_def)

lemma cptr_in: "c \<noteq> Top \<Longrightarrow> cptr c \<in> set (cnodes c)"
  by (cases c rule: cptr.cases) auto

lemma crep_cptr: "crep h root c q \<Longrightarrow> cptr c = 0 \<longleftrightarrow> c = Top"
  by (cases c rule: cptr.cases) auto

text \<open>The link above a subtree is redirected.\<close>

lemma crep_relink:
  assumes "crep h root c q" and "distinct (cnodes c)" and "q \<noteq> 0" and "q \<notin> set (cnodes c)"
  shows "\<exists>h' root'. relink (cptr c) q q' (h, root) = (h', root') \<and> crep h' root' c q' \<and> same_out (set (cnodes c)) h h' \<and>
    rb_parent h' = rb_parent h \<and> rb_color h' = rb_color h"
proof (cases c rule: cptr.cases)
  case 1
  then show ?thesis using assms by (simp add: relink_def)
next
  case (2 c' x k r)
  have "crep (set_left x q' h) root c' x" "rep (set_left x q' h) x r"
    using assms(1) assms(2) [unfolded 2 cnodes_distinct] 2
    by (auto intro!: crep_same_out [of h root c' x "{x}"] rep_same_out [of h x r "{x}"] simp del: map_append set_map)
  then show ?thesis using assms 2 by (auto simp: relink_def same_out_def)
next
  case (3 l x k c')
  have "crep (set_right x q' h) root c' x" "rep (set_right x q' h) x l"
    using assms(1) assms(2) [unfolded 3 cnodes_distinct] 3
    by (auto intro!: crep_same_out [of h root c' x "{x}"] rep_same_out [of h x l "{x}"] simp del: map_append set_map)
  moreover have "ptr l \<noteq> q" using assms 3 ptr_eq_node [of h x l q] by auto
  ultimately show ?thesis using assms 3 by (auto simp: relink_def same_out_def)
qed

lemma tree_at_node:
  assumes "tree_at h root (plug c (Node l (x, k) r))"
  shows "x \<noteq> 0" "rb_left h x = ptr l" "rb_right h x = ptr r" "rb_color h x = k" "rb_parent h x = cptr c"
  using assms by (simp_all add: tree_at_plug)

section \<open>Red-black trees\<close>

fun col :: "rbt \<Rightarrow> color" where
  "col Leaf = BLACK"
| "col (Node l (x, k) r) = k"

fun blk :: "rbt \<Rightarrow> rbt" where
  "blk Leaf = Leaf"
| "blk (Node l (x, k) r) = Node l (x, BLACK) r"

text \<open>No red node has a red child, and every path has the same number of black nodes.\<close>

fun rb :: "nat \<Rightarrow> rbt \<Rightarrow> bool" where
  "rb n Leaf \<longleftrightarrow> n = 0"
| "rb n (Node l (x, RED) r) \<longleftrightarrow> col l = BLACK \<and> col r = BLACK \<and> rb n l \<and> rb n r"
| "rb n (Node l (x, BLACK) r) \<longleftrightarrow> 0 < n \<and> rb (n - 1) l \<and> rb (n - 1) r"

fun ccol :: "ctx \<Rightarrow> color" where
  "ccol Top = BLACK"
| "ccol (CL c (x, k) r) = k"
| "ccol (CR l (x, k) c) = k"

fun crb :: "nat \<Rightarrow> ctx \<Rightarrow> bool" where
  "crb n Top \<longleftrightarrow> True"
| "crb n (CL c (x, RED) r) \<longleftrightarrow> col r = BLACK \<and> rb n r \<and> c \<noteq> Top \<and> ccol c = BLACK \<and> crb n c"
| "crb n (CL c (x, BLACK) r) \<longleftrightarrow> rb n r \<and> crb (Suc n) c"
| "crb n (CR r (x, RED) c) \<longleftrightarrow> col r = BLACK \<and> rb n r \<and> c \<noteq> Top \<and> ccol c = BLACK \<and> crb n c"
| "crb n (CR r (x, BLACK) c) \<longleftrightarrow> rb n r \<and> crb (Suc n) c"

lemma node_cases: "t \<noteq> Leaf \<Longrightarrow> \<exists>l x k r. t = Node l (x, k) r" "t \<noteq> Leaf \<Longrightarrow> \<exists>r x k l. t = Node l (x, k) r" for t :: rbt
  by (cases t rule: ptr.cases; auto)+

lemma red_node_cases:
  assumes "col t = RED"
  obtains l x r where "t = Node l (x, RED) r"
  using assms by (cases t rule: ptr.cases) auto

lemma rb_plug: "crb n c \<Longrightarrow> rb n t \<Longrightarrow> ccol c = RED \<longrightarrow> col t = BLACK \<Longrightarrow> \<exists>m. rb m (plug c t)"
  by (induction n c arbitrary: t rule: crb.induct) auto

lemma col_plug: "col t = col t' \<Longrightarrow> col (plug c t) = col (plug c t')"
proof (induction c arbitrary: t t')
  case (CL c a r)
  then show ?case by (cases a) auto
next
  case (CR l a c)
  then show ?case by (cases a) auto
qed simp

section \<open>The two directions\<close>

text \<open>
  The code of the left and of the right case is the same up to the exchange of the two links. The
  locale fixes one direction: the near and the far link with their assignments, the tree with its
  near and far subtree, and the two ways to extend a context.
\<close>

text \<open>A heap that came from \<open>h0\<close> by changes to the nodes \<open>N\<close> only and holds a tree of these nodes.\<close>

definition tracks :: "rb_heap \<Rightarrow> nat set \<Rightarrow> rb_tree \<Rightarrow> rbt \<Rightarrow> bool" where
  "tracks h0 N hr t \<longleftrightarrow> tree_at (fst hr) (snd hr) t \<and> set (nodes t) = N \<and> same_out N h0 (fst hr)"

definition rotate_to ::
  "(rb_heap \<Rightarrow> nat \<Rightarrow> nat) \<Rightarrow> (rb_heap \<Rightarrow> nat \<Rightarrow> nat) \<Rightarrow> (nat \<Rightarrow> nat \<Rightarrow> rb_heap \<Rightarrow> rb_heap) \<Rightarrow>
   (nat \<Rightarrow> nat \<Rightarrow> rb_heap \<Rightarrow> rb_heap) \<Rightarrow> nat \<Rightarrow> rb_tree \<Rightarrow> rb_tree option" where
  "rotate_to near far set_near set_far x = (\<lambda>(h, root). do {
     let p = rb_parent h x;
     r \<leftarrow> follow (far h x);
     let h = set_far x (near h r) h;
     let h = (if far h x \<noteq> 0 then rb_set_parent (far h x) x h else h);
     let h = set_near r x h;
     let h = rb_set_parent r p h;
     let (h, root) = relink p x r (h, root);
     Some (rb_set_parent x r h, root)
   })"

locale rb_direction =
  fixes near far :: "rb_heap \<Rightarrow> nat \<Rightarrow> nat" and set_near set_far :: "nat \<Rightarrow> nat \<Rightarrow> rb_heap \<Rightarrow> rb_heap"
    and nd :: "rbt \<Rightarrow> nat \<times> color \<Rightarrow> rbt \<Rightarrow> rbt"
    and cnear cfar :: "ctx \<Rightarrow> nat \<times> color \<Rightarrow> rbt \<Rightarrow> ctx"
  assumes set_simps [simp]:
    "near (set_near n v h) = (near h)(n := v)" "far (set_near n v h) = far h"
    "near (set_far n v h) = near h" "far (set_far n v h) = (far h)(n := v)"
    "rb_parent (set_near n v h) = rb_parent h" "rb_color (set_near n v h) = rb_color h"
    "rb_parent (set_far n v h) = rb_parent h" "rb_color (set_far n v h) = rb_color h"
    "near (rb_set_parent n v h) = near h" "far (rb_set_parent n v h) = far h"
    "near (rb_set_color n k h) = near h" "far (rb_set_color n k h) = far h"
    and links: "near h' y = near h y \<and> far h' y = far h y \<longleftrightarrow> rb_left h' y = rb_left h y \<and> rb_right h' y = rb_right h y"
    and rep_nd [simp]: "rep h par (nd l (x, k) r) \<longleftrightarrow> x \<noteq> 0 \<and> rb_parent h x = par \<and> rb_color h x = k \<and>
      near h x = ptr l \<and> far h x = ptr r \<and> rep h x l \<and> rep h x r"
    and ptr_nd [simp]: "ptr (nd l (x, k) r) = x"
    and distinct_nd [simp]: "distinct (nodes (nd l a r)) \<longleftrightarrow> distinct (nodes l) \<and> distinct (nodes r) \<and>
      fst a \<notin> set (nodes l) \<and> fst a \<notin> set (nodes r) \<and> set (nodes l) \<inter> set (nodes r) = {}"
    and set_tree_nd [simp]: "set_tree (nd l a r) = insert a (set_tree l \<union> set_tree r)"
    and plug_near [simp]: "plug (cnear c a r) t = plug c (nd t a r)"
    and plug_far [simp]: "plug (cfar c a l) t = plug c (nd l a t)"
    and col_nd [simp]: "col (nd l (x, k) r) = k"
    and rb_nd [simp]: "rb n (nd l (x, RED) r) \<longleftrightarrow> col l = BLACK \<and> col r = BLACK \<and> rb n l \<and> rb n r"
      "rb n (nd l (x, BLACK) r) \<longleftrightarrow> 0 < n \<and> rb (n - 1) l \<and> rb (n - 1) r"
    and nd_cases: "t \<noteq> Leaf \<Longrightarrow> \<exists>l x k r. t = nd l (x, k) r"
    and blk_nd [simp]: "blk (nd l (x, k) r) = nd l (x, BLACK) r"
    and ccol_near [simp]: "ccol (cnear c (x, k) r) = k" and near_Top [simp]: "cnear c a r \<noteq> Top"
    and size_near: "size c < size (cnear c a r)"
    and crb_near [simp]: "crb n (cnear c (x, RED) r) \<longleftrightarrow> col r = BLACK \<and> rb n r \<and> c \<noteq> Top \<and> ccol c = BLACK \<and> crb n c"
      "crb n (cnear c (x, BLACK) r) \<longleftrightarrow> rb n r \<and> crb (Suc n) c"
    and nodes_assoc: "nodes (nd (nd t1 (x, k1) t2) (y, k2) t3) = nodes (nd t1 (x, k3) (nd t2 (y, k4) t3))"
    and nodes_cong: "nodes t1 = nodes t2 \<Longrightarrow> nodes t3 = nodes t4 \<Longrightarrow> nodes (nd t1 (x, k1) t3) = nodes (nd t2 (x, k2) t4)"
begin

lemma same_out_links:
  "same_out N h h' \<longleftrightarrow> (\<forall>y. y \<notin> N \<longrightarrow> near h' y = near h y \<and> far h' y = far h y \<and>
     rb_parent h' y = rb_parent h y \<and> rb_color h' y = rb_color h y)"
  using links unfolding same_out_def by blast

lemma read_node:
  assumes "tree_at h root (plug c (nd l (x, k) r))"
  shows "x \<noteq> 0" "near h x = ptr l" "far h x = ptr r" "rb_color h x = k" "rb_parent h x = cptr c"
  using assms by (simp_all add: tree_at_plug)

lemma rotate_tree:
  assumes "tree_at h root (plug c (nd a (x, k) (nd b (r, k') d)))"
  shows "\<exists>h' root'. rotate_to near far set_near set_far x (h, root) = Some (h', root') \<and>
    tree_at h' root' (plug c (nd (nd a (x, k) b) (r, k') d)) \<and>
    same_out (set (nodes (plug c (nd a (x, k) (nd b (r, k') d))))) h h'"
proof -
  let ?h = "rb_set_parent r (cptr c) (set_near r x (if ptr b \<noteq> 0 then rb_set_parent (ptr b) x (set_far x (ptr b) h) else set_far x (ptr b) h))"
  let ?N = "{x, r} \<union> set (nodes b)"
  note a = assms [unfolded tree_at_plug]
  have r: "rep h x a" "rep h r b" "rep h r d" "x \<noteq> 0" "r \<noteq> 0" "near h x = ptr a" "far h x = r" "near h r = ptr b"
    "far h r = ptr d" "rb_color h x = k" "rb_color h r = k'" "rb_parent h x = cptr c" using a by auto
  have d: "distinct (nodes a)" "distinct (nodes b)" "distinct (nodes d)" "x \<noteq> r" "x \<notin> set (nodes a)" "x \<notin> set (nodes b)"
    "x \<notin> set (nodes d)" "r \<notin> set (nodes a)" "r \<notin> set (nodes b)" "r \<notin> set (nodes d)"
    "set (nodes a) \<inter> set (nodes b) = {}" "set (nodes d) \<inter> set (nodes b) = {}" using a by auto
  have bn: "b \<noteq> Leaf \<Longrightarrow> ptr b \<in> set (nodes b)" by (rule ptr_in_nodes)
  have b0: "ptr b \<noteq> 0 \<longleftrightarrow> b \<noteq> Leaf" using ptr_zero [OF r(2)] by simp
  have so: "same_out ?N h ?h" using bn b0 by (auto simp: same_out_links)
  have crep: "crep ?h root c x"
    by (rule crep_same_out [OF _ _ so]) (use a in auto)
  obtain h' root' where rl: "relink (cptr c) x r (?h, root) = (h', root')" "crep h' root' c r" "same_out (set (cnodes c)) ?h h'"
    "rb_parent h' = rb_parent ?h" "rb_color h' = rb_color ?h"
    using crep_relink [OF crep, of r] a by auto
  let ?h' = "rb_set_parent x r h'"
  let ?M = "?N \<union> set (cnodes c)"
  have so': "same_out ?M h ?h'"
    using same_out_mono [OF so, of ?M] same_out_mono [OF rl(3), of ?M] same_out_set(3) [of x ?M h' r]
    by (blast intro: same_out_trans)
  have "rep ?h' x a"
    by (rule rep_same_out [OF r(1) d(1) so']) (use a d in auto)
  moreover have "rep ?h' r d"
    by (rule rep_same_out [OF r(3) d(3) so']) (use a d in auto)
  moreover have f: "near ?h' y = near ?h y" "far ?h' y = far ?h y" "rb_color ?h' y = rb_color ?h y"
    if "y \<notin> set (cnodes c)" for y using rl(3) that by (auto simp: same_out_links)
  have "rep ?h' x b"
  proof (rule rep_frame [OF r(2) d(2)])
    fix y assume y: "y \<in> set (nodes b)"
    have "set (nodes b) \<subseteq> set (nodes (nd a (x, k) (nd b (r, k') d)))" by auto
    then have "y \<notin> set (cnodes c)" "y \<noteq> x" "y \<noteq> r" using a d(6,9) y by blast+
    then have "near ?h' y = near h y \<and> far ?h' y = far h y" "rb_color ?h' y = rb_color h y"
      using f [of y] by auto
    then show "rb_left ?h' y = rb_left h y \<and> rb_right ?h' y = rb_right h y \<and> rb_color ?h' y = rb_color h y"
      using links by blast
    show "rb_parent ?h' y = rb_parent h y" if "y \<noteq> ptr b" using \<open>y \<noteq> x\<close> \<open>y \<noteq> r\<close> that rl(4) by auto
  next
    assume "b \<noteq> Leaf"
    then have "ptr b \<noteq> 0" "ptr b \<noteq> x" "ptr b \<noteq> r" using b0 bn d by auto
    then show "rb_parent ?h' (ptr b) = x" using rl(4) by auto
  qed
  moreover have "x \<notin> set (cnodes c)" "r \<notin> set (cnodes c)" using a by auto
  then have "near ?h' x = ptr a" "far ?h' x = ptr b" "near ?h' r = x" "far ?h' r = ptr d"
    "rb_color ?h' x = k" "rb_color ?h' r = k'" "rb_parent ?h' x = r"
    using f [of x] f [of r] r d(4) by auto
  moreover have "rb_parent ?h' r = cptr c" using rl(4) d(4) by simp
  ultimately have rep: "rep ?h' (cptr c) (nd (nd a (x, k) b) (r, k') d)" using r by auto
  have "same_out {x} h' ?h'" by (rule same_out_set) simp
  then have "crep ?h' root' c r"
    by (rule crep_same_out [OF rl(2), rotated]) (use a in auto)
  with rep have t: "tree_at ?h' root' (plug c (nd (nd a (x, k) b) (r, k') d))"
    unfolding tree_at_plug using a by auto
  have "rotate_to near far set_near set_far x (h, root) = Some (?h', root')"
    using r rl(1) by (cases "ptr b = 0") (simp_all add: rotate_to_def Let_def)
  moreover have "same_out (set (nodes (plug c (nd a (x, k) (nd b (r, k') d))))) h ?h'"
    by (rule same_out_mono [OF so']) (auto simp: inorder_plug)
  ultimately show ?thesis using t by blast
qed

lemma rotate_tracks:
  assumes "tracks h0 N (h, root) (plug c (nd a (x, k) (nd b (r, k') d)))"
  shows "\<exists>h' root'. rotate_to near far set_near set_far x (h, root) = Some (h', root') \<and>
    tracks h0 N (h', root') (plug c (nd (nd a (x, k) b) (r, k') d))"
proof -
  have "set (nodes (plug c (nd (nd a (x, k) b) (r, k') d))) = set (nodes (plug c (nd a (x, k) (nd b (r, k') d))))"
    by (auto simp: inorder_plug)
  then show ?thesis using rotate_tree [of h root c a x k b r k' d] assms
    unfolding tracks_def by (auto intro: same_out_trans)
qed

lemma recolor_tracks:
  assumes "tracks h0 N (h, root) (plug c (nd l (x, k) r))"
  shows "tracks h0 N (rb_set_color x k' h, root) (plug c (nd l (x, k') r))"
proof -
  have a: "rep h (cptr c) (nd l (x, k) r)" "crep h root c x" "distinct (nodes (nd l (x, k) r))" "distinct (cnodes c)"
    "set (nodes (nd l (x, k) r)) \<inter> set (cnodes c) = {}"
    using assms by (simp_all add: tracks_def tree_at_plug)
  have so: "same_out {x} h (rb_set_color x k' h)" by (rule same_out_set) simp
  have "rep (rb_set_color x k' h) x l" by (rule rep_same_out [OF _ _ so]) (use a in auto)
  moreover have "rep (rb_set_color x k' h) x r" by (rule rep_same_out [OF _ _ so]) (use a in auto)
  moreover have "crep (rb_set_color x k' h) root c x" by (rule crep_same_out [OF a(2,4) so]) (use a in auto)
  ultimately have "tree_at (rb_set_color x k' h) root (plug c (nd l (x, k') r))"
    using a by (simp add: tree_at_plug)
  moreover have "set (nodes (plug c (nd l (x, k') r))) = set (nodes (plug c (nd l (x, k) r)))" by (auto simp: inorder_plug)
  moreover have "x \<in> N" using assms by (auto simp: tracks_def inorder_plug)
  then have "same_out N h (rb_set_color x k' h)" by blast
  ultimately show ?thesis using assms by (auto simp: tracks_def intro: same_out_trans)
qed

lemma read_tracks:
  assumes "tracks h0 N (h, root) (plug c (nd l (x, k) r))"
  shows "x \<noteq> 0" "near h x = ptr l" "far h x = ptr r" "rb_color h x = k" "rb_parent h x = cptr c"
  using assms by (simp_all add: tracks_def tree_at_plug)

end

text \<open>A direction together with its opposite.\<close>

locale rb_side = rb_direction near far set_near set_far nd cnear cfar +
  opp: rb_direction far near set_far set_near "\<lambda>l a r. nd r a l" cfar cnear
  for near far set_near set_far nd cnear cfar

interpretation left: rb_side rb_left rb_right set_left set_right Node CL "\<lambda>c a l. CR l a c"
  by unfold_locales (auto simp: Int_commute intro: node_cases)

interpretation right: rb_side rb_right rb_left set_right set_left "\<lambda>l a r. Node r a l" "\<lambda>c a l. CR l a c" CL
  by unfold_locales (auto simp: Int_commute intro: node_cases)

section \<open>Insertion keeps the order and the balance\<close>

definition insert_rotate_to ::
  "(rb_heap \<Rightarrow> nat \<Rightarrow> nat) \<Rightarrow> (rb_heap \<Rightarrow> nat \<Rightarrow> nat) \<Rightarrow> (nat \<Rightarrow> nat \<Rightarrow> rb_heap \<Rightarrow> rb_heap) \<Rightarrow>
   (nat \<Rightarrow> nat \<Rightarrow> rb_heap \<Rightarrow> rb_heap) \<Rightarrow> nat \<Rightarrow> nat \<Rightarrow> nat \<Rightarrow> rb_tree \<Rightarrow> rb_tree option" where
  "insert_rotate_to near far set_near set_far n p g = (\<lambda>(h, root). do {
     (p, h, root) \<leftarrow> (if n = far h p
                       then do { (h, root) \<leftarrow> rotate_to near far set_near set_far p (h, root); Some (n, h, root) }
                       else Some (p, h, root));
     (h, root) \<leftarrow> rotate_to far near set_far set_near g (h, root);
     Some (rb_set_color g RED (rb_set_color p BLACK h), root)
   })"

lemma rb_rotate_to:
  "rb_rotate_left = rotate_to rb_left rb_right set_left set_right"
  "rb_rotate_right = rotate_to rb_right rb_left set_right set_left"
  by (simp_all add: fun_eq_iff rb_rotate_left_def rb_rotate_right_def rotate_to_def)

lemma insert_rotates:
  "insert_rotate_left = insert_rotate_to rb_left rb_right set_left set_right"
  "insert_rotate_right = insert_rotate_to rb_right rb_left set_right set_left"
  by (simp_all add: fun_eq_iff insert_rotate_left_def insert_rotate_right_def insert_rotate_to_def rb_rotate_to)

context rb_side
begin

lemma insert_rotate_outer:
  assumes t: "tracks h0 N (h, root) (plug c (nd (nd tn (p, RED) s) (g, BLACK) u))" and n: "far h p \<noteq> n"
  shows "\<exists>h' root'. insert_rotate_to near far set_near set_far n p g (h, root) = Some (h', root') \<and>
    tracks h0 N (h', root') (plug c (nd tn (p, BLACK) (nd s (g, RED) u)))"
proof -
  obtain h1 root1 where r: "rotate_to far near set_far set_near g (h, root) = Some (h1, root1)"
    "tracks h0 N (h1, root1) (plug c (nd tn (p, RED) (nd s (g, BLACK) u)))"
    using opp.rotate_tracks [OF t] by blast
  have "tracks h0 N (rb_set_color p BLACK h1, root1) (plug (cfar c (p, BLACK) tn) (nd s (g, BLACK) u))"
    using recolor_tracks [OF r(2)] by simp
  from recolor_tracks [OF this, of RED] show ?thesis using n r(1) by (auto simp: insert_rotate_to_def)
qed

lemma insert_rotate_inner:
  assumes t: "tracks h0 N (h, root) (plug c (nd (nd s (p, RED) (nd a (n, RED) b)) (g, BLACK) u))"
  shows "\<exists>h' root'. insert_rotate_to near far set_near set_far n p g (h, root) = Some (h', root') \<and>
    tracks h0 N (h', root') (plug c (nd (nd s (p, RED) a) (n, BLACK) (nd b (g, RED) u)))"
proof -
  have t': "tracks h0 N (h, root) (plug (cnear c (g, BLACK) u) (nd s (p, RED) (nd a (n, RED) b)))" using t by simp
  have n: "far h p = n" using read_tracks(3) [OF t'] by simp
  obtain h1 root1 where r1: "rotate_to near far set_near set_far p (h, root) = Some (h1, root1)"
    "tracks h0 N (h1, root1) (plug (cnear c (g, BLACK) u) (nd (nd s (p, RED) a) (n, RED) b))"
    using rotate_tracks [OF t'] by blast
  then have "tracks h0 N (h1, root1) (plug c (nd (nd (nd s (p, RED) a) (n, RED) b) (g, BLACK) u))" by simp
  from opp.rotate_tracks [OF this] obtain h2 root2 where r2: "rotate_to far near set_far set_near g (h1, root1) = Some (h2, root2)"
    "tracks h0 N (h2, root2) (plug c (nd (nd s (p, RED) a) (n, RED) (nd b (g, BLACK) u)))" by blast
  have "tracks h0 N (rb_set_color n BLACK h2, root2) (plug (cfar c (n, BLACK) (nd s (p, RED) a)) (nd b (g, BLACK) u))"
    using recolor_tracks [OF r2(2)] by simp
  from recolor_tracks [OF this, of RED] show ?thesis using n r1(1) r2(1) by (auto simp: insert_rotate_to_def)
qed

lemma nodes_plug_cong: "nodes t = nodes t' \<Longrightarrow> nodes (plug c t) = nodes (plug c t')"
  by (simp add: inorder_plug)

text \<open>The last iteration of the loop: the uncle is black.\<close>

lemma insert_rotate_ok:
  assumes t: "tracks h0 N (h, root) (plug c (nd T (g, BLACK) u))" and u: "col u = BLACK" "rb m u"
    and T: "T = nd tn (p, RED) s \<or> T = nd s (p, RED) tn" and tn: "tn = nd a (n, RED) b" "rb m tn"
    and s: "rb m s" "col s = BLACK" and c: "crb (Suc m) c"
  shows "\<exists>h' root' t'. insert_rotate_to near far set_near set_far n p g (h, root) = Some (h', root') \<and>
    tracks h0 N (h', root') t' \<and> nodes t' = nodes (plug c (nd T (g, BLACK) u)) \<and> (\<exists>m. rb m t')"
  using T
proof
  assume T: "T = nd tn (p, RED) s"
  have t': "tracks h0 N (h, root) (plug (cnear c (g, BLACK) u) (nd tn (p, RED) s))" using t T by simp
  have "distinct (nodes (nd tn (p, RED) s))" "far h p = ptr s" "rep h p s" "n \<noteq> 0"
    using t' tn(1) by (simp_all add: tracks_def tree_at_plug)
  then have "far h p \<noteq> n" using ptr_eq_node [of h p s n] tn(1) by auto
  from insert_rotate_outer [OF t [unfolded T] this] obtain h' root' where
    i: "insert_rotate_to near far set_near set_far n p g (h, root) = Some (h', root')"
      "tracks h0 N (h', root') (plug c (nd tn (p, BLACK) (nd s (g, RED) u)))" by blast
  have "nodes (plug c (nd tn (p, BLACK) (nd s (g, RED) u))) = nodes (plug c (nd T (g, BLACK) u))"
    unfolding T by (rule nodes_plug_cong) (rule nodes_assoc [symmetric])
  moreover have "\<exists>m. rb m (plug c (nd tn (p, BLACK) (nd s (g, RED) u)))"
    by (rule rb_plug [OF c]) (use u tn s in simp_all)
  ultimately show ?thesis using i by blast
next
  assume T: "T = nd s (p, RED) tn"
  from insert_rotate_inner [OF t [unfolded T tn(1)]] obtain h' root' where
    i: "insert_rotate_to near far set_near set_far n p g (h, root) = Some (h', root')"
      "tracks h0 N (h', root') (plug c (nd (nd s (p, RED) a) (n, BLACK) (nd b (g, RED) u)))" by blast
  have "nodes (plug c (nd (nd s (p, RED) a) (n, BLACK) (nd b (g, RED) u))) = nodes (plug c (nd T (g, BLACK) u))"
    unfolding T tn(1) by (rule nodes_plug_cong) (metis nodes_assoc nodes_cong)
  moreover have "\<exists>m. rb m (plug c (nd (nd s (p, RED) a) (n, BLACK) (nd b (g, RED) u)))"
    by (rule rb_plug [OF c]) (use u tn s in simp_all)
  ultimately show ?thesis using i by blast
qed

text \<open>An iteration that recolours.\<close>

lemma recolor_uncle_tracks:
  assumes "tracks h0 N (h, root) (plug c (nd (nd a (p, RED) b) (g, BLACK) (nd d (u, RED) e)))"
  shows "tracks h0 N (recolor_uncle g p u h, root) (plug c (nd (nd a (p, BLACK) b) (g, RED) (nd d (u, BLACK) e)))"
proof -
  have "tracks h0 N (rb_set_color g RED h, root) (plug (cnear c (g, RED) (nd d (u, RED) e)) (nd a (p, RED) b))"
    using recolor_tracks [OF assms, of RED] by simp
  from recolor_tracks [OF this, of BLACK]
  have "tracks h0 N (rb_set_color p BLACK (rb_set_color g RED h), root) (plug (cfar c (g, RED) (nd a (p, BLACK) b)) (nd d (u, RED) e))"
    by simp
  from recolor_tracks [OF this, of BLACK] show ?thesis by (simp add: recolor_uncle_def)
qed

end

lemma red_ptr: "rep h par t \<Longrightarrow> rb_red h (ptr t) \<longleftrightarrow> col t = RED"
  by (cases t rule: ptr.cases) (auto simp: rb_red_def)

lemma red_cptr: "crep h root c q \<Longrightarrow> rb_red h (cptr c) \<longleftrightarrow> ccol c = RED"
  by (cases c rule: cptr.cases) (auto simp: rb_red_def)

lemma tracks_parts:
  assumes "tracks h0 N (h, root) (plug c t)"
  shows "rep h (cptr c) t" "crep h root c (ptr t)" "distinct (nodes t)" "set (nodes t) \<inter> set (cnodes c) = {}"
  using assms by (simp_all add: tracks_def tree_at_plug)

lemma insert_loop_ok:
  assumes "tracks h0 N (h, root) (plug c t)" and "t = Node a (n, RED) b" and "rb m t" and "crb m c"
  shows "\<exists>h' root' t'. insert_loop n (cptr c) h root = Some (h', root') \<and> tracks h0 N (h', root') t' \<and>
    nodes t' = nodes (plug c t) \<and> (\<exists>m. rb m t')"
  using assms
proof (induction "size c" arbitrary: c h t a n b m rule: less_induct)
  case less
  note tr = tracks_parts [OF less.prems(1)]
  show ?case
  proof (cases "ccol c = RED")
    case False
    then have "insert_loop n (cptr c) h root = Some (h, root)"
      using red_cptr [OF tr(2)] by (subst insert_loop.simps) simp
    moreover have "\<exists>m. rb m (plug c t)"
      using rb_plug [OF less.prems(4,3)] False by simp
    ultimately show ?thesis using less.prems(1) by blast
  next
    case True
    then obtain p s c' where c: "c = CL c' (p, RED) s \<or> c = CR s (p, RED) c'"
      by (cases c rule: ccol.cases) auto
    then have s: "col s = BLACK" "rb m s" "c' \<noteq> Top" "ccol c' = BLACK" "crb m c'" using less.prems(4) by auto
    then obtain g u c2 where c': "c' = CL c2 (g, BLACK) u \<or> c' = CR u (g, BLACK) c2"
      by (cases c' rule: ccol.cases) auto
    then have u: "rb m u" "crb (Suc m) c2" using s(5) by auto
    define T where "T = (if c = CL c' (p, RED) s then Node t (p, RED) s else Node s (p, RED) t)"
    have T: "T = Node t (p, RED) s \<or> T = Node s (p, RED) t" and pT: "plug c t = plug c' T"
      using c by (auto simp: T_def)
    then obtain ta tb where Tt: "T = Node ta (p, RED) tb" and tab: "ta = t \<and> tb = s \<or> ta = s \<and> tb = t" by blast
    have p: "cptr c = p" "ptr T = p" using c T by auto
    have trT: "tracks h0 N (h, root) (plug c' T)" using less.prems(1) pT by simp
    note tT = tracks_parts [OF trT]
    have red: "rb_red h p" "rb_parent h p = g" "g \<noteq> 0"
      using T c' tT(1,2) by (auto simp: rb_red_def)
    show ?thesis using c'
    proof
      assume c': "c' = CL c2 (g, BLACK) u"
      have g: "rb_left h g = p" "rb_right h g = ptr u" "rb_red h (ptr u) \<longleftrightarrow> col u = RED"
        using tT(2) c' p red_ptr [of h g u] by auto
      have tr2: "tracks h0 N (h, root) (plug c2 (Node T (g, BLACK) u))" using trT c' by simp
      show ?thesis
      proof (cases "col u = RED")
        case False
        then have "insert_loop n (cptr c) h root = insert_rotate_left n p g (h, root)"
          using g red p by (subst insert_loop.simps) simp
        moreover have "col u = BLACK" using False by (cases "col u") auto
        ultimately show ?thesis
          using left.insert_rotate_ok [OF tr2 _ u(1) T less.prems(2,3) s(2,1) u(2)] c' pT by (simp add: insert_rotates)
      next
        case True
        then obtain d v e where uv: "u = Node d (v, RED) e" by (rule red_node_cases)
        let ?h = "recolor_uncle g p v h" and ?T = "Node ta (p, BLACK) tb"
        let ?t = "Node ?T (g, RED) (Node d (v, BLACK) e)"
        have tr3: "tracks h0 N (?h, root) (plug c2 ?t)"
          by (rule left.recolor_uncle_tracks [OF tr2 [unfolded Tt uv]])
        have "insert_loop n (cptr c) h root = insert_loop g (cptr c2) ?h root"
          using g red p True uv left.read_tracks(5) [OF tr3] by (subst insert_loop.simps) (simp add: Let_def)
        moreover have "rb (Suc m) ?t" using less.prems(3) s u uv tab by auto
        moreover have "size c2 < size c" using c c' by auto
        moreover have "nodes (plug c2 ?t) = nodes (plug c t)"
          by (simp add: pT c' Tt uv inorder_plug)
        ultimately show ?thesis using less.hyps [OF _ tr3 refl, of "Suc m"] u(2) by simp
      qed
    next
      assume c': "c' = CR u (g, BLACK) c2"
      have "ptr u \<noteq> p"
        using tT(2,4) c' p ptr_eq_node [of h g u p] T red by (auto simp: rb_red_def)
      then have g: "rb_right h g = p" "rb_left h g = ptr u" "rb_left h g \<noteq> p" "rb_red h (ptr u) \<longleftrightarrow> col u = RED"
        using tT(2) c' p red_ptr [of h g u] by auto
      have tr2: "tracks h0 N (h, root) (plug c2 (Node u (g, BLACK) T))" using trT c' by simp
      have T': "T = Node s (p, RED) t \<or> T = Node t (p, RED) s" using T by blast
      have t: "t = Node a (n, RED) b" "rb m t" using less.prems(2,3) by simp_all
      show ?thesis
      proof (cases "col u = RED")
        case False
        then have "insert_loop n (cptr c) h root = insert_rotate_right n p g (h, root)"
          using g red p by (subst insert_loop.simps) simp
        moreover have "col u = BLACK" using False by (cases "col u") auto
        ultimately show ?thesis
          using right.insert_rotate_ok [OF tr2 _ u(1) T' t s(2,1) u(2)] c' pT by (simp add: insert_rotates)
      next
        case True
        then obtain d v e where uv: "u = Node d (v, RED) e" by (rule red_node_cases)
        let ?h = "recolor_uncle g p v h" and ?T = "Node ta (p, BLACK) tb"
        let ?t = "Node (Node d (v, BLACK) e) (g, RED) ?T"
        have tr3: "tracks h0 N (?h, root) (plug c2 ?t)"
          by (rule right.recolor_uncle_tracks [OF tr2 [unfolded Tt uv]])
        have "insert_loop n (cptr c) h root = insert_loop g (cptr c2) ?h root"
          using g red p True uv left.read_tracks(5) [OF tr3] by (subst insert_loop.simps) (simp add: Let_def)
        moreover have "rb (Suc m) ?t" using less.prems(3) s u uv tab by auto
        moreover have "size c2 < size c" using c c' by auto
        moreover have "nodes (plug c2 ?t) = nodes (plug c t)"
          by (simp add: pT c' Tt uv inorder_plug)
        ultimately show ?thesis using less.hyps [OF _ tr3 refl, of "Suc m"] u(2) by simp
      qed
    qed
  qed
qed

lemma not_red: "k \<noteq> RED \<longleftrightarrow> k = BLACK"
  by (cases k) auto

lemma plug_rb:
  assumes "rb m (plug c t)" and "col (plug c t) = BLACK"
  shows "\<exists>n. rb n t \<and> crb n c \<and> (ccol c = RED \<longrightarrow> col t = BLACK) \<and> (c = Top \<longrightarrow> col t = BLACK)"
  using assms
proof (induction c arbitrary: t)
  case (CL c a r)
  obtain x k where a: "a = (x, k)" by (cases a)
  obtain n where "rb n (Node t a r)" "crb n c" "ccol c = RED \<longrightarrow> k = BLACK" "c = Top \<longrightarrow> k = BLACK"
    using CL.IH [of "Node t a r"] CL.prems a by auto
  then show ?case using a by (intro exI [of _ "if k = RED then n else n - 1"]) (cases k; auto simp: not_red)
next
  case (CR l a c)
  obtain x k where a: "a = (x, k)" by (cases a)
  obtain n where "rb n (Node l a t)" "crb n c" "ccol c = RED \<longrightarrow> k = BLACK" "c = Top \<longrightarrow> k = BLACK"
    using CR.IH [of "Node l a t"] CR.prems a by auto
  then show ?case using a by (intro exI [of _ "if k = RED then n else n - 1"]) (cases k; auto simp: not_red)
qed auto

lemma col_plug_black: "crb n c \<Longrightarrow> c \<noteq> Top \<Longrightarrow> col (plug c t) = BLACK"
proof (induction n c arbitrary: t rule: crb.induct)
  case (3 n c x r)
  then show ?case by (cases c) auto
next
  case (5 n r x c)
  then show ?case by (cases c) auto
qed auto

text \<open>A red-black tree of the heap with a black root.\<close>

definition rbtree :: "rb_heap \<Rightarrow> nat \<Rightarrow> rbt \<Rightarrow> bool" where
  "rbtree h root t \<longleftrightarrow> tree_at h root t \<and> (\<exists>m. rb m t) \<and> col t = BLACK"

text \<open>The address of the link where a context has its hole.\<close>

fun clink :: "ctx \<Rightarrow> plink" where
  "clink Top = RootLink"
| "clink (CL c (x, k) r) = LeftLink x"
| "clink (CR l (x, k) c) = RightLink x"

lemma crep_store:
  assumes "crep h root c q" and "distinct (cnodes c)"
  shows "\<exists>h' root'. store_link (clink c) n (h, root) = (h', root') \<and> crep h' root' c n \<and> same_out (set (cnodes c)) h h'"
proof (cases c rule: cptr.cases)
  case (2 c' x k r)
  have "crep (set_left x n h) root c' x" "rep (set_left x n h) x r"
    using assms(1) assms(2) [unfolded 2 cnodes_distinct] 2
    by (auto intro!: crep_same_out [of h root c' x "{x}"] rep_same_out [of h x r "{x}"] simp del: map_append set_map)
  then show ?thesis using assms(1) 2 by (auto simp: same_out_def)
next
  case (3 l x k c')
  have "crep (set_right x n h) root c' x" "rep (set_right x n h) x l"
    using assms(1) assms(2) [unfolded 3 cnodes_distinct] 3
    by (auto intro!: crep_same_out [of h root c' x "{x}"] rep_same_out [of h x l "{x}"] simp del: map_append set_map)
  then show ?thesis using assms(1) 3 by (auto simp: same_out_def)
qed simp

lemma rb_link_tree:
  assumes "tree_at h root (plug c Leaf)" and "n \<noteq> 0" and "n \<notin> set (cnodes c)"
  shows "\<exists>h' root'. rb_link n (cptr c) (clink c) (h, root) = (h', root') \<and>
    tracks h (insert n (set (cnodes c))) (h', root') (plug c (Node Leaf (n, RED) Leaf))"
proof -
  have a: "crep h root c 0" "distinct (cnodes c)" using assms(1) by (simp_all add: tree_at_plug)
  let ?h = "set_left n 0 (set_right n 0 (rb_set_color n RED (rb_set_parent n (cptr c) h)))"
  have so: "same_out {n} h ?h" by (simp add: same_out_def)
  have c: "crep ?h root c 0" by (rule crep_same_out [OF a so]) (use assms(3) in auto)
  obtain h' root' where h': "store_link (clink c) n (?h, root) = (h', root')" "crep h' root' c n" "same_out (set (cnodes c)) ?h h'"
    using crep_store [OF c a(2)] by blast
  have "rep h' (cptr c) (Node Leaf (n, RED) Leaf)"
    using assms(2,3) h'(3) by (auto simp: same_out_def)
  then have "tree_at h' root' (plug c (Node Leaf (n, RED) Leaf))"
    unfolding tree_at_plug using h'(2) a(2) assms(3) by auto
  moreover have "same_out (insert n (set (cnodes c))) h h'"
    by (rule same_out_trans [OF same_out_mono [OF so] same_out_mono [OF h'(3)]]) auto
  moreover have "set (nodes (plug c (Node Leaf (n, RED) Leaf))) = insert n (set (cnodes c))" by (auto simp: inorder_plug)
  ultimately show ?thesis using h'(1) by (simp add: rb_link_def tracks_def)
qed

lemma paint_root:
  assumes "tracks h0 N (h, root) t" and "t \<noteq> Leaf" and "rb m t"
  shows "\<exists>t'. tracks h0 N (rb_set_color root BLACK h, root) t' \<and> nodes t' = nodes t \<and> (\<exists>m. rb m t') \<and> col t' = BLACK"
proof -
  obtain l x k r where t: "t = Node l (x, k) r" using assms(2) by (cases t rule: ptr.cases) auto
  have "root = x" using assms(1) t by (simp add: tracks_def tree_at_def)
  then have "tracks h0 N (rb_set_color root BLACK h, root) (Node l (x, BLACK) r)"
    using left.recolor_tracks [of h0 N h root Top l x k r BLACK] assms(1) t by simp
  moreover have "rb (if k = RED then Suc m else m) (Node l (x, BLACK) r)" using assms(3) t by (cases k) auto
  moreover have "nodes (Node l (x, BLACK) r) = nodes t" "col (Node l (x, BLACK) r) = BLACK" using t by auto
  ultimately show ?thesis by blast
qed

lemma rb_insert_ok:
  assumes "rbtree h root (plug c Leaf)" and "n \<noteq> 0" and "n \<notin> set (cnodes c)"
  shows "\<exists>h' root' t'. rb_insert n (rb_link n (cptr c) (clink c) (h, root)) = Some (h', root') \<and> rbtree h' root' t' \<and>
    nodes t' = map fst (before c) @ n # map fst (after c) \<and> same_out (insert n (set (cnodes c))) h h'"
proof -
  have at: "tree_at h root (plug c Leaf)" using assms(1) by (simp add: rbtree_def)
  obtain m where m: "rb m Leaf" "crb m c" using assms(1) plug_rb unfolding rbtree_def by blast
  let ?N = "insert n (set (cnodes c))" and ?t = "Node Leaf (n, RED) Leaf"
  obtain h1 root1 where l: "rb_link n (cptr c) (clink c) (h, root) = (h1, root1)" "tracks h ?N (h1, root1) (plug c ?t)"
    using rb_link_tree [OF at assms(2,3)] by blast
  have par: "rb_parent h1 n = cptr c" using left.read_tracks(5) [OF l(2)] .
  obtain h2 root2 t2 m2 where i: "insert_loop n (cptr c) h1 root1 = Some (h2, root2)" "tracks h ?N (h2, root2) t2"
    "nodes t2 = nodes (plug c ?t)" "rb m2 t2"
    using insert_loop_ok [OF l(2) refl _ m(2)] m(1) by auto
  have "t2 \<noteq> Leaf" using i(3) by (auto simp: inorder_plug)
  then have "root2 \<noteq> 0" using i(2) by (cases t2 rule: ptr.cases) (auto simp: tracks_def tree_at_def)
  obtain t' where t': "tracks h ?N (rb_set_color root2 BLACK h2, root2) t'" "nodes t' = nodes t2" "\<exists>m. rb m t'" "col t' = BLACK"
    using paint_root [OF i(2) \<open>t2 \<noteq> Leaf\<close> i(4)] by blast
  have "rb_insert n (rb_link n (cptr c) (clink c) (h, root)) = Some (rb_set_color root2 BLACK h2, root2)"
    using l(1) par i(1) \<open>root2 \<noteq> 0\<close> by (simp add: rb_insert_def)
  moreover have "nodes t' = map fst (before c) @ n # map fst (after c)" using t'(2) i(3) by (simp add: inorder_plug)
  ultimately show ?thesis using t' unfolding rbtree_def tracks_def by auto
qed

section \<open>Removal keeps the order and the balance\<close>

definition erase_fix_to ::
  "(rb_heap \<Rightarrow> nat \<Rightarrow> nat) \<Rightarrow> (rb_heap \<Rightarrow> nat \<Rightarrow> nat) \<Rightarrow> (nat \<Rightarrow> nat \<Rightarrow> rb_heap \<Rightarrow> rb_heap) \<Rightarrow>
   (nat \<Rightarrow> nat \<Rightarrow> rb_heap \<Rightarrow> rb_heap) \<Rightarrow> nat \<Rightarrow> nat \<Rightarrow> rb_tree \<Rightarrow> (bool \<times> nat \<times> nat \<times> rb_tree) option" where
  "erase_fix_to near far set_near set_far parent b = (\<lambda>(h, root). do {
     b \<leftarrow> follow b;
     if rb_black h (near h b) \<and> rb_black h (far h b)
     then let h = rb_set_color b RED h in Some (False, parent, rb_parent h parent, h, root)
     else do {
       (b, h, root) \<leftarrow>
         (if rb_black h (far h b)
          then do {
            l \<leftarrow> follow (near h b);
            let h = rb_set_color b RED (rb_set_color l BLACK h);
            (h, root) \<leftarrow> rotate_to far near set_far set_near b (h, root);
            Some (far h parent, h, root)
          }
          else Some (b, h, root));
       b \<leftarrow> follow b;
       let h = rb_set_color b (rb_color h parent) h;
       let h = rb_set_color parent BLACK h;
       let h = (if far h b \<noteq> 0 then rb_set_color (far h b) BLACK h else h);
       (h, root) \<leftarrow> rotate_to near far set_near set_far parent (h, root);
       Some (True, root, parent, h, root)
     }
   })"

definition erase_fix_red ::
  "(rb_heap \<Rightarrow> nat \<Rightarrow> nat) \<Rightarrow> (rb_heap \<Rightarrow> nat \<Rightarrow> nat) \<Rightarrow> (nat \<Rightarrow> nat \<Rightarrow> rb_heap \<Rightarrow> rb_heap) \<Rightarrow>
   (nat \<Rightarrow> nat \<Rightarrow> rb_heap \<Rightarrow> rb_heap) \<Rightarrow> nat \<Rightarrow> rb_tree \<Rightarrow> (nat \<times> rb_tree) option" where
  "erase_fix_red near far set_near set_far parent = (\<lambda>(h, root).
     let b = far h parent in
     if rb_red h b
     then do {
       let h = rb_set_color parent RED (rb_set_color b BLACK h);
       (h, root) \<leftarrow> rotate_to near far set_near set_far parent (h, root);
       Some (far h parent, h, root)
     }
     else Some (b, h, root))"

lemma erase_fixes:
  "erase_red_left = erase_fix_red rb_left rb_right set_left set_right"
  "erase_black_left = erase_fix_to rb_left rb_right set_left set_right"
  "erase_red_right = erase_fix_red rb_right rb_left set_right set_left"
  "erase_black_right = erase_fix_to rb_right rb_left set_right set_left"
  by (intro ext; unfold erase_red_left_def erase_red_right_def erase_black_left_def erase_black_right_def
      erase_fix_red_def erase_fix_to_def rb_rotate_to; rule refl)+

text \<open>The outcomes of an iteration: the tree is repaired, or a black node is missing in a subtree.\<close>

definition fixed :: "rb_heap \<Rightarrow> nat set \<Rightarrow> nat list \<Rightarrow> rb_tree \<Rightarrow> bool" where
  "fixed h0 N ns hr \<longleftrightarrow> (\<exists>t. tracks h0 N hr t \<and> nodes t = ns \<and> (\<exists>m. rb m t) \<and> col t = BLACK)"

definition pending :: "rb_heap \<Rightarrow> nat set \<Rightarrow> nat list \<Rightarrow> ctx \<Rightarrow> rbt \<Rightarrow> rb_tree \<Rightarrow> bool" where
  "pending h0 N ns c t hr \<longleftrightarrow> tracks h0 N hr (plug c t) \<and> nodes (plug c t) = ns \<and>
     (\<exists>m. crb (Suc m) c \<and> (if col t = BLACK then rb m t else rb (Suc m) (blk t)))"

context rb_side
begin

text \<open>The sibling is black and its far child is red: the loop ends with a rotation.\<close>

lemma erase_rotate:
  assumes "tracks h0 N (h, root) (plug c (nd t (p, k) (nd x (b, BLACK) (nd y (v, RED) z))))"
  shows "\<exists>h' root'. do {
       let h = rb_set_color b (rb_color h p) h;
       let h = rb_set_color p BLACK h;
       let h = (if far h b \<noteq> 0 then rb_set_color (far h b) BLACK h else h);
       (h, root) \<leftarrow> rotate_to near far set_near set_far p (h, root);
       Some (True, root, p, h, root)
     } = Some (True, root', p, h', root') \<and>
     tracks h0 N (h', root') (plug c (nd (nd t (p, BLACK) x) (b, k) (nd y (v, BLACK) z)))"
proof -
  have "rb_color h p = k" using read_tracks(4) [OF assms] .
  have t1: "tracks h0 N (h, root) (plug (cfar c (p, k) t) (nd x (b, BLACK) (nd y (v, RED) z)))" using assms by simp
  have t2: "tracks h0 N (rb_set_color b k h, root) (plug c (nd t (p, k) (nd x (b, k) (nd y (v, RED) z))))"
    using recolor_tracks [OF t1] by simp
  let ?h = "rb_set_color p BLACK (rb_set_color b k h)"
  have t3: "tracks h0 N (?h, root) (plug (cfar c (p, BLACK) t) (nd x (b, k) (nd y (v, RED) z)))"
    using recolor_tracks [OF t2] by simp
  have v: "far ?h b = v" using read_tracks(3) [OF t3] by simp
  have t4: "tracks h0 N (?h, root) (plug (cfar (cfar c (p, BLACK) t) (b, k) x) (nd y (v, RED) z))" using t3 by simp
  have "v \<noteq> 0" using read_tracks(1) [OF t4] .
  have "tracks h0 N (rb_set_color v BLACK ?h, root) (plug c (nd t (p, BLACK) (nd x (b, k) (nd y (v, BLACK) z))))"
    using recolor_tracks [OF t4] by simp
  from rotate_tracks [OF this] obtain h' root' where
    "rotate_to near far set_near set_far p (rb_set_color v BLACK ?h, root) = Some (h', root')"
    "tracks h0 N (h', root') (plug c (nd (nd t (p, BLACK) x) (b, k) (nd y (v, BLACK) z)))" by blast
  then show ?thesis using v \<open>v \<noteq> 0\<close> \<open>rb_color h p = k\<close> by simp
qed

lemma not_black_cases:
  assumes "rep h par t" and "\<not> rb_black h (ptr t)"
  obtains l x r where "t = nd l (x, RED) r"
proof -
  have "col t = RED" using assms red_ptr by (simp add: rb_black_def)
  moreover from this have "t \<noteq> Leaf" by auto
  ultimately show ?thesis using nd_cases [of t] that by auto
qed

lemma erase_fixed:
  assumes t: "tracks h0 N (h, root) (plug c (nd t (p, k) (nd x (b, BLACK) (nd y (v, RED) z))))"
    and rb: "rb m t" "rb m x" "rb m (nd y (v, RED) z)" and c: "crb (Suc m) (cnear c (p, k) (nd x' (b', BLACK) y'))"
  shows "\<exists>h' root'. do {
       let h = rb_set_color b (rb_color h p) h;
       let h = rb_set_color p BLACK h;
       let h = (if far h b \<noteq> 0 then rb_set_color (far h b) BLACK h else h);
       (h, root) \<leftarrow> rotate_to near far set_near set_far p (h, root);
       Some (True, root, p, h, root)
     } = Some (True, root', p, h', root') \<and>
     fixed h0 N (nodes (plug c (nd t (p, k) (nd x (b, BLACK) (nd y (v, RED) z))))) (h', root')"
proof -
  let ?t = "nd (nd t (p, BLACK) x) (b, k) (nd y (v, BLACK) z)"
  have "nodes (plug c ?t) = nodes (plug c (nd t (p, k) (nd x (b, BLACK) (nd y (v, RED) z))))"
    by (rule nodes_plug_cong) (metis nodes_assoc nodes_cong)
  moreover have "\<exists>m. rb m (plug c ?t)" "col (plug c ?t) = BLACK"
  proof -
    have "crb (if k = BLACK then Suc (Suc m) else Suc m) c" "k = RED \<longrightarrow> c \<noteq> Top \<and> ccol c = BLACK" using c by (cases k; simp)+
    moreover have "rb (if k = BLACK then Suc (Suc m) else Suc m) ?t" using rb by (cases k) simp_all
    ultimately show "\<exists>m. rb m (plug c ?t)" using rb_plug [of "if k = BLACK then Suc (Suc m) else Suc m" c ?t] not_red [of k] by auto
    show "col (plug c ?t) = BLACK"
      using col_plug_black \<open>crb _ c\<close> \<open>k = RED \<longrightarrow> _\<close> not_red [of k] by (cases "c = Top") auto
  qed
  ultimately show ?thesis using erase_rotate [OF t] unfolding fixed_def by blast
qed

lemma erase_black_sibling:
  assumes t: "tracks h0 N (h, root) (plug c (nd t (p, k) (nd x (b, BLACK) y)))" and rb: "rb m t" "col t = BLACK"
    and c: "crb (Suc m) (cnear c (p, k) (nd x (b, BLACK) y))"
  shows "\<exists>stop child parent h' root'.
    erase_fix_to near far set_near set_far p b (h, root) = Some (stop, child, parent, h', root') \<and>
    (if stop then child = root' \<and> fixed h0 N (nodes (plug c (nd t (p, k) (nd x (b, BLACK) y)))) (h', root')
     else child = p \<and> parent = cptr c \<and> (\<exists>t'. ptr t' = p \<and> col t' = k \<and>
       pending h0 N (nodes (plug c (nd t (p, k) (nd x (b, BLACK) y)))) c t' (h', root')))"
proof -
  let ?ns = "nodes (plug c (nd t (p, k) (nd x (b, BLACK) y)))"
  have xy: "rb m x" "rb m y" using c by (cases k; simp)+
  have t1: "tracks h0 N (h, root) (plug (cfar c (p, k) t) (nd x (b, BLACK) y))" using t by simp
  note b = read_tracks [OF t1]
  have rep: "rep h b x" "rep h b y" using tracks_parts(1) [OF t1] by simp_all
  have par: "rb_parent h p = cptr c" "rb_color h p = k" using read_tracks [OF t] by simp_all
  consider (both) "rb_black h (near h b)" "rb_black h (far h b)" | (outer) "\<not> rb_black h (far h b)"
    | (inner) "\<not> rb_black h (near h b)" "rb_black h (far h b)" by blast
  then show ?thesis
  proof cases
    case both
    let ?t = "nd t (p, k) (nd x (b, RED) y)"
    have "tracks h0 N (rb_set_color b RED h, root) (plug c ?t)" using recolor_tracks [OF t1] by simp
    moreover have "nodes (plug c ?t) = ?ns" by (rule nodes_plug_cong) (metis nodes_cong)
    moreover have "col x = BLACK" "col y = BLACK"
      using both b(2,3) red_ptr [OF rep(1)] red_ptr [OF rep(2)] by (simp_all add: rb_black_def not_red)
    then have "\<exists>m. crb (Suc m) c \<and> (if col ?t = BLACK then rb m ?t else rb (Suc m) (blk ?t))"
      using c xy rb by (intro exI [of _ "if k = BLACK then Suc m else m"]) (cases k; simp)
    ultimately have "pending h0 N ?ns c ?t (rb_set_color b RED h, root)" by (simp add: pending_def)
    then show ?thesis using both b(1) par by (auto simp: erase_fix_to_def)
  next
    case outer
    then obtain y1 v y2 where y: "y = nd y1 (v, RED) y2" using not_black_cases [OF rep(2)] b(3) by metis
    from erase_fixed [OF t [unfolded y] rb(1) xy(1) xy(2) [unfolded y] c] show ?thesis
      using outer b(1) y by (auto simp: erase_fix_to_def)
  next
    case inner
    then obtain x1 l x2 where x: "x = nd x1 (l, RED) x2" using not_black_cases [OF rep(1)] b(2) by metis
    have y: "col y = BLACK" using inner b(3) red_ptr [OF rep(2)] by (simp add: rb_black_def not_red)
    have l: "near h b = l" using b(2) x by simp
    have t2: "tracks h0 N (h, root) (plug (cnear (cfar c (p, k) t) (b, BLACK) y) (nd x1 (l, RED) x2))" using t1 x by simp
    have "l \<noteq> 0" using read_tracks(1) [OF t2] .
    have t3: "tracks h0 N (rb_set_color l BLACK h, root) (plug (cfar c (p, k) t) (nd (nd x1 (l, BLACK) x2) (b, BLACK) y))"
      using recolor_tracks [OF t2] by simp
    have t4: "tracks h0 N (rb_set_color b RED (rb_set_color l BLACK h), root) (plug (cfar c (p, k) t) (nd (nd x1 (l, BLACK) x2) (b, RED) y))"
      by (rule recolor_tracks [OF t3])
    from opp.rotate_tracks [OF t4] obtain h1 root1 where
      r: "rotate_to far near set_far set_near b (rb_set_color b RED (rb_set_color l BLACK h), root) = Some (h1, root1)"
        "tracks h0 N (h1, root1) (plug c (nd t (p, k) (nd x1 (l, BLACK) (nd x2 (b, RED) y))))" by auto
    have "far h1 p = l" using read_tracks(3) [OF r(2)] by simp
    moreover have "rb m x1" "rb m (nd x2 (b, RED) y)" using xy x y by simp_all
    note erase_fixed [OF r(2) rb(1) this c]
    moreover have "nodes (plug c (nd t (p, k) (nd x1 (l, BLACK) (nd x2 (b, RED) y)))) = ?ns"
      unfolding x by (rule nodes_plug_cong) (metis nodes_assoc nodes_cong)
    ultimately show ?thesis using inner b(1) l \<open>l \<noteq> 0\<close> r(1) by (auto simp: erase_fix_to_def)
  qed
qed

lemma erase_side:
  assumes t: "tracks h0 N (h, root) (plug c (nd t (p, k) w))" and rb: "rb m t" "col t = BLACK"
    and c: "crb (Suc m) (cnear c (p, k) w)"
  shows "\<exists>stop child parent h' root'.
    do { (b, hr) \<leftarrow> erase_fix_red near far set_near set_far p (h, root);
         erase_fix_to near far set_near set_far p b hr } = Some (stop, child, parent, h', root') \<and>
    (if stop then child = root' \<and> fixed h0 N (nodes (plug c (nd t (p, k) w))) (h', root')
     else child = p \<and> (\<exists>c' t'. parent = cptr c' \<and> ptr t' = p \<and> (c' = c \<or> col t' = RED) \<and>
       pending h0 N (nodes (plug c (nd t (p, k) w))) c' t' (h', root')))"
proof -
  have "rb (Suc m) w" using c by (cases k) simp_all
  then have "w \<noteq> Leaf" by auto
  then obtain x b kb y where w: "w = nd x (b, kb) y" using nd_cases by blast
  note p = read_tracks [OF t]
  have red: "rb_red h (far h p) \<longleftrightarrow> kb = RED" "far h p = b"
    using p(3) w red_ptr [of h p w] tracks_parts(1) [OF t] by auto
  show ?thesis
  proof (cases kb)
    case BLACK
    then have "erase_fix_red near far set_near set_far p (h, root) = Some (b, h, root)"
      using red by (simp add: erase_fix_red_def)
    then show ?thesis using erase_black_sibling [OF t [unfolded w BLACK] rb c [unfolded w BLACK]] w BLACK by fastforce
  next
    case RED
    then have k: "k = BLACK" using c w by (cases k) auto
    have xy: "rb (Suc m) x" "rb (Suc m) y" "col x = BLACK" "col y = BLACK" "crb (Suc (Suc m)) c" using c k RED w by simp_all
    then have "x \<noteq> Leaf" by auto
    then obtain x1 b' x2 where x: "x = nd x1 (b', BLACK) x2" using nd_cases [of x] xy(3) by auto
    have t1: "tracks h0 N (h, root) (plug (cfar c (p, BLACK) t) (nd x (b, RED) y))" using t w RED k by simp
    have t2: "tracks h0 N (rb_set_color b BLACK h, root) (plug c (nd t (p, BLACK) (nd x (b, BLACK) y)))"
      using recolor_tracks [OF t1] by simp
    from rotate_tracks [OF recolor_tracks [OF t2, of RED]] obtain h1 root1 where
      r: "rotate_to near far set_near set_far p (rb_set_color p RED (rb_set_color b BLACK h), root) = Some (h1, root1)"
        "tracks h0 N (h1, root1) (plug (cnear c (b, BLACK) y) (nd t (p, RED) x))" by auto
    have "erase_fix_red near far set_near set_far p (h, root) = Some (b', h1, root1)"
      using red RED r(1) read_tracks(3) [OF r(2)] x by (simp add: erase_fix_red_def)
    moreover have "crb (Suc m) (cnear (cnear c (b, BLACK) y) (p, RED) x)" using xy by simp
    note erase_black_sibling [OF r(2) [unfolded x] rb this [unfolded x]]
    moreover have "nodes (plug (cnear c (b, BLACK) y) (nd t (p, RED) (nd x1 (b', BLACK) x2))) = nodes (plug c (nd t (p, k) w))"
      unfolding w x plug_near by (rule nodes_plug_cong) (metis nodes_assoc)
    ultimately show ?thesis by fastforce
  qed
qed

end

text \<open>Painting the child black repairs the tree when the child is red or the root.\<close>

definition repaired :: "rb_heap \<Rightarrow> nat set \<Rightarrow> nat list \<Rightarrow> (nat \<times> rb_tree) option \<Rightarrow> bool" where
  "repaired h0 N ns res \<longleftrightarrow> (\<exists>child h root. res = Some (child, h, root) \<and>
     fixed h0 N ns (if child \<noteq> 0 then rb_set_color child BLACK h else h, root))"

lemma pending_black:
  "pending h0 N ns c t (h, root) \<Longrightarrow> rb_black h (ptr t) \<longleftrightarrow> col t = BLACK"
  using red_ptr by (auto simp: pending_def tracks_def tree_at_plug rb_black_def not_red)

lemma crep_root:
  "crep h root c q \<Longrightarrow> c \<noteq> Top \<Longrightarrow> root \<noteq> 0 \<and> root \<in> set (cnodes c)"
proof (induction h root c q rule: crep.induct)
  case (2 h root c x k r q)
  then show ?case by (cases "c = Top") auto
next
  case (3 h root l x k c q)
  then show ?case by (cases "c = Top") auto
qed simp

lemma pending_root:
  assumes "pending h0 N ns c t (h, root)"
  shows "ptr t = root \<longleftrightarrow> c = Top"
proof (cases "c = Top")
  case True
  then show ?thesis using assms by (simp add: pending_def tracks_def tree_at_def)
next
  case False
  have "tracks h0 N (h, root) (plug c t)" using assms by (simp add: pending_def)
  note tp = tracks_parts [OF this]
  have "ptr t \<noteq> root" using crep_root [OF tp(2) False] tp(4) ptr_eq_node [OF tp(1)] by blast
  then show ?thesis using False by simp
qed

lemma erase_fix_done:
  assumes "pending h0 N ns c t (h, root)" and "\<not> (col t = BLACK \<and> c \<noteq> Top)"
  shows "repaired h0 N ns (erase_fix_loop (ptr t) (cptr c) (h, root))"
proof -
  from assms(1) obtain m where m: "crb (Suc m) c" "if col t = BLACK then rb m t else rb (Suc m) (blk t)"
    and tr: "tracks h0 N (h, root) (plug c t)" "nodes (plug c t) = ns" by (auto simp: pending_def)
  have loop: "erase_fix_loop (ptr t) (cptr c) (h, root) = Some (ptr t, h, root)"
    using pending_black [OF assms(1)] pending_root [OF assms(1)] assms(2) by (subst erase_fix_loop.simps) auto
  have "fixed h0 N ns (if ptr t \<noteq> 0 then rb_set_color (ptr t) BLACK h else h, root)"
  proof (cases t rule: ptr.cases)
    case 1
    then show ?thesis using assms(2) tr m(2) by (auto simp: fixed_def)
  next
    case (2 l x k r)
    have "tracks h0 N (rb_set_color x BLACK h, root) (plug c (blk t))"
      using left.recolor_tracks [of h0 N h root c l x k r BLACK] tr(1) 2 by simp
    moreover have "nodes (plug c (blk t)) = ns" using tr(2) 2 by (simp add: inorder_plug)
    moreover have "\<exists>m. rb m (plug c (blk t))"
      using assms(2) m rb_plug [of "Suc m" c "blk t"] 2 by (cases k) auto
    moreover have "col (plug c (blk t)) = BLACK" using col_plug_black [OF m(1)] 2 by (cases "c = Top") auto
    moreover have "x \<noteq> 0" using tracks_parts(1) [OF tr(1)] 2 by simp
    ultimately show ?thesis using 2 by (auto simp: fixed_def)
  qed
  then show ?thesis using loop by (simp add: repaired_def)
qed

text \<open>An iteration with a black child below the root.\<close>

lemma erase_fix_iter:
  assumes "pending h0 N ns c t (h, root)" and "col t = BLACK" and c: "c = CL c1 (p, k) w \<or> c = CR w (p, k) c1"
  shows "\<exists>stop child parent h' root'. erase_fix_step (ptr t) p (h, root) = Some (stop, child, parent, h', root') \<and>
      (if stop then child = root' \<and> fixed h0 N ns (h', root')
       else child = p \<and> (\<exists>c' t'. parent = cptr c' \<and> ptr t' = p \<and> (c' = c1 \<or> col t' = RED) \<and> pending h0 N ns c' t' (h', root')))"
proof -
  from assms(1,2) obtain m where m: "crb (Suc m) c" "rb m t"
    and tr: "tracks h0 N (h, root) (plug c t)" "nodes (plug c t) = ns" by (auto simp: pending_def)
  note tp = tracks_parts [OF tr(1)]
  have p: "p \<noteq> 0" using tp(2) c by auto
  show ?thesis using c
  proof
    assume c: "c = CL c1 (p, k) w"
    have "rb_left h p = ptr t" using tp(2) c by simp
    then have step: "erase_fix_step (ptr t) p (h, root) = do { (b, hr) \<leftarrow> erase_fix_red rb_left rb_right set_left set_right p (h, root);
        erase_fix_to rb_left rb_right set_left set_right p b hr }"
      using p by (simp add: erase_fix_step_def erase_fixes)
    have tr': "tracks h0 N (h, root) (plug c1 (Node t (p, k) w))" "nodes (plug c1 (Node t (p, k) w)) = ns" using tr c by simp_all
    show ?thesis unfolding step using left.erase_side [OF tr'(1) m(2) assms(2) m(1) [unfolded c]] unfolding tr'(2) .
  next
    assume c: "c = CR w (p, k) c1"
    have "rb (Suc m) w" using m(1) c by (cases k) auto
    then have w: "rb_left h p = ptr w" "rep h p w" "w \<noteq> Leaf" using tp(2) c by auto
    then have "ptr w \<in> set (nodes w)" "ptr w \<noteq> 0" using ptr_in_nodes ptr_zero by auto
    moreover have "set (nodes w) \<subseteq> set (cnodes c)" using c by auto
    ultimately have "ptr w \<notin> set (nodes t)" using tp(4) by blast
    then have "rb_left h p \<noteq> ptr t" using w(1) \<open>ptr w \<noteq> 0\<close> ptr_eq_node [OF tp(1)] by metis
    then have step: "erase_fix_step (ptr t) p (h, root) = do { (b, hr) \<leftarrow> erase_fix_red rb_right rb_left set_right set_left p (h, root);
        erase_fix_to rb_right rb_left set_right set_left p b hr }"
      using p by (auto simp: erase_fix_step_def erase_fixes)
    have tr': "tracks h0 N (h, root) (plug c1 (Node w (p, k) t))" "nodes (plug c1 (Node w (p, k) t)) = ns" using tr c by simp_all
    show ?thesis unfolding step using right.erase_side [OF tr'(1) m(2) assms(2) m(1) [unfolded c]] unfolding tr'(2) .
  qed
qed

lemma fixed_paint:
  assumes "fixed h0 N ns (h, root)"
  shows "fixed h0 N ns (if root \<noteq> 0 then rb_set_color root BLACK h else h, root)"
proof -
  obtain t where t: "tracks h0 N (h, root) t" "col t = BLACK" using assms by (auto simp: fixed_def)
  have "rb_color h root = BLACK" if "root \<noteq> 0"
    using t that by (cases t rule: ptr.cases) (auto simp: tracks_def tree_at_def)
  then have "rb_set_color root BLACK h = h" if "root \<noteq> 0" using that by (simp add: rb_set_color_def fun_upd_idem)
  then show ?thesis using assms by (cases "root = 0") simp_all
qed

lemma erase_fix_loop_ok:
  assumes "pending h0 N ns c t (h, root)"
  shows "repaired h0 N ns (erase_fix_loop (ptr t) (cptr c) (h, root))"
  using assms
proof (induction "size c" arbitrary: c t h root rule: less_induct)
  case less
  show ?case
  proof (cases "col t = BLACK \<and> c \<noteq> Top")
    case False
    then show ?thesis by (rule erase_fix_done [OF less.prems])
  next
    case True
    have cont: "ptr t \<noteq> root" "rb_black h (ptr t)" using True pending_root pending_black less.prems by auto
    obtain p k w c1 where c: "c = CL c1 (p, k) w \<or> c = CR w (p, k) c1" using True by (cases c rule: cptr.cases) auto
    then have p: "cptr c = p" "size c1 < size c" by auto
    obtain stop child parent h' root' where s: "erase_fix_step (ptr t) p (h, root) = Some (stop, child, parent, h', root')"
      "if stop then child = root' \<and> fixed h0 N ns (h', root')
       else child = p \<and> (\<exists>c' t'. parent = cptr c' \<and> ptr t' = p \<and> (c' = c1 \<or> col t' = RED) \<and> pending h0 N ns c' t' (h', root'))"
      using erase_fix_iter [OF less.prems conjunct1 [OF True] c] by blast
    have loop: "erase_fix_loop (ptr t) (cptr c) (h, root) =
        (if stop then Some (child, h', root') else erase_fix_loop child parent (h', root'))"
      using cont s(1) p(1) by (subst erase_fix_loop.simps) simp
    show ?thesis
    proof (cases stop)
      case True
      then show ?thesis using loop s(2) fixed_paint [of h0 N ns h' root'] by (simp add: repaired_def)
    next
      case False
      then obtain c' t' where n: "parent = cptr c'" "ptr t' = child" "c' = c1 \<or> col t' = RED" "pending h0 N ns c' t' (h', root')"
        using s(2) by auto
      have "repaired h0 N ns (erase_fix_loop (ptr t') (cptr c') (h', root'))"
        using n(3) less.hyps [OF _ n(4)] p(2) erase_fix_done [OF n(4)] by (cases "col t' = RED") auto
      then show ?thesis using loop False n by simp
    qed
  qed
qed

text \<open>A node with at most one child is replaced by that child.\<close>

definition adopt :: "nat \<Rightarrow> nat \<Rightarrow> rb_heap \<Rightarrow> rb_heap" where
  "adopt x c h = (if c \<noteq> 0 then rb_set_parent c x h else h)"

lemma reparent:
  assumes "rep h par t" and "distinct (nodes t)"
  shows "rep (adopt par' (ptr t) h) par' t"
  by (rule rep_frame [OF assms]) (use ptr_zero [OF assms(1)] in \<open>auto simp: adopt_def\<close>)

lemma reparent_same_out:
  "rep h par t \<Longrightarrow> same_out (set (nodes t)) h' (adopt q (ptr t) h')"
  using ptr_zero [of h par t] ptr_in_nodes [of t] by (auto simp: same_out_def adopt_def)

lemma unlink_tree:
  assumes "tree_at h root (plug c (Node l (x, k) r))" and q: "q = (if l \<noteq> Leaf then l else r)" and "l = Leaf \<or> r = Leaf"
  shows "\<exists>h' root'. relink (cptr c) x (ptr q) (adopt (cptr c) (ptr q) h, root) = (h', root') \<and>
    tree_at h' root' (plug c q) \<and> same_out (set (nodes (plug c q))) h h'"
proof -
  let ?h = "adopt (cptr c) (ptr q) h"
  note a = assms(1) [unfolded tree_at_plug]
  have rq: "rep h x q" and dq: "distinct (nodes q)" and iq: "set (nodes q) \<inter> set (cnodes c) = {}" and x: "x \<noteq> 0" "x \<notin> set (cnodes c)"
    using a q by (auto simp: Int_Un_distrib2 split: if_splits)
  have so: "same_out (set (nodes q)) h ?h" by (rule reparent_same_out [OF rq])
  have "crep ?h root c x" by (rule crep_same_out [OF _ _ so iq]) (use a in auto)
  from crep_relink [OF this, of "ptr q"] obtain h' root' where
    r: "relink (cptr c) x (ptr q) (?h, root) = (h', root')" "crep h' root' c (ptr q)" "same_out (set (cnodes c)) ?h h'"
    using a x by auto
  have "rep h' (cptr c) q" by (rule rep_same_out [OF reparent [OF rq dq] dq r(3)]) (use iq in blast)
  then have "tree_at h' root' (plug c q)" unfolding tree_at_plug using r(2) dq iq a by blast
  moreover have "same_out (set (nodes (plug c q))) h h'"
    by (rule same_out_trans [OF same_out_mono [OF so] same_out_mono [OF r(3)]]) (auto simp: inorder_plug)
  ultimately show ?thesis using r(1) by blast
qed

text \<open>A node takes the place of another one.\<close>

lemma subst_tree:
  assumes "tree_at h root (plug c (Node l (n, k) r))" and x: "x \<noteq> 0" "x \<notin> set (nodes (plug c (Node l (n, k) r)))"
  shows "\<exists>h' root'. relink (cptr c) n x (adopt x (ptr r) (adopt x (ptr l) (copy_node x n h)), root) = (h', root') \<and>
    tree_at h' root' (plug c (Node l (x, k) r))"
proof -
  let ?h1 = "copy_node x n h"
  let ?h2 = "adopt x (ptr l) ?h1"
  let ?h3 = "adopt x (ptr r) ?h2"
  note a = assms(1) [unfolded tree_at_plug]
  have rl: "rep h n l" "rep h n r" "n \<noteq> 0" "rb_left h n = ptr l" "rb_right h n = ptr r" "rb_color h n = k" "rb_parent h n = cptr c"
    and c: "crep h root c n" and d: "distinct (nodes l)" "distinct (nodes r)" "n \<notin> set (nodes l)" "n \<notin> set (nodes r)" "set (nodes l) \<inter> set (nodes r) = {}"
    and dc: "distinct (cnodes c)" "set (nodes l) \<inter> set (cnodes c) = {}" "set (nodes r) \<inter> set (cnodes c) = {}" "n \<notin> set (cnodes c)"
    using a by (auto simp: Int_Un_distrib2)
  have xn: "x \<notin> set (nodes l)" "x \<notin> set (nodes r)" "x \<notin> set (cnodes c)" "x \<noteq> n" using x by (auto simp: inorder_plug)
  have so1: "same_out {x} h ?h1" by (simp add: same_out_def copy_node_def)
  have l1: "rep ?h1 n l" and r1: "rep ?h1 n r" by (rule rep_same_out [OF _ _ so1]; use rl d xn in simp)+
  note so2 = reparent_same_out [OF l1, of ?h1 x] and l2 = reparent [OF l1 d(1), of x]
  have r2: "rep ?h2 n r" by (rule rep_same_out [OF r1 d(2) so2 d(5)])
  note so3 = reparent_same_out [OF r2, of ?h2 x] and r3 = reparent [OF r2 d(2), of x]
  have l3: "rep ?h3 x l" by (rule rep_same_out [OF l2 d(1) so3]) (use d(5) in blast)
  have "crep ?h3 root c n"
    by (rule crep_same_out [OF crep_same_out [OF crep_same_out [OF c dc(1) so1] dc(1) so2] dc(1) so3]) (use dc xn in auto)
  from crep_relink [OF this, of x] obtain h' root' where
    r: "relink (cptr c) n x (?h3, root) = (h', root')" "crep h' root' c x" "same_out (set (cnodes c)) ?h3 h'"
      "rb_parent h' = rb_parent ?h3" "rb_color h' = rb_color ?h3" using dc rl(3) by auto
  have "rep h' x l" "rep h' x r"
    by (rule rep_same_out [OF l3 d(1) r(3)], use dc in blast, rule rep_same_out [OF r3 d(2) r(3)], use dc in blast)
  moreover have "rb_left h' x = ptr l" "rb_right h' x = ptr r" "rb_parent h' x = cptr c" "rb_color h' x = k"
    using r(3-5) xn rl ptr_eq_node [OF rl(1), of x] ptr_eq_node [OF rl(2), of x] x(1)
    by (auto simp: same_out_def adopt_def copy_node_def)
  ultimately have "rep h' (cptr c) (Node l (x, k) r)" using x(1) by simp
  then have "tree_at h' root' (plug c (Node l (x, k) r))"
    unfolding tree_at_plug using r(2) d dc xn by (auto simp: Int_Un_distrib2)
  then show ?thesis using r(1) by blast
qed

text \<open>The successor of a node with a right child.\<close>

fun capp :: "ctx \<Rightarrow> ctx \<Rightarrow> ctx" where
  "capp c Top = c"
| "capp c (CL d a r) = CL (capp c d) a r"
| "capp c (CR l a d) = CR l a (capp c d)"

lemma plug_capp: "plug (capp c d) t = plug c (plug d t)"
  by (induction d arbitrary: t) auto

lemma capp_order: "before (capp c d) = before c @ before d" "after (capp c d) = after d @ after c"
  by (induction d) auto

lemma crb_capp_cong:
  "crb n c' = crb n c \<Longrightarrow> (\<And>n. crb n c' = crb n c) \<Longrightarrow> ccol c' = ccol c \<Longrightarrow> c' = Top \<longleftrightarrow> c = Top \<Longrightarrow>
   crb n (capp c' d) = crb n (capp c d)"
proof (induction n d rule: crb.induct)
  case (2 n d x r)
  have "ccol (capp c' d) = ccol (capp c d)" "capp c' d = Top \<longleftrightarrow> capp c d = Top" using 2 by (cases d rule: ccol.cases; simp)+
  then show ?case using 2 by auto
next
  case (4 n r x d)
  have "ccol (capp c' d) = ccol (capp c d)" "capp c' d = Top \<longleftrightarrow> capp c d = Top" using 4 by (cases d rule: ccol.cases; simp)+
  then show ?case using 4 by auto
qed auto

lemma leftmost_tree:
  assumes "rep h par t" and "t \<noteq> Leaf"
  shows "\<exists>d x k r. t = plug d (Node Leaf (x, k) r) \<and> before d = [] \<and> leftmost_loop h (ptr t) = Some x \<and>
    (d = Top \<or> (\<exists>d' p k' w. d = CL d' (p, k') w))"
  using assms
proof (induction h par t rule: rep.induct)
  case (2 h par l x k r)
  show ?case
  proof (cases "l = Leaf")
    case True
    then have "leftmost_loop h x = Some x" using "2.prems" by (subst leftmost_loop.simps) simp
    then show ?thesis using True by (intro exI [of _ Top]) auto
  next
    case False
    have "rep h x l" using "2.prems"(1) by simp
    from "2.IH"(1) [OF this False] obtain d y ky ry where d: "l = plug d (Node Leaf (y, ky) ry)" "before d = []" "leftmost_loop h (ptr l) = Some y"
      "d = Top \<or> (\<exists>d' p k' w. d = CL d' (p, k') w)" by blast
    have "leftmost_loop h x = Some y"
      using d(3) "2.prems"(1) ptr_zero [of h x l] False by (subst leftmost_loop.simps) simp
    moreover have "Node l (x, k) r = plug (capp (CL Top (x, k) r) d) (Node Leaf (y, ky) ry)" using d(1) by (simp add: plug_capp)
    moreover have "before (capp (CL Top (x, k) r) d) = []" using d(2) by (simp add: capp_order)
    moreover have "\<exists>d' p k' w. capp (CL Top (x, k) r) d = CL d' (p, k') w" using d(4) by auto
    ultimately show ?thesis by (metis ptr.simps(2))
  qed
qed simp

text \<open>
  The successor \<open>x\<close> is taken out of the right subtree and put in the place of \<open>n\<close>: the code does both
  at once, and the resulting heap differs from the two steps at most in the removed node.
\<close>

lemma tree_at_same:
  assumes "tree_at h root t" and "same_out {n} h h'" and "n \<notin> set (nodes t)"
  shows "tree_at h' root t"
  using assms rep_same_out [of h 0 t "{n}" h'] by (simp add: tree_at_def)

lemma relink_same_out: "relink p x y (h, root) = (h', root') \<Longrightarrow> p \<noteq> 0 \<longrightarrow> p \<in> N \<Longrightarrow> same_out N h h'"
  by (auto simp: relink_def same_out_def split: if_splits)

lemma adopt_same_out: "c \<noteq> 0 \<longrightarrow> c \<in> N \<Longrightarrow> same_out N h (adopt x c h)"
  by (auto simp: adopt_def same_out_def)

lemma relink_set_right:
  "p \<noteq> n \<Longrightarrow> relink p x y (h, root) = (h', root') \<Longrightarrow> relink p x y (set_right n v h, root) = (set_right n v h', root')"
  by (auto simp: relink_def set_left_def set_right_def fun_upd_twist split: if_splits)

lemma cptr_nodes: "cptr c \<noteq> 0 \<longrightarrow> cptr c \<in> set (nodes (plug c t))"
  by (cases c rule: cptr.cases) (auto simp: inorder_plug)

lemma plug_Leaf: "plug d t = Leaf \<longleftrightarrow> d = Top \<and> t = Leaf"
  by (induction d arbitrary: t) auto

lemma ptr_plug_ne: "d \<noteq> Top \<Longrightarrow> ptr (plug d t) = ptr (plug d t')"
proof (induction d arbitrary: t t')
  case (CL d a r)
  then show ?case by (cases "d = Top"; cases a) auto
next
  case (CR l a d)
  then show ?case by (cases "d = Top"; cases a) auto
qed simp

lemma splice_deep:
  assumes t: "tree_at h root (plug c (Node l (n, k) (plug (CL d (p, kp) w) (Node Leaf (x, kx) r))))" and l: "l \<noteq> Leaf"
    and next_x: "rb_next h n = Some x"
  shows "\<exists>h1 h' root'. erase_splice n h = Some (x, ptr r, p, kx, h1) \<and> rb_parent h1 n = cptr c \<and>
    relink (cptr c) n x (h1, root) = (h', root') \<and>
    tree_at h' root' (plug c (Node l (x, k) (plug (CL d (p, kp) w) r))) \<and>
    same_out (set (nodes (plug c (Node l (x, k) (plug (CL d (p, kp) w) r))))) h h'"
proof -
  let ?d = "CL d (p, kp) w" and ?C = "CL (capp (CR l (n, k) c) d) (p, kp) w"
  let ?R = "plug ?d r"
  have tC: "tree_at h root (plug ?C (Node Leaf (x, kx) r))" using t by (simp add: plug_capp)
  note x = tree_at_node [OF tC] and pC = tree_at_plug [THEN iffD1, OF tC]
  note n = tree_at_node [OF t] and pn = tree_at_plug [THEN iffD1, OF t]
  have "distinct (nodes (plug ?C (Node Leaf (x, kx) r)))" using tC by (simp add: tree_at_def)
  then have dist: "x \<noteq> p" "n \<noteq> p" "x \<noteq> n" "x \<notin> set (nodes r)" "n \<notin> set (nodes r)" "p \<notin> set (nodes r)" "x \<notin> set (nodes l)" "p \<notin> set (nodes l)"
    "n \<notin> set (nodes l)" "set (nodes l) \<inter> set (nodes r) = {}" "x \<notin> set (nodes (plug c (Node l (n, k) ?R)))"
    by (auto simp: inorder_plug capp_order)
  have p: "rb_left h p = x" "p \<noteq> 0" and rr: "rep h x r" using pC by auto
  have R: "rb_right h n = ptr ?R" "ptr ?R \<noteq> 0" "ptr ?R \<noteq> x" "ptr ?R \<noteq> n"
  proof -
    have e: "ptr ?R = ptr (plug ?d (Node Leaf (x, kx) r))" by (rule ptr_plug_ne) simp
    have "rep h n (plug ?d (Node Leaf (x, kx) r))" using pn by simp
    then show "rb_right h n = ptr ?R" "ptr ?R \<noteq> 0" using n(3) ptr_zero e by (auto simp: plug_Leaf)
    have "ptr ?R \<in> set (nodes ?R)" by (rule ptr_in_nodes) (simp add: plug_Leaf)
    then show "ptr ?R \<noteq> x" using dist(11) by (auto simp: inorder_plug)
    have "n \<notin> set (nodes (plug ?d (Node Leaf (x, kx) r)))" using pn by auto
    then show "ptr ?R \<noteq> n" unfolding e using ptr_in_nodes [of "plug ?d (Node Leaf (x, kx) r)"] by (auto simp: plug_Leaf)
  qed
  have L: "ptr l \<noteq> 0" "ptr l \<in> set (nodes l)" using l pn ptr_zero [of h n l] ptr_in_nodes by auto
  have rp: "ptr r \<noteq> n" "ptr r \<noteq> x" "ptr r \<noteq> p" if "ptr r \<noteq> 0" using that ptr_eq_node [OF rr refl] dist by auto
  let ?hA = "set_left p (ptr r) (adopt p (ptr r) h)"
  have A: "tree_at ?hA root (plug c (Node l (n, k) ?R))"
    using unlink_tree [OF tC refl] p by (auto simp: relink_def plug_capp adopt_def split: if_splits)
  let ?h1 = "adopt x (ptr ?R) (adopt x (ptr l) (copy_node x n ?hA))"
  obtain h' root' where B: "relink (cptr c) n x (?h1, root) = (h', root')" "tree_at h' root' (plug c (Node l (x, k) ?R))"
    using subst_tree [OF A x(1) dist(11)] by blast
  have comm: "copy_node x n ?hA = adopt p (ptr r) (set_left p (ptr r) (copy_node x n h))"
    using dist rp by (cases "ptr r = 0") (auto simp: copy_node_def adopt_def fun_eq_iff intro!: rb_heap.equality)
  have "erase_splice n h = Some (x, ptr r, p, kx, ?h1)"
    using n(2,3) L(1) R x next_x p dist comm
    by (auto simp: erase_splice_def adopt_def copy_node_def Let_def)
  moreover have "rb_parent ?h1 n = cptr c"
    using n(5) R(4) L dist(9) dist(3) rp by (auto simp: adopt_def copy_node_def)
  moreover have "same_out (set (nodes (plug c (Node l (x, k) ?R)))) h h'" (is "same_out ?N h h'")
  proof -
    have sub: "set (nodes ?R) \<subseteq> ?N" "set (nodes l) \<subseteq> ?N" "set (nodes r) \<subseteq> ?N" "{x, p} \<subseteq> ?N" by (auto simp: inorder_plug)
    have N: "ptr l \<in> ?N" "ptr ?R \<in> ?N" "ptr r \<noteq> 0 \<longrightarrow> ptr r \<in> ?N" "cptr c \<noteq> 0 \<longrightarrow> cptr c \<in> ?N"
      using L(2) ptr_in_nodes [of ?R] ptr_eq_node [OF rr refl] sub(1-3) cptr_nodes [of c] by (blast | simp add: plug_Leaf)+
    then have "same_out ?N h ?h1"
      using sub(4) by (auto simp: same_out_def adopt_def copy_node_def)
    then show ?thesis using relink_same_out [OF B(1), of ?N] N(4) by (blast intro: same_out_trans)
  qed
  ultimately show ?thesis using B by blast
qed

lemma splice_shallow:
  assumes t: "tree_at h root (plug c (Node l (n, k) (Node Leaf (x, kx) r)))" and l: "l \<noteq> Leaf" and next_x: "rb_next h n = Some x"
  shows "\<exists>h1 h' root'. erase_splice n h = Some (x, ptr r, x, kx, h1) \<and> rb_parent h1 n = cptr c \<and>
    relink (cptr c) n x (h1, root) = (h', root') \<and> tree_at h' root' (plug c (Node l (x, k) r)) \<and>
    same_out (set (nodes (plug c (Node l (x, k) r)))) h h'"
proof -
  let ?C = "CR l (n, k) c"
  have tC: "tree_at h root (plug ?C (Node Leaf (x, kx) r))" using t by simp
  note x = tree_at_node [OF tC] and n = tree_at_node [OF t] and pn = tree_at_plug [THEN iffD1, OF t]
  have dist: "x \<noteq> n" "x \<notin> set (nodes r)" "n \<notin> set (nodes r)" "x \<notin> set (nodes l)" "n \<notin> set (nodes l)"
    "x \<notin> set (nodes (plug c (Node l (n, k) r)))" "n \<notin> set (nodes (plug c (Node l (x, k) r)))" "set (nodes l) \<inter> set (nodes r) = {}"
    using pn by (auto simp: inorder_plug)
  have cn: "cptr c \<noteq> n" using pn n(1) by (cases c rule: cptr.cases) auto
  have rr: "rep h x r" and L: "ptr l \<noteq> 0" "ptr l \<in> set (nodes l)" using pn l ptr_zero [of h n l] ptr_in_nodes by auto
  have rin: "ptr r \<in> set (nodes r)" if "ptr r \<noteq> 0" using ptr_eq_node [OF rr refl that] .
  have rp: "ptr r \<noteq> n" "ptr r \<noteq> x" "ptr r \<noteq> ptr l" if "ptr r \<noteq> 0"
    using rin [OF that] dist(2,3,8) L(2) by (metis IntI empty_iff)+
  have rx: "rb_parent h (ptr r) = x" if "ptr r \<noteq> 0" using that rr by (cases r rule: ptr.cases) auto
  let ?hA = "set_right n (ptr r) (adopt n (ptr r) h)"
  have "rb_left h n \<noteq> x" using n(2) L(2) dist(4) by auto
  then have A: "tree_at ?hA root (plug c (Node l (n, k) r))"
    using unlink_tree [OF tC refl] n(1) by (auto simp: relink_def adopt_def split: if_splits)
  let ?h1 = "rb_set_parent (ptr l) x (rb_set_color x k (rb_set_parent x (cptr c) (set_left x (ptr l) h)))"
  have h1: "adopt x (ptr r) (adopt x (ptr l) (copy_node x n ?hA)) = set_right n (ptr r) ?h1"
    using dist rp rx L n x by (cases "ptr r = 0") (auto simp: copy_node_def adopt_def fun_eq_iff intro!: rb_heap.equality)
  obtain hB rootB where B: "relink (cptr c) n x (set_right n (ptr r) ?h1, root) = (hB, rootB)" "tree_at hB rootB (plug c (Node l (x, k) r))"
    using subst_tree [OF A x(1) dist(6)] unfolding h1 by blast
  obtain h' root' where r: "relink (cptr c) n x (?h1, root) = (h', root')" by (cases "relink (cptr c) n x (?h1, root)")
  have hB: "hB = set_right n (ptr r) h'" "rootB = root'" using relink_set_right [OF cn r, of "ptr r"] B(1) by auto
  have "tree_at h' root' (plug c (Node l (x, k) r))"
    by (rule tree_at_same [OF B(2) [unfolded hB] _ dist(7)]) (simp add: same_out_def)
  moreover have "erase_splice n h = Some (x, ptr r, x, kx, ?h1)"
    using n x L(1) next_x by (simp add: erase_splice_def Let_def)
  moreover have "rb_parent ?h1 n = cptr c" using n(5) dist(1,5) L(2) by auto
  moreover have "same_out (set (nodes (plug c (Node l (x, k) r)))) h h'" (is "same_out ?N h h'")
  proof -
    have "ptr l \<in> ?N" "x \<in> ?N" using L(2) by (auto simp: inorder_plug)
    then have "same_out ?N h ?h1" by (auto simp: same_out_def)
    then show ?thesis using relink_same_out [OF r] cptr_nodes by (blast intro: same_out_trans)
  qed
  ultimately show ?thesis using r by blast
qed

text \<open>
  The first half of the removal in all cases: the node is gone from the tree, and when the colour
  reported is black the tree is balanced except for one missing black node.
\<close>

definition spliced :: "rb_heap \<Rightarrow> nat \<Rightarrow> nat \<Rightarrow> nat list \<Rightarrow> bool" where
  "spliced h root n ns \<longleftrightarrow> (\<exists>x c p kc h1 h' root'. erase_splice n h = Some (x, c, p, kc, h1) \<and>
     relink (rb_parent h1 n) n x (h1, root) = (h', root') \<and>
     (if kc = BLACK then \<exists>ctx t. c = ptr t \<and> p = cptr ctx \<and> pending h (set ns) ns ctx t (h', root')
      else fixed h (set ns) ns (h', root')))"

lemma pendingI:
  assumes "tree_at h' root' (plug c t)" "same_out (set (nodes (plug c t))) h h'" "crb (Suc m) c" "rb m t"
  shows "pending h (set (nodes (plug c t))) (nodes (plug c t)) c t (h', root')"
proof -
  have "if col t = BLACK then rb m t else rb (Suc m) (blk t)"
  proof (cases t rule: blk.cases)
    case (2 l x k r)
    then show ?thesis using assms(4) by (cases k) auto
  qed (use assms(4) in simp)
  then show ?thesis using assms unfolding pending_def tracks_def by auto
qed

lemma fixedI:
  assumes "tree_at h' root' (plug c t)" "same_out (set (nodes (plug c t))) h h'" "crb m c" "rb m t" "col t = BLACK"
  shows "fixed h (set (nodes (plug c t))) (nodes (plug c t)) (h', root')"
  using assms rb_plug [OF assms(3,4)] col_plug_black [OF assms(3), of t] unfolding fixed_def tracks_def
  by (cases "c = Top") auto

lemma splice_single:
  assumes "rbtree h root (plug c (Node l (n, k) r))" and q: "q = (if l \<noteq> Leaf then l else r)" and lr: "l = Leaf \<or> r = Leaf"
  shows "spliced h root n (nodes (plug c q))"
proof -
  have t: "tree_at h root (plug c (Node l (n, k) r))" using assms(1) by (simp add: rbtree_def)
  obtain m where m: "rb m (Node l (n, k) r)" "crb m c" using assms(1) plug_rb [of _ c "Node l (n, k) r"] unfolding rbtree_def by blast
  note n = tree_at_node [OF t] and pn = tree_at_plug [THEN iffD1, OF t]
  obtain h' root' where u: "relink (cptr c) n (ptr q) (adopt (cptr c) (ptr q) h, root) = (h', root')" "tree_at h' root' (plug c q)"
    "same_out (set (nodes (plug c q))) h h'" using unlink_tree [OF t q lr] by blast
  have lz: "ptr l = 0 \<longleftrightarrow> l = Leaf" "ptr r = 0 \<longleftrightarrow> r = Leaf" using pn ptr_zero [of h n l] ptr_zero [of h n r] by auto
  then have e: "erase_splice n h = Some (ptr q, ptr q, cptr c, k, adopt (cptr c) (ptr q) h)"
    using n lr q by (auto simp: erase_splice_def adopt_def Let_def)
  have "rep h n q" "n \<notin> set (nodes q)" using pn q by auto
  then have par: "rb_parent (adopt (cptr c) (ptr q) h) n = cptr c" using n(1,5) ptr_eq_node [of h n q n] by (auto simp: adopt_def)
  show ?thesis
  proof (cases k)
    case BLACK
    then have "rb (m - 1) q" "crb (Suc (m - 1)) c" using m q by auto
    then show ?thesis using pendingI [OF u(2,3)] e par u(1) BLACK unfolding spliced_def by auto
  next
    case RED
    then have "rb m q" "col q = BLACK" using m q by auto
    then show ?thesis using fixedI [OF u(2,3) m(2)] e par u(1) RED unfolding spliced_def by auto
  qed
qed

lemma splice_double:
  assumes "rbtree h root (plug c (Node l (n, k) r))" and lr: "l \<noteq> Leaf" "r \<noteq> Leaf"
  shows "spliced h root n (map fst (before c) @ nodes l @ nodes r @ map fst (after c))"
proof -
  have t: "tree_at h root (plug c (Node l (n, k) r))" using assms(1) by (simp add: rbtree_def)
  note n = tree_at_node [OF t] and pn = tree_at_plug [THEN iffD1, OF t]
  have "rep h n r" using pn by simp
  from leftmost_tree [OF this lr(2)] obtain d x kx xr where d: "r = plug d (Node Leaf (x, kx) xr)" "before d = []"
    "leftmost_loop h (ptr r) = Some x" "d = Top \<or> (\<exists>d' p k' w. d = CL d' (p, k') w)" by blast
  let ?D = "capp (CR l (x, k) c) d" and ?C = "capp (CR l (n, k) c) d"
  have nx: "rb_next h n = Some x"
    using n(1,3) d(3) ptr_zero [OF \<open>rep h n r\<close>] lr(2) by (simp add: rb_next_def rb_leftmost_def)
  have ns: "nodes (plug ?D xr) = map fst (before c) @ nodes l @ nodes r @ map fst (after c)"
    by (simp add: plug_capp d(1) inorder_plug d(2))
  have cC: "crb j (CR l (x, k) c) = crb j (CR l (n, k) c)" for j by (cases k) simp_all
  have whole: "plug c (Node l (n, k) r) = plug ?C (Node Leaf (x, kx) xr)" by (simp add: plug_capp d(1))
  obtain m where m: "rb m (Node Leaf (x, kx) xr)" "crb m ?C"
    using assms(1) plug_rb [of _ ?C "Node Leaf (x, kx) xr"] unfolding rbtree_def whole by blast
  have mD: "crb m ?D" using m(2) crb_capp_cong [of m "CR l (x, k) c" "CR l (n, k) c" d] cC by simp
  have "\<exists>h1 h' root'. erase_splice n h = Some (x, ptr xr, cptr ?D, kx, h1) \<and> rb_parent h1 n = cptr c \<and>
    relink (cptr c) n x (h1, root) = (h', root') \<and> tree_at h' root' (plug ?D xr) \<and> same_out (set (nodes (plug ?D xr))) h h'"
    using d(4) t lr(1) nx splice_shallow [of h root c l n k x kx xr] splice_deep [of h root c l n k _ _ _ _ x kx xr] d(1)
    by (auto simp: plug_capp)
  then obtain h1 h' root' where e: "erase_splice n h = Some (x, ptr xr, cptr ?D, kx, h1)" "rb_parent h1 n = cptr c"
    "relink (cptr c) n x (h1, root) = (h', root')" "tree_at h' root' (plug ?D xr)" "same_out (set (nodes (plug ?D xr))) h h'" by blast
  show ?thesis unfolding ns [symmetric]
  proof (cases kx)
    case BLACK
    then have "rb (m - 1) xr" "Suc (m - 1) = m" using m(1) by auto
    with mD have "rb (m - 1) xr" "crb (Suc (m - 1)) ?D" by simp_all
    then have "pending h (set (nodes (plug ?D xr))) (nodes (plug ?D xr)) ?D xr (h', root')" by (intro pendingI e)
    then show "spliced h root n (nodes (plug ?D xr))" using e BLACK unfolding spliced_def by auto
  next
    case RED
    then have "rb m xr" "col xr = BLACK" using m(1) by auto
    then have "fixed h (set (nodes (plug ?D xr))) (nodes (plug ?D xr)) (h', root')" by (rule fixedI [OF e(4,5) mD])
    then show "spliced h root n (nodes (plug ?D xr))" using e RED unfolding spliced_def by auto
  qed
qed

lemma rb_erase_ok:
  assumes "rbtree h root (plug c (Node l (n, k) r))"
  shows "\<exists>h' root' t'. rb_erase n (h, root) = Some (h', root') \<and> rbtree h' root' t' \<and>
    nodes t' = map fst (before c) @ nodes l @ nodes r @ map fst (after c) \<and> same_out (set (nodes t')) h h'"
proof -
  let ?ns = "map fst (before c) @ nodes l @ nodes r @ map fst (after c)"
  have "spliced h root n ?ns"
  proof (cases "l = Leaf \<or> r = Leaf")
    case True
    then have "nodes (plug c (if l \<noteq> Leaf then l else r)) = ?ns" by (auto simp: inorder_plug)
    then show ?thesis using splice_single [OF assms refl True] by simp
  next
    case False
    then show ?thesis using splice_double [OF assms] by blast
  qed
  then obtain x ch p kc h1 h2 root2 where s: "erase_splice n h = Some (x, ch, p, kc, h1)"
    "relink (rb_parent h1 n) n x (h1, root) = (h2, root2)"
    "if kc = BLACK then \<exists>ctx t. ch = ptr t \<and> p = cptr ctx \<and> pending h (set ?ns) ?ns ctx t (h2, root2)
     else fixed h (set ?ns) ?ns (h2, root2)" unfolding spliced_def by blast
  have "\<exists>h' root'. rb_erase n (h, root) = Some (h', root') \<and> fixed h (set ?ns) ?ns (h', root')"
  proof (cases kc)
    case BLACK
    then obtain ctx t where "ch = ptr t" "p = cptr ctx" "pending h (set ?ns) ?ns ctx t (h2, root2)" using s(3) by auto
    then show ?thesis using erase_fix_loop_ok [of h "set ?ns" ?ns ctx t h2 root2] s(1,2) BLACK
      by (auto simp: rb_erase_def rb_erase_fix_def repaired_def)
  next
    case RED
    then show ?thesis using s by (simp add: rb_erase_def)
  qed
  then obtain h' root' t' where "rb_erase n (h, root) = Some (h', root')" "tracks h (set ?ns) (h', root') t'" "nodes t' = ?ns" "\<exists>m. rb m t'" "col t' = BLACK"
    unfolding fixed_def by blast
  then show ?thesis unfolding tracks_def rbtree_def by (metis fst_conv snd_conv)
qed

end
