(* ===== verification/Rb_Index.thy ===== *)
theory Rb_Index
  imports Rb_Tree
begin

text \<open>
  Search in red-black trees. The kernel searches its trees by loops of one shape: a walk from the
  root that remembers the parent and the link where it stands, so that a new node can be linked
  there (\<^verbatim>\<open>__lookup_thread\<close>, \<^verbatim>\<open>ramfs_lookup_page\<close>, \<^verbatim>\<open>ramfs_entry_lookup\<close>, \<^verbatim>\<open>vfs_lookup\<close>). The locale gives
  the laws of an index over keys with a three-way comparison; the order of the nodes by \<^verbatim>\<open>rb_next\<close>
  and the two main theorems on insertion and removal are here as well.
\<close>

section \<open>The search\<close>

text \<open>\<open>cmp x\<close> compares the key of node \<open>x\<close> with the key searched for.\<close>

partial_function (option) rb_find :: "(nat \<Rightarrow> int) \<Rightarrow> rb_heap \<Rightarrow> nat \<Rightarrow> nat \<Rightarrow> plink \<Rightarrow> (nat \<times> nat \<times> plink) option" where
  "rb_find cmp h cur parent plink =
     (if cur = 0 then Some (0, parent, plink)
      else if cmp cur = 0 then Some (cur, parent, plink)
      else if cmp cur < 0 then rb_find cmp h (rb_right h cur) cur (RightLink cur)
      else rb_find cmp h (rb_left h cur) cur (LeftLink cur))"

lemma rb_find_tree:
  assumes "tree_at h root (plug c t)" and "sorted_wrt (\<lambda>a b. (0 \<le> cmp a \<longrightarrow> 0 \<le> cmp b) \<and> (0 < cmp a \<longrightarrow> 0 < cmp b)) (nodes t)"
  shows "(\<exists>c' l n k r. rb_find cmp h (ptr t) (cptr c) (clink c) = Some (n, cptr c', clink c') \<and> cmp n = 0 \<and>
      plug c t = plug c' (Node l (n, k) r) \<and> n \<noteq> 0) \<or>
    (\<exists>c'. rb_find cmp h (ptr t) (cptr c) (clink c) = Some (0, cptr c', clink c') \<and> plug c t = plug c' Leaf \<and>
      (\<exists>xs ys. map fst (before c') = map fst (before c) @ xs \<and> map fst (after c') = ys @ map fst (after c) \<and>
        nodes t = xs @ ys \<and> (\<forall>x \<in> set xs. cmp x < 0) \<and> (\<forall>y \<in> set ys. 0 < cmp y)))"
  using assms
proof (induction t arbitrary: c)
  case Leaf
  then show ?case by (subst (1 2) rb_find.simps) auto
next
  case (Node l a r)
  obtain n k where a: "a = (n, k)" by (cases a)
  note n = tree_at_node [OF Node.prems(1) [unfolded a]]
  let ?R = "\<lambda>a b. (0 \<le> cmp a \<longrightarrow> 0 \<le> cmp b) \<and> (0 < cmp a \<longrightarrow> 0 < cmp b)"
  have srt: "sorted_wrt ?R (nodes l)" "sorted_wrt ?R (nodes r)" "\<forall>x \<in> set (nodes l). ?R x n" "\<forall>y \<in> set (nodes r). ?R n y"
    using Node.prems(2) a by (simp_all only: tree.set inorder.simps map_append list.simps sorted_wrt_append fst_conv) auto
  have up: "tree_at h root (plug (CR l a c) r)" "tree_at h root (plug (CL c a r) l)" using Node.prems(1) by simp_all
  consider "cmp n = 0" | "cmp n < 0" | "0 < cmp n" by linarith
  then show ?case
  proof cases
    case 1
    then have "rb_find cmp h (ptr (Node l a r)) (cptr c) (clink c) = Some (n, cptr c, clink c)"
      using n(1) a by (subst rb_find.simps) simp
    then show ?thesis using 1 a n(1) by blast
  next
    case 2
    have f: "rb_find cmp h (ptr (Node l a r)) (cptr c) (clink c) = rb_find cmp h (ptr r) (cptr (CR l a c)) (clink (CR l a c))"
      using 2 n a by (subst rb_find.simps) simp
    have l: "\<forall>x \<in> set (nodes l). cmp x < 0" using srt(3) 2 by force
    from Node.IH(2) [OF up(1) srt(2)] show ?thesis unfolding f
    proof (elim disjE exE conjE, goal_cases)
      case (1 c' l' m k' r')
      then show ?case by auto
    next
      case (2 c' xs ys)
      then show ?case using l \<open>cmp n < 0\<close> a by (intro disjI2 exI [of _ c'] conjI exI [of _ "nodes l @ n # xs"] exI [of _ ys]) auto
    qed
  next
    case 3
    have f: "rb_find cmp h (ptr (Node l a r)) (cptr c) (clink c) = rb_find cmp h (ptr l) (cptr (CL c a r)) (clink (CL c a r))"
      using 3 n a by (subst rb_find.simps) simp
    have r: "\<forall>x \<in> set (nodes r). 0 < cmp x" using srt(4) 3 by force
    from Node.IH(1) [OF up(2) srt(1)] show ?thesis unfolding f
    proof (elim disjE exE conjE, goal_cases)
      case (1 c' l' m k' r')
      then show ?case by auto
    next
      case (2 c' xs ys)
      then show ?case using r \<open>0 < cmp n\<close> a by (intro disjI2 exI [of _ c'] conjI exI [of _ xs] exI [of _ "ys @ n # nodes r"]) auto
    qed
  qed
qed

section \<open>Successors\<close>

lemma next_up_ctx:
  assumes "crep h root c q" and "q \<noteq> 0" and "q \<notin> set (cnodes c)" and "distinct (cnodes c)"
  shows "next_up h (cptr c) q = Some (case after c of [] \<Rightarrow> 0 | a # _ \<Rightarrow> fst a)"
  using assms
proof (induction h root c q rule: crep.induct)
  case (1 h root q)
  then show ?case by (subst next_up.simps) simp
next
  case (2 h root c x k r q)
  have "ptr r \<noteq> q" using "2.prems" ptr_eq_node [of h x r q] by auto
  then show ?case using "2.prems" by (subst next_up.simps) simp
next
  case (3 h root l x k c q)
  have "next_up h (cptr c) x = Some (case after c of [] \<Rightarrow> 0 | a # _ \<Rightarrow> fst a)"
    by (rule "3.IH") (use "3.prems" [unfolded cnodes_distinct] in auto)
  then show ?case using "3.prems" by (subst next_up.simps) simp
qed

lemma rb_next_tree:
  assumes "tree_at h root (plug c (Node l (n, k) r))"
  shows "rb_next h n = Some (case nodes r @ map fst (after c) of [] \<Rightarrow> 0 | y # _ \<Rightarrow> y)"
proof (cases "r = Leaf")
  case True
  note n = tree_at_node [OF assms] and pn = tree_at_plug [THEN iffD1, OF assms]
  have "next_up h (cptr c) n = Some (case after c of [] \<Rightarrow> 0 | a # _ \<Rightarrow> fst a)"
    by (rule next_up_ctx) (use pn n(1) in auto)
  then show ?thesis using n True by (simp add: rb_next_def split: list.splits)
next
  case False
  note n = tree_at_node [OF assms] and pn = tree_at_plug [THEN iffD1, OF assms]
  have rep: "rep h n r" using pn by simp
  obtain d x kx rx where "r = plug d (Node Leaf (x, kx) rx)" "before d = []" "leftmost_loop h (ptr r) = Some x"
    using leftmost_tree [OF rep False] by blast
  then show ?thesis using n ptr_zero [OF rep] False by (simp add: rb_next_def rb_leftmost_def inorder_plug)
qed

lemma node_split:
  "x \<in> set (nodes t) \<Longrightarrow> \<exists>c l k r. t = plug c (Node l (x, k) r)"
proof (induction t)
  case (Node l a r)
  then consider "x \<in> set (nodes l)" | "x = fst a" | "x \<in> set (nodes r)" by auto
  then show ?case
  proof cases
    case 1
    then obtain c l' k r' where "l = plug c (Node l' (x, k) r')" using Node.IH(1) by blast
    then show ?thesis by (intro exI [of _ "capp (CL Top a r) c"]) (auto simp: plug_capp)
  next
    case 2
    then show ?thesis by (intro exI [of _ Top]) (cases a; auto)
  next
    case 3
    then obtain c l' k r' where "r = plug c (Node l' (x, k) r')" using Node.IH(2) by blast
    then show ?thesis by (intro exI [of _ "capp (CR l a Top) c"]) (auto simp: plug_capp)
  qed
qed simp

section \<open>An index over keys\<close>

locale key_order =
  fixes cmp :: "'k \<Rightarrow> 'k \<Rightarrow> int" and valid :: "'k \<Rightarrow> bool"
  assumes cmp_eq: "valid a \<Longrightarrow> valid b \<Longrightarrow> cmp a b = 0 \<longleftrightarrow> a = b"
    and cmp_neg: "0 < cmp a b \<longleftrightarrow> cmp b a < 0"
    and cmp_trans: "valid a \<Longrightarrow> valid b \<Longrightarrow> valid c \<Longrightarrow> cmp a b < 0 \<Longrightarrow> cmp b c < 0 \<Longrightarrow> cmp a c < 0"
begin

text \<open>The tree at \<open>root\<close> holds the nodes \<open>ns\<close> in the order of their keys.\<close>

definition index :: "(nat \<Rightarrow> 'k) \<Rightarrow> rb_heap \<Rightarrow> nat \<Rightarrow> nat list \<Rightarrow> bool" where
  "index key h root ns \<longleftrightarrow> (\<exists>t. rbtree h root t \<and> nodes t = ns) \<and> (\<forall>n \<in> set ns. valid (key n)) \<and> sorted_wrt (\<lambda>a b. cmp (key a) (key b) < 0) ns"

lemma index_empty: "index key h 0 []"
  unfolding index_def rbtree_def by (auto intro!: exI [of _ Leaf] simp: tree_at_def)

lemma index_distinct: "index key h root ns \<Longrightarrow> distinct ns"
  by (auto simp: index_def rbtree_def tree_at_def)

lemma index_nonzero: "index key h root ns \<Longrightarrow> 0 \<notin> set ns"
  using rep_nonzero by (fastforce simp: index_def rbtree_def tree_at_def)

lemma index_key_cong: "index key h root ns \<Longrightarrow> (\<And>n. n \<in> set ns \<Longrightarrow> key' n = key n) \<Longrightarrow> index key' h root ns"
  unfolding index_def using sorted_wrt_mono_rel [of ns "\<lambda>a b. cmp (key a) (key b) < 0" "\<lambda>a b. cmp (key' a) (key' b) < 0"] by auto

lemma index_frame:
  assumes "index key h root ns" and "same_out N h h'" and "N \<inter> set ns = {}"
  shows "index key h' root ns"
proof -
  obtain t where t: "rbtree h root t" "nodes t = ns" using assms(1) by (auto simp: index_def)
  have "rep h' 0 t" by (rule rep_same_out [of h 0 t N]) (use t assms in \<open>auto simp: rbtree_def tree_at_def\<close>)
  then show ?thesis using t assms(1) by (auto simp: index_def rbtree_def tree_at_def)
qed

lemma index_inj: "index key h root ns \<Longrightarrow> a \<in> set ns \<Longrightarrow> b \<in> set ns \<Longrightarrow> key a = key b \<Longrightarrow> a = b"
proof -
  assume a: "index key h root ns" "a \<in> set ns" "b \<in> set ns" "key a = key b"
  then obtain i j where ij: "i < length ns" "ns ! i = a" "j < length ns" "ns ! j = b" by (metis in_set_conv_nth)
  have v: "valid (key a)" "valid (key b)" using a(1-3) by (auto simp: index_def)
  have "cmp (key a) (key b) = 0" "cmp (key b) (key a) = 0" using a(4) cmp_eq v by auto
  moreover have "cmp (key (ns ! p)) (key (ns ! q)) < 0" if "p < q" "q < length ns" for p q
    using a(1) that by (simp add: index_def sorted_wrt_iff_nth_less)
  ultimately have "\<not> i < j" "\<not> j < i" using ij by (metis less_irrefl)+
  then show "a = b" using ij by (metis linorder_neqE_nat)
qed

lemma sorted_search:
  assumes "sorted_wrt (\<lambda>a b. cmp (key a) (key b) < 0) ns" and "\<forall>n \<in> set ns. valid (key n)" and "valid k"
  shows "sorted_wrt (\<lambda>a b. (0 \<le> cmp (key a) k \<longrightarrow> 0 \<le> cmp (key b) k) \<and> (0 < cmp (key a) k \<longrightarrow> 0 < cmp (key b) k)) ns"
proof (rule sorted_wrt_mono_rel [OF _ assms(1)])
  fix a b assume ab: "a \<in> set ns" "b \<in> set ns" "cmp (key a) (key b) < 0"
  then have v: "valid (key a)" "valid (key b)" using assms(2) by auto
  have "0 < cmp (key b) k" if "0 \<le> cmp (key a) k"
  proof -
    from that consider "cmp (key a) k = 0" | "0 < cmp (key a) k" by linarith
    then show "0 < cmp (key b) k"
    proof cases
      case 1
      then have "key a = k" using cmp_eq v assms(3) by blast
      then show ?thesis using ab cmp_neg by blast
    next
      case 2
      then show ?thesis using ab cmp_neg cmp_trans v assms(3) by blast
    qed
  qed
  then show "(0 \<le> cmp (key a) k \<longrightarrow> 0 \<le> cmp (key b) k) \<and> (0 < cmp (key a) k \<longrightarrow> 0 < cmp (key b) k)" by force
qed

abbreviation find :: "(nat \<Rightarrow> 'k) \<Rightarrow> 'k \<Rightarrow> rb_heap \<Rightarrow> nat \<Rightarrow> (nat \<times> nat \<times> plink) option" where
  "find key k h root \<equiv> rb_find (\<lambda>x. cmp (key x) k) h root 0 RootLink"

lemma find_present:
  assumes "index key h root ns" and "n \<in> set ns" and "key n = k"
  shows "\<exists>par pl. find key k h root = Some (n, par, pl)"
proof -
  obtain t where t: "tree_at h root (plug Top t)" "nodes t = ns" using assms(1) by (auto simp: index_def rbtree_def)
  have "sorted_wrt (\<lambda>a b. (0 \<le> cmp (key a) k \<longrightarrow> 0 \<le> cmp (key b) k) \<and> (0 < cmp (key a) k \<longrightarrow> 0 < cmp (key b) k)) (nodes t)"
    using assms t(2) sorted_search [of key ns k] by (auto simp: index_def)
  from rb_find_tree [OF t(1) this] show ?thesis
  proof (elim disjE exE conjE)
    fix c' l m k' r assume f: "rb_find (\<lambda>x. cmp (key x) k) h (ptr t) (cptr Top) (clink Top) = Some (m, cptr c', clink c')"
      "cmp (key m) k = 0" "plug Top t = plug c' (Node l (m, k') r)"
    have m: "m \<in> set ns" using f(3) t(2) by (auto simp: inorder_plug)
    then have "key m = k" using f(2) assms cmp_eq [of "key m" k] by (auto simp: index_def)
    then have "m = n" using index_inj [OF assms(1) m assms(2)] assms(3) by simp
    then show ?thesis using f(1) t(1) by (simp add: tree_at_def)
  next
    fix c' xs ys assume "nodes t = xs @ ys" "\<forall>x \<in> set xs. cmp (key x) k < 0" "\<forall>y \<in> set ys. 0 < cmp (key y) k"
    moreover have "cmp (key n) k = 0" using assms cmp_eq [of "key n" k] by (auto simp: index_def)
    ultimately show ?thesis using assms(2) t(2) by fastforce
  qed
qed

lemma find_absent:
  assumes "index key h root ns" and "k \<notin> key ` set ns" and "valid k"
  shows "\<exists>par pl. find key k h root = Some (0, par, pl) \<and>
    (\<forall>n key'. n \<noteq> 0 \<longrightarrow> n \<notin> set ns \<longrightarrow> key' n = k \<longrightarrow> (\<forall>m \<in> set ns. key' m = key m) \<longrightarrow>
      (\<exists>h' root' ns'. rb_insert n (rb_link n par pl (h, root)) = Some (h', root') \<and> index key' h' root' ns' \<and>
        set ns' = insert n (set ns) \<and> same_out (insert n (set ns)) h h'))"
proof -
  obtain t where t: "rbtree h root t" "tree_at h root (plug Top t)" "nodes t = ns" using assms(1) by (auto simp: index_def rbtree_def)
  have srt: "sorted_wrt (\<lambda>a b. cmp (key a) (key b) < 0) ns" using assms(1) by (simp add: index_def)
  have "sorted_wrt (\<lambda>a b. (0 \<le> cmp (key a) k \<longrightarrow> 0 \<le> cmp (key b) k) \<and> (0 < cmp (key a) k \<longrightarrow> 0 < cmp (key b) k)) (nodes t)"
    using sorted_search [OF srt _ assms(3)] t(3) assms(1) by (auto simp: index_def)
  from rb_find_tree [OF t(2) this] show ?thesis
  proof (elim disjE exE conjE)
    fix c' l m k' r assume f: "cmp (key m) k = 0" "plug Top t = plug c' (Node l (m, k') r)"
    have "m \<in> set ns" using f(2) t(3) by (auto simp: inorder_plug)
    moreover from this have "key m = k" using f(1) assms(1,3) cmp_eq [of "key m" k] by (auto simp: index_def)
    ultimately have False using assms(2) by (metis image_eqI)
    then show ?thesis ..
  next
    fix c' xs ys assume f: "rb_find (\<lambda>x. cmp (key x) k) h (ptr t) (cptr Top) (clink Top) = Some (0, cptr c', clink c')"
      "plug Top t = plug c' Leaf" "map fst (before c') = map fst (before Top) @ xs" "map fst (after c') = ys @ map fst (after Top)"
      "nodes t = xs @ ys" "\<forall>x \<in> set xs. cmp (key x) k < 0" "\<forall>y \<in> set ys. 0 < cmp (key y) k"
    have find: "find key k h root = Some (0, cptr c', clink c')" using f(1) t(2) by (simp add: tree_at_def)
    have c: "map fst (before c') = xs" "map fst (after c') = ys" "set (cnodes c') = set ns" using f(3-5) t(3) by auto
    have "\<exists>h' root' ns'. rb_insert n (rb_link n (cptr c') (clink c') (h, root)) = Some (h', root') \<and> index key' h' root' ns' \<and>
        set ns' = insert n (set ns) \<and> same_out (insert n (set ns)) h h'"
      if n: "n \<noteq> 0" "n \<notin> set ns" "key' n = k" "\<forall>m \<in> set ns. key' m = key m" for n key'
    proof -
      have "rbtree h root (plug c' Leaf)" using t(1) f(2) by simp
      from rb_insert_ok [OF this n(1)] obtain h' root' t' where
        r: "rb_insert n (rb_link n (cptr c') (clink c') (h, root)) = Some (h', root')" "rbtree h' root' t'" "nodes t' = xs @ n # ys"
          "same_out (insert n (set ns)) h h'" using n(2) c by auto
      have "sorted_wrt (\<lambda>a b. cmp (key' a) (key' b) < 0) (xs @ ys)"
        using sorted_wrt_mono_rel [OF _ srt, of "\<lambda>a b. cmp (key' a) (key' b) < 0"] n(4) unfolding f(5) [symmetric] t(3) by auto
      then have "sorted_wrt (\<lambda>a b. cmp (key' a) (key' b) < 0) (xs @ n # ys)"
        using f(5-7) n(3,4) t(3) cmp_neg by (auto simp: sorted_wrt_append)
      moreover have "\<forall>m \<in> set (xs @ n # ys). valid (key' m)" using n(3,4) assms(1,3) f(5) t(3) by (auto simp: index_def)
      ultimately have "index key' h' root' (xs @ n # ys)" using r(2,3) by (auto simp: index_def)
      moreover have "set (xs @ n # ys) = insert n (set ns)" using f(5) t(3) by auto
      ultimately show ?thesis using r(1,4) by blast
    qed
    then show ?thesis using find by blast
  qed
qed

lemma find_hit:
  "index key h root ns \<Longrightarrow> valid k \<Longrightarrow> find key k h root = Some (n, par, pl) \<Longrightarrow> n \<noteq> 0 \<Longrightarrow> n \<in> set ns \<and> key n = k"
  using find_present [of key h root ns] find_absent [of key h root ns k] by (cases "k \<in> key ` set ns") fastforce+

lemma find_returns: "index key h root ns \<Longrightarrow> valid k \<Longrightarrow> \<exists>n par pl. find key k h root = Some (n, par, pl)"
  using find_present [of key h root ns] find_absent [of key h root ns k] by (cases "k \<in> key ` set ns") blast+

lemma find_miss: "index key h root ns \<Longrightarrow> find key k h root = Some (0, par, pl) \<Longrightarrow> k \<notin> key ` set ns"
  using find_present [of key h root ns] index_nonzero [of key h root ns] by fastforce

lemma erase_index:
  assumes "index key h root ns" and "n \<in> set ns"
  shows "\<exists>h' root'. rb_erase n (h, root) = Some (h', root') \<and> index key h' root' (remove1 n ns) \<and> same_out (set ns - {n}) h h'"
proof -
  obtain t where t: "rbtree h root t" "nodes t = ns" using assms(1) by (auto simp: index_def)
  then obtain c l k r where c: "t = plug c (Node l (n, k) r)" using node_split assms(2) by blast
  obtain h' root' t' where r: "rb_erase n (h, root) = Some (h', root')" "rbtree h' root' t'"
    "nodes t' = map fst (before c) @ nodes l @ nodes r @ map fst (after c)" "same_out (set (nodes t')) h h'"
    using rb_erase_ok [OF t(1) [unfolded c]] by blast
  have d: "distinct ns" by (rule index_distinct [OF assms(1)])
  have ns: "ns = (map fst (before c) @ nodes l) @ n # (nodes r @ map fst (after c))" using t(2) c by (simp add: inorder_plug)
  have rem: "remove1 n ns = nodes t'" using d unfolding ns r(3) by (subst remove1_append) auto
  have "sorted_wrt (\<lambda>a b. cmp (key a) (key b) < 0) (nodes t')"
    using assms(1) unfolding index_def ns r(3) by (auto simp: sorted_wrt_append)
  moreover have "\<forall>m \<in> set (nodes t'). valid (key m)" using assms(1) ns r(3) by (auto simp: index_def)
  ultimately have "index key h' root' (remove1 n ns)" using r(2) rem by (auto simp: index_def)
  moreover have "set (nodes t') = set ns - {n}" using d rem by (metis set_remove1_eq)
  ultimately show ?thesis using r(1,4) by auto
qed

end

text \<open>Numbers as keys.\<close>

interpretation by_int: key_order "\<lambda>a b :: int. a - b" "\<lambda>_. True"
  by unfold_locales auto

text \<open>Enumerating a tree.\<close>

lemma rb_next_ok:
  assumes "rbtree h root t" and "i < length (nodes t)"
  shows "rb_next h (nodes t ! i) = Some (if i + 1 < length (nodes t) then nodes t ! (i + 1) else 0) \<and>
    rb_leftmost h root = Some (nodes t ! 0)"
proof
  obtain c l k r where c: "t = plug c (Node l (nodes t ! i, k) r)" using node_split nth_mem [OF assms(2)] by blast
  have d: "distinct (nodes t)" and ta: "tree_at h root t" using assms(1) by (simp_all add: rbtree_def tree_at_def)
  let ?xs = "map fst (before c) @ nodes l" and ?ys = "nodes r @ map fst (after c)"
  have ns: "nodes t = ?xs @ (nodes t ! i) # ?ys" by (subst c) (simp add: inorder_plug)
  have "nodes t ! length ?xs = nodes t ! i" by (subst ns) (simp only: nth_append_length)
  moreover have "length ?xs < length (nodes t)" by (subst ns) simp
  ultimately have i: "i = length ?xs" using d assms(2) by (simp add: nth_eq_iff_index_eq del: length_map length_append)
  have "(case ?ys of [] \<Rightarrow> 0 | y # _ \<Rightarrow> y) = (if i + 1 < length (nodes t) then nodes t ! (i + 1) else 0)"
  proof -
    have "(case ys of [] \<Rightarrow> 0 | y # _ \<Rightarrow> y) = (if length xs + 1 < length zs then zs ! (length xs + 1) else 0)"
      if "zs = xs @ z # ys" for xs ys zs and z :: nat using that by (cases ys) (simp_all add: nth_append)
    from this [OF ns] show ?thesis unfolding i .
  qed
  moreover have "rb_next h (nodes t ! i) = Some (case ?ys of [] \<Rightarrow> 0 | y # _ \<Rightarrow> y)"
    using rb_next_tree ta c by metis
  ultimately show "rb_next h (nodes t ! i) = Some (if i + 1 < length (nodes t) then nodes t ! (i + 1) else 0)" by simp
  have "t \<noteq> Leaf" "rep h 0 t" "root = ptr t" using assms(2) ta by (auto simp: tree_at_def)
  moreover from this obtain e x kx rx where "t = plug e (Node Leaf (x, kx) rx)" "before e = []" "leftmost_loop h (ptr t) = Some x"
    using leftmost_tree by blast
  ultimately show "rb_leftmost h root = Some (nodes t ! 0)" using ptr_zero by (simp add: rb_leftmost_def inorder_plug)
qed

section \<open>Properties\<close>

text \<open>C16: linking a new node at any free link of a red-black tree and calling rb_insert terminates and gives
  a red-black tree with a black root that holds the new node exactly at that place of the order,
  and no node outside the tree is written.\<close>

theorem rb_insert_correct:
  assumes "rbtree h root (plug c Leaf)" and "n \<noteq> 0" and "n \<notin> set (cnodes c)"
  shows "\<exists>h' root' t'. rb_insert n (rb_link n (cptr c) (clink c) (h, root)) = Some (h', root') \<and> rbtree h' root' t' \<and>
    nodes t' = map fst (before c) @ n # map fst (after c) \<and> same_out (insert n (set (cnodes c))) h h'"
  by (rule rb_insert_ok [OF assms])

definition rb_heap0 :: rb_heap where
  "rb_heap0 = \<lparr>rb_left = \<lambda>_. 0, rb_right = \<lambda>_. 0, rb_parent = \<lambda>_. 0, rb_color = \<lambda>_. BLACK\<rparr>"

lemma rbtree_single: "rbtree rb_heap0 7 (Node Leaf (7, BLACK) Leaf)"
  unfolding rbtree_def by (auto simp: tree_at_def rb_heap0_def intro!: exI [of _ 1])

theorem rb_insert_correct_witness:
  "\<exists>h' root' t'. rb_insert 9 (rb_link 9 7 (RightLink 7) (rb_heap0, 7)) = Some (h', root') \<and> rbtree h' root' t' \<and> nodes t' = [7, 9]"
proof -
  have "rbtree rb_heap0 7 (plug (CR Leaf (7, BLACK) Top) Leaf)" using rbtree_single by simp
  from rb_insert_correct [OF this, of 9] show ?thesis by fastforce
qed

text \<open>C17: removing any node of a red-black tree terminates without following a null pointer and gives a
  red-black tree with a black root that holds exactly the other nodes in their order, and no node
  outside the remaining tree is written.\<close>

theorem rb_erase_correct:
  assumes "rbtree h root t" and "n \<in> set (nodes t)"
  shows "\<exists>h' root' t'. rb_erase n (h, root) = Some (h', root') \<and> rbtree h' root' t' \<and>
    nodes t' = remove1 n (nodes t) \<and> same_out (set (nodes t')) h h'"
proof -
  obtain c l k r where c: "t = plug c (Node l (n, k) r)" using node_split [OF assms(2)] by blast
  have "distinct (nodes t)" using assms(1) by (simp add: rbtree_def tree_at_def)
  then have "remove1 n (nodes t) = map fst (before c) @ nodes l @ nodes r @ map fst (after c)"
    unfolding c by (auto simp: inorder_plug remove1_append)
  then show ?thesis using rb_erase_ok [OF assms(1) [unfolded c]] by simp
qed

theorem rb_erase_correct_witness:
  "\<exists>h' root' t'. rb_erase 7 (rb_heap0, 7) = Some (h', root') \<and> rbtree h' root' t' \<and> nodes t' = []"
  using rb_erase_correct [OF rbtree_single, of 7] by auto

text \<open>Rb_next and rb_leftmost enumerate the nodes of a tree in order: the leftmost node is the first,
  and the successor of the node at a position is the node at the next position, null at the end.\<close>

theorem rb_next_correct:
  assumes "rbtree h root t" and "i < length (nodes t)"
  shows "rb_next h (nodes t ! i) = Some (if i + 1 < length (nodes t) then nodes t ! (i + 1) else 0) \<and>
    rb_leftmost h root = Some (nodes t ! 0)"
  by (rule rb_next_ok [OF assms])

theorem rb_next_correct_witness: "rb_next rb_heap0 7 = Some 0 \<and> rb_leftmost rb_heap0 7 = Some 7"
  using rb_next_correct [OF rbtree_single, of 0] by simp

end
