(* ===== verification/Fs_State.thy ===== *)
theory Fs_State
  imports Kernel_Heap Rb_Index CString
begin

text \<open>
  The data shared by \<^verbatim>\<open>src/vfs.c\<close> and \<^verbatim>\<open>src/ramfs.c\<close>: nodes, directory entries, pages of files, the
  cached path entries of the VFS, mounts and file system types, with the reference counts of
  \<^verbatim>\<open>src/vfs.h\<close>. Objects are addresses with a record each; their red-black links are one heap per kind
  of object. Names are the bytes before the terminator. The operations are those of one thread:
  a mutex is a flag, and locking a mutex that is already locked never returns (\<^term>\<open>None\<close>). Spin-lock
  sections only save and restore the interrupt flag and are left out.
\<close>

section \<open>Objects\<close>

datatype fs_node_ops = fs_root_node_ops | ramfs_file_node_ops | ramfs_dir_node_ops
datatype fs_file_ops = fs_root_file_ops | ramfs_dir_ops | ramfs_file_ops

type_synonym name = "u8 list"

record fs_node =
  fn_mux :: bool
  fn_ops :: fs_node_ops
  fn_fops :: fs_file_ops
  fn_refcount :: int
  fn_size :: int
  fn_children :: nat
  fn_pages :: nat

record ramfs_entry =
  re_node :: nat
  re_name :: name

record ramfs_page =
  rp_page :: page_ptr
  rp_index :: nat

record fs_entry =
  fe_children :: nat
  fe_parent :: nat
  fe_node :: nat
  fe_name :: name
  fe_cached :: bool
  fe_refcount :: int

record fs_file =
  ff_entry :: nat
  ff_node :: nat
  ff_ops :: "fs_file_ops option"
  ff_offset :: int

record fs_type =
  ft_name :: name
  ft_refcount :: int

record fs_mount =
  fm_fs :: nat
  fm_root :: nat
  fm_name :: name

record fs =
  fs_kmem :: kmem
  fs_node :: "nat \<Rightarrow> fs_node"
  rf_entry :: "nat \<Rightarrow> ramfs_entry"
  rf_entry_links :: rb_heap
  rf_page :: "nat \<Rightarrow> ramfs_page"
  rf_page_links :: rb_heap
  fs_data :: "page_ptr \<Rightarrow> nat \<Rightarrow> u8"
  fs_entry :: "nat \<Rightarrow> fs_entry"
  fs_entry_links :: rb_heap
  fs_type :: "nat \<Rightarrow> fs_type"
  fs_types :: "nat list"
  fs_mount :: "nat \<Rightarrow> fs_mount"
  fs_mounts :: "nat list"
  ramfs_node_cache :: nat
  ramfs_entry_cache :: nat
  ramfs_page_cache :: nat
  fs_entry_cache :: nat
  fs_root_node :: nat
  fs_root_entry :: nat

definition upd_node :: "nat \<Rightarrow> (fs_node \<Rightarrow> fs_node) \<Rightarrow> fs \<Rightarrow> fs" where
  "upd_node n f st = st\<lparr>fs_node := (fs_node st)(n := f (fs_node st n))\<rparr>"

definition upd_entry :: "nat \<Rightarrow> (fs_entry \<Rightarrow> fs_entry) \<Rightarrow> fs \<Rightarrow> fs" where
  "upd_entry e f st = st\<lparr>fs_entry := (fs_entry st)(e := f (fs_entry st e))\<rparr>"

definition cache_alloc :: "nat \<Rightarrow> fs \<Rightarrow> (nat \<times> fs) option" where
  "cache_alloc c st = do { (p, k) \<leftarrow> kmem_cache_alloc c (fs_kmem st); Some (p, st\<lparr>fs_kmem := k\<rparr>) }"

definition cache_free :: "nat \<Rightarrow> nat \<Rightarrow> fs \<Rightarrow> fs option" where
  "cache_free c p st = do { k \<leftarrow> kmem_cache_free c p (fs_kmem st); Some (st\<lparr>fs_kmem := k\<rparr>) }"

definition node_lock :: "nat \<Rightarrow> fs \<Rightarrow> fs option" where
  "node_lock n st = (if fn_mux (fs_node st n) then None else Some (upd_node n (fn_mux_update (\<lambda>_. True)) st))"

definition node_unlock :: "nat \<Rightarrow> fs \<Rightarrow> fs" where
  "node_unlock n st = upd_node n (fn_mux_update (\<lambda>_. False)) st"

section \<open>Reference counts\<close>

definition vfs_node_init :: "fs_node \<Rightarrow> fs_node" where
  "vfs_node_init node = node\<lparr>fn_mux := False, fn_refcount := 1\<rparr>"

definition vfs_node_get :: "nat \<Rightarrow> fs \<Rightarrow> fs" where
  "vfs_node_get n st = (if n \<noteq> 0 then upd_node n (\<lambda>x. x\<lparr>fn_refcount := fn_refcount x + 1\<rparr>) st else st)"

definition vfs_entry_get :: "nat \<Rightarrow> fs \<Rightarrow> fs" where
  "vfs_entry_get e st = (if e \<noteq> 0 then upd_entry e (\<lambda>x. x\<lparr>fe_refcount := fe_refcount x + 1\<rparr>) st else st)"

definition vfs_entry_detach_from :: "nat \<Rightarrow> nat \<Rightarrow> fs \<Rightarrow> fs option" where
  "vfs_entry_detach_from e dir st =
     (if fe_cached (fs_entry st e)
      then do {
        (h, root) \<leftarrow> rb_erase e (fs_entry_links st, fe_children (fs_entry st dir));
        let st = upd_entry dir (fe_children_update (\<lambda>_. root)) (st\<lparr>fs_entry_links := h\<rparr>);
        Some (upd_entry e (fe_cached_update (\<lambda>_. False)) st)
      }
      else Some st)"

definition vfs_entry_detach :: "nat \<Rightarrow> fs \<Rightarrow> fs option" where
  "vfs_entry_detach e st = vfs_entry_detach_from e (fe_parent (fs_entry st e)) st"

section \<open>Names\<close>

text \<open>The value of \<^verbatim>\<open>strcmp\<close> on two names.\<close>

fun str_cmp :: "name \<Rightarrow> name \<Rightarrow> int" where
  "str_cmp [] [] = 0"
| "str_cmp [] (b # bs) = - char_val b"
| "str_cmp (a # as) [] = char_val a"
| "str_cmp (a # as) (b # bs) = (if a = b then str_cmp as bs else char_val a - char_val b)"

abbreviation ok_name :: "name \<Rightarrow> bool" where
  "ok_name s \<equiv> 0 \<notin> set s"

lemma char_val_0 [simp]: "char_val 0 = 0"
  by (simp add: char_val_def)

lemma char_val_zero [simp]: "char_val b = 0 \<longleftrightarrow> b = 0"
  using char_val_inj [of b 0] by simp

lemma strcmp_name:
  assumes "cstr m l s" and "cstr m r t"
  shows "strcmp m l r = Some (str_cmp s t)"
  using assms
proof (induction s t arbitrary: l r rule: str_cmp.induct)
  case (4 a as b bs)
  then show ?case by (subst strcmp.simps) auto
qed (subst strcmp.simps; simp)+

lemma str_cmp_neg: "0 < str_cmp s t \<longleftrightarrow> str_cmp t s < 0"
  by (induction s t rule: str_cmp.induct) auto

lemma str_cmp_eq: "ok_name s \<Longrightarrow> ok_name t \<Longrightarrow> str_cmp s t = 0 \<longleftrightarrow> s = t"
  by (induction s t rule: str_cmp.induct) auto

lemma str_cmp_trans: "ok_name s \<Longrightarrow> ok_name t \<Longrightarrow> ok_name u \<Longrightarrow> str_cmp s t < 0 \<Longrightarrow> str_cmp t u < 0 \<Longrightarrow> str_cmp s u < 0"
proof (induction s t arbitrary: u rule: str_cmp.induct)
  case (2 b bs)
  then show ?case by (cases u) (auto split: if_splits)
next
  case (3 a as)
  then show ?case by (cases u) (auto split: if_splits)
next
  case (4 a as b bs)
  then show ?case by (cases u) (auto split: if_splits)
qed auto

interpretation by_name: key_order str_cmp ok_name
  by unfold_locales (auto simp: str_cmp_eq str_cmp_neg intro: str_cmp_trans)

end
