(* ===== verification/Ramfs.thy ===== *)
theory Ramfs
  imports Fs_State
begin

text \<open>
  The in-memory file system \<^verbatim>\<open>src/ramfs.c\<close>: directories as red-black trees of entries by name, files as
  red-black trees of pages by index. A result code is an integer as in the code, negative for an
  error; \<^term>\<open>None\<close> is a null pointer that is followed, a mutex locked twice or a call that does not
  return. Sizes and offsets are 32-bit signed integers and wrap.
\<close>

definition i32 :: "int \<Rightarrow> int" where
  "i32 x = sint (word_of_int x :: u32)"

section \<open>Nodes and entries\<close>

definition ramfs_node_create :: "fs_node_ops \<Rightarrow> fs_file_ops \<Rightarrow> fs \<Rightarrow> (nat \<times> fs) option" where
  "ramfs_node_create ops fops st = do {
     (n, st) \<leftarrow> cache_alloc (ramfs_node_cache st) st;
     if n \<noteq> 0
     then let zero = \<lparr>fn_mux = False, fn_ops = ops, fn_fops = fops, fn_refcount = 0, fn_size = 0, fn_children = 0, fn_pages = 0\<rparr>;
              st = upd_node n (\<lambda>_. vfs_node_init zero) st
          in Some (n, vfs_node_get n st)
     else Some (0, st)
   }"

definition ramfs_entry_create :: "name \<Rightarrow> nat \<Rightarrow> fs \<Rightarrow> (nat \<times> fs) option" where
  "ramfs_entry_create name node st = do {
     (e, st) \<leftarrow> cache_alloc (ramfs_entry_cache st) st;
     if e \<noteq> 0
     then Some (e, st\<lparr>rf_entry := (rf_entry st)(e := \<lparr>re_node = node, re_name = name\<rparr>)\<rparr>)
     else Some (0, st)
   }"

definition ramfs_free_page :: "nat \<Rightarrow> fs \<Rightarrow> fs option" where
  "ramfs_free_page pg st =
     cache_free (ramfs_page_cache st) pg (st\<lparr>fs_kmem := heap_free_pages (Some (rp_page (rf_page st pg))) 0 (fs_kmem st)\<rparr>)"

partial_function (option) ramfs_release_pages :: "nat \<Rightarrow> fs \<Rightarrow> fs option" where
  "ramfs_release_pages node st =
     (if node \<noteq> 0
      then do {
        st \<leftarrow> ramfs_release_pages (rb_right (rf_page_links st) node) st;
        let left = rb_left (rf_page_links st) node;
        st \<leftarrow> ramfs_free_page node st;
        ramfs_release_pages left st
      }
      else Some st)"

definition ramfs_release_file_node :: "nat \<Rightarrow> fs \<Rightarrow> fs option" where
  "ramfs_release_file_node n st = do {
     st \<leftarrow> ramfs_release_pages (fn_pages (fs_node st n)) st;
     cache_free (ramfs_node_cache st) n st
   }"

text \<open>
  \<^verbatim>\<open>vfs_node_put\<close>, the release callbacks and the release of a directory call one another; the argument
  says which of the three is called. The links of a released entry are still read, as in the code.
\<close>

datatype release_call = Node_put nat | Dir_release nat | Entry_destroy nat

partial_function (option) fs_release :: "release_call \<Rightarrow> fs \<Rightarrow> fs option" where
  "fs_release call st =
     (case call of
        Node_put n \<Rightarrow>
          if n = 0 then Some st
          else let st = upd_node n (\<lambda>x. x\<lparr>fn_refcount := fn_refcount x - 1\<rparr>) st
               in if fn_refcount (fs_node st n) \<noteq> 0 then Some st
                  else (case fn_ops (fs_node st n) of
                          ramfs_file_node_ops \<Rightarrow> ramfs_release_file_node n st
                        | ramfs_dir_node_ops \<Rightarrow> do {
                            st \<leftarrow> fs_release (Dir_release (fn_children (fs_node st n))) st;
                            cache_free (ramfs_node_cache st) n st
                          }
                        | fs_root_node_ops \<Rightarrow> None)
      | Dir_release e \<Rightarrow>
          if e \<noteq> 0
          then do {
            st \<leftarrow> fs_release (Entry_destroy e) st;
            st \<leftarrow> fs_release (Dir_release (rb_right (rf_entry_links st) e)) st;
            fs_release (Dir_release (rb_left (rf_entry_links st) e)) st
          }
          else Some st
      | Entry_destroy e \<Rightarrow> do {
          st \<leftarrow> fs_release (Node_put (re_node (rf_entry st e))) st;
          cache_free (ramfs_entry_cache st) e st
        })"

definition vfs_node_put :: "nat \<Rightarrow> fs \<Rightarrow> fs option" where
  "vfs_node_put n st = fs_release (Node_put n) st"

definition ramfs_entry_destroy :: "nat \<Rightarrow> fs \<Rightarrow> fs option" where
  "ramfs_entry_destroy e st = fs_release (Entry_destroy e) st"

section \<open>Directories\<close>

definition ramfs_entry_lookup :: "nat \<Rightarrow> name \<Rightarrow> fs \<Rightarrow> (nat \<times> nat \<times> plink) option" where
  "ramfs_entry_lookup dir name st =
     rb_find (\<lambda>e. str_cmp (re_name (rf_entry st e)) name) (rf_entry_links st) (fn_children (fs_node st dir)) 0 RootLink"

definition ramfs_entry_link :: "nat \<Rightarrow> nat \<Rightarrow> nat \<Rightarrow> plink \<Rightarrow> fs \<Rightarrow> fs option" where
  "ramfs_entry_link dir e parent plink st = do {
     let st = upd_node dir (\<lambda>n. n\<lparr>fn_refcount := fn_refcount n + 1, fn_size := fn_size n + 1\<rparr>) st;
     (h, root) \<leftarrow> rb_insert e (rb_link e parent plink (rf_entry_links st, fn_children (fs_node st dir)));
     Some (upd_node dir (fn_children_update (\<lambda>_. root)) (st\<lparr>rf_entry_links := h\<rparr>))
   }"

definition ramfs_entry_unlink :: "nat \<Rightarrow> nat \<Rightarrow> fs \<Rightarrow> (int \<times> fs) option" where
  "ramfs_entry_unlink dir entry st = do {
     (e, _, _) \<leftarrow> ramfs_entry_lookup dir (fe_name (fs_entry st entry)) st;
     if e = 0 then Some (- ENOENT, st)
     else do {
       (h, root) \<leftarrow> rb_erase e (rf_entry_links st, fn_children (fs_node st dir));
       let st = upd_node dir (fn_children_update (\<lambda>_. root)) (st\<lparr>rf_entry_links := h\<rparr>);
       let st = upd_node dir (\<lambda>n. n\<lparr>fn_size := fn_size n - 1\<rparr>) st;
       st \<leftarrow> ramfs_entry_destroy e st;
       st \<leftarrow> vfs_entry_detach entry st;
       Some (0, st)
     }
   }"

definition ramfs_create_ops :: "fs_node_ops \<Rightarrow> fs_file_ops \<Rightarrow> nat \<Rightarrow> nat \<Rightarrow> fs \<Rightarrow> (int \<times> fs) option" where
  "ramfs_create_ops ops fops dir file st = do {
     (old, parent, plink) \<leftarrow> ramfs_entry_lookup dir (fe_name (fs_entry st file)) st;
     if old \<noteq> 0 then Some (- EEXIST, st)
     else do {
       (node, st) \<leftarrow> ramfs_node_create ops fops st;
       if node = 0 then Some (- ENOMEM, st)
       else do {
         (e, st) \<leftarrow> ramfs_entry_create (fe_name (fs_entry st file)) node st;
         if e = 0 then do { st \<leftarrow> vfs_node_put node st; Some (- ENOMEM, st) }
         else do {
           st \<leftarrow> ramfs_entry_link dir e parent plink st;
           let st = vfs_node_get node st;
           Some (0, upd_entry file (fe_node_update (\<lambda>_. node)) st)
         }
       }
     }
   }"

definition ramfs_create :: "nat \<Rightarrow> nat \<Rightarrow> fs \<Rightarrow> (int \<times> fs) option" where
  "ramfs_create = ramfs_create_ops ramfs_file_node_ops ramfs_file_ops"

definition ramfs_mkdir :: "nat \<Rightarrow> nat \<Rightarrow> fs \<Rightarrow> (int \<times> fs) option" where
  "ramfs_mkdir = ramfs_create_ops ramfs_dir_node_ops ramfs_dir_ops"

definition ramfs_link :: "nat \<Rightarrow> nat \<Rightarrow> nat \<Rightarrow> fs \<Rightarrow> (int \<times> fs) option" where
  "ramfs_link src dir dst st =
     (if fn_ops (fs_node st (fe_node (fs_entry st src))) \<noteq> ramfs_file_node_ops then Some (- ENOTSUP, st)
      else if fn_ops (fs_node st dir) \<noteq> ramfs_dir_node_ops then Some (- ENOTSUP, st)
      else do {
        (old, parent, plink) \<leftarrow> ramfs_entry_lookup dir (fe_name (fs_entry st dst)) st;
        if old \<noteq> 0 then Some (- EEXIST, st)
        else do {
          let node = fe_node (fs_entry st src);
          let st = vfs_node_get node st;
          (e, st) \<leftarrow> ramfs_entry_create (fe_name (fs_entry st dst)) node st;
          if e = 0 then do { st \<leftarrow> vfs_node_put node st; Some (- ENOMEM, st) }
          else do {
            st \<leftarrow> ramfs_entry_link dir e parent plink st;
            let st = vfs_node_get node st;
            Some (0, upd_entry dst (fe_node_update (\<lambda>_. node)) st)
          }
        }
      })"

definition ramfs_unlink :: "nat \<Rightarrow> nat \<Rightarrow> fs \<Rightarrow> (int \<times> fs) option" where
  "ramfs_unlink dir entry st =
     (if fn_ops (fs_node st dir) \<noteq> ramfs_dir_node_ops then Some (- ENOTSUP, st)
      else if fe_node (fs_entry st entry) = 0 then Some (- EINVAL, st)
      else if fn_ops (fs_node st (fe_node (fs_entry st entry))) \<noteq> ramfs_file_node_ops then Some (- ENOTSUP, st)
      else ramfs_entry_unlink dir entry st)"

definition ramfs_rmdir :: "nat \<Rightarrow> nat \<Rightarrow> fs \<Rightarrow> (int \<times> fs) option" where
  "ramfs_rmdir dir entry st =
     (if fn_ops (fs_node st dir) \<noteq> ramfs_dir_node_ops then Some (- ENOTSUP, st)
      else ramfs_entry_unlink dir entry st)"

definition ramfs_lookup :: "nat \<Rightarrow> nat \<Rightarrow> fs \<Rightarrow> (int \<times> fs) option" where
  "ramfs_lookup dir entry st =
     (if fn_ops (fs_node st dir) \<noteq> ramfs_dir_node_ops then Some (- ENOTSUP, st)
      else do {
        (e, _, _) \<leftarrow> ramfs_entry_lookup dir (fe_name (fs_entry st entry)) st;
        if e = 0 then Some (- ENOENT, st)
        else let node = re_node (rf_entry st e); st = vfs_node_get node st
             in Some (0, upd_entry entry (fe_node_update (\<lambda>_. node)) st)
      })"

section \<open>Pages of files\<close>

definition ramfs_alloc_page :: "nat \<Rightarrow> fs \<Rightarrow> (nat \<times> fs) option" where
  "ramfs_alloc_page index st = do {
     (rp, st) \<leftarrow> cache_alloc (ramfs_page_cache st) st;
     if rp = 0 then Some (0, st)
     else do {
       (page, k) \<leftarrow> heap_alloc_pages 0 (fs_kmem st);
       let st = st\<lparr>fs_kmem := k\<rparr>;
       case page of
         None \<Rightarrow> do { st \<leftarrow> cache_free (ramfs_page_cache st) rp st; Some (0, st) }
       | Some p \<Rightarrow>
           let st = st\<lparr>fs_data := (fs_data st)(p := \<lambda>_. 0)\<rparr>
           in Some (rp, st\<lparr>rf_page := (rf_page st)(rp := \<lparr>rp_page = p, rp_index = index\<rparr>)\<rparr>)
     }
   }"

definition ramfs_lookup_page :: "nat \<Rightarrow> nat \<Rightarrow> fs \<Rightarrow> (nat \<times> nat \<times> plink) option" where
  "ramfs_lookup_page node index st =
     rb_find (\<lambda>p. int (rp_index (rf_page st p)) - int index) (rf_page_links st) (fn_pages (fs_node st node)) 0 RootLink"

definition page_write :: "nat \<Rightarrow> u8 list \<Rightarrow> (nat \<Rightarrow> u8) \<Rightarrow> nat \<Rightarrow> u8" where
  "page_write off bs d = (\<lambda>i. if off \<le> i \<and> i < off + length bs then bs ! (i - off) else d i)"

text \<open>The page of the file for an index, added to the tree when it is missing; \<^verbatim>\<open>0\<close> when out of memory.\<close>

definition ramfs_get_page :: "nat \<Rightarrow> nat \<Rightarrow> fs \<Rightarrow> (nat \<times> fs) option" where
  "ramfs_get_page node idx st = do {
     (rp, parent, plink) \<leftarrow> ramfs_lookup_page node idx st;
     if rp \<noteq> 0 then Some (rp, st)
     else do {
       (rp, st) \<leftarrow> ramfs_alloc_page idx st;
       if rp = 0 then Some (0, st)
       else do {
         (h, root) \<leftarrow> rb_insert rp (rb_link rp parent plink (rf_page_links st, fn_pages (fs_node st node)));
         Some (rp, upd_node node (fn_pages_update (\<lambda>_. root)) (st\<lparr>rf_page_links := h\<rparr>))
       }
     }
   }"

definition ramfs_write :: "fs_file \<Rightarrow> u8 list \<Rightarrow> fs \<Rightarrow> (int \<times> fs_file \<times> fs) option" where
  "ramfs_write file data st = do {
     let node = ff_node file;
     st \<leftarrow> node_lock node st;
     let idx = nat (ff_offset file) div 4096;
     let off = nat (ff_offset file) mod 4096;
     let sz = min (4096 - off) (length data);
     (rp, st) \<leftarrow> ramfs_get_page node idx st;
     if rp = 0 then Some (- ENOMEM, file, node_unlock node st)
     else let page = rp_page (rf_page st rp);
              st = st\<lparr>fs_data := (fs_data st)(page := page_write off (take sz data) (fs_data st page))\<rparr>;
              file = file\<lparr>ff_offset := i32 (ff_offset file + int sz)\<rparr>;
              st = upd_node node (\<lambda>n. n\<lparr>fn_size := MAX_s (ff_offset file) (fn_size n)\<rparr>) st
          in Some (int sz, file, node_unlock node st)
   }"

definition ramfs_read :: "fs_file \<Rightarrow> nat \<Rightarrow> fs \<Rightarrow> (int \<times> u8 list \<times> fs_file \<times> fs) option" where
  "ramfs_read file sz st = do {
     let node = ff_node file;
     st \<leftarrow> node_lock node st;
     if ff_offset file \<ge> fn_size (fs_node st node) then Some (0, [], file, node_unlock node st)
     else do {
       let rem = nat (fn_size (fs_node st node) - ff_offset file);
       let idx = nat (ff_offset file) div 4096;
       let off = nat (ff_offset file) mod 4096;
       let sz = min (min (4096 - off) sz) rem;
       (rp, _, _) \<leftarrow> ramfs_lookup_page node idx st;
       let data = (if rp \<noteq> 0 then map (\<lambda>i. fs_data st (rp_page (rf_page st rp)) (off + i)) [0..<sz] else replicate sz 0);
       let file = file\<lparr>ff_offset := i32 (ff_offset file + int sz)\<rparr>;
       Some (int sz, data, file, node_unlock node st)
     }
   }"

section \<open>Reading a directory\<close>

text \<open>The context of \<^verbatim>\<open>vfs_readdir\<close> and its \<^verbatim>\<open>emit\<close> callback: the entries written so far, out of \<open>rd_count\<close>.\<close>

record readdir_ctx =
  ctx_offset :: int
  rd_entries :: "name list"
  rd_count :: nat

definition readdir_next_entry :: "name \<Rightarrow> readdir_ctx \<Rightarrow> bool \<times> readdir_ctx" where
  "readdir_next_entry name ctx =
     (if length (rd_entries ctx) \<noteq> rd_count ctx
      then (True, ctx\<lparr>rd_entries := rd_entries ctx @ [take 255 name]\<rparr>)
      else (False, ctx))"

partial_function (option) skip_entries :: "rb_heap \<Rightarrow> nat \<Rightarrow> int \<Rightarrow> nat option" where
  "skip_entries h cur offset =
     (if cur \<noteq> 0 \<and> offset \<noteq> 0 then do { cur \<leftarrow> rb_next h cur; skip_entries h cur (offset - 1) } else Some cur)"

partial_function (option) emit_entries :: "fs \<Rightarrow> nat \<Rightarrow> readdir_ctx \<Rightarrow> readdir_ctx option" where
  "emit_entries st cur ctx =
     (if cur \<noteq> 0
      then do {
        next \<leftarrow> rb_next (rf_entry_links st) cur;
        let (more, ctx) = readdir_next_entry (re_name (rf_entry st cur)) ctx;
        if \<not> more then Some ctx else emit_entries st next (ctx\<lparr>ctx_offset := ctx_offset ctx + 1\<rparr>)
      }
      else Some ctx)"

definition ramfs_iterate :: "fs_file \<Rightarrow> readdir_ctx \<Rightarrow> fs \<Rightarrow> (int \<times> readdir_ctx) option" where
  "ramfs_iterate dir ctx st = do {
     cur \<leftarrow> rb_leftmost (rf_entry_links st) (fn_children (fs_node st (ff_node dir)));
     cur \<leftarrow> skip_entries (rf_entry_links st) cur (ctx_offset ctx);
     ctx \<leftarrow> emit_entries st cur ctx;
     Some (0, ctx)
   }"

section \<open>Mounting\<close>

definition ramfs_mount :: "fs_mount \<Rightarrow> fs \<Rightarrow> (int \<times> fs_mount \<times> fs) option" where
  "ramfs_mount mnt st = do {
     (root, st) \<leftarrow> ramfs_node_create ramfs_dir_node_ops ramfs_dir_ops st;
     if root = 0 then Some (- ENOMEM, mnt, st) else Some (0, mnt\<lparr>fm_root := root\<rparr>, st)
   }"

definition ramfs_umount :: "fs_mount \<Rightarrow> fs \<Rightarrow> fs option" where
  "ramfs_umount mnt st = vfs_node_put (fm_root mnt) st"

end
