(* ===== verification/Vfs.thy ===== *)
theory Vfs
  imports Ramfs
begin

text \<open>
  The virtual file system \<^verbatim>\<open>src/vfs.c\<close>: path entries and their cache, path walking, the operations on open
  files, directories, file system types and mounts. Calls through the operation tables are resolved
  to the functions the tables hold: those of the root node and those of \<^verbatim>\<open>ramfs\<close>, the one file system
  of the sources; no table has \<^verbatim>\<open>open\<close>, \<^verbatim>\<open>release\<close> of files, \<^verbatim>\<open>alloc\<close> or \<^verbatim>\<open>free\<close>. As before, \<^term>\<open>None\<close> is a
  null pointer that is followed, a mutex locked twice, a write past an array or a call that does not
  return, and an entry \<^verbatim>\<open>0\<close> with a code is a null result.
\<close>

definition MAX_PATH_LEN :: nat where
  "MAX_PATH_LEN = 256"

section \<open>Path entries\<close>

definition vfs_entry_create :: "name \<Rightarrow> fs \<Rightarrow> (nat \<times> fs) option" where
  "vfs_entry_create name st = do {
     (e, st) \<leftarrow> cache_alloc (fs_entry_cache st) st;
     if e = 0 then Some (0, st)
     else Some (e, upd_entry e (\<lambda>_. \<lparr>fe_children = 0, fe_parent = 0, fe_node = 0, fe_name = name, fe_cached = False, fe_refcount = 1\<rparr>) st)
   }"

partial_function (option) vfs_entry_put :: "nat \<Rightarrow> fs \<Rightarrow> fs option" where
  "vfs_entry_put e st =
     (let dir = fe_parent (fs_entry st e);
          st = upd_entry e (\<lambda>x. x\<lparr>fe_refcount := fe_refcount x - 1\<rparr>) st
      in if fe_refcount (fs_entry st e) \<noteq> 0 then Some st
         else do {
           st \<leftarrow> vfs_entry_detach_from e dir st;
           st \<leftarrow> vfs_entry_put (fe_parent (fs_entry st e)) st;
           st \<leftarrow> vfs_node_put (fe_node (fs_entry st e)) st;
           cache_free (fs_entry_cache st) e st
         })"

text \<open>The root directory holds the mounts.\<close>

definition vfs_root_lookup :: "nat \<Rightarrow> nat \<Rightarrow> fs \<Rightarrow> (int \<times> fs) option" where
  "vfs_root_lookup root e st =
     (case find (\<lambda>m. fm_name (fs_mount st m) = fe_name (fs_entry st e)) (fs_mounts st) of
        Some m \<Rightarrow> let n = fm_root (fs_mount st m); st = vfs_node_get n st in Some (0, upd_entry e (fe_node_update (\<lambda>_. n)) st)
      | None \<Rightarrow> Some (- ENOENT, st))"

definition ops_lookup :: "fs_node_ops \<Rightarrow> (nat \<Rightarrow> nat \<Rightarrow> fs \<Rightarrow> (int \<times> fs) option) option" where
  "ops_lookup ops =
     (case ops of
        fs_root_node_ops \<Rightarrow> Some vfs_root_lookup
      | ramfs_dir_node_ops \<Rightarrow> Some ramfs_lookup
      | ramfs_file_node_ops \<Rightarrow> None)"

definition vfs_lookup :: "nat \<Rightarrow> name \<Rightarrow> bool \<Rightarrow> fs \<Rightarrow> (nat \<times> int \<times> fs) option" where
  "vfs_lookup dir name create st =
     (let node = fe_node (fs_entry st dir)
      in if node = 0 then None
         else case ops_lookup (fn_ops (fs_node st node)) of
           None \<Rightarrow> Some (0, - ENOTSUP, st)
         | Some lookup \<Rightarrow> do {
             (e, parent, plink) \<leftarrow> rb_find (\<lambda>x. str_cmp (fe_name (fs_entry st x)) name) (fs_entry_links st) (fe_children (fs_entry st dir)) 0 RootLink;
             if e \<noteq> 0 then Some (e, 0, vfs_entry_get e st)
             else do {
               (e, st) \<leftarrow> vfs_entry_create name st;
               if e = 0 then Some (0, - ENOMEM, st)
               else do {
                 (h, root) \<leftarrow> rb_insert e (rb_link e parent plink (fs_entry_links st, fe_children (fs_entry st dir)));
                 let st = upd_entry dir (fe_children_update (\<lambda>_. root)) (st\<lparr>fs_entry_links := h\<rparr>);
                 let st = vfs_entry_get dir st;
                 let st = upd_entry e (\<lambda>x. x\<lparr>fe_parent := dir, fe_cached := True\<rparr>) st;
                 (rc, st) \<leftarrow> lookup node e st;
                 if rc \<noteq> 0 \<and> \<not> create then do { st \<leftarrow> vfs_entry_put e st; Some (0, rc, st) }
                 else Some (e, rc, st)
               }
             }
           })"

section \<open>Walking a path\<close>

record vfs_walk_data =
  wd_entry :: nat
  wd_next :: name
  wd_tail :: name

definition vfs_path_skip_sep :: "name \<Rightarrow> name" where
  "vfs_path_skip_sep path = dropWhile (\<lambda>c. c = 47) path"

text \<open>The next entry is copied to an array of \<^term>\<open>MAX_PATH_LEN\<close> bytes; the code has no check of its length.\<close>

definition vfs_path_next_entry :: "name \<Rightarrow> (name \<times> name) option" where
  "vfs_path_next_entry full =
     (let next = takeWhile (\<lambda>c. c \<noteq> 47) full
      in if length next < MAX_PATH_LEN then Some (next, vfs_path_skip_sep (dropWhile (\<lambda>c. c \<noteq> 47) full)) else None)"

definition vfs_walk_start :: "name \<Rightarrow> fs \<Rightarrow> (vfs_walk_data \<times> fs) option" where
  "vfs_walk_start path st = do {
     (next, tail) \<leftarrow> vfs_path_next_entry (vfs_path_skip_sep path);
     Some (\<lparr>wd_entry = fs_root_entry st, wd_next = next, wd_tail = tail\<rparr>, vfs_entry_get (fs_root_entry st) st)
   }"

definition vfs_walk_stop :: "vfs_walk_data \<Rightarrow> fs \<Rightarrow> fs option" where
  "vfs_walk_stop wd st = vfs_entry_put (wd_entry wd) st"

definition vfs_walk :: "vfs_walk_data \<Rightarrow> fs \<Rightarrow> (int \<times> vfs_walk_data \<times> fs) option" where
  "vfs_walk wd st =
     (if wd_next wd = [] then Some (- ENOENT, wd, st)
      else if wd_next wd = [46] then do {
        (next, tail) \<leftarrow> vfs_path_next_entry (wd_tail wd);
        Some (0, wd\<lparr>wd_next := next, wd_tail := tail\<rparr>, st)
      }
      else if wd_next wd = [46, 46] then do {
        let parent = fe_parent (fs_entry st (wd_entry wd));
        let st = vfs_entry_get parent st;
        st \<leftarrow> vfs_entry_put (wd_entry wd) st;
        (next, tail) \<leftarrow> vfs_path_next_entry (wd_tail wd);
        Some (0, \<lparr>wd_entry = parent, wd_next = next, wd_tail = tail\<rparr>, st)
      }
      else do {
        let node = fe_node (fs_entry st (wd_entry wd));
        st \<leftarrow> node_lock node st;
        (e, rc, st) \<leftarrow> vfs_lookup (wd_entry wd) (wd_next wd) False st;
        let st = node_unlock node st;
        if e = 0 then Some (rc, wd, st)
        else do {
          st \<leftarrow> vfs_entry_put (wd_entry wd) st;
          (next, tail) \<leftarrow> vfs_path_next_entry (wd_tail wd);
          Some (0, \<lparr>wd_entry = e, wd_next = next, wd_tail = tail\<rparr>, st)
        }
      })"

partial_function (option) vfs_walk_parent :: "vfs_walk_data \<Rightarrow> fs \<Rightarrow> (int \<times> vfs_walk_data \<times> fs) option" where
  "vfs_walk_parent wd st =
     (if wd_tail wd \<noteq> []
      then do { (rc, wd, st) \<leftarrow> vfs_walk wd st; if rc \<noteq> 0 then Some (rc, wd, st) else vfs_walk_parent wd st }
      else Some (0, wd, st))"

partial_function (option) vfs_walk_all :: "vfs_walk_data \<Rightarrow> fs \<Rightarrow> (int \<times> vfs_walk_data \<times> fs) option" where
  "vfs_walk_all wd st =
     (if wd_next wd \<noteq> []
      then do { (rc, wd, st) \<leftarrow> vfs_walk wd st; if rc \<noteq> 0 then Some (rc, wd, st) else vfs_walk_all wd st }
      else Some (0, wd, st))"

definition vfs_resolve_path :: "name \<Rightarrow> fs \<Rightarrow> (nat \<times> int \<times> fs) option" where
  "vfs_resolve_path path st = do {
     (wd, st) \<leftarrow> vfs_walk_start path st;
     (rc, wd, st) \<leftarrow> vfs_walk_all wd st;
     if rc \<noteq> 0 then do { st \<leftarrow> vfs_walk_stop wd st; Some (0, rc, st) }
     else do {
       let st = vfs_entry_get (wd_entry wd) st;
       st \<leftarrow> vfs_walk_stop wd st;
       Some (wd_entry wd, 0, st)
     }
   }"

section \<open>Open files\<close>

definition vfs_file_cleanup :: "fs_file \<Rightarrow> fs \<Rightarrow> (fs_file \<times> fs) option" where
  "vfs_file_cleanup file st = do {
     st \<leftarrow> (if ff_entry file \<noteq> 0 then vfs_entry_put (ff_entry file) st else Some st);
     Some (\<lparr>ff_entry = 0, ff_node = 0, ff_ops = None, ff_offset = 0\<rparr>, st)
   }"

definition ops_dir :: "fs_node_ops \<Rightarrow> bool" where
  "ops_dir ops \<longleftrightarrow> ops = ramfs_dir_node_ops"

text \<open>\<^term>\<open>ops_dir\<close> says that the table has \<^verbatim>\<open>create\<close>, \<^verbatim>\<open>link\<close>, \<^verbatim>\<open>unlink\<close>, \<^verbatim>\<open>mkdir\<close> and \<^verbatim>\<open>rmdir\<close>.\<close>

definition vfs_file_open :: "name \<Rightarrow> fs_file \<Rightarrow> bool \<Rightarrow> fs \<Rightarrow> (int \<times> fs_file \<times> fs) option" where
  "vfs_file_open name file create st = do {
     (wd, st) \<leftarrow> vfs_walk_start name st;
     (rc, wd, st) \<leftarrow> vfs_walk_parent wd st;
     if rc \<noteq> 0 then do { st \<leftarrow> vfs_walk_stop wd st; Some (rc, file, st) }
     else do {
       let dir = fe_node (fs_entry st (wd_entry wd));
       if dir = 0 then None
       else if ops_lookup (fn_ops (fs_node st dir)) = None
       then do { st \<leftarrow> vfs_walk_stop wd st; Some (- ENOTSUP, file, st) }
       else do {
         st \<leftarrow> node_lock dir st;
         (e, rc, st) \<leftarrow> vfs_lookup (wd_entry wd) (wd_next wd) create st;
         (rc, st) \<leftarrow> (if create \<and> e \<noteq> 0 \<and> fe_node (fs_entry st e) = 0
                      then if \<not> ops_dir (fn_ops (fs_node st dir)) then Some (- ENOTSUP, st) else ramfs_create dir e st
                      else Some (rc, st));
         let st = node_unlock dir st;
         st \<leftarrow> vfs_walk_stop wd st;
         if rc \<noteq> 0 then Some (rc, file, st)
         else let node = fe_node (fs_entry st e)
              in if node = 0 then None
                 else Some (0, \<lparr>ff_entry = e, ff_node = node, ff_ops = Some (fn_fops (fs_node st node)), ff_offset = 0\<rparr>, st)
       }
     }
   }"

definition vfs_create :: "name \<Rightarrow> fs_file \<Rightarrow> fs \<Rightarrow> (int \<times> fs_file \<times> fs) option" where
  "vfs_create name file st = vfs_file_open name file True st"

definition vfs_open :: "name \<Rightarrow> fs_file \<Rightarrow> fs \<Rightarrow> (int \<times> fs_file \<times> fs) option" where
  "vfs_open name file st = vfs_file_open name file False st"

definition vfs_release :: "fs_file \<Rightarrow> fs \<Rightarrow> (int \<times> fs_file \<times> fs) option" where
  "vfs_release file st = do { (file, st) \<leftarrow> vfs_file_cleanup file st; Some (0, file, st) }"

definition vfs_read :: "fs_file \<Rightarrow> nat \<Rightarrow> fs \<Rightarrow> (int \<times> u8 list \<times> fs_file \<times> fs) option" where
  "vfs_read file sz st =
     (if ff_ops file = Some ramfs_file_ops then ramfs_read file sz st else Some (- ENOTSUP, [], file, st))"

definition vfs_write :: "fs_file \<Rightarrow> u8 list \<Rightarrow> fs \<Rightarrow> (int \<times> fs_file \<times> fs) option" where
  "vfs_write file data st =
     (if ff_ops file = Some ramfs_file_ops then ramfs_write file data st else Some (- ENOTSUP, file, st))"

datatype fs_seek_base = FSS_SET | FSS_CUR | FSS_END

definition vfs_seek_default :: "fs_file \<Rightarrow> int \<Rightarrow> fs_seek_base \<Rightarrow> fs \<Rightarrow> int \<times> fs_file" where
  "vfs_seek_default file offset whence st =
     (let offset = (case whence of
                      FSS_SET \<Rightarrow> offset
                    | FSS_CUR \<Rightarrow> i32 (offset + ff_offset file)
                    | FSS_END \<Rightarrow> i32 (offset + fn_size (fs_node st (ff_node file))));
          offset = MAX_s offset 0
      in (offset, file\<lparr>ff_offset := offset\<rparr>))"

definition vfs_seek :: "fs_file \<Rightarrow> int \<Rightarrow> fs_seek_base \<Rightarrow> fs \<Rightarrow> int \<times> fs_file" where
  "vfs_seek file offset whence st =
     (if ff_ops file = Some ramfs_file_ops \<or> ff_ops file = Some ramfs_dir_ops
      then vfs_seek_default file offset whence st else (- ENOTSUP, file))"

section \<open>Directories\<close>

text \<open>
  The loop that skips entries does not count, so it runs to the end of the list unless the offset is
  zero; the loop that emits leaves after the first entry that fits and never moves on to the next.
\<close>

definition vfs_root_iterate :: "readdir_ctx \<Rightarrow> fs \<Rightarrow> (int \<times> readdir_ctx) option" where
  "vfs_root_iterate ctx st =
     (case (if ctx_offset ctx \<noteq> 0 then [] else fs_mounts st) of
        [] \<Rightarrow> Some (0, ctx)
      | m # _ \<Rightarrow>
          let (more, ctx) = readdir_next_entry (fm_name (fs_mount st m)) ctx
          in if more then Some (0, ctx\<lparr>ctx_offset := ctx_offset ctx + 1\<rparr>) else None)"

definition vfs_readdir :: "fs_file \<Rightarrow> nat \<Rightarrow> fs \<Rightarrow> (int \<times> name list \<times> fs_file) option" where
  "vfs_readdir file count st =
     (if ff_ops file = Some ramfs_dir_ops \<or> ff_ops file = Some fs_root_file_ops
      then do {
        let ctx = \<lparr>ctx_offset = ff_offset file, rd_entries = [], rd_count = count\<rparr>;
        (rc, ctx) \<leftarrow> (if ff_ops file = Some ramfs_dir_ops then ramfs_iterate file ctx st else vfs_root_iterate ctx st);
        if ff_offset file \<noteq> ctx_offset ctx
        then Some (ctx_offset ctx - ff_offset file, rd_entries ctx, file\<lparr>ff_offset := ctx_offset ctx\<rparr>)
        else Some (rc, rd_entries ctx, file)
      }
      else Some (- ENOTSUP, [], file))"

definition vfs_link :: "name \<Rightarrow> name \<Rightarrow> fs \<Rightarrow> (int \<times> fs) option" where
  "vfs_link oldname newname st = do {
     (old, rc, st) \<leftarrow> vfs_resolve_path oldname st;
     if old = 0 then Some (rc, st)
     else do {
       (wd, st) \<leftarrow> vfs_walk_start newname st;
       (rc, wd, st) \<leftarrow> vfs_walk_parent wd st;
       let stop = (\<lambda>rc st. do { st \<leftarrow> vfs_walk_stop wd st; st \<leftarrow> vfs_entry_put old st; Some (rc, st) });
       if rc \<noteq> 0 then stop rc st
       else do {
         let dir = wd_entry wd;
         let node = fe_node (fs_entry st dir);
         if node = 0 then None
         else if \<not> ops_dir (fn_ops (fs_node st node)) then stop (- ENOTSUP) st
         else do {
           st \<leftarrow> node_lock node st;
           (new, rc, st) \<leftarrow> vfs_lookup dir (wd_next wd) True st;
           if new = 0 then stop rc (node_unlock node st)
           else do {
             (rc, st) \<leftarrow> (if fe_node (fs_entry st new) \<noteq> 0 then Some (- EEXIST, st) else ramfs_link old node new st);
             (rc, st) \<leftarrow> stop rc (node_unlock node st);
             st \<leftarrow> vfs_entry_put new st;
             Some (rc, st)
           }
         }
       }
     }
   }"

definition vfs_remove :: "(nat \<Rightarrow> nat \<Rightarrow> fs \<Rightarrow> (int \<times> fs) option) \<Rightarrow> name \<Rightarrow> fs \<Rightarrow> (int \<times> fs) option" where
  "vfs_remove remove name st = do {
     (e, rc, st) \<leftarrow> vfs_resolve_path name st;
     if e = 0 then Some (rc, st)
     else do {
       let dir = fe_parent (fs_entry st e);
       let node = fe_node (fs_entry st dir);
       if node = 0 then None
       else if \<not> ops_dir (fn_ops (fs_node st node)) then do { st \<leftarrow> vfs_entry_put e st; Some (- ENOTSUP, st) }
       else do {
         st \<leftarrow> node_lock node st;
         (rc, st) \<leftarrow> remove node e st;
         let st = node_unlock node st;
         st \<leftarrow> vfs_entry_put e st;
         Some (rc, st)
       }
     }
   }"

definition vfs_unlink :: "name \<Rightarrow> fs \<Rightarrow> (int \<times> fs) option" where
  "vfs_unlink name st = vfs_remove ramfs_unlink name st"

definition vfs_rmdir :: "name \<Rightarrow> fs \<Rightarrow> (int \<times> fs) option" where
  "vfs_rmdir name st = vfs_remove ramfs_rmdir name st"

definition vfs_mkdir :: "name \<Rightarrow> fs \<Rightarrow> (int \<times> fs) option" where
  "vfs_mkdir name st = do {
     (wd, st) \<leftarrow> vfs_walk_start name st;
     (rc, wd, st) \<leftarrow> vfs_walk_parent wd st;
     if rc \<noteq> 0 then do { st \<leftarrow> vfs_walk_stop wd st; Some (rc, st) }
     else do {
       let dir = wd_entry wd;
       let node = fe_node (fs_entry st dir);
       if node = 0 then None
       else if \<not> ops_dir (fn_ops (fs_node st node)) then do { st \<leftarrow> vfs_walk_stop wd st; Some (- ENOTSUP, st) }
       else do {
         st \<leftarrow> node_lock node st;
         (e, rc, st) \<leftarrow> vfs_lookup dir (wd_next wd) True st;
         if e = 0 then do { st \<leftarrow> vfs_walk_stop wd (node_unlock node st); Some (rc, st) }
         else do {
           (rc, st) \<leftarrow> (if fe_node (fs_entry st e) \<noteq> 0 then Some (- EEXIST, st) else ramfs_mkdir node e st);
           let st = node_unlock node st;
           st \<leftarrow> vfs_walk_stop wd st;
           st \<leftarrow> vfs_entry_put e st;
           Some (rc, st)
         }
       }
     }
   }"

section \<open>File system types and mounts\<close>

text \<open>The lists of types and mounts are the sequences of their entries; sizes are those of the structures.\<close>

definition vfs_lookup_filesystem :: "name \<Rightarrow> fs \<Rightarrow> nat" where
  "vfs_lookup_filesystem name st =
     (case find (\<lambda>t. ft_name (fs_type st t) = name) (fs_types st) of Some t \<Rightarrow> t | None \<Rightarrow> 0)"

definition vfs_lookup_mount :: "name \<Rightarrow> fs \<Rightarrow> nat" where
  "vfs_lookup_mount name st =
     (case find (\<lambda>m. fm_name (fs_mount st m) = name) (fs_mounts st) of Some m \<Rightarrow> m | None \<Rightarrow> 0)"

definition sizeof_fs_mount :: nat where
  "sizeof_fs_mount = 288"

definition sizeof_fs_entry :: nat where
  "sizeof_fs_entry = 328"

definition vfs_mount_create :: "nat \<Rightarrow> name \<Rightarrow> fs \<Rightarrow> (nat \<times> fs) option" where
  "vfs_mount_create t name st = do {
     (m, k) \<leftarrow> kmem_alloc sizeof_fs_mount (fs_kmem st);
     let st = st\<lparr>fs_kmem := k\<rparr>;
     if m \<noteq> 0
     then Some (m, st\<lparr>fs_mount := (fs_mount st)(m := \<lparr>fm_fs = t, fm_root = 0, fm_name = take (MAX_PATH_LEN - 1) name\<rparr>)\<rparr>)
     else Some (0, st)
   }"

definition vfs_mount_destroy :: "nat \<Rightarrow> fs \<Rightarrow> fs option" where
  "vfs_mount_destroy m st = do { k \<leftarrow> kmem_free m (fs_kmem st); Some (st\<lparr>fs_kmem := k\<rparr>) }"

definition register_filesystem :: "nat \<Rightarrow> fs \<Rightarrow> (int \<times> fs) option" where
  "register_filesystem t st = do {
     st \<leftarrow> node_lock (fs_root_node st) st;
     if vfs_lookup_filesystem (ft_name (fs_type st t)) st \<noteq> 0
     then Some (- EEXIST, node_unlock (fs_root_node st) st)
     else Some (0, node_unlock (fs_root_node st) (st\<lparr>fs_types := fs_types st @ [t]\<rparr>))
   }"

definition unregister_filesystem :: "nat \<Rightarrow> fs \<Rightarrow> (int \<times> fs) option" where
  "unregister_filesystem t st = do {
     st \<leftarrow> node_lock (fs_root_node st) st;
     if ft_refcount (fs_type st t) \<noteq> 0
     then Some (- EBUSY, node_unlock (fs_root_node st) st)
     else Some (0, node_unlock (fs_root_node st) (st\<lparr>fs_types := remove1 t (fs_types st)\<rparr>))
   }"

definition upd_type :: "nat \<Rightarrow> (fs_type \<Rightarrow> fs_type) \<Rightarrow> fs \<Rightarrow> fs" where
  "upd_type t f st = st\<lparr>fs_type := (fs_type st)(t := f (fs_type st t))\<rparr>"

definition vfs_mount_unlocked :: "name \<Rightarrow> name \<Rightarrow> fs \<Rightarrow> (int \<times> fs) option" where
  "vfs_mount_unlocked fs_name mount st =
     (let t = vfs_lookup_filesystem fs_name st
      in if t = 0 then Some (- ENOENT, st)
         else if vfs_lookup_mount mount st \<noteq> 0 then Some (- EEXIST, st)
         else do {
           (m, st) \<leftarrow> vfs_mount_create t mount st;
           if m = 0 then Some (- ENOMEM, st)
           else do {
             (ret, mnt, st) \<leftarrow> ramfs_mount (fs_mount st m) st;
             let st = st\<lparr>fs_mount := (fs_mount st)(m := mnt)\<rparr>;
             if ret \<noteq> 0 then do { st \<leftarrow> vfs_mount_destroy m st; Some (ret, st) }
             else Some (ret, upd_type t (\<lambda>x. x\<lparr>ft_refcount := ft_refcount x + 1\<rparr>) (st\<lparr>fs_mounts := fs_mounts st @ [m]\<rparr>))
           }
         })"

definition vfs_mount :: "name \<Rightarrow> name \<Rightarrow> fs \<Rightarrow> (int \<times> fs) option" where
  "vfs_mount fs_name mount st = do {
     st \<leftarrow> node_lock (fs_root_node st) st;
     (rc, st) \<leftarrow> vfs_mount_unlocked fs_name mount st;
     Some (rc, node_unlock (fs_root_node st) st)
   }"

definition vfs_umount_unlocked :: "name \<Rightarrow> fs \<Rightarrow> (int \<times> fs) option" where
  "vfs_umount_unlocked mount st =
     (let m = vfs_lookup_mount mount st
      in if m = 0 then Some (- ENOENT, st)
         else do {
           let st = st\<lparr>fs_mounts := remove1 m (fs_mounts st)\<rparr>;
           st \<leftarrow> ramfs_umount (fs_mount st m) st;
           let st = upd_type (fm_fs (fs_mount st m)) (\<lambda>x. x\<lparr>ft_refcount := ft_refcount x - 1\<rparr>) st;
           st \<leftarrow> vfs_mount_destroy m st;
           Some (0, st)
         })"

definition vfs_umount :: "name \<Rightarrow> fs \<Rightarrow> (int \<times> fs) option" where
  "vfs_umount mount st = do {
     st \<leftarrow> node_lock (fs_root_node st) st;
     (rc, st) \<leftarrow> vfs_umount_unlocked mount st;
     Some (rc, node_unlock (fs_root_node st) st)
   }"

definition setup_vfs :: "fs \<Rightarrow> fs option" where
  "setup_vfs st = do {
     (c, k) \<leftarrow> kmem_cache_create (of_nat sizeof_fs_entry) 8 (fs_kmem st);
     if c = 0 then None
     else let st = st\<lparr>fs_kmem := k, fs_entry_cache := c\<rparr>;
              st = upd_node (fs_root_node st) (\<lambda>n. n\<lparr>fn_mux := False, fn_ops := fs_root_node_ops, fn_fops := fs_root_file_ops\<rparr>) st
          in Some (upd_entry (fs_root_entry st) (\<lambda>e. e\<lparr>fe_node := fs_root_node st, fe_parent := fs_root_entry st, fe_refcount := 1\<rparr>) st)
   }"

end
