(* ===== verification/Ramfs_Inv.thy ===== *)
theory Ramfs_Inv
  imports Ramfs
begin

text \<open>
  Correctness of \<^verbatim>\<open>src/ramfs.c\<close> over the memory services and the red-black trees: a file refines an array
  of bytes with holes that read as zero, and a directory refines a finite map from names to nodes.
\<close>

lemma fs_upd_simps [simp]:
  "fs_node (upd_node n f st) = (fs_node st)(n := f (fs_node st n))" "fs_kmem (upd_node n f st) = fs_kmem st"
  "rf_page (upd_node n f st) = rf_page st" "rf_page_links (upd_node n f st) = rf_page_links st"
  "rf_entry (upd_node n f st) = rf_entry st" "rf_entry_links (upd_node n f st) = rf_entry_links st"
  "fs_data (upd_node n f st) = fs_data st" "fs_entry (upd_node n f st) = fs_entry st"
  "ramfs_page_cache (upd_node n f st) = ramfs_page_cache st" "ramfs_node_cache (upd_node n f st) = ramfs_node_cache st"
  "ramfs_entry_cache (upd_node n f st) = ramfs_entry_cache st" "fs_entry_links (upd_node n f st) = fs_entry_links st"
  "fs_entry_cache (upd_node n f st) = fs_entry_cache st"
  by (simp_all add: upd_node_def)

section \<open>Files as byte arrays\<close>

definition file_byte :: "fs \<Rightarrow> nat \<Rightarrow> nat \<Rightarrow> u8" where
  "file_byte st n i =
     (case ramfs_lookup_page n (i div 4096) st of
        Some (rp, _, _) \<Rightarrow> if rp \<noteq> 0 then fs_data st (rp_page (rf_page st rp)) (i mod 4096) else 0
      | None \<Rightarrow> 0)"

abbreviation pkey :: "fs \<Rightarrow> nat \<Rightarrow> int" where
  "pkey st p \<equiv> int (rp_index (rf_page st p))"

text \<open>
  \<open>F\<close> are the file nodes and \<open>pg\<close> lists the pages of each in order. Pages are live objects of their cache,
  no page object and no frame belongs to two of them, and every frame is held from the allocator.
\<close>

definition pages_inv ::
  "fs \<Rightarrow> nat set \<Rightarrow> (nat \<Rightarrow> nat set) \<Rightarrow> (page_ptr \<times> nat) set \<Rightarrow> nat set \<Rightarrow> (nat \<Rightarrow> nat list) \<Rightarrow> bool" where
  "pages_inv st K live P F pg \<longleftrightarrow> kmem_inv P (fs_kmem st) K live \<and> ramfs_page_cache st \<in> K \<and>
     (\<forall>n \<in> F. by_int.index (pkey st) (rf_page_links st) (fn_pages (fs_node st n)) (pg n)) \<and>
     (\<forall>n \<in> F. set (pg n) \<subseteq> live (ramfs_page_cache st)) \<and>
     (\<forall>n \<in> F. \<forall>m \<in> F. n \<noteq> m \<longrightarrow> set (pg n) \<inter> set (pg m) = {}) \<and>
     (\<forall>n \<in> F. \<forall>p \<in> set (pg n). (rp_page (rf_page st p), 0) \<in> P) \<and>
     inj_on (\<lambda>p. rp_page (rf_page st p)) (\<Union>n \<in> F. set (pg n))"

definition files_inv :: "fs \<Rightarrow> nat set \<Rightarrow> (nat \<Rightarrow> nat set) \<Rightarrow> (page_ptr \<times> nat) set \<Rightarrow> nat set \<Rightarrow> bool" where
  "files_inv st K live P F \<longleftrightarrow> (\<exists>pg. pages_inv st K live P F pg)"

lemma pages_index: "pages_inv st K live P F pg \<Longrightarrow> n \<in> F \<Longrightarrow> by_int.index (pkey st) (rf_page_links st) (fn_pages (fs_node st n)) (pg n)"
  by (simp add: pages_inv_def)

lemma lookup_page_cases:
  assumes "pages_inv st K live P F pg" and "n \<in> F"
  shows "(\<exists>rp par pl. ramfs_lookup_page n idx st = Some (rp, par, pl) \<and> rp \<in> set (pg n) \<and> rp \<noteq> 0 \<and> rp_index (rf_page st rp) = idx) \<or>
    (\<exists>par pl. ramfs_lookup_page n idx st = Some (0, par, pl) \<and> int idx \<notin> pkey st ` set (pg n))"
proof -
  note ix = pages_index [OF assms]
  obtain rp par pl where r: "ramfs_lookup_page n idx st = Some (rp, par, pl)"
    using by_int.find_returns [OF ix, of "int idx"] unfolding ramfs_lookup_page_def by blast
  show ?thesis
  proof (cases "rp = 0")
    case True
    then show ?thesis using by_int.find_miss [OF ix, of "int idx"] r unfolding ramfs_lookup_page_def by blast
  next
    case False
    then show ?thesis using by_int.find_hit [OF ix _ _ False, of "int idx"] r unfolding ramfs_lookup_page_def by fastforce
  qed
qed

lemma file_byte_page:
  assumes "pages_inv st K live P F pg" and "n \<in> F" and "p \<in> set (pg n)" and "rp_index (rf_page st p) = i div 4096"
  shows "file_byte st n i = fs_data st (rp_page (rf_page st p)) (i mod 4096)"
proof -
  note ix = pages_index [OF assms(1,2)]
  have "\<exists>par pl. ramfs_lookup_page n (i div 4096) st = Some (p, par, pl)"
    using by_int.find_present [OF ix assms(3), of "int (i div 4096)"] assms(4) unfolding ramfs_lookup_page_def by simp
  moreover have "p \<noteq> 0" using by_int.index_nonzero [OF ix] assms(3) by metis
  ultimately show ?thesis by (auto simp: file_byte_def)
qed

lemma file_byte_hole:
  assumes "pages_inv st K live P F pg" and "n \<in> F" and "int (i div 4096) \<notin> pkey st ` set (pg n)"
  shows "file_byte st n i = 0"
  using lookup_page_cases [OF assms(1,2), of "i div 4096"] assms(3) by (auto simp: file_byte_def image_iff)

text \<open>Two states whose files have the same pages with the same data have the same contents.\<close>

lemma file_byte_cong:
  assumes "pages_inv st K live P F pg" "pages_inv st' K' live' P' F pg'" and "n \<in> F" and "set (pg' n) = set (pg n)"
    and "\<And>p. p \<in> set (pg n) \<Longrightarrow> rf_page st' p = rf_page st p \<and> fs_data st' (rp_page (rf_page st p)) = fs_data st (rp_page (rf_page st p))"
  shows "file_byte st' n i = file_byte st n i"
proof (cases "int (i div 4096) \<in> pkey st ` set (pg n)")
  case True
  then obtain p where p: "p \<in> set (pg n)" "rp_index (rf_page st p) = i div 4096" by auto
  then show ?thesis using file_byte_page [OF assms(1,3) p] file_byte_page [OF assms(2,3), of p i] assms(4,5) by simp
next
  case False
  then have "int (i div 4096) \<notin> pkey st' ` set (pg' n)" using assms(4,5) by auto
  then show ?thesis using file_byte_hole [OF assms(1,3) False] file_byte_hole [OF assms(2,3)] by simp
qed

section \<open>Getting a page\<close>

abbreviation no_pages :: "fs \<Rightarrow> bool" where
  "no_pages st \<equiv> out_of_pages (k_mem (fs_kmem st))"

lemma cache_alloc_ok:
  assumes "kmem_inv P (fs_kmem st) K live" and "c \<in> K"
  shows "\<exists>p k. cache_alloc c st = Some (p, st\<lparr>fs_kmem := k\<rparr>) \<and>
    (if p = 0 then no_pages st \<and> out_of_pages (k_mem k) \<and> kmem_inv P k K live else p \<notin> live c \<and> kmem_inv P k K (live(c := insert p (live c))))"
proof -
  obtain p k where a: "kmem_cache_alloc c (fs_kmem st) = Some (p, k)"
    "if p = 0 then no_pages st \<and> out_of_pages (k_mem k) \<and> kmem_inv P k K live else p \<notin> live c \<and> kmem_inv P k K (live(c := insert p (live c)))"
    using small_caches.alloc_spec [OF assms] by blast
  then have "cache_alloc c st = Some (p, st\<lparr>fs_kmem := k\<rparr>)" by (simp add: cache_alloc_def)
  then show ?thesis using a(2) by blast
qed

lemma cache_free_ok:
  assumes "kmem_inv P (fs_kmem st) K live" and "c \<in> K" and "p \<in> live c"
  shows "\<exists>k. cache_free c p st = Some (st\<lparr>fs_kmem := k\<rparr>) \<and> kmem_inv P k K (live(c := live c - {p})) \<and> (no_pages st \<longrightarrow> out_of_pages (k_mem k))"
  using small_caches.free_spec [OF assms] by (auto simp: cache_free_def)

lemma ramfs_alloc_page_ok:
  assumes "kmem_inv P (fs_kmem st) K live" and "ramfs_page_cache st \<in> K"
  defines "pc \<equiv> ramfs_page_cache st"
  shows "\<exists>rp st' k. ramfs_alloc_page idx st = Some (rp, st') \<and>
    (if rp = 0 then st' = st\<lparr>fs_kmem := k\<rparr> \<and> kmem_inv P k K live \<and> (no_pages st \<or> no_pages st')
     else \<exists>p. st' = st\<lparr>fs_kmem := k, fs_data := (fs_data st)(p := \<lambda>_. 0), rf_page := (rf_page st)(rp := \<lparr>rp_page = p, rp_index = idx\<rparr>)\<rparr> \<and>
       rp \<notin> live pc \<and> (p, 0) \<notin> P \<and> kmem_inv (insert (p, 0) P) k K (live(pc := insert rp (live pc))))"
proof -
  obtain rp k1 where a: "cache_alloc pc st = Some (rp, st\<lparr>fs_kmem := k1\<rparr>)"
    "if rp = 0 then no_pages st \<and> out_of_pages (k_mem k1) \<and> kmem_inv P k1 K live else rp \<notin> live pc \<and> kmem_inv P k1 K (live(pc := insert rp (live pc)))"
    using cache_alloc_ok [OF assms(1,2)] unfolding pc_def by blast
  show ?thesis
  proof (cases "rp = 0")
    case True
    then show ?thesis using a by (auto simp: ramfs_alloc_page_def pc_def)
  next
    case False
    let ?live = "live(pc := insert rp (live pc))"
    have inv1: "kmem_inv P k1 K ?live" and new: "rp \<notin> live pc" using a(2) False by auto
    obtain r k2 where b: "heap_alloc_pages 0 k1 = Some (r, k2)"
      "case r of None \<Rightarrow> k2 = k1 \<and> out_of_pages (k_mem k1) | Some p \<Rightarrow> (p, 0) \<notin> P \<and> kmem_inv (insert (p, 0) P) k2 K ?live"
      using heap_alloc_pages_ok [OF inv1, of 0] by (auto simp: BUDDY_ORDERS_def split: option.splits)
    show ?thesis
    proof (cases r)
      case None
      have "?live(pc := ?live pc - {rp}) = live" using new by auto
      then obtain k3 where "cache_free pc rp (st\<lparr>fs_kmem := k1\<rparr>) = Some (st\<lparr>fs_kmem := k3\<rparr>)" "kmem_inv P k3 K live"
        "out_of_pages (k_mem k1) \<longrightarrow> out_of_pages (k_mem k3)"
        using cache_free_ok [of P "st\<lparr>fs_kmem := k1\<rparr>" K ?live pc rp] inv1 assms(2) by (auto simp: pc_def)
      then show ?thesis using a(1) b None False by (auto simp: ramfs_alloc_page_def pc_def)
    next
      case (Some p)
      let ?st = "st\<lparr>fs_kmem := k2, fs_data := (fs_data st)(p := \<lambda>_. 0), rf_page := (rf_page st)(rp := \<lparr>rp_page = p, rp_index = idx\<rparr>)\<rparr>"
      have "ramfs_alloc_page idx st = Some (rp, ?st)"
        using a(1) b(1) Some False by (simp add: ramfs_alloc_page_def pc_def Let_def)
      moreover have "(p, 0) \<notin> P" "kmem_inv (insert (p, 0) P) k2 K ?live" using b(2) Some by auto
      ultimately show ?thesis using new
        by (intro exI [of _ rp] exI [of _ ?st] exI [of _ k2] conjI) (assumption, subst if_not_P [OF False], blast)
    qed
  qed
qed

lemma ramfs_get_page_ok:
  assumes inv: "pages_inv st K live P F pg" and n: "n \<in> F"
  shows "\<exists>rp st'. ramfs_get_page n idx st = Some (rp, st') \<and>
    (if rp = 0 then \<exists>k. st' = st\<lparr>fs_kmem := k\<rparr> \<and> pages_inv st' K live P F pg \<and> (no_pages st \<or> no_pages st')
     else \<exists>live' P' pg'. pages_inv st' K live' P' F pg' \<and> rp \<in> set (pg' n) \<and> rp_index (rf_page st' rp) = idx \<and>
       (\<forall>m \<in> F. \<forall>i. file_byte st' m i = file_byte st m i) \<and>
       (\<forall>m. fs_node st' m = (fs_node st m)\<lparr>fn_pages := fn_pages (fs_node st' m)\<rparr>) \<and>
       (\<forall>m. m \<noteq> n \<longrightarrow> fs_node st' m = fs_node st m))"
proof (cases "int idx \<in> pkey st ` set (pg n)")
  case True
  then obtain rp par pl where "ramfs_lookup_page n idx st = Some (rp, par, pl)" "rp \<in> set (pg n)" "rp \<noteq> 0" "rp_index (rf_page st rp) = idx"
    using lookup_page_cases [OF inv n, of idx] by blast
  then show ?thesis using inv by (auto simp: ramfs_get_page_def intro!: exI [of _ live] exI [of _ P] exI [of _ pg])
next
  case False
  let ?pc = "ramfs_page_cache st"
  note ix = pages_index [OF inv n]
  obtain par pl where f: "ramfs_lookup_page n idx st = Some (0, par, pl)"
    "\<forall>r key'. r \<noteq> 0 \<longrightarrow> r \<notin> set (pg n) \<longrightarrow> key' r = int idx \<longrightarrow> (\<forall>m \<in> set (pg n). key' m = pkey st m) \<longrightarrow>
      (\<exists>h' root' ns'. rb_insert r (rb_link r par pl (rf_page_links st, fn_pages (fs_node st n))) = Some (h', root') \<and>
        by_int.index key' h' root' ns' \<and> set ns' = insert r (set (pg n)) \<and> same_out (insert r (set (pg n))) (rf_page_links st) h')"
    using by_int.find_absent [OF ix False] unfolding ramfs_lookup_page_def by blast
  have kinv: "kmem_inv P (fs_kmem st) K live" and pcK: "?pc \<in> K" using inv by (simp_all add: pages_inv_def)
  obtain rp st1 k where a: "ramfs_alloc_page idx st = Some (rp, st1)"
    "if rp = 0 then st1 = st\<lparr>fs_kmem := k\<rparr> \<and> kmem_inv P k K live \<and> (no_pages st \<or> no_pages st1)
     else \<exists>p. st1 = st\<lparr>fs_kmem := k, fs_data := (fs_data st)(p := \<lambda>_. 0), rf_page := (rf_page st)(rp := \<lparr>rp_page = p, rp_index = idx\<rparr>)\<rparr> \<and>
       rp \<notin> live ?pc \<and> (p, 0) \<notin> P \<and> kmem_inv (insert (p, 0) P) k K (live(?pc := insert rp (live ?pc)))"
    using ramfs_alloc_page_ok [OF kinv pcK, of idx] by blast
  show ?thesis
  proof (cases "rp = 0")
    case True
    then have "st1 = st\<lparr>fs_kmem := k\<rparr>" "kmem_inv P k K live" "no_pages st \<or> no_pages st1" using a(2) by auto
    moreover from this have "pages_inv st1 K live P F pg" using inv by (simp add: pages_inv_def)
    ultimately show ?thesis using f(1) a(1) True by (auto simp: ramfs_get_page_def)
  next
    case rp: False
    then obtain p where st1: "st1 = st\<lparr>fs_kmem := k, fs_data := (fs_data st)(p := \<lambda>_. 0), rf_page := (rf_page st)(rp := \<lparr>rp_page = p, rp_index = idx\<rparr>)\<rparr>"
      and new: "rp \<notin> live ?pc" "(p, 0) \<notin> P" and k: "kmem_inv (insert (p, 0) P) k K (live(?pc := insert rp (live ?pc)))" using a(2) by auto
    have nin: "rp \<notin> set (pg m)" if "m \<in> F" for m using inv new(1) that by (auto simp: pages_inv_def)
    have pold: "rp_page (rf_page st q) \<noteq> p" if "m \<in> F" "q \<in> set (pg m)" for m q using inv new(2) that by (auto simp: pages_inv_def)
    have key: "pkey st1 m = pkey st m" if "m \<in> set (pg n)" for m using that nin [OF n] by (auto simp: st1)
    obtain h' root' ns' where r: "rb_insert rp (rb_link rp par pl (rf_page_links st, fn_pages (fs_node st n))) = Some (h', root')"
      "by_int.index (pkey st1) h' root' ns'" "set ns' = insert rp (set (pg n))" "same_out (insert rp (set (pg n))) (rf_page_links st) h'"
      using f(2) [rule_format, of rp "pkey st1"] rp nin [OF n] key by (auto simp: st1)
    define st2 where "st2 = upd_node n (fn_pages_update (\<lambda>_. root')) (st1\<lparr>rf_page_links := h'\<rparr>)"
    let ?pg = "pg(n := ns')" and ?live = "live(?pc := insert rp (live ?pc))"
    have call: "ramfs_get_page n idx st = Some (rp, st2)"
      using f(1) a(1) rp r(1) by (simp add: ramfs_get_page_def st2_def st1)
    have old_page: "rf_page st2 q = rf_page st q" if "m \<in> F" "q \<in> set (pg m)" for m q using nin that by (auto simp: st2_def st1)
    have "by_int.index (pkey st2) (rf_page_links st2) (fn_pages (fs_node st2 m)) (?pg m)" if m: "m \<in> F" for m
    proof (cases "m = n")
      case True
      then show ?thesis using r(2) by (simp add: st2_def)
    next
      case False
      have "insert rp (set (pg n)) \<inter> set (pg m) = {}" using inv n m False nin [OF m] by (auto simp: pages_inv_def)
      from by_int.index_frame [OF pages_index [OF inv m] r(4) this]
      have "by_int.index (pkey st2) h' (fn_pages (fs_node st m)) (pg m)"
        by (rule by_int.index_key_cong) (use old_page [OF m] in simp)
      then show ?thesis using False by (simp add: st2_def st1)
    qed
    moreover have "inj_on (\<lambda>p. rp_page (rf_page st2 p)) (\<Union>m \<in> F. set (?pg m))"
    proof -
      have U: "(\<Union>m \<in> F. set (?pg m)) = insert rp (\<Union>m \<in> F. set (pg m))" using n r(3) by (auto split: if_splits)
      have "inj_on (\<lambda>q. rp_page (rf_page st2 q)) (\<Union>m \<in> F. set (pg m)) \<longleftrightarrow> inj_on (\<lambda>q. rp_page (rf_page st q)) (\<Union>m \<in> F. set (pg m))"
        by (rule inj_on_cong) (use old_page in auto)
      then have "inj_on (\<lambda>q. rp_page (rf_page st2 q)) (\<Union>m \<in> F. set (pg m))" using inv by (simp add: pages_inv_def)
      moreover have "rp_page (rf_page st2 rp) = p" by (simp add: st2_def st1)
      moreover have "p \<notin> (\<lambda>q. rp_page (rf_page st2 q)) ` (\<Union>m \<in> F. set (pg m))" using pold old_page by fastforce
      ultimately show ?thesis unfolding U by (auto simp: inj_on_insert)
    qed
    moreover have "\<forall>m \<in> F. set (?pg m) \<subseteq> ?live ?pc" using inv r(3) by (auto simp: pages_inv_def)
    moreover have "\<forall>m \<in> F. \<forall>m' \<in> F. m \<noteq> m' \<longrightarrow> set (?pg m) \<inter> set (?pg m') = {}" using inv r(3) nin n by (auto simp: pages_inv_def)
    moreover have "\<forall>m \<in> F. \<forall>q \<in> set (?pg m). (rp_page (rf_page st2 q), 0) \<in> insert (p, 0) P"
    proof (intro ballI)
      fix m q assume m: "m \<in> F" "q \<in> set (?pg m)"
      show "(rp_page (rf_page st2 q), 0) \<in> insert (p, 0) P"
      proof (cases "q = rp")
        case True
        then show ?thesis by (simp add: st2_def st1)
      next
        case False
        then have "q \<in> set (pg m)" using m r(3) by (auto split: if_splits)
        then show ?thesis using inv m(1) old_page by (auto simp: pages_inv_def)
      qed
    qed
    moreover have "ramfs_page_cache st2 = ?pc" "fs_kmem st2 = k" by (simp_all add: st2_def st1)
    ultimately have inv2: "pages_inv st2 K ?live (insert (p, 0) P) F ?pg" unfolding pages_inv_def using k pcK by simp
    have bytes: "file_byte st2 m i = file_byte st m i" if m: "m \<in> F" for m i
    proof (cases "int (i div 4096) \<in> pkey st2 ` set (?pg m)")
      case False
      then have "int (i div 4096) \<notin> pkey st ` set (pg m)" using r(3) old_page [OF m] by (auto split: if_splits)
      then show ?thesis using file_byte_hole [OF inv2 m False] file_byte_hole [OF inv m] by simp
    next
      case True
      then obtain q where q: "q \<in> set (?pg m)" "rp_index (rf_page st2 q) = i div 4096" by auto
      show ?thesis
      proof (cases "q = rp")
        case True
        then have mn: "m = n" "idx = i div 4096" using q nin [OF m] by (auto simp: st2_def st1 split: if_splits)
        then show ?thesis using file_byte_page [OF inv2 m q] file_byte_hole [OF inv m] \<open>int idx \<notin> _\<close> True
          by (simp add: st2_def st1)
      next
        case False
        then have qo: "q \<in> set (pg m)" using q(1) r(3) by (auto split: if_splits)
        then show ?thesis using file_byte_page [OF inv2 m q] file_byte_page [OF inv m qo, of i] q(2) old_page [OF m qo] pold [OF m qo]
          by (simp add: st2_def st1)
      qed
    qed
    have "rp \<in> set (?pg n)" "rp_index (rf_page st2 rp) = idx" using r(3) by (simp_all add: st2_def st1)
    moreover have "\<forall>m. fs_node st2 m = (fs_node st m)\<lparr>fn_pages := fn_pages (fs_node st2 m)\<rparr>" "\<forall>m. m \<noteq> n \<longrightarrow> fs_node st2 m = fs_node st m"
      by (simp_all add: st2_def st1)
    ultimately show ?thesis using call rp inv2 bytes by (intro exI [of _ rp] exI [of _ st2]) (simp only: if_False simp_thms, blast)
  qed
qed

section \<open>Reading and writing\<close>

lemma i32_small: "0 \<le> x \<Longrightarrow> x < 2 ^ 31 \<Longrightarrow> i32 x = x"
  by (simp add: i32_def signed_of_int signed_take_bit_int_eq_self)

lemma pages_inv_node:
  assumes "pages_inv st K live P F pg" and "\<And>m. fn_pages (fs_node st' m) = fn_pages (fs_node st m)" and "rf_page st' = rf_page st"
    "rf_page_links st' = rf_page_links st" "fs_kmem st' = fs_kmem st" "ramfs_page_cache st' = ramfs_page_cache st"
  shows "pages_inv st' K live P F pg"
  using assms by (simp add: pages_inv_def)

lemma file_byte_node:
  assumes "\<And>m. fn_pages (fs_node st' m) = fn_pages (fs_node st m)" and "rf_page st' = rf_page st"
    "rf_page_links st' = rf_page_links st" "fs_data st' = fs_data st"
  shows "file_byte st' n i = file_byte st n i"
proof -
  have "ramfs_lookup_page n k st' = ramfs_lookup_page n k st" for k using assms by (simp add: ramfs_lookup_page_def)
  then show ?thesis unfolding file_byte_def assms(2,4) by simp
qed

text \<open>Storing bytes in one page of a file.\<close>

lemma file_byte_store:
  assumes inv: "pages_inv st K live P F pg" and n: "n \<in> F" and rp: "rp \<in> set (pg n)" "rp_index (rf_page st rp) = idx"
    and off: "off + length bs \<le> 4096" and m: "m \<in> F"
  defines "st' \<equiv> st\<lparr>fs_data := (fs_data st)(rp_page (rf_page st rp) := page_write off bs (fs_data st (rp_page (rf_page st rp))))\<rparr>"
  shows "file_byte st' m i =
    (if m = n \<and> idx * 4096 + off \<le> i \<and> i < idx * 4096 + off + length bs then bs ! (i - (idx * 4096 + off)) else file_byte st m i)"
proof -
  have inv': "pages_inv st' K live P F pg" by (rule pages_inv_node [OF inv]) (simp_all add: st'_def)
  let ?in = "m = n \<and> idx * 4096 + off \<le> i \<and> i < idx * 4096 + off + length bs"
  show ?thesis
  proof (cases "int (i div 4096) \<in> pkey st ` set (pg m)")
    case False
    have "\<not> ?in"
    proof
      assume i: ?in
      then have "i div 4096 = idx" using off by (intro div_nat_eqI) simp_all
      then have "int (i div 4096) = pkey st rp" using rp(2) by simp
      then show False using False rp(1) i by (metis image_eqI)
    qed
    moreover have "int (i div 4096) \<notin> pkey st' ` set (pg m)" using False by (simp add: st'_def)
    ultimately show ?thesis using file_byte_hole [OF inv m False] file_byte_hole [OF inv' m] by (simp only: if_False)
  next
    case True
    then obtain q where q: "q \<in> set (pg m)" "rp_index (rf_page st q) = i div 4096" by auto
    have byte: "file_byte st m i = fs_data st (rp_page (rf_page st q)) (i mod 4096)" by (rule file_byte_page [OF inv m q])
    have byte': "file_byte st' m i = fs_data st' (rp_page (rf_page st q)) (i mod 4096)"
      using file_byte_page [OF inv' m q(1)] q(2) by (simp add: st'_def)
    show ?thesis
    proof (cases "q = rp")
      case True
      have "n \<noteq> m \<longrightarrow> set (pg n) \<inter> set (pg m) = {}" using inv n m by (simp add: pages_inv_def)
      then have mn: "m = n" using q(1) rp(1) True by blast
      have i: "i = idx * 4096 + i mod 4096" using q(2) rp(2) True by (metis div_mod_decomp)
      have e: "i mod 4096 - off = i - (idx * 4096 + off)" "off \<le> i mod 4096 \<longleftrightarrow> idx * 4096 + off \<le> i"
        "i mod 4096 < off + length bs \<longleftrightarrow> i < idx * 4096 + off + length bs" using i by linarith+
      show ?thesis using byte byte' mn True by (simp add: st'_def page_write_def e)
    next
      case False
      have "rp_page (rf_page st q) \<noteq> rp_page (rf_page st rp)"
        using inv n m q(1) rp(1) False by (auto simp: pages_inv_def inj_on_def)
      moreover have "\<not> ?in"
      proof
        assume i: ?in
        then have "i div 4096 = idx" using off by (intro div_nat_eqI) simp_all
        then have "pkey st q = pkey st rp" using q(2) rp(2) by simp
        then show False using by_int.index_inj [OF pages_index [OF inv n]] q(1) rp(1) i False by blast
      qed
      ultimately show ?thesis using byte byte' by (auto simp: st'_def)
    qed
  qed
qed

lemma ramfs_write_ok:
  assumes inv: "files_inv st K live P F" and n: "ff_node file \<in> F" and mux: "\<not> fn_mux (fs_node st (ff_node file))"
    and off: "0 \<le> ff_offset file" "ff_offset file + int (length data) < 2 ^ 31"
  defines "node \<equiv> ff_node file" and "o1 \<equiv> nat (ff_offset file)"
  defines "sz \<equiv> min (4096 - o1 mod 4096) (length data)"
  shows "\<exists>r file' st' live' P'. ramfs_write file data st = Some (r, file', st') \<and> files_inv st' K live' P' F \<and>
    (\<forall>m. fn_mux (fs_node st' m) = fn_mux (fs_node st m)) \<and>
    (if r = - ENOMEM then (no_pages st \<or> no_pages st') \<and> file' = file \<and> (\<forall>m. fn_size (fs_node st' m) = fn_size (fs_node st m)) \<and>
       (\<forall>m \<in> F. \<forall>i. file_byte st' m i = file_byte st m i)
     else r = int sz \<and> file' = file\<lparr>ff_offset := ff_offset file + int sz\<rparr> \<and>
       (\<forall>m. fn_size (fs_node st' m) = (if m = node then max (ff_offset file') (fn_size (fs_node st m)) else fn_size (fs_node st m))) \<and>
       (\<forall>m \<in> F. \<forall>i. file_byte st' m i = (if m = node \<and> o1 \<le> i \<and> i < o1 + sz then data ! (i - o1) else file_byte st m i)))"
proof -
  obtain pg where inv: "pages_inv st K live P F pg" using inv by (auto simp: files_inv_def)
  define st0 where "st0 = upd_node node (fn_mux_update (\<lambda>_. True)) st"
  have st0: "\<And>m. fn_pages (fs_node st0 m) = fn_pages (fs_node st m)" "rf_page st0 = rf_page st" "rf_page_links st0 = rf_page_links st"
    "fs_kmem st0 = fs_kmem st" "ramfs_page_cache st0 = ramfs_page_cache st" "fs_data st0 = fs_data st"
    by (simp_all add: st0_def)
  have inv0: "pages_inv st0 K live P F pg" by (rule pages_inv_node [OF inv st0(1-5)])
  have lock: "node_lock node st = Some st0" using mux by (simp add: node_lock_def st0_def node_def)
  have node: "node \<in> F" using n by (simp add: node_def)
  have b0: "file_byte st0 m i = file_byte st m i" for m i by (rule file_byte_node [OF st0(1-3,6)])
  obtain rp st1 where g: "ramfs_get_page node (o1 div 4096) st0 = Some (rp, st1)"
    "if rp = 0 then \<exists>k. st1 = st0\<lparr>fs_kmem := k\<rparr> \<and> pages_inv st1 K live P F pg \<and> (no_pages st0 \<or> no_pages st1)
     else \<exists>live' P' pg'. pages_inv st1 K live' P' F pg' \<and> rp \<in> set (pg' node) \<and> rp_index (rf_page st1 rp) = o1 div 4096 \<and>
       (\<forall>m \<in> F. \<forall>i. file_byte st1 m i = file_byte st0 m i) \<and>
       (\<forall>m. fs_node st1 m = (fs_node st0 m)\<lparr>fn_pages := fn_pages (fs_node st1 m)\<rparr>) \<and>
       (\<forall>m. m \<noteq> node \<longrightarrow> fs_node st1 m = fs_node st0 m)"
    using ramfs_get_page_ok [OF inv0 node, of "o1 div 4096"] by blast
  show ?thesis
  proof (cases "rp = 0")
    case True
    then obtain k where st1: "st1 = st0\<lparr>fs_kmem := k\<rparr>" and inv1: "pages_inv st1 K live P F pg" and np: "no_pages st0 \<or> no_pages st1"
      using g(2) by auto
    let ?st = "node_unlock node st1"
    have call: "ramfs_write file data st = Some (- ENOMEM, file, ?st)"
      using lock g(1) True unfolding node_def o1_def by (simp add: ramfs_write_def)
    have "files_inv ?st K live P F"
      unfolding files_inv_def by (rule exI [of _ pg], rule pages_inv_node [OF inv1]) (simp_all add: node_unlock_def)
    moreover have "file_byte ?st m i = file_byte st m i" for m i
      by (rule file_byte_node) (simp_all add: node_unlock_def st1 st0)
    moreover have "no_pages st \<or> no_pages ?st" using np by (simp add: node_unlock_def st0)
    moreover have "fn_mux (fs_node ?st m) = fn_mux (fs_node st m)" "fn_size (fs_node ?st m) = fn_size (fs_node st m)" for m
      using mux by (simp_all add: node_unlock_def st1 st0_def node_def)
    ultimately show ?thesis using call by (intro exI [of _ "- ENOMEM"] exI [of _ "file"] exI [of _ ?st] exI [of _ live] exI [of _ P]) simp
  next
    case False
    then obtain live' P' pg' where inv1: "pages_inv st1 K live' P' F pg'" and rp: "rp \<in> set (pg' node)" "rp_index (rf_page st1 rp) = o1 div 4096"
      and b1: "\<forall>m \<in> F. \<forall>i. file_byte st1 m i = file_byte st0 m i"
      and nd: "\<forall>m. fs_node st1 m = (fs_node st0 m)\<lparr>fn_pages := fn_pages (fs_node st1 m)\<rparr>" using g(2) by auto
    let ?page = "rp_page (rf_page st1 rp)" and ?file = "file\<lparr>ff_offset := ff_offset file + int sz\<rparr>"
    define st2 where "st2 = st1\<lparr>fs_data := (fs_data st1)(?page := page_write (o1 mod 4096) (take sz data) (fs_data st1 ?page))\<rparr>"
    define st3 where "st3 = node_unlock node (upd_node node (\<lambda>n. n\<lparr>fn_size := MAX_s (ff_offset file + int sz) (fn_size n)\<rparr>) st2)"
    have i32: "i32 (ff_offset file + int sz) = ff_offset file + int sz" by (rule i32_small) (use off in \<open>simp_all add: sz_def\<close>)
    have call: "ramfs_write file data st = Some (int sz, ?file, st3)"
      unfolding ramfs_write_def Let_def node_def [symmetric] o1_def [symmetric] lock
      using g(1) False i32 by (simp add: st3_def st2_def sz_def min.commute)
    have inv2: "pages_inv st2 K live' P' F pg'" by (rule pages_inv_node [OF inv1]) (simp_all add: st2_def)
    have inv3: "files_inv st3 K live' P' F"
      unfolding files_inv_def by (rule exI [of _ pg'], rule pages_inv_node [OF inv2]) (simp_all add: st3_def node_unlock_def)
    have len: "length (take sz data) = sz" "o1 mod 4096 + sz \<le> 4096" by (simp_all add: sz_def)
    have "o1 div 4096 * 4096 + o1 mod 4096 = o1" by (rule div_mult_mod_eq)
    then have b2: "file_byte st2 m i = (if m = node \<and> o1 \<le> i \<and> i < o1 + sz then data ! (i - o1) else file_byte st m i)" if "m \<in> F" for m i
      using file_byte_store [OF inv1 node rp, of "o1 mod 4096" "take sz data" m i] that len b1 b0 unfolding st2_def by auto
    have b3: "file_byte st3 m i = file_byte st2 m i" for m i
      by (rule file_byte_node) (simp_all add: st3_def node_unlock_def)
    have nodes: "fn_mux (fs_node st3 m) = fn_mux (fs_node st m)"
      "fn_size (fs_node st3 m) = (if m = node then max (ff_offset ?file) (fn_size (fs_node st m)) else fn_size (fs_node st m))" for m
      using arg_cong [OF nd [rule_format, of m], of fn_mux] arg_cong [OF nd [rule_format, of m], of fn_size] mux
      by (auto simp: st3_def st2_def st0_def node_unlock_def node_def MAX_s_def max_def)
    show ?thesis
      using call inv3 b2 b3 nodes by (intro exI [of _ "int sz"] exI [of _ ?file] exI [of _ st3] exI [of _ live'] exI [of _ P']) simp
  qed
qed

lemma mutex_same:
  assumes "\<not> fn_mux (fs_node st n)"
  shows "node_unlock n (upd_node n (fn_mux_update (\<lambda>_. True)) st) = st"
proof -
  have "(fs_node st n)\<lparr>fn_mux := False\<rparr> = fs_node st n" using assms by (cases "fs_node st n") simp
  then show ?thesis by (simp add: node_unlock_def upd_node_def)
qed

lemma page_offset:
  fixes o1 j :: nat
  assumes "o1 mod 4096 + j < 4096"
  shows "(o1 + j) div 4096 = o1 div 4096" "(o1 + j) mod 4096 = o1 mod 4096 + j"
proof -
  have "(o1 + j) mod 4096 = (o1 mod 4096 + j) mod 4096" by (simp only: mod_add_left_eq)
  then show "(o1 + j) mod 4096 = o1 mod 4096 + j" using assms by simp
  show "(o1 + j) div 4096 = o1 div 4096"
    using assms mult_div_mod_eq [of 4096 o1] by (intro div_nat_eqI) (simp, unfold mult_Suc_right, linarith)
qed

lemma ramfs_read_ok:
  fixes sz :: nat
  assumes inv: "files_inv st K live P F" and n: "ff_node file \<in> F" and mux: "\<not> fn_mux (fs_node st (ff_node file))"
    and off: "0 \<le> ff_offset file" and bound: "fn_size (fs_node st (ff_node file)) < 2 ^ 31"
  defines "node \<equiv> ff_node file" and "o1 \<equiv> nat (ff_offset file)"
  defines "sz' \<equiv> min (min (4096 - o1 mod 4096) sz) (nat (fn_size (fs_node st node)) - o1)"
  shows "ramfs_read file sz st = Some (int sz', map (file_byte st node) [o1..<o1 + sz'], file\<lparr>ff_offset := ff_offset file + int sz'\<rparr>, st)"
proof -
  obtain pg where inv: "pages_inv st K live P F pg" using inv by (auto simp: files_inv_def)
  define st0 where "st0 = upd_node node (fn_mux_update (\<lambda>_. True)) st"
  have lock: "node_lock node st = Some st0" using mux by (simp add: node_lock_def st0_def node_def)
  have unlock: "node_unlock node st0 = st" using mutex_same [OF mux] by (simp add: st0_def node_def)
  have node: "node \<in> F" using n by (simp add: node_def)
  show ?thesis
  proof (cases "fn_size (fs_node st node) \<le> ff_offset file")
    case True
    then have "sz' = 0" "fn_size (fs_node st0 node) \<le> ff_offset file" by (simp_all add: sz'_def o1_def st0_def)
    then show ?thesis using lock unlock by (simp add: ramfs_read_def node_def)
  next
    case False
    have "sz' \<le> nat (fn_size (fs_node st node)) - o1" by (simp add: sz'_def)
    then have "ff_offset file + int sz' < 2 ^ 31" using off bound False unfolding o1_def node_def by linarith
    then have i32: "i32 (ff_offset file + int sz') = ff_offset file + int sz'" using off by (intro i32_small) simp_all
    have sz': "nat (fn_size (fs_node st0 node) - ff_offset file) = nat (fn_size (fs_node st node)) - o1"
      using off by (simp add: st0_def o1_def nat_diff_distrib)
    have F0: "\<not> fn_size (fs_node st0 node) \<le> ff_offset file" using False by (simp add: st0_def)
    obtain rp par pl where l: "ramfs_lookup_page node (o1 div 4096) st = Some (rp, par, pl)"
      "if rp \<noteq> 0 then rp \<in> set (pg node) \<and> rp_index (rf_page st rp) = o1 div 4096 else int (o1 div 4096) \<notin> pkey st ` set (pg node)"
      using lookup_page_cases [OF inv node, of "o1 div 4096"] by auto
    have l0: "ramfs_lookup_page node (o1 div 4096) st0 = Some (rp, par, pl)"
      using l(1) by (simp add: ramfs_lookup_page_def st0_def)
    let ?data = "if rp \<noteq> 0 then map (\<lambda>i. fs_data st0 (rp_page (rf_page st0 rp)) (o1 mod 4096 + i)) [0..<sz'] else replicate sz' 0"
    have data: "?data = map (file_byte st node) [o1..<o1 + sz']"
    proof (rule nth_equalityI)
      fix j assume "j < length ?data"
      then have j: "j < sz'" by (simp split: if_splits)
      then have "o1 mod 4096 + j < 4096" by (simp add: sz'_def) linarith
      note q = page_offset [OF this]
      show "?data ! j = map (file_byte st node) [o1..<o1 + sz'] ! j"
        using l(2) j file_byte_page [OF inv node, of rp "o1 + j"] file_byte_hole [OF inv node, of "o1 + j"] by (auto simp: q st0_def)
    qed simp
    have "ramfs_read file sz st = Some (int sz', ?data, file\<lparr>ff_offset := i32 (ff_offset file + int sz')\<rparr>, node_unlock node st0)"
      unfolding ramfs_read_def Let_def node_def [symmetric] o1_def [symmetric] lock
      using l0 F0 by (simp add: sz' sz'_def cong: if_cong)
    then show ?thesis unfolding data i32 unlock .
  qed
qed

section \<open>The contract of files\<close>

definition sample_fnode :: fs_node where
  "sample_fnode = \<lparr>fn_mux = False, fn_ops = ramfs_file_node_ops, fn_fops = ramfs_file_ops, fn_refcount = 1, fn_size = 0, fn_children = 0, fn_pages = 0\<rparr>"

definition sample_links :: rb_heap where
  "sample_links = \<lparr>rb_left = (\<lambda>_. 0), rb_right = (\<lambda>_. 0), rb_parent = (\<lambda>_. 0), rb_color = (\<lambda>_. BLACK)\<rparr>"

definition sample_fs :: fs where
  "sample_fs = \<lparr>fs_kmem = kmem_small_cache_init 7 100 (2 ^ 4) sample_kmem, fs_node = (\<lambda>_. sample_fnode),
     rf_entry = (\<lambda>_. \<lparr>re_node = 0, re_name = []\<rparr>), rf_entry_links = sample_links,
     rf_page = (\<lambda>_. \<lparr>rp_page = (0, 0), rp_index = 0\<rparr>), rf_page_links = sample_links,
     fs_data = (\<lambda>_ _. 0), fs_entry = (\<lambda>_. \<lparr>fe_children = 0, fe_parent = 0, fe_node = 0, fe_name = [], fe_cached = False, fe_refcount = 0\<rparr>),
     fs_entry_links = sample_links, fs_type = (\<lambda>_. \<lparr>ft_name = [], ft_refcount = 0\<rparr>), fs_types = [],
     fs_mount = (\<lambda>_. \<lparr>fm_fs = 0, fm_root = 0, fm_name = []\<rparr>), fs_mounts = [], ramfs_node_cache = 7, ramfs_entry_cache = 7,
     ramfs_page_cache = 7, fs_entry_cache = 7, fs_root_node = 0, fs_root_entry = 0\<rparr>"

definition sample_file :: fs_file where
  "sample_file = \<lparr>ff_entry = 0, ff_node = 1, ff_ops = Some ramfs_file_ops, ff_offset = 4094\<rparr>"

lemma sample_files_inv: "files_inv sample_fs {7} (\<lambda>_. {}) {} {1}"
proof -
  have "pages_inv sample_fs {7} (\<lambda>_. {}) {} {1} (\<lambda>_. [])"
    using sample_cache_inv by_int.index_empty by (simp add: pages_inv_def sample_fs_def sample_fnode_def)
  then show ?thesis by (auto simp: files_inv_def)
qed

lemma sample_fnode_1 [simp]: "fs_node sample_fs 1 = sample_fnode" "fs_node sample_fs (Suc 0) = sample_fnode"
  by (simp_all add: sample_fs_def)

text \<open>C18: \<^verbatim>\<open>ramfs_write\<close> always returns with the mutex of the node released and the invariants of files, caches and page allocator kept. It either reports \<^verbatim>\<open>-ENOMEM\<close> and every file keeps its size and contents, which happens only when the page allocator has no free page before or after the call, or it stores the bytes up to the end of the page at the offset of the file, advances the offset by as many, extends the size of the file when the offset passes it, and changes no other byte of any file; a hole of the file reads as zero before and after.\<close>

theorem ramfs_write_correct:
  assumes "files_inv st K live P F" and "ff_node file \<in> F" and "\<not> fn_mux (fs_node st (ff_node file))"
    and "0 \<le> ff_offset file" and "ff_offset file + int (length data) < 2 ^ 31"
  defines "o1 \<equiv> nat (ff_offset file)"
  defines "sz \<equiv> min (4096 - o1 mod 4096) (length data)"
  shows "\<exists>r file' st' live' P'. ramfs_write file data st = Some (r, file', st') \<and> files_inv st' K live' P' F \<and>
    (\<forall>m. fn_mux (fs_node st' m) = fn_mux (fs_node st m)) \<and>
    (if r = - ENOMEM then (no_pages st \<or> no_pages st') \<and> file' = file \<and> (\<forall>m. fn_size (fs_node st' m) = fn_size (fs_node st m)) \<and>
       (\<forall>m \<in> F. \<forall>i. file_byte st' m i = file_byte st m i)
     else r = int sz \<and> file' = file\<lparr>ff_offset := ff_offset file + int sz\<rparr> \<and>
       (\<forall>m. fn_size (fs_node st' m) = (if m = ff_node file then max (ff_offset file') (fn_size (fs_node st m)) else fn_size (fs_node st m))) \<and>
       (\<forall>m \<in> F. \<forall>i. file_byte st' m i = (if m = ff_node file \<and> o1 \<le> i \<and> i < o1 + sz then data ! (i - o1) else file_byte st m i)))"
  using ramfs_write_ok [OF assms(1-5)] unfolding o1_def sz_def by blast

theorem ramfs_write_correct_witness:
  "\<exists>r file' st'. ramfs_write sample_file [1, 2, 3] sample_fs = Some (r, file', st') \<and>
     (r = - ENOMEM \<or> r = 2 \<and> ff_offset file' = 4096 \<and> file_byte st' 1 4094 = 1 \<and> file_byte st' 1 4095 = 2)"
proof -
  from ramfs_write_correct [OF sample_files_inv, of sample_file "[1, 2, 3]"]
  show ?thesis by (force simp: sample_file_def sample_fnode_def split: if_splits)
qed

text \<open>C19: \<^verbatim>\<open>ramfs_read\<close> always returns and changes no state of the file system: it gives the bytes of the file from the offset, up to the end of the page, the size asked for and the size of the file, with zeros for pages that were never written, and advances the offset by as many bytes.\<close>

theorem ramfs_read_correct:
  fixes sz :: nat
  assumes "files_inv st K live P F" and "ff_node file \<in> F" and "\<not> fn_mux (fs_node st (ff_node file))"
    and "0 \<le> ff_offset file" and "fn_size (fs_node st (ff_node file)) < 2 ^ 31"
  defines "o1 \<equiv> nat (ff_offset file)"
  defines "sz' \<equiv> min (min (4096 - o1 mod 4096) sz) (nat (fn_size (fs_node st (ff_node file))) - o1)"
  shows "ramfs_read file sz st =
    Some (int sz', map (file_byte st (ff_node file)) [o1..<o1 + sz'], file\<lparr>ff_offset := ff_offset file + int sz'\<rparr>, st)"
  using ramfs_read_ok [OF assms(1-5)] unfolding o1_def sz'_def .

theorem ramfs_read_correct_witness: "ramfs_read sample_file 10 sample_fs = Some (0, [], sample_file, sample_fs)"
  using ramfs_read_correct [OF sample_files_inv, of sample_file 10] by (simp add: sample_file_def sample_fnode_def)

text \<open>C20: What \<^verbatim>\<open>ramfs_write\<close> stored, \<^verbatim>\<open>ramfs_read\<close> gives back: when a write succeeds, a read of as many bytes at the offset the write started from returns exactly the bytes written.\<close>

theorem ramfs_write_read_roundtrip:
  assumes "files_inv st K live P F" and "ff_node file \<in> F" and "\<not> fn_mux (fs_node st (ff_node file))"
    and "0 \<le> ff_offset file" and "ff_offset file + int (length data) < 2 ^ 31" and "fn_size (fs_node st (ff_node file)) < 2 ^ 31"
    and "ramfs_write file data st = Some (r, file', st')" and "0 \<le> r"
  shows "ramfs_read file (nat r) st' = Some (r, take (nat r) data, file', st')"
proof -
  let ?o = "nat (ff_offset file)" and ?n = "ff_node file"
  let ?sz = "min (4096 - ?o mod 4096) (length data)"
  have "\<exists>live' P'. files_inv st' K live' P' F \<and>
    (\<forall>m. fn_mux (fs_node st' m) = fn_mux (fs_node st m)) \<and>
    (if r = - ENOMEM then (no_pages st \<or> no_pages st') \<and> file' = file \<and> (\<forall>m. fn_size (fs_node st' m) = fn_size (fs_node st m)) \<and>
       (\<forall>m \<in> F. \<forall>i. file_byte st' m i = file_byte st m i)
     else r = int ?sz \<and> file' = file\<lparr>ff_offset := ff_offset file + int ?sz\<rparr> \<and>
       (\<forall>m. fn_size (fs_node st' m) = (if m = ?n then max (ff_offset file') (fn_size (fs_node st m)) else fn_size (fs_node st m))) \<and>
       (\<forall>m \<in> F. \<forall>i. file_byte st' m i = (if m = ?n \<and> ?o \<le> i \<and> i < ?o + ?sz then data ! (i - ?o) else file_byte st m i)))"
    using ramfs_write_ok [OF assms(1-5)] assms(7) by auto
  then obtain live' P' where w: "files_inv st' K live' P' F" "\<not> fn_mux (fs_node st' ?n)"
    "r = int ?sz" "file' = file\<lparr>ff_offset := ff_offset file + int ?sz\<rparr>"
    "fn_size (fs_node st' ?n) = max (ff_offset file + int ?sz) (fn_size (fs_node st ?n))"
    "\<And>i. ?o \<le> i \<Longrightarrow> i < ?o + ?sz \<Longrightarrow> file_byte st' ?n i = data ! (i - ?o)"
    using assms(2,3,8) by (auto split: if_splits)
  have s: "min (min (4096 - ?o mod 4096) (nat r)) (nat (fn_size (fs_node st' ?n)) - ?o) = ?sz"
  proof -
    have "?o + ?sz \<le> nat (fn_size (fs_node st' ?n))" using assms(4) unfolding w(5) by (simp add: nat_add_distrib le_nat_iff)
    then have "?sz \<le> nat (fn_size (fs_node st' ?n)) - ?o" by (simp only: le_diff_conv2 add.commute [of ?o] le_add_diff_inverse)
    then show ?thesis unfolding w(3) nat_int by (simp only: min.absorb1 min.absorb2 min.cobounded1)
  qed
  have "fn_size (fs_node st' ?n) < 2 ^ 31" using assms(5,6) unfolding w(5) by (auto simp: min_def max_def)
  from ramfs_read_ok [OF w(1) assms(2) w(2) assms(4) this, of "nat r"]
  have "ramfs_read file (nat r) st' = Some (r, map (file_byte st' ?n) [?o..<?o + ?sz], file', st')" unfolding s w(4) unfolding w(3) [symmetric] .
  moreover have "map (file_byte st' ?n) [?o..<?o + ?sz] = take (nat r) data"
    by (rule nth_equalityI) (use w(6) in \<open>auto simp: w(3)\<close>)
  ultimately show ?thesis by simp
qed

theorem ramfs_write_read_roundtrip_witness:
  "\<exists>r file' st'. ramfs_write sample_file [1, 2, 3] sample_fs = Some (r, file', st') \<and>
     (r < 0 \<or> ramfs_read sample_file (nat r) st' = Some (r, take (nat r) [1, 2, 3], file', st'))"
proof -
  obtain r file' st' where w: "ramfs_write sample_file [1, 2, 3] sample_fs = Some (r, file', st')"
    using ramfs_write_ok [OF sample_files_inv, of sample_file "[1, 2, 3]"] by (auto simp: sample_file_def sample_fnode_def)
  have "ramfs_read sample_file (nat r) st' = Some (r, take (nat r) [1, 2, 3], file', st')" if "0 \<le> r"
    by (rule ramfs_write_read_roundtrip [OF sample_files_inv _ _ _ _ _ w that]) (simp_all add: sample_file_def sample_fnode_def)
  then have "r < 0 \<or> ramfs_read sample_file (nat r) st' = Some (r, take (nat r) [1, 2, 3], file', st')" by linarith
  then show ?thesis using w by blast
qed

end
