(* ===== verification/Ramfs_Dirs.thy ===== *)
theory Ramfs_Dirs
  imports Ramfs_Inv
begin

text \<open>
  The directories of \<^verbatim>\<open>src/ramfs.c\<close> as finite maps from names to nodes: creating, linking, looking up and
  removing entries, and the enumeration by \<^verbatim>\<open>ramfs_iterate\<close>.
\<close>

abbreviation ename :: "fs \<Rightarrow> nat \<Rightarrow> name" where
  "ename st e \<equiv> re_name (rf_entry st e)"

definition dir_map :: "fs \<Rightarrow> nat \<Rightarrow> name \<rightharpoonup> nat" where
  "dir_map st d nm =
     (if ok_name nm
      then (case ramfs_entry_lookup d nm st of
              Some (e, _, _) \<Rightarrow> if e \<noteq> 0 then Some (re_node (rf_entry st e)) else None
            | None \<Rightarrow> None)
      else None)"

text \<open>\<open>D\<close> are the directory nodes and \<open>de\<close> lists the entries of each in the order of their names.\<close>

definition entries_inv ::
  "fs \<Rightarrow> nat set \<Rightarrow> (nat \<Rightarrow> nat set) \<Rightarrow> (page_ptr \<times> nat) set \<Rightarrow> nat set \<Rightarrow> (nat \<Rightarrow> nat list) \<Rightarrow> bool" where
  "entries_inv st K live P D de \<longleftrightarrow> kmem_inv P (fs_kmem st) K live \<and> ramfs_node_cache st \<in> K \<and> ramfs_entry_cache st \<in> K \<and>
     ramfs_node_cache st \<noteq> ramfs_entry_cache st \<and> D \<subseteq> live (ramfs_node_cache st) \<and>
     (\<forall>d \<in> D. by_name.index (ename st) (rf_entry_links st) (fn_children (fs_node st d)) (de d)) \<and>
     (\<forall>d \<in> D. set (de d) \<subseteq> live (ramfs_entry_cache st)) \<and>
     (\<forall>d \<in> D. \<forall>d' \<in> D. d \<noteq> d' \<longrightarrow> set (de d) \<inter> set (de d') = {})"

definition dirs_inv :: "fs \<Rightarrow> nat set \<Rightarrow> (nat \<Rightarrow> nat set) \<Rightarrow> (page_ptr \<times> nat) set \<Rightarrow> nat set \<Rightarrow> bool" where
  "dirs_inv st K live P D \<longleftrightarrow> (\<exists>de. entries_inv st K live P D de)"

lemma entries_index:
  "entries_inv st K live P D de \<Longrightarrow> d \<in> D \<Longrightarrow> by_name.index (ename st) (rf_entry_links st) (fn_children (fs_node st d)) (de d)"
  by (simp add: entries_inv_def)

lemma entry_lookup_hit:
  assumes "entries_inv st K live P D de" and "d \<in> D" and "e \<in> set (de d)"
  shows "\<exists>par pl. ramfs_entry_lookup d (ename st e) st = Some (e, par, pl)" "e \<noteq> 0" "ok_name (ename st e)"
proof -
  note ix = entries_index [OF assms(1,2)]
  show "\<exists>par pl. ramfs_entry_lookup d (ename st e) st = Some (e, par, pl)"
    using by_name.find_present [OF ix assms(3)] by (simp add: ramfs_entry_lookup_def)
  show "e \<noteq> 0" using by_name.index_nonzero [OF ix] assms(3) by metis
  show "ok_name (ename st e)" using ix assms(3) by (simp add: by_name.index_def)
qed

lemma entry_lookup_cases:
  assumes "entries_inv st K live P D de" and "d \<in> D" and "ok_name nm"
  obtains (hit) e par pl where "ramfs_entry_lookup d nm st = Some (e, par, pl)" "e \<in> set (de d)" "e \<noteq> 0" "ename st e = nm"
    "dir_map st d nm = Some (re_node (rf_entry st e))"
  | (miss) par pl where "ramfs_entry_lookup d nm st = Some (0, par, pl)" "nm \<notin> ename st ` set (de d)" "dir_map st d nm = None"
proof -
  note ix = entries_index [OF assms(1,2)]
  obtain e par pl where r: "ramfs_entry_lookup d nm st = Some (e, par, pl)"
    using by_name.find_returns [OF ix assms(3)] unfolding ramfs_entry_lookup_def by blast
  show thesis
  proof (cases "e = 0")
    case True
    then show thesis
      using miss r by_name.find_miss [OF ix, of nm par pl] by (simp add: dir_map_def ramfs_entry_lookup_def)
  next
    case False
    then show thesis
      using hit r by_name.find_hit [OF ix assms(3), of e par pl] assms(3) by (simp add: dir_map_def ramfs_entry_lookup_def)
  qed
qed

lemma dir_map_Some:
  assumes "entries_inv st K live P D de" and "d \<in> D"
  shows "dir_map st d nm = Some x \<longleftrightarrow> (\<exists>e \<in> set (de d). ename st e = nm \<and> re_node (rf_entry st e) = x)"
proof (cases "ok_name nm")
  case False
  then show ?thesis using entry_lookup_hit(3) [OF assms] by (auto simp: dir_map_def)
next
  case True
  note ix = entries_index [OF assms]
  show ?thesis
  proof (cases rule: entry_lookup_cases [OF assms True])
    case (1 e par pl)
    then show ?thesis using by_name.index_inj [OF ix _ 1(2)] by (metis option.inject)
  qed auto
qed

lemma dir_map_same:
  assumes "rf_entry st' = rf_entry st" "rf_entry_links st' = rf_entry_links st" "fn_children (fs_node st' d) = fn_children (fs_node st d)"
  shows "dir_map st' d = dir_map st d"
  unfolding fun_eq_iff dir_map_def ramfs_entry_lookup_def assms by simp

text \<open>Two states with the same entries have the same directory.\<close>

lemma dir_map_cong:
  assumes "entries_inv st K live P D de" "entries_inv st' K' live' P' D' de'" and "d \<in> D" "d \<in> D'" and "set (de' d) = set (de d)"
    and "\<And>e. e \<in> set (de d) \<Longrightarrow> rf_entry st' e = rf_entry st e"
  shows "dir_map st' d = dir_map st d"
proof
  fix nm
  have "dir_map st' d nm = Some x \<longleftrightarrow> dir_map st d nm = Some x" for x
    unfolding dir_map_Some [OF assms(1,3)] dir_map_Some [OF assms(2,4)] using assms(5,6) by auto
  then show "dir_map st' d nm = dir_map st d nm" by (metis not_None_eq)
qed

lemma dir_map_insert:
  assumes "entries_inv st K live P D de" "entries_inv st' K' live' P' D' de'" and "d \<in> D" "d \<in> D'"
    and "set (de' d) = insert e (set (de d))" and "e \<notin> set (de d)" and "ename st' e \<notin> ename st ` set (de d)"
    and "\<And>x. x \<in> set (de d) \<Longrightarrow> rf_entry st' x = rf_entry st x"
  shows "dir_map st' d = (dir_map st d)(ename st' e \<mapsto> re_node (rf_entry st' e))"
proof
  fix nm
  have "dir_map st' d nm = Some x \<longleftrightarrow> ((dir_map st d)(ename st' e \<mapsto> re_node (rf_entry st' e))) nm = Some x" for x
    using assms(7,8) dir_map_Some [OF assms(1,3), of nm x]
    unfolding dir_map_Some [OF assms(2,4)] assms(5) by (auto simp: image_iff)
  then show "dir_map st' d nm = ((dir_map st d)(ename st' e \<mapsto> re_node (rf_entry st' e))) nm" by (metis not_None_eq)
qed

lemma dir_map_remove:
  assumes "entries_inv st K live P D de" "entries_inv st' K' live' P' D' de'" and "d \<in> D" "d \<in> D'"
    and "set (de' d) = set (de d) - {e}" and "e \<in> set (de d)"
    and "\<And>x. x \<in> set (de d) \<Longrightarrow> rf_entry st' x = rf_entry st x"
  shows "dir_map st' d = (dir_map st d)(ename st e := None)"
proof
  fix nm
  have "dir_map st' d nm = Some x \<longleftrightarrow> ((dir_map st d)(ename st e := None)) nm = Some x" for x
    using assms(6,7) by_name.index_inj [OF entries_index [OF assms(1,3)] _ assms(6)]
    unfolding dir_map_Some [OF assms(2,4)] assms(5) by (auto simp: dir_map_Some [OF assms(1,3)])
  then show "dir_map st' d nm = ((dir_map st d)(ename st e := None)) nm" by (metis not_None_eq)
qed

section \<open>Creating an entry\<close>

text \<open>Storing a new entry in a directory at the place the lookup of its name found.\<close>

lemma entry_link_ok:
  assumes inv: "entries_inv st K live P D de" and dir: "dir \<in> D" and nm: "ok_name nm" "nm \<notin> ename st ` set (de dir)"
    and lk: "ramfs_entry_lookup dir nm st = Some (0, par, pl)"
    and e: "e \<noteq> 0" "\<forall>d \<in> D. e \<notin> set (de d)"
    and st1: "kmem_inv P (fs_kmem st1) K live1" "live (ramfs_node_cache st) \<subseteq> live1 (ramfs_node_cache st)"
      "live (ramfs_entry_cache st) \<subseteq> live1 (ramfs_entry_cache st)" "e \<in> live1 (ramfs_entry_cache st)"
      "rf_entry st1 = (rf_entry st)(e := \<lparr>re_node = node, re_name = nm\<rparr>)" "rf_entry_links st1 = rf_entry_links st"
      "ramfs_node_cache st1 = ramfs_node_cache st" "ramfs_entry_cache st1 = ramfs_entry_cache st"
      "\<forall>d \<in> D. fn_children (fs_node st1 d) = fn_children (fs_node st d)"
  shows "\<exists>st' de'. ramfs_entry_link dir e par pl st1 = Some st' \<and> entries_inv st' K live1 P D de' \<and>
    (\<forall>d \<in> D. dir_map st' d = (if d = dir then (dir_map st d)(nm \<mapsto> node) else dir_map st d)) \<and>
    (\<forall>n. n \<noteq> dir \<longrightarrow> fs_node st' n = fs_node st1 n) \<and> rf_entry st' = rf_entry st1 \<and> fs_entry st' = fs_entry st1 \<and>
    ramfs_node_cache st' = ramfs_node_cache st1 \<and> fn_refcount (fs_node st' dir) = fn_refcount (fs_node st1 dir) + 1 \<and> fn_size (fs_node st' dir) = fn_size (fs_node st1 dir) + 1"
proof -
  note ix = entries_index [OF inv dir]
  have old: "rf_entry st1 x = rf_entry st x" if "d \<in> D" "x \<in> set (de d)" for d x using e that by (auto simp: st1(5))
  obtain h' root' ns' where r: "rb_insert e (rb_link e par pl (rf_entry_links st, fn_children (fs_node st dir))) = Some (h', root')"
    "by_name.index (ename st1) h' root' ns'" "set ns' = insert e (set (de dir))" "same_out (insert e (set (de dir))) (rf_entry_links st) h'"
  proof -
    obtain par' pl' where f: "by_name.find (ename st) nm (rf_entry_links st) (fn_children (fs_node st dir)) = Some (0, par', pl')"
      "\<forall>n key'. n \<noteq> 0 \<longrightarrow> n \<notin> set (de dir) \<longrightarrow> key' n = nm \<longrightarrow> (\<forall>m \<in> set (de dir). key' m = ename st m) \<longrightarrow>
        (\<exists>h' root' ns'. rb_insert n (rb_link n par' pl' (rf_entry_links st, fn_children (fs_node st dir))) = Some (h', root') \<and>
          by_name.index key' h' root' ns' \<and> set ns' = insert n (set (de dir)) \<and> same_out (insert n (set (de dir))) (rf_entry_links st) h')"
      using by_name.find_absent [OF ix nm(2,1)] by blast
    have "par' = par" "pl' = pl" using f(1) lk by (simp_all add: ramfs_entry_lookup_def)
    then show thesis using that f(2) [rule_format, of e "ename st1"] e dir old [OF dir] by (auto simp: st1(5))
  qed
  define st2 where "st2 = upd_node dir (\<lambda>n. n\<lparr>fn_refcount := fn_refcount n + 1, fn_size := fn_size n + 1\<rparr>) st1"
  define st3 where "st3 = upd_node dir (fn_children_update (\<lambda>_. root')) (st2\<lparr>rf_entry_links := h'\<rparr>)"
  let ?de = "de(dir := ns')"
  have call: "ramfs_entry_link dir e par pl st1 = Some st3"
    using r(1) dir by (simp add: ramfs_entry_link_def st3_def st2_def st1(6,9))
  have "by_name.index (ename st3) (rf_entry_links st3) (fn_children (fs_node st3 d)) (?de d)" if d: "d \<in> D" for d
  proof (cases "d = dir")
    case True
    then show ?thesis using r(2) by (simp add: st3_def st2_def)
  next
    case False
    have "insert e (set (de dir)) \<inter> set (de d) = {}" using inv dir d False e(2) by (auto simp: entries_inv_def)
    from by_name.index_frame [OF entries_index [OF inv d] r(4) this]
    have "by_name.index (ename st3) h' (fn_children (fs_node st d)) (de d)"
      by (rule by_name.index_key_cong) (use old [OF d] in \<open>simp add: st3_def st2_def\<close>)
    then show ?thesis using False d by (simp add: st3_def st2_def st1(9))
  qed
  moreover have "set (de d) \<subseteq> live1 (ramfs_entry_cache st)" if "d \<in> D" for d
    using inv st1(3) that by (simp add: entries_inv_def) blast
  then have "\<forall>d \<in> D. set (?de d) \<subseteq> live1 (ramfs_entry_cache st)" using st1(4) dir by (simp add: r(3))
  moreover have "D \<subseteq> live1 (ramfs_node_cache st)" using inv st1(2) unfolding entries_inv_def by blast
  moreover have "\<forall>d \<in> D. \<forall>d' \<in> D. d \<noteq> d' \<longrightarrow> set (?de d) \<inter> set (?de d') = {}"
    using inv r(3) e(2) dir by (auto simp: entries_inv_def)
  ultimately have inv3: "entries_inv st3 K live1 P D ?de"
    using inv st1(1,7,8) by (simp add: entries_inv_def st3_def st2_def)
  have re3: "rf_entry st3 = rf_entry st1" by (simp add: st3_def st2_def)
  have "dir_map st3 d = (if d = dir then (dir_map st d)(nm \<mapsto> node) else dir_map st d)" if d: "d \<in> D" for d
  proof (cases "d = dir")
    case True
    have "dir_map st3 dir = (dir_map st dir)(ename st3 e \<mapsto> re_node (rf_entry st3 e))"
      by (rule dir_map_insert [OF inv inv3 dir dir])
        (use r(3) e dir nm old [OF dir] in \<open>simp_all add: re3 st1(5)\<close>)
    then show ?thesis using True by (simp add: re3 st1(5))
  next
    case False
    then show ?thesis using dir_map_cong [OF inv inv3 d d] old [OF d] by (simp add: re3)
  qed
  moreover have "\<forall>n. n \<noteq> dir \<longrightarrow> fs_node st3 n = fs_node st1 n" "fs_entry st3 = fs_entry st1" "ramfs_node_cache st3 = ramfs_node_cache st1"
    "fn_refcount (fs_node st3 dir) = fn_refcount (fs_node st1 dir) + 1" "fn_size (fs_node st3 dir) = fn_size (fs_node st1 dir) + 1"
    by (simp_all add: st3_def st2_def)
  ultimately show ?thesis using call inv3 re3 by blast
qed

abbreviation fresh_node :: "fs_node_ops \<Rightarrow> fs_file_ops \<Rightarrow> int \<Rightarrow> fs_node" where
  "fresh_node ops fops c \<equiv>
     \<lparr>fn_mux = False, fn_ops = ops, fn_fops = fops, fn_refcount = c, fn_size = 0, fn_children = 0, fn_pages = 0\<rparr>"

lemma ramfs_node_create_ok:
  assumes "kmem_inv P (fs_kmem st) K live" and "ramfs_node_cache st \<in> K"
  shows "\<exists>n k. kmem_inv P k K (if n = 0 then live else live(ramfs_node_cache st := insert n (live (ramfs_node_cache st)))) \<and>
    ramfs_node_create ops fops st =
      Some (n, if n = 0 then st\<lparr>fs_kmem := k\<rparr> else st\<lparr>fs_kmem := k, fs_node := (fs_node st)(n := fresh_node ops fops 2)\<rparr>) \<and>
    (if n = 0 then no_pages st else n \<notin> live (ramfs_node_cache st))"
proof -
  obtain n k where a: "cache_alloc (ramfs_node_cache st) st = Some (n, st\<lparr>fs_kmem := k\<rparr>)"
    "if n = 0 then no_pages st \<and> out_of_pages (k_mem k) \<and> kmem_inv P k K live else n \<notin> live (ramfs_node_cache st) \<and>
       kmem_inv P k K (live(ramfs_node_cache st := insert n (live (ramfs_node_cache st))))"
    using cache_alloc_ok [OF assms] by blast
  have "ramfs_node_create ops fops st =
      Some (n, if n = 0 then st\<lparr>fs_kmem := k\<rparr> else st\<lparr>fs_kmem := k, fs_node := (fs_node st)(n := fresh_node ops fops 2)\<rparr>)"
    using a(1) by (simp add: ramfs_node_create_def vfs_node_init_def vfs_node_get_def upd_node_def)
  then show ?thesis using a(2) by (intro exI [of _ n] exI [of _ k]) (simp split: if_splits)
qed

lemma ramfs_entry_create_ok:
  assumes "kmem_inv P (fs_kmem st) K live" and "ramfs_entry_cache st \<in> K"
  shows "\<exists>e k. kmem_inv P k K (if e = 0 then live else live(ramfs_entry_cache st := insert e (live (ramfs_entry_cache st)))) \<and>
    ramfs_entry_create nm node st =
      Some (e, if e = 0 then st\<lparr>fs_kmem := k\<rparr> else st\<lparr>fs_kmem := k, rf_entry := (rf_entry st)(e := \<lparr>re_node = node, re_name = nm\<rparr>)\<rparr>) \<and>
    (if e = 0 then out_of_pages (k_mem k) else e \<notin> live (ramfs_entry_cache st))"
proof -
  obtain e k where a: "cache_alloc (ramfs_entry_cache st) st = Some (e, st\<lparr>fs_kmem := k\<rparr>)"
    "if e = 0 then no_pages st \<and> out_of_pages (k_mem k) \<and> kmem_inv P k K live else e \<notin> live (ramfs_entry_cache st) \<and>
       kmem_inv P k K (live(ramfs_entry_cache st := insert e (live (ramfs_entry_cache st))))"
    using cache_alloc_ok [OF assms] by blast
  have "ramfs_entry_create nm node st =
      Some (e, if e = 0 then st\<lparr>fs_kmem := k\<rparr> else st\<lparr>fs_kmem := k, rf_entry := (rf_entry st)(e := \<lparr>re_node = node, re_name = nm\<rparr>)\<rparr>)"
    using a(1) by (simp add: ramfs_entry_create_def)
  then show ?thesis using a(2) by (intro exI [of _ e] exI [of _ k]) (simp split: if_splits)
qed

text \<open>Dropping a reference that is not the last one only counts.\<close>

lemma vfs_node_put_keep:
  assumes "n \<noteq> 0" and "fn_refcount (fs_node st n) \<noteq> 1"
  shows "vfs_node_put n st = Some (upd_node n (\<lambda>x. x\<lparr>fn_refcount := fn_refcount x - 1\<rparr>) st)"
  using assms unfolding vfs_node_put_def by (subst fs_release.simps) (simp add: Let_def)

text \<open>The entries of the directories do not depend on the counts of nodes, on new nodes or on path entries.\<close>

lemma entries_inv_weak:
  assumes "entries_inv st K live P D de" and "kmem_inv P (fs_kmem st') K live'"
    and "live (ramfs_node_cache st) \<subseteq> live' (ramfs_node_cache st)" "live (ramfs_entry_cache st) \<subseteq> live' (ramfs_entry_cache st)"
    and "\<And>d. d \<in> D \<Longrightarrow> fn_children (fs_node st' d) = fn_children (fs_node st d)"
    and "rf_entry st' = rf_entry st" "rf_entry_links st' = rf_entry_links st"
      "ramfs_node_cache st' = ramfs_node_cache st" "ramfs_entry_cache st' = ramfs_entry_cache st"
  shows "entries_inv st' K live' P D de"
  using assms unfolding entries_inv_def by (simp add: subset_trans [OF _ assms(3)] subset_trans [OF _ assms(4)])

lemma entries_inv_new_dir:
  assumes "entries_inv st K live P D de" and "n \<in> live (ramfs_node_cache st)" and "fn_children (fs_node st n) = 0" and "n \<notin> D"
  shows "entries_inv st K live P (insert n D) (de(n := []))" "dir_map st n = Map.empty"
proof -
  show inv: "entries_inv st K live P (insert n D) (de(n := []))"
    using assms by_name.index_empty unfolding entries_inv_def by auto
  have "dir_map st n nm = None" for nm using dir_map_Some [OF inv, of n nm] by (cases "dir_map st n nm") auto
  then show "dir_map st n = Map.empty" by blast
qed

lemma ramfs_create_ops_ok:
  assumes inv: "entries_inv st K live P D de" and dir: "dir \<in> D" and nm: "ok_name (fe_name (fs_entry st file))"
  defines "nm \<equiv> fe_name (fs_entry st file)" and "nc \<equiv> ramfs_node_cache st"
  shows "\<exists>r st' live' de' D'. ramfs_create_ops ops fops dir file st = Some (r, st') \<and> entries_inv st' K live' P D' de' \<and>
    (case dir_map st dir nm of
       Some _ \<Rightarrow> r = - EEXIST \<and> st' = st \<and> D' = D
     | None \<Rightarrow> r = - ENOMEM \<and> (no_pages st \<or> no_pages st') \<and> D' = D \<and> (\<forall>d \<in> D. dir_map st' d = dir_map st d) \<or>
         r = 0 \<and> (\<exists>node. node \<notin> live nc \<and> D' = insert node D \<and> fs_node st' node = fresh_node ops fops 3 \<and>
           fe_node (fs_entry st' file) = node \<and> dir_map st' node = Map.empty \<and>
           (\<forall>d \<in> D. dir_map st' d = (if d = dir then (dir_map st d)(nm \<mapsto> node) else dir_map st d))))"
proof (cases rule: entry_lookup_cases [OF inv dir nm])
  case (1 e par pl)
  then show ?thesis using inv by (auto simp: ramfs_create_ops_def nm_def)
next
  case (2 par pl)
  have kinv: "kmem_inv P (fs_kmem st) K live" and K: "nc \<in> K" "ramfs_entry_cache st \<in> K" using inv by (simp_all add: entries_inv_def nc_def)
  obtain n k1 where n: "kmem_inv P k1 K (if n = 0 then live else live(nc := insert n (live nc)))"
    "ramfs_node_create ops fops st =
      Some (n, if n = 0 then st\<lparr>fs_kmem := k1\<rparr> else st\<lparr>fs_kmem := k1, fs_node := (fs_node st)(n := fresh_node ops fops 2)\<rparr>)"
    "if n = 0 then no_pages st else n \<notin> live nc"
    using ramfs_node_create_ok [OF kinv K(1) [unfolded nc_def], of ops fops] unfolding nc_def by blast
  show ?thesis
  proof (cases "n = 0")
    case True
    let ?st = "st\<lparr>fs_kmem := k1\<rparr>"
    have "ramfs_create_ops ops fops dir file st = Some (- ENOMEM, ?st)" using 2(1) n(2) True by (simp add: ramfs_create_ops_def nm_def)
    moreover have i: "entries_inv ?st K live P D de" by (rule entries_inv_weak [OF inv]) (use n(1) True in simp_all)
    moreover have "dir_map ?st d = dir_map st d" if "d \<in> D" for d by (rule dir_map_cong [OF inv i that that]) simp_all
    ultimately show ?thesis using 2(3) n(3) True by (auto simp: nm_def)
  next
    case False
    define st1 where "st1 = st\<lparr>fs_kmem := k1, fs_node := (fs_node st)(n := fresh_node ops fops 2)\<rparr>"
    let ?l1 = "live(nc := insert n (live nc))" and ?ec = "ramfs_entry_cache st"
    have new: "n \<notin> live nc" "n \<notin> D" using n(3) False inv by (auto simp: entries_inv_def nc_def)
    have k1: "kmem_inv P (fs_kmem st1) K ?l1" using n(1) False by (simp add: st1_def)
    have ec: "ramfs_entry_cache st1 = ?ec" by (simp add: st1_def)
    obtain e k2 where e: "kmem_inv P k2 K (if e = 0 then ?l1 else ?l1(?ec := insert e (?l1 ?ec)))"
      "ramfs_entry_create nm n st1 =
        Some (e, if e = 0 then st1\<lparr>fs_kmem := k2\<rparr> else st1\<lparr>fs_kmem := k2, rf_entry := (rf_entry st1)(e := \<lparr>re_node = n, re_name = nm\<rparr>)\<rparr>)"
      "if e = 0 then out_of_pages (k_mem k2) else e \<notin> ?l1 ?ec"
      using ramfs_entry_create_ok [OF k1, of nm n] K(2) unfolding ec by blast
    have nm1: "fe_name (fs_entry st1 file) = nm" by (simp add: st1_def nm_def)
    have nc1: "ramfs_node_create ops fops st = Some (n, st1)" using n(2) False by (simp add: st1_def)
    show ?thesis
    proof (cases "e = 0")
      case True
      let ?st = "upd_node n (\<lambda>x. x\<lparr>fn_refcount := fn_refcount x - 1\<rparr>) (st1\<lparr>fs_kmem := k2\<rparr>)"
      have "ramfs_create_ops ops fops dir file st = Some (- ENOMEM, ?st)"
        using 2(1) nc1 e(2) True False vfs_node_put_keep [of n "st1\<lparr>fs_kmem := k2\<rparr>"] nm1
        by (simp add: ramfs_create_ops_def nm_def [symmetric]) (simp add: st1_def)
      moreover have i: "entries_inv ?st K ?l1 P D de"
        by (rule entries_inv_weak [OF inv]) (use e(1) True new in \<open>auto simp: st1_def nc_def\<close>)
      moreover have "dir_map ?st d = dir_map st d" if "d \<in> D" for d by (rule dir_map_cong [OF inv i that that]) (simp_all add: st1_def)
      moreover have "no_pages ?st" using e(3) True by simp
      ultimately show ?thesis using 2(3) by (auto simp: nm_def)
    next
      case e0: False
      define st2 where "st2 = st1\<lparr>fs_kmem := k2, rf_entry := (rf_entry st1)(e := \<lparr>re_node = n, re_name = nm\<rparr>)\<rparr>"
      let ?l2 = "?l1(?ec := insert e (?l1 ?ec))"
      have "e \<notin> live ?ec" using e(3) e0 by (auto split: if_splits)
      then have ed: "\<forall>d \<in> D. e \<notin> set (de d)" using inv by (auto simp: entries_inv_def)
      have "\<exists>st' de'. ramfs_entry_link dir e par pl st2 = Some st' \<and> entries_inv st' K ?l2 P D de' \<and>
        (\<forall>d \<in> D. dir_map st' d = (if d = dir then (dir_map st d)(nm \<mapsto> n) else dir_map st d)) \<and>
        (\<forall>n. n \<noteq> dir \<longrightarrow> fs_node st' n = fs_node st2 n) \<and> rf_entry st' = rf_entry st2 \<and> fs_entry st' = fs_entry st2 \<and>
        ramfs_node_cache st' = ramfs_node_cache st2 \<and> fn_refcount (fs_node st' dir) = fn_refcount (fs_node st2 dir) + 1 \<and> fn_size (fs_node st' dir) = fn_size (fs_node st2 dir) + 1"
        by (rule entry_link_ok [OF inv dir nm [folded nm_def] 2(2,1) [folded nm_def] e0 ed])
          (use e(1) e0 new in \<open>auto simp: st2_def st1_def nc_def\<close>)
      then obtain st3 de3 where l: "ramfs_entry_link dir e par pl st2 = Some st3" "entries_inv st3 K ?l2 P D de3"
        "\<forall>d \<in> D. dir_map st3 d = (if d = dir then (dir_map st d)(nm \<mapsto> n) else dir_map st d)"
        "\<forall>n. n \<noteq> dir \<longrightarrow> fs_node st3 n = fs_node st2 n" "rf_entry st3 = rf_entry st2" "fs_entry st3 = fs_entry st2"
        "ramfs_node_cache st3 = ramfs_node_cache st2" by blast
      define st4 where "st4 = upd_entry file (fe_node_update (\<lambda>_. n)) (vfs_node_get n st3)"
      have call: "ramfs_create_ops ops fops dir file st = Some (0, st4)"
        using 2(1) nc1 e(2) e0 False nm1 l(1) by (simp add: ramfs_create_ops_def nm_def [symmetric] st2_def st4_def)
      have i4: "entries_inv st4 K ?l2 P D de3"
        by (rule entries_inv_weak [OF l(2)])
          (use e(1) e0 l(2) in \<open>auto simp: st4_def upd_entry_def vfs_node_get_def entries_inv_def\<close>)
      have n3: "fs_node st3 n = fresh_node ops fops 2" using l(4) new dir by (auto simp: st2_def st1_def)
      have n4: "fs_node st4 n = fresh_node ops fops 3"
        using False by (simp add: st4_def upd_entry_def vfs_node_get_def n3)
      have nc4: "ramfs_node_cache st4 = nc" using l(7) by (simp add: st4_def upd_entry_def vfs_node_get_def st2_def st1_def nc_def)
      have m4: "dir_map st4 d = dir_map st3 d" if "d \<in> D" for d
        by (rule dir_map_cong [OF l(2) i4 that that]) (simp_all add: st4_def upd_entry_def vfs_node_get_def)
      have "n \<in> ?l2 (ramfs_node_cache st4)" by (simp add: nc4)
      note i5 = entries_inv_new_dir [OF i4 this, unfolded n4, simplified, OF new(2)]
      have "fe_node (fs_entry st4 file) = n" by (simp add: st4_def upd_entry_def)
      then show ?thesis using call i5 n4 m4 l(3) new(1) 2(3) by (auto simp: nm_def)
    qed
  qed
qed

section \<open>Removing an entry\<close>

definition detachable :: "fs \<Rightarrow> nat \<Rightarrow> bool" where
  "detachable st e \<longleftrightarrow> fe_cached (fs_entry st e) \<longrightarrow>
     (\<exists>cs. by_name.index (\<lambda>c. fe_name (fs_entry st c)) (fs_entry_links st) (fe_children (fs_entry st (fe_parent (fs_entry st e)))) cs \<and>
        e \<in> set cs)"

lemma vfs_entry_detach_ok:
  assumes "detachable st e"
  shows "\<exists>h en. vfs_entry_detach e st = Some (st\<lparr>fs_entry_links := h, fs_entry := en\<rparr>) \<and> \<not> fe_cached (en e)"
proof (cases "fe_cached (fs_entry st e)")
  case False
  then have "vfs_entry_detach e st = Some (st\<lparr>fs_entry_links := fs_entry_links st, fs_entry := fs_entry st\<rparr>)"
    by (simp add: vfs_entry_detach_def vfs_entry_detach_from_def)
  then show ?thesis using False by blast
next
  case True
  let ?par = "fe_parent (fs_entry st e)"
  obtain cs where "by_name.index (\<lambda>c. fe_name (fs_entry st c)) (fs_entry_links st) (fe_children (fs_entry st ?par)) cs" "e \<in> set cs"
    using assms True by (auto simp: detachable_def)
  from by_name.erase_index [OF this] obtain h root where "rb_erase e (fs_entry_links st, fe_children (fs_entry st ?par)) = Some (h, root)" by blast
  moreover define en where "en = fs_entry (upd_entry e (fe_cached_update (\<lambda>_. False)) (upd_entry ?par (fe_children_update (\<lambda>_. root)) st))"
  ultimately have "vfs_entry_detach e st = Some (st\<lparr>fs_entry_links := h, fs_entry := en\<rparr>)"
    using True by (simp add: vfs_entry_detach_def vfs_entry_detach_from_def upd_entry_def)
  moreover have "\<not> fe_cached (en e)" by (simp add: en_def upd_entry_def)
  ultimately show ?thesis by blast
qed

lemma ramfs_entry_destroy_ok:
  assumes "kmem_inv P (fs_kmem st) K live" and "ramfs_entry_cache st \<in> K" and "e \<in> live (ramfs_entry_cache st)"
    and "re_node (rf_entry st e) = n" "n \<noteq> 0" "fn_refcount (fs_node st n) \<noteq> 1"
  shows "\<exists>k. ramfs_entry_destroy e st = Some (upd_node n (\<lambda>x. x\<lparr>fn_refcount := fn_refcount x - 1\<rparr>) st\<lparr>fs_kmem := k\<rparr>) \<and>
    kmem_inv P k K (live(ramfs_entry_cache st := live (ramfs_entry_cache st) - {e}))"
proof -
  let ?st = "upd_node n (\<lambda>x. x\<lparr>fn_refcount := fn_refcount x - 1\<rparr>) st"
  have "fs_release (Node_put n) st = Some ?st" using vfs_node_put_keep [OF assms(5,6)] by (simp add: vfs_node_put_def)
  moreover have "\<exists>k. cache_free (ramfs_entry_cache st) e ?st = Some (?st\<lparr>fs_kmem := k\<rparr>) \<and>
    kmem_inv P k K (live(ramfs_entry_cache st := live (ramfs_entry_cache st) - {e}))"
    using cache_free_ok [of P ?st K live "ramfs_entry_cache st" e] assms(1-3) by auto
  ultimately show ?thesis using assms(4) unfolding ramfs_entry_destroy_def by (subst fs_release.simps) auto
qed

lemma ramfs_entry_unlink_ok:
  assumes inv: "entries_inv st K live P D de" and dir: "dir \<in> D" and nm: "ok_name (fe_name (fs_entry st entry))"
    and det: "detachable st entry"
    and ref: "\<And>n. dir_map st dir (fe_name (fs_entry st entry)) = Some n \<Longrightarrow> n \<noteq> 0 \<and> fn_refcount (fs_node st n) \<noteq> 1"
  defines "nm \<equiv> fe_name (fs_entry st entry)"
  shows "\<exists>r st' live' de'. ramfs_entry_unlink dir entry st = Some (r, st') \<and> entries_inv st' K live' P D de' \<and>
    (case dir_map st dir nm of
       None \<Rightarrow> r = - ENOENT \<and> st' = st
     | Some n \<Rightarrow> r = 0 \<and> (\<forall>d \<in> D. dir_map st' d = (if d = dir then (dir_map st d)(nm := None) else dir_map st d)) \<and>
         (\<forall>m. fn_refcount (fs_node st' m) = (if m = n then fn_refcount (fs_node st m) - 1 else fn_refcount (fs_node st m))) \<and>
         fn_size (fs_node st' dir) = fn_size (fs_node st dir) - 1 \<and> \<not> fe_cached (fs_entry st' entry))"
proof (cases rule: entry_lookup_cases [OF inv dir nm])
  case (2 par pl)
  then show ?thesis using inv by (auto simp: ramfs_entry_unlink_def nm_def)
next
  case (1 e par pl)
  let ?n = "re_node (rf_entry st e)" and ?ec = "ramfs_entry_cache st"
  have n: "?n \<noteq> 0" "fn_refcount (fs_node st ?n) \<noteq> 1" using ref [OF 1(5)] by simp_all
  obtain h root where er: "rb_erase e (rf_entry_links st, fn_children (fs_node st dir)) = Some (h, root)"
    "by_name.index (ename st) h root (remove1 e (de dir))" "same_out (set (de dir) - {e}) (rf_entry_links st) h"
    using by_name.erase_index [OF entries_index [OF inv dir] 1(2)] by blast
  define st1 where "st1 = upd_node dir (\<lambda>n. n\<lparr>fn_size := fn_size n - 1\<rparr>) (upd_node dir (fn_children_update (\<lambda>_. root)) (st\<lparr>rf_entry_links := h\<rparr>))"
  have kinv: "kmem_inv P (fs_kmem st1) K live" "ramfs_entry_cache st1 \<in> K" "e \<in> live (ramfs_entry_cache st1)"
    using inv dir 1(2) by (auto simp: entries_inv_def st1_def)
  have n1: "fn_refcount (fs_node st1 ?n) \<noteq> 1" "re_node (rf_entry st1 e) = ?n" "ramfs_entry_cache st1 = ?ec" using n(2) by (auto simp: st1_def)
  let ?live = "live(?ec := live ?ec - {e})" and ?de = "de(dir := remove1 e (de dir))"
  obtain k where d: "ramfs_entry_destroy e st1 = Some (upd_node ?n (\<lambda>x. x\<lparr>fn_refcount := fn_refcount x - 1\<rparr>) st1\<lparr>fs_kmem := k\<rparr>)"
    "kmem_inv P k K ?live"
    using ramfs_entry_destroy_ok [OF kinv n1(2) n(1) n1(1)] n1(3) by auto
  define st2 where "st2 = upd_node ?n (\<lambda>x. x\<lparr>fn_refcount := fn_refcount x - 1\<rparr>) st1\<lparr>fs_kmem := k\<rparr>"
  have "detachable st2 entry" using det by (simp add: detachable_def st2_def st1_def)
  then obtain h2 en where v: "vfs_entry_detach entry st2 = Some (st2\<lparr>fs_entry_links := h2, fs_entry := en\<rparr>)" "\<not> fe_cached (en entry)"
    using vfs_entry_detach_ok by blast
  define st3 where "st3 = st2\<lparr>fs_entry_links := h2, fs_entry := en\<rparr>"
  have call: "ramfs_entry_unlink dir entry st = Some (0, st3)"
    using 1(1,3) er(1) d(1) v(1) by (simp add: ramfs_entry_unlink_def st1_def [symmetric] st2_def [symmetric] st3_def)
  have s3: "rf_entry st3 = rf_entry st" "rf_entry_links st3 = h" "fs_kmem st3 = k" "ramfs_entry_cache st3 = ?ec"
    "ramfs_node_cache st3 = ramfs_node_cache st"
    "\<And>m. fn_children (fs_node st3 m) = (if m = dir then root else fn_children (fs_node st m))"
    by (simp_all add: st3_def st2_def st1_def)
  have dist: "set (remove1 e (de dir)) = set (de dir) - {e}"
    using by_name.index_distinct [OF entries_index [OF inv dir]] by (rule set_remove1_eq)
  have oth: "e \<notin> set (de d)" "(set (de dir) - {e}) \<inter> set (de d) = {}" if "d \<in> D" "d \<noteq> dir" for d
  proof -
    have "set (de dir) \<inter> set (de d) = {}" using inv dir that by (simp add: entries_inv_def)
    then show "e \<notin> set (de d)" "(set (de dir) - {e}) \<inter> set (de d) = {}" using 1(2) by blast+
  qed
  have "by_name.index (ename st3) (rf_entry_links st3) (fn_children (fs_node st3 d)) (?de d)" if dD: "d \<in> D" for d
    using er(2) by_name.index_frame [OF entries_index [OF inv dD] er(3)] oth [OF dD] by (simp add: s3)
  moreover have "\<forall>d \<in> D. set (?de d) \<subseteq> ?live ?ec"
  proof
    fix d assume "d \<in> D"
    moreover from this have "set (de d) \<subseteq> live ?ec" using inv by (simp add: entries_inv_def)
    ultimately show "set (?de d) \<subseteq> ?live ?ec" using oth(1) dist by auto
  qed
  moreover have "\<forall>d \<in> D. \<forall>d' \<in> D. d \<noteq> d' \<longrightarrow> set (?de d) \<inter> set (?de d') = {}"
  proof (intro ballI impI)
    fix d d' assume "d \<in> D" "d' \<in> D" "d \<noteq> d'"
    moreover from this have "set (de d) \<inter> set (de d') = {}" using inv by (simp add: entries_inv_def)
    ultimately show "set (?de d) \<inter> set (?de d') = {}" using dist by auto
  qed
  ultimately have inv3: "entries_inv st3 K ?live P D ?de" using inv d(2) by (simp add: entries_inv_def s3)
  have "dir_map st3 d = (if d = dir then (dir_map st d)(nm := None) else dir_map st d)" if dD: "d \<in> D" for d
  proof (cases "d = dir")
    case True
    then show ?thesis using dir_map_remove [OF inv inv3 dir dir, of e] 1(2,4) dist by (simp add: s3 nm_def)
  next
    case False
    then show ?thesis using dir_map_cong [OF inv inv3 dD dD] by (simp add: s3)
  qed
  moreover have "\<forall>m. fn_refcount (fs_node st3 m) = (if m = ?n then fn_refcount (fs_node st m) - 1 else fn_refcount (fs_node st m))"
    "fn_size (fs_node st3 dir) = fn_size (fs_node st dir) - 1" "\<not> fe_cached (fs_entry st3 entry)"
    using v(2) by (simp_all add: st3_def st2_def st1_def)
  ultimately show ?thesis using call inv3 1(5) unfolding nm_def by (intro exI [of _ 0] exI [of _ st3] exI [of _ ?live] exI [of _ ?de]) simp
qed

section \<open>Listing a directory\<close>

lemma rbtree_nodes_nonzero: "rbtree h root t \<Longrightarrow> j < length (nodes t) \<Longrightarrow> nodes t ! j \<noteq> 0"
  using rep_nonzero [of h 0 t] nth_mem [of j "nodes t"] unfolding rbtree_def tree_at_def by metis

lemma skip_entries_ok:
  assumes "rbtree h root t" and "j \<le> length (nodes t)"
  shows "skip_entries h (if j < length (nodes t) then nodes t ! j else 0) (int k) =
    Some (if j + k < length (nodes t) then nodes t ! (j + k) else 0)"
  using assms(2)
proof (induction k arbitrary: j)
  case 0
  then show ?case by (subst skip_entries.simps) simp
next
  case (Suc k)
  show ?case
  proof (cases "j < length (nodes t)")
    case True
    then have "nodes t ! j \<noteq> 0" by (rule rbtree_nodes_nonzero [OF assms(1)])
    moreover have "rb_next h (nodes t ! j) = Some (if j + 1 < length (nodes t) then nodes t ! (j + 1) else 0)"
      using rb_next_ok [OF assms(1) True] by blast
    ultimately show ?thesis using Suc.IH [of "j + 1"] True by (subst skip_entries.simps) simp
  next
    case False
    then show ?thesis by (subst skip_entries.simps) simp
  qed
qed

lemma emit_entries_ok:
  assumes t: "rbtree (rf_entry_links st) root t" and "j \<le> length (nodes t)" and "length (rd_entries ctx) \<le> rd_count ctx"
  defines "m \<equiv> min (rd_count ctx - length (rd_entries ctx)) (length (nodes t) - j)"
  shows "emit_entries st (if j < length (nodes t) then nodes t ! j else 0) ctx =
    Some (ctx\<lparr>ctx_offset := ctx_offset ctx + int m, rd_entries := rd_entries ctx @ map (\<lambda>e. take 255 (ename st e)) (take m (drop j (nodes t)))\<rparr>)"
  using assms(2,3) unfolding m_def
proof (induction "length (nodes t) - j" arbitrary: j ctx)
  case 0
  then show ?case by (subst emit_entries.simps) simp
next
  case (Suc d)
  then have j: "j < length (nodes t)" by simp
  have nz: "nodes t ! j \<noteq> 0" by (rule rbtree_nodes_nonzero [OF t j])
  have nx: "rb_next (rf_entry_links st) (nodes t ! j) = Some (if j + 1 < length (nodes t) then nodes t ! (j + 1) else 0)"
    using rb_next_ok [OF t j] by blast
  show ?case
  proof (cases "length (rd_entries ctx) = rd_count ctx")
    case True
    then show ?thesis using j nz nx by (subst emit_entries.simps) (simp add: readdir_next_entry_def)
  next
    case False
    let ?ctx = "ctx\<lparr>rd_entries := rd_entries ctx @ [take 255 (ename st (nodes t ! j))], ctx_offset := ctx_offset ctx + 1\<rparr>"
    have m: "min (rd_count ctx - length (rd_entries ctx)) (length (nodes t) - j) =
      Suc (min (rd_count ?ctx - length (rd_entries ?ctx)) (length (nodes t) - (j + 1)))"
      using False Suc.prems(2) j by simp
    have dr: "drop j (nodes t) = nodes t ! j # drop (j + 1) (nodes t)" using Cons_nth_drop_Suc [OF j] by simp
    have "emit_entries st (if j + 1 < length (nodes t) then nodes t ! (j + 1) else 0) ?ctx =
      Some (?ctx\<lparr>ctx_offset := ctx_offset ?ctx + int (min (rd_count ?ctx - length (rd_entries ?ctx)) (length (nodes t) - (j + 1))),
        rd_entries := rd_entries ?ctx @ map (\<lambda>e. take 255 (ename st e)) (take (min (rd_count ?ctx - length (rd_entries ?ctx)) (length (nodes t) - (j + 1))) (drop (j + 1) (nodes t)))\<rparr>)"
      by (rule Suc.hyps) (use Suc.hyps(2) Suc.prems False j in simp_all)
    moreover have "emit_entries st (if j < length (nodes t) then nodes t ! j else 0) ctx =
      emit_entries st (if j + 1 < length (nodes t) then nodes t ! (j + 1) else 0) ?ctx"
      using j nz nx False by (subst emit_entries.simps) (simp add: readdir_next_entry_def)
    ultimately show ?thesis unfolding m dr by (simp del: emit_entries.simps)
  qed
qed

lemma ramfs_iterate_ok:
  assumes inv: "entries_inv st K live P D de" and d: "ff_node dir \<in> D" and off: "0 \<le> ctx_offset ctx"
    and len: "length (rd_entries ctx) \<le> rd_count ctx"
  defines "k \<equiv> nat (ctx_offset ctx)" and "names \<equiv> map (ename st) (de (ff_node dir))"
  defines "m \<equiv> min (rd_count ctx - length (rd_entries ctx)) (length names - k)"
  shows "ramfs_iterate dir ctx st =
    Some (0, ctx\<lparr>ctx_offset := ctx_offset ctx + int m, rd_entries := rd_entries ctx @ map (take 255) (take m (drop k names))\<rparr>)"
proof -
  let ?h = "rf_entry_links st" and ?root = "fn_children (fs_node st (ff_node dir))"
  obtain t where t: "rbtree ?h ?root t" "nodes t = de (ff_node dir)" using entries_index [OF inv d] by (auto simp: by_name.index_def)
  have lm: "rb_leftmost ?h ?root = Some (if 0 < length (nodes t) then nodes t ! 0 else 0)"
  proof (cases "nodes t")
    case Nil
    then have "?root = 0" using t(1) by (simp add: rbtree_def tree_at_def)
    then show ?thesis using Nil by (simp add: rb_leftmost_def)
  next
    case Cons
    then show ?thesis using rb_next_ok [OF t(1), of 0] by simp
  qed
  have "skip_entries ?h (if 0 < length (nodes t) then nodes t ! 0 else 0) (int k) = Some (if k < length (nodes t) then nodes t ! k else 0)"
    using skip_entries_ok [OF t(1), of 0 k] by simp
  then have sk: "skip_entries ?h (if 0 < length (nodes t) then nodes t ! 0 else 0) (ctx_offset ctx) = Some (if k < length (nodes t) then nodes t ! k else 0)"
    using off by (simp add: k_def)
  let ?j = "min k (length (nodes t))"
  have cur: "(if k < length (nodes t) then nodes t ! k else 0) = (if ?j < length (nodes t) then nodes t ! ?j else 0)" by simp
  have m: "min (rd_count ctx - length (rd_entries ctx)) (length (nodes t) - ?j) = m" by (simp add: m_def names_def t(2))
  have dr: "drop ?j (nodes t) = drop k (nodes t)" by (simp add: min_def)
  have em: "emit_entries st (if k < length (nodes t) then nodes t ! k else 0) ctx =
    Some (ctx\<lparr>ctx_offset := ctx_offset ctx + int m, rd_entries := rd_entries ctx @ map (take 255) (take m (drop k names))\<rparr>)"
    using emit_entries_ok [OF t(1) _ len, of ?j] unfolding cur m dr names_def by (simp add: t(2) take_map drop_map comp_def)
  show ?thesis unfolding ramfs_iterate_def lm bind.bind_lunit sk em ..
qed

section \<open>The contract of directories\<close>

definition sample_dirs :: fs where
  "sample_dirs = sample_fs\<lparr>fs_kmem := kmem_small_cache_init 8 100 (2 ^ 4) (kmem_small_cache_init 7 100 (2 ^ 4) sample_kmem),
     ramfs_entry_cache := 8, fs_entry := (\<lambda>_. \<lparr>fe_children = 0, fe_parent = 0, fe_node = 9, fe_name = [97], fe_cached = False, fe_refcount = 1\<rparr>)\<rparr>"

text \<open>A file system with one empty directory, made by \<^verbatim>\<open>ramfs_node_create\<close>.\<close>

lemma sample_dir:
  obtains n st live where "ramfs_node_create ramfs_dir_node_ops ramfs_dir_ops sample_dirs = Some (n, st)" "n \<noteq> 0"
    "entries_inv st {7, 8} live {} {n} (\<lambda>_. [])" "fs_entry st = fs_entry sample_dirs" "fs_node st n = fresh_node ramfs_dir_node_ops ramfs_dir_ops 2"
    "fs_node st (Suc n) = sample_fnode"
proof -
  have k: "kmem_inv {} (fs_kmem sample_dirs) {7, 8} (\<lambda>_. {})"
    using kmem_small_cache_init_ok [OF sample_cache_inv, of 8 100 4] by (simp add: sample_dirs_def const_upd insert_commute)
  have c: "ramfs_node_cache sample_dirs = 7" "ramfs_entry_cache sample_dirs = 8" by (simp_all add: sample_dirs_def sample_fs_def)
  have np: "\<not> no_pages sample_dirs"
    by (rule sample_not_full) (simp add: sample_dirs_def sample_kmem_def)
  obtain n k where n: "kmem_inv {} k {7, 8} (if n = 0 then (\<lambda>_. {}) else (\<lambda>_. {})(7 := {n}))"
    "ramfs_node_create ramfs_dir_node_ops ramfs_dir_ops sample_dirs = Some (n, if n = 0 then sample_dirs\<lparr>fs_kmem := k\<rparr>
       else sample_dirs\<lparr>fs_kmem := k, fs_node := (fs_node sample_dirs)(n := fresh_node ramfs_dir_node_ops ramfs_dir_ops 2)\<rparr>)"
    "if n = 0 then no_pages sample_dirs else n \<notin> {}"
    using ramfs_node_create_ok [OF k, of ramfs_dir_node_ops ramfs_dir_ops] unfolding c by auto
  have n0: "n \<noteq> 0" by (rule notI) (use n(3) np in simp)
  show thesis
    by (rule that [of n "sample_dirs\<lparr>fs_kmem := k, fs_node := (fs_node sample_dirs)(n := fresh_node ramfs_dir_node_ops ramfs_dir_ops 2)\<rparr>"
            "(\<lambda>_. {})(7 := {n})"])
      (use n n0 by_name.index_empty in \<open>simp_all add: entries_inv_def c\<close>, simp_all add: sample_dirs_def sample_fs_def)
qed

text \<open>C21: \<^verbatim>\<open>ramfs_create\<close> and \<^verbatim>\<open>ramfs_mkdir\<close> refine the insertion of a name into a directory that is a map from names to nodes. They always return with the invariants kept. A name that exists gives \<^verbatim>\<open>-EEXIST\<close> and changes nothing. Otherwise they give \<^verbatim>\<open>-ENOMEM\<close>, only when there is no free page before or after the call, and no directory changes, or they bind the name to a new node, empty as a directory, and change no other name of any directory. The new node has three references although only the directory and the path entry hold it.\<close>

theorem ramfs_create_correct:
  assumes "dirs_inv st K live P D" and "dir \<in> D" and "ok_name (fe_name (fs_entry st file))"
    and "(create, ops, fops) = (ramfs_create, ramfs_file_node_ops, ramfs_file_ops) \<or>
      (create, ops, fops) = (ramfs_mkdir, ramfs_dir_node_ops, ramfs_dir_ops)"
  defines "nm \<equiv> fe_name (fs_entry st file)"
  shows "\<exists>r st' live' D'. create dir file st = Some (r, st') \<and> dirs_inv st' K live' P D' \<and>
    (case dir_map st dir nm of
       Some _ \<Rightarrow> r = - EEXIST \<and> st' = st \<and> D' = D
     | None \<Rightarrow> r = - ENOMEM \<and> (no_pages st \<or> no_pages st') \<and> D' = D \<and> (\<forall>d \<in> D. dir_map st' d = dir_map st d) \<or>
         r = 0 \<and> (\<exists>node. node \<notin> live (ramfs_node_cache st) \<and> D' = insert node D \<and> fs_node st' node = fresh_node ops fops 3 \<and>
           fe_node (fs_entry st' file) = node \<and> dir_map st' node = Map.empty \<and>
           (\<forall>d \<in> D. dir_map st' d = (if d = dir then (dir_map st d)(nm \<mapsto> node) else dir_map st d))))"
proof -
  obtain de where inv: "entries_inv st K live P D de" using assms(1) by (auto simp: dirs_inv_def)
  have "create = ramfs_create_ops ops fops" using assms(4) by (auto simp: ramfs_create_def ramfs_mkdir_def)
  then show ?thesis using ramfs_create_ops_ok [OF inv assms(2,3), of ops fops] unfolding dirs_inv_def nm_def by blast
qed

theorem ramfs_create_correct_witness:
  "\<exists>n st r st'. ramfs_node_create ramfs_dir_node_ops ramfs_dir_ops sample_dirs = Some (n, st) \<and> n \<noteq> 0 \<and>
     ramfs_create n 5 st = Some (r, st') \<and> (r = 0 \<and> dir_map st' n [97] \<noteq> None \<or> r = - ENOMEM \<and> dir_map st' n [97] = None)"
proof -
  obtain n st live where n: "ramfs_node_create ramfs_dir_node_ops ramfs_dir_ops sample_dirs = Some (n, st)" "n \<noteq> 0"
    "entries_inv st {7, 8} live {} {n} (\<lambda>_. [])" "fs_entry st = fs_entry sample_dirs" by (rule sample_dir) blast
  have inv: "dirs_inv st {7, 8} live {} {n}" using n(3) by (auto simp: dirs_inv_def)
  have nm: "fe_name (fs_entry st 5) = [97]" using n(4) by (simp add: sample_dirs_def)
  have "dir_map st n [97] = None" using dir_map_Some [OF n(3), of n "[97]"] by (cases "dir_map st n [97]") auto
  then show ?thesis
    using ramfs_create_correct [OF inv _ _ disjI1 [OF refl], of n 5] n(1,2) by (fastforce simp: nm)
qed

text \<open>\<^verbatim>\<open>ramfs_lookup\<close> in a directory gives \<^verbatim>\<open>-ENOENT\<close> for a name the directory does not bind, and otherwise stores the node of the name in the path entry with one reference more; no directory changes.\<close>

theorem ramfs_lookup_correct:
  assumes "dirs_inv st K live P D" and "dir \<in> D" and "ok_name (fe_name (fs_entry st e))" and "fn_ops (fs_node st dir) = ramfs_dir_node_ops"
  shows "ramfs_lookup dir e st =
    (case dir_map st dir (fe_name (fs_entry st e)) of
       None \<Rightarrow> Some (- ENOENT, st)
     | Some n \<Rightarrow> Some (0, upd_entry e (fe_node_update (\<lambda>_. n)) (vfs_node_get n st))) \<and>
    (\<forall>n d. dir_map (upd_entry e (fe_node_update (\<lambda>_. n)) (vfs_node_get n st)) d = dir_map st d)"
proof
  obtain de where inv: "entries_inv st K live P D de" using assms(1) by (auto simp: dirs_inv_def)
  show "ramfs_lookup dir e st =
    (case dir_map st dir (fe_name (fs_entry st e)) of
       None \<Rightarrow> Some (- ENOENT, st)
     | Some n \<Rightarrow> Some (0, upd_entry e (fe_node_update (\<lambda>_. n)) (vfs_node_get n st)))"
    by (cases rule: entry_lookup_cases [OF inv assms(2,3)]) (simp_all add: ramfs_lookup_def assms(4) Let_def)
  show "\<forall>n d. dir_map (upd_entry e (fe_node_update (\<lambda>_. n)) (vfs_node_get n st)) d = dir_map st d"
    by (intro allI dir_map_same) (simp_all add: upd_entry_def vfs_node_get_def)
qed

theorem ramfs_lookup_correct_witness:
  "\<exists>n st. ramfs_node_create ramfs_dir_node_ops ramfs_dir_ops sample_dirs = Some (n, st) \<and> n \<noteq> 0 \<and> ramfs_lookup n 5 st = Some (- ENOENT, st)"
proof -
  obtain n st live where n: "ramfs_node_create ramfs_dir_node_ops ramfs_dir_ops sample_dirs = Some (n, st)" "n \<noteq> 0"
    "entries_inv st {7, 8} live {} {n} (\<lambda>_. [])" "fs_entry st = fs_entry sample_dirs" "fs_node st n = fresh_node ramfs_dir_node_ops ramfs_dir_ops 2"
    by (rule sample_dir) blast
  have inv: "dirs_inv st {7, 8} live {} {n}" using n(3) by (auto simp: dirs_inv_def)
  have "dir_map st n [97] = None" using dir_map_Some [OF n(3), of n "[97]"] by (cases "dir_map st n [97]") auto
  then show ?thesis using ramfs_lookup_correct [OF inv, of n 5] n by (auto simp: sample_dirs_def)
qed



text \<open>C23: \<^verbatim>\<open>ramfs_iterate\<close> lists a directory: there is one list of exactly the names the directory binds, in strictly increasing order of \<^verbatim>\<open>strcmp\<close> and so without repetition, and from any offset the call returns, emits the names from that position on until the entries of the caller are used up or the list ends, cut to 255 bytes each, and advances the offset by the number of names emitted.\<close>

theorem ramfs_iterate_correct:
  assumes "dirs_inv st K live P D" and "ff_node dir \<in> D"
  shows "\<exists>names. set names = dom (dir_map st (ff_node dir)) \<and> sorted_wrt (\<lambda>a b. str_cmp a b < 0) names \<and> distinct names \<and>
    (\<forall>ctx k. ctx_offset ctx = int k \<longrightarrow> length (rd_entries ctx) \<le> rd_count ctx \<longrightarrow>
       (let m = min (rd_count ctx - length (rd_entries ctx)) (length names - k)
        in ramfs_iterate dir ctx st =
          Some (0, ctx\<lparr>ctx_offset := int (k + m), rd_entries := rd_entries ctx @ map (take 255) (take m (drop k names))\<rparr>)))"
proof -
  obtain de where inv: "entries_inv st K live P D de" using assms(1) by (auto simp: dirs_inv_def)
  let ?names = "map (ename st) (de (ff_node dir))"
  note ix = entries_index [OF inv assms(2)]
  have "set ?names = dom (dir_map st (ff_node dir))" using dir_map_Some [OF inv assms(2)] by (auto simp: dom_def)
  moreover have "sorted_wrt (\<lambda>a b. str_cmp a b < 0) ?names" using ix by (simp add: by_name.index_def sorted_wrt_map)
  moreover have "distinct ?names"
    using by_name.index_distinct [OF ix] by_name.index_inj [OF ix] by (auto simp: distinct_map inj_on_def)
  moreover have "ramfs_iterate dir ctx st =
      Some (0, ctx\<lparr>ctx_offset := int (k + m), rd_entries := rd_entries ctx @ map (take 255) (take m (drop k ?names))\<rparr>)"
    if "ctx_offset ctx = int k" "length (rd_entries ctx) \<le> rd_count ctx" "m = min (rd_count ctx - length (rd_entries ctx)) (length ?names - k)"
    for ctx :: readdir_ctx and k m
    using ramfs_iterate_ok [OF inv assms(2) _ that(2)] that(1,3) by simp
  ultimately show ?thesis unfolding Let_def by blast
qed

theorem ramfs_iterate_correct_witness:
  "\<exists>n st. ramfs_node_create ramfs_dir_node_ops ramfs_dir_ops sample_dirs = Some (n, st) \<and> n \<noteq> 0 \<and>
     ramfs_iterate (sample_file\<lparr>ff_node := n\<rparr>) \<lparr>ctx_offset = 0, rd_entries = [], rd_count = 4\<rparr> st =
       Some (0, \<lparr>ctx_offset = 0, rd_entries = [], rd_count = 4\<rparr>)"
proof -
  obtain n st live where n: "ramfs_node_create ramfs_dir_node_ops ramfs_dir_ops sample_dirs = Some (n, st)" "n \<noteq> 0"
    "entries_inv st {7, 8} live {} {n} (\<lambda>_. [])" by (rule sample_dir) blast
  have inv: "dirs_inv st {7, 8} live {} {n}" using n(3) by (auto simp: dirs_inv_def)
  have "dir_map st n nm = None" for nm using dir_map_Some [OF n(3), of n nm] by (cases "dir_map st n nm") auto
  then have "dom (dir_map st n) = {}" by auto
  then show ?thesis
    using ramfs_iterate_correct [OF inv, of "sample_file\<lparr>ff_node := n\<rparr>"] n(1,2)
    by (auto dest!: spec [of _ "\<lparr>ctx_offset = 0, rd_entries = [], rd_count = 4\<rparr>"])
qed

end
