(* ===== verification/Vfs_Inv.thy ===== *)
theory Vfs_Inv
  imports Vfs Ramfs_Dirs
begin

text \<open>
  Correctness of \<^verbatim>\<open>src/vfs.c\<close>: path walking follows the components of the path, and the lookup keeps the
  cache of path entries of a directory an index by name.
\<close>

section \<open>Walking a path\<close>

text \<open>The components of a path are the non-empty pieces between separators.\<close>

function path_components :: "name \<Rightarrow> name list" where
  "path_components path =
     (let p = dropWhile (\<lambda>c. c = 47) path
      in if p = [] then [] else takeWhile (\<lambda>c. c \<noteq> 47) p # path_components (dropWhile (\<lambda>c. c \<noteq> 47) p))"
  by pat_completeness auto
termination
proof (relation "measure length")
  fix path p :: name
  assume p: "p = dropWhile (\<lambda>c. c = 47) path" "p \<noteq> []"
  then have "hd p \<noteq> 47" using hd_dropWhile [of "\<lambda>c. c = 47" path] by auto
  then have "length (dropWhile (\<lambda>c. c \<noteq> 47) p) < length p" using p(2) length_dropWhile_le [of _ "tl p"] by (cases p) (auto simp: le_imp_less_Suc)
  also have "length p \<le> length path" unfolding p(1) by (rule length_dropWhile_le)
  finally show "(dropWhile (\<lambda>c. c \<noteq> 47) p, path) \<in> measure length" by simp
qed simp

declare path_components.simps [simp del]

text \<open>One component: the entry itself, its parent, or the child of that name, found under the lock of the directory.\<close>

definition walk_name :: "name \<Rightarrow> nat \<Rightarrow> fs \<Rightarrow> (int \<times> nat \<times> fs) option" where
  "walk_name name e st =
     (if name = [46] then Some (0, e, st)
      else if name = [46, 46]
      then do { st' \<leftarrow> vfs_entry_put e (vfs_entry_get (fe_parent (fs_entry st e)) st); Some (0, fe_parent (fs_entry st e), st') }
      else do {
        let node = fe_node (fs_entry st e);
        st \<leftarrow> node_lock node st;
        (c, rc, st) \<leftarrow> vfs_lookup e name False st;
        let st = node_unlock node st;
        if c = 0 then Some (rc, e, st) else do { st \<leftarrow> vfs_entry_put e st; Some (0, c, st) }
      })"

fun walk_names :: "name list \<Rightarrow> nat \<Rightarrow> fs \<Rightarrow> (int \<times> nat \<times> fs) option" where
  "walk_names [] e st = Some (0, e, st)"
| "walk_names (n # ns) e st = do {
     (rc, e, st) \<leftarrow> walk_name n e st;
     if rc \<noteq> 0 then Some (rc, e, st) else walk_names ns e st
   }"

text \<open>The buffers of a walk hold the next component and the rest of the path after it.\<close>

definition walk_at :: "name list \<Rightarrow> name \<Rightarrow> name \<Rightarrow> bool" where
  "walk_at cs next tail \<longleftrightarrow>
     (case cs of [] \<Rightarrow> next = [] \<and> tail = []
      | c # cs \<Rightarrow> c = next \<and> c \<noteq> [] \<and> path_components tail = cs \<and> (tail = [] \<or> hd tail \<noteq> 47))"

lemma next_entry_components:
  assumes "\<forall>c \<in> set (path_components path). length c < MAX_PATH_LEN"
  shows "\<exists>next tail. vfs_path_next_entry (vfs_path_skip_sep path) = Some (next, tail) \<and> walk_at (path_components path) next tail"
proof -
  define p where "p = vfs_path_skip_sep path"
  define nx where "nx = takeWhile (\<lambda>c. c \<noteq> 47) p"
  define rest where "rest = dropWhile (\<lambda>c. c \<noteq> 47) p"
  let ?tail = "vfs_path_skip_sep rest"
  have "path_components ?tail = path_components rest"
    by (subst (1 2) path_components.simps) (simp add: vfs_path_skip_sep_def Let_def)
  moreover have "?tail = [] \<or> hd ?tail \<noteq> 47" using hd_dropWhile [of "\<lambda>c. c = 47" rest] by (auto simp: vfs_path_skip_sep_def)
  moreover have "path_components path = (if p = [] then [] else nx # path_components rest)"
    by (subst path_components.simps) (simp add: p_def nx_def rest_def vfs_path_skip_sep_def Let_def)
  moreover have "p \<noteq> [] \<Longrightarrow> nx \<noteq> []"
    using hd_dropWhile [of "\<lambda>c. c = 47" path] unfolding nx_def p_def vfs_path_skip_sep_def takeWhile_eq_Nil_iff by metis
  moreover have "p = [] \<Longrightarrow> nx = [] \<and> rest = []" by (simp add: nx_def rest_def)
  ultimately show ?thesis using assms unfolding p_def [symmetric]
    by (cases "p = []") (auto simp: vfs_path_next_entry_def walk_at_def Let_def nx_def [symmetric] rest_def [symmetric] MAX_PATH_LEN_def vfs_path_skip_sep_def)
qed

lemma skip_sep_id: "tail = [] \<or> hd tail \<noteq> 47 \<Longrightarrow> vfs_path_skip_sep tail = tail"
  by (cases tail) (auto simp: vfs_path_skip_sep_def)

lemma vfs_lookup_null: "vfs_lookup dir name create st = Some (0, rc, st') \<Longrightarrow> rc \<noteq> 0"
  unfolding vfs_lookup_def by (auto simp: Let_def split: if_splits option.splits Option.bind_splits prod.splits)

lemma walk_name_entry: "walk_name c e st = Some (rc, e', st') \<Longrightarrow> rc \<noteq> 0 \<Longrightarrow> e' = e"
  by (auto simp: walk_name_def Let_def split: if_splits Option.bind_splits prod.splits)

lemma walk_step:
  assumes "walk_at (c # cs) nx tail" and "\<forall>x \<in> set cs. length x < MAX_PATH_LEN"
  obtains nx' tail' where "walk_at cs nx' tail'"
    "\<And>e st. vfs_walk \<lparr>wd_entry = e, wd_next = nx, wd_tail = tail\<rparr> st =
      do { (rc, e', st') \<leftarrow> walk_name c e st;
           Some (rc, if rc = 0 then \<lparr>wd_entry = e', wd_next = nx', wd_tail = tail'\<rparr> else \<lparr>wd_entry = e', wd_next = nx, wd_tail = tail\<rparr>, st') }"
proof -
  have t: "path_components tail = cs" "vfs_path_skip_sep tail = tail" "c = nx" "nx \<noteq> []" using assms(1) skip_sep_id by (auto simp: walk_at_def)
  obtain nx' tail' where n: "vfs_path_next_entry tail = Some (nx', tail')" "walk_at cs nx' tail'"
    using next_entry_components [of tail] assms(2) t(1,2) by auto
  show thesis
  proof (rule that [OF n(2)])
    fix e st
    show "vfs_walk \<lparr>wd_entry = e, wd_next = nx, wd_tail = tail\<rparr> st =
      do { (rc, e', st') \<leftarrow> walk_name c e st;
           Some (rc, if rc = 0 then \<lparr>wd_entry = e', wd_next = nx', wd_tail = tail'\<rparr> else \<lparr>wd_entry = e', wd_next = nx, wd_tail = tail\<rparr>, st') }"
      using t(3,4) n(1) vfs_lookup_null [of e nx False]
      by (auto simp: vfs_walk_def walk_name_def Let_def split: Option.bind_splits prod.splits if_splits)
  qed
qed

lemma vfs_walk_all_names:
  assumes "walk_at cs nx tail" and "\<forall>x \<in> set cs. length x < MAX_PATH_LEN"
  shows "map_option (\<lambda>(rc, wd, st). (rc, wd_entry wd, st)) (vfs_walk_all \<lparr>wd_entry = e, wd_next = nx, wd_tail = tail\<rparr> st) = walk_names cs e st"
  using assms
proof (induction cs arbitrary: nx tail e st)
  case Nil
  then show ?case by (subst vfs_walk_all.simps) (simp add: walk_at_def)
next
  case (Cons c cs)
  obtain nx' tail' where n: "walk_at cs nx' tail'"
    "\<And>e st. vfs_walk \<lparr>wd_entry = e, wd_next = nx, wd_tail = tail\<rparr> st =
      do { (rc, e', st') \<leftarrow> walk_name c e st;
           Some (rc, if rc = 0 then \<lparr>wd_entry = e', wd_next = nx', wd_tail = tail'\<rparr> else \<lparr>wd_entry = e', wd_next = nx, wd_tail = tail\<rparr>, st') }"
    by (rule walk_step [OF Cons.prems(1)]) (use Cons.prems(2) in auto)
  have "nx \<noteq> []" using Cons.prems(1) by (auto simp: walk_at_def)
  then show ?case using Cons.IH [OF n(1)] Cons.prems(2) n(2) by (subst vfs_walk_all.simps) (auto split: Option.bind_splits)
qed

text \<open>A walk to the parent stops in front of the last component, which is left in the buffer.\<close>

lemma vfs_walk_parent_names:
  assumes "walk_at (cs @ [l]) nx tail" and "\<forall>x \<in> set (cs @ [l]). length x < MAX_PATH_LEN"
  shows "map_option (\<lambda>(rc, wd, st). (rc, wd_entry wd, if rc = 0 then wd_next wd else l, st))
      (vfs_walk_parent \<lparr>wd_entry = e, wd_next = nx, wd_tail = tail\<rparr> st) =
    map_option (\<lambda>(rc, e, st). (rc, e, l, st)) (walk_names cs e st)"
  using assms
proof (induction cs arbitrary: nx tail e st)
  case Nil
  then have "nx = l" "tail = []" using path_components.simps [of tail] by (cases tail; auto simp: walk_at_def Let_def)+
  then show ?case by (subst vfs_walk_parent.simps) simp
next
  case (Cons c cs)
  obtain nx' tail' where n: "walk_at (cs @ [l]) nx' tail'"
    "\<And>e st. vfs_walk \<lparr>wd_entry = e, wd_next = nx, wd_tail = tail\<rparr> st =
      do { (rc, e', st') \<leftarrow> walk_name c e st;
           Some (rc, if rc = 0 then \<lparr>wd_entry = e', wd_next = nx', wd_tail = tail'\<rparr> else \<lparr>wd_entry = e', wd_next = nx, wd_tail = tail\<rparr>, st') }"
    by (rule walk_step [of c "cs @ [l]"]) (use Cons.prems in auto)
  have "tail \<noteq> []" using Cons.prems(1) path_components.simps [of tail] by (auto simp: walk_at_def)
  then show ?case using Cons.IH [OF n(1)] Cons.prems(2) n(2) by (subst vfs_walk_parent.simps) (auto split: Option.bind_splits)
qed

text \<open>C25: Resolving a path is walking its components from the root, where the components are the non-empty pieces of the path between slashes: the loops of \<^verbatim>\<open>vfs_walk_all\<close> over the two buffers end and agree, in the code they return, the entry they reach and every change of the state, with one step per component that stops at the first error; the reference on the last entry passes to the caller and is dropped on an error.\<close>

theorem vfs_resolve_path_correct:
  assumes "\<forall>c \<in> set (path_components path). length c < MAX_PATH_LEN"
  shows "vfs_resolve_path path st = do {
     (rc, e, st) \<leftarrow> walk_names (path_components path) (fs_root_entry st) (vfs_entry_get (fs_root_entry st) st);
     if rc \<noteq> 0 then do { st \<leftarrow> vfs_entry_put e st; Some (0, rc, st) }
     else do { st \<leftarrow> vfs_entry_put e (vfs_entry_get e st); Some (e, 0, st) }
   }"
proof -
  obtain nx tail where n: "vfs_path_next_entry (vfs_path_skip_sep path) = Some (nx, tail)" "walk_at (path_components path) nx tail"
    using next_entry_components [OF assms] by blast
  note w = vfs_walk_all_names [OF n(2) assms, of "fs_root_entry st" "vfs_entry_get (fs_root_entry st) st", symmetric]
  show ?thesis unfolding vfs_resolve_path_def vfs_walk_start_def n(1) w
    by (auto simp: vfs_walk_stop_def Let_def split: option.splits Option.bind_splits)
qed

theorem vfs_resolve_path_correct_witness:
  "\<exists>st. vfs_resolve_path [47, 46, 47, 47, 46, 47] (sample_dirs\<lparr>fs_root_entry := 5\<rparr>) = Some (5, 0, st) \<and> fe_refcount (fs_entry st 5) = 2"
proof -
  have c: "path_components [47, 46, 47, 47, 46, 47] = [[46], [46]]"
    by (simp add: path_components.simps Let_def)
  have "\<forall>c \<in> set (path_components [47, 46, 47, 47, 46, 47]). length c < MAX_PATH_LEN" unfolding c by (simp add: MAX_PATH_LEN_def)
  from vfs_resolve_path_correct [OF this, of "sample_dirs\<lparr>fs_root_entry := 5\<rparr>"] show ?thesis
    unfolding c by (subst (asm) vfs_entry_put.simps) (simp add: walk_name_def vfs_entry_get_def upd_entry_def sample_dirs_def Let_def)
qed

section \<open>The cache of path entries\<close>

abbreviation dname :: "fs \<Rightarrow> nat \<Rightarrow> name" where
  "dname st c \<equiv> fe_name (fs_entry st c)"

definition dentries :: "fs \<Rightarrow> nat \<Rightarrow> nat list \<Rightarrow> bool" where
  "dentries st dir cs \<longleftrightarrow> by_name.index (dname st) (fs_entry_links st) (fe_children (fs_entry st dir)) cs"

abbreviation fresh_entry :: "nat \<Rightarrow> nat \<Rightarrow> name \<Rightarrow> fs_entry" where
  "fresh_entry dir n nm \<equiv> \<lparr>fe_children = 0, fe_parent = dir, fe_node = n, fe_name = nm, fe_cached = True, fe_refcount = 1\<rparr>"

lemma vfs_node_put_null: "vfs_node_put 0 st = Some st"
  unfolding vfs_node_put_def by (subst fs_release.simps) simp

lemma vfs_entry_put_keep:
  "fe_refcount (fs_entry st e) \<noteq> 1 \<Longrightarrow> vfs_entry_put e st = Some (upd_entry e (\<lambda>x. x\<lparr>fe_refcount := fe_refcount x - 1\<rparr>) st)"
  by (subst vfs_entry_put.simps) (simp add: Let_def upd_entry_def)

lemma upd_entry_simps [simp]:
  "fs_entry (upd_entry e f st) = (fs_entry st)(e := f (fs_entry st e))" "fs_node (upd_entry e f st) = fs_node st"
  "fs_kmem (upd_entry e f st) = fs_kmem st" "rf_entry (upd_entry e f st) = rf_entry st" "rf_entry_links (upd_entry e f st) = rf_entry_links st"
  "fs_entry_links (upd_entry e f st) = fs_entry_links st" "fs_entry_cache (upd_entry e f st) = fs_entry_cache st"
  "ramfs_node_cache (upd_entry e f st) = ramfs_node_cache st" "ramfs_entry_cache (upd_entry e f st) = ramfs_entry_cache st"
  by (simp_all add: upd_entry_def)

text \<open>Adding an entry to the cache of its directory at the place the search found.\<close>

definition cache_entry :: "nat \<Rightarrow> nat \<Rightarrow> rb_heap \<Rightarrow> nat \<Rightarrow> fs \<Rightarrow> fs" where
  "cache_entry dir e h root st =
     upd_entry e (\<lambda>x. x\<lparr>fe_parent := dir, fe_cached := True\<rparr>)
       (vfs_entry_get dir (upd_entry dir (fe_children_update (\<lambda>_. root)) (st\<lparr>fs_entry_links := h\<rparr>)))"

lemma cache_entry_ok:
  fixes k :: kmem
  assumes ds: "dentries st dir cs" and nm: "ok_name nm" "nm \<notin> dname st ` set cs" and e: "e \<noteq> 0" "e \<notin> set cs" "e \<noteq> dir" and d0: "dir \<noteq> 0"
  defines "st1 \<equiv> upd_entry e (\<lambda>_. \<lparr>fe_children = 0, fe_parent = 0, fe_node = 0, fe_name = nm, fe_cached = False, fe_refcount = 1\<rparr>) (st\<lparr>fs_kmem := k\<rparr>)"
  shows "\<exists>par pl h root cs'. rb_find (\<lambda>x. str_cmp (dname st x) nm) (fs_entry_links st) (fe_children (fs_entry st dir)) 0 RootLink = Some (0, par, pl) \<and>
    rb_insert e (rb_link e par pl (fs_entry_links st1, fe_children (fs_entry st1 dir))) = Some (h, root) \<and>
    dentries (cache_entry dir e h root st1) dir cs' \<and> set cs' = insert e (set cs) \<and> same_out (insert e (set cs)) (fs_entry_links st) h"
proof -
  obtain par pl where f: "by_name.find (dname st) nm (fs_entry_links st) (fe_children (fs_entry st dir)) = Some (0, par, pl)"
    "\<forall>n key'. n \<noteq> 0 \<longrightarrow> n \<notin> set cs \<longrightarrow> key' n = nm \<longrightarrow> (\<forall>m \<in> set cs. key' m = dname st m) \<longrightarrow>
      (\<exists>h' root' ns'. rb_insert n (rb_link n par pl (fs_entry_links st, fe_children (fs_entry st dir))) = Some (h', root') \<and>
        by_name.index key' h' root' ns' \<and> set ns' = insert n (set cs) \<and> same_out (insert n (set cs)) (fs_entry_links st) h')"
    using by_name.find_absent [OF ds [unfolded dentries_def] nm(2,1)] by blast
  have keys: "\<forall>m \<in> set cs. dname st1 m = dname st m" using e(2) by (auto simp: st1_def)
  then obtain h root cs' where r: "rb_insert e (rb_link e par pl (fs_entry_links st, fe_children (fs_entry st dir))) = Some (h, root)"
    "by_name.index (dname st1) h root cs'" "set cs' = insert e (set cs)" "same_out (insert e (set cs)) (fs_entry_links st) h"
    using f(2) [rule_format, of e "dname st1"] e by (auto simp: st1_def)
  have "dname (cache_entry dir e h root st1) x = dname st1 x" for x
    using e(3) by (simp add: cache_entry_def vfs_entry_get_def)
  then have "dentries (cache_entry dir e h root st1) dir cs'"
    using r(2) e(3) by (simp add: dentries_def cache_entry_def vfs_entry_get_def)
  then show ?thesis using f(1) r e(3) by (intro exI conjI) (auto simp: st1_def)
qed

text \<open>Dropping the only reference of a cached entry without a node takes it out of the cache again.\<close>

lemma vfs_entry_put_drop:
  assumes ds: "dentries st dir cs" and e: "e \<in> set cs" "e \<noteq> dir" "fs_entry st e = fresh_entry dir 0 nm"
    and dir: "fe_refcount (fs_entry st dir) \<noteq> 1"
    and k: "kmem_inv P (fs_kmem st) K live" "fs_entry_cache st \<in> K" "e \<in> live (fs_entry_cache st)"
  shows "\<exists>st' k h root. vfs_entry_put e st = Some st' \<and> kmem_inv P k K (live(fs_entry_cache st := live (fs_entry_cache st) - {e})) \<and>
    dentries st' dir (remove1 e cs) \<and> same_out (set cs - {e}) (fs_entry_links st) h \<and>
    st' = st\<lparr>fs_kmem := k, fs_entry_links := h, fs_entry := (fs_entry st)(dir := (fs_entry st dir)\<lparr>fe_children := root, fe_refcount := fe_refcount (fs_entry st dir) - 1\<rparr>,
      e := (fresh_entry dir 0 nm)\<lparr>fe_cached := False, fe_refcount := 0\<rparr>)\<rparr>"
proof -
  obtain h root where r: "rb_erase e (fs_entry_links st, fe_children (fs_entry st dir)) = Some (h, root)"
    "by_name.index (dname st) h root (remove1 e cs)" "same_out (set cs - {e}) (fs_entry_links st) h"
    using by_name.erase_index [OF ds [unfolded dentries_def] e(1)] by blast
  let ?en = "(fs_entry st)(dir := (fs_entry st dir)\<lparr>fe_children := root, fe_refcount := fe_refcount (fs_entry st dir) - 1\<rparr>,
      e := (fresh_entry dir 0 nm)\<lparr>fe_cached := False, fe_refcount := 0\<rparr>)"
  define st1 where "st1 = st\<lparr>fs_entry_links := h, fs_entry := (fs_entry st)(e := (fresh_entry dir 0 nm)\<lparr>fe_cached := False, fe_refcount := 0\<rparr>,
      dir := (fs_entry st dir)\<lparr>fe_children := root\<rparr>)\<rparr>"
  have det: "vfs_entry_detach_from e dir (upd_entry e (\<lambda>x. x\<lparr>fe_refcount := fe_refcount x - 1\<rparr>) st) = Some st1"
    using r(1) e by (simp add: vfs_entry_detach_from_def st1_def upd_entry_def fun_upd_twist)
  define st2 where "st2 = upd_entry dir (\<lambda>x. x\<lparr>fe_refcount := fe_refcount x - 1\<rparr>) st1"
  have put: "vfs_entry_put dir st1 = Some st2"
    unfolding st2_def by (rule vfs_entry_put_keep) (use dir in \<open>simp add: st1_def\<close>)
  have k2: "kmem_inv P (fs_kmem st2) K live" "fs_entry_cache st2 = fs_entry_cache st" using k(1) by (simp_all add: st2_def st1_def)
  obtain k' where fr: "cache_free (fs_entry_cache st) e st2 = Some (st2\<lparr>fs_kmem := k'\<rparr>)"
    "kmem_inv P k' K (live(fs_entry_cache st := live (fs_entry_cache st) - {e}))"
    using cache_free_ok [OF k2(1) k(2,3)] by blast
  have e1: "fe_parent (fs_entry st1 e) = dir" "fe_node (fs_entry st2 e) = 0" using e(2) by (simp_all add: st1_def st2_def)
  have call: "vfs_entry_put e st = Some (st2\<lparr>fs_kmem := k'\<rparr>)"
    using det put e1 fr(1) k2(2) by (subst vfs_entry_put.simps) (simp add: Let_def e(3) upd_entry_def vfs_node_put_null)
  have st2: "st2\<lparr>fs_kmem := k'\<rparr> = st\<lparr>fs_kmem := k', fs_entry_links := h, fs_entry := ?en\<rparr>"
    using e(2) by (simp add: st2_def st1_def upd_entry_def fun_upd_twist)
  have "dname (st2\<lparr>fs_kmem := k'\<rparr>) x = dname st x" for x unfolding st2 using e(3) by simp
  moreover have "fe_children (fs_entry (st2\<lparr>fs_kmem := k'\<rparr>) dir) = root" unfolding st2 using e(2) by simp
  ultimately have "dentries (st2\<lparr>fs_kmem := k'\<rparr>) dir (remove1 e cs)" using r(2) by (simp add: dentries_def st2)
  then show ?thesis using call fr(2) r(3) st2 by blast
qed

text \<open>A directory of \<^verbatim>\<open>ramfs\<close> whose path entry \<open>dir\<close> is referenced, with the cached children \<open>cs\<close>.\<close>

definition dir_entry :: "fs \<Rightarrow> nat set \<Rightarrow> (nat \<Rightarrow> nat set) \<Rightarrow> (page_ptr \<times> nat) set \<Rightarrow> nat set \<Rightarrow> nat \<Rightarrow> nat list \<Rightarrow> bool" where
  "dir_entry st K live P D dir cs \<longleftrightarrow> dirs_inv st K live P D \<and> fs_entry_cache st \<in> K \<and> dentries st dir cs \<and>
     set cs \<subseteq> live (fs_entry_cache st) \<and> dir \<in> live (fs_entry_cache st) \<and> dir \<noteq> 0 \<and> dir \<notin> set cs \<and> fe_refcount (fs_entry st dir) > 0 \<and>
     fe_node (fs_entry st dir) \<in> D \<and> fe_node (fs_entry st dir) \<noteq> 0 \<and> fn_ops (fs_node st (fe_node (fs_entry st dir))) = ramfs_dir_node_ops"

lemma vfs_lookup_hit:
  assumes "dir_entry st K live P D dir cs" and "c \<in> set cs"
  shows "vfs_lookup dir (dname st c) create st = Some (c, 0, vfs_entry_get c st)"
proof -
  have ix: "by_name.index (dname st) (fs_entry_links st) (fe_children (fs_entry st dir)) cs" using assms(1) by (simp add: dir_entry_def dentries_def)
  obtain par pl where f: "by_name.find (dname st) (dname st c) (fs_entry_links st) (fe_children (fs_entry st dir)) = Some (c, par, pl)"
    using by_name.find_present [OF ix assms(2)] by blast
  have "c \<noteq> 0" using by_name.index_nonzero [OF ix] assms(2) by metis
  then show ?thesis using assms(1) f by (simp add: vfs_lookup_def dir_entry_def ops_lookup_def)
qed

lemma vfs_lookup_miss:
  assumes inv: "dir_entry st K live P D dir cs" and nm: "ok_name nm" "nm \<notin> dname st ` set cs"
  defines "node \<equiv> fe_node (fs_entry st dir)" and "ec \<equiv> fs_entry_cache st"
  shows "\<exists>e rc st' live' cs'. vfs_lookup dir nm create st = Some (e, rc, st') \<and> dir_entry st' K live' P D dir cs' \<and>
    (\<forall>d. dir_map st' d = dir_map st d) \<and>
    (if rc = - ENOMEM then no_pages st \<and> e = 0 \<and> live' = live \<and> fs_entry st' = fs_entry st \<and> cs' = cs
     else if rc = 0 \<or> create
     then e \<notin> live ec \<and> live' = live(ec := insert e (live ec)) \<and> set cs' = insert e (set cs) \<and> dname st' e = nm \<and> fe_refcount (fs_entry st' e) = 1 \<and>
       (case dir_map st node nm of
          Some n \<Rightarrow> rc = 0 \<and> fe_node (fs_entry st' e) = n
        | None \<Rightarrow> rc = - ENOENT \<and> fe_node (fs_entry st' e) = 0)
     else dir_map st node nm = None \<and> rc = - ENOENT \<and> e = 0 \<and> live' = live \<and> set cs' = set cs \<and>
       fe_refcount (fs_entry st' dir) = fe_refcount (fs_entry st dir) \<and> (\<forall>c \<in> set cs. fs_entry st' c = fs_entry st c))"
proof -
  obtain de where ent: "entries_inv st K live P D de" using inv by (auto simp: dir_entry_def dirs_inv_def)
  have kinv: "kmem_inv P (fs_kmem st) K live" using ent by (simp add: entries_inv_def)
  note d = inv [unfolded dir_entry_def]
  have ecK: "ec \<in> K" and ds: "dentries st dir cs" and sub: "set cs \<subseteq> live ec" "dir \<in> live ec" and d0: "dir \<noteq> 0" "dir \<notin> set cs"
    and rc0: "fe_refcount (fs_entry st dir) > 0" and node: "node \<in> D" "node \<noteq> 0" "fn_ops (fs_node st node) = ramfs_dir_node_ops"
    using d by (simp_all add: ec_def node_def)
  obtain e k where a: "cache_alloc ec st = Some (e, st\<lparr>fs_kmem := k\<rparr>)"
    "if e = 0 then no_pages st \<and> out_of_pages (k_mem k) \<and> kmem_inv P k K live else e \<notin> live ec \<and> kmem_inv P k K (live(ec := insert e (live ec)))"
    using cache_alloc_ok [OF kinv ecK] by blast
  obtain par pl where f: "rb_find (\<lambda>x. str_cmp (dname st x) nm) (fs_entry_links st) (fe_children (fs_entry st dir)) 0 RootLink = Some (0, par, pl)"
    using by_name.find_absent [OF ds [unfolded dentries_def] nm(2,1)] by blast
  show ?thesis
  proof (cases "e = 0")
    case True
    let ?st = "st\<lparr>fs_kmem := k\<rparr>"
    have k: "no_pages st" "kmem_inv P k K live" using a(2) True by simp_all
    have call: "vfs_lookup dir nm create st = Some (0, - ENOMEM, ?st)"
      using f a(1) True node by (simp add: vfs_lookup_def Let_def node_def [symmetric] ops_lookup_def vfs_entry_create_def ec_def)
    have "entries_inv ?st K live P D de" by (rule entries_inv_weak [OF ent]) (use k in simp_all)
    then have "dir_entry ?st K live P D dir cs" using d unfolding dir_entry_def dirs_inv_def by (auto simp: dentries_def)
    moreover have "dir_map ?st x = dir_map st x" for x by (rule dir_map_same) simp_all
    ultimately show ?thesis using call k(1)
      by (intro exI [of _ 0] exI [of _ "- ENOMEM"] exI [of _ ?st] exI [of _ live] exI [of _ cs]) simp
  next
    case e0: False
    let ?l1 = "live(ec := insert e (live ec))"
    have new: "e \<notin> live ec" and k: "kmem_inv P k K ?l1" using a(2) e0 by simp_all
    have e: "e \<notin> set cs" "e \<noteq> dir" using new sub by auto
    define st1 where "st1 = upd_entry e (\<lambda>_. \<lparr>fe_children = 0, fe_parent = 0, fe_node = 0, fe_name = nm, fe_cached = False, fe_refcount = 1\<rparr>) (st\<lparr>fs_kmem := k\<rparr>)"
    obtain h root cs' where r: "rb_insert e (rb_link e par pl (fs_entry_links st1, fe_children (fs_entry st1 dir))) = Some (h, root)"
      "dentries (cache_entry dir e h root st1) dir cs'" "set cs' = insert e (set cs)" "same_out (insert e (set cs)) (fs_entry_links st) h"
      using cache_entry_ok [OF ds nm e0 e d0(1), of k] f unfolding st1_def by auto
    define st2 where "st2 = cache_entry dir e h root st1"
    have s2: "fs_entry st2 e = fresh_entry dir 0 nm" "\<And>c. c \<noteq> e \<Longrightarrow> c \<noteq> dir \<Longrightarrow> fs_entry st2 c = fs_entry st c"
      "fs_entry st2 dir = (fs_entry st dir)\<lparr>fe_children := root, fe_refcount := fe_refcount (fs_entry st dir) + 1\<rparr>"
      "fs_node st2 = fs_node st" "rf_entry st2 = rf_entry st" "rf_entry_links st2 = rf_entry_links st" "fs_kmem st2 = k"
      "ramfs_node_cache st2 = ramfs_node_cache st" "ramfs_entry_cache st2 = ramfs_entry_cache st" "fs_entry_cache st2 = ec"
      using e d0 by (auto simp: st2_def cache_entry_def vfs_entry_get_def st1_def ec_def)
    have ent2: "entries_inv st2 K ?l1 P D de" by (rule entries_inv_weak [OF ent]) (use k in \<open>auto simp: s2\<close>)
    have map2: "dir_map st2 x = dir_map st x" for x by (rule dir_map_same) (simp_all add: s2)
    have call: "vfs_lookup dir nm create st = do { (rc, st) \<leftarrow> ramfs_lookup node e st2;
        if rc \<noteq> 0 \<and> \<not> create then do { st \<leftarrow> vfs_entry_put e st; Some (0, rc, st) } else Some (e, rc, st) }"
      using f a(1) e0 node r(1)
      by (simp add: vfs_lookup_def Let_def node_def [symmetric] ops_lookup_def vfs_entry_create_def ec_def st1_def [symmetric] st2_def cache_entry_def)
    have keep: "dir_entry st' K ?l1 P D dir cs'"
      if st': "entries_inv st' K ?l1 P D de" "dentries st' dir cs'" "fs_entry_cache st' = ec" "fe_refcount (fs_entry st' dir) > 0"
        "fe_node (fs_entry st' dir) = node" "fn_ops (fs_node st' node) = ramfs_dir_node_ops" for st'
      using st' ecK sub d0 node r(3) e unfolding dir_entry_def dirs_inv_def by auto
    show ?thesis
    proof (cases rule: entry_lookup_cases [OF ent2 node(1) nm(1)])
      case (1 x p q)
      let ?n = "re_node (rf_entry st2 x)"
      define st3 where "st3 = upd_entry e (fe_node_update (\<lambda>_. ?n)) (vfs_node_get ?n st2)"
      have s3: "fs_entry st3 = (fs_entry st2)(e := (fs_entry st2 e)\<lparr>fe_node := ?n\<rparr>)" "rf_entry st3 = rf_entry st2"
        "rf_entry_links st3 = rf_entry_links st2" "\<And>y. fn_children (fs_node st3 y) = fn_children (fs_node st2 y)"
        "\<And>y. fn_ops (fs_node st3 y) = fn_ops (fs_node st2 y)" "fs_kmem st3 = k" "fs_entry_links st3 = fs_entry_links st2"
        "ramfs_node_cache st3 = ramfs_node_cache st" "ramfs_entry_cache st3 = ramfs_entry_cache st" "fs_entry_cache st3 = ec"
        by (auto simp: st3_def vfs_node_get_def s2 upd_node_def)
      have res: "vfs_lookup dir nm create st = Some (e, 0, st3)"
        using call 1(1,3) node(3) s2(1,4) by (simp add: ramfs_lookup_def st3_def Let_def)
      have "entries_inv st3 K ?l1 P D de" by (rule entries_inv_weak [OF ent2]) (use k in \<open>simp_all add: s3 s2\<close>)
      moreover have "dname st3 = dname st2" by (auto simp: s3 s2(1))
      then have "dentries st3 dir cs'" using r(2) e(2) unfolding dentries_def st2_def [symmetric] by (simp add: s3(1,7))
      ultimately have "dir_entry st3 K ?l1 P D dir cs'"
        by (intro keep) (use e rc0 node in \<open>simp_all add: s3 s2 node_def\<close>)
      moreover have "dir_map st3 y = dir_map st y" for y unfolding map2 [symmetric] by (rule dir_map_same) (simp_all add: s3)
      ultimately show ?thesis using res 1(5) map2 new r(3) s2(1)
        by (intro exI [of _ e] exI [of _ 0] exI [of _ st3] exI [of _ ?l1] exI [of _ cs']) (simp add: s3)
    next
      case (2 p q)
      have lk: "ramfs_lookup node e st2 = Some (- ENOENT, st2)" using 2(1) node(3) s2(1,4) by (simp add: ramfs_lookup_def)
      have keep2: "dir_entry st2 K ?l1 P D dir cs'"
        by (rule keep [OF ent2]) (use r(2) e rc0 node in \<open>simp_all add: s2 st2_def [symmetric] node_def\<close>)
      show ?thesis
      proof (cases create)
        case True
        then have "vfs_lookup dir nm create st = Some (e, - ENOENT, st2)" using call lk by simp
        then show ?thesis using keep2 map2 2(3) new r(3) s2(1) True
          by (intro exI [of _ e] exI [of _ "- ENOENT"] exI [of _ st2] exI [of _ ?l1] exI [of _ cs']) simp
      next
        case False
        have upd: "?l1(ec := ?l1 ec - {e}) = live" using new by auto
        have "e \<in> set cs'" "fe_refcount (fs_entry st2 dir) \<noteq> 1" "kmem_inv P (fs_kmem st2) K ?l1" "fs_entry_cache st2 \<in> K" "e \<in> ?l1 (fs_entry_cache st2)"
          using r(3) rc0 k ecK by (simp_all add: s2)
        from vfs_entry_put_drop [OF r(2) [folded st2_def] this(1) e(2) s2(1) this(2-5)]
        obtain st3 k3 h3 root3 where p: "vfs_entry_put e st2 = Some st3" "kmem_inv P k3 K live" "dentries st3 dir (remove1 e cs')"
          "st3 = st2\<lparr>fs_kmem := k3, fs_entry_links := h3, fs_entry := (fs_entry st2)(dir := (fs_entry st2 dir)\<lparr>fe_children := root3, fe_refcount := fe_refcount (fs_entry st2 dir) - 1\<rparr>,
            e := (fresh_entry dir 0 nm)\<lparr>fe_cached := False, fe_refcount := 0\<rparr>)\<rparr>"
          unfolding s2(10) upd by blast
        have cs: "set (remove1 e cs') = set cs"
          using by_name.index_distinct [OF r(2) [unfolded dentries_def]] r(3) e(1) by (simp add: set_remove1_eq)
        have "entries_inv st3 K live P D de" by (rule entries_inv_weak [OF ent]) (use p(2) in \<open>simp_all add: p(4) s2\<close>)
        then have "dir_entry st3 K live P D dir (remove1 e cs')"
          using p(3) ecK sub d0 node rc0 e cs unfolding dir_entry_def dirs_inv_def by (auto simp: p(4) s2 node_def)
        moreover have "dir_map st3 y = dir_map st y" for y by (rule dir_map_same) (simp_all add: p(4) s2)
        moreover have "vfs_lookup dir nm create st = Some (0, - ENOENT, st3)" using call lk p(1) False by simp
        moreover have "fe_refcount (fs_entry st3 dir) = fe_refcount (fs_entry st dir)" "\<forall>c \<in> set cs. fs_entry st3 c = fs_entry st c"
          using e d0(2) s2(2) by (auto simp: p(4) s2(3))
        ultimately show ?thesis using 2(3) map2 cs False
          by (intro exI [of _ 0] exI [of _ "- ENOENT"] exI [of _ st3] exI [of _ live] exI [of _ "remove1 e cs'"]) simp
      qed
    qed
  qed
qed



end
