(* ===== verification/Sched.thy ===== *)
theory Sched
  imports Kernel_Prelude
begin

text \<open>
  Threads, the round robin scheduler and the blocking primitives: \<^verbatim>\<open>src/scheduler.c\<close>, the switching and
  the life cycle of threads in \<^verbatim>\<open>src/threads.c\<close>, \<^verbatim>\<open>src/locking.c\<close> and the tick of \<^verbatim>\<open>src/time.c\<close>. A thread
  is its address. Each function here is a block of code that runs with preemption masked, so it is
  atomic on the one processor; the list of active threads and the queues of waiters are the sequences
  of their entries (the pointer operations are those of \<^verbatim>\<open>src/list.c\<close>). \<^term>\<open>None\<close> is a failed
  \<^verbatim>\<open>DBG_ASSERT\<close>, which hangs. A switch is seen from outside the stacks: \<^verbatim>\<open>switch_threads\<close> continues the
  other thread behind its own call of \<^verbatim>\<open>switch_threads\<close>, or in \<^verbatim>\<open>thread_entry\<close> when it is new, and both
  call \<^verbatim>\<open>place_thread\<close> first. The check of the saved stack pointer is left out with the registers.
\<close>

section \<open>State\<close>

datatype thread_state = THREAD_NONE | THREAD_ACTIVE | THREAD_BLOCKED | THREAD_FINISHED | THREAD_DEAD | THREAD_REAPED

record thread =
  t_state :: thread_state
  t_time :: u64
  t_pt :: nat
  t_stack_end :: nat

text \<open>A wait queue belongs to a mutex or to a condition; each is an address.\<close>

datatype wait_queue = MutexQueue nat | CondQueue nat

record sched =
  sc_thread :: "nat \<Rightarrow> thread"
  current_thread :: nat
  rr_active_list :: "nat list"
  jiffies_value :: u64
  sc_pml4 :: nat
  tss_rsp0 :: nat
  wq_threads :: "wait_queue \<Rightarrow> nat list"
  mutex_state :: "nat \<Rightarrow> bool"

definition bootstrap :: nat where
  "bootstrap = 1"

abbreviation state_of :: "sched \<Rightarrow> nat \<Rightarrow> thread_state" where
  "state_of s t \<equiv> t_state (sc_thread s t)"

definition set_state :: "nat \<Rightarrow> thread_state \<Rightarrow> sched \<Rightarrow> sched" where
  "set_state t x s = s\<lparr>sc_thread := (sc_thread s)(t := (sc_thread s t)\<lparr>t_state := x\<rparr>)\<rparr>"

section \<open>Round robin\<close>

definition HZ :: u64 where "HZ = 100"
definition RR_SCHED_SLICE :: u64 where "RR_SCHED_SLICE = 20"
definition RR_MS :: u64 where "RR_MS = 1000"

definition rr_need_preempt :: "nat \<Rightarrow> sched \<Rightarrow> bool" where
  "rr_need_preempt t s \<longleftrightarrow> (jiffies_value s - t_time (sc_thread s t)) * RR_MS > RR_SCHED_SLICE * HZ"

definition rr_next_thread :: "sched \<Rightarrow> nat \<times> sched" where
  "rr_next_thread s =
     (case rr_active_list s of
        [] \<Rightarrow> (0, s)
      | t # ts \<Rightarrow> (t, s\<lparr>rr_active_list := ts\<rparr>))"

definition rr_activate_thread :: "nat \<Rightarrow> sched \<Rightarrow> sched option" where
  "rr_activate_thread t s =
     (if state_of s t = THREAD_ACTIVE then Some (s\<lparr>rr_active_list := rr_active_list s @ [t]\<rparr>) else None)"

definition rr_preempt_thread :: "nat \<Rightarrow> sched \<Rightarrow> sched" where
  "rr_preempt_thread t s =
     (if state_of s t = THREAD_ACTIVE then s\<lparr>rr_active_list := rr_active_list s @ [t]\<rparr> else s)"

section \<open>Switching\<close>

definition preempt_thread :: "nat \<Rightarrow> sched \<Rightarrow> sched" where
  "preempt_thread t s = (if t = bootstrap then s else rr_preempt_thread t s)"

definition place_thread :: "nat \<Rightarrow> sched \<Rightarrow> sched" where
  "place_thread t s =
     (let prev = current_thread s;
          s = s\<lparr>current_thread := t\<rparr>;
          s = s\<lparr>sc_pml4 := t_pt (sc_thread s t), tss_rsp0 := t_stack_end (sc_thread s t)\<rparr>;
          s = (if state_of s prev = THREAD_FINISHED then set_state prev THREAD_DEAD s else s)
      in if t = bootstrap then s
         else s\<lparr>sc_thread := (sc_thread s)(t := (sc_thread s t)\<lparr>t_time := jiffies_value s\<rparr>)\<rparr>)"

definition switch_to :: "nat \<Rightarrow> sched \<Rightarrow> sched" where
  "switch_to t s = place_thread t (preempt_thread (current_thread s) s)"

definition schedule :: "sched \<Rightarrow> sched" where
  "schedule s =
     (let (t, s) = rr_next_thread s
      in if t = current_thread s then s
         else let force = (state_of s (current_thread s) \<noteq> THREAD_ACTIVE)
              in if \<not> force \<and> t = 0 then s
                 else switch_to (if t \<noteq> 0 then t else bootstrap) s)"

definition need_resched :: "sched \<Rightarrow> bool" where
  "need_resched s \<longleftrightarrow> current_thread s = bootstrap \<or> rr_need_preempt (current_thread s) s"

text \<open>The timer interrupt and the return from any interrupt.\<close>

definition i8254_interrupt_handler :: "sched \<Rightarrow> sched" where
  "i8254_interrupt_handler s = s\<lparr>jiffies_value := jiffies_value s + 1\<rparr>"

definition isr_resched :: "sched \<Rightarrow> sched" where
  "isr_resched s = (if need_resched s then schedule s else s)"

section \<open>Life cycle\<close>

definition activate_thread :: "nat \<Rightarrow> sched \<Rightarrow> sched option" where
  "activate_thread t s =
     (if t = bootstrap then None
      else if state_of s t = THREAD_BLOCKED then rr_activate_thread t (set_state t THREAD_ACTIVE s)
      else Some s)"

definition exit_thread :: "sched \<Rightarrow> sched" where
  "exit_thread s = schedule (set_state (current_thread s) THREAD_FINISHED s)"

definition reap_state :: "nat \<Rightarrow> sched \<Rightarrow> bool \<times> sched" where
  "reap_state t s = (state_of s t \<noteq> THREAD_REAPED, set_state t THREAD_REAPED s)"

definition setup_threading :: "sched \<Rightarrow> sched" where
  "setup_threading s = (set_state bootstrap THREAD_ACTIVE s)\<lparr>current_thread := bootstrap\<rparr>"

section \<open>Wait queues, mutexes and conditions\<close>

definition wait_enqueue :: "nat \<Rightarrow> wait_queue \<Rightarrow> sched \<Rightarrow> sched" where
  "wait_enqueue t q s =
     (let s = set_state t THREAD_BLOCKED s in s\<lparr>wq_threads := (wq_threads s)(q := wq_threads s q @ [t])\<rparr>)"

definition wait_queue_notify :: "wait_queue \<Rightarrow> sched \<Rightarrow> sched option" where
  "wait_queue_notify q s =
     (case wq_threads s q of
        [] \<Rightarrow> Some s
      | t # ts \<Rightarrow> activate_thread t (s\<lparr>wq_threads := (wq_threads s)(q := ts)\<rparr>))"

text \<open>The splice of \<^verbatim>\<open>wait_queue_notify_all\<close>; the threads are then activated one at a time, without the lock.\<close>

definition wait_queue_splice :: "wait_queue \<Rightarrow> sched \<Rightarrow> nat list \<times> sched" where
  "wait_queue_splice q s = (wq_threads s q, s\<lparr>wq_threads := (wq_threads s)(q := [])\<rparr>)"

definition mutex_try_lock :: "nat \<Rightarrow> sched \<Rightarrow> bool \<times> sched" where
  "mutex_try_lock m s =
     (if \<not> mutex_state s m then (True, s\<lparr>mutex_state := (mutex_state s)(m := True)\<rparr>) else (False, s))"

text \<open>One turn of the loop of \<^verbatim>\<open>WAIT_EVENT\<close> in \<^verbatim>\<open>mutex_lock\<close>, between the two spin-lock operations.\<close>

definition mutex_lock :: "nat \<Rightarrow> sched \<Rightarrow> bool \<times> sched" where
  "mutex_lock m s =
     (let (got, s) = mutex_try_lock m s
      in if got then (True, s) else (False, wait_enqueue (current_thread s) (MutexQueue m) s))"

definition mutex_unlock :: "nat \<Rightarrow> sched \<Rightarrow> sched option" where
  "mutex_unlock m s = wait_queue_notify (MutexQueue m) (s\<lparr>mutex_state := (mutex_state s)(m := False)\<rparr>)"

text \<open>The part of \<^verbatim>\<open>condition_wait\<close> under the lock of the queue; \<^verbatim>\<open>schedule\<close> and \<^verbatim>\<open>mutex_lock\<close> follow.\<close>

definition condition_wait :: "nat \<Rightarrow> nat \<Rightarrow> sched \<Rightarrow> sched option" where
  "condition_wait m c s = mutex_unlock m (wait_enqueue (current_thread s) (CondQueue c) s)"

definition condition_notify :: "nat \<Rightarrow> sched \<Rightarrow> sched option" where
  "condition_notify c s = wait_queue_notify (CondQueue c) s"

definition condition_notify_all :: "nat \<Rightarrow> sched \<Rightarrow> nat list \<times> sched" where
  "condition_notify_all c s = wait_queue_splice (CondQueue c) s"

end
