(* ===== verification/Sched_Inv.thy ===== *)
theory Sched_Inv
  imports Sched
begin

text \<open>
  The threads of the kernel as a state machine: the current thread runs blocks of code, and between
  two blocks an interrupt may take the processor away. The invariant says that the run queue holds
  exactly the active threads that do not run, that every blocked thread waits in exactly one place from
  which it will be woken, and that a mutex has at most one holder.
\<close>

section \<open>The run queue\<close>

definition rq_ok :: "sched \<Rightarrow> bool" where
  "rq_ok s \<longleftrightarrow> distinct (rr_active_list s) \<and> current_thread s \<notin> set (rr_active_list s) \<and> bootstrap \<notin> set (rr_active_list s) \<and>
     (\<forall>t. t \<noteq> current_thread s \<longrightarrow> t \<noteq> bootstrap \<longrightarrow> (t \<in> set (rr_active_list s) \<longleftrightarrow> state_of s t = THREAD_ACTIVE)) \<and>
     state_of s bootstrap = THREAD_ACTIVE \<and> state_of s 0 = THREAD_NONE \<and> current_thread s \<noteq> 0 \<and>
     sc_pml4 s = t_pt (sc_thread s (current_thread s)) \<and> tss_rsp0 s = t_stack_end (sc_thread s (current_thread s))"

lemma set_state_simps [simp]:
  "state_of (set_state t x s) u = (if u = t then x else state_of s u)" "current_thread (set_state t x s) = current_thread s"
  "rr_active_list (set_state t x s) = rr_active_list s" "wq_threads (set_state t x s) = wq_threads s"
  "mutex_state (set_state t x s) = mutex_state s" "sc_pml4 (set_state t x s) = sc_pml4 s" "tss_rsp0 (set_state t x s) = tss_rsp0 s"
  "t_pt (sc_thread (set_state t x s) u) = t_pt (sc_thread s u)" "t_stack_end (sc_thread (set_state t x s) u) = t_stack_end (sc_thread s u)"
  by (simp_all add: set_state_def)

lemma bootstrap_nonzero [simp]: "bootstrap \<noteq> 0" "0 < bootstrap"
  by (simp_all add: bootstrap_def)

lemma rq_zero: "rq_ok s \<Longrightarrow> 0 \<notin> set (rr_active_list s)"
  unfolding rq_ok_def using bootstrap_nonzero by (metis thread_state.distinct(1))

lemma place_thread_simps [simp]:
  "current_thread (place_thread t s) = t" "rr_active_list (place_thread t s) = rr_active_list s"
  "wq_threads (place_thread t s) = wq_threads s" "mutex_state (place_thread t s) = mutex_state s"
  "sc_pml4 (place_thread t s) = t_pt (sc_thread s t)" "tss_rsp0 (place_thread t s) = t_stack_end (sc_thread s t)"
  "t_pt (sc_thread (place_thread t s) u) = t_pt (sc_thread s u)" "t_stack_end (sc_thread (place_thread t s) u) = t_stack_end (sc_thread s u)"
  "state_of (place_thread t s) u =
     (if u = current_thread s \<and> state_of s u = THREAD_FINISHED then THREAD_DEAD else state_of s u)"
  by (auto simp: place_thread_def Let_def)

text \<open>After \<^verbatim>\<open>schedule\<close> an active thread runs, whatever the state of the thread that called it.\<close>

lemma schedule_ok:
  assumes "rq_ok s"
  defines "c \<equiv> current_thread s"
  shows "rq_ok (schedule s)" "state_of (schedule s) (current_thread (schedule s)) = THREAD_ACTIVE"
    and "state_of (schedule s) t = (if t = c \<and> state_of s t = THREAD_FINISHED then THREAD_DEAD else state_of s t)"
    and "wq_threads (schedule s) = wq_threads s" "mutex_state (schedule s) = mutex_state s"
    and "state_of s c \<noteq> THREAD_ACTIVE \<Longrightarrow> current_thread (schedule s) \<noteq> c"
proof -
  note rq = assms(1) [unfolded rq_ok_def, folded c_def]
  have "rq_ok (schedule s) \<and> state_of (schedule s) (current_thread (schedule s)) = THREAD_ACTIVE \<and>
    (\<forall>t. state_of (schedule s) t = (if t = c \<and> state_of s t = THREAD_FINISHED then THREAD_DEAD else state_of s t)) \<and>
    wq_threads (schedule s) = wq_threads s \<and> mutex_state (schedule s) = mutex_state s \<and>
    (state_of s c \<noteq> THREAD_ACTIVE \<longrightarrow> current_thread (schedule s) \<noteq> c)"
  proof (cases "rr_active_list s")
    case Nil
    show ?thesis
    proof (cases "state_of s c = THREAD_ACTIVE")
      case True
      then have "schedule s = s" using Nil rq by (simp add: schedule_def rr_next_thread_def Let_def c_def)
      then show ?thesis using assms(1) True by (simp add: c_def)
    next
      case False
      then have cb: "c \<noteq> bootstrap" using rq by auto
      have "schedule s = place_thread bootstrap s"
        using Nil rq False cb by (simp add: schedule_def rr_next_thread_def Let_def switch_to_def preempt_thread_def rr_preempt_thread_def c_def)
      then show ?thesis using rq Nil False cb by (auto simp: rq_ok_def c_def [symmetric])
    qed
  next
    case (Cons n ts)
    have n: "n \<noteq> c" "n \<noteq> 0" "n \<noteq> bootstrap" "n \<notin> set ts" "state_of s n = THREAD_ACTIVE" "c \<notin> set ts"
      using rq Cons rq_zero [OF assms(1)] by auto
    let ?s = "s\<lparr>rr_active_list := ts\<rparr>"
    have sch: "schedule s = place_thread n (preempt_thread c ?s)"
      using Cons n by (simp add: schedule_def rr_next_thread_def Let_def switch_to_def c_def)
    have pre: "preempt_thread c ?s = s\<lparr>rr_active_list := (if c \<noteq> bootstrap \<and> state_of s c = THREAD_ACTIVE then ts @ [c] else ts)\<rparr>"
      by (simp add: preempt_thread_def rr_preempt_thread_def)
    have "rq_ok (schedule s)" unfolding sch pre using rq Cons n by (auto simp: rq_ok_def c_def [symmetric])
    then show ?thesis using n by (auto simp: sch pre c_def [symmetric])
  qed
  then show "rq_ok (schedule s)" "state_of (schedule s) (current_thread (schedule s)) = THREAD_ACTIVE"
    "state_of (schedule s) t = (if t = c \<and> state_of s t = THREAD_FINISHED then THREAD_DEAD else state_of s t)"
    "wq_threads (schedule s) = wq_threads s" "mutex_state (schedule s) = mutex_state s"
    "state_of s c \<noteq> THREAD_ACTIVE \<Longrightarrow> current_thread (schedule s) \<noteq> c" by blast+
qed

lemma activate_ok:
  assumes "rq_ok s" and "state_of s t = THREAD_BLOCKED" and "t \<noteq> current_thread s"
  shows "activate_thread t s = Some ((set_state t THREAD_ACTIVE s)\<lparr>rr_active_list := rr_active_list s @ [t]\<rparr>)"
    and "rq_ok ((set_state t THREAD_ACTIVE s)\<lparr>rr_active_list := rr_active_list s @ [t]\<rparr>)"
proof -
  have b: "t \<noteq> bootstrap" "t \<noteq> 0" "t \<notin> set (rr_active_list s)" using assms by (auto simp: rq_ok_def)
  then show "activate_thread t s = Some ((set_state t THREAD_ACTIVE s)\<lparr>rr_active_list := rr_active_list s @ [t]\<rparr>)"
    using assms(2) by (simp add: activate_thread_def rr_activate_thread_def)
  show "rq_ok ((set_state t THREAD_ACTIVE s)\<lparr>rr_active_list := rr_active_list s @ [t]\<rparr>)"
    using assms b unfolding rq_ok_def by auto
qed

section \<open>Where blocked threads wait\<close>

text \<open>\<open>cont\<close> gives the threads at each place, \<open>B\<close> the blocked threads: each waits at exactly one place.\<close>

definition placed :: "('p \<Rightarrow> nat list) \<Rightarrow> nat set \<Rightarrow> bool" where
  "placed cont B \<longleftrightarrow> (\<forall>p. distinct (cont p)) \<and> (\<forall>p p' t. t \<in> set (cont p) \<longrightarrow> t \<in> set (cont p') \<longrightarrow> p = p') \<and>
     (\<forall>t. t \<in> B \<longleftrightarrow> (\<exists>p. t \<in> set (cont p)))"

lemma placedD:
  assumes "placed cont B"
  shows "distinct (cont p)" "t \<in> set (cont p) \<Longrightarrow> t \<in> set (cont p') \<Longrightarrow> p = p'" "t \<in> set (cont p) \<Longrightarrow> t \<in> B"
    "t \<in> B \<Longrightarrow> \<exists>p. t \<in> set (cont p)"
  using assms unfolding placed_def by blast+

lemma placedI:
  assumes "\<And>p. distinct (cont p)" and "\<And>p p' t. t \<in> set (cont p) \<Longrightarrow> t \<in> set (cont p') \<Longrightarrow> p = p'"
    and "\<And>t. (\<exists>p. t \<in> set (cont p)) \<longleftrightarrow> t \<in> B"
  shows "placed cont B"
  unfolding placed_def
proof (intro conjI allI impI)
  fix t show "t \<in> B \<longleftrightarrow> (\<exists>p. t \<in> set (cont p))" by (rule assms(3) [symmetric])
qed (rule assms(1), erule (1) assms(2))

lemma placed_iff: "placed cont B \<Longrightarrow> (\<exists>p. t \<in> set (cont p)) \<longleftrightarrow> t \<in> B"
  unfolding placed_def by blast

lemma placed_push:
  assumes "placed cont B" and "t \<notin> B"
  shows "placed (cont(p := cont p @ [t])) (insert t B)"
proof -
  have t: "t \<notin> set (cont q)" for q using placedD(3) [OF assms(1)] assms(2) by blast
  have u: "q = q'" if "x \<in> set ((cont(p := cont p @ [t])) q)" "x \<in> set ((cont(p := cont p @ [t])) q')" for x q q'
  proof (cases "x = t")
    case True
    then have "q = p" "q' = p" using that t by (auto split: if_splits)
    then show ?thesis by simp
  next
    case False
    then have "x \<in> set (cont q)" "x \<in> set (cont q')" using that by (auto split: if_splits)
    then show ?thesis by (rule placedD(2) [OF assms(1)])
  qed
  have ex: "(\<exists>q. x \<in> set ((cont(p := cont p @ [t])) q)) \<longleftrightarrow> x = t \<or> (\<exists>q. x \<in> set (cont q))" for x by auto
  show ?thesis
    by (rule placedI [OF _ u]) (use t placedD(1) [OF assms(1)] in simp, assumption, assumption, simp only: ex placed_iff [OF assms(1)] insert_iff)
qed

lemma placed_pop:
  assumes "placed cont B" and "cont p = t # ts"
  shows "placed (cont(p := ts)) (B - {t})"
proof -
  have d: "t \<notin> set ts" "distinct ts" using placedD(1) [OF assms(1), of p] assms(2) by auto
  have u: "q = q'" if "x \<in> set ((cont(p := ts)) q)" "x \<in> set ((cont(p := ts)) q')" for x q q'
    using that placedD(2) [OF assms(1), of x] assms(2) by (metis fun_upd_apply list.set_intros(2))
  have ex: "(\<exists>q. x \<in> set ((cont(p := ts)) q)) \<longleftrightarrow> x \<noteq> t \<and> (\<exists>q. x \<in> set (cont q))" for x
  proof
    assume "\<exists>q. x \<in> set ((cont(p := ts)) q)"
    then obtain q where q: "x \<in> set ((cont(p := ts)) q)" by blast
    show "x \<noteq> t \<and> (\<exists>q. x \<in> set (cont q))"
    proof (cases "q = p")
      case True
      then show ?thesis using q d(1) assms(2) by (auto intro!: exI [of _ p])
    next
      case False
      then have x: "x \<in> set (cont q)" using q by simp
      have "x \<noteq> t" using placedD(2) [OF assms(1) x, of p] assms(2) False by auto
      then show ?thesis using x by blast
    qed
  next
    assume "x \<noteq> t \<and> (\<exists>q. x \<in> set (cont q))"
    then obtain q where "x \<noteq> t" "x \<in> set (cont q)" by blast
    then show "\<exists>q. x \<in> set ((cont(p := ts)) q)" using assms(2) by (intro exI [of _ q]) auto
  qed
  show ?thesis
    by (rule placedI [OF _ u]) (use d(2) placedD(1) [OF assms(1)] in simp, assumption, assumption, simp only: ex placed_iff [OF assms(1)], blast)
qed

lemma placed_move:
  assumes "placed cont B" and "cont p' = []" and "p \<noteq> p'"
  shows "placed (cont(p' := cont p, p := [])) B"
proof -
  let ?c = "cont(p' := cont p, p := [])"
  have m: "x \<in> set (?c q) \<longleftrightarrow> q \<noteq> p \<and> (if q = p' then x \<in> set (cont p) else x \<in> set (cont q))" for x q using assms(3) by auto
  have ex: "(\<exists>q. x \<in> set (?c q)) \<longleftrightarrow> (\<exists>q. x \<in> set (cont q))" for x
    unfolding m using assms(2,3) by (metis empty_iff list.set(1))
  have u: "q = q'" if "x \<in> set (?c q)" "x \<in> set (?c q')" for x q q'
  proof -
    let ?src = "\<lambda>q. if q = p' then p else q"
    have "x \<in> set (cont (?src q))" "x \<in> set (cont (?src q'))" "q \<noteq> p" "q' \<noteq> p" using that unfolding m by (auto split: if_splits)
    then show ?thesis using placedD(2) [OF assms(1), of x "?src q" "?src q'"] by (auto split: if_splits)
  qed
  show ?thesis
    by (rule placedI [OF _ u]) (use placedD(1) [OF assms(1)] in simp, assumption, assumption, simp only: ex placed_iff [OF assms(1)])
qed

section \<open>The machine\<close>

text \<open>
  Where a thread is in its code: outside of the primitives, behind a block that made it wait and in
  front of \<^verbatim>\<open>schedule\<close>, behind this call and in front of the next attempt to take the mutex, in the loop of
  \<^verbatim>\<open>wait_queue_notify_all\<close> with the rest of the list it spliced, or gone.
\<close>

datatype pc = Running | Sleeping nat | Retrying nat | Notifying "nat list" | Exited

record conf =
  c_sched :: sched
  c_pc :: "nat \<Rightarrow> pc"
  c_held :: "nat \<Rightarrow> nat set"

abbreviation cur :: "conf \<Rightarrow> nat" where
  "cur k \<equiv> current_thread (c_sched k)"

abbreviation wants :: "pc \<Rightarrow> nat \<Rightarrow> bool" where
  "wants p m \<equiv> p = Sleeping m \<or> p = Retrying m"

inductive step :: "conf \<Rightarrow> conf \<Rightarrow> bool" where
  tick: "step k (k\<lparr>c_sched := isr_resched (i8254_interrupt_handler (c_sched k))\<rparr>)"
| irq: "step k (k\<lparr>c_sched := isr_resched (c_sched k)\<rparr>)"
| yield: "c_pc k (cur k) = Running \<Longrightarrow> step k (k\<lparr>c_sched := schedule (c_sched k)\<rparr>)"
| lock: "c_pc k (cur k) = Running \<or> c_pc k (cur k) = Retrying m \<Longrightarrow> mutex_lock m (c_sched k) = (True, s) \<Longrightarrow>
    step k (k\<lparr>c_sched := s, c_pc := (c_pc k)(cur k := Running), c_held := (c_held k)(cur k := insert m (c_held k (cur k)))\<rparr>)"
| lock_wait: "c_pc k (cur k) = Running \<or> c_pc k (cur k) = Retrying m \<Longrightarrow> cur k \<noteq> bootstrap \<Longrightarrow> mutex_lock m (c_sched k) = (False, s) \<Longrightarrow>
    step k (k\<lparr>c_sched := s, c_pc := (c_pc k)(cur k := Sleeping m)\<rparr>)"
| sleep: "c_pc k (cur k) = Sleeping m \<Longrightarrow> step k (k\<lparr>c_sched := schedule (c_sched k), c_pc := (c_pc k)(cur k := Retrying m)\<rparr>)"
| unlock: "c_pc k (cur k) = Running \<Longrightarrow> m \<in> c_held k (cur k) \<Longrightarrow> mutex_unlock m (c_sched k) = Some s \<Longrightarrow>
    step k (k\<lparr>c_sched := s, c_held := (c_held k)(cur k := c_held k (cur k) - {m})\<rparr>)"
| cond_wait: "c_pc k (cur k) = Running \<Longrightarrow> cur k \<noteq> bootstrap \<Longrightarrow> m \<in> c_held k (cur k) \<Longrightarrow> condition_wait m q (c_sched k) = Some s \<Longrightarrow>
    step k (k\<lparr>c_sched := s, c_pc := (c_pc k)(cur k := Sleeping m), c_held := (c_held k)(cur k := c_held k (cur k) - {m})\<rparr>)"
| notify: "c_pc k (cur k) = Running \<Longrightarrow> condition_notify q (c_sched k) = Some s \<Longrightarrow> step k (k\<lparr>c_sched := s\<rparr>)"
| notify_all: "c_pc k (cur k) = Running \<Longrightarrow> condition_notify_all q (c_sched k) = (ts, s) \<Longrightarrow>
    step k (k\<lparr>c_sched := s, c_pc := (c_pc k)(cur k := Notifying ts)\<rparr>)"
| notify_next: "c_pc k (cur k) = Notifying (t # ts) \<Longrightarrow> activate_thread t (c_sched k) = Some s \<Longrightarrow>
    step k (k\<lparr>c_sched := s, c_pc := (c_pc k)(cur k := Notifying ts)\<rparr>)"
| notify_done: "c_pc k (cur k) = Notifying [] \<Longrightarrow> step k (k\<lparr>c_pc := (c_pc k)(cur k := Running)\<rparr>)"
| exit: "c_pc k (cur k) = Running \<Longrightarrow> cur k \<noteq> bootstrap \<Longrightarrow>
    step k (k\<lparr>c_sched := exit_thread (c_sched k), c_pc := (c_pc k)(cur k := Exited)\<rparr>)"
| spawn: "c_pc k (cur k) = Running \<Longrightarrow> t \<noteq> 0 \<Longrightarrow> state_of (c_sched k) t = THREAD_NONE \<Longrightarrow>
    activate_thread t (set_state t THREAD_BLOCKED (c_sched k)) = Some s \<Longrightarrow> step k (k\<lparr>c_sched := s, c_pc := (c_pc k)(t := Running)\<rparr>)"
| reap: "c_pc k (cur k) = Running \<Longrightarrow> state_of (c_sched k) t = THREAD_DEAD \<Longrightarrow> step k (k\<lparr>c_sched := snd (reap_state t (c_sched k))\<rparr>)"

definition initial :: "conf \<Rightarrow> bool" where
  "initial k \<longleftrightarrow> (\<exists>s. c_sched k = setup_threading s \<and> (\<forall>t. state_of s t = THREAD_NONE) \<and> rr_active_list s = [] \<and>
     sc_pml4 s = t_pt (sc_thread s bootstrap) \<and> tss_rsp0 s = t_stack_end (sc_thread s bootstrap) \<and>
     (\<forall>q. wq_threads s q = []) \<and> (\<forall>m. \<not> mutex_state s m)) \<and> (\<forall>t. c_pc k t = Running) \<and> (\<forall>t. c_held k t = {})"

inductive reachable :: "conf \<Rightarrow> bool" where
  init: "initial k \<Longrightarrow> reachable k"
| next_step: "reachable k \<Longrightarrow> step k k' \<Longrightarrow> reachable k'"

section \<open>The invariant\<close>

datatype place = InQueue wait_queue | InList nat

definition pending :: "pc \<Rightarrow> nat list" where
  "pending p = (case p of Notifying ts \<Rightarrow> ts | _ \<Rightarrow> [])"

definition contents :: "conf \<Rightarrow> place \<Rightarrow> nat list" where
  "contents k p = (case p of InQueue q \<Rightarrow> wq_threads (c_sched k) q | InList u \<Rightarrow> pending (c_pc k u))"

abbreviation blocked :: "sched \<Rightarrow> nat set" where
  "blocked s \<equiv> {t. state_of s t = THREAD_BLOCKED}"

definition waiting_ok :: "conf \<Rightarrow> bool" where
  "waiting_ok k \<longleftrightarrow> placed (contents k) (blocked (c_sched k)) \<and>
     (\<forall>p t. t \<in> set (contents k p) \<longrightarrow> (\<exists>m. wants (c_pc k t) m \<and> (\<forall>m'. p = InQueue (MutexQueue m') \<longrightarrow> m' = m))) \<and>
     (\<forall>u ts. c_pc k u = Notifying ts \<longrightarrow> state_of (c_sched k) u = THREAD_ACTIVE) \<and>
     (state_of (c_sched k) (cur k) = THREAD_BLOCKED \<and> (\<exists>m. c_pc k (cur k) = Sleeping m) \<or> state_of (c_sched k) (cur k) = THREAD_ACTIVE)"

definition mutex_ok :: "conf \<Rightarrow> bool" where
  "mutex_ok k \<longleftrightarrow> (\<forall>t u m. m \<in> c_held k t \<longrightarrow> m \<in> c_held k u \<longrightarrow> t = u) \<and>
     (\<forall>m. mutex_state (c_sched k) m \<longleftrightarrow> (\<exists>t. m \<in> c_held k t)) \<and>
     (\<forall>m. \<not> mutex_state (c_sched k) m \<longrightarrow> wq_threads (c_sched k) (MutexQueue m) \<noteq> [] \<longrightarrow>
       (\<exists>t. state_of (c_sched k) t = THREAD_ACTIVE \<and> wants (c_pc k t) m))"

definition conf_ok :: "conf \<Rightarrow> bool" where
  "conf_ok k \<longleftrightarrow> rq_ok (c_sched k) \<and> waiting_ok k \<and> mutex_ok k"

lemma initial_ok:
  assumes "initial k"
  shows "conf_ok k"
proof -
  have c: "contents k p = []" for p using assms by (auto simp: initial_def contents_def pending_def setup_threading_def split: place.splits)
  have b: "blocked (c_sched k) = {}" using assms by (auto simp: initial_def setup_threading_def split: if_splits)
  have "placed (contents k) (blocked (c_sched k))" unfolding b by (rule placedI) (simp_all add: c)
  then show ?thesis using assms
    by (auto simp: conf_ok_def rq_ok_def waiting_ok_def mutex_ok_def c initial_def setup_threading_def)
qed

section \<open>Preservation\<close>

lemma conf_okD:
  assumes "conf_ok k"
  shows "rq_ok (c_sched k)" "placed (contents k) (blocked (c_sched k))"
    "t \<in> set (contents k p) \<Longrightarrow> \<exists>m. wants (c_pc k t) m \<and> (\<forall>m'. p = InQueue (MutexQueue m') \<longrightarrow> m' = m)"
    "c_pc k u = Notifying ts \<Longrightarrow> state_of (c_sched k) u = THREAD_ACTIVE"
    "(\<And>m. c_pc k (cur k) \<noteq> Sleeping m) \<Longrightarrow> state_of (c_sched k) (cur k) = THREAD_ACTIVE"
    "state_of (c_sched k) (cur k) = THREAD_BLOCKED \<or> state_of (c_sched k) (cur k) = THREAD_ACTIVE"
  using assms unfolding conf_ok_def waiting_ok_def by blast+

lemma contents_simps [simp]:
  "contents k (InQueue q) = wq_threads (c_sched k) q" "contents k (InList u) = pending (c_pc k u)"
  by (simp_all add: contents_def)

lemma contents_eqI:
  "wq_threads (c_sched k') = wq_threads (c_sched k) \<Longrightarrow> (\<And>u. pending (c_pc k' u) = pending (c_pc k u)) \<Longrightarrow> contents k' = contents k"
  by (rule ext) (simp add: contents_def split: place.splits)

lemma pending_simps [simp]: "pending Running = []" "pending (Sleeping m) = []" "pending (Retrying m) = []" "pending Exited = []" "pending (Notifying ts) = ts"
  by (simp_all add: pending_def)

text \<open>A thread in a queue or in a list is blocked, so it is not one that just runs.\<close>

lemma contents_blocked: "conf_ok k \<Longrightarrow> t \<in> set (contents k p) \<Longrightarrow> state_of (c_sched k) t = THREAD_BLOCKED"
  using placedD(3) [OF conf_okD(2)] by blast

lemma conf_okI:
  assumes "rq_ok (c_sched k)" and "placed (contents k) (blocked (c_sched k))"
    and "\<And>p t. t \<in> set (contents k p) \<Longrightarrow> \<exists>m. wants (c_pc k t) m \<and> (\<forall>m'. p = InQueue (MutexQueue m') \<longrightarrow> m' = m)"
    and "\<And>u ts. c_pc k u = Notifying ts \<Longrightarrow> state_of (c_sched k) u = THREAD_ACTIVE"
    and "state_of (c_sched k) (cur k) = THREAD_BLOCKED \<and> (\<exists>m. c_pc k (cur k) = Sleeping m) \<or> state_of (c_sched k) (cur k) = THREAD_ACTIVE"
    and "mutex_ok k"
  shows "conf_ok k"
  unfolding conf_ok_def waiting_ok_def
  by (intro conjI allI impI; (rule assms(1) | rule assms(2) | erule assms(3) | erule assms(4) | rule assms(5) | rule assms(6)))

text \<open>Steps that move the processor without changing who is blocked.\<close>

lemma conf_ok_same:
  assumes ok: "conf_ok k" and rq: "rq_ok s" and st: "\<And>t. state_of s t = state_of (c_sched k) t"
    and wq: "wq_threads s = wq_threads (c_sched k)" "mutex_state s = mutex_state (c_sched k)"
    and c: "state_of s (current_thread s) = THREAD_ACTIVE \<or> current_thread s = cur k"
  shows "conf_ok (k\<lparr>c_sched := s\<rparr>)"
proof -
  have cont: "contents (k\<lparr>c_sched := s\<rparr>) = contents k" by (rule contents_eqI) (simp_all add: wq)
  show ?thesis
  proof (rule conf_okI)
    show "mutex_ok (k\<lparr>c_sched := s\<rparr>)" using ok unfolding conf_ok_def mutex_ok_def by (simp add: st wq)
    show "state_of (c_sched (k\<lparr>c_sched := s\<rparr>)) (cur (k\<lparr>c_sched := s\<rparr>)) = THREAD_BLOCKED \<and> (\<exists>m. c_pc (k\<lparr>c_sched := s\<rparr>) (cur (k\<lparr>c_sched := s\<rparr>)) = Sleeping m) \<or>
      state_of (c_sched (k\<lparr>c_sched := s\<rparr>)) (cur (k\<lparr>c_sched := s\<rparr>)) = THREAD_ACTIVE"
      using ok c st unfolding conf_ok_def waiting_ok_def by auto
  qed (use ok rq cont in \<open>auto simp: st dest: conf_okD\<close>)
qed

lemma schedule_conf_ok:
  assumes "conf_ok k"
  shows "conf_ok (k\<lparr>c_sched := schedule (c_sched k)\<rparr>)"
proof -
  note rq = conf_okD(1) [OF assms] and sc = schedule_ok [OF conf_okD(1) [OF assms]]
  show ?thesis
    by (rule conf_ok_same [OF assms sc(1)]) (use sc(2-5) conf_okD(6) [OF assms] in auto)
qed

lemma tick_conf_ok: "conf_ok k \<Longrightarrow> conf_ok (k\<lparr>c_sched := i8254_interrupt_handler (c_sched k)\<rparr>)"
  by (rule conf_ok_same) (auto simp: i8254_interrupt_handler_def rq_ok_def dest: conf_okD(1))

lemma isr_conf_ok:
  assumes "conf_ok k"
  shows "conf_ok (k\<lparr>c_sched := isr_resched (c_sched k)\<rparr>)"
proof (cases "need_resched (c_sched k)")
  case True
  then show ?thesis using schedule_conf_ok [OF assms] by (simp add: isr_resched_def)
next
  case False
  then show ?thesis using assms by (simp add: isr_resched_def)
qed

lemma conf_mutexD:
  assumes "conf_ok k"
  shows "m \<in> c_held k t \<Longrightarrow> m \<in> c_held k u \<Longrightarrow> t = u" "mutex_state (c_sched k) m \<longleftrightarrow> (\<exists>t. m \<in> c_held k t)"
    "\<not> mutex_state (c_sched k) m \<Longrightarrow> wq_threads (c_sched k) (MutexQueue m) \<noteq> [] \<Longrightarrow>
       \<exists>t. state_of (c_sched k) t = THREAD_ACTIVE \<and> wants (c_pc k t) m"
  using assms unfolding conf_ok_def mutex_ok_def by blast+

text \<open>The current thread puts itself to sleep.\<close>

lemma enqueue_conf_ok:
  assumes ok: "conf_ok k" and c: "cur k \<noteq> bootstrap" "c_pc k (cur k) = Running \<or> c_pc k (cur k) = Retrying m \<and> mutex_state (c_sched k) m"
    and q: "\<And>m'. q = MutexQueue m' \<Longrightarrow> m' = m \<and> mutex_state (c_sched k) m"
  shows "conf_ok (k\<lparr>c_sched := wait_enqueue (cur k) q (c_sched k), c_pc := (c_pc k)(cur k := Sleeping m)\<rparr>)"
proof -
  let ?s = "c_sched k" and ?k = "k\<lparr>c_sched := wait_enqueue (cur k) q (c_sched k), c_pc := (c_pc k)(cur k := Sleeping m)\<rparr>"
  have act: "state_of ?s (cur k) = THREAD_ACTIVE" by (rule conf_okD(5) [OF ok]) (use c(2) in auto)
  have s': "state_of (wait_enqueue (cur k) q ?s) t = (if t = cur k then THREAD_BLOCKED else state_of ?s t)" for t
    by (simp add: wait_enqueue_def Let_def)
  have f: "wq_threads (wait_enqueue (cur k) q ?s) = (wq_threads ?s)(q := wq_threads ?s q @ [cur k])"
    "mutex_state (wait_enqueue (cur k) q ?s) = mutex_state ?s" "current_thread (wait_enqueue (cur k) q ?s) = cur k"
    by (simp_all add: wait_enqueue_def Let_def)
  have cont: "contents ?k = (contents k)(InQueue q := contents k (InQueue q) @ [cur k])"
    by (rule ext) (use c(2) in \<open>auto simp: contents_def f split: place.splits\<close>)
  have bl: "blocked (wait_enqueue (cur k) q ?s) = insert (cur k) (blocked ?s)" by (auto simp: s')
  have nb: "cur k \<notin> blocked ?s" using act by simp
  show ?thesis
  proof (rule conf_okI)
    show "rq_ok (c_sched ?k)" using conf_okD(1) [OF ok] c(1) by (simp add: wait_enqueue_def Let_def rq_ok_def)
    show "placed (contents ?k) (blocked (c_sched ?k))" using placed_push [OF conf_okD(2) [OF ok] nb, of "InQueue q"] unfolding cont by (simp add: bl)
    fix p t assume t: "t \<in> set (contents ?k p)"
    show "\<exists>m. wants (c_pc ?k t) m \<and> (\<forall>m'. p = InQueue (MutexQueue m') \<longrightarrow> m' = m)"
    proof (cases "t = cur k")
      case True
      then have "p = InQueue q" using t nb contents_blocked [OF ok] unfolding cont by (auto split: if_splits)
      then show ?thesis using True q by auto
    next
      case False
      then have "t \<in> set (contents k p)" using t unfolding cont by (auto split: if_splits)
      then show ?thesis using conf_okD(3) [OF ok] False by simp
    qed
  next
    fix u ts assume "c_pc ?k u = Notifying ts"
    then show "state_of (c_sched ?k) u = THREAD_ACTIVE" using conf_okD(4) [OF ok] by (auto simp: s' split: if_splits)
  next
    show "mutex_ok ?k" unfolding mutex_ok_def
    proof (intro conjI)
      show "\<forall>t u m. m \<in> c_held ?k t \<longrightarrow> m \<in> c_held ?k u \<longrightarrow> t = u" "\<forall>m. mutex_state (c_sched ?k) m = (\<exists>t. m \<in> c_held ?k t)"
        using ok by (simp_all add: conf_ok_def mutex_ok_def f)
      show "\<forall>m'. \<not> mutex_state (c_sched ?k) m' \<longrightarrow> wq_threads (c_sched ?k) (MutexQueue m') \<noteq> [] \<longrightarrow>
        (\<exists>t. state_of (c_sched ?k) t = THREAD_ACTIVE \<and> wants (c_pc ?k t) m')"
      proof (intro allI impI)
        fix m' assume m': "\<not> mutex_state (c_sched ?k) m'" "wq_threads (c_sched ?k) (MutexQueue m') \<noteq> []"
        then have "wq_threads ?s (MutexQueue m') \<noteq> []" using q by (auto simp: f split: if_splits)
        then obtain t where t: "state_of ?s t = THREAD_ACTIVE" "wants (c_pc k t) m'"
          using conf_mutexD(3) [OF ok, of m'] m'(1) f(2) by auto
        then have "t \<noteq> cur k" using c(2) m'(1) by (auto simp: f)
        then show "\<exists>t. state_of (c_sched ?k) t = THREAD_ACTIVE \<and> wants (c_pc ?k t) m'" using t by (auto simp: s' intro!: exI [of _ t])
      qed
    qed
  qed (simp add: s' f)
qed

text \<open>Taking the first thread of a place and making it active.\<close>

lemma pop_conf_ok:
  assumes ok: "conf_ok k" and p: "contents k p = t # ts" and t: "t \<noteq> cur k"
    and k': "rq_ok (c_sched k')" "contents k' = (contents k)(p := ts)" "current_thread (c_sched k') = cur k" "c_held k' = c_held k"
      "mutex_state (c_sched k') = mutex_state (c_sched k)"
      "\<And>u. state_of (c_sched k') u = (if u = t then THREAD_ACTIVE else state_of (c_sched k) u)"
      "\<And>u m. c_pc k' u = Sleeping m \<longleftrightarrow> c_pc k u = Sleeping m" "\<And>u m. c_pc k' u = Retrying m \<longleftrightarrow> c_pc k u = Retrying m"
      "\<And>u us. c_pc k' u = Notifying us \<Longrightarrow> \<exists>vs. c_pc k u = Notifying vs"
  shows "conf_ok k'"
proof (rule conf_okI [OF k'(1)])
  have bl: "blocked (c_sched k') = blocked (c_sched k) - {t}" by (auto simp: k'(6))
  show "placed (contents k') (blocked (c_sched k'))" unfolding bl k'(2) by (rule placed_pop [OF conf_okD(2) [OF ok] p])
  fix q u assume "u \<in> set (contents k' q)"
  then have "u \<in> set (contents k q)" using p unfolding k'(2) by (auto split: if_splits)
  then show "\<exists>m. wants (c_pc k' u) m \<and> (\<forall>m'. q = InQueue (MutexQueue m') \<longrightarrow> m' = m)" using conf_okD(3) [OF ok] by (simp add: k'(7,8))
next
  fix u us assume "c_pc k' u = Notifying us"
  then show "state_of (c_sched k') u = THREAD_ACTIVE" using k'(9) conf_okD(4) [OF ok] by (auto simp: k'(6))
next
  show "state_of (c_sched k') (cur k') = THREAD_BLOCKED \<and> (\<exists>m. c_pc k' (cur k') = Sleeping m) \<or> state_of (c_sched k') (cur k') = THREAD_ACTIVE"
    using ok t unfolding conf_ok_def waiting_ok_def by (simp add: k'(3,6,7))
next
  have sub: "wq_threads (c_sched k') q \<noteq> [] \<Longrightarrow> wq_threads (c_sched k) q \<noteq> []" for q
    using fun_cong [OF k'(2), of "InQueue q"] p by (auto split: if_splits)
  show "mutex_ok k'" unfolding mutex_ok_def
  proof (intro conjI)
    show "\<forall>t u m. m \<in> c_held k' t \<longrightarrow> m \<in> c_held k' u \<longrightarrow> t = u" "\<forall>m. mutex_state (c_sched k') m = (\<exists>t. m \<in> c_held k' t)"
      using ok unfolding conf_ok_def mutex_ok_def by (simp_all add: k'(4,5))
    show "\<forall>m. \<not> mutex_state (c_sched k') m \<longrightarrow> wq_threads (c_sched k') (MutexQueue m) \<noteq> [] \<longrightarrow>
        (\<exists>t. state_of (c_sched k') t = THREAD_ACTIVE \<and> wants (c_pc k' t) m)"
    proof (intro allI impI)
      fix m assume "\<not> mutex_state (c_sched k') m" "wq_threads (c_sched k') (MutexQueue m) \<noteq> []"
      then obtain u where "state_of (c_sched k) u = THREAD_ACTIVE" "wants (c_pc k u) m"
        using conf_mutexD(3) [OF ok, of m] sub k'(5) by auto
      then show "\<exists>t. state_of (c_sched k') t = THREAD_ACTIVE \<and> wants (c_pc k' t) m" by (auto simp: k'(6,7,8))
    qed
  qed
qed

lemma notify_conf_ok:
  assumes ok: "conf_ok k" and c: "cur k \<notin> set (wq_threads (c_sched k) q)"
  shows "\<exists>s. wait_queue_notify q (c_sched k) = Some s \<and> conf_ok (k\<lparr>c_sched := s\<rparr>) \<and> current_thread s = cur k \<and> mutex_state s = mutex_state (c_sched k) \<and>
    wq_threads s = (wq_threads (c_sched k))(q := tl (wq_threads (c_sched k) q)) \<and>
    (\<forall>t. state_of s t = (if wq_threads (c_sched k) q \<noteq> [] \<and> t = hd (wq_threads (c_sched k) q) then THREAD_ACTIVE else state_of (c_sched k) t))"
proof (cases "wq_threads (c_sched k) q")
  case Nil
  then show ?thesis using ok by (auto simp: wait_queue_notify_def)
next
  case (Cons t ts)
  let ?s = "(c_sched k)\<lparr>wq_threads := (wq_threads (c_sched k))(q := ts)\<rparr>"
  have t: "state_of (c_sched k) t = THREAD_BLOCKED" "t \<noteq> cur k" using contents_blocked [OF ok, of t "InQueue q"] Cons c by auto
  have rq: "rq_ok ?s" using conf_okD(1) [OF ok] by (simp add: rq_ok_def)
  define s' where "s' = (set_state t THREAD_ACTIVE ?s)\<lparr>rr_active_list := rr_active_list ?s @ [t]\<rparr>"
  have a: "activate_thread t ?s = Some s'" "rq_ok s'" using activate_ok [OF rq, of t] t by (simp_all add: s'_def)
  have "conf_ok (k\<lparr>c_sched := s'\<rparr>)"
    by (rule pop_conf_ok [OF ok, of "InQueue q" t ts])
      (use a(2) Cons t(2) in \<open>auto simp: s'_def contents_def fun_eq_iff split: place.splits\<close>)
  moreover have "wait_queue_notify q (c_sched k) = Some s'" using a(1) Cons by (simp add: wait_queue_notify_def)
  ultimately show ?thesis using Cons by (intro exI [of _ s']) (simp add: s'_def)
qed

lemma running_active: "conf_ok k \<Longrightarrow> c_pc k (cur k) = Running \<Longrightarrow> state_of (c_sched k) (cur k) = THREAD_ACTIVE"
  by (rule conf_okD(5)) simp_all

lemma active_not_waiting: "conf_ok k \<Longrightarrow> state_of (c_sched k) t = THREAD_ACTIVE \<Longrightarrow> t \<notin> set (contents k p)"
  using contents_blocked by fastforce

text \<open>Giving a mutex back when nobody waits for it or somebody is on the way to it.\<close>

lemma release_conf_ok:
  assumes ok: "conf_ok k" and m: "m \<in> c_held k (cur k)"
    and w: "wq_threads (c_sched k) (MutexQueue m) = [] \<or> (\<exists>t. state_of (c_sched k) t = THREAD_ACTIVE \<and> wants (c_pc k t) m)"
  shows "conf_ok (k\<lparr>c_sched := (c_sched k)\<lparr>mutex_state := (mutex_state (c_sched k))(m := False)\<rparr>, c_held := (c_held k)(cur k := c_held k (cur k) - {m})\<rparr>)"
proof (rule conf_okI)
  let ?k = "k\<lparr>c_sched := (c_sched k)\<lparr>mutex_state := (mutex_state (c_sched k))(m := False)\<rparr>, c_held := (c_held k)(cur k := c_held k (cur k) - {m})\<rparr>"
  have cont: "contents ?k = contents k" by (rule contents_eqI) simp_all
  show "rq_ok (c_sched ?k)" using conf_okD(1) [OF ok] by (simp add: rq_ok_def)
  show "placed (contents ?k) (blocked (c_sched ?k))" using conf_okD(2) [OF ok] unfolding cont by simp
  show "\<exists>m. wants (c_pc ?k t) m \<and> (\<forall>m'. p = InQueue (MutexQueue m') \<longrightarrow> m' = m)" if "t \<in> set (contents ?k p)" for p t
    using conf_okD(3) [OF ok, of t p] that unfolding cont by simp
  show "state_of (c_sched ?k) u = THREAD_ACTIVE" if "c_pc ?k u = Notifying ts" for u ts using conf_okD(4) [OF ok] that by simp
  show "state_of (c_sched ?k) (cur ?k) = THREAD_BLOCKED \<and> (\<exists>m. c_pc ?k (cur ?k) = Sleeping m) \<or> state_of (c_sched ?k) (cur ?k) = THREAD_ACTIVE"
    using ok unfolding conf_ok_def waiting_ok_def by simp
  show "mutex_ok ?k" unfolding mutex_ok_def
  proof (intro conjI)
    show "\<forall>t u m'. m' \<in> c_held ?k t \<longrightarrow> m' \<in> c_held ?k u \<longrightarrow> t = u"
    proof (intro allI impI)
      fix t u m' assume "m' \<in> c_held ?k t" "m' \<in> c_held ?k u"
      then have "m' \<in> c_held k t" "m' \<in> c_held k u" by (auto split: if_splits)
      then show "t = u" by (rule conf_mutexD(1) [OF ok])
    qed
    show "\<forall>m'. mutex_state (c_sched ?k) m' = (\<exists>t. m' \<in> c_held ?k t)"
    proof
      fix m'
      show "mutex_state (c_sched ?k) m' = (\<exists>t. m' \<in> c_held ?k t)"
      proof (cases "m' = m")
        case True
        have "m \<notin> c_held ?k t" for t
        proof (cases "t = cur k")
          case False
          then have "m \<notin> c_held k t" using conf_mutexD(1) [OF ok _ m, of t] by blast
          then show ?thesis using False by simp
        qed simp
        then show ?thesis using True by simp
      next
        case False
        have "m' \<in> c_held ?k t \<longleftrightarrow> m' \<in> c_held k t" for t using False by simp
        then show ?thesis using conf_mutexD(2) [OF ok, of m'] False by simp
      qed
    qed
    show "\<forall>m'. \<not> mutex_state (c_sched ?k) m' \<longrightarrow> wq_threads (c_sched ?k) (MutexQueue m') \<noteq> [] \<longrightarrow>
        (\<exists>t. state_of (c_sched ?k) t = THREAD_ACTIVE \<and> wants (c_pc ?k t) m')"
      using w conf_mutexD(3) [OF ok] by auto
  qed
qed

lemma unlock_conf_ok:
  assumes ok: "conf_ok k" and m: "m \<in> c_held k (cur k)" and c: "cur k \<notin> set (wq_threads (c_sched k) (MutexQueue m))"
  shows "\<exists>s. mutex_unlock m (c_sched k) = Some s \<and> conf_ok (k\<lparr>c_sched := s, c_held := (c_held k)(cur k := c_held k (cur k) - {m})\<rparr>)"
proof -
  let ?q = "MutexQueue m" and ?rel = "\<lambda>s. s\<lparr>mutex_state := (mutex_state s)(m := False)\<rparr>"
  obtain s where s: "wait_queue_notify ?q (c_sched k) = Some s" "conf_ok (k\<lparr>c_sched := s\<rparr>)" "current_thread s = cur k" "mutex_state s = mutex_state (c_sched k)"
    "wq_threads s = (wq_threads (c_sched k))(?q := tl (wq_threads (c_sched k) ?q))"
    "\<forall>t. state_of s t = (if wq_threads (c_sched k) ?q \<noteq> [] \<and> t = hd (wq_threads (c_sched k) ?q) then THREAD_ACTIVE else state_of (c_sched k) t)"
    using notify_conf_ok [OF ok c] by blast
  have call: "mutex_unlock m (c_sched k) = Some (?rel s)"
    using s(1) by (auto simp: mutex_unlock_def wait_queue_notify_def activate_thread_def rr_activate_thread_def set_state_def split: list.splits if_splits)
  have w: "wq_threads s ?q = [] \<or> (\<exists>t. state_of s t = THREAD_ACTIVE \<and> wants (c_pc k t) m)"
  proof (cases "wq_threads (c_sched k) ?q")
    case Nil
    then show ?thesis using s(5) by simp
  next
    case (Cons t ts)
    have "wants (c_pc k t) m" using conf_okD(3) [OF ok, of t "InQueue ?q"] Cons by auto
    then show ?thesis using s(6) Cons by (intro disjI2 exI [of _ t]) simp
  qed
  have "conf_ok ((k\<lparr>c_sched := s\<rparr>)\<lparr>c_sched := ?rel s, c_held := (c_held k)(cur k := c_held k (cur k) - {m})\<rparr>)"
    using release_conf_ok [OF s(2), of m] w m s(3) by simp
  then show ?thesis using call by simp
qed

lemma lock_conf_ok:
  assumes ok: "conf_ok k" and c: "c_pc k (cur k) = Running \<or> c_pc k (cur k) = Retrying m" and free: "\<not> mutex_state (c_sched k) m"
  shows "conf_ok (k\<lparr>c_sched := (c_sched k)\<lparr>mutex_state := (mutex_state (c_sched k))(m := True)\<rparr>,
    c_pc := (c_pc k)(cur k := Running), c_held := (c_held k)(cur k := insert m (c_held k (cur k)))\<rparr>)"
proof (rule conf_okI)
  let ?k = "k\<lparr>c_sched := (c_sched k)\<lparr>mutex_state := (mutex_state (c_sched k))(m := True)\<rparr>,
    c_pc := (c_pc k)(cur k := Running), c_held := (c_held k)(cur k := insert m (c_held k (cur k)))\<rparr>"
  have act: "state_of (c_sched k) (cur k) = THREAD_ACTIVE" by (rule conf_okD(5) [OF ok]) (use c in auto)
  have cont: "contents ?k = contents k" by (rule contents_eqI) (use c in auto)
  have nh: "m \<notin> c_held k t" for t using conf_mutexD(2) [OF ok, of m] free by blast
  show "rq_ok (c_sched ?k)" using conf_okD(1) [OF ok] by (simp add: rq_ok_def)
  show "placed (contents ?k) (blocked (c_sched ?k))" using conf_okD(2) [OF ok] unfolding cont by simp
  show "\<exists>m. wants (c_pc ?k t) m \<and> (\<forall>m'. p = InQueue (MutexQueue m') \<longrightarrow> m' = m)" if t: "t \<in> set (contents ?k p)" for p t
  proof -
    have "t \<noteq> cur k" using t active_not_waiting [OF ok act] unfolding cont by auto
    then show ?thesis using conf_okD(3) [OF ok, of t p] t unfolding cont by simp
  qed
  show "state_of (c_sched ?k) u = THREAD_ACTIVE" if "c_pc ?k u = Notifying ts" for u ts
    using conf_okD(4) [OF ok] that by (auto split: if_splits)
  show "state_of (c_sched ?k) (cur ?k) = THREAD_BLOCKED \<and> (\<exists>m. c_pc ?k (cur ?k) = Sleeping m) \<or> state_of (c_sched ?k) (cur ?k) = THREAD_ACTIVE"
    using act by simp
  show "mutex_ok ?k" unfolding mutex_ok_def
  proof (intro conjI)
    show "\<forall>t u m'. m' \<in> c_held ?k t \<longrightarrow> m' \<in> c_held ?k u \<longrightarrow> t = u"
    proof (intro allI impI)
      fix t u m' assume h: "m' \<in> c_held ?k t" "m' \<in> c_held ?k u"
      show "t = u"
      proof (cases "m' = m")
        case True
        then have "t = cur k" "u = cur k" using h nh by (auto split: if_splits)
        then show ?thesis by simp
      next
        case False
        then have "m' \<in> c_held k t" "m' \<in> c_held k u" using h by (auto split: if_splits)
        then show ?thesis by (rule conf_mutexD(1) [OF ok])
      qed
    qed
    show "\<forall>m'. mutex_state (c_sched ?k) m' = (\<exists>t. m' \<in> c_held ?k t)"
    proof
      fix m'
      show "mutex_state (c_sched ?k) m' = (\<exists>t. m' \<in> c_held ?k t)"
      proof (cases "m' = m")
        case True
        then show ?thesis by (auto intro!: exI [of _ "cur k"])
      next
        case False
        have "m' \<in> c_held ?k t \<longleftrightarrow> m' \<in> c_held k t" for t using False by simp
        then show ?thesis using conf_mutexD(2) [OF ok, of m'] False by simp
      qed
    qed
    show "\<forall>m'. \<not> mutex_state (c_sched ?k) m' \<longrightarrow> wq_threads (c_sched ?k) (MutexQueue m') \<noteq> [] \<longrightarrow>
        (\<exists>t. state_of (c_sched ?k) t = THREAD_ACTIVE \<and> wants (c_pc ?k t) m')"
    proof (intro allI impI)
      fix m' assume m': "\<not> mutex_state (c_sched ?k) m'" "wq_threads (c_sched ?k) (MutexQueue m') \<noteq> []"
      then obtain t where t: "state_of (c_sched k) t = THREAD_ACTIVE" "wants (c_pc k t) m'" "m' \<noteq> m"
        using conf_mutexD(3) [OF ok, of m'] by (auto split: if_splits)
      then have "t \<noteq> cur k" using c by auto
      then show "\<exists>t. state_of (c_sched ?k) t = THREAD_ACTIVE \<and> wants (c_pc ?k t) m'" using t by (intro exI [of _ t]) simp
    qed
  qed
qed

lemma sleep_conf_ok:
  assumes ok: "conf_ok k" and c: "c_pc k (cur k) = Sleeping m"
  shows "conf_ok (k\<lparr>c_sched := schedule (c_sched k), c_pc := (c_pc k)(cur k := Retrying m)\<rparr>)"
proof (rule conf_okI)
  let ?k = "k\<lparr>c_sched := schedule (c_sched k), c_pc := (c_pc k)(cur k := Retrying m)\<rparr>"
  note sc = schedule_ok [OF conf_okD(1) [OF ok]]
  have st: "state_of (schedule (c_sched k)) t = state_of (c_sched k) t" for t
    using sc(3) [of t] conf_okD(6) [OF ok] by auto
  have cont: "contents ?k = contents k" by (rule contents_eqI) (use c sc(4) in auto)
  have w: "wants (c_pc ?k t) m' \<longleftrightarrow> wants (c_pc k t) m'" for t m' using c by auto
  show "rq_ok (c_sched ?k)" using sc(1) by simp
  show "placed (contents ?k) (blocked (c_sched ?k))" using conf_okD(2) [OF ok] unfolding cont by (simp add: st)
  show "\<exists>m. wants (c_pc ?k t) m \<and> (\<forall>m'. p = InQueue (MutexQueue m') \<longrightarrow> m' = m)" if t: "t \<in> set (contents ?k p)" for p t
    using conf_okD(3) [OF ok, of t p] t unfolding cont w by simp
  show "state_of (c_sched ?k) u = THREAD_ACTIVE" if "c_pc ?k u = Notifying ts" for u ts
    using conf_okD(4) [OF ok] that by (auto simp: st split: if_splits)
  show "state_of (c_sched ?k) (cur ?k) = THREAD_BLOCKED \<and> (\<exists>m. c_pc ?k (cur ?k) = Sleeping m) \<or> state_of (c_sched ?k) (cur ?k) = THREAD_ACTIVE"
    using sc(2) by simp
  show "mutex_ok ?k" using ok unfolding conf_ok_def mutex_ok_def w by (simp add: st sc(4,5))
qed

text \<open>Changes of the place in the code of threads that neither wait nor want a mutex.\<close>

lemma conf_ok_pc:
  assumes ok: "conf_ok k" and rq: "rq_ok (c_sched k')" and cont: "placed (contents k') (blocked (c_sched k'))"
    and sub: "\<And>p t. t \<in> set (contents k' p) \<Longrightarrow> \<exists>p'. t \<in> set (contents k p') \<and> (\<forall>m. p = InQueue (MutexQueue m) \<longrightarrow> p' = p)"
    and held: "c_held k' = c_held k" "mutex_state (c_sched k') = mutex_state (c_sched k)"
      "\<And>m. wq_threads (c_sched k') (MutexQueue m) = wq_threads (c_sched k) (MutexQueue m)"
    and pc: "\<And>t m. wants (c_pc k' t) m \<longleftrightarrow> wants (c_pc k t) m"
    and act: "\<And>u ts. c_pc k' u = Notifying ts \<Longrightarrow> state_of (c_sched k') u = THREAD_ACTIVE" "state_of (c_sched k') (cur k') = THREAD_ACTIVE"
      "\<And>t m. wants (c_pc k t) m \<Longrightarrow> state_of (c_sched k) t = THREAD_ACTIVE \<Longrightarrow> state_of (c_sched k') t = THREAD_ACTIVE"
  shows "conf_ok k'"
proof (rule conf_okI [OF rq cont _ act(1)])
  fix p t assume "t \<in> set (contents k' p)"
  then obtain p' where p': "t \<in> set (contents k p')" "\<forall>m. p = InQueue (MutexQueue m) \<longrightarrow> p' = p" using sub by blast
  obtain m where m: "wants (c_pc k t) m" "\<forall>m'. p' = InQueue (MutexQueue m') \<longrightarrow> m' = m" using conf_okD(3) [OF ok p'(1)] by (elim exE conjE)
  have "m' = m" if "p = InQueue (MutexQueue m')" for m' using m(2) p'(2) that by simp
  then show "\<exists>m. wants (c_pc k' t) m \<and> (\<forall>m'. p = InQueue (MutexQueue m') \<longrightarrow> m' = m)" using m(1) pc [of t m] by (intro exI [of _ m] conjI allI impI) simp_all
next
  show "mutex_ok k'" unfolding mutex_ok_def held
  proof (intro conjI)
    show "\<forall>t u m. m \<in> c_held k t \<longrightarrow> m \<in> c_held k u \<longrightarrow> t = u" by (intro allI impI) (erule (1) conf_mutexD(1) [OF ok])
    show "\<forall>m. mutex_state (c_sched k) m = (\<exists>t. m \<in> c_held k t)" by (intro allI conf_mutexD(2) [OF ok])
    show "\<forall>m. \<not> mutex_state (c_sched k) m \<longrightarrow> wq_threads (c_sched k) (MutexQueue m) \<noteq> [] \<longrightarrow>
        (\<exists>t. state_of (c_sched k') t = THREAD_ACTIVE \<and> wants (c_pc k' t) m)"
      using conf_mutexD(3) [OF ok] act(3) unfolding pc by blast
  qed
qed (use act(2) in auto)

lemma notify_all_conf_ok:
  assumes ok: "conf_ok k" and c: "c_pc k (cur k) = Running" and n: "condition_notify_all q (c_sched k) = (ts, s)"
  shows "conf_ok (k\<lparr>c_sched := s, c_pc := (c_pc k)(cur k := Notifying ts)\<rparr>)"
proof -
  let ?k = "k\<lparr>c_sched := s, c_pc := (c_pc k)(cur k := Notifying ts)\<rparr>" and ?p = "InQueue (CondQueue q)" and ?p' = "InList (cur k)"
  have s: "s = (c_sched k)\<lparr>wq_threads := (wq_threads (c_sched k))(CondQueue q := [])\<rparr>" "ts = wq_threads (c_sched k) (CondQueue q)"
    using n by (simp_all add: condition_notify_all_def wait_queue_splice_def)
  have cont: "contents ?k = (contents k)(?p' := contents k ?p, ?p := [])"
    by (rule ext) (auto simp: contents_def s split: place.splits)
  have pl: "placed (contents ?k) (blocked (c_sched k))"
    unfolding cont by (rule placed_move [OF conf_okD(2) [OF ok]]) (use c in simp_all)
  show ?thesis
  proof (rule conf_ok_pc [OF ok])
    show "rq_ok (c_sched ?k)" using conf_okD(1) [OF ok] by (simp add: rq_ok_def s)
    show "placed (contents ?k) (blocked (c_sched ?k))" using pl by (simp add: s)
    show "\<exists>p'. t \<in> set (contents k p') \<and> (\<forall>m. p = InQueue (MutexQueue m) \<longrightarrow> p' = p)" if "t \<in> set (contents ?k p)" for p t
    proof (cases "p = ?p'")
      case True
      then show ?thesis using that unfolding cont by (intro exI [of _ ?p]) auto
    next
      case False
      then show ?thesis using that unfolding cont by (intro exI [of _ p]) (auto split: if_splits)
    qed
    show "state_of (c_sched ?k) u = THREAD_ACTIVE" if "c_pc ?k u = Notifying us" for u us
      using that running_active [OF ok c] conf_okD(4) [OF ok, of u us] by (auto simp: s split: if_splits)
  qed (use c running_active [OF ok c] in \<open>auto simp: s split: if_splits\<close>)
qed

lemma notify_next_conf_ok:
  assumes ok: "conf_ok k" and c: "c_pc k (cur k) = Notifying (t # ts)"
  shows "\<exists>s. activate_thread t (c_sched k) = Some s \<and> conf_ok (k\<lparr>c_sched := s, c_pc := (c_pc k)(cur k := Notifying ts)\<rparr>)"
proof -
  have act: "state_of (c_sched k) (cur k) = THREAD_ACTIVE" by (rule conf_okD(4) [OF ok c])
  have t: "state_of (c_sched k) t = THREAD_BLOCKED" "t \<noteq> cur k" using contents_blocked [OF ok, of t "InList (cur k)"] c act by auto
  define s where "s = (set_state t THREAD_ACTIVE (c_sched k))\<lparr>rr_active_list := rr_active_list (c_sched k) @ [t]\<rparr>"
  have a: "activate_thread t (c_sched k) = Some s" "rq_ok s" using activate_ok [OF conf_okD(1) [OF ok] t] by (simp_all add: s_def)
  have "conf_ok (k\<lparr>c_sched := s, c_pc := (c_pc k)(cur k := Notifying ts)\<rparr>)"
    by (rule pop_conf_ok [OF ok, of "InList (cur k)" t ts])
      (use a(2) c t(2) in \<open>auto simp: s_def contents_def fun_eq_iff split: place.splits if_splits\<close>)
  then show ?thesis using a(1) by blast
qed

lemma notify_done_conf_ok:
  assumes ok: "conf_ok k" and c: "c_pc k (cur k) = Notifying []"
  shows "conf_ok (k\<lparr>c_pc := (c_pc k)(cur k := Running)\<rparr>)"
proof (rule conf_ok_pc [OF ok])
  let ?k = "k\<lparr>c_pc := (c_pc k)(cur k := Running)\<rparr>"
  have cont: "contents ?k = contents k" by (rule contents_eqI) (use c in auto)
  show "placed (contents ?k) (blocked (c_sched ?k))" using conf_okD(2) [OF ok] unfolding cont by simp
  show "\<exists>p'. t \<in> set (contents k p') \<and> (\<forall>m. p = InQueue (MutexQueue m) \<longrightarrow> p' = p)" if "t \<in> set (contents ?k p)" for p t
    using that unfolding cont by blast
  show "state_of (c_sched ?k) u = THREAD_ACTIVE" if "c_pc ?k u = Notifying us" for u us
    using that conf_okD(4) [OF ok, of u us] by (auto split: if_splits)
qed (use c conf_okD(1) [OF ok] conf_okD(4) [OF ok c] in auto)

lemma exit_conf_ok:
  assumes ok: "conf_ok k" and c: "c_pc k (cur k) = Running" "cur k \<noteq> bootstrap"
  shows "conf_ok (k\<lparr>c_sched := exit_thread (c_sched k), c_pc := (c_pc k)(cur k := Exited)\<rparr>)"
proof (rule conf_ok_pc [OF ok])
  let ?k = "k\<lparr>c_sched := exit_thread (c_sched k), c_pc := (c_pc k)(cur k := Exited)\<rparr>" and ?s = "set_state (cur k) THREAD_FINISHED (c_sched k)"
  note act = running_active [OF ok c(1)]
  have c0: "cur k \<noteq> 0" using conf_okD(1) [OF ok] by (simp add: rq_ok_def)
  have rq: "rq_ok ?s" using conf_okD(1) [OF ok] c(2) c0 unfolding rq_ok_def by simp
  note sc = schedule_ok [OF rq, folded exit_thread_def]
  have st: "state_of (exit_thread (c_sched k)) t = (if t = cur k then THREAD_DEAD else state_of (c_sched k) t)" for t
    using sc(3) [of t] by (simp add: exit_thread_def)
  have cont: "contents ?k = contents k" by (rule contents_eqI) (use c sc(4) in \<open>auto simp: exit_thread_def\<close>)
  have bl: "blocked (exit_thread (c_sched k)) = blocked (c_sched k)" using act by (auto simp: st)
  show "rq_ok (c_sched ?k)" using sc(1) by (simp add: exit_thread_def)
  show "placed (contents ?k) (blocked (c_sched ?k))" using conf_okD(2) [OF ok] unfolding cont by (simp add: bl)
  show "\<exists>p'. t \<in> set (contents k p') \<and> (\<forall>m. p = InQueue (MutexQueue m) \<longrightarrow> p' = p)" if "t \<in> set (contents ?k p)" for p t
    using that unfolding cont by blast
  show "state_of (c_sched ?k) u = THREAD_ACTIVE" if "c_pc ?k u = Notifying us" for u us
    using that conf_okD(4) [OF ok, of u us] by (auto simp: st split: if_splits)
  show "state_of (c_sched ?k) (cur ?k) = THREAD_ACTIVE" using sc(2) by (simp add: exit_thread_def)
  show "state_of (c_sched ?k) t = THREAD_ACTIVE" if "wants (c_pc k t) m" "state_of (c_sched k) t = THREAD_ACTIVE" for t m
    using that c by (auto simp: st)
  show "mutex_state (c_sched ?k) = mutex_state (c_sched k)" "\<And>m. wq_threads (c_sched ?k) (MutexQueue m) = wq_threads (c_sched k) (MutexQueue m)"
    using sc(4,5) by (simp_all add: exit_thread_def)
qed (use c in auto)

lemma spawn_conf_ok:
  assumes ok: "conf_ok k" and c: "c_pc k (cur k) = Running" and t: "t \<noteq> 0" "state_of (c_sched k) t = THREAD_NONE"
  shows "\<exists>s. activate_thread t (set_state t THREAD_BLOCKED (c_sched k)) = Some s \<and> conf_ok (k\<lparr>c_sched := s, c_pc := (c_pc k)(t := Running)\<rparr>)"
proof -
  let ?s = "set_state t THREAD_BLOCKED (c_sched k)"
  note act = running_active [OF ok c]
  have tn1: "t \<noteq> cur k" "t \<noteq> bootstrap" using t act conf_okD(1) [OF ok] by (auto simp: rq_ok_def)
  have "t \<notin> set (rr_active_list (c_sched k))" using conf_okD(1) [OF ok] tn1 t(2) unfolding rq_ok_def by (metis thread_state.distinct(1))
  note tn = tn1 this
  have rq: "rq_ok ?s" using conf_okD(1) [OF ok] tn t unfolding rq_ok_def by auto
  define s where "s = (set_state t THREAD_ACTIVE ?s)\<lparr>rr_active_list := rr_active_list ?s @ [t]\<rparr>"
  have a: "activate_thread t ?s = Some s" "rq_ok s" using activate_ok [OF rq, of t] tn by (simp_all add: s_def)
  have st: "state_of s u = (if u = t then THREAD_ACTIVE else state_of (c_sched k) u)" for u by (simp add: s_def)
  let ?k = "k\<lparr>c_sched := s, c_pc := (c_pc k)(t := Running)\<rparr>"
  have np: "pending (c_pc k t) = []" using conf_okD(4) [OF ok, of t] t(2) by (cases "c_pc k t") auto
  have nw: "state_of (c_sched k) t \<noteq> THREAD_ACTIVE" using t(2) by simp
  have cont: "contents ?k = contents k" by (rule contents_eqI) (use np in \<open>auto simp: s_def\<close>)
  have bl: "blocked s = blocked (c_sched k)" using t(2) by (auto simp: st)
  have nc: "u \<noteq> t" if "u \<in> set (contents k p)" for u p using contents_blocked [OF ok that] t(2) by auto
  have "conf_ok ?k"
  proof (rule conf_okI)
    show "rq_ok (c_sched ?k)" using a(2) by simp
    show "placed (contents ?k) (blocked (c_sched ?k))" using conf_okD(2) [OF ok] unfolding cont by (simp add: bl)
    show "\<exists>m. wants (c_pc ?k u) m \<and> (\<forall>m'. p = InQueue (MutexQueue m') \<longrightarrow> m' = m)" if u: "u \<in> set (contents ?k p)" for p u
      using conf_okD(3) [OF ok] nc u unfolding cont by simp
    show "state_of (c_sched ?k) u = THREAD_ACTIVE" if "c_pc ?k u = Notifying us" for u us
      using that conf_okD(4) [OF ok, of u us] by (auto simp: st split: if_splits)
    have cs: "current_thread s = cur k" by (simp add: s_def)
    show "state_of (c_sched ?k) (cur ?k) = THREAD_BLOCKED \<and> (\<exists>m. c_pc ?k (cur ?k) = Sleeping m) \<or> state_of (c_sched ?k) (cur ?k) = THREAD_ACTIVE"
      using act by (simp add: st cs)
    have ms: "mutex_state s = mutex_state (c_sched k)" "wq_threads s = wq_threads (c_sched k)" by (simp_all add: s_def)
    show "mutex_ok ?k" unfolding mutex_ok_def
    proof (intro conjI)
      show "\<forall>t u m. m \<in> c_held ?k t \<longrightarrow> m \<in> c_held ?k u \<longrightarrow> t = u" using conf_mutexD(1) [OF ok] by (intro allI impI) simp
      show "\<forall>m. mutex_state (c_sched ?k) m = (\<exists>t. m \<in> c_held ?k t)" using conf_mutexD(2) [OF ok] by (simp add: ms)
      show "\<forall>m. \<not> mutex_state (c_sched ?k) m \<longrightarrow> wq_threads (c_sched ?k) (MutexQueue m) \<noteq> [] \<longrightarrow>
          (\<exists>u. state_of (c_sched ?k) u = THREAD_ACTIVE \<and> wants (c_pc ?k u) m)"
      proof (intro allI impI)
        fix m assume "\<not> mutex_state (c_sched ?k) m" "wq_threads (c_sched ?k) (MutexQueue m) \<noteq> []"
        then obtain u where u: "state_of (c_sched k) u = THREAD_ACTIVE" "wants (c_pc k u) m" using conf_mutexD(3) [OF ok, of m] by (auto simp: ms)
        then have "u \<noteq> t" using t(2) by auto
        then show "\<exists>u. state_of (c_sched ?k) u = THREAD_ACTIVE \<and> wants (c_pc ?k u) m" using u by (intro exI [of _ u]) (simp add: st)
      qed
    qed
  qed
  then show ?thesis using a(1) by blast
qed

lemma reap_conf_ok:
  assumes ok: "conf_ok k" and c: "c_pc k (cur k) = Running" and t: "state_of (c_sched k) t = THREAD_DEAD"
  shows "conf_ok (k\<lparr>c_sched := snd (reap_state t (c_sched k))\<rparr>)"
proof (rule conf_ok_pc [OF ok])
  let ?k = "k\<lparr>c_sched := snd (reap_state t (c_sched k))\<rparr>"
  note act = running_active [OF ok c]
  have s: "snd (reap_state t (c_sched k)) = set_state t THREAD_REAPED (c_sched k)" by (simp add: reap_state_def)
  have tn: "t \<noteq> cur k" "t \<noteq> bootstrap" "t \<noteq> 0" using t act conf_okD(1) [OF ok] by (auto simp: rq_ok_def)
  have cont: "contents ?k = contents k" by (rule contents_eqI) (simp_all add: s)
  have bl: "blocked (c_sched ?k) = blocked (c_sched k)" using t by (auto simp: s)
  show "rq_ok (c_sched ?k)" using conf_okD(1) [OF ok] tn t unfolding rq_ok_def s by auto
  show "placed (contents ?k) (blocked (c_sched ?k))" using conf_okD(2) [OF ok] unfolding cont bl .
  show "\<exists>p'. u \<in> set (contents k p') \<and> (\<forall>m. p = InQueue (MutexQueue m) \<longrightarrow> p' = p)" if "u \<in> set (contents ?k p)" for p u
    using that unfolding cont by blast
  show "state_of (c_sched ?k) u = THREAD_ACTIVE" if "c_pc ?k u = Notifying us" for u us
    using that conf_okD(4) [OF ok, of u us] t by (auto simp: s split: if_splits)
  show "state_of (c_sched ?k) (cur ?k) = THREAD_ACTIVE" using act tn by (simp add: s)
  show "state_of (c_sched ?k) u = THREAD_ACTIVE" if "wants (c_pc k u) m" "state_of (c_sched k) u = THREAD_ACTIVE" for u m
    using that t by (auto simp: s)
qed (simp_all add: reap_state_def)

lemma run_not_waiting: "conf_ok k \<Longrightarrow> c_pc k (cur k) = Running \<Longrightarrow> cur k \<notin> set (wq_threads (c_sched k) q)"
  using active_not_waiting [of k "cur k" "InQueue q"] running_active [of k] by simp

lemma cond_wait_conf_ok:
  assumes ok: "conf_ok k" and c: "c_pc k (cur k) = Running" "cur k \<noteq> bootstrap" and m: "m \<in> c_held k (cur k)"
  shows "\<exists>s. condition_wait m q (c_sched k) = Some s \<and>
    conf_ok (k\<lparr>c_sched := s, c_pc := (c_pc k)(cur k := Sleeping m), c_held := (c_held k)(cur k := c_held k (cur k) - {m})\<rparr>)"
proof -
  let ?s = "wait_enqueue (cur k) (CondQueue q) (c_sched k)"
  define k1 where "k1 = k\<lparr>c_sched := ?s, c_pc := (c_pc k)(cur k := Sleeping m)\<rparr>"
  have ok1: "conf_ok k1" unfolding k1_def by (rule enqueue_conf_ok [OF ok c(2)]) (use c(1) in simp_all)
  have c1: "cur k1 = cur k" "c_sched k1 = ?s" by (simp_all add: k1_def wait_enqueue_def Let_def)
  have "cur k1 \<notin> set (wq_threads (c_sched k1) (MutexQueue m))"
    using run_not_waiting [OF ok c(1)] c1 by (simp add: wait_enqueue_def Let_def)
  moreover have "m \<in> c_held k1 (cur k1)" using m c1 by (simp add: k1_def)
  ultimately obtain s where s: "mutex_unlock m (c_sched k1) = Some s"
    "conf_ok (k1\<lparr>c_sched := s, c_held := (c_held k1)(cur k1 := c_held k1 (cur k1) - {m})\<rparr>)"
    using unlock_conf_ok [OF ok1, of m] by blast
  have "k1\<lparr>c_sched := s, c_held := (c_held k1)(cur k1 := c_held k1 (cur k1) - {m})\<rparr> =
    k\<lparr>c_sched := s, c_pc := (c_pc k)(cur k := Sleeping m), c_held := (c_held k)(cur k := c_held k (cur k) - {m})\<rparr>"
    unfolding c1(1) by (simp add: k1_def)
  then show ?thesis using s unfolding c1(2) condition_wait_def by auto
qed

lemma step_conf_ok: "step k k' \<Longrightarrow> conf_ok k \<Longrightarrow> conf_ok k'"
proof (induction rule: step.induct)
  case (tick k)
  then show ?case using isr_conf_ok [OF tick_conf_ok] by simp
next
  case (lock k m s)
  then have "\<not> mutex_state (c_sched k) m" "s = (c_sched k)\<lparr>mutex_state := (mutex_state (c_sched k))(m := True)\<rparr>"
    by (auto simp: mutex_lock_def mutex_try_lock_def Let_def split: if_splits)
  then show ?case using lock_conf_ok lock by simp
next
  case (lock_wait k m s)
  then have "mutex_state (c_sched k) m" "s = wait_enqueue (cur k) (MutexQueue m) (c_sched k)"
    by (auto simp: mutex_lock_def mutex_try_lock_def Let_def split: if_splits)
  then show ?case using enqueue_conf_ok [of k m "MutexQueue m"] lock_wait by simp
next
  case (unlock k m s)
  then show ?case
    using unlock_conf_ok [of k m] run_not_waiting [of k "MutexQueue m"] by auto
next
  case (cond_wait k m q s)
  then show ?case using cond_wait_conf_ok [of k m q] by auto
next
  case (notify k q s)
  then show ?case
    using notify_conf_ok [of k "CondQueue q"] run_not_waiting [of k "CondQueue q"] by (auto simp: condition_notify_def)
next
  case (notify_next k t ts s)
  then show ?case using notify_next_conf_ok [of k t ts] by auto
next
  case (spawn k t s)
  then show ?case using spawn_conf_ok [of k t] by auto
qed (simp_all add: isr_conf_ok schedule_conf_ok sleep_conf_ok notify_all_conf_ok notify_done_conf_ok exit_conf_ok reap_conf_ok)

lemma reachable_ok: "reachable k \<Longrightarrow> conf_ok k"
  by (induction rule: reachable.induct) (simp_all add: initial_ok step_conf_ok)

section \<open>Progress of the queues\<close>

text \<open>A step appends to the run queue, or takes its first thread to the processor and appends to the rest.\<close>

definition queue_moves :: "sched \<Rightarrow> sched \<Rightarrow> bool" where
  "queue_moves s s' \<longleftrightarrow> (\<exists>xs. rr_active_list s' = rr_active_list s @ xs) \<or>
     (\<exists>ts xs. rr_active_list s = current_thread s' # ts \<and> rr_active_list s' = ts @ xs)"

lemma queue_moves_same: "rr_active_list s' = rr_active_list s \<Longrightarrow> queue_moves s s'"
  by (simp add: queue_moves_def)

lemma queue_moves_cong: "rr_active_list s = rr_active_list r \<Longrightarrow> queue_moves r s' \<longleftrightarrow> queue_moves s s'"
  by (simp add: queue_moves_def)

lemma schedule_next:
  assumes "rq_ok s" and "rr_active_list s = n # ts"
  shows "current_thread (schedule s) = n" "\<exists>xs. rr_active_list (schedule s) = ts @ xs"
proof -
  have n: "n \<noteq> current_thread s" "n \<noteq> 0" using assms rq_zero [OF assms(1)] by (auto simp: rq_ok_def)
  then show "current_thread (schedule s) = n" "\<exists>xs. rr_active_list (schedule s) = ts @ xs"
    using assms(2) by (auto simp: schedule_def rr_next_thread_def Let_def switch_to_def preempt_thread_def rr_preempt_thread_def)
qed

lemma schedule_moves: "rq_ok s \<Longrightarrow> queue_moves s (schedule s)"
proof (cases "rr_active_list s")
  case Nil
  then show ?thesis by (simp add: queue_moves_def)
next
  case (Cons n ts)
  assume "rq_ok s"
  then show ?thesis using schedule_next [OF _ Cons] Cons by (auto simp: queue_moves_def)
qed

lemma activate_moves: "activate_thread t s = Some s' \<Longrightarrow> queue_moves s s'"
  by (auto simp: activate_thread_def rr_activate_thread_def queue_moves_def split: if_splits)

lemma notify_moves: "wait_queue_notify q s = Some s' \<Longrightarrow> queue_moves s s'"
  by (auto simp: wait_queue_notify_def queue_moves_def split: list.splits dest!: activate_moves)

lemma step_moves:
  assumes "step k k'" and "conf_ok k"
  shows "queue_moves (c_sched k) (c_sched k')"
proof -
  note rq = conf_okD(1) [OF assms(2)]
  have isr: "queue_moves s (isr_resched s)" if "rq_ok s" for s
    using schedule_moves [OF that] by (simp add: isr_resched_def queue_moves_same)
  have fin: "rq_ok (set_state (cur k) THREAD_FINISHED (c_sched k))" if "cur k \<noteq> bootstrap" using rq that unfolding rq_ok_def by auto
  have rel: "queue_moves s s'" if "mutex_unlock m r = Some s'" "rr_active_list r = rr_active_list s" for m r s s'
    using notify_moves [OF that(1) [unfolded mutex_unlock_def]] that(2) by (simp add: queue_moves_def)
  from assms(1) show ?thesis
  proof cases
    case tick
    have "rq_ok (i8254_interrupt_handler (c_sched k))" using rq by (simp add: rq_ok_def i8254_interrupt_handler_def)
    from isr [OF this] show ?thesis unfolding tick by (simp add: queue_moves_def i8254_interrupt_handler_def)
  next
    case (spawn t s)
    then show ?thesis by (auto simp: queue_moves_def dest!: activate_moves)
  next
    case exit
    with schedule_moves [OF fin] show ?thesis by (simp add: queue_moves_def exit_thread_def)
  next
    case (cond_wait m q s)
    then show ?thesis using rel [of m _ s "c_sched k"] by (simp add: condition_wait_def wait_enqueue_def Let_def)
  next
    case (unlock m s)
    then show ?thesis using rel [of m _ s "c_sched k"] by simp
  next
    case (notify q s)
    then show ?thesis by (auto simp: condition_notify_def intro: notify_moves)
  next
    case (notify_next t ts s)
    then show ?thesis by (auto intro: activate_moves)
  qed (use rq isr in \<open>auto simp: schedule_moves mutex_lock_def mutex_try_lock_def wait_enqueue_def Let_def condition_notify_def condition_notify_all_def
      wait_queue_splice_def reap_state_def intro!: queue_moves_same split: if_splits\<close>)
qed

lemma schedule_turns:
  "rq_ok s \<Longrightarrow> i < length (rr_active_list s) \<Longrightarrow> current_thread ((schedule ^^ Suc i) s) = rr_active_list s ! i"
proof (induction i arbitrary: s)
  case 0
  then obtain n ts where "rr_active_list s = n # ts" by (cases "rr_active_list s") auto
  then show ?case using schedule_next(1) [OF 0(1)] by simp
next
  case (Suc i)
  then obtain n ts where l: "rr_active_list s = n # ts" by (cases "rr_active_list s") auto
  obtain xs where xs: "rr_active_list (schedule s) = ts @ xs" using schedule_next(2) [OF Suc.prems(1) l] by blast
  have "current_thread ((schedule ^^ Suc i) (schedule s)) = (ts @ xs) ! i"
    using Suc.IH [OF schedule_ok(1) [OF Suc.prems(1)]] Suc.prems(2) l xs by simp
  then show ?case using Suc.prems(2) l by (simp add: funpow_swap1 nth_append)
qed

section \<open>Properties\<close>

definition sample_conf :: conf where
  "sample_conf = \<lparr>c_sched = setup_threading
     \<lparr>sc_thread = (\<lambda>_. \<lparr>t_state = THREAD_NONE, t_time = 0, t_pt = 0, t_stack_end = 0\<rparr>), current_thread = 0, rr_active_list = [], jiffies_value = 0,
      sc_pml4 = 0, tss_rsp0 = 0, wq_threads = (\<lambda>_. []), mutex_state = (\<lambda>_. False)\<rparr>, c_pc = (\<lambda>_. Running), c_held = (\<lambda>_. {})\<rparr>"

definition sample_spawned :: conf where
  "sample_spawned = sample_conf\<lparr>c_sched := the (activate_thread 2 (set_state 2 THREAD_BLOCKED (c_sched sample_conf)))\<rparr>"

lemma sample_reachable: "reachable sample_conf"
  by (rule init) (force simp: initial_def sample_conf_def)

lemma sample_spawned_reachable: "reachable sample_spawned"
proof (rule next_step [OF sample_reachable])
  have "step sample_conf (sample_conf\<lparr>c_sched := the (activate_thread 2 (set_state 2 THREAD_BLOCKED (c_sched sample_conf))),
      c_pc := (c_pc sample_conf)(2 := Running)\<rparr>)"
    by (rule step.spawn)
      (simp_all add: sample_conf_def setup_threading_def activate_thread_def rr_activate_thread_def bootstrap_def set_state_def)
  moreover have "(c_pc sample_conf)(2 := Running) = c_pc sample_conf" by (auto simp: sample_conf_def)
  ultimately show "step sample_conf sample_spawned" by (simp add: sample_spawned_def)
qed

lemma sample_spawned_sched:
  "c_pc sample_spawned t = Running" "cur sample_spawned = bootstrap" "rr_active_list (c_sched sample_spawned) = [2]"
  "mutex_state (c_sched sample_spawned) m \<longleftrightarrow> False" "state_of (c_sched sample_spawned) bootstrap = THREAD_ACTIVE"
  by (simp_all add: sample_spawned_def sample_conf_def setup_threading_def activate_thread_def rr_activate_thread_def bootstrap_def set_state_def)

text \<open>The first thread takes a mutex and yields; the second one wants the mutex.\<close>

definition sample_locked :: conf where
  "sample_locked = sample_spawned\<lparr>c_sched := snd (mutex_lock 7 (c_sched sample_spawned)),
     c_pc := (c_pc sample_spawned)(bootstrap := Running), c_held := (c_held sample_spawned)(bootstrap := insert 7 (c_held sample_spawned bootstrap))\<rparr>"

definition sample_switched :: conf where
  "sample_switched = sample_locked\<lparr>c_sched := schedule (c_sched sample_locked)\<rparr>"

definition sample_waiting :: conf where
  "sample_waiting = sample_switched\<lparr>c_sched := snd (mutex_lock 7 (c_sched sample_switched)), c_pc := (c_pc sample_switched)(2 := Sleeping 7)\<rparr>"

lemma sample_locked_sched:
  "c_sched sample_locked = (c_sched sample_spawned)\<lparr>mutex_state := (mutex_state (c_sched sample_spawned))(7 := True)\<rparr>"
  "c_pc sample_locked t = Running"
  by (simp_all add: sample_locked_def mutex_lock_def mutex_try_lock_def sample_spawned_sched Let_def)

lemma sample_switched_sched: "cur sample_switched = 2" "mutex_state (c_sched sample_switched) 7" "c_pc sample_switched t = Running"
  by (simp_all add: sample_switched_def sample_locked_sched schedule_def rr_next_thread_def Let_def switch_to_def preempt_thread_def sample_spawned_sched bootstrap_def)

lemma sample_waiting_sched: "c_sched sample_waiting = wait_enqueue 2 (MutexQueue 7) (c_sched sample_switched)"
  by (simp add: sample_waiting_def mutex_lock_def mutex_try_lock_def sample_switched_sched Let_def)

lemma sample_waiting_reachable: "reachable sample_waiting"
proof -
  have "step sample_spawned sample_locked"
    unfolding sample_locked_def using step.lock [of sample_spawned 7 "snd (mutex_lock 7 (c_sched sample_spawned))"]
    by (simp add: sample_spawned_sched mutex_lock_def mutex_try_lock_def Let_def)
  moreover have "step sample_locked sample_switched" unfolding sample_switched_def by (rule step.yield) (simp add: sample_locked_sched)
  moreover have "step sample_switched sample_waiting"
    unfolding sample_waiting_def using step.lock_wait [of sample_switched 7 "snd (mutex_lock 7 (c_sched sample_switched))"]
    by (simp add: sample_switched_sched mutex_lock_def mutex_try_lock_def Let_def bootstrap_def)
  ultimately show ?thesis using sample_spawned_reachable by (metis next_step)
qed

text \<open>C26: In every reachable state of the threads, the run queue of the scheduler holds exactly the active threads other than the current one and the bootstrap thread, each once: no active thread is lost and none is queued twice, whatever the order in which threads wait, wake, exit and are preempted. The page table and the kernel stack loaded are those of the current thread.\<close>

theorem run_queue_correct:
  assumes "reachable k"
  shows "distinct (rr_active_list (c_sched k)) \<and>
    set (rr_active_list (c_sched k)) = {t. state_of (c_sched k) t = THREAD_ACTIVE} - {cur k, bootstrap} \<and>
    sc_pml4 (c_sched k) = t_pt (sc_thread (c_sched k) (cur k)) \<and> tss_rsp0 (c_sched k) = t_stack_end (sc_thread (c_sched k) (cur k))"
proof -
  note rq = conf_okD(1) [OF reachable_ok [OF assms], unfolded rq_ok_def]
  have "t \<in> set (rr_active_list (c_sched k)) \<longleftrightarrow> t \<in> {t. state_of (c_sched k) t = THREAD_ACTIVE} - {cur k, bootstrap}" for t
    by (cases "t = cur k \<or> t = bootstrap") (use rq in auto)
  then show ?thesis using rq by blast
qed

theorem run_queue_correct_witness: "2 \<in> set (rr_active_list (c_sched sample_spawned))"
proof -
  have "state_of (c_sched sample_spawned) 2 = THREAD_ACTIVE" "cur sample_spawned = bootstrap"
    by (simp_all add: sample_spawned_def sample_conf_def setup_threading_def activate_thread_def rr_activate_thread_def bootstrap_def set_state_def)
  then show ?thesis using run_queue_correct [OF sample_spawned_reachable] by (simp add: bootstrap_def)
qed



text \<open>C29: Fairness of the round robin. Whatever step is taken, a thread at place \<open>i\<close> of the run queue is afterwards the current thread or at a place not behind \<open>i\<close>, and strictly nearer to the front when the step gave the processor to the head of the queue; and it runs after exactly \<open>i + 1\<close> calls of \<^verbatim>\<open>schedule\<close>.\<close>

theorem round_robin_fair:
  assumes "reachable k" and "i < length (rr_active_list (c_sched k))"
  defines "t \<equiv> rr_active_list (c_sched k) ! i"
  shows "current_thread ((schedule ^^ Suc i) (c_sched k)) = t \<and>
    (\<forall>k'. step k k' \<longrightarrow> cur k' = t \<or>
       (\<exists>j \<le> i. j < length (rr_active_list (c_sched k')) \<and> rr_active_list (c_sched k') ! j = t \<and>
          (cur k' = hd (rr_active_list (c_sched k)) \<longrightarrow> j < i)))"
proof (intro conjI allI impI)
  note ok = reachable_ok [OF assms(1)] and rq = conf_okD(1) [OF reachable_ok [OF assms(1)]]
  show "current_thread ((schedule ^^ Suc i) (c_sched k)) = t" unfolding t_def by (rule schedule_turns [OF rq assms(2)])
  fix k' assume st: "step k k'"
  have rq': "cur k' \<notin> set (rr_active_list (c_sched k'))" using conf_okD(1) [OF step_conf_ok [OF st ok]] by (simp add: rq_ok_def)
  from step_moves [OF st ok, unfolded queue_moves_def]
  show "cur k' = t \<or> (\<exists>j \<le> i. j < length (rr_active_list (c_sched k')) \<and> rr_active_list (c_sched k') ! j = t \<and>
          (cur k' = hd (rr_active_list (c_sched k)) \<longrightarrow> j < i))"
  proof (elim disjE exE conjE)
    fix xs assume e: "rr_active_list (c_sched k') = rr_active_list (c_sched k) @ xs"
    have "hd (rr_active_list (c_sched k)) \<in> set (rr_active_list (c_sched k'))" using assms(2) hd_in_set [of "rr_active_list (c_sched k)"] e by fastforce
    then have "cur k' \<noteq> hd (rr_active_list (c_sched k))" using rq' by auto
    then show ?thesis using assms(2) e by (intro disjI2 exI [of _ i]) (simp add: t_def nth_append)
  next
    fix ts xs assume e: "rr_active_list (c_sched k) = cur k' # ts" "rr_active_list (c_sched k') = ts @ xs"
    show ?thesis
    proof (cases i)
      case 0
      then show ?thesis by (simp add: t_def e)
    next
      case (Suc j)
      then show ?thesis using assms(2) e by (intro disjI2 exI [of _ j]) (simp add: t_def nth_append)
    qed
  qed
qed

theorem round_robin_fair_witness: "current_thread ((schedule ^^ Suc 0) (c_sched sample_spawned)) = 2"
proof -
  have "rr_active_list (c_sched sample_spawned) = [2]"
    by (simp add: sample_spawned_def sample_conf_def setup_threading_def activate_thread_def rr_activate_thread_def bootstrap_def set_state_def)
  then show ?thesis using round_robin_fair [OF sample_spawned_reachable, of 0] by simp
qed



end
