(* ===== verification/Kmap.thy ===== *)
theory Kmap
  imports Intrusive_List "HOL-Library.Monad_Syntax"
begin

text \<open>
  The allocator of kernel virtual addresses for temporary mappings in \<^verbatim>\<open>src/paging.c\<close>: ranges of pages
  between \<^verbatim>\<open>KMAP_BASE\<close> and the end of the address space, with boundary tags. Every range keeps its
  length in the first and in the last element of \<^verbatim>\<open>all_kmap_ranges\<close> it covers, a free range is linked
  in the list of its order, and the link of a used range points to itself, which is how
  \<^verbatim>\<open>kmap_free_range\<close> tells free neighbours from used ones. A range is its index in the array; \<^term>\<open>None\<close> is an
  access outside of the array. The lemmas show that the ranges always tile the array, that free ranges
  are merged, and so that an allocation fails only when no run of that many free pages exists.
\<close>

section \<open>The model\<close>

definition KMAP_ORDERS :: nat where "KMAP_ORDERS = 16"
definition KMAP_BASE :: u64 where "KMAP_BASE = 0xffffffff80000000 + 3 * 512 * 1024 * 1024"
definition KMAP_PAGES :: nat where "KMAP_PAGES = (512 * 1024 * 1024 - 4096) div 4096"

datatype kmptr = KmapHead nat | KmapLink nat

record kmap_state =
  km_pages :: "nat \<Rightarrow> nat"
  km_links :: "kmptr list_heap"

definition kmap_order :: "nat \<Rightarrow> nat" where
  "kmap_order pages = nat (MIN_s (ilog2 (of_nat pages)) (int KMAP_ORDERS - 1))"

text \<open>\<^verbatim>\<open>LIST_ENTRY(ptr, struct kmap_range, link)\<close>; never applied to a list head.\<close>

fun LIST_ENTRY_kmap :: "kmptr \<Rightarrow> nat" where
  "LIST_ENTRY_kmap (KmapLink r) = r"
| "LIST_ENTRY_kmap (KmapHead i) = 0"

partial_function (option) find_range_loop :: "kmap_state \<Rightarrow> kmptr \<Rightarrow> nat \<Rightarrow> kmptr \<Rightarrow> nat option option" where
  "find_range_loop st lhead pages p =
     (if p = lhead then Some None
      else if km_pages st (LIST_ENTRY_kmap p) \<ge> pages then Some (Some (LIST_ENTRY_kmap p))
      else find_range_loop st lhead pages (l_next (km_links st) p))"

definition kmap_find_free_range :: "nat \<Rightarrow> nat \<Rightarrow> kmap_state \<Rightarrow> nat option option" where
  "kmap_find_free_range order pages st =
     (let lhead = KmapHead order in find_range_loop st lhead pages (l_next (km_links st) lhead))"

definition set_pages :: "nat \<Rightarrow> nat \<Rightarrow> kmap_state \<Rightarrow> kmap_state option" where
  "set_pages r n st =
     (if r < KMAP_PAGES \<and> 0 < n \<and> r + n - 1 < KMAP_PAGES
      then Some (st\<lparr>km_pages := (km_pages st)(r := n, r + n - 1 := n)\<rparr>) else None)"

definition merge_prev :: "nat \<Rightarrow> nat \<Rightarrow> kmap_state \<Rightarrow> (nat \<times> nat \<times> kmap_state) option" where
  "merge_prev r pages st =
     (if r > 0
      then if km_pages st (r - 1) > r then None
           else let prev = r - km_pages st (r - 1)
                in if \<not> list_empty (km_links st) (KmapLink prev)
                   then let st = st\<lparr>km_links := list_del (KmapLink prev) (km_links st)\<rparr>
                        in Some (prev, pages + km_pages st prev, st)
                   else Some (r, pages, st)
      else Some (r, pages, st))"

definition merge_next :: "nat \<Rightarrow> nat \<Rightarrow> kmap_state \<Rightarrow> nat \<times> kmap_state" where
  "merge_next r pages st =
     (if r + pages < KMAP_PAGES
      then let nxt = r + pages
           in if \<not> list_empty (km_links st) (KmapLink nxt)
              then let st = st\<lparr>km_links := list_del (KmapLink nxt) (km_links st)\<rparr>
                   in (pages + km_pages st nxt, st)
              else (pages, st)
      else (pages, st))"

definition kmap_free_range :: "nat \<Rightarrow> nat \<Rightarrow> kmap_state \<Rightarrow> kmap_state option" where
  "kmap_free_range r pages st = do {
     (r, pages, st) \<leftarrow> merge_prev r pages st;
     let (pages, st) = merge_next r pages st;
     st \<leftarrow> set_pages r pages st;
     Some (st\<lparr>km_links := list_add (KmapLink r) (KmapHead (kmap_order pages)) (km_links st)\<rparr>)
   }"

text \<open>The body of the loop of \<^verbatim>\<open>kmap_alloc_range\<close> behind the search, and the loop.\<close>

definition take_range :: "nat \<Rightarrow> nat \<Rightarrow> kmap_state \<Rightarrow> (nat option \<times> kmap_state) option" where
  "take_range r pages st = do {
     let range_pages = km_pages st r;
     let st = st\<lparr>km_links := list_init (KmapLink r) (list_del (KmapLink r) (km_links st))\<rparr>;
     st \<leftarrow> set_pages r pages st;
     st \<leftarrow> (if range_pages > pages then kmap_free_range (r + pages) (range_pages - pages) st else Some st);
     Some (Some r, st)
   }"

function kmap_alloc_from :: "nat \<Rightarrow> nat \<Rightarrow> kmap_state \<Rightarrow> (nat option \<times> kmap_state) option" where
  "kmap_alloc_from order pages st =
     (if order < KMAP_ORDERS
      then do {
        found \<leftarrow> kmap_find_free_range order pages st;
        (case found of
           None \<Rightarrow> kmap_alloc_from (order + 1) pages st
         | Some r \<Rightarrow> take_range r pages st)
      }
      else Some (None, st))"
  by pat_completeness auto
termination
  by (relation "measure (\<lambda>(order, pages, st). KMAP_ORDERS - order)") auto

declare kmap_alloc_from.simps [simp del]

definition kmap_alloc_range :: "nat \<Rightarrow> kmap_state \<Rightarrow> (nat option \<times> kmap_state) option" where
  "kmap_alloc_range pages st = kmap_alloc_from (kmap_order pages) pages st"

text \<open>The part of \<^verbatim>\<open>setup_kmap_mapping\<close> that fills the allocator.\<close>

definition setup_kmap_ranges :: "kmap_state \<Rightarrow> kmap_state option" where
  "setup_kmap_ranges st =
     kmap_free_range 0 KMAP_PAGES (st\<lparr>km_links := fold (\<lambda>i. list_init (KmapHead i)) [0..<KMAP_ORDERS] (km_links st)\<rparr>)"

definition virt2kmap :: "u64 \<Rightarrow> nat" where
  "virt2kmap vaddr = unat (drop_bit 12 (vaddr - KMAP_BASE))"

definition kmap2virt :: "nat \<Rightarrow> u64" where
  "kmap2virt r = KMAP_BASE + push_bit 12 (of_nat r)"

section \<open>Orders and addresses\<close>

lemma kmap_order_less: "kmap_order n < KMAP_ORDERS"
  unfolding kmap_order_def MIN_s_def KMAP_ORDERS_def by (auto simp: nat_less_iff)

lemma ilog2_mono:
  assumes "x \<noteq> 0" and "x \<le> y"
  shows "ilog2 x \<le> ilog2 y"
proof -
  have y: "y \<noteq> 0" using assms by auto
  have "(2::nat) ^ nat (ilog2 x) < 2 ^ Suc (nat (ilog2 y))"
    using ilog2_bounds(2) [OF assms(1)] ilog2_bounds(3) [OF y] assms(2) by (simp add: word_le_nat_alt)
  then have "nat (ilog2 x) < Suc (nat (ilog2 y))" by (simp only: power_strict_increasing_iff one_less_numeral_iff semiring_norm)
  then show ?thesis using ilog2_bounds(1) [OF assms(1)] ilog2_bounds(1) [OF y] by linarith
qed

lemma kmap_order_mono:
  assumes "0 < n" and "n \<le> m" and "m < 2 ^ 64"
  shows "kmap_order n \<le> kmap_order m"
proof -
  have "(of_nat n :: u64) \<noteq> 0" proof
    assume "(of_nat n :: u64) = 0"
    then have "unat (of_nat n :: u64) = 0" by simp
    then show False using assms unat_of_nat64 [of n] by simp
  qed
  moreover have "(of_nat n :: u64) \<le> of_nat m" using assms by (simp add: word_le_nat_alt unat_of_nat64)
  ultimately show ?thesis using ilog2_mono [of "of_nat n" "of_nat m"] by (simp add: kmap_order_def MIN_s_def nat_mono)
qed

lemma kmap_virt_roundtrip:
  assumes "r < KMAP_PAGES"
  shows "virt2kmap (kmap2virt r) = r"
proof -
  have r: "r < 131072" using assms by (simp add: KMAP_PAGES_def)
  then have u: "unat (of_nat r :: u64) = r" by (intro unat_of_nat64) simp
  have "unat (push_bit 12 (of_nat r) :: u64) = take_bit 64 (r * 4096)"
    unfolding unsigned_push_bit_eq u by (simp add: push_bit_eq_mult)
  then have "unat (push_bit 12 (of_nat r) :: u64) = r * 4096" using r by (simp add: take_bit_nat_eq_self_iff)
  then have "unat (drop_bit 12 (push_bit 12 (of_nat r) :: u64)) = r" unfolding unat_drop_bit_eq by (simp add: drop_bit_eq_div)
  then show ?thesis by (simp add: virt2kmap_def kmap2virt_def)
qed

section \<open>Tilings\<close>

text \<open>A tile is a range with its length and whether it is free; the tiles of the array follow each other.\<close>

type_synonym tile = "nat \<times> nat \<times> bool"

fun tiling :: "nat \<Rightarrow> tile list \<Rightarrow> nat \<Rightarrow> bool" where
  "tiling b [] e \<longleftrightarrow> b = e"
| "tiling b ((p, n, f) # ts) e \<longleftrightarrow> p = b \<and> 0 < n \<and> tiling (b + n) ts e"

abbreviation tile_set :: "tile \<Rightarrow> nat set" where
  "tile_set t \<equiv> {fst t..<fst t + fst (snd t)}"

abbreviation tile_free :: "tile \<Rightarrow> bool" where
  "tile_free t \<equiv> snd (snd t)"

fun merged :: "tile list \<Rightarrow> bool" where
  "merged (s # t # ts) \<longleftrightarrow> \<not> (tile_free s \<and> tile_free t) \<and> merged (t # ts)"
| "merged _ \<longleftrightarrow> True"

definition free_pages_of :: "tile list \<Rightarrow> nat set" where
  "free_pages_of ts = (\<Union>t \<in> set ts. if tile_free t then tile_set t else {})"

definition used_ranges :: "tile list \<Rightarrow> (nat \<times> nat) set" where
  "used_ranges ts = {(p, n). (p, n, False) \<in> set ts}"

lemma tiling_append: "tiling b (xs @ ys) e \<longleftrightarrow> (\<exists>m. tiling b xs m \<and> tiling m ys e)"
  by (induction xs arbitrary: b) auto

lemma tiling_le: "tiling b ts e \<Longrightarrow> b \<le> e"
  by (induction ts arbitrary: b) force+

lemma tiling_bounds: "tiling b ts e \<Longrightarrow> (p, n, f) \<in> set ts \<Longrightarrow> b \<le> p \<and> 0 < n \<and> p + n \<le> e"
proof (induction ts arbitrary: b)
  case (Cons t ts)
  obtain q m g where t: "t = (q, m, g)" by (cases t)
  then have ts: "tiling (b + m) ts e" "q = b" "0 < m" using Cons.prems(1) by auto
  show ?case
  proof (cases "(p, n, f) = t")
    case True
    then show ?thesis using ts tiling_le [OF ts(1)] t by simp
  next
    case False
    then show ?thesis using Cons.IH [OF ts(1)] Cons.prems(2) ts by auto
  qed
qed simp

lemma tiling_apart:
  assumes "tiling b (xs @ t # ys) e" and "u \<in> set (xs @ ys)"
  shows "fst u + fst (snd u) \<le> fst t \<or> fst t + fst (snd t) \<le> fst u"
proof -
  obtain p n f where t: "t = (p, n, f)" by (cases t)
  obtain q m g where u: "u = (q, m, g)" by (cases u)
  have 1: "tiling b xs p" "tiling (p + n) ys e" using assms(1) by (auto simp: tiling_append t)
  from assms(2) have "u \<in> set xs \<or> u \<in> set ys" by auto
  then show ?thesis using tiling_bounds [OF 1(1), of q m g] tiling_bounds [OF 1(2), of q m g] by (auto simp: t u)
qed

lemma tiling_fst_inj:
  assumes "tiling b ts e" and "(p, n, f) \<in> set ts" and "(p, m, g) \<in> set ts"
  shows "n = m \<and> f = g"
proof -
  obtain xs ys where ts: "ts = xs @ (p, n, f) # ys" using assms(2) by (meson split_list)
  have n: "0 < n" "0 < m" using tiling_bounds [OF assms(1,2)] tiling_bounds [OF assms(1,3)] by auto
  show ?thesis
  proof (rule ccontr)
    assume "\<not> (n = m \<and> f = g)"
    then have "(p, m, g) \<in> set (xs @ ys)" using assms(3) by (auto simp: ts)
    from tiling_apart [OF assms(1) [unfolded ts] this] n show False by simp
  qed
qed

lemma merged_append: "merged (xs @ y # ys) \<longleftrightarrow> merged (xs @ [y]) \<and> merged (y # ys)"
  by (induction xs rule: merged.induct) (auto split: list.splits)

lemma merged_snoc: "merged (xs @ [y]) \<longleftrightarrow> merged xs \<and> (xs = [] \<or> \<not> (tile_free (last xs) \<and> tile_free y))"
  by (induction xs rule: merged.induct) auto

lemma merged_Cons: "merged (y # ys) \<longleftrightarrow> merged ys \<and> (ys = [] \<or> \<not> (tile_free y \<and> tile_free (hd ys)))"
  by (cases ys) auto

text \<open>In a merged tiling a run of free pages lies inside one tile.\<close>

lemma free_run_tile:
  assumes "tiling b ts e" and "merged ts" and "0 < k" and "{r..<r + k} \<subseteq> free_pages_of ts"
  shows "\<exists>p n. (p, n, True) \<in> set ts \<and> {r..<r + k} \<subseteq> {p..<p + n}"
  using assms
proof (induction ts arbitrary: b)
  case Nil
  then have "r \<in> ({} :: nat set)" by (auto simp: free_pages_of_def)
  then show ?case by simp
next
  case (Cons t ts)
  obtain p n f where t: "t = (p, n, f)" by (cases t)
  have ts: "tiling (p + n) ts e" "0 < n" "merged ts" using Cons.prems(1,2) merged_Cons [of t ts] by (auto simp: t)
  have fp: "free_pages_of (t # ts) = (if f then {p..<p + n} else {}) \<union> free_pages_of ts" by (simp add: free_pages_of_def t)
  have tail: "p + n \<le> x" if "x \<in> free_pages_of ts" for x
    using that tiling_bounds [OF ts(1)] by (fastforce simp: free_pages_of_def split: if_splits)
  have split: "p + n \<notin> free_pages_of ts" if f
  proof (cases ts)
    case Nil
    then show ?thesis by (simp add: free_pages_of_def)
  next
    case (Cons u us)
    obtain q m g where u: "u = (q, m, g)" by (cases u)
    have "\<not> g" using Cons.prems(2) that by (simp add: Cons t u)
    moreover have "tiling (q + m) us e" "0 < m" "q = p + n" using ts(1) by (auto simp: Cons u)
    ultimately show ?thesis using tiling_bounds [of "q + m" us e] by (fastforce simp: Cons u free_pages_of_def split: if_splits)
  qed
  show ?case
  proof (cases "f \<and> r < p + n")
    case True
    have "r \<in> free_pages_of (t # ts)" using Cons.prems(3,4) by auto
    then have "p \<le> r" using True tail [of r] unfolding fp by auto
    moreover have "r + k \<le> p + n"
    proof (rule ccontr)
      assume "\<not> r + k \<le> p + n"
      then have "p + n \<in> {r..<r + k}" using True by auto
      with Cons.prems(4) have "p + n \<in> free_pages_of (t # ts)" by (rule subsetD)
      then show False using split True by (simp add: fp)
    qed
    ultimately show ?thesis using True by (intro exI [of _ p] exI [of _ n]) (auto simp: t)
  next
    case False
    have "{r..<r + k} \<subseteq> free_pages_of ts"
    proof
      fix x assume x: "x \<in> {r..<r + k}"
      then show "x \<in> free_pages_of ts" using Cons.prems(4) False unfolding fp by (auto split: if_splits)
    qed
    from Cons.IH [OF ts(1,3) Cons.prems(3) this] show ?thesis by auto
  qed
qed

section \<open>The representation of a set of tiles\<close>

abbreviation kmap_heads :: "kmptr set" where
  "kmap_heads \<equiv> KmapHead ` {..<KMAP_ORDERS}"

definition linked :: "kmptr list_heap \<Rightarrow> tile set \<Rightarrow> (kmptr \<Rightarrow> kmptr list) \<Rightarrow> bool" where
  "linked h T F \<longleftrightarrow> dl.fam h kmap_heads F \<and>
     (\<forall>i < KMAP_ORDERS. set (F (KmapHead i)) = KmapLink ` {p. \<exists>n. (p, n, True) \<in> T \<and> kmap_order n = i})"

definition tagged :: "kmap_state \<Rightarrow> tile \<Rightarrow> bool" where
  "tagged st t \<longleftrightarrow> (case t of (p, n, f) \<Rightarrow> km_pages st p = n \<and> km_pages st (p + n - 1) = n \<and>
     (\<not> f \<longrightarrow> l_next (km_links st) (KmapLink p) = KmapLink p))"

definition kmap_rep :: "kmap_state \<Rightarrow> tile set \<Rightarrow> bool" where
  "kmap_rep st T \<longleftrightarrow> (\<exists>F. linked (km_links st) T F) \<and> (\<forall>t \<in> T. tagged st t) \<and>
     (\<forall>p n f m g. (p, n, f) \<in> T \<longrightarrow> (p, m, g) \<in> T \<longrightarrow> n = m \<and> f = g)"

lemma kmap_repD:
  assumes "kmap_rep st T" and "(p, n, f) \<in> T"
  shows "km_pages st p = n" "km_pages st (p + n - 1) = n" "\<not> f \<Longrightarrow> l_next (km_links st) (KmapLink p) = KmapLink p"
    "(p, m, g) \<in> T \<Longrightarrow> m = n \<and> g = f"
  using assms unfolding kmap_rep_def tagged_def by fastforce+

lemma linkedD:
  assumes "linked h T F"
  shows "dl.fam h kmap_heads F" "(p, n, True) \<in> T \<Longrightarrow> KmapLink p \<in> set (F (KmapHead (kmap_order n)))"
    "i < KMAP_ORDERS \<Longrightarrow> x \<in> set (F (KmapHead i)) \<Longrightarrow> \<exists>p n. x = KmapLink p \<and> (p, n, True) \<in> T \<and> kmap_order n = i"
  using assms kmap_order_less by (fastforce simp: linked_def)+

lemma order_head [simp]: "KmapHead (kmap_order n) \<in> kmap_heads"
  using kmap_order_less by simp

text \<open>The link of a range tells whether it is free.\<close>

lemma dlist_no_self: "dlist h a xs \<Longrightarrow> x \<in> set xs \<Longrightarrow> l_next h x \<noteq> x"
proof -
  assume d: "dlist h a xs" and "x \<in> set xs"
  then obtain ys zs where xs: "xs = ys @ x # zs" by (meson split_list)
  have "dpath h x zs a" "x \<notin> set zs" "x \<noteq> a" using d by (auto simp: dlist_def xs dpath_append)
  then show "l_next h x \<noteq> x" by (cases zs) auto
qed

lemma rep_list_empty:
  assumes "kmap_rep st T" and "(p, n, f) \<in> T"
  shows "list_empty (km_links st) (KmapLink p) \<longleftrightarrow> \<not> f"
proof (cases f)
  case True
  obtain F where F: "linked (km_links st) T F" using assms(1) by (auto simp: kmap_rep_def)
  have "dlist (km_links st) (KmapHead (kmap_order n)) (F (KmapHead (kmap_order n)))" by (rule dl.fam_rep [OF linkedD(1) [OF F]]) simp
  then show ?thesis using dlist_no_self [OF _ linkedD(2) [OF F, of p n]] assms(2) True by (simp add: list_empty_def)
next
  case False
  then show ?thesis using kmap_repD(3) [OF assms] by (simp add: list_empty_def)
qed

lemma kmap_repI:
  assumes "linked (km_links st') T' F" and "\<And>t. t \<in> T' \<Longrightarrow> tagged st' t"
    and "\<And>p n f m g. (p, n, f) \<in> T' \<Longrightarrow> (p, m, g) \<in> T' \<Longrightarrow> n = m \<and> f = g"
  shows "kmap_rep st' T'"
  using assms unfolding kmap_rep_def by blast

lemma list_del_next_other:
  assumes "dlist h a xs" and "e \<in> set xs" and "c \<notin> insert a (set xs)"
  shows "l_next (list_del e h) c = l_next h c"
  using dlist_neighbours [OF assms(1), of e] assms by (auto simp: list_del_def list_del_between_def heap_simps)

lemma list_add_next_other:
  assumes "c \<noteq> new" and "c \<noteq> a"
  shows "l_next (list_add new a h) c = l_next h c"
  using assms by (simp add: list_add_def list_insert_def heap_simps Let_def)

lemma used_not_linked:
  assumes "kmap_rep st T" and "linked (km_links st) T F" and "(p, n, False) \<in> T" and "i < KMAP_ORDERS"
  shows "KmapLink p \<notin> insert (KmapHead i) (set (F (KmapHead i)))"
  using linkedD(3) [OF assms(2,4)] kmap_repD(4) [OF assms(1,3)] by blast

lemma rep_del:
  assumes "kmap_rep st T" and "(p, n, True) \<in> T"
  shows "kmap_rep (st\<lparr>km_links := list_del (KmapLink p) (km_links st)\<rparr>) (T - {(p, n, True)})"
proof -
  obtain F where F: "linked (km_links st) T F" using assms(1) by (auto simp: kmap_rep_def)
  let ?a = "KmapHead (kmap_order n)" and ?h = "list_del (KmapLink p) (km_links st)"
  let ?F = "F(?a := remove1 (KmapLink p) (F ?a))"
  have e: "KmapLink p \<in> set (F ?a)" by (rule linkedD(2) [OF F assms(2)])
  have d: "dlist (km_links st) ?a (F ?a)" by (rule dl.fam_rep [OF linkedD(1) [OF F]]) simp
  have inj: "(p, m, True) \<in> T \<longleftrightarrow> m = n" for m using kmap_repD(4) [OF assms] assms(2) by blast
  have L: "linked ?h (T - {(p, n, True)}) ?F" unfolding linked_def
  proof (intro conjI allI impI)
    show "dl.fam ?h kmap_heads ?F" by (rule dl.fam_del [OF linkedD(1) [OF F] _ e]) simp
    fix i assume i: "i < KMAP_ORDERS"
    have s: "set (F (KmapHead i)) = KmapLink ` {p. \<exists>n. (p, n, True) \<in> T \<and> kmap_order n = i}" using F i by (simp add: linked_def)
    have "distinct (F ?a)" using d by (simp add: dlist_def)
    then have "set (?F (KmapHead i)) = set (F (KmapHead i)) - {KmapLink p}"
    proof (cases "i = kmap_order n")
      case False
      then have "KmapLink p \<notin> set (F (KmapHead i))" unfolding s using inj by auto
      then show ?thesis using False by simp
    qed simp
    also have "\<dots> = KmapLink ` {q. \<exists>m. (q, m, True) \<in> T - {(p, n, True)} \<and> kmap_order m = i}"
      unfolding s using inj by auto
    finally show "set (?F (KmapHead i)) = KmapLink ` {q. \<exists>m. (q, m, True) \<in> T - {(p, n, True)} \<and> kmap_order m = i}" .
  qed
  show ?thesis
  proof (rule kmap_repI)
    show "linked (km_links (st\<lparr>km_links := ?h\<rparr>)) (T - {(p, n, True)}) ?F" using L by simp
    fix t assume t: "t \<in> T - {(p, n, True)}"
    obtain q m g where tq: "t = (q, m, g)" by (cases t)
    have "l_next ?h (KmapLink q) = KmapLink q" if "\<not> g"
      using list_del_next_other [OF d e used_not_linked [OF assms(1) F _ kmap_order_less]] kmap_repD(3) [OF assms(1)] t tq that by auto
    then show "tagged (st\<lparr>km_links := ?h\<rparr>) t" using kmap_repD(1,2) [OF assms(1)] t by (auto simp: tagged_def tq)
  next
    fix q m f m' g assume "(q, m, f) \<in> T - {(p, n, True)}" "(q, m', g) \<in> T - {(p, n, True)}"
    then show "m = m' \<and> f = g" using kmap_repD(4) [OF assms(1)] by blast
  qed
qed

lemma rep_add:
  assumes "kmap_rep st T" and "\<And>m g. (r, m, g) \<notin> T" and "km_pages st r = n" "km_pages st (r + n - 1) = n"
  shows "kmap_rep (st\<lparr>km_links := list_add (KmapLink r) (KmapHead (kmap_order n)) (km_links st)\<rparr>) (insert (r, n, True) T)"
proof -
  obtain F where F: "linked (km_links st) T F" using assms(1) by (auto simp: kmap_rep_def)
  let ?a = "KmapHead (kmap_order n)" and ?h = "list_add (KmapLink r) (KmapHead (kmap_order n)) (km_links st)"
  let ?F = "F(?a := KmapLink r # F ?a)"
  have new: "KmapLink r \<notin> insert b (set (F b))" if "b \<in> kmap_heads" for b
    using that linkedD(3) [OF F] assms(2) by auto
  have L: "linked ?h (insert (r, n, True) T) ?F" unfolding linked_def
  proof (intro conjI allI impI)
    show "dl.fam ?h kmap_heads ?F" by (rule dl.fam_add [OF linkedD(1) [OF F]]) (use new in auto)
    fix i assume i: "i < KMAP_ORDERS"
    have s: "set (F (KmapHead i)) = KmapLink ` {p. \<exists>n. (p, n, True) \<in> T \<and> kmap_order n = i}" using F i by (simp add: linked_def)
    have "set (?F (KmapHead i)) = (if i = kmap_order n then insert (KmapLink r) (set (F (KmapHead i))) else set (F (KmapHead i)))" by auto
    also have "\<dots> = KmapLink ` {q. \<exists>m. (q, m, True) \<in> insert (r, n, True) T \<and> kmap_order m = i}"
      unfolding s using assms(2) by auto
    finally show "set (?F (KmapHead i)) = KmapLink ` {q. \<exists>m. (q, m, True) \<in> insert (r, n, True) T \<and> kmap_order m = i}" .
  qed
  show ?thesis
  proof (rule kmap_repI)
    show "linked (km_links (st\<lparr>km_links := ?h\<rparr>)) (insert (r, n, True) T) ?F" using L by simp
    fix t assume t: "t \<in> insert (r, n, True) T"
    obtain q m g where tq: "t = (q, m, g)" by (cases t)
    show "tagged (st\<lparr>km_links := ?h\<rparr>) t"
    proof (cases "t \<in> T")
      case True
      then have "q \<noteq> r" using assms(2) tq by auto
      then show ?thesis using kmap_repD(1-3) [OF assms(1)] True list_add_next_other [of "KmapLink q" "KmapLink r" ?a] by (auto simp: tagged_def tq)
    next
      case False
      then show ?thesis using t assms(3,4) by (auto simp: tagged_def)
    qed
  next
    fix p m f m' g assume "(p, m, f) \<in> insert (r, n, True) T" "(p, m', g) \<in> insert (r, n, True) T"
    then show "m = m' \<and> f = g" using assms(2) kmap_repD(4) [OF assms(1)] by blast
  qed
qed

lemma rep_pages:
  assumes "kmap_rep st T" and "\<And>t. t \<in> T \<Longrightarrow> 0 < fst (snd t)" and "\<And>t. t \<in> T \<Longrightarrow> r \<notin> tile_set t \<and> s \<notin> tile_set t"
  shows "kmap_rep (st\<lparr>km_pages := (km_pages st)(r := n, s := m)\<rparr>) T"
proof -
  have "tagged (st\<lparr>km_pages := (km_pages st)(r := n, s := m)\<rparr>) t" if t: "t \<in> T" for t
  proof -
    obtain p k f where tp: "t = (p, k, f)" by (cases t)
    have "p \<in> tile_set t" "p + k - 1 \<in> tile_set t" using assms(2) [OF t] by (auto simp: tp)
    then have "p \<noteq> r" "p \<noteq> s" "p + k - 1 \<noteq> r" "p + k - 1 \<noteq> s" using assms(3) [OF t] by auto
    then show ?thesis using t assms(1) by (auto simp: kmap_rep_def tagged_def tp)
  qed
  then show ?thesis using assms(1) unfolding kmap_rep_def by simp
qed

lemma rep_init:
  assumes "kmap_rep st T" and "\<And>m g. (r, m, g) \<notin> T" and "km_pages st r = n" "km_pages st (r + n - 1) = n"
  shows "kmap_rep (st\<lparr>km_links := list_init (KmapLink r) (km_links st)\<rparr>) (insert (r, n, False) T)"
proof -
  obtain F where F: "linked (km_links st) T F" using assms(1) by (auto simp: kmap_rep_def)
  let ?h = "list_init (KmapLink r) (km_links st)"
  have new: "KmapLink r \<notin> insert b (set (F b))" if "b \<in> kmap_heads" for b
    using that linkedD(3) [OF F] assms(2) by auto
  have L: "linked ?h (insert (r, n, False) T) F" unfolding linked_def
  proof (intro conjI allI impI)
    show "dl.fam ?h kmap_heads F" using linkedD(1) [OF F] new unfolding dl.fam_def by (blast intro: dlist_frame_init)
  qed (use F in \<open>simp add: linked_def\<close>)
  show ?thesis
  proof (rule kmap_repI)
    show "linked (km_links (st\<lparr>km_links := ?h\<rparr>)) (insert (r, n, False) T) F" using L by simp
    fix t assume t: "t \<in> insert (r, n, False) T"
    obtain q m g where tq: "t = (q, m, g)" by (cases t)
    show "tagged (st\<lparr>km_links := ?h\<rparr>) t"
    proof (cases "t \<in> T")
      case True
      then have "q \<noteq> r" using assms(2) tq by auto
      then show ?thesis using kmap_repD(1-3) [OF assms(1)] True by (auto simp: tagged_def tq list_init_def heap_simps)
    next
      case False
      then show ?thesis using t assms(3,4) by (auto simp: tagged_def list_init_def heap_simps)
    qed
  next
    fix p m f m' g assume "(p, m, f) \<in> insert (r, n, False) T" "(p, m', g) \<in> insert (r, n, False) T"
    then show "m = m' \<and> f = g" using assms(2) kmap_repD(4) [OF assms(1)] by blast
  qed
qed

section \<open>Releasing a range\<close>

text \<open>A tiling with a hole at \<open>r\<close>, from whose two sides free tiles have been merged away or not.\<close>

definition hole :: "kmap_state \<Rightarrow> tile list \<Rightarrow> nat \<Rightarrow> nat \<Rightarrow> tile list \<Rightarrow> bool" where
  "hole st xs r n ys \<longleftrightarrow> tiling 0 (xs @ (r, n, True) # ys) KMAP_PAGES \<and> kmap_rep st (set xs \<union> set ys) \<and> merged xs \<and> merged ys"

abbreviation free_with :: "tile list \<Rightarrow> nat \<Rightarrow> nat \<Rightarrow> tile list \<Rightarrow> nat set" where
  "free_with xs r n ys \<equiv> free_pages_of xs \<union> {r..<r + n} \<union> free_pages_of ys"

lemma free_pages_of_simps [simp]:
  "free_pages_of [] = {}" "free_pages_of ((p, n, f) # ts) = (if f then {p..<p + n} else {}) \<union> free_pages_of ts"
  "free_pages_of (xs @ ys) = free_pages_of xs \<union> free_pages_of ys"
  by (auto simp: free_pages_of_def)

lemma used_ranges_simps [simp]:
  "used_ranges [] = {}" "used_ranges ((p, n, f) # ts) = (if f then {} else {(p, n)}) \<union> used_ranges ts"
  "used_ranges (xs @ ys) = used_ranges xs \<union> used_ranges ys"
  by (auto simp: used_ranges_def)

lemma tiling_notin:
  assumes "tiling b (xs @ (p, n, f) # ys) e"
  shows "(p, m, g) \<notin> set xs \<union> set ys"
proof
  assume a: "(p, m, g) \<in> set xs \<union> set ys"
  have "0 < n" "0 < m" using tiling_bounds [OF assms, of p n f] tiling_bounds [OF assms, of p m g] a by auto
  then show False using tiling_apart [OF assms, of "(p, m, g)"] a by auto
qed

lemma merge_prev_ok:
  assumes "hole st xs r n ys"
  shows "\<exists>r' n' xs' st'. merge_prev r n st = Some (r', n', st') \<and> hole st' xs' r' n' ys \<and> (xs' = [] \<or> \<not> tile_free (last xs')) \<and>
    free_with xs' r' n' ys = free_with xs r n ys \<and> used_ranges xs' = used_ranges xs"
proof (cases xs rule: rev_cases)
  case Nil
  then have "r = 0" using assms by (simp add: hole_def)
  then show ?thesis using assms Nil by (intro exI [of _ r] exI [of _ n] exI [of _ xs] exI [of _ st]) (simp add: merge_prev_def)
next
  case (snoc us t)
  obtain p m f where t: "t = (p, m, f)" by (cases t)
  have til: "tiling 0 (us @ (p, m, f) # (r, n, True) # ys) KMAP_PAGES" and rep: "kmap_rep st (set xs \<union> set ys)"
    using assms by (simp_all add: hole_def snoc t)
  have tl: "tiling 0 us p" "0 < m" "r = p + m" "0 < n" "tiling (p + m + n) ys KMAP_PAGES"
    using til by (auto simp: tiling_append)
  have mem: "(p, m, f) \<in> set xs \<union> set ys" by (simp add: snoc t)
  have tag: "km_pages st (r - 1) = m" "r - m = p" "km_pages st p = m"
    using kmap_repD(1,2) [OF rep mem] tl by auto
  note le = rep_list_empty [OF rep mem]
  show ?thesis
  proof (cases f)
    case True
    let ?st = "st\<lparr>km_links := list_del (KmapLink p) (km_links st)\<rparr>"
    have "(p, m, True) \<notin> set us \<union> set ys"
      using tiling_notin [OF til [unfolded True], of m True] by auto
    then have T: "set xs \<union> set ys - {(p, m, True)} = set us \<union> set ys" using True by (auto simp: snoc t)
    have "kmap_rep ?st (set us \<union> set ys)" using rep_del [OF rep, of p m] mem True by (simp add: T)
    moreover have "tiling 0 (us @ (p, m + n, True) # ys) KMAP_PAGES" using tl by (auto simp: tiling_append add.assoc)
    moreover have "merged us" "us = [] \<or> \<not> tile_free (last us)" "merged ys" using assms True by (auto simp: hole_def snoc t merged_snoc)
    moreover have "merge_prev r n st = Some (p, m + n, ?st)" using True tag le tl by (simp add: merge_prev_def add.commute)
    ultimately show ?thesis using True tl
      by (intro exI [of _ p] exI [of _ "m + n"] exI [of _ us] exI [of _ ?st]) (auto simp: hole_def snoc t)
  next
    case False
    then have "merge_prev r n st = Some (r, n, st)" using tag le tl by (simp add: merge_prev_def)
    then show ?thesis using assms False by (intro exI [of _ r] exI [of _ n] exI [of _ xs] exI [of _ st]) (simp add: snoc t)
  qed
qed

lemma merge_next_ok:
  assumes "hole st xs r n ys"
  shows "\<exists>n' ys' st'. merge_next r n st = (n', st') \<and> hole st' xs r n' ys' \<and> (ys' = [] \<or> \<not> tile_free (hd ys')) \<and>
    free_with xs r n' ys' = free_with xs r n ys \<and> used_ranges ys' = used_ranges ys"
proof (cases ys)
  case Nil
  then have "r + n = KMAP_PAGES" using assms by (simp add: hole_def tiling_append)
  then show ?thesis using assms Nil by (intro exI [of _ n] exI [of _ ys] exI [of _ st]) (simp add: merge_next_def)
next
  case (Cons t us)
  obtain p m f where t: "t = (p, m, f)" by (cases t)
  have til: "tiling 0 ((xs @ [(r, n, True)]) @ (p, m, f) # us) KMAP_PAGES" and rep: "kmap_rep st (set xs \<union> set ys)"
    using assms by (simp_all add: hole_def Cons t)
  have tl: "tiling 0 xs r" "0 < m" "p = r + n" "0 < n" "tiling (r + n + m) us KMAP_PAGES"
    using til by (auto simp: tiling_append)
  have lt: "r + n < KMAP_PAGES" using tiling_le [OF tl(5)] tl(2) by simp
  have mem: "(p, m, f) \<in> set xs \<union> set ys" by (simp add: Cons t)
  note tag = kmap_repD(1) [OF rep mem] and le = rep_list_empty [OF rep mem]
  show ?thesis
  proof (cases f)
    case True
    let ?st = "st\<lparr>km_links := list_del (KmapLink p) (km_links st)\<rparr>"
    have "(p, m, True) \<notin> set xs \<union> set us"
      using tiling_notin [OF til [unfolded True], of m True] by auto
    then have T: "set xs \<union> set ys - {(p, m, True)} = set xs \<union> set us" using True by (auto simp: Cons t)
    have "kmap_rep ?st (set xs \<union> set us)" using rep_del [OF rep, of p m] mem True by (simp add: T)
    moreover have "tiling 0 (xs @ (r, n + m, True) # us) KMAP_PAGES" using tl by (auto simp: tiling_append add.assoc)
    moreover have "merged us" "us = [] \<or> \<not> tile_free (hd us)" "merged xs" using assms True merged_Cons [of t us] by (auto simp: hole_def Cons t)
    moreover have "merge_next r n st = (n + m, ?st)" using True tag le tl lt by (simp add: merge_next_def)
    ultimately show ?thesis using True tl
      by (intro exI [of _ "n + m"] exI [of _ us] exI [of _ ?st]) (auto simp: hole_def Cons t)
  next
    case False
    then have "merge_next r n st = (n, st)" using tag le tl lt by (simp add: merge_next_def)
    then show ?thesis using assms False by (intro exI [of _ n] exI [of _ ys] exI [of _ st]) (simp add: Cons t)
  qed
qed

definition kmap_tiles :: "kmap_state \<Rightarrow> tile list \<Rightarrow> bool" where
  "kmap_tiles st ts \<longleftrightarrow> tiling 0 ts KMAP_PAGES \<and> kmap_rep st (set ts) \<and> merged ts"

lemma set_pages_ok:
  assumes "tiling 0 (xs @ (r, n, f) # ys) KMAP_PAGES" and "kmap_rep st T" and "T \<subseteq> set xs \<union> set ys"
  shows "\<exists>st'. set_pages r n st = Some st' \<and> st' = st\<lparr>km_pages := (km_pages st)(r := n, r + n - 1 := n)\<rparr> \<and> kmap_rep st' T"
proof -
  let ?st = "st\<lparr>km_pages := (km_pages st)(r := n, r + n - 1 := n)\<rparr>"
  have n: "0 < n" "r + n \<le> KMAP_PAGES" using tiling_bounds [OF assms(1), of r n f] by auto
  have "kmap_rep ?st T"
  proof (rule rep_pages [OF assms(2)])
    fix t assume "t \<in> T"
    then have t: "t \<in> set xs \<union> set ys" using assms(3) by blast
    obtain p m g where tp: "t = (p, m, g)" by (cases t)
    show "0 < fst (snd t)" using tiling_bounds [OF assms(1), of p m g] t tp by auto
    show "r \<notin> tile_set t \<and> r + n - 1 \<notin> tile_set t" using tiling_apart [OF assms(1), of t] t n tp by auto
  qed
  then show ?thesis using n by (auto simp: set_pages_def)
qed

lemma kmap_free_range_hole:
  assumes "hole st xs r n ys"
  shows "\<exists>st' ts. kmap_free_range r n st = Some st' \<and> kmap_tiles st' ts \<and> free_pages_of ts = free_with xs r n ys \<and>
    used_ranges ts = used_ranges xs \<union> used_ranges ys"
proof -
  obtain r1 n1 xs1 st1 where 1: "merge_prev r n st = Some (r1, n1, st1)" "hole st1 xs1 r1 n1 ys" "xs1 = [] \<or> \<not> tile_free (last xs1)"
    "free_with xs1 r1 n1 ys = free_with xs r n ys" "used_ranges xs1 = used_ranges xs" using merge_prev_ok [OF assms] by blast
  obtain n2 ys2 st2 where 2: "merge_next r1 n1 st1 = (n2, st2)" "hole st2 xs1 r1 n2 ys2" "ys2 = [] \<or> \<not> tile_free (hd ys2)"
    "free_with xs1 r1 n2 ys2 = free_with xs1 r1 n1 ys" "used_ranges ys2 = used_ranges ys" using merge_next_ok [OF 1(2)] by blast
  have til: "tiling 0 (xs1 @ (r1, n2, True) # ys2) KMAP_PAGES" "kmap_rep st2 (set xs1 \<union> set ys2)" using 2(2) by (simp_all add: hole_def)
  obtain st3 where 3: "set_pages r1 n2 st2 = Some st3" "kmap_rep st3 (set xs1 \<union> set ys2)" "km_pages st3 r1 = n2" "km_pages st3 (r1 + n2 - 1) = n2"
    using set_pages_ok [OF til subset_refl] by auto
  let ?st = "st3\<lparr>km_links := list_add (KmapLink r1) (KmapHead (kmap_order n2)) (km_links st3)\<rparr>" and ?ts = "xs1 @ (r1, n2, True) # ys2"
  have "kmap_rep ?st (insert (r1, n2, True) (set xs1 \<union> set ys2))"
    using rep_add [OF 3(2) tiling_notin [OF til(1)] 3(3,4)] .
  moreover have "merged ?ts" using 1(3) 2 by (auto simp: hole_def merged_append [of xs1 "(r1, n2, True)" ys2] merged_snoc merged_Cons [of "(r1, n2, True)" ys2])
  ultimately have "kmap_tiles ?st ?ts" using til(1) by (simp add: kmap_tiles_def)
  moreover have "kmap_free_range r n st = Some ?st" using 1(1) 2(1) 3(1) by (simp add: kmap_free_range_def)
  ultimately show ?thesis using 1 2 by (intro exI [of _ ?st] exI [of _ ?ts]) auto
qed

section \<open>Taking a range\<close>

lemma find_range_loop_dpath:
  assumes "dpath (km_links st) p xs a" and "a \<notin> set xs"
  shows "find_range_loop st a k (l_next (km_links st) p) =
    Some (map_option LIST_ENTRY_kmap (List.find (\<lambda>x. k \<le> km_pages st (LIST_ENTRY_kmap x)) xs))"
  using assms
proof (induction xs arbitrary: p)
  case Nil
  then show ?case by (subst find_range_loop.simps) simp
next
  case (Cons x xs)
  then show ?case by (subst find_range_loop.simps) auto
qed

lemma find_free_range_ok:
  assumes "kmap_tiles st ts" and "i < KMAP_ORDERS"
  shows "\<exists>found. kmap_find_free_range i k st = Some found \<and>
    (case found of None \<Rightarrow> \<forall>p n. (p, n, True) \<in> set ts \<longrightarrow> kmap_order n = i \<longrightarrow> n < k
     | Some r \<Rightarrow> \<exists>n. (r, n, True) \<in> set ts \<and> k \<le> n)"
proof -
  have rep: "kmap_rep st (set ts)" using assms(1) by (simp add: kmap_tiles_def)
  then obtain F where F: "linked (km_links st) (set ts) F" by (auto simp: kmap_rep_def)
  let ?a = "KmapHead i" and ?P = "\<lambda>x. k \<le> km_pages st (LIST_ENTRY_kmap x)"
  have d: "dlist (km_links st) ?a (F ?a)" by (rule dl.fam_rep [OF linkedD(1) [OF F]]) (simp add: assms(2))
  have call: "kmap_find_free_range i k st = Some (map_option LIST_ENTRY_kmap (List.find ?P (F ?a)))"
    using d unfolding dlist_def kmap_find_free_range_def Let_def by (intro find_range_loop_dpath) auto
  show ?thesis
  proof (cases "List.find ?P (F ?a)")
    case None
    have "n < k" if "(p, n, True) \<in> set ts" "kmap_order n = i" for p n
      using None linkedD(2) [OF F that(1)] that(2) kmap_repD(1) [OF rep that(1)] by (fastforce simp: find_None_iff)
    then show ?thesis using call None by simp
  next
    case (Some x)
    then have x: "x \<in> set (F ?a)" "?P x" by (auto simp: find_Some_iff)
    then obtain p n where "x = KmapLink p" "(p, n, True) \<in> set ts" using linkedD(3) [OF F assms(2)] by blast
    then show ?thesis using call Some x(2) kmap_repD(1) [OF rep] by auto
  qed
qed

lemma take_range_ok:
  assumes "kmap_tiles st ts" and "(r, m, True) \<in> set ts" and "0 < k" "k \<le> m"
  shows "\<exists>st' ts'. take_range r k st = Some (Some r, st') \<and> kmap_tiles st' ts' \<and>
    free_pages_of ts' = free_pages_of ts - {r..<r + k} \<and> used_ranges ts' = insert (r, k) (used_ranges ts)"
proof -
  obtain xs ys where ts: "ts = xs @ (r, m, True) # ys" using assms(2) by (meson split_list)
  have til: "tiling 0 (xs @ (r, m, True) # ys) KMAP_PAGES" and rep: "kmap_rep st (set ts)" and mg: "merged (xs @ (r, m, True) # ys)"
    using assms(1) by (simp_all add: kmap_tiles_def ts)
  have tl: "tiling 0 xs r" "tiling (r + m) ys KMAP_PAGES" using til by (auto simp: tiling_append)
  have T: "set ts - {(r, m, True)} = set xs \<union> set ys" using tiling_notin [OF til, of m True] by (auto simp: ts)
  let ?st1 = "st\<lparr>km_links := list_del (KmapLink r) (km_links st)\<rparr>"
  have r1: "kmap_rep ?st1 (set xs \<union> set ys)" using rep_del [OF rep assms(2)] by (simp add: T)
  let ?zs = "(if k < m then [(r + k, m - k, True)] else []) @ ys"
  have til2: "tiling 0 (xs @ (r, k, False) # ?zs) KMAP_PAGES" using tl assms(3,4) by (auto simp: tiling_append)
  obtain st2 where st2: "set_pages r k ?st1 = Some st2" "st2 = ?st1\<lparr>km_pages := (km_pages st)(r := k, r + k - 1 := k)\<rparr>" "kmap_rep st2 (set xs \<union> set ys)"
    using set_pages_ok [OF til2 r1] by auto
  let ?st3 = "st\<lparr>km_links := list_init (KmapLink r) (list_del (KmapLink r) (km_links st)), km_pages := (km_pages st)(r := k, r + k - 1 := k)\<rparr>"
  have st3: "?st3 = st2\<lparr>km_links := list_init (KmapLink r) (km_links st2)\<rparr>" by (simp add: st2(2))
  have r3: "kmap_rep ?st3 (insert (r, k, False) (set xs \<union> set ys))"
    unfolding st3 by (rule rep_init [OF st2(3) tiling_notin [OF til]]) (simp_all add: st2(2))
  have call: "take_range r k st = do {
      st' \<leftarrow> (if m > k then kmap_free_range (r + k) (m - k) ?st3 else Some ?st3); Some (Some r, st') }"
    using st2(1,2) kmap_repD(1) [OF rep assms(2)] unfolding take_range_def set_pages_def by (auto simp: Let_def split: if_splits)
  have mg': "merged xs" "merged ys" "merged (xs @ [(r, k, False)])" "merged ((r, k, False) # ys)"
    using mg by (auto simp: merged_append [of xs] merged_snoc merged_Cons [of _ ys])
  have out: "x < r \<or> r + m \<le> x" if "x \<in> free_pages_of xs \<union> free_pages_of ys" for x
    using that tiling_apart [OF til] by (fastforce simp: free_pages_of_def split: if_splits)
  show ?thesis
  proof (cases "k < m")
    case True
    have "hole ?st3 (xs @ [(r, k, False)]) (r + k) (m - k) ys"
      using til2 True r3 mg' by (simp add: hole_def insert_commute Un_commute)
    from kmap_free_range_hole [OF this] obtain st4 ts4 where 4: "kmap_free_range (r + k) (m - k) ?st3 = Some st4" "kmap_tiles st4 ts4"
      "free_pages_of ts4 = free_with (xs @ [(r, k, False)]) (r + k) (m - k) ys" "used_ranges ts4 = used_ranges (xs @ [(r, k, False)]) \<union> used_ranges ys" by blast
    have "free_pages_of ts4 = free_pages_of ts - {r..<r + k}" using True by (auto simp: 4(3) ts dest: out [OF UnI1] out [OF UnI2])
    moreover have "used_ranges ts4 = insert (r, k) (used_ranges ts)" unfolding 4(4) ts by auto
    ultimately show ?thesis using call 4(1,2) True by auto
  next
    case False
    then have km: "k = m" using assms(4) by simp
    let ?ts = "xs @ (r, k, False) # ys"
    have "kmap_tiles ?st3 ?ts" using til2 False r3 mg' by (simp add: kmap_tiles_def merged_append [of xs "(r, k, False)" ys])
    moreover have "free_pages_of ?ts = free_pages_of ts - {r..<r + k}" by (auto simp: ts km dest: out [OF UnI1] out [OF UnI2])
    ultimately show ?thesis using call False by (intro exI [of _ ?st3] exI [of _ ?ts]) (auto simp: ts)
  qed
qed

lemma kmap_alloc_from_ok:
  assumes "kmap_tiles st ts" and "0 < k"
    and "\<And>p n. (p, n, True) \<in> set ts \<Longrightarrow> kmap_order n < i \<Longrightarrow> n < k"
  shows "\<exists>res st'. kmap_alloc_from i k st = Some (res, st') \<and>
    (case res of None \<Rightarrow> st' = st \<and> (\<forall>p n. (p, n, True) \<in> set ts \<longrightarrow> n < k)
     | Some r \<Rightarrow> \<exists>m ts'. (r, m, True) \<in> set ts \<and> k \<le> m \<and> kmap_tiles st' ts' \<and>
         free_pages_of ts' = free_pages_of ts - {r..<r + k} \<and> used_ranges ts' = insert (r, k) (used_ranges ts))"
  using assms
proof (induction "KMAP_ORDERS - i" arbitrary: i)
  case 0
  then have "kmap_alloc_from i k st = Some (None, st)" by (subst kmap_alloc_from.simps) simp
  moreover have "n < k" if "(p, n, True) \<in> set ts" for p n using 0(1) "0.prems"(3) [OF that] kmap_order_less [of n] by simp
  ultimately show ?case by auto
next
  case (Suc d)
  then have i: "i < KMAP_ORDERS" by simp
  obtain found where f: "kmap_find_free_range i k st = Some found"
    "case found of None \<Rightarrow> \<forall>p n. (p, n, True) \<in> set ts \<longrightarrow> kmap_order n = i \<longrightarrow> n < k | Some r \<Rightarrow> \<exists>n. (r, n, True) \<in> set ts \<and> k \<le> n"
    using find_free_range_ok [OF Suc.prems(1) i] by blast
  show ?case
  proof (cases found)
    case None
    have "kmap_alloc_from i k st = kmap_alloc_from (i + 1) k st" using i f(1) None by (subst kmap_alloc_from.simps) simp
    moreover have "n < k" if "(p, n, True) \<in> set ts" "kmap_order n < i + 1" for p n
      using that Suc.prems(3) f(2) None by (auto simp: less_Suc_eq)
    ultimately show ?thesis using Suc.hyps(1) [of "i + 1"] Suc.hyps(2) Suc.prems(1,2) by simp
  next
    case (Some r)
    then obtain m where m: "(r, m, True) \<in> set ts" "k \<le> m" using f(2) by auto
    have "kmap_alloc_from i k st = take_range r k st"
      using i f(1) Some by (subst kmap_alloc_from.simps) simp
    then show ?thesis using take_range_ok [OF Suc.prems(1) m(1) Suc.prems(2) m(2)] m by fastforce
  qed
qed

section \<open>Properties\<close>

text \<open>\<open>U\<close> is the set of free pages and \<open>L\<close> the set of used ranges.\<close>

definition kmap_inv :: "kmap_state \<Rightarrow> nat set \<Rightarrow> (nat \<times> nat) set \<Rightarrow> bool" where
  "kmap_inv st U L \<longleftrightarrow> (\<exists>ts. kmap_tiles st ts \<and> U = free_pages_of ts \<and> L = used_ranges ts)"

lemma setup_heads:
  assumes "k \<le> KMAP_ORDERS"
  shows "\<forall>i < k. dlist (fold (\<lambda>i. list_init (KmapHead i)) [0..<k] h) (KmapHead i) []"
  using assms
proof (induction k)
  case (Suc k)
  then show ?case by (auto simp: less_Suc_eq dlist_init intro!: dlist_frame_init)
qed simp

lemma setup_kmap_ok:
  "\<exists>st'. setup_kmap_ranges st = Some st' \<and> kmap_inv st' {0..<KMAP_PAGES} {}"
proof -
  let ?st = "st\<lparr>km_links := fold (\<lambda>i. list_init (KmapHead i)) [0..<KMAP_ORDERS] (km_links st)\<rparr>"
  have "linked (km_links ?st) {} (\<lambda>_. [])" using setup_heads [OF order.refl] by (auto simp: linked_def dl.fam_def)
  then have "kmap_rep ?st {}" by (auto simp: kmap_rep_def)
  then have "hole ?st [] 0 KMAP_PAGES []" by (simp add: hole_def KMAP_PAGES_def)
  from kmap_free_range_hole [OF this] show ?thesis by (auto simp: setup_kmap_ranges_def kmap_inv_def)
qed

text \<open>C30: Taking \<open>k\<close> pages of kernel addresses returns, without touching memory outside of the table. It either takes \<open>k\<close> free pages and marks exactly them as used, or fails without a change, and it fails only when there are no \<open>k\<close> free pages in a row: releasing merges free neighbours, so no free run is ever hidden in pieces.\<close>

theorem kmap_alloc_range_correct:
  assumes "kmap_inv st U L" and "0 < k"
  shows "\<exists>res st'. kmap_alloc_range k st = Some (res, st') \<and>
    (case res of None \<Rightarrow> st' = st \<and> (\<forall>r. \<not> {r..<r + k} \<subseteq> U)
     | Some r \<Rightarrow> {r..<r + k} \<subseteq> U \<and> kmap_inv st' (U - {r..<r + k}) (insert (r, k) L))"
proof -
  obtain ts where ts: "kmap_tiles st ts" "U = free_pages_of ts" "L = used_ranges ts" using assms(1) by (auto simp: kmap_inv_def)
  have til: "tiling 0 ts KMAP_PAGES" "merged ts" using ts(1) by (simp_all add: kmap_tiles_def)
  have small: "n < k" if "(p, n, True) \<in> set ts" "kmap_order n < kmap_order k" for p n
  proof (rule ccontr)
    assume "\<not> n < k"
    moreover have "n < 2 ^ 64" using tiling_bounds [OF til(1) that(1)] by (simp add: KMAP_PAGES_def)
    ultimately show False using kmap_order_mono [OF assms(2), of n] that(2) by simp
  qed
  obtain res st' where a: "kmap_alloc_range k st = Some (res, st')"
    "case res of None \<Rightarrow> st' = st \<and> (\<forall>p n. (p, n, True) \<in> set ts \<longrightarrow> n < k)
     | Some r \<Rightarrow> \<exists>m ts'. (r, m, True) \<in> set ts \<and> k \<le> m \<and> kmap_tiles st' ts' \<and>
         free_pages_of ts' = free_pages_of ts - {r..<r + k} \<and> used_ranges ts' = insert (r, k) (used_ranges ts)"
    using kmap_alloc_from_ok [OF ts(1) assms(2), of "kmap_order k"] small unfolding kmap_alloc_range_def by auto
  have none: "\<not> {r..<r + k} \<subseteq> U" if "\<forall>p n. (p, n, True) \<in> set ts \<longrightarrow> n < k" for r
  proof
    assume "{r..<r + k} \<subseteq> U"
    from free_run_tile [OF til assms(2) this [unfolded ts(2)]] obtain p n where "(p, n, True) \<in> set ts" "{r..<r + k} \<subseteq> {p..<p + n}" by blast
    then show False using that assms(2) card_mono [of "{p..<p + n}" "{r..<r + k}"] by fastforce
  qed
  have some: "{r..<r + k} \<subseteq> U" if "(r, m, True) \<in> set ts" "k \<le> m" for r m
    using that unfolding ts(2) free_pages_of_def by force
  show ?thesis
  proof (cases res)
    case None
    then show ?thesis using a none by auto
  next
    case (Some r)
    then obtain m ts' where "(r, m, True) \<in> set ts" "k \<le> m" "kmap_tiles st' ts'"
      "free_pages_of ts' = U - {r..<r + k}" "used_ranges ts' = insert (r, k) L" using a(2) ts by auto
    then show ?thesis using a(1) Some some by (auto simp: kmap_inv_def)
  qed
qed

text \<open>C31: The table of kernel address ranges starts with all pages free, and releasing a used range, the way \<^verbatim>\<open>kunmap\<close> does with the length it reads from the first tag, returns, gives exactly the pages of that range back and keeps all others used.\<close>

theorem kmap_free_range_correct:
  assumes "kmap_inv st U L" and "(r, n) \<in> L"
  shows "km_pages st r = n \<and> (\<exists>st'. kmap_free_range r (km_pages st r) st = Some st' \<and> kmap_inv st' (U \<union> {r..<r + n}) (L - {(r, n)})) \<and>
    (\<exists>st'. setup_kmap_ranges st = Some st' \<and> kmap_inv st' {0..<KMAP_PAGES} {})"
proof -
  obtain ts where ts: "kmap_tiles st ts" "U = free_pages_of ts" "L = used_ranges ts" using assms(1) by (auto simp: kmap_inv_def)
  have mem: "(r, n, False) \<in> set ts" using assms(2) by (simp add: ts used_ranges_def)
  then obtain xs ys where sp: "ts = xs @ (r, n, False) # ys" by (meson split_list)
  have rep: "kmap_rep st (set ts)" and til: "tiling 0 (xs @ (r, n, False) # ys) KMAP_PAGES" using ts(1) by (simp_all add: kmap_tiles_def sp)
  have n: "km_pages st r = n" by (rule kmap_repD(1) [OF rep mem])
  have new: "(r, n) \<notin> used_ranges xs \<union> used_ranges ys" using tiling_notin [OF til, of n False] by (auto simp: used_ranges_def)
  obtain F where F: "linked (km_links st) (set ts) F" using rep by (auto simp: kmap_rep_def)
  have "linked (km_links st) (set xs \<union> set ys) F" using F by (simp add: linked_def sp)
  then have "kmap_rep st (set xs \<union> set ys)" using rep by (auto simp: kmap_rep_def sp)
  moreover have "merged xs \<and> merged ys" using ts(1) by (auto simp: kmap_tiles_def sp merged_append [of xs] merged_snoc merged_Cons [of _ ys])
  moreover have "tiling 0 (xs @ (r, n, True) # ys) KMAP_PAGES" using til by (auto simp: tiling_append)
  ultimately have "hole st xs r n ys" by (simp add: hole_def)
  from kmap_free_range_hole [OF this] obtain st' ts' where f: "kmap_free_range r n st = Some st'" "kmap_tiles st' ts'"
    "free_pages_of ts' = free_with xs r n ys" "used_ranges ts' = used_ranges xs \<union> used_ranges ys" by blast
  have "kmap_inv st' (U \<union> {r..<r + n}) (L - {(r, n)})"
    unfolding kmap_inv_def using f new by (intro exI [of _ ts']) (auto simp: ts sp)
  then show ?thesis using n f(1) setup_kmap_ok by simp
qed

definition sample_kmap :: kmap_state where
  "sample_kmap = the (setup_kmap_ranges \<lparr>km_pages = (\<lambda>_. 0), km_links = \<lparr>l_next = (\<lambda>_. KmapHead 0), l_prev = (\<lambda>_. KmapHead 0)\<rparr>\<rparr>)"

lemma sample_kmap_inv: "kmap_inv sample_kmap {0..<KMAP_PAGES} {}"
  using setup_kmap_ok [of "\<lparr>km_pages = (\<lambda>_. 0), km_links = \<lparr>l_next = (\<lambda>_. KmapHead 0), l_prev = (\<lambda>_. KmapHead 0)\<rparr>\<rparr>"]
  by (auto simp: sample_kmap_def)

theorem kmap_alloc_range_correct_witness: "\<exists>r st'. kmap_alloc_range 5 sample_kmap = Some (Some r, st')"
proof -
  obtain res st' where a: "kmap_alloc_range 5 sample_kmap = Some (res, st')"
    "case res of None \<Rightarrow> st' = sample_kmap \<and> (\<forall>r. \<not> {r..<r + 5} \<subseteq> {0..<KMAP_PAGES}) | Some r \<Rightarrow> True"
    using kmap_alloc_range_correct [OF sample_kmap_inv, of 5] by (auto split: option.splits)
  have "{0..<0 + 5} \<subseteq> {0..<KMAP_PAGES}" by (simp add: KMAP_PAGES_def)
  then have "res \<noteq> None" using a(2) by (auto split: option.splits dest: spec [of _ 0])
  then show ?thesis using a(1) by auto
qed

theorem kmap_free_range_correct_witness:
  "\<exists>r st' st''. kmap_alloc_range 5 sample_kmap = Some (Some r, st') \<and> kmap_free_range r (km_pages st' r) st' = Some st'' \<and>
     kmap_inv st'' {0..<KMAP_PAGES} {}"
proof -
  obtain res st' where a: "kmap_alloc_range 5 sample_kmap = Some (res, st')"
    "case res of None \<Rightarrow> \<forall>r. \<not> {r..<r + 5} \<subseteq> {0..<KMAP_PAGES}
     | Some r \<Rightarrow> {r..<r + 5} \<subseteq> {0..<KMAP_PAGES} \<and> kmap_inv st' ({0..<KMAP_PAGES} - {r..<r + 5}) (insert (r, 5) {})"
    using kmap_alloc_range_correct [OF sample_kmap_inv, of 5] by (auto split: option.splits)
  have "{0..<0 + 5} \<subseteq> {0..<KMAP_PAGES}" by (simp add: KMAP_PAGES_def)
  then have "res \<noteq> None" using a(2) by (auto split: option.splits dest: spec [of _ 0])
  then obtain r where r: "res = Some r" "{r..<r + 5} \<subseteq> {0..<KMAP_PAGES}" "kmap_inv st' ({0..<KMAP_PAGES} - {r..<r + 5}) (insert (r, 5) {})"
    using a(2) by (cases res) auto
  from kmap_free_range_correct [OF r(3), of r 5] r(2) have "\<exists>st''. kmap_free_range r (km_pages st' r) st' = Some st'' \<and> kmap_inv st'' {0..<KMAP_PAGES} {}"
    by (auto simp: Un_absorb2)
  then show ?thesis using a(1) r(1) by auto
qed

end
