(* ===== verification/Paging.thy ===== *)
theory Paging
  imports Kernel_Heap Kmap
begin

text \<open>
  Page tables, after \<^verbatim>\<open>src/paging.c\<close> and \<^verbatim>\<open>src/paging.h\<close>: entries, the iterator over the slots of a four
  level table, populating and releasing the tables of a range, the fixed mappings of the kernel and
  the temporary ones of \<^verbatim>\<open>kmap\<close>. A table (\<^verbatim>\<open>pte_t *\<close>) is the number of the frame that holds it,
  \<^verbatim>\<open>vm_pt\<close> gives the words of the frames used as tables, and the count of a table is the union of its
  page descriptor. \<^term>\<open>None\<close> is a failed assertion, a null dereference or an access outside of an array.
\<close>

section \<open>Entries and addresses\<close>

type_synonym pte_t = u64

definition PTE_PRESENT :: pte_t where "PTE_PRESENT = BIT_CONST 0"
definition PTE_WRITE :: pte_t where "PTE_WRITE = BIT_CONST 1"
definition PTE_USER :: pte_t where "PTE_USER = BIT_CONST 2"
definition PTE_LARGE :: pte_t where "PTE_LARGE = BIT_CONST 7"
definition PTE_LOW :: pte_t where "PTE_LOW = BIT_CONST 9"
definition PTE_FLAGS :: pte_t where "PTE_FLAGS = PTE_PRESENT OR PTE_WRITE OR PTE_USER OR PTE_LARGE OR PTE_LOW"
definition PTE_PT_FLAGS :: pte_t where "PTE_PT_FLAGS = PTE_WRITE OR PTE_USER"
definition PTE_LARGE_PT_FLAGS :: pte_t where "PTE_LARGE_PT_FLAGS = PTE_PT_FLAGS OR PTE_LARGE"

definition PT_SIZE :: nat where "PT_SIZE = 512"
definition PML1_SIZE :: u64 where "PML1_SIZE = push_bit 12 512"
definition PML1_MASK :: u64 where "PML1_MASK = PML1_SIZE - 1"
definition PML2_SIZE :: u64 where "PML2_SIZE = push_bit 12 (512 * 512)"
definition PML2_MASK :: u64 where "PML2_MASK = PML2_SIZE - 1"
definition PML3_SIZE :: u64 where "PML3_SIZE = push_bit 12 (512 * 512 * 512)"
definition PML3_MASK :: u64 where "PML3_MASK = PML3_SIZE - 1"

definition pte_present :: "pte_t \<Rightarrow> bool" where "pte_present pte \<longleftrightarrow> pte AND PTE_PRESENT \<noteq> 0"
definition pte_write :: "pte_t \<Rightarrow> bool" where "pte_write pte \<longleftrightarrow> pte AND PTE_WRITE \<noteq> 0"
definition pte_user :: "pte_t \<Rightarrow> bool" where "pte_user pte \<longleftrightarrow> pte AND PTE_USER \<noteq> 0"
definition pte_large :: "pte_t \<Rightarrow> bool" where "pte_large pte \<longleftrightarrow> pte AND PTE_LARGE \<noteq> 0"
definition pte_phys :: "pte_t \<Rightarrow> u64" where "pte_phys pte = pte AND BITS_CONST 47 12"

definition pml4_i :: "u64 \<Rightarrow> nat" where "pml4_i vaddr = unat (drop_bit 39 (vaddr AND BITS_CONST 47 39))"
definition pml3_i :: "u64 \<Rightarrow> nat" where "pml3_i vaddr = unat (drop_bit 30 (vaddr AND BITS_CONST 38 30))"
definition pml2_i :: "u64 \<Rightarrow> nat" where "pml2_i vaddr = unat (drop_bit 21 (vaddr AND BITS_CONST 29 21))"
definition pml1_i :: "u64 \<Rightarrow> nat" where "pml1_i vaddr = unat (drop_bit 12 (vaddr AND BITS_CONST 20 12))"
definition page_off :: "u64 \<Rightarrow> nat" where "page_off vaddr = unat (vaddr AND (PAGE_SIZE - 1))"

definition canonical :: "u64 \<Rightarrow> u64" where
  "canonical addr = (if addr AND BIT_CONST 47 = 0 then addr else addr OR push_bit 48 (NOT 0))"

definition linear :: "u64 \<Rightarrow> u64" where
  "linear addr = addr AND BITS_CONST 47 0"

section \<open>State\<close>

record vm =
  vm_kmem :: kmem
  vm_pt :: "nat \<Rightarrow> nat \<Rightarrow> pte_t"
  vm_kmap :: kmap_state
  vm_cr3 :: u64
  vm_tlb_flushed :: "u64 list"

abbreviation vm_mem :: "vm \<Rightarrow> mem_state" where
  "vm_mem v \<equiv> k_mem (vm_kmem v)"

definition upd_vm_mem :: "(mem_state \<Rightarrow> mem_state) \<Rightarrow> vm \<Rightarrow> vm" where
  "upd_vm_mem f v = v\<lparr>vm_kmem := upd_mem f (vm_kmem v)\<rparr>"

definition set_pte :: "nat \<Rightarrow> nat \<Rightarrow> pte_t \<Rightarrow> vm \<Rightarrow> vm" where
  "set_pte t i e v = v\<lparr>vm_pt := (vm_pt v)(t := (vm_pt v t)(i := e))\<rparr>"

definition frame_of :: "u64 \<Rightarrow> nat" where
  "frame_of paddr = unat (drop_bit PAGE_BITS paddr)"

text \<open>\<^verbatim>\<open>pfn2page(pte_phys(pte) >> PAGE_BITS)\<close>\<close>

definition pte_page :: "pte_t \<Rightarrow> vm \<Rightarrow> page_ptr option" where
  "pte_page pte v = pfn2page (vm_mem v) (frame_of (pte_phys pte))"

definition refcount :: "page_ptr \<Rightarrow> vm \<Rightarrow> u64" where
  "refcount p v = pg_u (page_of (vm_mem v) p)"

definition set_refcount :: "page_ptr \<Rightarrow> u64 \<Rightarrow> vm \<Rightarrow> vm" where
  "set_refcount p u v =
     upd_vm_mem (\<lambda>ms. node_upd (fst p) (page_upd (snd p) (\<lambda>x. x\<lparr>pg_u := u\<rparr>) (ms_nodes ms ! fst p)) ms) v"

definition get_page :: "page_ptr \<Rightarrow> vm \<Rightarrow> vm" where
  "get_page p v = set_refcount p (refcount p v + 1) v"

definition put_page :: "page_ptr \<Rightarrow> vm \<Rightarrow> vm" where
  "put_page p v =
     (let v = set_refcount p (refcount p v - 1) v
      in if refcount p v = 0 then upd_vm_mem (free_pages (Some p) 0) v else v)"

definition flush_tlb_addr :: "u64 \<Rightarrow> vm \<Rightarrow> vm" where
  "flush_tlb_addr vaddr v = v\<lparr>vm_tlb_flushed := vaddr # vm_tlb_flushed v\<rparr>"

definition store_pml4 :: "u64 \<Rightarrow> vm \<Rightarrow> vm" where
  "store_pml4 pml4 v = v\<lparr>vm_cr3 := pml4\<rparr>"

definition load_pml4 :: "vm \<Rightarrow> u64" where
  "load_pml4 v = vm_cr3 v"

section \<open>The iterator\<close>

definition PT_MAX_LEVEL :: nat where "PT_MAX_LEVEL = 3"

record pt_iter =
  it_level :: nat
  it_pt :: "nat \<Rightarrow> nat option"
  it_idx :: "nat \<Rightarrow> nat"
  it_addr :: u64

definition pt_index :: "u64 \<Rightarrow> nat \<Rightarrow> nat" where
  "pt_index vaddr level =
     (if level = 4 then pml4_i vaddr else if level = 3 then pml3_i vaddr
      else if level = 2 then pml2_i vaddr else if level = 1 then pml1_i vaddr else 0)"

definition pt_iter_addr :: "pt_iter \<Rightarrow> u64" where
  "pt_iter_addr it = canonical (push_bit 39 (of_nat (it_idx it 3)) OR push_bit 30 (of_nat (it_idx it 2)) OR
     push_bit 21 (of_nat (it_idx it 1)) OR push_bit 12 (of_nat (it_idx it 0)))"

text \<open>The loop that follows present entries down; \<open>f\<close> gives the index to take at the next level.\<close>

fun iter_descend :: "(nat \<Rightarrow> nat) \<Rightarrow> vm \<Rightarrow> nat \<Rightarrow> pte_t \<Rightarrow> pt_iter \<Rightarrow> nat \<times> pt_iter" where
  "iter_descend f v 0 pte it = (0, it)"
| "iter_descend f v (Suc level) pte it =
     (if pte_present pte \<and> \<not> pte_large pte
      then let pt = frame_of (pte_phys pte); idx = f (Suc level)
           in iter_descend f v level (vm_pt v pt idx)
                (it\<lparr>it_idx := (it_idx it)(level := idx), it_pt := (it_pt it)(level := Some pt)\<rparr>)
      else (Suc level, it))"

definition pt_iter_set :: "nat option \<Rightarrow> u64 \<Rightarrow> vm \<Rightarrow> pt_iter" where
  "pt_iter_set pml4 addr v =
     (let it = \<lparr>it_level = 0, it_pt = (\<lambda>_. None), it_idx = (\<lambda>_. 0), it_addr = 0\<rparr>
      in case pml4 of
           None \<Rightarrow> it
         | Some root \<Rightarrow>
             let idx = pml4_i addr;
                 it = it\<lparr>it_pt := (it_pt it)(PT_MAX_LEVEL := Some root), it_idx := (it_idx it)(PT_MAX_LEVEL := idx)\<rparr>;
                 (level, it) = iter_descend (pt_index addr) v PT_MAX_LEVEL (vm_pt v root idx) it
             in it\<lparr>it_addr := pt_iter_addr it, it_level := level\<rparr>)"

function iter_climb :: "pt_iter \<Rightarrow> nat \<Rightarrow> nat \<Rightarrow> nat \<times> nat" where
  "iter_climb it level idx =
     (if idx = PT_SIZE - 1 \<and> level < PT_MAX_LEVEL then iter_climb it (level + 1) (it_idx it (level + 1)) else (level, idx))"
  by pat_completeness auto
termination
  by (relation "measure (\<lambda>(it, level, idx). PT_MAX_LEVEL - level)") auto

declare iter_climb.simps [simp del]

definition clear_below :: "nat \<Rightarrow> pt_iter \<Rightarrow> pt_iter" where
  "clear_below level it = it\<lparr>it_pt := (\<lambda>l. if l < level then None else it_pt it l), it_idx := (\<lambda>l. if l < level then 0 else it_idx it l)\<rparr>"

definition pt_iter_next :: "pt_iter \<Rightarrow> vm \<Rightarrow> pt_iter option option" where
  "pt_iter_next it v =
     (let (level, idx) = iter_climb it (it_level it) (it_idx it (it_level it))
      in if idx = PT_SIZE - 1 then Some None
         else do {
           pt \<leftarrow> it_pt it level;
           let idx = idx + 1;
           let (level, it) = iter_descend (\<lambda>_. 0) v level (vm_pt v pt idx) (it\<lparr>it_idx := (it_idx it)(level := idx)\<rparr>);
           let it = clear_below level (it\<lparr>it_level := level\<rparr>);
           Some (Some (it\<lparr>it_addr := pt_iter_addr it\<rparr>))
         })"

definition iter_pte :: "pt_iter \<Rightarrow> vm \<Rightarrow> pte_t option" where
  "iter_pte it v = do { pt \<leftarrow> it_pt it (it_level it); Some (vm_pt v pt (it_idx it (it_level it))) }"

definition pt_iter_present :: "pt_iter \<Rightarrow> vm \<Rightarrow> bool option" where
  "pt_iter_present it v = map_option pte_present (iter_pte it v)"

definition pt_iter_large :: "pt_iter \<Rightarrow> vm \<Rightarrow> bool option" where
  "pt_iter_large it v = map_option pte_large (iter_pte it v)"

text \<open>\<^verbatim>\<open>for_each_slot_in_range\<close> with the body of the loop and what it keeps besides the state.\<close>

partial_function (option) for_slots :: "(pt_iter \<Rightarrow> 'a \<Rightarrow> vm \<Rightarrow> ('a \<times> vm) option) \<Rightarrow> u64 \<Rightarrow> pt_iter \<Rightarrow> 'a \<Rightarrow> vm \<Rightarrow> ('a \<times> vm) option" where
  "for_slots body to it a v =
     (if it_addr it < to
      then do {
        (a, v) \<leftarrow> body it a v;
        nxt \<leftarrow> pt_iter_next it v;
        (case nxt of None \<Rightarrow> Some (a, v) | Some it \<Rightarrow> for_slots body to it a v)
      }
      else Some (a, v))"

definition for_each_slot_in_range :: "nat option \<Rightarrow> u64 \<Rightarrow> u64 \<Rightarrow> (pt_iter \<Rightarrow> 'a \<Rightarrow> vm \<Rightarrow> ('a \<times> vm) option) \<Rightarrow> 'a \<Rightarrow> vm \<Rightarrow> ('a \<times> vm) option" where
  "for_each_slot_in_range pml4 from to body a v = for_slots body to (pt_iter_set pml4 from v) a v"

section \<open>Populating and releasing tables\<close>

definition alloc_page_table :: "pte_t \<Rightarrow> vm \<Rightarrow> (page_ptr option \<times> vm) option" where
  "alloc_page_table flags v = do {
     (page, m) \<leftarrow> (if flags AND PTE_LOW \<noteq> 0 then alloc_pages_type 0 NT_LOW (vm_mem v) else alloc_pages 0 (vm_mem v));
     let v = upd_vm_mem (\<lambda>_. m) v;
     (case page of
        None \<Rightarrow> Some (None, v)
      | Some p \<Rightarrow>
          let v = v\<lparr>vm_pt := (vm_pt v)(page2pfn (vm_mem v) p := (\<lambda>_. 0))\<rparr>
          in Some (Some p, set_refcount p 0 v))
   }"

definition free_page_table :: "page_ptr \<Rightarrow> vm \<Rightarrow> vm" where
  "free_page_table p v = upd_vm_mem (free_pages (Some p) 0) v"

text \<open>\<^verbatim>\<open>pt->u.refcount -= pages\<close> and the test behind it, which empties the entry and frees the table.\<close>

definition pt_put :: "nat \<Rightarrow> nat \<Rightarrow> page_ptr \<Rightarrow> u64 \<Rightarrow> vm \<Rightarrow> vm" where
  "pt_put t i pt pages v =
     (let v = set_refcount pt (refcount pt v - pages) v
      in if refcount pt v = 0 then free_page_table pt (set_pte t i 0 v) else v)"

definition range_bytes :: "u64 \<Rightarrow> u64 \<Rightarrow> u64 \<Rightarrow> u64 \<Rightarrow> u64" where
  "range_bytes sz msk vaddr to = MINU (sz - (vaddr AND msk)) (to - vaddr)"

lemma range_bytes_less:
  assumes "vaddr \<noteq> to" and "vaddr AND msk < sz"
  shows "unat (to - (vaddr + range_bytes sz msk vaddr to)) < unat (to - vaddr)"
proof -
  let ?b = "range_bytes sz msk vaddr to"
  have "to - vaddr \<noteq> 0" "sz - (vaddr AND msk) \<noteq> 0" using assms by auto
  then have b: "?b \<le> to - vaddr" "?b \<noteq> 0" by (auto simp: range_bytes_def MINU_def)
  have "unat (to - (vaddr + ?b)) = unat (to - vaddr) - unat ?b" using unat_sub_noov [OF b(1)] by (simp only: diff_diff_eq)
  moreover have "0 < unat ?b" "unat ?b \<le> unat (to - vaddr)" using b by (auto simp: unat_gt_0 word_le_nat_alt)
  ultimately show ?thesis by simp
qed

lemma mask_less [simp]: "vaddr AND PML1_MASK < PML1_SIZE" "vaddr AND PML2_MASK < PML2_SIZE" "vaddr AND PML3_MASK < PML3_SIZE"
proof -
  have "PML1_MASK < PML1_SIZE" "PML2_MASK < PML2_SIZE" "PML3_MASK < PML3_SIZE"
    by (simp_all add: PML1_MASK_def PML2_MASK_def PML3_MASK_def PML1_SIZE_def PML2_SIZE_def PML3_SIZE_def)
  then show "vaddr AND PML1_MASK < PML1_SIZE" "vaddr AND PML2_MASK < PML2_SIZE" "vaddr AND PML3_MASK < PML3_SIZE"
    by (auto intro: order.strict_trans1 [OF word_and_le1])
qed

text \<open>The tables of the last level: \<^verbatim>\<open>pml2\<close> points to them.\<close>

function release_pml2_loop :: "nat \<Rightarrow> nat \<Rightarrow> u64 \<Rightarrow> u64 \<Rightarrow> vm \<Rightarrow> vm option" where
  "release_pml2_loop pml2 i vaddr to v =
     (if vaddr = to then Some v
      else let pte = vm_pt v pml2 i;
               bytes = range_bytes PML1_SIZE PML1_MASK vaddr to;
               pages = drop_bit PAGE_BITS bytes
           in do {
             v \<leftarrow> (if pte_present pte \<and> \<not> pte_large pte
                  then do { pt \<leftarrow> pte_page pte v; Some (pt_put pml2 i pt pages v) } else Some v);
             release_pml2_loop pml2 (i + 1) (vaddr + bytes) to v
           })"
  by pat_completeness auto
termination
  by (relation "measure (\<lambda>(pml2, i, vaddr, to, v). unat (to - vaddr))") (simp_all add: range_bytes_less)

definition pt_release_pml2 :: "nat \<Rightarrow> u64 \<Rightarrow> u64 \<Rightarrow> vm \<Rightarrow> vm option" where
  "pt_release_pml2 pml2 from to v = release_pml2_loop pml2 (pml2_i from) from to v"

function populate_pml2_loop :: "nat \<Rightarrow> u64 \<Rightarrow> nat \<Rightarrow> u64 \<Rightarrow> u64 \<Rightarrow> pte_t \<Rightarrow> vm \<Rightarrow> (int \<times> vm) option" where
  "populate_pml2_loop pml2 from i vaddr to flags v =
     (if vaddr = to then Some (0, v)
      else let bytes = range_bytes PML1_SIZE PML1_MASK vaddr to;
               pages = drop_bit PAGE_BITS bytes
           in if \<not> pte_present (vm_pt v pml2 i) \<and> \<not> pte_large flags
              then do {
                (pt, v) \<leftarrow> alloc_page_table flags v;
                (case pt of
                   None \<Rightarrow> do { v \<leftarrow> pt_release_pml2 pml2 from vaddr v; Some (- ENOMEM, v) }
                 | Some pt \<Rightarrow>
                     let v = set_refcount pt (refcount pt v + pages) v;
                         v = set_pte pml2 i (page_paddr (vm_mem v) pt OR flags) v
                     in populate_pml2_loop pml2 from (i + 1) (vaddr + bytes) to flags v)
              }
              else if pte_present (vm_pt v pml2 i) \<and> \<not> pte_large (vm_pt v pml2 i)
              then do {
                pt \<leftarrow> pte_page (vm_pt v pml2 i) v;
                populate_pml2_loop pml2 from (i + 1) (vaddr + bytes) to flags (set_refcount pt (refcount pt v + pages) v)
              }
              else populate_pml2_loop pml2 from (i + 1) (vaddr + bytes) to flags v)"
  by pat_completeness auto
termination
  by (relation "measure (\<lambda>(pml2, from, i, vaddr, to, flags, v). unat (to - vaddr))") (simp_all add: range_bytes_less)

definition pt_populate_pml2 :: "nat \<Rightarrow> u64 \<Rightarrow> u64 \<Rightarrow> pte_t \<Rightarrow> vm \<Rightarrow> (int \<times> vm) option" where
  "pt_populate_pml2 pml2 from to flags v = populate_pml2_loop pml2 from (pml2_i from) from to flags v"

text \<open>The tables with one entry for each 2 MB: \<^verbatim>\<open>pml3\<close> points to them.\<close>

function release_pml3_loop :: "nat \<Rightarrow> nat \<Rightarrow> u64 \<Rightarrow> u64 \<Rightarrow> vm \<Rightarrow> vm option" where
  "release_pml3_loop pml3 i vaddr to v =
     (if vaddr = to then Some v
      else let pte = vm_pt v pml3 i;
               bytes = range_bytes PML2_SIZE PML2_MASK vaddr to;
               pages = drop_bit PAGE_BITS bytes
           in do {
             v \<leftarrow> (if pte_present pte
                  then do {
                    pt \<leftarrow> pte_page pte v;
                    v \<leftarrow> pt_release_pml2 (frame_of (pte_phys pte)) vaddr (vaddr + bytes) v;
                    Some (pt_put pml3 i pt pages v)
                  }
                  else Some v);
             release_pml3_loop pml3 (i + 1) (vaddr + bytes) to v
           })"
  by pat_completeness auto
termination
  by (relation "measure (\<lambda>(pml3, i, vaddr, to, v). unat (to - vaddr))") (simp_all add: range_bytes_less)

definition pt_release_pml3 :: "nat \<Rightarrow> u64 \<Rightarrow> u64 \<Rightarrow> vm \<Rightarrow> vm option" where
  "pt_release_pml3 pml3 from to v = release_pml3_loop pml3 (pml3_i from) from to v"

function populate_pml3_loop :: "nat \<Rightarrow> u64 \<Rightarrow> nat \<Rightarrow> u64 \<Rightarrow> u64 \<Rightarrow> pte_t \<Rightarrow> vm \<Rightarrow> (int \<times> vm) option" where
  "populate_pml3_loop pml3 from i vaddr to flags v =
     (if vaddr = to then Some (0, v)
      else let bytes = range_bytes PML2_SIZE PML2_MASK vaddr to;
               pages = drop_bit PAGE_BITS bytes
           in do {
             (slot, v) \<leftarrow> (if \<not> pte_present (vm_pt v pml3 i)
                then do {
                  (pt, v) \<leftarrow> alloc_page_table flags v;
                  (case pt of
                     None \<Rightarrow> Some (None, v)
                   | Some pt \<Rightarrow>
                       let paddr = page_paddr (vm_mem v) pt
                       in Some (Some (pt, paddr), set_pte pml3 i (paddr OR (flags AND NOT PTE_LARGE)) v))
                }
                else do {
                  let pte = vm_pt v pml3 i;
                  pt \<leftarrow> pte_page pte v;
                  Some (Some (pt, pte_phys pte), v)
                });
             (case slot of
                None \<Rightarrow> do { v \<leftarrow> pt_release_pml3 pml3 from vaddr v; Some (- ENOMEM, v) }
              | Some (pt, paddr) \<Rightarrow> do {
                  let v = set_refcount pt (refcount pt v + pages) v;
                  (rc, v) \<leftarrow> pt_populate_pml2 (frame_of paddr) vaddr (vaddr + bytes) flags v;
                  if rc \<noteq> 0
                  then do {
                    v \<leftarrow> pt_release_pml3 pml3 from vaddr v;
                    Some (rc, pt_put pml3 i pt pages v)
                  }
                  else populate_pml3_loop pml3 from (i + 1) (vaddr + bytes) to flags v
                })
           })"
  by pat_completeness auto
termination
  by (relation "measure (\<lambda>(pml3, from, i, vaddr, to, flags, v). unat (to - vaddr))") (auto simp: range_bytes_less)

definition pt_populate_pml3 :: "nat \<Rightarrow> u64 \<Rightarrow> u64 \<Rightarrow> pte_t \<Rightarrow> vm \<Rightarrow> (int \<times> vm) option" where
  "pt_populate_pml3 pml3 from to flags v = populate_pml3_loop pml3 from (pml3_i from) from to flags v"

text \<open>The tables with one entry for each GB: \<^verbatim>\<open>pml4\<close> points to them.\<close>

function release_pml4_loop :: "nat \<Rightarrow> nat \<Rightarrow> u64 \<Rightarrow> u64 \<Rightarrow> vm \<Rightarrow> vm option" where
  "release_pml4_loop pml4 i vaddr to v =
     (if vaddr = to then Some v
      else let pte = vm_pt v pml4 i;
               bytes = range_bytes PML3_SIZE PML3_MASK vaddr to;
               pages = drop_bit PAGE_BITS bytes
           in do {
             v \<leftarrow> (if pte_present pte
                  then do {
                    pt \<leftarrow> pte_page pte v;
                    v \<leftarrow> pt_release_pml3 (frame_of (pte_phys pte)) vaddr (vaddr + bytes) v;
                    Some (pt_put pml4 i pt pages v)
                  }
                  else Some v);
             release_pml4_loop pml4 (i + 1) (vaddr + bytes) to v
           })"
  by pat_completeness auto
termination
  by (relation "measure (\<lambda>(pml4, i, vaddr, to, v). unat (to - vaddr))") (simp_all add: range_bytes_less)

definition pt_release_pml4 :: "nat \<Rightarrow> u64 \<Rightarrow> u64 \<Rightarrow> vm \<Rightarrow> vm option" where
  "pt_release_pml4 pml4 from to v = release_pml4_loop pml4 (pml4_i from) from to v"

function populate_pml4_loop :: "nat \<Rightarrow> u64 \<Rightarrow> nat \<Rightarrow> u64 \<Rightarrow> u64 \<Rightarrow> pte_t \<Rightarrow> vm \<Rightarrow> (int \<times> vm) option" where
  "populate_pml4_loop pml4 from i vaddr to flags v =
     (if \<not> vaddr < to then Some (0, v)
      else let bytes = range_bytes PML3_SIZE PML3_MASK vaddr to;
               pages = drop_bit PAGE_BITS bytes
           in do {
             (slot, v) \<leftarrow> (if \<not> pte_present (vm_pt v pml4 i)
                then do {
                  (pt, v) \<leftarrow> alloc_page_table flags v;
                  (case pt of
                     None \<Rightarrow> Some (None, v)
                   | Some pt \<Rightarrow>
                       let paddr = page_paddr (vm_mem v) pt
                       in Some (Some (pt, paddr), set_pte pml4 i (paddr OR (flags AND NOT PTE_LARGE)) v))
                }
                else do {
                  let pte = vm_pt v pml4 i;
                  pt \<leftarrow> pte_page pte v;
                  Some (Some (pt, pte_phys pte), v)
                });
             (case slot of
                None \<Rightarrow> do { v \<leftarrow> pt_release_pml4 pml4 from vaddr v; Some (- ENOMEM, v) }
              | Some (pt, paddr) \<Rightarrow> do {
                  let v = set_refcount pt (refcount pt v + pages) v;
                  (rc, v) \<leftarrow> pt_populate_pml3 (frame_of paddr) vaddr (vaddr + bytes) flags v;
                  if rc \<noteq> 0
                  then do {
                    v \<leftarrow> pt_release_pml4 pml4 from vaddr v;
                    Some (rc, pt_put pml4 i pt pages v)
                  }
                  else populate_pml4_loop pml4 from (i + 1) (vaddr + bytes) to flags v
                })
           })"
  by pat_completeness auto
termination
  by (relation "measure (\<lambda>(pml4, from, i, vaddr, to, flags, v). unat (to - vaddr))") (auto simp: range_bytes_less)

definition pt_populate_pml4 :: "nat \<Rightarrow> u64 \<Rightarrow> u64 \<Rightarrow> pte_t \<Rightarrow> vm \<Rightarrow> (int \<times> vm) option" where
  "pt_populate_pml4 pml4 from to flags v = populate_pml4_loop pml4 from (pml4_i from) from to flags v"

declare release_pml2_loop.simps [simp del] populate_pml2_loop.simps [simp del] release_pml3_loop.simps [simp del]
  populate_pml3_loop.simps [simp del] release_pml4_loop.simps [simp del] populate_pml4_loop.simps [simp del]

definition pt_populate_range_flags :: "nat \<Rightarrow> u64 \<Rightarrow> u64 \<Rightarrow> pte_t \<Rightarrow> vm \<Rightarrow> (int \<times> vm) option" where
  "pt_populate_range_flags pml4 from to flags v =
     (if \<not> linear from < linear to \<or> flags AND NOT PTE_FLAGS \<noteq> 0 then None
      else pt_populate_pml4 pml4 (ALIGN_DOWN (linear from) PAGE_SIZE) (ALIGN (linear to) PAGE_SIZE) (flags OR PTE_PRESENT) v)"

definition pt_populate_range :: "nat \<Rightarrow> u64 \<Rightarrow> u64 \<Rightarrow> vm \<Rightarrow> (int \<times> vm) option" where
  "pt_populate_range pml4 from to v = pt_populate_range_flags pml4 from to PTE_PT_FLAGS v"

definition pt_populate_range_large :: "nat \<Rightarrow> u64 \<Rightarrow> u64 \<Rightarrow> vm \<Rightarrow> (int \<times> vm) option" where
  "pt_populate_range_large pml4 from to v = pt_populate_range_flags pml4 from to PTE_LARGE_PT_FLAGS v"

definition pt_release_range :: "nat \<Rightarrow> u64 \<Rightarrow> u64 \<Rightarrow> vm \<Rightarrow> vm option" where
  "pt_release_range pml4 from to v =
     (if \<not> linear from < linear to then None
      else pt_release_pml4 pml4 (ALIGN_DOWN (linear from) PAGE_SIZE) (ALIGN (linear to) PAGE_SIZE) v)"

section \<open>Kernel mappings\<close>

text \<open>The body of the loop of \<^verbatim>\<open>map_range_large\<close>; it keeps the next physical address.\<close>

definition map_large_slot :: "pt_iter \<Rightarrow> u64 \<Rightarrow> vm \<Rightarrow> (u64 \<times> vm) option" where
  "map_large_slot it phys v = do {
     let level = it_level it;
     let index = it_idx it level;
     pt \<leftarrow> it_pt it level;
     if (level = 1 \<or> level = 0) \<and> \<not> pte_present (vm_pt v pt index)
     then if level = 1
          then Some (phys + PML1_SIZE, set_pte pt index (phys OR PTE_WRITE OR PTE_PRESENT OR PTE_LARGE) v)
          else Some (phys + PAGE_SIZE, set_pte pt index (phys OR PTE_WRITE OR PTE_PRESENT) v)
     else None
   }"

definition map_range_large :: "nat \<Rightarrow> u64 \<Rightarrow> u64 \<Rightarrow> u64 \<Rightarrow> pte_t \<Rightarrow> vm \<Rightarrow> (int \<times> vm) option" where
  "map_range_large pml4 from to phys flags v = do {
     (rc, v) \<leftarrow> pt_populate_range_flags pml4 from to (flags OR PTE_LARGE) v;
     if rc \<noteq> 0 then Some (rc, v)
     else do {
       (_, v) \<leftarrow> for_each_slot_in_range (Some pml4) from to map_large_slot phys v;
       Some (0, v)
     }
   }"

text \<open>The body of the loop of \<^verbatim>\<open>kmap\<close>; it keeps the pages that are left.\<close>

definition kmap_slot :: "pt_iter \<Rightarrow> page_ptr list \<Rightarrow> vm \<Rightarrow> (page_ptr list \<times> vm) option" where
  "kmap_slot it pages v =
     (case pages of
        [] \<Rightarrow> None
      | p # pages \<Rightarrow> do {
          let level = it_level it;
          pt \<leftarrow> it_pt it level;
          let v = set_pte pt (it_idx it level) (page_paddr (vm_mem v) p OR PTE_WRITE OR PTE_PRESENT) v;
          Some (pages, flush_tlb_addr (it_addr it) v)
        })"

definition kmap :: "page_ptr list \<Rightarrow> vm \<Rightarrow> (u64 \<times> vm) option" where
  "kmap pages v = do {
     (res, km) \<leftarrow> kmap_alloc_range (length pages) (vm_kmap v);
     let v = v\<lparr>vm_kmap := km\<rparr>;
     (case res of
        None \<Rightarrow> Some (0, v)
      | Some r \<Rightarrow> do {
          let from = kmap2virt r;
          let to = from + push_bit PAGE_BITS (of_nat (length pages));
          (_, v) \<leftarrow> for_each_slot_in_range (Some (frame_of (load_pml4 v))) from to kmap_slot pages v;
          Some (from, v)
        })
   }"

definition kunmap_slot :: "pt_iter \<Rightarrow> u64 \<Rightarrow> vm \<Rightarrow> (u64 \<times> vm) option" where
  "kunmap_slot it virt v = do {
     let level = it_level it;
     pt \<leftarrow> it_pt it level;
     Some (virt + PAGE_SIZE, flush_tlb_addr virt (set_pte pt (it_idx it level) 0 v))
   }"

definition kunmap :: "u64 \<Rightarrow> vm \<Rightarrow> vm option" where
  "kunmap vaddr v = do {
     let r = virt2kmap vaddr;
     let count = km_pages (vm_kmap v) r;
     let to = vaddr + push_bit PAGE_BITS (of_nat count);
     (_, v) \<leftarrow> for_each_slot_in_range (Some (frame_of (load_pml4 v))) vaddr to kunmap_slot vaddr v;
     km \<leftarrow> kmap_free_range r (km_pages (vm_kmap v) r) (vm_kmap v);
     Some (v\<lparr>vm_kmap := km\<rparr>)
   }"

definition KERNEL_SIZE :: u64 where "KERNEL_SIZE = 3 * 512 * 1024 * 1024"
definition KMAP_SIZE :: u64 where "KMAP_SIZE = 512 * 1024 * 1024 - PAGE_SIZE"

definition setup_kmap_mapping :: "nat \<Rightarrow> vm \<Rightarrow> (int \<times> vm) option" where
  "setup_kmap_mapping pml4 v = do {
     km \<leftarrow> setup_kmap_ranges (vm_kmap v);
     pt_populate_range_flags pml4 KMAP_BASE (KMAP_BASE + KMAP_SIZE) (PTE_WRITE OR PTE_LOW) (v\<lparr>vm_kmap := km\<rparr>)
   }"

definition setup_fixed_mapping :: "nat \<Rightarrow> vm \<Rightarrow> (int \<times> vm) option" where
  "setup_fixed_mapping pml4 v =
     (let bytes = push_bit PAGE_BITS (of_nat (max_pfns (vm_mem v)))
      in map_range_large pml4 HIGH_BASE (HIGH_BASE + bytes) 0 (PTE_WRITE OR PTE_LOW) v)"

definition setup_kernel_mapping :: "nat \<Rightarrow> vm \<Rightarrow> (int \<times> vm) option" where
  "setup_kernel_mapping pml4 v = map_range_large pml4 KERNEL_BASE (KERNEL_BASE + KERNEL_SIZE) 0 (PTE_WRITE OR PTE_LOW) v"

definition setup_paging :: "vm \<Rightarrow> vm option" where
  "setup_paging v = do {
     (page, v) \<leftarrow> alloc_page_table PTE_LOW v;
     p \<leftarrow> page;
     let paddr = page_paddr (vm_mem v) p;
     let pt = frame_of paddr;
     (rc, v) \<leftarrow> setup_fixed_mapping pt v;
     if rc \<noteq> 0 then None else do {
       (rc, v) \<leftarrow> setup_kernel_mapping pt v;
       if rc \<noteq> 0 then None else do {
         (rc, v) \<leftarrow> setup_kmap_mapping pt v;
         if rc \<noteq> 0 then None else Some (store_pml4 paddr v)
       }
     }
   }"

end
