(* ===== verification/Paging_Inv.thy ===== *)
theory Paging_Inv
  imports Paging
begin

text \<open>
  Correctness of the page table code: the tables under a root are a tree that holds a map from virtual
  page numbers to leaf entries, the count of every table is the number of pages mapped below it, and a
  table exists exactly when this number is positive. Populating a range adds its pages to the map or,
  when memory runs out, leaves the map as it was; releasing removes them.
\<close>

section \<open>Bits of entries\<close>

lemma bit_BIT_CONST [simp]: "bit (BIT_CONST k) n \<longleftrightarrow> n = k \<and> k < 64"
  by (auto simp: BIT_CONST_def bit_simps)

lemma BIT_CONST_exp: "BIT_CONST k = 2 ^ k"
  by (simp add: BIT_CONST_def push_bit_eq_mult)

lemma bit_BITS_CONST: "hi < 63 \<Longrightarrow> bit (BITS_CONST hi lo) n \<longleftrightarrow> lo \<le> n \<and> n \<le> hi"
proof -
  assume "hi < 63"
  moreover have "BIT_CONST (hi + 1) - 1 = mask (hi + 1)" unfolding BIT_CONST_exp mask_eq_exp_minus_1 ..
  ultimately show ?thesis unfolding BITS_CONST_def by (auto simp: bit_simps)
qed

lemma pte_bits: "pte_present e \<longleftrightarrow> bit e 0" "pte_large e \<longleftrightarrow> bit e 7" "pte_write e \<longleftrightarrow> bit e 1" "pte_user e \<longleftrightarrow> bit e 2"
  by (simp_all add: pte_present_def pte_large_def pte_write_def pte_user_def PTE_PRESENT_def PTE_LARGE_def PTE_WRITE_def PTE_USER_def
      BIT_CONST_def bit_iff_and_push_bit_not_eq_0)

lemma zero_not_present [simp]: "\<not> pte_present 0"
  by (simp add: pte_bits)

lemma bit_PTE_FLAGS: "bit PTE_FLAGS n \<Longrightarrow> n < 12"
  by (auto simp: PTE_FLAGS_def PTE_PRESENT_def PTE_WRITE_def PTE_USER_def PTE_LARGE_def PTE_LOW_def bit_or_iff)

definition ok_flags :: "pte_t \<Rightarrow> bool" where
  "ok_flags flags \<longleftrightarrow> flags AND NOT PTE_FLAGS = 0 \<and> pte_present flags \<and> \<not> pte_large flags \<and> flags AND PTE_LOW = 0"

lemma bit_of_small: "f < 2 ^ 24 \<Longrightarrow> bit (of_nat f :: u64) n \<Longrightarrow> n < 24"
proof -
  assume f: "f < 2 ^ 24" "bit (of_nat f :: u64) n"
  then have "take_bit 24 f = f" by (simp add: take_bit_nat_eq_self_iff)
  moreover have "bit f n" using f(2) by (simp add: bit_simps)
  ultimately show "n < 24" using bit_take_bit_iff [of 24 f n] by simp
qed

lemma flags_low_bits: "flags AND NOT PTE_FLAGS = 0 \<Longrightarrow> bit flags n \<Longrightarrow> n < 12"
proof -
  assume a: "flags AND NOT PTE_FLAGS = 0" "bit flags n"
  have "n < 64" using a(2) bit_imp_le_length [of flags n] by simp
  moreover have "\<not> bit (flags AND NOT PTE_FLAGS) n" by (simp add: a(1))
  ultimately have "bit PTE_FLAGS n" using a(2) by (simp add: bit_simps)
  then show "n < 12" by (rule bit_PTE_FLAGS)
qed

text \<open>The entry for a table and the way back to its frame.\<close>

lemma frame_of_entry:
  assumes "f < 2 ^ 24" and "flags AND NOT PTE_FLAGS = 0"
  shows "frame_of (pte_phys (push_bit 12 (of_nat f) OR flags)) = f" "frame_of (push_bit 12 (of_nat f)) = f"
proof -
  have u: "unat (of_nat f :: u64) = f" using assms(1) by (intro unat_of_nat64) simp
  have "drop_bit 12 (pte_phys (push_bit 12 (of_nat f) OR flags)) = (of_nat f :: u64)"
    using bit_of_small [OF assms(1)] flags_low_bits [OF assms(2)]
    by (intro bit_word_eqI) (fastforce simp: pte_phys_def bit_simps bit_BITS_CONST)
  then show "frame_of (pte_phys (push_bit 12 (of_nat f) OR flags)) = f" using u by (simp only: frame_of_def PAGE_BITS_def)
  have "drop_bit 12 (push_bit 12 (of_nat f)) = (of_nat f :: u64)"
    using bit_of_small [OF assms(1)] by (intro bit_word_eqI) (fastforce simp: bit_simps)
  then show "frame_of (push_bit 12 (of_nat f)) = f" using u by (simp only: frame_of_def PAGE_BITS_def)
qed

lemma entry_flags:
  assumes "ok_flags flags"
  shows "pte_present (push_bit 12 x OR flags)" "\<not> pte_large (push_bit 12 x OR flags)" "flags AND NOT PTE_LARGE = flags"
    "flags AND NOT PTE_FLAGS = 0"
proof -
  show "pte_present (push_bit 12 x OR flags)" "\<not> pte_large (push_bit 12 x OR flags)" "flags AND NOT PTE_FLAGS = 0"
    using assms by (auto simp: ok_flags_def pte_bits bit_simps)
  have "\<not> bit flags 7" using assms by (simp add: ok_flags_def pte_bits)
  then show "flags AND NOT PTE_LARGE = flags"
    by (intro bit_word_eqI) (auto simp: bit_simps PTE_LARGE_def)
qed

section \<open>Addresses of pages\<close>

abbreviation vaddr_of :: "nat \<Rightarrow> u64" where
  "vaddr_of n \<equiv> of_nat (4096 * n)"

lemma vaddr_of_unat: "n \<le> 2 ^ 36 \<Longrightarrow> unat (vaddr_of n) = 4096 * n"
  by (rule unat_of_nat64) simp

lemma vaddr_of_eq: "n \<le> 2 ^ 36 \<Longrightarrow> m \<le> 2 ^ 36 \<Longrightarrow> vaddr_of n = vaddr_of m \<longleftrightarrow> n = m"
  unfolding word_unat_eq_iff by (simp only: vaddr_of_unat mult_cancel1) simp

lemma vaddr_of_less: "n \<le> 2 ^ 36 \<Longrightarrow> m \<le> 2 ^ 36 \<Longrightarrow> vaddr_of n < vaddr_of m \<longleftrightarrow> n < m"
  unfolding word_less_nat_alt by (simp only: vaddr_of_unat mult_less_cancel1) simp

lemma pages_of_bytes: "k \<le> 2 ^ 36 \<Longrightarrow> drop_bit PAGE_BITS (vaddr_of k) = of_nat k"
proof -
  assume k: "k \<le> 2 ^ 36"
  have "unat (drop_bit PAGE_BITS (vaddr_of k)) = k"
    unfolding unat_drop_bit_eq PAGE_BITS_def vaddr_of_unat [OF k] by (simp add: drop_bit_eq_div)
  moreover have "unat (of_nat k :: u64) = k" using k by (intro unat_of_nat64) simp
  ultimately show ?thesis by (simp only: word_unat_eq_iff)
qed

text \<open>A slot of a table of level \<open>l\<close> covers \<open>512 ^ l\<close> pages.\<close>

abbreviation level_size :: "nat \<Rightarrow> u64" where
  "level_size l \<equiv> push_bit 12 (2 ^ (9 * l))"

definition chunk :: "nat \<Rightarrow> nat \<Rightarrow> nat \<Rightarrow> nat" where
  "chunk l n m = min (512 ^ l - n mod 512 ^ l) (m - n)"

lemma chunk_bounds: "n < m \<Longrightarrow> 0 < chunk l n m" "n < m \<Longrightarrow> n + chunk l n m \<le> m"
  by (auto simp: chunk_def)

lemma range_bytes_chunk:
  assumes "n < m" and "m \<le> 2 ^ 36" and "l \<le> 3"
  shows "range_bytes (level_size l) (level_size l - 1) (vaddr_of n) (vaddr_of m) = vaddr_of (chunk l n m)"
proof -
  let ?N = "(512 :: nat) ^ l"
  have N: "4096 * ?N = 2 ^ (12 + 9 * l)" by (simp add: power_add power_mult)
  have l: "12 + 9 * l < 64" using assms(3) by simp
  have s: "level_size l = 2 ^ (12 + 9 * l)" by (simp add: push_bit_eq_mult power_add)
  have "vaddr_of n AND (level_size l - 1) = take_bit (12 + 9 * l) (vaddr_of n)"
    unfolding s mask_eq_exp_minus_1 [symmetric] by (simp add: take_bit_eq_mask)
  moreover have n: "n \<le> 2 ^ 36" using assms by simp
  ultimately have "unat (vaddr_of n AND (level_size l - 1)) = (4096 * n) mod (4096 * ?N)"
    by (simp only: unsigned_take_bit_eq vaddr_of_unat [OF n] take_bit_eq_mod [where 'a = nat] N)
  then have a: "unat (vaddr_of n AND (level_size l - 1)) = 4096 * (n mod ?N)" by (simp only: mult_mod_right)
  have us: "unat (level_size l) = 4096 * ?N" unfolding s N by (rule unat_exp2 [OF l])
  have lt: "n mod ?N < ?N" by simp
  have le: "vaddr_of n AND (level_size l - 1) \<le> level_size l" "vaddr_of n \<le> vaddr_of m"
    unfolding word_le_nat_alt a us vaddr_of_unat [OF n] vaddr_of_unat [OF assms(2)] using lt assms(1) by simp_all
  have d1: "unat (level_size l - (vaddr_of n AND (level_size l - 1))) = 4096 * (?N - n mod ?N)"
    unfolding unat_sub_noov [OF le(1)] a us by (simp add: diff_mult_distrib2)
  have d2: "unat (vaddr_of m - vaddr_of n) = 4096 * (m - n)"
    unfolding unat_sub_noov [OF le(2)] vaddr_of_unat [OF n] vaddr_of_unat [OF assms(2)] by (simp add: diff_mult_distrib2)
  have c: "chunk l n m \<le> 2 ^ 36" using assms(2) by (simp add: chunk_def)
  have "unat (range_bytes (level_size l) (level_size l - 1) (vaddr_of n) (vaddr_of m)) = 4096 * chunk l n m"
    unfolding range_bytes_def MINU_def chunk_def word_less_nat_alt min_def using d1 d2 by auto
  then show ?thesis unfolding word_unat_eq_iff vaddr_of_unat [OF c] .
qed

lemma level_sizes: "PML1_SIZE = level_size 1" "PML2_SIZE = level_size 2" "PML3_SIZE = level_size 3"
  by (simp_all add: PML1_SIZE_def PML2_SIZE_def PML3_SIZE_def)

definition slot_of :: "nat \<Rightarrow> nat \<Rightarrow> nat" where
  "slot_of l n = n div 512 ^ l mod 512"

lemma pml_index:
  assumes "n < 2 ^ 36" and "l \<le> 3"
  shows "unat (drop_bit (12 + 9 * l) (vaddr_of n AND BITS_CONST (20 + 9 * l) (12 + 9 * l))) = slot_of l n"
proof -
  have "drop_bit (12 + 9 * l) (vaddr_of n AND BITS_CONST (20 + 9 * l) (12 + 9 * l)) = take_bit 9 (drop_bit (12 + 9 * l) (vaddr_of n))"
    using assms(2) by (intro bit_word_eqI) (auto simp: bit_simps bit_BITS_CONST)
  moreover have n: "n \<le> 2 ^ 36" using assms by simp
  ultimately have "unat (drop_bit (12 + 9 * l) (vaddr_of n AND BITS_CONST (20 + 9 * l) (12 + 9 * l))) = (4096 * n) div 2 ^ (12 + 9 * l) mod 2 ^ 9"
    by (simp only: unsigned_take_bit_eq unat_drop_bit_eq vaddr_of_unat [OF n] take_bit_eq_mod [where 'a = nat] drop_bit_eq_div [where 'a = nat])
  also have "\<dots> = (4096 * n) div 2 ^ (12 + 9 * l) mod 512" by simp
  also have "\<dots> = slot_of l n" by (simp add: slot_of_def power_add power_mult)
  finally show ?thesis .
qed

lemma pml_i_page:
  assumes "n < 2 ^ 36"
  shows "pml4_i (vaddr_of n) = slot_of 3 n" "pml3_i (vaddr_of n) = slot_of 2 n" "pml2_i (vaddr_of n) = slot_of 1 n" "pml1_i (vaddr_of n) = slot_of 0 n"
  using pml_index [OF assms, of 3] pml_index [OF assms, of 2] pml_index [OF assms, of 1] pml_index [OF assms, of 0]
  by (simp_all add: pml4_i_def pml3_i_def pml2_i_def pml1_i_def)

section \<open>Frames of tables\<close>

text \<open>
  \<open>H\<close> is the set of frames that hold tables; \<open>P\<close> are the other blocks of pages in use, \<open>K\<close> the object caches
  and \<open>live\<close> their objects. The count of a table is read through its frame.
\<close>

definition tables :: "(page_ptr \<times> nat) set \<Rightarrow> nat set \<Rightarrow> (nat \<Rightarrow> nat set) \<Rightarrow> vm \<Rightarrow> nat set \<Rightarrow> bool" where
  "tables P K live v H \<longleftrightarrow> (\<exists>T. kmem_inv (P \<union> (\<lambda>p. (p, 0)) ` T) (vm_kmem v) K live \<and> P \<inter> (\<lambda>p. (p, 0)) ` T = {} \<and>
     H = frame_no (vm_mem v) ` T)"

definition table_count :: "vm \<Rightarrow> nat \<Rightarrow> u64" where
  "table_count v f = (case pfn2page (vm_mem v) f of None \<Rightarrow> 0 | Some p \<Rightarrow> refcount p v)"

lemma tablesE:
  assumes "tables P K live v H"
  obtains T where "kmem_inv (P \<union> (\<lambda>p. (p, 0)) ` T) (vm_kmem v) K live" "P \<inter> (\<lambda>p. (p, 0)) ` T = {}" "H = frame_no (vm_mem v) ` T"
    "\<forall>p \<in> T. valid_page (vm_mem v) p" "\<forall>p \<in> T. pfn2page (vm_mem v) (frame_no (vm_mem v) p) = Some p"
proof -
  obtain T where T: "kmem_inv (P \<union> (\<lambda>p. (p, 0)) ` T) (vm_kmem v) K live" "P \<inter> (\<lambda>p. (p, 0)) ` T = {}" "H = frame_no (vm_mem v) ` T"
    using assms by (auto simp: tables_def)
  show thesis by (rule that [OF T]) (use held_page [OF T(1)] in auto)
qed

lemma table_page:
  assumes "tables P K live v H" and "f \<in> H"
  obtains p where "pfn2page (vm_mem v) f = Some p" "page2pfn (vm_mem v) p = f" "f < 2 ^ 24"
    "page_paddr (vm_mem v) p = push_bit 12 (of_nat f)" "table_count v f = refcount p v"
proof -
  obtain T where T: "kmem_inv (P \<union> (\<lambda>p. (p, 0)) ` T) (vm_kmem v) K live" "H = frame_no (vm_mem v) ` T" using assms(1) by (auto simp: tables_def)
  then obtain p where p: "p \<in> T" "f = frame_no (vm_mem v) p" using assms(2) by blast
  then have "(p, 0) \<in> P \<union> (\<lambda>p. (p, 0)) ` T" by simp
  note h = held_page [OF T(1) this]
  show thesis by (rule that [of p]) (use h p in \<open>simp_all add: page_paddr_def PAGE_BITS_def table_count_def\<close>)
qed

lemma pfn2page_frame:
  assumes "same_frame ms ms'"
  shows "pfn2page ms' f = pfn2page ms f"
proof -
  have len: "length (ms_nodes ms') = length (ms_nodes ms)"
    and sh: "\<And>n. n < length (ms_nodes ms) \<Longrightarrow> mn_end_pfn (ms_nodes ms' ! n) = mn_end_pfn (ms_nodes ms ! n)"
      "\<And>n. n < length (ms_nodes ms) \<Longrightarrow> mn_begin_pfn (ms_nodes ms' ! n) = mn_begin_pfn (ms_nodes ms ! n)"
    using assms by (auto simp: same_frame_def same_shape_def)
  have from_eq: "pfn_node_from ns' i f = pfn_node_from ns i f" if "length ns' = length ns" "\<And>n. n < length ns \<Longrightarrow> mn_end_pfn (ns' ! n) = mn_end_pfn (ns ! n)" for ns ns' i
    using that
  proof (induction ns' ns arbitrary: i rule: list_induct2)
    case (Cons x xs y ys)
    have "mn_end_pfn x = mn_end_pfn y" using Cons.prems [of 0] by simp
    moreover have "mn_end_pfn (xs ! n) = mn_end_pfn (ys ! n)" if "n < length ys" for n using Cons.prems [of "Suc n"] that by simp
    then have "pfn_node_from xs j f = pfn_node_from ys j f" for j by (rule Cons.IH)
    ultimately show ?case by simp
  qed simp
  have e: "pfn_node ms' f = pfn_node ms f" unfolding pfn_node_def by (rule from_eq [OF len sh(1)])
  have "n < length (ms_nodes ms)" if "pfn_node ms f = Some n" for n
  proof -
    have "pfn_node_from ns i f = Some n \<Longrightarrow> n < i + length ns" for ns i
    proof (induction ns arbitrary: i)
      case (Cons a ns)
      then show ?case using Cons.IH [of "i + 1"] by (auto split: if_splits)
    qed simp
    then show ?thesis using that by (fastforce simp: pfn_node_def)
  qed
  then show ?thesis using sh(2) by (auto simp: pfn2page_def e split: option.splits)
qed

lemma same_frame_no:
  assumes "same_frame ms ms'" and "valid_page ms p"
  shows "frame_no ms' p = frame_no ms p"
  using assms by (auto simp: same_frame_def same_shape_def valid_page_def)

lemma upd_vm_mem_simps [simp]:
  "vm_pt (upd_vm_mem f v) = vm_pt v" "vm_mem (upd_vm_mem f v) = f (vm_mem v)" "vm_kmap (upd_vm_mem f v) = vm_kmap v" "vm_cr3 (upd_vm_mem f v) = vm_cr3 v"
  "vm_kmem (upd_vm_mem f v) = (vm_kmem v)\<lparr>k_mem := f (vm_mem v)\<rparr>"
  by (simp_all add: upd_vm_mem_def upd_mem_def)

lemma set_pte_simps [simp]:
  "vm_kmem (set_pte t i e v) = vm_kmem v" "vm_pt (set_pte t i e v) = (vm_pt v)(t := (vm_pt v t)(i := e))"
  "vm_kmap (set_pte t i e v) = vm_kmap v" "vm_cr3 (set_pte t i e v) = vm_cr3 v"
  by (simp_all add: set_pte_def)

lemma tables_set_pte [simp]: "tables P K live (set_pte t i e v) H = tables P K live v H" "table_count (set_pte t i e v) = table_count v"
  by (simp add: tables_def) (rule ext, simp add: table_count_def refcount_def split: option.splits)

text \<open>The three writes to descriptors and their effect on the other tables.\<close>

lemma set_refcount_ok:
  fixes u :: u64
  assumes "tables P K live v H" and "f \<in> H" and "pfn2page (vm_mem v) f = Some p"
  defines "v' \<equiv> set_refcount p u v"
  shows "tables P K live v' H" "vm_pt v' = vm_pt v" "pfn2page (vm_mem v') g = pfn2page (vm_mem v) g"
    "g \<in> H \<Longrightarrow> table_count v' g = (if g = f then u else table_count v g)" "refcount p v' = u"
proof -
  obtain T where T: "kmem_inv (P \<union> (\<lambda>p. (p, 0)) ` T) (vm_kmem v) K live" "P \<inter> (\<lambda>p. (p, 0)) ` T = {}" "H = frame_no (vm_mem v) ` T"
    "\<forall>p \<in> T. valid_page (vm_mem v) p" "\<forall>p \<in> T. pfn2page (vm_mem v) (frame_no (vm_mem v) p) = Some p"
    by (rule tablesE [OF assms(1)])
  have p: "p \<in> T" "f = frame_no (vm_mem v) p" using assms(2,3) T(3,5) by auto
  then have mem: "(p, 0) \<in> P \<union> (\<lambda>p. (p, 0)) ` T" by simp
  let ?ms = "node_upd (fst p) (page_upd (snd p) (\<lambda>x. x\<lparr>pg_u := u\<rparr>) (ms_nodes (vm_mem v) ! fst p)) (vm_mem v)"
  note h = heap_set_u [OF T(1) mem refl, where u = u]
  have v': "vm_kmem v' = (vm_kmem v)\<lparr>k_mem := ?ms\<rparr>" "vm_pt v' = vm_pt v" by (simp_all add: v'_def set_refcount_def)
  show "vm_pt v' = vm_pt v" by (rule v'(2))
  show pf: "pfn2page (vm_mem v') g = pfn2page (vm_mem v) g" for g using pfn2page_frame [OF h(2)] by (simp add: v')
  have "H = frame_no (vm_mem v') ` T" unfolding T(3) using same_frame_no [OF h(2) T(4) [rule_format]] by (intro image_cong) (simp_all add: v')
  then show "tables P K live v' H" using h(1) T(2) by (auto simp: tables_def v')
  show "refcount p v' = u" using h(3) by (simp add: refcount_def v')
  show "table_count v' g = (if g = f then u else table_count v g)" if gH: "g \<in> H"
  proof -
    obtain q where q: "q \<in> T" "g = frame_no (vm_mem v) q" using gH T(3) by blast
    have "g = f \<longleftrightarrow> q = p" using T(5) [rule_format, OF q(1)] T(5) [rule_format, OF p(1)] p(2) q(2) by (metis option.inject)
    then show ?thesis using h(3) h(4) [of q] T(5) [rule_format, OF q(1)] q(2) pf [of g] by (auto simp: table_count_def refcount_def v')
  qed
qed

lemma free_page_table_ok:
  assumes "tables P K live v H" and "f \<in> H" and "pfn2page (vm_mem v) f = Some p"
  defines "v' \<equiv> free_page_table p v"
  shows "tables P K live v' (H - {f})" "vm_pt v' = vm_pt v" "pfn2page (vm_mem v') g = pfn2page (vm_mem v) g"
    "g \<in> H - {f} \<Longrightarrow> table_count v' g = table_count v g"
proof -
  obtain T where T: "kmem_inv (P \<union> (\<lambda>p. (p, 0)) ` T) (vm_kmem v) K live" "P \<inter> (\<lambda>p. (p, 0)) ` T = {}" "H = frame_no (vm_mem v) ` T"
    "\<forall>p \<in> T. valid_page (vm_mem v) p" "\<forall>p \<in> T. pfn2page (vm_mem v) (frame_no (vm_mem v) p) = Some p"
    by (rule tablesE [OF assms(1)])
  have p: "p \<in> T" "f = frame_no (vm_mem v) p" using assms(2,3) T(3,5) by auto
  then have mem: "(p, 0) \<in> P \<union> (\<lambda>p. (p, 0)) ` T" by simp
  note h = heap_free_pages_ok(1) [OF T(1) mem] and fr = heap_free_pages_frame [OF T(1) mem]
  have v': "vm_kmem v' = heap_free_pages (Some p) 0 (vm_kmem v)" "vm_pt v' = vm_pt v"
    by (simp_all add: v'_def free_page_table_def heap_free_pages_def upd_vm_mem_def)
  show "vm_pt v' = vm_pt v" by (rule v'(2))
  show pf: "pfn2page (vm_mem v') g = pfn2page (vm_mem v) g" for g using pfn2page_frame [OF fr(1)] by (simp add: v')
  have inj: "frame_no (vm_mem v) q = f \<longleftrightarrow> q = p" if "q \<in> T" for q
    using T(5) [rule_format, OF that] T(5) [rule_format, OF p(1)] p(2) by (metis option.inject)
  have "frame_no (vm_mem v') ` (T - {p}) = frame_no (vm_mem v) ` (T - {p})"
    using same_frame_no [OF fr(1) T(4) [rule_format]] by (intro image_cong) (simp_all add: v')
  moreover have "H - {f} = frame_no (vm_mem v) ` (T - {p})"
  proof (intro set_eqI iffI)
    fix g assume "g \<in> H - {f}"
    then show "g \<in> frame_no (vm_mem v) ` (T - {p})" using p(2) by (auto simp: T(3))
  next
    fix g assume "g \<in> frame_no (vm_mem v) ` (T - {p})"
    then obtain q where "q \<in> T" "q \<noteq> p" "g = frame_no (vm_mem v) q" by blast
    then show "g \<in> H - {f}" using inj [of q] by (auto simp: T(3))
  qed
  ultimately have "H - {f} = frame_no (vm_mem v') ` (T - {p})" by simp
  moreover have "P \<union> (\<lambda>p. (p, 0)) ` T - {(p, 0)} = P \<union> (\<lambda>p. (p, 0)) ` (T - {p})" using T(2) p(1) by auto
  ultimately show "tables P K live v' (H - {f})" unfolding tables_def v'(1) using h T(2)
    by (intro exI [of _ "T - {p}"]) (auto simp: v')
  show "table_count v' g = table_count v g" if gH: "g \<in> H - {f}"
  proof -
    obtain q where q: "q \<in> T" "g = frame_no (vm_mem v) q" using gH T(3) by blast
    then have "(q, 0::nat) \<noteq> (p, 0)" using gH inj by auto
    then show ?thesis using fr(2) [of q] T(5) [rule_format, OF q(1)] q pf [of g] by (simp add: table_count_def refcount_def v')
  qed
qed

lemma alloc_page_table_ok:
  assumes "tables P K live v H" and "flags AND PTE_LOW = 0"
  shows "\<exists>r v'. alloc_page_table flags v = Some (r, v') \<and>
    (case r of None \<Rightarrow> v' = v \<and> out_of_pages (vm_mem v)
     | Some p \<Rightarrow> (\<exists>f. f \<notin> H \<and> tables P K live v' (insert f H) \<and> pfn2page (vm_mem v') f = Some p \<and> page2pfn (vm_mem v') p = f \<and>
         vm_pt v' = (vm_pt v)(f := (\<lambda>_. 0)) \<and> table_count v' f = 0 \<and> (\<forall>g \<in> H. table_count v' g = table_count v g)) \<and>
         (\<forall>g. pfn2page (vm_mem v') g = pfn2page (vm_mem v) g))"
proof -
  obtain T where T: "kmem_inv (P \<union> (\<lambda>p. (p, 0)) ` T) (vm_kmem v) K live" "P \<inter> (\<lambda>p. (p, 0)) ` T = {}" "H = frame_no (vm_mem v) ` T"
    "\<forall>p \<in> T. valid_page (vm_mem v) p" "\<forall>p \<in> T. pfn2page (vm_mem v) (frame_no (vm_mem v) p) = Some p"
    by (rule tablesE [OF assms(1)])
  have k: "0 < BUDDY_ORDERS" by (simp add: BUDDY_ORDERS_def)
  obtain r st' where a: "heap_alloc_pages 0 (vm_kmem v) = Some (r, st')"
    "case r of None \<Rightarrow> st' = vm_kmem v \<and> out_of_pages (vm_mem v)
     | Some p \<Rightarrow> (p, 0) \<notin> P \<union> (\<lambda>p. (p, 0)) ` T \<and> kmem_inv (insert (p, 0) (P \<union> (\<lambda>p. (p, 0)) ` T)) st' K live"
    using heap_alloc_pages_ok [OF T(1) k] by (fastforce split: option.splits)
  note fr = heap_alloc_pages_frame [OF T(1) k a(1)]
  have al: "alloc_pages 0 (vm_mem v) = Some (r, k_mem st')" "st' = (vm_kmem v)\<lparr>k_mem := k_mem st'\<rparr>"
    using a(1) by (auto simp: heap_alloc_pages_def split: Option.bind_splits)
  let ?v1 = "upd_vm_mem (\<lambda>_. k_mem st') v"
  have v1: "vm_kmem ?v1 = st'" using al(2) by simp
  show ?thesis
  proof (cases r)
    case None
    then have "?v1 = v" using a(2) by (simp add: upd_vm_mem_def upd_mem_def)
    then show ?thesis using None al(1) a(2) assms(2) by (simp add: alloc_page_table_def)
  next
    case (Some p)
    define f where "f = frame_no (k_mem st') p"
    let ?v2 = "?v1\<lparr>vm_pt := (vm_pt ?v1)(page2pfn (vm_mem ?v1) p := (\<lambda>_. 0))\<rparr>"
    have new: "(p, 0) \<notin> P" "p \<notin> T" and inv: "kmem_inv (P \<union> (\<lambda>p. (p, 0)) ` insert p T) st' K live" using a(2) Some by auto
    have "(p, 0) \<in> P \<union> (\<lambda>p. (p, 0)) ` insert p T" by simp
    note hp = held_page [OF inv this]
    have fT: "frame_no (k_mem st') q = frame_no (vm_mem v) q" if "q \<in> T" for q using same_frame_no [OF fr(1) T(4) [rule_format, OF that]] .
    have pf: "pfn2page (k_mem st') g = pfn2page (vm_mem v) g" for g by (rule pfn2page_frame [OF fr(1)])
    have fH: "f \<notin> H" using hp(3) pf T(3,5) new(2) by (auto simp: f_def)
    have H1: "insert f H = frame_no (k_mem st') ` insert p T" unfolding T(3) using fT by (auto simp: f_def image_iff)
    have v2: "vm_kmem ?v2 = st'" using v1 by simp
    have t2: "tables P K live ?v2 (insert f H)" unfolding tables_def v2 using inv H1 T(2) new(1)
      by (intro exI [of _ "insert p T"]) auto
    have cnt: "table_count ?v2 g = table_count v g" if gH: "g \<in> H" for g
    proof -
      obtain q where q: "q \<in> T" "g = frame_no (vm_mem v) q" using gH T(3) by blast
      then show ?thesis using fr(2) [of q] T(5) [rule_format, OF q(1)] pf [of g] by (simp add: table_count_def refcount_def)
    qed
    have p2: "pfn2page (vm_mem ?v2) f = Some p" using hp(3) by (simp add: f_def)
    note sr = set_refcount_ok [OF t2 insertI1 p2, where u = 0]
    let ?v3 = "set_refcount p 0 ?v2"
    have pt: "vm_pt ?v3 = (vm_pt v)(f := (\<lambda>_. 0))" using sr(2) hp(2) by (simp add: f_def)
    have call: "alloc_page_table flags v = Some (Some p, ?v3)" using al(1) Some assms(2) by (simp add: alloc_page_table_def Let_def)
    obtain p' where "pfn2page (vm_mem ?v3) f = Some p'" "page2pfn (vm_mem ?v3) p' = f" using table_page [OF sr(1), of f] by blast
    moreover have pf3: "pfn2page (vm_mem ?v3) g = pfn2page (vm_mem v) g" for g using sr(3) [where g = g] pf by simp
    ultimately have "page2pfn (vm_mem ?v3) p = f" "pfn2page (vm_mem ?v3) f = Some p" using p2 sr(3) [where g = f] by auto
    moreover have "table_count ?v3 g = table_count v g" if "g \<in> H" for g using sr(4) [where g = g] cnt [OF that] that fH by auto
    moreover have "table_count ?v3 f = 0" using sr(4) [where g = f] by simp
    ultimately show ?thesis using call Some fH sr(1) pt pf3 by auto
  qed
qed

section \<open>The tree of tables\<close>

text \<open>
  A slot that covers \<open>512 ^ k\<close> pages from \<open>b\<close> on, with its entry \<open>e\<close> and the frames \<open>X\<close> of the tables below it: without
  mapped pages it is empty, otherwise it points to a table that counts them.
\<close>

definition pt_slot :: "(nat \<Rightarrow> nat \<Rightarrow> nat set \<Rightarrow> bool) \<Rightarrow> nat \<Rightarrow> (nat \<Rightarrow> u64) \<Rightarrow> (nat \<rightharpoonup> pte_t) \<Rightarrow> pte_t \<Rightarrow> nat \<Rightarrow> nat set \<Rightarrow> bool" where
  "pt_slot sub k cnt M e b X \<longleftrightarrow>
     (if dom M \<inter> {b..<b + 512 ^ k} = {} then \<not> pte_present e \<and> X = {}
      else pte_present e \<and> \<not> pte_large e \<and>
        (\<exists>Y. X = insert (frame_of (pte_phys e)) Y \<and> frame_of (pte_phys e) \<notin> Y \<and>
           cnt (frame_of (pte_phys e)) = of_nat (card (dom M \<inter> {b..<b + 512 ^ k})) \<and> sub (frame_of (pte_phys e)) b Y))"

text \<open>The slots \<open>I\<close> of a table.\<close>

definition pt_slots ::
  "nat set \<Rightarrow> (nat \<Rightarrow> nat \<Rightarrow> nat set \<Rightarrow> bool) \<Rightarrow> nat \<Rightarrow> (nat \<Rightarrow> nat \<Rightarrow> pte_t) \<Rightarrow> (nat \<Rightarrow> u64) \<Rightarrow> (nat \<rightharpoonup> pte_t) \<Rightarrow> nat \<Rightarrow> nat \<Rightarrow> nat set \<Rightarrow> bool" where
  "pt_slots I sub k pt cnt M t b X \<longleftrightarrow>
     (\<exists>own. X = (\<Union>i \<in> I. own i) \<and> t \<notin> X \<and> (\<forall>i \<in> I. \<forall>j \<in> I. i \<noteq> j \<longrightarrow> own i \<inter> own j = {}) \<and>
        (\<forall>i \<in> I. pt_slot sub k cnt M (pt t i) (b + i * 512 ^ k) (own i)))"

fun pt_tree :: "nat \<Rightarrow> (nat \<Rightarrow> nat \<Rightarrow> pte_t) \<Rightarrow> (nat \<Rightarrow> u64) \<Rightarrow> (nat \<rightharpoonup> pte_t) \<Rightarrow> nat \<Rightarrow> nat \<Rightarrow> nat set \<Rightarrow> bool" where
  "pt_tree 0 pt cnt M t b X \<longleftrightarrow> X = {} \<and> (\<forall>i < 512. pt t i = (case M (b + i) of None \<Rightarrow> 0 | Some e \<Rightarrow> e))"
| "pt_tree (Suc l) pt cnt M t b X \<longleftrightarrow> pt_slots {..<512} (\<lambda>f b X. pt_tree l pt cnt M f b X) (Suc l) pt cnt M t b X"

lemma pt_slotsE:
  assumes "pt_slots I sub k pt cnt M t b X"
  obtains own where "X = (\<Union>i \<in> I. own i)" "t \<notin> X" "\<forall>i \<in> I. \<forall>j \<in> I. i \<noteq> j \<longrightarrow> own i \<inter> own j = {}"
    "\<forall>i \<in> I. pt_slot sub k cnt M (pt t i) (b + i * 512 ^ k) (own i)"
  using assms unfolding pt_slots_def by (elim exE conjE) (rule that)

lemma pt_slotsI:
  assumes "X = (\<Union>i \<in> I. own i)" and "t \<notin> X" and "\<forall>i \<in> I. \<forall>j \<in> I. i \<noteq> j \<longrightarrow> own i \<inter> own j = {}"
    and "\<forall>i \<in> I. pt_slot sub k cnt M (pt t i) (b + i * 512 ^ k) (own i)"
  shows "pt_slots I sub k pt cnt M t b X"
  unfolding pt_slots_def by (rule exI [of _ own], intro conjI, (rule assms)+)

lemma pt_slots_insert:
  assumes "j \<notin> I"
  shows "pt_slots (insert j I) sub k pt cnt M t b X \<longleftrightarrow>
    (\<exists>X1 X2. X = X1 \<union> X2 \<and> X1 \<inter> X2 = {} \<and> t \<notin> X1 \<and> pt_slot sub k cnt M (pt t j) (b + j * 512 ^ k) X1 \<and> pt_slots I sub k pt cnt M t b X2)"
proof
  assume "pt_slots (insert j I) sub k pt cnt M t b X"
  then obtain own where own: "X = (\<Union>i \<in> insert j I. own i)" "t \<notin> X" "\<forall>i \<in> insert j I. \<forall>j \<in> insert j I. i \<noteq> j \<longrightarrow> own i \<inter> own j = {}"
    "\<forall>i \<in> insert j I. pt_slot sub k cnt M (pt t i) (b + i * 512 ^ k) (own i)" by (rule pt_slotsE)
  have "own j \<inter> own i = {}" if "i \<in> I" for i using own(3) that assms by (metis insertI1 insertI2)
  then have "own j \<inter> (\<Union>i \<in> I. own i) = {}" by blast
  moreover have "pt_slots I sub k pt cnt M t b (\<Union>i \<in> I. own i)"
    by (rule pt_slotsI [OF refl]) (use own in \<open>simp_all del: fun_upd_apply\<close>)
  ultimately show "\<exists>X1 X2. X = X1 \<union> X2 \<and> X1 \<inter> X2 = {} \<and> t \<notin> X1 \<and> pt_slot sub k cnt M (pt t j) (b + j * 512 ^ k) X1 \<and> pt_slots I sub k pt cnt M t b X2"
    using own(1,2,4) by (intro exI [of _ "own j"] exI [of _ "\<Union>i \<in> I. own i"]) auto
next
  assume "\<exists>X1 X2. X = X1 \<union> X2 \<and> X1 \<inter> X2 = {} \<and> t \<notin> X1 \<and> pt_slot sub k cnt M (pt t j) (b + j * 512 ^ k) X1 \<and> pt_slots I sub k pt cnt M t b X2"
  then obtain X1 X2 where x: "X = X1 \<union> X2" "X1 \<inter> X2 = {}" "t \<notin> X1" "pt_slot sub k cnt M (pt t j) (b + j * 512 ^ k) X1" "pt_slots I sub k pt cnt M t b X2"
    by (elim exE conjE) (rule that)
  from x(5) obtain own where o: "X2 = (\<Union>i \<in> I. own i)" "t \<notin> X2" "\<forall>i \<in> I. \<forall>j \<in> I. i \<noteq> j \<longrightarrow> own i \<inter> own j = {}"
    "\<forall>i \<in> I. pt_slot sub k cnt M (pt t i) (b + i * 512 ^ k) (own i)" by (rule pt_slotsE)
  then have *: "X = X1 \<union> (\<Union>i \<in> I. own i)" "X1 \<inter> (\<Union>i \<in> I. own i) = {}" "t \<notin> X1" "pt_slot sub k cnt M (pt t j) (b + j * 512 ^ k) X1"
    "t \<notin> (\<Union>i \<in> I. own i)" "\<forall>i \<in> I. \<forall>j \<in> I. i \<noteq> j \<longrightarrow> own i \<inter> own j = {}" "\<forall>i \<in> I. pt_slot sub k cnt M (pt t i) (b + i * 512 ^ k) (own i)"
    using x by simp_all
  define own' where "own' = own(j := X1)"
  have e: "own' i = own i" if "i \<in> I" for i using that assms by (auto simp: own'_def)
  have j: "own' j = X1" by (simp add: own'_def)
  have "(\<Union>i \<in> I. own' i) = (\<Union>i \<in> I. own i)" by (rule SUP_cong [OF refl]) (rule e)
  then have 1: "X = (\<Union>i \<in> insert j I. own' i)" using *(1) j by simp
  have 2: "own' i \<inter> own' i' = {}" if "i \<in> insert j I" "i' \<in> insert j I" "i \<noteq> i'" for i i'
  proof (cases "i = j \<or> i' = j")
    case True
    then show ?thesis using *(2) that e j by auto
  next
    case False
    then show ?thesis using *(6) that e by simp
  qed
  have 3: "\<forall>i \<in> insert j I. pt_slot sub k cnt M (pt t i) (b + i * 512 ^ k) (own' i)" using *(4,7) e j by simp
  show "pt_slots (insert j I) sub k pt cnt M t b X"
  proof (rule pt_slotsI [OF 1])
    show "t \<notin> X" using *(1,3,5) by blast
    show "\<forall>i \<in> insert j I. \<forall>j \<in> insert j I. i \<noteq> j \<longrightarrow> own' i \<inter> own' j = {}" using 2 by blast
  qed (rule 3)
qed

text \<open>A tree reads its own frames and the part of the map it covers.\<close>

lemma pt_slot_cong:
  assumes "pt_slot sub k cnt M e b X" and "\<And>g. g \<in> X \<Longrightarrow> cnt' g = cnt g" and "\<And>n. n \<in> {b..<b + 512 ^ k} \<Longrightarrow> M' n = M n"
    and "\<And>f Y. insert f Y \<subseteq> X \<Longrightarrow> sub f b Y \<Longrightarrow> sub' f b Y"
  shows "pt_slot sub' k cnt' M' e b X"
proof -
  have "dom M' \<inter> {b..<b + 512 ^ k} = dom M \<inter> {b..<b + 512 ^ k}" using assms(3) by (auto simp: dom_def)
  note e = this
  show ?thesis
  proof (cases "dom M \<inter> {b..<b + 512 ^ k} = {}")
    case True
    then show ?thesis using assms(1) by (simp add: pt_slot_def e)
  next
    case False
    let ?f = "frame_of (pte_phys e)"
    obtain Y where Y: "pte_present e" "\<not> pte_large e" "X = insert ?f Y" "?f \<notin> Y" "cnt ?f = of_nat (card (dom M \<inter> {b..<b + 512 ^ k}))" "sub ?f b Y"
      using assms(1) False unfolding pt_slot_def by auto
    have "cnt' ?f = cnt ?f" "sub' ?f b Y" using assms(2) [of ?f] assms(4) [of ?f Y] Y by auto
    then show ?thesis using Y False unfolding pt_slot_def e by auto
  qed
qed

lemma pt_slots_cong:
  assumes "pt_slots I sub k pt cnt M t b X" and "\<And>i. i \<in> I \<Longrightarrow> pt' t i = pt t i" and "\<And>g. g \<in> X \<Longrightarrow> cnt' g = cnt g"
    and "\<And>i n. i \<in> I \<Longrightarrow> n \<in> {b + i * 512 ^ k..<b + i * 512 ^ k + 512 ^ k} \<Longrightarrow> M' n = M n"
    and "\<And>f i Y. i \<in> I \<Longrightarrow> insert f Y \<subseteq> X \<Longrightarrow> sub f (b + i * 512 ^ k) Y \<Longrightarrow> sub' f (b + i * 512 ^ k) Y"
  shows "pt_slots I sub' k pt' cnt' M' t b X"
proof -
  obtain own where own: "X = (\<Union>i \<in> I. own i)" "t \<notin> X" "\<forall>i \<in> I. \<forall>j \<in> I. i \<noteq> j \<longrightarrow> own i \<inter> own j = {}"
    "\<forall>i \<in> I. pt_slot sub k cnt M (pt t i) (b + i * 512 ^ k) (own i)" using assms(1) by (rule pt_slotsE)
  have "pt_slot sub' k cnt' M' (pt' t i) (b + i * 512 ^ k) (own i)" if i: "i \<in> I" for i
    unfolding assms(2) [OF i]
  proof (rule pt_slot_cong [OF own(4) [rule_format, OF i]])
    fix f Y assume "insert f Y \<subseteq> own i" "sub f (b + i * 512 ^ k) Y"
    then show "sub' f (b + i * 512 ^ k) Y" using i own(1) by (intro assms(5) [OF i]) auto
  qed (use i own(1) in \<open>auto intro: assms(3) assms(4) [OF i]\<close>)
  then show ?thesis by (intro pt_slotsI [OF own(1-3)]) blast
qed

lemma slot_region:
  fixes i :: nat
  assumes "i < 512"
  shows "{b + i * 512 ^ k..<b + i * 512 ^ k + 512 ^ k} \<subseteq> {b..<b + 512 ^ Suc k}"
proof -
  have "(i + 1) * 512 ^ k \<le> 512 * 512 ^ k" using assms by (intro mult_le_mono1) simp
  then show ?thesis by (auto simp: algebra_simps)
qed

lemma pt_tree_cong:
  assumes "pt_tree l pt cnt M t b X" and "\<And>g. g \<in> insert t X \<Longrightarrow> pt' g = pt g" and "\<And>g. g \<in> X \<Longrightarrow> cnt' g = cnt g"
    and "\<And>n. n \<in> {b..<b + 512 ^ Suc l} \<Longrightarrow> M' n = M n"
  shows "pt_tree l pt' cnt' M' t b X"
  using assms
proof (induction l arbitrary: t b X)
  case 0
  then show ?case by simp
next
  case (Suc l)
  have "pt_slots {..<512} (\<lambda>f b X. pt_tree l pt' cnt' M' f b X) (Suc l) pt' cnt' M' t b X"
  proof (rule pt_slots_cong [OF Suc.prems(1) [unfolded pt_tree.simps]])
    fix i n assume "i \<in> {..<512::nat}" "n \<in> {b + i * 512 ^ Suc l..<b + i * 512 ^ Suc l + 512 ^ Suc l}"
    then show "M' n = M n" by (intro Suc.prems(4) subsetD [OF slot_region [of i b "Suc l"]]) simp_all
  next
    fix f i Y assume i: "i \<in> {..<512::nat}" "insert f Y \<subseteq> X" "pt_tree l pt cnt M f (b + i * 512 ^ Suc l) Y"
    show "pt_tree l pt' cnt' M' f (b + i * 512 ^ Suc l) Y"
    proof (rule Suc.IH [OF i(3)])
      fix n assume "n \<in> {b + i * 512 ^ Suc l..<b + i * 512 ^ Suc l + 512 ^ Suc l}"
      then show "M' n = M n" using i(1) by (intro Suc.prems(4) subsetD [OF slot_region [of i b "Suc l"]]) simp_all
    qed (use i(2) Suc.prems(2,3) in auto)
  qed (use Suc.prems(2,3) in simp_all)
  then show ?case by simp
qed

lemma pt_tree_notin: "pt_tree l pt cnt M t b X \<Longrightarrow> t \<notin> X"
  by (cases l) (auto simp: pt_slots_def)

lemma pt_tree_empty:
  assumes "pt_tree l pt cnt M t b X" and "dom M \<inter> {b..<b + 512 ^ Suc l} = {}"
  shows "X = {}"
proof (cases l)
  case 0
  then show ?thesis using assms(1) by simp
next
  case (Suc l')
  have "pt_slots {..<512} (\<lambda>f b X. pt_tree l' pt cnt M f b X) l pt cnt M t b X" using assms(1) unfolding Suc pt_tree.simps .
  then obtain own where own: "X = (\<Union>i < 512. own i)" "\<forall>i \<in> {..<512}. pt_slot (\<lambda>f b X. pt_tree l' pt cnt M f b X) l cnt M (pt t i) (b + i * 512 ^ l) (own i)"
    by (rule pt_slotsE)
  have "own i = {}" if "i < 512" for i
  proof -
    have "dom M \<inter> {b + i * 512 ^ l..<b + i * 512 ^ l + 512 ^ l} = {}" using slot_region [OF that, of b l] assms(2) by blast
    then show ?thesis using own(2) [rule_format, of i] that unfolding pt_slot_def by (simp only: if_True lessThan_iff)
  qed
  then show ?thesis using own(1) by auto
qed

lemma pt_tree_new:
  assumes "\<And>i. pt t i = 0" and "dom M \<inter> {b..<b + 512 ^ Suc l} = {}"
  shows "pt_tree l pt cnt M t b {}"
proof (cases l)
  case 0
  have "M (b + i) = None" if "i < 512" for i using assms(2) that by (auto simp: 0 dom_def)
  then show ?thesis using assms(1) 0 by simp
next
  case (Suc l')
  have "dom M \<inter> {b + i * 512 ^ l..<b + i * 512 ^ l + 512 ^ l} = {}" if "i < 512" for i
    using slot_region [OF that, of b l] assms(2) by blast
  then show ?thesis using assms(1) unfolding Suc pt_tree.simps pt_slots_def pt_slot_def
    by (intro exI [of _ "\<lambda>_. {}"]) (auto simp: Suc)
qed

section \<open>Contracts of the levels\<close>

text \<open>What an operation on the tables \<open>X\<close> below \<open>t\<close> leaves alone; \<open>I\<close> are the entries of \<open>t\<close> it may write.\<close>

definition framed :: "(page_ptr \<times> nat) set \<Rightarrow> nat set \<Rightarrow> (nat \<Rightarrow> nat set) \<Rightarrow> vm \<Rightarrow> nat set \<Rightarrow> nat \<Rightarrow> nat set \<Rightarrow> nat set \<Rightarrow> vm \<Rightarrow> nat set \<Rightarrow> bool" where
  "framed P K live v H t I X v' X' \<longleftrightarrow> tables P K live v' (H - X \<union> X') \<and> X' \<inter> (H - X) = {} \<and>
     (\<forall>g \<in> H - X - {t}. vm_pt v' g = vm_pt v g) \<and> (\<forall>i. i \<notin> I \<longrightarrow> vm_pt v' t i = vm_pt v t i) \<and>
     (\<forall>g \<in> H - X. table_count v' g = table_count v g) \<and> pfn2page (vm_mem v') = pfn2page (vm_mem v)"

lemma framed_refl: "tables P K live v H \<Longrightarrow> X \<subseteq> H \<Longrightarrow> framed P K live v H t I X v X"
  by (auto simp: framed_def Un_absorb2)

lemma framed_same:
  assumes "tables P K live v' H" and "X \<subseteq> H" and "vm_pt v' = vm_pt v" and "\<And>g. g \<in> H - X \<Longrightarrow> table_count v' g = table_count v g"
    and "pfn2page (vm_mem v') = pfn2page (vm_mem v)"
  shows "framed P K live v H t I X v' X"
proof -
  have "H - X \<union> X = H" using assms(2) by blast
  then show ?thesis using assms unfolding framed_def by auto
qed

lemma framed_trans:
  assumes "framed P K live v H t I X v1 X1" and "framed P K live v1 (H - X \<union> X1) t I X1 v2 X2" and "X \<subseteq> H"
  shows "framed P K live v H t I X v2 X2"
proof -
  have e: "H - X \<union> X1 - X1 = H - X" using assms(1) by (auto simp: framed_def)
  show ?thesis using assms(1,2) unfolding framed_def e by auto
qed

definition range_ok :: "nat \<Rightarrow> nat \<Rightarrow> nat \<Rightarrow> nat \<Rightarrow> bool" where
  "range_ok l b n m \<longleftrightarrow> 512 ^ Suc l dvd b \<and> b \<le> n \<and> n \<le> m \<and> m \<le> b + 512 ^ Suc l \<and> b + 512 ^ Suc l \<le> 2 ^ 36"

definition zeros :: "nat \<Rightarrow> nat \<Rightarrow> nat \<rightharpoonup> pte_t" where
  "zeros n m = (\<lambda>x. if n \<le> x \<and> x < m then Some 0 else None)"

definition rel_spec :: "nat \<Rightarrow> (nat \<Rightarrow> u64 \<Rightarrow> u64 \<Rightarrow> vm \<Rightarrow> vm option) \<Rightarrow> bool" where
  "rel_spec l rel \<longleftrightarrow> (\<forall>P K live v H t b X M n m. tables P K live v H \<longrightarrow> pt_tree l (vm_pt v) (table_count v) M t b X \<longrightarrow> insert t X \<subseteq> H \<longrightarrow>
     range_ok l b n m \<longrightarrow> (\<forall>x \<in> {n..<m}. M x = Some 0) \<longrightarrow>
     (\<exists>v' X'. rel t (vaddr_of n) (vaddr_of m) v = Some v' \<and> framed P K live v H t UNIV X v' X' \<and>
        pt_tree l (vm_pt v') (table_count v') (M |` (- {n..<m})) t b X'))"

definition pop_spec :: "nat \<Rightarrow> (nat \<Rightarrow> u64 \<Rightarrow> u64 \<Rightarrow> vm \<Rightarrow> (int \<times> vm) option) \<Rightarrow> bool" where
  "pop_spec l pop \<longleftrightarrow> (\<forall>P K live v H t b X M n m. tables P K live v H \<longrightarrow> pt_tree l (vm_pt v) (table_count v) M t b X \<longrightarrow> insert t X \<subseteq> H \<longrightarrow>
     range_ok l b n m \<longrightarrow> (\<forall>x \<in> {n..<m}. M x = None) \<longrightarrow>
     (\<exists>rc v' X'. pop t (vaddr_of n) (vaddr_of m) v = Some (rc, v') \<and> framed P K live v H t UNIV X v' X' \<and>
        (rc = 0 \<and> pt_tree l (vm_pt v') (table_count v') (M ++ zeros n m) t b X' \<or>
         rc = - ENOMEM \<and> pt_tree l (vm_pt v') (table_count v') M t b X')))"

lemma rel_spec_leaf: "rel_spec 0 (\<lambda>t n m v. Some v)"
  unfolding rel_spec_def by (fastforce simp: restrict_map_def intro: framed_refl split: option.splits)

lemma pop_spec_leaf: "pop_spec 0 (\<lambda>t n m v. Some (0, v))"
  unfolding pop_spec_def by (fastforce simp: map_add_def zeros_def intro: framed_refl split: option.splits)

section \<open>One slot\<close>

abbreviation mapped :: "(nat \<rightharpoonup> pte_t) \<Rightarrow> nat \<Rightarrow> nat \<Rightarrow> nat" where
  "mapped M k b \<equiv> card (dom M \<inter> {b..<b + 512 ^ k})"

abbreviation slot_ok :: "nat \<Rightarrow> vm \<Rightarrow> (nat \<rightharpoonup> pte_t) \<Rightarrow> nat \<Rightarrow> nat \<Rightarrow> nat \<Rightarrow> nat set \<Rightarrow> bool" where
  "slot_ok l v M t j b X \<equiv> pt_slot (\<lambda>f b X. pt_tree l (vm_pt v) (table_count v) M f b X) (Suc l) (table_count v) M (vm_pt v t j) b X"

lemma of_nat64_zero: "n < 2 ^ 64 \<Longrightarrow> (of_nat n :: u64) = 0 \<longleftrightarrow> n = 0"
  using unat_of_nat64 [of n] by auto

lemma mapped_zero: "mapped M k b = 0 \<longleftrightarrow> dom M \<inter> {b..<b + 512 ^ k} = {}"
  by (simp add: card_eq_0_iff)

lemma mapped_small: "k \<le> 3 \<Longrightarrow> mapped M k b \<le> 2 ^ 27"
proof -
  assume "k \<le> 3"
  have "mapped M k b \<le> card {b..<b + 512 ^ k}" by (rule card_mono) auto
  also have "\<dots> = 512 ^ k" by simp
  also have "\<dots> \<le> 512 ^ 3" by (rule power_increasing [OF \<open>k \<le> 3\<close>]) simp
  finally show ?thesis by simp
qed

lemma pt_slotI:
  assumes "pte_present e" "\<not> pte_large e" "frame_of (pte_phys e) = f" and "f \<notin> Y" and "cnt f = of_nat (mapped M k b)" and "mapped M k b \<noteq> 0" and "sub f b Y"
  shows "pt_slot sub k cnt M e b (insert f Y)"
proof -
  have "dom M \<inter> {b..<b + 512 ^ k} \<noteq> {}" using assms(6) unfolding mapped_zero .
  then show ?thesis unfolding pt_slot_def assms(3) by (subst if_not_P, assumption) (intro conjI exI [of _ Y] refl assms(1,2,4,5,7))
qed

lemma put_slot:
  assumes tb: "tables P K live v H" and ft: "f \<in> H" "t \<in> H" "f \<noteq> t" "pfn2page (vm_mem v) f = Some p"
    and e: "pte_present (vm_pt v t j)" "\<not> pte_large (vm_pt v t j)" "frame_of (pte_phys (vm_pt v t j)) = f"
    and tr: "pt_tree l (vm_pt v) (table_count v) M f b Y" "Y \<subseteq> H" "t \<notin> Y"
    and c: "table_count v f = of_nat (mapped M (Suc l) b + k)" "mapped M (Suc l) b + k < 2 ^ 64"
  defines "v' \<equiv> pt_put t j p (of_nat k) v"
  shows "\<exists>X. framed P K live v H t {j} (insert f Y) v' X \<and> t \<notin> X \<and> slot_ok l v' M t j b X"
proof -
  let ?c = "mapped M (Suc l) b" and ?v1 = "set_refcount p (refcount p v - of_nat k) v"
  have r: "refcount p v = of_nat (?c + k)" using c(1) ft(4) by (simp add: table_count_def)
  note sr = set_refcount_ok [OF tb ft(1,4), where u = "refcount p v - of_nat k"]
  have r1: "refcount p ?v1 = of_nat ?c" using sr(5) r by simp
  have pf: "pfn2page (vm_mem ?v1) = pfn2page (vm_mem v)" by (rule ext) (rule sr(3))
  have fY: "f \<notin> Y" by (rule pt_tree_notin [OF tr(1)])
  show ?thesis
  proof (cases "?c = 0")
    case True
    let ?v2 = "set_pte t j 0 ?v1"
    have v': "v' = free_page_table p ?v2" using True r1 by (simp add: v'_def pt_put_def Let_def)
    have em: "dom M \<inter> {b..<b + 512 ^ Suc l} = {}" using True by (simp add: mapped_zero)
    then have Y: "Y = {}" by (rule pt_tree_empty [OF tr(1)])
    have "tables P K live ?v2 H" "pfn2page (vm_mem ?v2) f = Some p" using sr(1) pf ft(4) by simp_all
    note fp = free_page_table_ok [OF this(1) ft(1) this(2), folded v']
    have pf': "pfn2page (vm_mem v') = pfn2page (vm_mem v)" using pf by (intro ext) (simp add: fp(3))
    have cnt: "table_count v' g = table_count v g" if "g \<in> H - {f}" for g
      using fp(4) [OF that] sr(4) [where g = g] that by simp
    have pt: "vm_pt v' = (vm_pt v)(t := (vm_pt v t)(j := 0))" using fp(2) sr(2) by simp
    have "framed P K live v H t {j} (insert f Y) v' {}" unfolding framed_def Y using fp(1) cnt pt pf' by auto
    moreover have "slot_ok l v' M t j b {}" unfolding pt_slot_def using em pt by simp
    ultimately show ?thesis by blast
  next
    case False
    then have v': "v' = ?v1" using r1 c(2) of_nat64_zero [of ?c] by (simp add: v'_def pt_put_def Let_def)
    have "framed P K live v H t {j} (insert f Y) v' (insert f Y)"
      unfolding v' by (rule framed_same [OF sr(1) _ sr(2) _ pf]) (use sr(4) ft(1) tr(2) in auto)
    moreover have "slot_ok l v' M t j b (insert f Y)"
    proof -
      have "pt_tree l (vm_pt v') (table_count v') M f b Y"
        by (rule pt_tree_cong [OF tr(1)]) (use sr(2,4) fY tr(2) in \<open>auto simp: v'\<close>)
      moreover have "table_count v' f = of_nat ?c" using sr(4) [where g = f] ft(1) r by (simp add: v')
      moreover have "vm_pt v' t j = vm_pt v t j" using sr(2) by (simp add: v')
      ultimately show ?thesis using False by (intro pt_slotI) (use e fY in \<open>simp_all only: not_False_eq_True\<close>)
    qed
    ultimately show ?thesis using ft(3) tr(3) by blast
  qed
qed

text \<open>A slot whose table is present and whose count already includes \<open>k\<close> pages that are not yet mapped.\<close>

definition opened :: "(page_ptr \<times> nat) set \<Rightarrow> nat set \<Rightarrow> (nat \<Rightarrow> nat set) \<Rightarrow> nat \<Rightarrow> (nat \<rightharpoonup> pte_t) \<Rightarrow> nat \<Rightarrow> nat \<Rightarrow> nat \<Rightarrow> nat \<Rightarrow> vm \<Rightarrow> nat set \<Rightarrow> page_ptr \<Rightarrow> nat \<Rightarrow> nat set \<Rightarrow> bool" where
  "opened P K live l M t j b k v H p f Y \<longleftrightarrow> tables P K live v H \<and> insert f Y \<subseteq> H \<and> t \<in> H - insert f Y \<and> f \<notin> Y \<and>
     pte_present (vm_pt v t j) \<and> \<not> pte_large (vm_pt v t j) \<and> frame_of (pte_phys (vm_pt v t j)) = f \<and>
     pfn2page (vm_mem v) f = Some p \<and> table_count v f = of_nat (mapped M (Suc l) b + k) \<and> pt_tree l (vm_pt v) (table_count v) M f b Y"

lemma open_present:
  assumes tb: "tables P K live v H" and sl: "slot_ok l v M t j b X" "pte_present (vm_pt v t j)" and X: "X \<subseteq> H" "t \<in> H - X"
  defines "f \<equiv> frame_of (pte_phys (vm_pt v t j))"
  shows "\<exists>p Y. \<not> pte_large (vm_pt v t j) \<and> pte_page (vm_pt v t j) v = Some p \<and> X = insert f Y \<and>
    table_count v f = of_nat (mapped M (Suc l) b) \<and> opened P K live l M t j b 0 v H p f Y \<and>
    framed P K live v H t {j} X (set_refcount p (refcount p v + of_nat k) v) X \<and>
    opened P K live l M t j b k (set_refcount p (refcount p v + of_nat k) v) H p f Y"
proof -
  obtain Y where Y: "\<not> pte_large (vm_pt v t j)" "X = insert f Y" "f \<notin> Y" "table_count v f = of_nat (mapped M (Suc l) b)"
    "pt_tree l (vm_pt v) (table_count v) M f b Y" using sl unfolding pt_slot_def f_def by (auto split: if_splits)
  have fH: "f \<in> H" using X(1) Y(2) by blast
  obtain p where p: "pfn2page (vm_mem v) f = Some p" "table_count v f = refcount p v" using table_page [OF tb fH] by metis
  let ?v = "set_refcount p (refcount p v + of_nat k) v"
  note sr = set_refcount_ok [OF tb fH p(1), where u = "refcount p v + of_nat k"]
  have pf: "pfn2page (vm_mem ?v) = pfn2page (vm_mem v)" by (rule ext) (rule sr(3))
  have "framed P K live v H t {j} X ?v X" by (rule framed_same [OF sr(1) X(1) sr(2) _ pf]) (use sr(4) Y(2) in auto)
  moreover have "pt_tree l (vm_pt ?v) (table_count ?v) M f b Y"
    by (rule pt_tree_cong [OF Y(5)]) (use sr(2,4) Y(2,3) X(1) in auto)
  then have "opened P K live l M t j b k ?v H p f Y"
    unfolding opened_def using sr(1,2) sr(4) [where g = f] fH X Y p sl(2) pf by (auto simp: f_def)
  moreover have "opened P K live l M t j b 0 v H p f Y" unfolding opened_def using tb fH X Y p sl(2) by (auto simp: f_def)
  moreover have "pte_page (vm_pt v t j) v = Some p" using p(1) by (simp add: pte_page_def f_def)
  ultimately show ?thesis using Y by (intro exI [of _ p] exI [of _ Y]) simp
qed

lemma open_new:
  fixes k :: nat
  assumes tb: "tables P K live v H" and sl: "slot_ok l v M t j b X" "\<not> pte_present (vm_pt v t j)" and t: "t \<in> H"
    and fl: "ok_flags flags" and al: "alloc_page_table flags v = Some (Some p, v1)"
  defines "v2 \<equiv> set_refcount p (refcount p v1 + of_nat k) (set_pte t j (page_paddr (vm_mem v1) p OR flags) v1)"
  shows "\<exists>f. f \<notin> H \<and> frame_of (page_paddr (vm_mem v1) p) = f \<and> framed P K live v H t {j} {} v2 {f} \<and>
    opened P K live l M t j b k v2 (insert f H) p f {} \<and> X = {}"
proof -
  have em: "dom M \<inter> {b..<b + 512 ^ Suc l} = {}" "X = {}" using sl unfolding pt_slot_def by (auto split: if_splits)
  have "flags AND PTE_LOW = 0" using fl by (simp add: ok_flags_def)
  from alloc_page_table_ok [OF tb this] al obtain f where f: "f \<notin> H" "tables P K live v1 (insert f H)" "pfn2page (vm_mem v1) f = Some p" "page2pfn (vm_mem v1) p = f"
    "vm_pt v1 = (vm_pt v)(f := (\<lambda>_. 0))" "table_count v1 f = 0" "\<forall>g \<in> H. table_count v1 g = table_count v g" "\<forall>g. pfn2page (vm_mem v1) g = pfn2page (vm_mem v) g"
    by auto
  obtain q where q: "pfn2page (vm_mem v1) f = Some q" "f < 2 ^ 24" "page_paddr (vm_mem v1) q = push_bit 12 (of_nat f)"
    using table_page [OF f(2) insertI1] by metis
  let ?e = "page_paddr (vm_mem v1) p OR flags" and ?v = "set_pte t j (page_paddr (vm_mem v1) p OR flags) v1"
  have pp: "page_paddr (vm_mem v1) p = push_bit 12 (of_nat f)" using q f(3) by simp
  have e: "pte_present ?e" "\<not> pte_large ?e" "frame_of (pte_phys ?e) = f" "frame_of (page_paddr (vm_mem v1) p) = f"
    unfolding pp using entry_flags [OF fl] frame_of_entry [OF q(2)] by simp_all
  have ne: "f \<noteq> t" using f(1) t by blast
  have tv: "tables P K live ?v (insert f H)" "pfn2page (vm_mem ?v) f = Some p" using f(2,3) by simp_all
  have rv: "refcount p v1 = 0" using f(3,6) by (simp add: table_count_def)
  note sr = set_refcount_ok [OF tv(1) insertI1 tv(2), where u = "refcount p v1 + of_nat k", folded v2_def]
  have pf: "pfn2page (vm_mem v2) = pfn2page (vm_mem v)" using f(8) by (intro ext) (simp add: sr(3))
  have pt: "vm_pt v2 = (vm_pt v)(f := (\<lambda>_. 0), t := (vm_pt v t)(j := ?e))" using sr(2) f(5) ne by (simp add: fun_upd_twist)
  have cnt: "table_count v2 g = table_count v g" if "g \<in> H" for g using sr(4) [where g = g] f(1,7) that by auto
  have cf: "table_count v2 f = of_nat k" using sr(4) [where g = f] rv by simp
  have "framed P K live v H t {j} {} v2 {f}" unfolding framed_def using sr(1) f(1) pt cnt pf by auto
  moreover have "pt_tree l (vm_pt v2) (table_count v2) M f b {}" by (rule pt_tree_new [OF _ em(1)]) (use pt ne in simp)
  then have "opened P K live l M t j b k v2 (insert f H) p f {}"
    unfolding opened_def using sr(1) t ne f(1,3) pt e cf em(1) pf f(8) by simp
  ultimately show ?thesis using f(1) e(4) em(2) by blast
qed

lemma mapped_add:
  assumes "\<forall>x \<in> {n..<n'}. M x = None" and "b \<le> n" "n \<le> n'" "n' \<le> b + 512 ^ k"
  shows "mapped (M ++ zeros n n') k b = mapped M k b + (n' - n)"
proof -
  have d: "dom (M ++ zeros n n') \<inter> {b..<b + 512 ^ k} = (dom M \<inter> {b..<b + 512 ^ k}) \<union> {n..<n'}"
    using assms by (auto simp: zeros_def split: if_splits)
  have "(dom M \<inter> {b..<b + 512 ^ k}) \<inter> {n..<n'} = {}" using assms(1) by auto
  then show ?thesis unfolding d by (subst card_Un_disjoint) auto
qed

lemma mapped_sub:
  assumes "\<forall>x \<in> {n..<n'}. M x = Some 0" and "b \<le> n" "n \<le> n'" "n' \<le> b + 512 ^ k"
  shows "mapped M k b = mapped (M |` (- {n..<n'})) k b + (n' - n)"
proof -
  have d: "dom M \<inter> {b..<b + 512 ^ k} = (dom (M |` (- {n..<n'})) \<inter> {b..<b + 512 ^ k}) \<union> {n..<n'}"
    using assms by auto
  show ?thesis unfolding d by (subst card_Un_disjoint) auto
qed

text \<open>The frames of a nested operation are frames of the slot.\<close>

lemma framed_nest:
  assumes f: "framed P K live v H f UNIV Y v' Y'" and H: "insert f Y \<subseteq> H" "f \<notin> Y" "t \<in> H - insert f Y"
  shows "framed P K live v H t {j} (insert f Y) v' (insert f Y')" "tables P K live v' (H - insert f Y \<union> insert f Y')" "t \<notin> insert f Y'"
    "vm_pt v' t = vm_pt v t" "table_count v' f = table_count v f" "pfn2page (vm_mem v') = pfn2page (vm_mem v)" "f \<notin> Y'"
proof -
  have e: "H - insert f Y \<union> insert f Y' = H - Y \<union> Y'" using H(1,2) by auto
  have d: "Y' \<inter> (H - Y) = {}" using f by (simp add: framed_def)
  show "tables P K live v' (H - insert f Y \<union> insert f Y')" unfolding e using f by (simp add: framed_def)
  show "t \<notin> insert f Y'" "f \<notin> Y'" using d H by auto
  show "vm_pt v' t = vm_pt v t" "table_count v' f = table_count v f" "pfn2page (vm_mem v') = pfn2page (vm_mem v)"
    using f H by (auto simp: framed_def)
  then show "framed P K live v H t {j} (insert f Y) v' (insert f Y')" using f d H unfolding framed_def e by auto
qed

lemma opened_put:
  assumes op: "opened P K live l M t j b k v H p f Y" and l: "l \<le> 2" "k \<le> 2 ^ 36"
    and fr: "framed P K live v H f UNIV Y v' Y'" and tr: "pt_tree l (vm_pt v') (table_count v') M' f b Y'"
    and c: "mapped M (Suc l) b + k = mapped M' (Suc l) b + k'"
  defines "v'' \<equiv> pt_put t j p (of_nat k') v'"
  shows "\<exists>X. framed P K live v H t {j} (insert f Y) v'' X \<and> t \<notin> X \<and> slot_ok l v'' M' t j b X"
proof -
  note o = op [unfolded opened_def]
  have H: "insert f Y \<subseteq> H" "f \<notin> Y" "t \<in> H - insert f Y" using o by auto
  note n = framed_nest [OF fr H]
  let ?H = "H - insert f Y \<union> insert f Y'"
  have small: "mapped M' (Suc l) b + k' < 2 ^ 64" using mapped_small [of "Suc l" M b] l c [symmetric] by simp
  have "\<exists>X. framed P K live v' ?H t {j} (insert f Y') v'' X \<and> t \<notin> X \<and> slot_ok l v'' M' t j b X"
    unfolding v''_def
  proof (rule put_slot [OF n(2) _ _ _ _ _ _ _ tr])
    show "table_count v' f = of_nat (mapped M' (Suc l) b + k')" unfolding n(5) c [symmetric] using o by blast
    show "pte_present (vm_pt v' t j)" "\<not> pte_large (vm_pt v' t j)" "frame_of (pte_phys (vm_pt v' t j)) = f" unfolding n(4) using o by blast+
    show "pfn2page (vm_mem v') f = Some p" unfolding n(6) using o by blast
  qed (use n(3) H small in auto)
  then obtain X where X: "framed P K live v' ?H t {j} (insert f Y') v'' X" "t \<notin> X" "slot_ok l v'' M' t j b X" by blast
  have "framed P K live v H t {j} (insert f Y) v'' X" by (rule framed_trans [OF n(1) X(1) H(1)])
  then show ?thesis using X(2,3) by blast
qed

lemma opened_close:
  assumes op: "opened P K live l M t j b k v H p f Y"
    and fr: "framed P K live v H f UNIV Y v' Y'" and tr: "pt_tree l (vm_pt v') (table_count v') M' f b Y'"
    and c: "mapped M (Suc l) b + k = mapped M' (Suc l) b" "0 < k"
  shows "framed P K live v H t {j} (insert f Y) v' (insert f Y') \<and> t \<notin> insert f Y' \<and> slot_ok l v' M' t j b (insert f Y')"
proof -
  note o = op [unfolded opened_def]
  have H: "insert f Y \<subseteq> H" "f \<notin> Y" "t \<in> H - insert f Y" using o by auto
  note n = framed_nest [OF fr H]
  have "slot_ok l v' M' t j b (insert f Y')"
  proof (rule pt_slotI)
    show "pte_present (vm_pt v' t j)" "\<not> pte_large (vm_pt v' t j)" "frame_of (pte_phys (vm_pt v' t j)) = f" unfolding n(4) using o by blast+
    show "table_count v' f = of_nat (mapped M' (Suc l) b)" unfolding n(5) c(1) [symmetric] using o by blast
    show "mapped M' (Suc l) b \<noteq> 0" using c by linarith
  qed (rule n(7), rule tr)
  then show ?thesis using n(1,3) by blast
qed

section \<open>Geometry\<close>

lemma slot_geometry:
  fixes N b n :: nat
  assumes "512 * N dvd b" and "b \<le> n" "n < b + 512 * N" and "0 < N"
  shows "n div N mod 512 = (n - b) div N" "(n - b) div N < 512" "b + (n - b) div N * N \<le> n" "n < b + (n - b) div N * N + N" "N dvd b"
    "n mod N = n - (b + (n - b) div N * N)"
proof -
  obtain q where q: "b = 512 * N * q" using assms(1) by blast
  have n: "n = (n - b) + b" using assms(2) by simp
  define r where "r = n - b"
  have "n = r + N * (512 * q)" using assms(2) q by (simp add: r_def)
  then have "n div N = (r + N * (512 * q)) div N" by (rule arg_cong)
  then have "n div N = (n - b) div N + 512 * q" using assms(4) by (simp add: r_def)
  moreover show lt: "(n - b) div N < 512" using assms(2-4) by (simp add: div_less_iff_less_mult)
  ultimately show "n div N mod 512 = (n - b) div N" by simp
  show "N dvd b" unfolding q by simp
  have r: "(n - b) div N * N \<le> n - b" "n - b < (n - b) div N * N + N" using nat_round_down [OF assms(4), of "n - b"] by auto
  show "b + (n - b) div N * N \<le> n" "n < b + (n - b) div N * N + N" using r assms(2) by linarith+
  have "n mod N = (n - b) mod N" using n \<open>N dvd b\<close> by (metis dvd_imp_mod_0 mod_add_right_eq add.right_neutral)
  then show "n mod N = n - (b + (n - b) div N * N)" by (simp add: minus_div_mult_eq_mod [symmetric])
qed

text \<open>The chunk that a turn of a loop handles ends at the end of the slot or of the range.\<close>

lemma chunk_geometry:
  fixes l b n m :: nat
  defines "N \<equiv> 512 ^ l" and "j \<equiv> slot_of l n"
  assumes "512 * N dvd b" and "b \<le> n" "n < m" "m \<le> b + 512 * N"
  shows "j < 512" "b + j * N \<le> n" "n < b + j * N + N" "n + chunk l n m = min (b + j * N + N) m" "N dvd b"
    "n + chunk l n m < m \<Longrightarrow> slot_of l (n + chunk l n m) = j + 1" "n + chunk l n m < m \<Longrightarrow> N dvd n + chunk l n m"
    "x \<in> {b + j * N..<b + j * N + N} \<Longrightarrow> slot_of l x = j"
proof -
  have N: "0 < N" by (simp add: N_def)
  have nb: "n < b + 512 * N" using assms(5,6) by simp
  note g = slot_geometry [OF assms(3,4) nb N]
  have j: "j = (n - b) div N" using g(1) by (simp add: j_def slot_of_def N_def)
  show "j < 512" "b + j * N \<le> n" "n < b + j * N + N" "N dvd b" using g(2-5) by (simp_all add: j)
  have m: "N - n mod N = (b + j * N + N) - n" using g(3,4,6) by (simp add: j)
  have "n < b + j * N + N" using g(4) by (simp add: j)
  then have "n + min (b + j * N + N - n) (m - n) = min (b + j * N + N) m" using assms(5) by (simp only: min_def) (auto split: if_splits)
  then show c: "n + chunk l n m = min (b + j * N + N) m" unfolding chunk_def N_def [symmetric] m .
  have slot: "slot_of l x = i" if "b + i * N \<le> x" "x < b + i * N + N" "i < 512" for x i
  proof -
    have "b + i * N + N \<le> b + 512 * N" using mult_le_mono1 [of "i + 1" 512 N] that(3) by simp
    then have "x < b + 512 * N" "b \<le> x" using that(1,2) by linarith+
    note g' = slot_geometry [OF assms(3) this(2,1) N]
    have "(x - b) div N = i" using that(1,2) by (intro div_nat_eqI) (auto simp: algebra_simps)
    then show ?thesis using g'(1) by (simp add: slot_of_def N_def)
  qed
  show "slot_of l x = j" if "x \<in> {b + j * N..<b + j * N + N}" using slot [of j x] that g(2) by (simp add: j)
  assume less: "n + chunk l n m < m"
  then have e: "n + chunk l n m = b + (j + 1) * N" using c by (simp add: min_def split: if_splits)
  then show "N dvd n + chunk l n m" using g(5) by simp
  have "b + (j + 1) * N < b + 512 * N" using less e assms(6) by linarith
  then have "(j + 1) * N < 512 * N" by simp
  then have "j + 1 < 512" by (simp only: mult_less_cancel2)
  then show "slot_of l (n + chunk l n m) = j + 1" using slot [of "j + 1" "n + chunk l n m"] e N by simp
qed

section \<open>A table with one slot taken out\<close>

abbreviation slots_ok :: "nat \<Rightarrow> nat set \<Rightarrow> vm \<Rightarrow> (nat \<rightharpoonup> pte_t) \<Rightarrow> nat \<Rightarrow> nat \<Rightarrow> nat set \<Rightarrow> bool" where
  "slots_ok l I v M t b X \<equiv> pt_slots I (\<lambda>f b X. pt_tree l (vm_pt v) (table_count v) M f b X) (Suc l) (vm_pt v) (table_count v) M t b X"

lemma framed_widen:
  assumes "framed P K live v H t J X1 v' X1'" and "X2 \<subseteq> H - X1" and "J \<subseteq> I"
  shows "framed P K live v H t I (X1 \<union> X2) v' (X1' \<union> X2)" "H - (X1 \<union> X2) \<union> (X1' \<union> X2) = H - X1 \<union> X1'" "X2 \<subseteq> H - X1 \<union> X1' - X1'"
proof -
  have d: "X1' \<inter> (H - X1) = {}" using assms(1) by (simp add: framed_def)
  show e: "H - (X1 \<union> X2) \<union> (X1' \<union> X2) = H - X1 \<union> X1'" using assms(2) by blast
  show "X2 \<subseteq> H - X1 \<union> X1' - X1'" using d assms(2) by blast
  show "framed P K live v H t I (X1 \<union> X2) v' (X1' \<union> X2)" unfolding framed_def e using assms d unfolding framed_def by blast
qed

lemma slots_frame:
  assumes sl: "slots_ok l I v M t b X2" and fr: "framed P K live v H t J X1 v' X1'" and X: "X2 \<subseteq> H - X1" and I: "I \<inter> J = {}"
    and M: "\<And>i x. i \<in> I \<Longrightarrow> x \<in> {b + i * 512 ^ Suc l..<b + i * 512 ^ Suc l + 512 ^ Suc l} \<Longrightarrow> M' x = M x"
  shows "slots_ok l I v' M' t b X2"
proof -
  have t: "t \<notin> X2" using sl by (rule pt_slotsE)
  have pt: "vm_pt v' g = vm_pt v g" "table_count v' g = table_count v g" if "g \<in> X2" for g
    using fr X t that unfolding framed_def by blast+
  show ?thesis
  proof (rule pt_slots_cong [OF sl])
    show "vm_pt v' t i = vm_pt v t i" if "i \<in> I" for i using fr I that unfolding framed_def by blast
    show "table_count v' g = table_count v g" if "g \<in> X2" for g by (rule pt(2) [OF that])
    show "M' x = M x" if "i \<in> I" "x \<in> {b + i * 512 ^ Suc l..<b + i * 512 ^ Suc l + 512 ^ Suc l}" for i x by (rule M [OF that])
    fix f i Y assume i: "i \<in> I" and f: "insert f Y \<subseteq> X2" and tr: "pt_tree l (vm_pt v) (table_count v) M f (b + i * 512 ^ Suc l) Y"
    show "pt_tree l (vm_pt v') (table_count v') M' f (b + i * 512 ^ Suc l) Y"
    proof (rule pt_tree_cong [OF tr])
      show "vm_pt v' g = vm_pt v g" if "g \<in> insert f Y" for g using pt(1) f that by blast
      show "table_count v' g = table_count v g" if "g \<in> Y" for g using pt(2) f that by blast
      show "M' x = M x" if "x \<in> {b + i * 512 ^ Suc l..<b + i * 512 ^ Suc l + 512 ^ Suc l}" for x by (rule M [OF i that])
    qed
  qed
qed

lemma slot_map_cong:
  assumes "slot_ok l v M t j b X" and "\<And>x. x \<in> {b..<b + 512 ^ Suc l} \<Longrightarrow> M' x = M x"
  shows "slot_ok l v M' t j b X"
  by (rule pt_slot_cong [OF assms(1)]) (auto intro: assms(2) pt_tree_cong)

lemma slots_split:
  assumes "slots_ok l I v M t b X" and "j \<in> I"
  obtains X1 X2 where "X = X1 \<union> X2" "X1 \<inter> X2 = {}" "t \<notin> X" "slot_ok l v M t j (b + j * 512 ^ Suc l) X1" "slots_ok l (I - {j}) v M t b X2"
proof -
  have I: "insert j (I - {j}) = I" using assms(2) by blast
  have "t \<notin> X" using assms(1) by (rule pt_slotsE)
  moreover have "\<exists>X1 X2. X = X1 \<union> X2 \<and> X1 \<inter> X2 = {} \<and> t \<notin> X1 \<and> slot_ok l v M t j (b + j * 512 ^ Suc l) X1 \<and> slots_ok l (I - {j}) v M t b X2"
    using assms(1) pt_slots_insert [of j "I - {j}"] unfolding I by (simp only: simp_thms Diff_iff insertI1)
  ultimately show thesis by (elim exE conjE) (rule that)
qed

lemma slots_join:
  assumes "slot_ok l v M t j (b + j * 512 ^ Suc l) X1" and "slots_ok l (I - {j}) v M t b X2" and "j \<in> I" "X1 \<inter> X2 = {}" "t \<notin> X1"
  shows "slots_ok l I v M t b (X1 \<union> X2)"
proof -
  have I: "insert j (I - {j}) = I" using assms(3) by blast
  have "slots_ok l (insert j (I - {j})) v M t b (X1 \<union> X2)"
    using assms by (subst pt_slots_insert) blast+
  then show ?thesis unfolding I .
qed

text \<open>Replacing one slot.\<close>

lemma slot_replace:
  assumes fr: "framed P K live v H t {j} X1 v' X1'" and rest: "slots_ok l (I - {j}) v M t b X2" and X: "X2 \<subseteq> H - X1" "j \<in> I"
    and new: "slot_ok l v' M' t j (b + j * 512 ^ Suc l) X1'" "t \<notin> X1'"
    and M: "\<And>i x. i \<in> I - {j} \<Longrightarrow> x \<in> {b + i * 512 ^ Suc l..<b + i * 512 ^ Suc l + 512 ^ Suc l} \<Longrightarrow> M' x = M x"
  shows "framed P K live v H t I (X1 \<union> X2) v' (X1' \<union> X2)" "slots_ok l I v' M' t b (X1' \<union> X2)"
proof -
  show "framed P K live v H t I (X1 \<union> X2) v' (X1' \<union> X2)" using framed_widen(1) [OF fr X(1)] X(2) by blast
  have "slots_ok l (I - {j}) v' M' t b X2" by (rule slots_frame [OF rest fr X(1) _ M]) auto
  moreover have "X1' \<inter> X2 = {}" using fr X(1) unfolding framed_def by blast
  ultimately show "slots_ok l I v' M' t b (X1' \<union> X2)" using new X(2) by (intro slots_join [where j = j]) auto
qed

section \<open>The loops of a level\<close>

text \<open>
  How the two populating functions take a slot: the table is there, or a new one is linked in; its count
  grows by the pages of the chunk.
\<close>

definition opens :: "pte_t \<Rightarrow> nat \<Rightarrow> nat \<Rightarrow> nat \<Rightarrow> vm \<Rightarrow> page_ptr \<Rightarrow> nat \<Rightarrow> vm \<Rightarrow> bool" where
  "opens flags t i k v p f v2 \<longleftrightarrow>
     pte_present (vm_pt v t i) \<and> \<not> pte_large (vm_pt v t i) \<and> pte_page (vm_pt v t i) v = Some p \<and>
       f = frame_of (pte_phys (vm_pt v t i)) \<and> v2 = set_refcount p (refcount p v + of_nat k) v \<or>
     \<not> pte_present (vm_pt v t i) \<and> (\<exists>v1. alloc_page_table flags v = Some (Some p, v1) \<and> f = frame_of (page_paddr (vm_mem v1) p) \<and>
       v2 = set_refcount p (refcount p v1 + of_nat k) (set_pte t i (page_paddr (vm_mem v1) p OR flags) v1))"

lemma open_slot:
  assumes tb: "tables P K live v H" and sl: "slot_ok l v M t j b X" and X: "X \<subseteq> H" "t \<in> H - X" and fl: "ok_flags flags"
  shows "\<not> pte_present (vm_pt v t j) \<and> alloc_page_table flags v = Some (None, v) \<or>
    (\<exists>p f v2 Y. opens flags t j k v p f v2 \<and> framed P K live v H t {j} X v2 (insert f Y) \<and>
       opened P K live l M t j b k v2 (H - X \<union> insert f Y) p f Y)"
proof (cases "pte_present (vm_pt v t j)")
  case True
  from open_present [OF tb sl True X, of k] obtain p Y where pY: "\<not> pte_large (vm_pt v t j)" "pte_page (vm_pt v t j) v = Some p"
    "X = insert (frame_of (pte_phys (vm_pt v t j))) Y"
    "framed P K live v H t {j} X (set_refcount p (refcount p v + of_nat k) v) X"
    "opened P K live l M t j b k (set_refcount p (refcount p v + of_nat k) v) H p (frame_of (pte_phys (vm_pt v t j))) Y"
    by (elim exE conjE) (rule that)
  have "H - X \<union> X = H" using X(1) by blast
  then have "opened P K live l M t j b k (set_refcount p (refcount p v + of_nat k) v) (H - X \<union> X) p (frame_of (pte_phys (vm_pt v t j))) Y"
    using pY(5) by simp
  then show ?thesis using True pY(1-4) unfolding opens_def by metis
next
  case False
  have "flags AND PTE_LOW = 0" using fl by (simp add: ok_flags_def)
  from alloc_page_table_ok [OF tb this] obtain r v1 where al: "alloc_page_table flags v = Some (r, v1)" "r = None \<longrightarrow> v1 = v"
    by (auto split: option.splits)
  show ?thesis
  proof (cases r)
    case None
    then show ?thesis using al False by simp
  next
    case (Some p)
    let ?v2 = "set_refcount p (refcount p v1 + of_nat k) (set_pte t j (page_paddr (vm_mem v1) p OR flags) v1)"
    have tH: "t \<in> H" using X(2) by blast
    from open_new [OF tb sl False tH fl al(1) [unfolded Some], of k] obtain f where f: "frame_of (page_paddr (vm_mem v1) p) = f"
      "framed P K live v H t {j} {} ?v2 {f}" "opened P K live l M t j b k ?v2 (insert f H) p f {}" "X = {}" by (elim exE conjE) (rule that)
    have "H - X \<union> insert f {} = insert f H" using f(4) by blast
    moreover have "opens flags t j k v p f ?v2" unfolding opens_def using False al(1) Some f(1) by auto
    ultimately show ?thesis using f by metis
  qed
qed

locale pt_level =
  fixes l :: nat and flags :: pte_t and idx :: "u64 \<Rightarrow> nat"
    and sub_rel :: "nat \<Rightarrow> u64 \<Rightarrow> u64 \<Rightarrow> vm \<Rightarrow> vm option"
    and sub_pop :: "nat \<Rightarrow> u64 \<Rightarrow> u64 \<Rightarrow> vm \<Rightarrow> (int \<times> vm) option"
    and rel_loop :: "nat \<Rightarrow> nat \<Rightarrow> u64 \<Rightarrow> u64 \<Rightarrow> vm \<Rightarrow> vm option"
    and pop_loop :: "nat \<Rightarrow> u64 \<Rightarrow> nat \<Rightarrow> u64 \<Rightarrow> u64 \<Rightarrow> vm \<Rightarrow> (int \<times> vm) option"
  assumes level: "l \<le> 2" and flags: "ok_flags flags"
    and idx: "n < 2 ^ 36 \<Longrightarrow> idx (vaddr_of n) = slot_of (Suc l) n"
    and sub_rel: "rel_spec l sub_rel" and sub_pop: "pop_spec l sub_pop"
    and rel_done: "rel_loop t i w w v = Some v"
    and rel_present: "n < m \<Longrightarrow> m \<le> 2 ^ 36 \<Longrightarrow> k = chunk (Suc l) n m \<Longrightarrow> pte_present (vm_pt v t i) \<Longrightarrow> \<not> pte_large (vm_pt v t i) \<Longrightarrow>
      pte_page (vm_pt v t i) v = Some p \<Longrightarrow> sub_rel (frame_of (pte_phys (vm_pt v t i))) (vaddr_of n) (vaddr_of (n + k)) v = Some v' \<Longrightarrow>
      rel_loop t i (vaddr_of n) (vaddr_of m) v = rel_loop t (i + 1) (vaddr_of (n + k)) (vaddr_of m) (pt_put t i p (of_nat k) v')"
    and pop_done: "pop_loop t w' i w w v = Some (0, v)"
    and pop_nomem: "n < m \<Longrightarrow> m \<le> 2 ^ 36 \<Longrightarrow> \<not> pte_present (vm_pt v t i) \<Longrightarrow> alloc_page_table flags v = Some (None, v1) \<Longrightarrow>
      rel_loop t (idx w) w (vaddr_of n) v1 = Some v2 \<Longrightarrow> pop_loop t w i (vaddr_of n) (vaddr_of m) v = Some (- ENOMEM, v2)"
    and pop_ok: "n < m \<Longrightarrow> m \<le> 2 ^ 36 \<Longrightarrow> k = chunk (Suc l) n m \<Longrightarrow> opens flags t i k v p f v2 \<Longrightarrow>
      sub_pop f (vaddr_of n) (vaddr_of (n + k)) v2 = Some (0, v3) \<Longrightarrow>
      pop_loop t w i (vaddr_of n) (vaddr_of m) v = pop_loop t w (i + 1) (vaddr_of (n + k)) (vaddr_of m) v3"
    and pop_err: "n < m \<Longrightarrow> m \<le> 2 ^ 36 \<Longrightarrow> k = chunk (Suc l) n m \<Longrightarrow> opens flags t i k v p f v2 \<Longrightarrow>
      sub_pop f (vaddr_of n) (vaddr_of (n + k)) v2 = Some (rc, v3) \<Longrightarrow> rc \<noteq> 0 \<Longrightarrow> rel_loop t (idx w) w (vaddr_of n) v3 = Some v4 \<Longrightarrow>
      pop_loop t w i (vaddr_of n) (vaddr_of m) v = Some (rc, pt_put t i p (of_nat k) v4)"
begin

abbreviation N :: nat where "N \<equiv> 512 ^ Suc l"

lemma chunk_range_ok:
  assumes "512 * N dvd b" "b \<le> n" "n < m" "m \<le> b + 512 * N" "b + 512 * N \<le> 2 ^ 36"
  shows "range_ok l (b + slot_of (Suc l) n * N) n (n + chunk (Suc l) n m)"
proof -
  note g = chunk_geometry [OF assms(1-4)]
  have "(slot_of (Suc l) n + 1) * N \<le> 512 * N" using g(1) by (intro mult_le_mono1) simp
  then have "slot_of (Suc l) n * N + N \<le> 512 * N" by (simp only: add_mult_distrib mult_1)
  then have "b + slot_of (Suc l) n * N + N \<le> 2 ^ 36" using assms(5) by linarith
  moreover have "n + chunk (Suc l) n m \<le> b + slot_of (Suc l) n * N + N" using g(4) by simp
  ultimately show ?thesis using g(2,5) unfolding range_ok_def by simp
qed

lemma other_slot:
  assumes "512 * N dvd b" "b \<le> n" "n < m" "m \<le> b + 512 * N" and "i \<in> I - {slot_of (Suc l) n}" "I \<subseteq> {..<512}"
    and x: "x \<in> {b + i * N..<b + i * N + N}"
  shows "x \<notin> {n..<n + chunk (Suc l) n m}"
proof
  assume "x \<in> {n..<n + chunk (Suc l) n m}"
  then have "x \<in> {b + slot_of (Suc l) n * N..<b + slot_of (Suc l) n * N + N}" using chunk_geometry(2,4) [OF assms(1-4)] by auto
  then have "slot_of (Suc l) x = slot_of (Suc l) n" by (rule chunk_geometry(8) [OF assms(1-4)])
  moreover have "b + i * N + N \<le> b + 512 * N" using mult_le_mono1 [of "i + 1" 512 N] assms(5,6) by auto
  then have "x < b + 512 * N" "b \<le> x" using x unfolding atLeastLessThan_iff by linarith+
  then have "slot_of (Suc l) x = (x - b) div N" using slot_geometry(1) [OF assms(1), of x] by (simp add: slot_of_def)
  moreover have "(x - b) div N = i" using x by (intro div_nat_eqI) (auto simp: algebra_simps)
  ultimately show False using assms(5) by simp
qed

lemma rel_loop_ok:
  assumes "tables P K live v H" and "slots_ok l I v M t b X" and "insert t X \<subseteq> H"
    and "512 * N dvd b" "b \<le> n" "n \<le> m" "m \<le> b + 512 * N" "b + 512 * N \<le> 2 ^ 36"
    and "\<And>x. x \<in> {n..<m} \<Longrightarrow> slot_of (Suc l) x \<in> I" "I \<subseteq> {..<512}" and "\<forall>x \<in> {n..<m}. M x = Some 0"
  shows "\<exists>v' X'. rel_loop t (slot_of (Suc l) n) (vaddr_of n) (vaddr_of m) v = Some v' \<and> framed P K live v H t I X v' X' \<and>
    slots_ok l I v' (M |` (- {n..<m})) t b X'"
  using assms
proof (induction "m - n" arbitrary: n v H M X rule: less_induct)
  case less
  show ?case
  proof (cases "n = m")
    case True
    have "M |` (- {n..<m}) = M" using True by (simp add: restrict_map_def fun_eq_iff)
    moreover have "framed P K live v H t I X v X" using less.prems(1,3) by (intro framed_refl) auto
    ultimately show ?thesis using True rel_done less.prems(2) by auto
  next
    case False
    then have nm: "n < m" using less.prems(6) by simp
    let ?j = "slot_of (Suc l) n" and ?k = "chunk (Suc l) n m" and ?n = "n + chunk (Suc l) n m"
    let ?b = "b + slot_of (Suc l) n * N" and ?M = "M |` (- {n..<n + chunk (Suc l) n m})"
    note g = chunk_geometry [OF less.prems(4,5) nm less.prems(7)]
    note rk = chunk_range_ok [OF less.prems(4,5) nm less.prems(7,8)]
    have k: "0 < ?k" "?n \<le> m" "m \<le> 2 ^ 36" using chunk_bounds [OF nm] less.prems(7,8) by auto
    have j: "?j \<in> I" using less.prems(9) nm by simp
    obtain X1 X2 where X: "X = X1 \<union> X2" "X1 \<inter> X2 = {}" "t \<notin> X" "slot_ok l v M t ?j ?b X1" "slots_ok l (I - {?j}) v M t b X2"
      by (rule slots_split [OF less.prems(2) j])
    have z: "\<forall>x \<in> {n..<?n}. M x = Some 0" using less.prems(11) k by auto
    have "M n = Some 0" using z k by simp
    then have "n \<in> dom M \<inter> {?b..<?b + 512 ^ Suc l}" using g(2,3) by auto
    then have pr: "pte_present (vm_pt v t ?j)" using X(4) unfolding pt_slot_def by (auto split: if_splits)
    have XH: "X1 \<subseteq> H" "t \<in> H - X1" "X2 \<subseteq> H - X1" using X less.prems(3) by auto
    let ?f = "frame_of (pte_phys (vm_pt v t ?j))"
    obtain p Y where o: "\<not> pte_large (vm_pt v t ?j)" "pte_page (vm_pt v t ?j) v = Some p" "X1 = insert ?f Y"
      "opened P K live l M t ?j ?b 0 v H p ?f Y" using open_present [OF less.prems(1) X(4) pr XH(1,2)] by blast
    have tr: "pt_tree l (vm_pt v) (table_count v) M ?f ?b Y" "insert ?f Y \<subseteq> H" using o(4) unfolding opened_def by blast+
    obtain v1 Y' where s: "sub_rel ?f (vaddr_of n) (vaddr_of ?n) v = Some v1" "framed P K live v H ?f UNIV Y v1 Y'"
      "pt_tree l (vm_pt v1) (table_count v1) ?M ?f ?b Y'"
      using sub_rel [unfolded rel_spec_def, rule_format, OF less.prems(1) tr rk] z by blast
    let ?v2 = "pt_put t ?j p (of_nat ?k) v1"
    have "mapped M (Suc l) ?b + 0 = mapped ?M (Suc l) ?b + ?k"
      using mapped_sub [OF z, of ?b "Suc l"] rk unfolding range_ok_def by simp
    from opened_put [OF o(4) level _ s(2,3) this] obtain X1' where n1: "framed P K live v H t {?j} X1 ?v2 X1'" "t \<notin> X1'" "slot_ok l ?v2 ?M t ?j ?b X1'"
      unfolding o(3) by auto
    have M: "?M x = M x" if "i \<in> I - {?j}" "x \<in> {b + i * N..<b + i * N + N}" for i x
      using other_slot [OF less.prems(4,5) nm less.prems(7) that(1) less.prems(10) that(2)] by (simp add: restrict_map_def)
    let ?X = "X1' \<union> X2" and ?H = "H - X \<union> (X1' \<union> X2)"
    have r1: "framed P K live v H t I X ?v2 ?X" unfolding X(1) by (rule slot_replace(1) [OF n1(1) X(5) XH(3) j n1(3,2)]) (rule M)
    have r2: "slots_ok l I ?v2 ?M t b ?X" by (rule slot_replace(2) [OF n1(1) X(5) XH(3) j n1(3,2)]) (rule M)
    have tb: "tables P K live ?v2 ?H" "insert t ?X \<subseteq> ?H" using r1 X(3) less.prems(3) unfolding framed_def by auto
    have step: "rel_loop t ?j (vaddr_of n) (vaddr_of m) v = rel_loop t (?j + 1) (vaddr_of ?n) (vaddr_of m) ?v2"
      by (rule rel_present [OF nm k(3) refl pr o(1,2) s(1)])
    have idx: "rel_loop t (?j + 1) (vaddr_of ?n) (vaddr_of m) ?v2 = rel_loop t (slot_of (Suc l) ?n) (vaddr_of ?n) (vaddr_of m) ?v2"
    proof (cases "?n = m")
      case True
      then show ?thesis by (simp only: rel_done)
    next
      case False
      then show ?thesis using g(6) k(2) by simp
    qed
    have MM: "?M |` (- {?n..<m}) = M |` (- {n..<m})" using k(2) by (auto simp: restrict_map_def fun_eq_iff)
    have pre: "m - ?n < m - n" "b \<le> ?n" "\<And>x. x \<in> {?n..<m} \<Longrightarrow> slot_of (Suc l) x \<in> I" "\<forall>x \<in> {?n..<m}. ?M x = Some 0"
      using k nm less.prems(5,9,11) by auto
    obtain v' X' where ih: "rel_loop t (slot_of (Suc l) ?n) (vaddr_of ?n) (vaddr_of m) ?v2 = Some v'" "framed P K live ?v2 ?H t I ?X v' X'"
      "slots_ok l I v' (?M |` (- {?n..<m})) t b X'"
      using less.hyps [OF pre(1) tb(1) r2 tb(2) less.prems(4) pre(2) k(2) less.prems(7,8) pre(3) less.prems(10) pre(4)] by blast
    have "framed P K live v H t I X v' X'" by (rule framed_trans [OF r1 ih(2)]) (use less.prems(3) in blast)
    then show ?thesis using step idx ih(1,3) unfolding MM by auto
  qed
qed

lemma zeros_undo:
  assumes "\<forall>x \<in> {n0..<n}. M x = None"
  shows "(M ++ zeros n0 n) |` (- {n0..<n}) = M"
  using assms by (auto simp: restrict_map_def zeros_def map_add_def fun_eq_iff split: option.splits)

text \<open>Undoing the slots in front of the one that failed.\<close>

lemma undo_ok:
  assumes tb: "tables P K live v H" and sl: "slots_ok l I v (M ++ zeros n0 n) t b X" and X: "insert t X \<subseteq> H"
    and r: "512 * N dvd b" "b \<le> n0" "n0 \<le> n" "n \<le> b + 512 * N" "b + 512 * N \<le> 2 ^ 36" "n0 < 2 ^ 36"
    and I: "\<And>x. x \<in> {n0..<n} \<Longrightarrow> slot_of (Suc l) x \<in> I" "I \<subseteq> {..<512}" and M: "\<forall>x \<in> {n0..<n}. M x = None"
  shows "\<exists>v' X'. rel_loop t (idx (vaddr_of n0)) (vaddr_of n0) (vaddr_of n) v = Some v' \<and> framed P K live v H t I X v' X' \<and>
    slots_ok l I v' M t b X'"
proof -
  have "\<forall>x \<in> {n0..<n}. (M ++ zeros n0 n) x = Some 0" by (simp add: zeros_def)
  from rel_loop_ok [OF tb sl X r(1-5) I this] show ?thesis unfolding idx [OF r(6)] zeros_undo [OF M] .
qed

text \<open>The table of the failed slot while the slots in front of it are undone.\<close>

lemma opened_after:
  assumes op: "opened P K live l M t j b k v H p f Y" and fr: "framed P K live v H t I X v' X'"
    and X: "X \<subseteq> H - insert f Y" "j \<notin> I" "t \<notin> X" and M: "\<And>x. x \<in> {b..<b + 512 ^ Suc l} \<Longrightarrow> M' x = M x"
  shows "opened P K live l M' t j b k v' (H - X \<union> X') p f Y"
proof -
  note o = op [unfolded opened_def]
  have t: "t \<notin> insert f Y" "t \<in> H" using o by auto
  have fX: "insert f Y \<subseteq> H - X - {t}" using o X(1) t by auto
  have pt: "vm_pt v' g = vm_pt v g" "table_count v' g = table_count v g" if "g \<in> insert f Y" for g using fr fX that unfolding framed_def by blast+
  have e: "vm_pt v' t j = vm_pt v t j" "pfn2page (vm_mem v') = pfn2page (vm_mem v)" "tables P K live v' (H - X \<union> X')" "X' \<inter> (H - X) = {}"
    using fr X(2) unfolding framed_def by blast+
  have d: "dom M' \<inter> {b..<b + 512 ^ Suc l} = dom M \<inter> {b..<b + 512 ^ Suc l}" using M by (auto simp: dom_def)
  have tr: "pt_tree l (vm_pt v') (table_count v') M' f b Y"
    by (rule pt_tree_cong [of l "vm_pt v" "table_count v" M]) (use o pt M in auto)
  have tX: "t \<in> H - X" using t X(3) by blast
  show ?thesis unfolding opened_def d using o e tr fX tX pt(2) [of f] by auto
qed

lemma before_slot:
  assumes "512 * N dvd b" "b \<le> n0" "n < m" "m \<le> b + 512 * N" "n = n0 \<or> N dvd n" "x \<in> {n0..<n}"
  shows "slot_of (Suc l) x \<noteq> slot_of (Suc l) n" "x \<notin> {b + slot_of (Suc l) n * N..<b + slot_of (Suc l) n * N + N}"
proof -
  have bn: "b \<le> n" "N dvd n" "b \<le> x" "x < b + 512 * N" using assms by auto
  note g = chunk_geometry [OF assms(1) bn(1) assms(3,4)]
  have "n mod N = n - (b + slot_of (Suc l) n * N)"
    using slot_geometry(1,6) [OF assms(1) bn(1)] assms(3,4) by (simp add: slot_of_def)
  then have e: "n = b + slot_of (Suc l) n * N" using bn(2) g(2) by simp
  show "x \<notin> {b + slot_of (Suc l) n * N..<b + slot_of (Suc l) n * N + N}" using assms(6) e by simp
  have "slot_of (Suc l) x = (x - b) div N" "b + (x - b) div N * N \<le> x"
    using slot_geometry(1,3) [OF assms(1) bn(3,4)] by (simp_all add: slot_of_def)
  then show "slot_of (Suc l) x \<noteq> slot_of (Suc l) n" using assms(6) e by auto
qed

lemma zeros_step: "n0 \<le> n \<Longrightarrow> n \<le> n' \<Longrightarrow> M ++ zeros n0 n ++ zeros n n' = M ++ zeros n0 n'"
  by (auto simp: zeros_def map_add_def fun_eq_iff split: option.splits)

text \<open>The turn that fails: everything done so far is given back.\<close>

lemma pop_fail:
  assumes op: "opened P K live l (M ++ zeros n0 n) t j (b + j * N) k v H p f Y" and k: "k \<le> 2 ^ 36" and j: "j = slot_of (Suc l) n" "j \<in> I"
    and fr: "framed P K live v H f UNIV Y v3 Y'" and tr: "pt_tree l (vm_pt v3) (table_count v3) (M ++ zeros n0 n) f (b + j * N) Y'"
    and rest: "slots_ok l (I - {j}) v (M ++ zeros n0 n) t b X2" and X2: "X2 \<subseteq> H - insert f Y" "t \<notin> X2"
    and r: "512 * N dvd b" "b \<le> n0" "n0 \<le> n" "n < m" "m \<le> b + 512 * N" "b + 512 * N \<le> 2 ^ 36" "n = n0 \<or> N dvd n"
    and I: "\<And>x. x \<in> {n0..<m} \<Longrightarrow> slot_of (Suc l) x \<in> I" "I \<subseteq> {..<512}" and M: "\<forall>x \<in> {n0..<m}. M x = None"
  shows "\<exists>v4 X'. rel_loop t (idx (vaddr_of n0)) (vaddr_of n0) (vaddr_of n) v3 = Some v4 \<and>
    framed P K live v H t I (insert f Y \<union> X2) (pt_put t j p (of_nat k) v4) X' \<and> slots_ok l I (pt_put t j p (of_nat k) v4) M t b X'"
proof -
  have oH: "insert f Y \<subseteq> H" "f \<notin> Y" "t \<in> H - insert f Y" using op unfolding opened_def by blast+
  note fn = framed_nest [OF fr oH] and fn1 = framed_nest(1) [OF fr oH, where j = j]
  let ?H3 = "H - insert f Y \<union> insert f Y'"
  have op3: "opened P K live l (M ++ zeros n0 n) t j (b + j * N) k v3 ?H3 p f Y'"
    using op fn tr oH unfolding opened_def by auto
  have jI: "{j} \<subseteq> I" using j(2) by blast
  note w1 = framed_widen [OF fn1 X2(1) jI]
  have sl3: "slots_ok l (I - {j}) v3 (M ++ zeros n0 n) t b X2" by (rule slots_frame [OF rest fn1 X2(1)]) auto
  have tX2: "insert t X2 \<subseteq> ?H3" using X2(1) oH by auto
  have cov: "slot_of (Suc l) x \<in> I - {j}" if "x \<in> {n0..<n}" for x
    using before_slot(1) [OF r(1,2,4,5,7) that] I(1) [of x] that r(4) j(1) by auto
  have rr: "n \<le> b + 512 * N" "n0 < 2 ^ 36" "I - {j} \<subseteq> {..<512}" "\<forall>x \<in> {n0..<n}. M x = None" using r I(2) M by auto
  from undo_ok [OF fn(2) sl3 tX2 r(1-3) rr(1) r(6) rr(2) cov rr(3,4)] obtain v4 X4 where
    u: "rel_loop t (idx (vaddr_of n0)) (vaddr_of n0) (vaddr_of n) v3 = Some v4" "framed P K live v3 ?H3 t (I - {j}) X2 v4 X4"
      "slots_ok l (I - {j}) v4 M t b X4" by blast
  let ?H4 = "?H3 - X2 \<union> X4" and ?v5 = "pt_put t j p (of_nat k) v4"
  have M4: "M x = (M ++ zeros n0 n) x" if "x \<in> {b + j * N..<b + j * N + 512 ^ Suc l}" for x
    using that before_slot(2) [OF r(1,2,4,5,7), of x, folded j(1)] by (cases "x \<in> {n0..<n}") (auto simp: zeros_def map_add_def)
  have X2': "X2 \<subseteq> ?H3 - insert f Y'" by (rule w1(3))
  have op4: "opened P K live l M t j (b + j * N) k v4 ?H4 p f Y'"
    by (rule opened_after [OF op3 u(2) X2' _ X2(2) M4]) auto
  have "tables P K live v4 ?H4" "Y' \<subseteq> ?H4" "pt_tree l (vm_pt v4) (table_count v4) M f (b + j * N) Y'" using op4 unfolding opened_def by auto
  from opened_put [OF op4 level k framed_refl [OF this(1,2)] this(3) refl] obtain X5 where
    X5: "framed P K live v4 ?H4 t {j} (insert f Y') ?v5 X5" "t \<notin> X5" "slot_ok l ?v5 M t j (b + j * N) X5" by blast
  have X4: "X4 \<subseteq> ?H4 - insert f Y'" using u(2) X2' fn(3) op3 unfolding framed_def opened_def by blast
  have r5: "framed P K live v4 ?H4 t I (insert f Y' \<union> X4) ?v5 (X5 \<union> X4)" "slots_ok l I ?v5 M t b (X5 \<union> X4)"
    by (rule slot_replace [OF X5(1) u(3) X4 j(2) X5(3,2)], rule refl)+
  have f3: "framed P K live v H t I (insert f Y \<union> X2) v3 (insert f Y' \<union> X2)" by (rule w1(1))
  have sub: "insert f Y' \<subseteq> ?H3 - X2" using X2' by blast
  have f4: "framed P K live v3 ?H3 t I (X2 \<union> insert f Y') v4 (X4 \<union> insert f Y')" by (rule framed_widen(1) [OF u(2) sub]) blast
  have e3: "H - (insert f Y \<union> X2) \<union> (insert f Y' \<union> X2) = ?H3" by (rule w1(2))
  have e4: "?H3 - (insert f Y' \<union> X2) \<union> (insert f Y' \<union> X4) = ?H4" using sub by blast
  have f34: "framed P K live v H t I (insert f Y \<union> X2) v4 (insert f Y' \<union> X4)"
    by (rule framed_trans [OF f3]) (use f4 e3 oH(1) X2(1) in \<open>auto simp: Un_commute\<close>)
  have "H - (insert f Y \<union> X2) \<union> (insert f Y' \<union> X4) = ?H4" using X2(1) X2' u(2) oH unfolding framed_def by blast
  then have "framed P K live v H t I (insert f Y \<union> X2) ?v5 (X5 \<union> X4)"
    by (intro framed_trans [OF f34]) (use r5(1) oH(1) X2(1) in auto)
  then show ?thesis using u(1) r5(2) by blast
qed

lemma pop_loop_ok:
  assumes "tables P K live v H" and "slots_ok l I v (M ++ zeros n0 n) t b X" and "insert t X \<subseteq> H"
    and "512 * N dvd b" "b \<le> n0" "n0 \<le> n" "n \<le> m" "m \<le> b + 512 * N" "b + 512 * N \<le> 2 ^ 36" "n = n0 \<or> N dvd n \<or> n = m"
    and "\<And>x. x \<in> {n0..<m} \<Longrightarrow> slot_of (Suc l) x \<in> I" "I \<subseteq> {..<512}" and "\<forall>x \<in> {n0..<m}. M x = None"
  shows "\<exists>rc v' X'. pop_loop t (vaddr_of n0) (slot_of (Suc l) n) (vaddr_of n) (vaddr_of m) v = Some (rc, v') \<and> framed P K live v H t I X v' X' \<and>
    (rc = 0 \<and> slots_ok l I v' (M ++ zeros n0 m) t b X' \<or> rc = - ENOMEM \<and> slots_ok l I v' M t b X')"
  using assms
proof (induction "m - n" arbitrary: n v H X rule: less_induct)
  case less
  note pr = less.prems
  show ?case
  proof (cases "n = m")
    case True
    have "framed P K live v H t I X v X" using pr(1,3) by (intro framed_refl) auto
    then show ?thesis using True pop_done pr(2) by auto
  next
    case False
    then have nm: "n < m" and nd: "n = n0 \<or> N dvd n" and bn: "b \<le> n" using pr(5,6,7,10) by auto
    let ?j = "slot_of (Suc l) n" and ?k = "chunk (Suc l) n m" and ?n = "n + chunk (Suc l) n m"
    let ?b = "b + slot_of (Suc l) n * N" and ?M = "M ++ zeros n0 n"
    note g = chunk_geometry [OF pr(4) bn nm pr(8)] and rk = chunk_range_ok [OF pr(4) bn nm pr(8,9)]
    have k: "0 < ?k" "?n \<le> m" "m \<le> 2 ^ 36" "?k \<le> 2 ^ 36" "n0 < 2 ^ 36" using chunk_bounds [OF nm, of "Suc l"] pr(6,8,9) nm by auto
    have j: "?j \<in> I" using pr(11) nm pr(6) by simp
    obtain X1 X2 where X: "X = X1 \<union> X2" "X1 \<inter> X2 = {}" "t \<notin> X" "slot_ok l v ?M t ?j ?b X1" "slots_ok l (I - {?j}) v ?M t b X2"
      by (rule slots_split [OF pr(2) j])
    have XH: "X1 \<subseteq> H" "t \<in> H - X1" "X2 \<subseteq> H - X1" using X pr(3) by auto
    from open_slot [OF pr(1) X(4) XH(1,2) flags, of ?k] consider
      (nomem) "\<not> pte_present (vm_pt v t ?j)" "alloc_page_table flags v = Some (None, v)"
    | (open_) p f v2 Y where "opens flags t ?j ?k v p f v2" "framed P K live v H t {?j} X1 v2 (insert f Y)"
        "opened P K live l ?M t ?j ?b ?k v2 (H - X1 \<union> insert f Y) p f Y" by blast
    then show ?thesis
    proof cases
      case nomem
      have "\<And>x. x \<in> {n0..<n} \<Longrightarrow> slot_of (Suc l) x \<in> I" "\<forall>x \<in> {n0..<n}. M x = None" "n \<le> b + 512 * N" using pr(8,11,13) nm by auto
      from undo_ok [OF pr(1-6) this(3) pr(9) k(5) this(1) pr(12) this(2)] obtain v' X' where
        u: "rel_loop t (idx (vaddr_of n0)) (vaddr_of n0) (vaddr_of n) v = Some v'" "framed P K live v H t I X v' X'" "slots_ok l I v' M t b X'" by blast
      then show ?thesis using pop_nomem [OF nm k(3) nomem u(1)] by blast
    next
      case open_
      let ?H2 = "H - X1 \<union> insert f Y"
      have o: "tables P K live v2 ?H2" "pt_tree l (vm_pt v2) (table_count v2) ?M f ?b Y" "insert f Y \<subseteq> ?H2" "t \<notin> insert f Y" using open_(3) unfolding opened_def by blast+
      have free: "\<forall>x \<in> {n..<?n}. ?M x = None" using pr(13) pr(6) k(2) by (auto simp: map_add_def zeros_def)
      obtain rc v3 Y' where s: "sub_pop f (vaddr_of n) (vaddr_of ?n) v2 = Some (rc, v3)" "framed P K live v2 ?H2 f UNIV Y v3 Y'"
        "rc = 0 \<and> pt_tree l (vm_pt v3) (table_count v3) (?M ++ zeros n ?n) f ?b Y' \<or> rc = - ENOMEM \<and> pt_tree l (vm_pt v3) (table_count v3) ?M f ?b Y'"
        using sub_pop [unfolded pop_spec_def, rule_format, OF o(1,2,3) rk] free by blast
      have X2: "X2 \<subseteq> ?H2 - insert f Y" using framed_widen(3) [OF open_(2) XH(3), of I] j by blast
      have rest: "slots_ok l (I - {?j}) v2 ?M t b X2" by (rule slots_frame [OF X(5) open_(2) XH(3)]) auto
      have fw: "framed P K live v H t I X v2 (insert f Y \<union> X2)" "H - X \<union> (insert f Y \<union> X2) = ?H2"
        using framed_widen(1,2) [OF open_(2) XH(3), of I] j unfolding X(1) by blast+
      show ?thesis
      proof (cases "rc = 0")
        case True
        have tr: "pt_tree l (vm_pt v3) (table_count v3) (?M ++ zeros n ?n) f ?b Y'" using s(3) True by auto
        have "mapped ?M (Suc l) ?b + ?k = mapped (?M ++ zeros n ?n) (Suc l) ?b"
          using mapped_add [OF free, of ?b "Suc l"] rk unfolding range_ok_def by simp
        note c = opened_close [OF open_(3) s(2) tr this k(1)]
        have M: "(?M ++ zeros n ?n) x = ?M x" if "i \<in> I - {?j}" "x \<in> {b + i * N..<b + i * N + N}" for i x
        proof -
          have "zeros n ?n x = None" using other_slot [OF pr(4) bn nm pr(8) that(1) pr(12) that(2)] by (auto simp: zeros_def)
          then show ?thesis by (simp only: map_add_def option.case)
        qed
        have r1: "framed P K live v2 ?H2 t I (insert f Y \<union> X2) v3 (insert f Y' \<union> X2)"
          by (rule slot_replace(1) [OF _ rest X2 j]) (use c M in blast)+
        have r2: "slots_ok l I v3 (M ++ zeros n0 ?n) t b (insert f Y' \<union> X2)"
          unfolding zeros_step [OF pr(6) le_add1, symmetric] by (rule slot_replace(2) [OF _ rest X2 j]) (use c M in blast)+
        have f3: "framed P K live v H t I X v3 (insert f Y' \<union> X2)"
          by (rule framed_trans [OF fw(1)]) (use r1 fw(2) pr(3) in auto)
        let ?H3 = "H - X \<union> (insert f Y' \<union> X2)"
        have tb: "tables P K live v3 ?H3" "insert t (insert f Y' \<union> X2) \<subseteq> ?H3" using f3 X(3) pr(3) unfolding framed_def by auto
        have nd': "?n = n0 \<or> N dvd ?n \<or> ?n = m" using g(7) k(2) by linarith
        have "m - ?n < m - n" "n0 \<le> ?n" using k nm pr(6) by auto
        from less.hyps [OF this(1) tb(1) r2 tb(2) pr(4,5) this(2) k(2) pr(8,9) nd' pr(11,12,13)] obtain rc' v' X' where
          ih: "pop_loop t (vaddr_of n0) (slot_of (Suc l) ?n) (vaddr_of ?n) (vaddr_of m) v3 = Some (rc', v')" "framed P K live v3 ?H3 t I (insert f Y' \<union> X2) v' X'"
            "rc' = 0 \<and> slots_ok l I v' (M ++ zeros n0 m) t b X' \<or> rc' = - ENOMEM \<and> slots_ok l I v' M t b X'" by blast
        have step: "pop_loop t (vaddr_of n0) ?j (vaddr_of n) (vaddr_of m) v = pop_loop t (vaddr_of n0) (?j + 1) (vaddr_of ?n) (vaddr_of m) v3"
          by (rule pop_ok [OF nm k(3) refl open_(1)]) (use s(1) True in simp)
        have "pop_loop t (vaddr_of n0) (?j + 1) (vaddr_of ?n) (vaddr_of m) v3 = pop_loop t (vaddr_of n0) (slot_of (Suc l) ?n) (vaddr_of ?n) (vaddr_of m) v3"
        proof (cases "?n = m")
          case True
          then show ?thesis by (simp only: pop_done)
        next
          case False
          then show ?thesis using g(6) k(2) by simp
        qed
        moreover have "framed P K live v H t I X v' X'" by (rule framed_trans [OF f3 ih(2)]) (use pr(3) in blast)
        ultimately show ?thesis using step ih(1,3) by auto
      next
        case False
        then have rc: "rc = - ENOMEM" and tr: "pt_tree l (vm_pt v3) (table_count v3) ?M f ?b Y'" using s(3) by auto
        have tX2: "t \<notin> X2" using X by blast
        from pop_fail [OF open_(3) k(4) refl j s(2) tr rest X2 tX2 pr(4,5,6) nm pr(8,9) nd pr(11,12,13)] obtain v4 X' where
          u: "rel_loop t (idx (vaddr_of n0)) (vaddr_of n0) (vaddr_of n) v3 = Some v4"
            "framed P K live v2 ?H2 t I (insert f Y \<union> X2) (pt_put t ?j p (of_nat ?k) v4) X'" "slots_ok l I (pt_put t ?j p (of_nat ?k) v4) M t b X'" by blast
        have "framed P K live v H t I X (pt_put t ?j p (of_nat ?k) v4) X'"
          by (rule framed_trans [OF fw(1)]) (use u(2) fw(2) pr(3) in auto)
        then show ?thesis using pop_err [OF nm k(3) refl open_(1) s(1) False u(1)] u(3) rc by blast
      qed
    qed
  qed
qed

text \<open>The contracts one level up.\<close>

lemma all_slots: "512 * N dvd b \<Longrightarrow> b \<le> x \<Longrightarrow> x < b + 512 * N \<Longrightarrow> slot_of (Suc l) x \<in> {..<512}"
  using slot_geometry(1,2) [of N b x] by (simp add: slot_of_def)

lemma framed_all: "framed P K live v H t I X v' X' \<Longrightarrow> framed P K live v H t UNIV X v' X'"
  by (simp add: framed_def)

lemma rel_up: "rel_spec (Suc l) (\<lambda>t w w' v. rel_loop t (idx w) w w' v)"
  unfolding rel_spec_def
proof (intro allI impI)
  fix P K live v H t b X M n m
  assume a: "tables P K live v H" "pt_tree (Suc l) (vm_pt v) (table_count v) M t b X" "insert t X \<subseteq> H" "range_ok (Suc l) b n m" "\<forall>x \<in> {n..<m}. M x = Some 0"
  have r: "512 * N dvd b" "b \<le> n" "n \<le> m" "m \<le> b + 512 * N" "b + 512 * N \<le> 2 ^ 36" using a(4) by (simp_all add: range_ok_def)
  have I: "\<And>x. x \<in> {n..<m} \<Longrightarrow> slot_of (Suc l) x \<in> {..<512}" using r by (intro all_slots) auto
  show "\<exists>v' X'. rel_loop t (idx (vaddr_of n)) (vaddr_of n) (vaddr_of m) v = Some v' \<and> framed P K live v H t UNIV X v' X' \<and>
    pt_tree (Suc l) (vm_pt v') (table_count v') (M |` (- {n..<m})) t b X'"
  proof (cases "n = m")
    case True
    have "M |` (- {n..<m}) = M" using True by (simp add: restrict_map_def fun_eq_iff)
    moreover have "framed P K live v H t UNIV X v X" using a(1,3) by (intro framed_refl) auto
    ultimately show ?thesis using True rel_done a(2) by auto
  next
    case False
    then have "n < 2 ^ 36" using r by simp
    from rel_loop_ok [OF a(1) a(2) [unfolded pt_tree.simps] a(3) r I subset_refl a(5)] show ?thesis
      unfolding idx [OF \<open>n < 2 ^ 36\<close>] pt_tree.simps using framed_all by blast
  qed
qed

lemma pop_up: "pop_spec (Suc l) (\<lambda>t w w' v. pop_loop t w (idx w) w w' v)"
  unfolding pop_spec_def
proof (intro allI impI)
  fix P K live v H t b X M n m
  assume a: "tables P K live v H" "pt_tree (Suc l) (vm_pt v) (table_count v) M t b X" "insert t X \<subseteq> H" "range_ok (Suc l) b n m" "\<forall>x \<in> {n..<m}. M x = None"
  have r: "512 * N dvd b" "b \<le> n" "n \<le> m" "m \<le> b + 512 * N" "b + 512 * N \<le> 2 ^ 36" using a(4) by (simp_all add: range_ok_def)
  have I: "\<And>x. x \<in> {n..<m} \<Longrightarrow> slot_of (Suc l) x \<in> {..<512}" using r by (intro all_slots) auto
  have "zeros n n = Map.empty" by (rule ext) (simp add: zeros_def)
  then have z: "M ++ zeros n n = M" by simp
  show "\<exists>rc v' X'. pop_loop t (vaddr_of n) (idx (vaddr_of n)) (vaddr_of n) (vaddr_of m) v = Some (rc, v') \<and> framed P K live v H t UNIV X v' X' \<and>
    (rc = 0 \<and> pt_tree (Suc l) (vm_pt v') (table_count v') (M ++ zeros n m) t b X' \<or> rc = - ENOMEM \<and> pt_tree (Suc l) (vm_pt v') (table_count v') M t b X')"
  proof (cases "n = m")
    case True
    have "framed P K live v H t UNIV X v X" using a(1,3) by (intro framed_refl) auto
    then show ?thesis using True pop_done a(2) z by auto
  next
    case False
    then have n: "n < 2 ^ 36" using r by simp
    have "slots_ok l {..<512} v (M ++ zeros n n) t b X" using a(2) unfolding z pt_tree.simps .
    from pop_loop_ok [OF a(1) this a(3) r(1,2) order.refl r(3-5) disjI1 [OF refl] I subset_refl a(5)] show ?thesis
      unfolding idx [OF n] pt_tree.simps using framed_all by blast
  qed
qed

end

section \<open>The loops of the source at the three levels\<close>

lemma chunk_step:
  assumes "n < m" and "m \<le> 2 ^ 36" and "k = chunk l n m" and "l \<le> 3"
  shows "range_bytes (level_size l) (level_size l - 1) (vaddr_of n) (vaddr_of m) = vaddr_of k" "drop_bit PAGE_BITS (vaddr_of k) = of_nat k"
    "vaddr_of n + vaddr_of k = vaddr_of (n + k)" "vaddr_of n \<noteq> vaddr_of m" "vaddr_of n < vaddr_of m"
proof -
  have k: "k \<le> 2 ^ 36" using assms by (simp add: chunk_def)
  have n: "n \<le> 2 ^ 36" using assms by simp
  show "range_bytes (level_size l) (level_size l - 1) (vaddr_of n) (vaddr_of m) = vaddr_of k"
    unfolding assms(3) by (rule range_bytes_chunk [OF assms(1,2,4)])
  show "drop_bit PAGE_BITS (vaddr_of k) = of_nat k" by (rule pages_of_bytes [OF k])
  show "vaddr_of n + vaddr_of k = vaddr_of (n + k)" by (simp only: of_nat_add add_mult_distrib2)
  show "vaddr_of n < vaddr_of m" using assms(1) by (simp only: vaddr_of_less [OF n assms(2)])
  then show "vaddr_of n \<noteq> vaddr_of m" by (rule order.strict_implies_not_eq)
qed

lemma levels: "1 \<le> (3 :: nat)" "2 \<le> (3 :: nat)" "3 \<le> (3 :: nat)"
  by simp_all

lemmas chunk_step1 = chunk_step [OF _ _ _ levels(1), folded level_sizes PML1_MASK_def]
  and chunk_step2 = chunk_step [OF _ _ _ levels(2), folded level_sizes PML2_MASK_def]
  and chunk_step3 = chunk_step [OF _ _ _ levels(3), folded level_sizes PML3_MASK_def]

lemma set_refcount_pte:
  "set_refcount p u (set_pte t i e v) = set_pte t i e (set_refcount p u v)" "refcount p (set_pte t i e v) = refcount p v"
  "vm_pt (set_refcount p u v) = vm_pt v"
  by (simp_all add: set_refcount_def set_pte_def upd_vm_mem_def refcount_def)

lemma nth_update_same:
  assumes "g y = g (xs ! i)"
  shows "g (xs[i := y] ! j) = g (xs ! j)"
  using assms by (cases "i < length xs"; cases "i = j") (simp_all add: list_update_beyond)

lemma page_paddr_refcount: "page_paddr (vm_mem (set_refcount p u v)) q = page_paddr (vm_mem v) q"
proof -
  let ?ns = "ms_nodes (vm_mem v)"
  let ?nd = "page_upd (snd p) (\<lambda>x. x\<lparr>pg_u := u\<rparr>) (?ns ! fst p)"
  have b: "mn_begin_pfn (?ns[fst p := ?nd] ! j) = mn_begin_pfn (?ns ! j)" for j
    by (rule nth_update_same) (simp add: page_upd_def)
  have "pg_flags (mn_mmap ?nd ! j) = pg_flags (mn_mmap (?ns ! fst p) ! j)" for j
    unfolding page_upd_def by simp (rule nth_update_same, simp)
  then have "pg_flags (mn_mmap (?ns[fst p := ?nd] ! fst q) ! snd q) = pg_flags (mn_mmap (?ns ! fst q) ! snd q)"
    by (rule nth_update_same [where g = "\<lambda>nd. pg_flags (mn_mmap nd ! snd q)"])
  then show ?thesis using b
    by (simp add: page_paddr_def page2pfn_def page_node_def page_node_id_def page_of_def set_refcount_def node_upd_def)
qed

lemma release_pml2_step:
  assumes "w \<noteq> to" and "range_bytes PML1_SIZE PML1_MASK w to = b" and "drop_bit PAGE_BITS b = k" and "w + b = w'"
    and "pte_present (vm_pt v t i)" "\<not> pte_large (vm_pt v t i)" "pte_page (vm_pt v t i) v = Some p"
  shows "release_pml2_loop t i w to v = release_pml2_loop t (i + 1) w' to (pt_put t i p k v)"
  by (subst release_pml2_loop.simps) (simp add: assms)

lemma release_pml3_step:
  assumes "w \<noteq> to" and "range_bytes PML2_SIZE PML2_MASK w to = b" and "drop_bit PAGE_BITS b = k" and "w + b = w'"
    and "pte_present (vm_pt v t i)" "pte_page (vm_pt v t i) v = Some p" "pt_release_pml2 (frame_of (pte_phys (vm_pt v t i))) w w' v = Some v'"
  shows "release_pml3_loop t i w to v = release_pml3_loop t (i + 1) w' to (pt_put t i p k v')"
  by (subst release_pml3_loop.simps) (simp add: assms)

lemma release_pml4_step:
  assumes "w \<noteq> to" and "range_bytes PML3_SIZE PML3_MASK w to = b" and "drop_bit PAGE_BITS b = k" and "w + b = w'"
    and "pte_present (vm_pt v t i)" "pte_page (vm_pt v t i) v = Some p" "pt_release_pml3 (frame_of (pte_phys (vm_pt v t i))) w w' v = Some v'"
  shows "release_pml4_loop t i w to v = release_pml4_loop t (i + 1) w' to (pt_put t i p k v')"
  by (subst release_pml4_loop.simps) (simp add: assms)

lemma populate_pml2_step:
  assumes "w \<noteq> to" and "range_bytes PML1_SIZE PML1_MASK w to = b" and "drop_bit PAGE_BITS b = of_nat k" and "w + b = w'" and "ok_flags flags"
  shows "opens flags t i k v p f v2 \<Longrightarrow> populate_pml2_loop t from i w to flags v = populate_pml2_loop t from (i + 1) w' to flags v2"
    and "\<not> pte_present (vm_pt v t i) \<Longrightarrow> alloc_page_table flags v = Some (None, v1) \<Longrightarrow> release_pml2_loop t (pml2_i from) from w v1 = Some v' \<Longrightarrow>
      populate_pml2_loop t from i w to flags v = Some (- ENOMEM, v')"
proof -
  have l: "\<not> pte_large flags" using assms(5) by (simp add: ok_flags_def)
  show "opens flags t i k v p f v2 \<Longrightarrow> populate_pml2_loop t from i w to flags v = populate_pml2_loop t from (i + 1) w' to flags v2"
    by (subst populate_pml2_loop.simps) (auto simp: opens_def assms l set_refcount_pte page_paddr_refcount)
  show "\<not> pte_present (vm_pt v t i) \<Longrightarrow> alloc_page_table flags v = Some (None, v1) \<Longrightarrow> release_pml2_loop t (pml2_i from) from w v1 = Some v' \<Longrightarrow>
      populate_pml2_loop t from i w to flags v = Some (- ENOMEM, v')"
    by (subst populate_pml2_loop.simps) (simp add: assms l pt_release_pml2_def)
qed

lemma populate_pml3_step:
  assumes "w \<noteq> to" and "range_bytes PML2_SIZE PML2_MASK w to = b" and "drop_bit PAGE_BITS b = of_nat k" and "w + b = w'" and "ok_flags flags"
  shows "opens flags t i k v p f v2 \<Longrightarrow> pt_populate_pml2 f w w' flags v2 = Some (0, v3) \<Longrightarrow>
      populate_pml3_loop t from i w to flags v = populate_pml3_loop t from (i + 1) w' to flags v3"
    and "opens flags t i k v p f v2 \<Longrightarrow> pt_populate_pml2 f w w' flags v2 = Some (rc, v3) \<Longrightarrow> rc \<noteq> 0 \<Longrightarrow>
      release_pml3_loop t (pml3_i from) from w v3 = Some v4 \<Longrightarrow> populate_pml3_loop t from i w to flags v = Some (rc, pt_put t i p (of_nat k) v4)"
    and "\<not> pte_present (vm_pt v t i) \<Longrightarrow> alloc_page_table flags v = Some (None, v1) \<Longrightarrow> release_pml3_loop t (pml3_i from) from w v1 = Some v' \<Longrightarrow>
      populate_pml3_loop t from i w to flags v = Some (- ENOMEM, v')"
proof goal_cases
  case 1
  then show ?case by (subst populate_pml3_loop.simps) (auto simp: Let_def opens_def assms entry_flags(3) set_refcount_pte)
next
  case 2
  then show ?case by (subst populate_pml3_loop.simps) (auto simp: Let_def opens_def assms entry_flags(3) set_refcount_pte pt_release_pml3_def)
next
  case 3
  then show ?case by (subst populate_pml3_loop.simps) (simp add: assms pt_release_pml3_def)
qed

lemma populate_pml4_step:
  assumes "w < to" and "range_bytes PML3_SIZE PML3_MASK w to = b" and "drop_bit PAGE_BITS b = of_nat k" and "w + b = w'" and "ok_flags flags"
  shows "opens flags t i k v p f v2 \<Longrightarrow> pt_populate_pml3 f w w' flags v2 = Some (0, v3) \<Longrightarrow>
      populate_pml4_loop t from i w to flags v = populate_pml4_loop t from (i + 1) w' to flags v3"
    and "opens flags t i k v p f v2 \<Longrightarrow> pt_populate_pml3 f w w' flags v2 = Some (rc, v3) \<Longrightarrow> rc \<noteq> 0 \<Longrightarrow>
      release_pml4_loop t (pml4_i from) from w v3 = Some v4 \<Longrightarrow> populate_pml4_loop t from i w to flags v = Some (rc, pt_put t i p (of_nat k) v4)"
    and "\<not> pte_present (vm_pt v t i) \<Longrightarrow> alloc_page_table flags v = Some (None, v1) \<Longrightarrow> release_pml4_loop t (pml4_i from) from w v1 = Some v' \<Longrightarrow>
      populate_pml4_loop t from i w to flags v = Some (- ENOMEM, v')"
proof goal_cases
  case 1
  then show ?case by (subst populate_pml4_loop.simps) (auto simp: Let_def opens_def assms entry_flags(3) set_refcount_pte)
next
  case 2
  then show ?case by (subst populate_pml4_loop.simps) (auto simp: Let_def opens_def assms entry_flags(3) set_refcount_pte pt_release_pml4_def)
next
  case 3
  then show ?case by (subst populate_pml4_loop.simps) (simp add: assms pt_release_pml4_def)
qed

text \<open>The flags of the tables of a process.\<close>

definition user_flags :: pte_t where
  "user_flags = PTE_PT_FLAGS OR PTE_PRESENT"

lemma user_flags_ok: "ok_flags user_flags"
  by (simp add: ok_flags_def user_flags_def PTE_PT_FLAGS_def PTE_FLAGS_def PTE_PRESENT_def PTE_WRITE_def PTE_USER_def PTE_LARGE_def PTE_LOW_def
      BIT_CONST_def pte_present_def pte_large_def)

interpretation pml2: pt_level 0 user_flags pml2_i "\<lambda>t w w' v. Some v" "\<lambda>t w w' v. Some (0, v)" release_pml2_loop
  "\<lambda>t from i w w' v. populate_pml2_loop t from i w w' user_flags v"
proof (unfold_locales, goal_cases)
  case (3 n)
  then show ?case by (simp only: pml_i_page One_nat_def)
next
  case (7 n m k v t i p v')
  note c = chunk_step1 [OF 7(1,2) 7(3) [folded One_nat_def]]
  show ?case using release_pml2_step [OF c(4,1,2,3) 7(4,5,6)] 7(7) by (simp only: option.inject)
next
  case (9 n m v t i v1 w v2)
  note c = chunk_step1 [OF 9(1,2) refl]
  show ?case by (rule populate_pml2_step(2) [OF c(4,1,2,3) user_flags_ok 9(3,4,5)])
next
  case (10 n m k t i v p f v2 v3 w)
  note c = chunk_step1 [OF 10(1,2) 10(3) [folded One_nat_def]]
  show ?case using populate_pml2_step(1) [OF c(4,1,2,3) user_flags_ok 10(4)] 10(5) by (simp only: option.inject prod.inject)
qed (simp_all add: rel_spec_leaf pop_spec_leaf user_flags_ok release_pml2_loop.simps populate_pml2_loop.simps)

interpretation pml3: pt_level 1 user_flags pml3_i pt_release_pml2 "\<lambda>t w w' v. pt_populate_pml2 t w w' user_flags v" release_pml3_loop
  "\<lambda>t from i w w' v. populate_pml3_loop t from i w w' user_flags v"
proof (unfold_locales, goal_cases)
  case (3 n)
  then show ?case by (simp only: pml_i_page Suc_1)
next
  case 4
  show ?case using pml2.rel_up by (simp add: pt_release_pml2_def [abs_def])
next
  case 5
  show ?case using pml2.pop_up by (simp add: pt_populate_pml2_def [abs_def])
next
  case (7 n m k v t i p v')
  note c = chunk_step2 [OF 7(1,2) 7(3) [unfolded Suc_1]]
  show ?case by (rule release_pml3_step [OF c(4,1,2,3) 7(4,6,7)])
next
  case (9 n m v t i v1 w v2)
  note c = chunk_step2 [OF 9(1,2) refl]
  show ?case by (rule populate_pml3_step(3) [OF c(4,1,2,3) user_flags_ok 9(3,4,5)])
next
  case (10 n m k t i v p f v2 v3 w)
  note c = chunk_step2 [OF 10(1,2) 10(3) [unfolded Suc_1]]
  show ?case by (rule populate_pml3_step(1) [OF c(4,1,2,3) user_flags_ok 10(4,5)])
next
  case (11 n m k t i v p f v2 rc v3 w v4)
  note c = chunk_step2 [OF 11(1,2) 11(3) [unfolded Suc_1]]
  show ?case by (rule populate_pml3_step(2) [OF c(4,1,2,3) user_flags_ok 11(4,5,6,7)])
qed (simp_all add: user_flags_ok release_pml3_loop.simps populate_pml3_loop.simps)

lemma suc2: "Suc 2 = 3"
  by simp

interpretation pml4: pt_level 2 user_flags pml4_i pt_release_pml3 "\<lambda>t w w' v. pt_populate_pml3 t w w' user_flags v" release_pml4_loop
  "\<lambda>t from i w w' v. populate_pml4_loop t from i w w' user_flags v"
proof (unfold_locales, goal_cases)
  case (3 n)
  then show ?case by (simp only: pml_i_page suc2)
next
  case 4
  show ?case using pml3.rel_up [unfolded Suc_1] by (simp add: pt_release_pml3_def [abs_def])
next
  case 5
  show ?case using pml3.pop_up [unfolded Suc_1] by (simp add: pt_populate_pml3_def [abs_def])
next
  case (7 n m k v t i p v')
  note c = chunk_step3 [OF 7(1,2) 7(3) [unfolded suc2]]
  show ?case by (rule release_pml4_step [OF c(4,1,2,3) 7(4,6,7)])
next
  case (9 n m v t i v1 w v2)
  note c = chunk_step3 [OF 9(1,2) refl]
  show ?case by (rule populate_pml4_step(3) [OF c(5,1,2,3) user_flags_ok 9(3,4,5)])
next
  case (10 n m k t i v p f v2 v3 w)
  note c = chunk_step3 [OF 10(1,2) 10(3) [unfolded suc2]]
  show ?case by (rule populate_pml4_step(1) [OF c(5,1,2,3) user_flags_ok 10(4,5)])
next
  case (11 n m k t i v p f v2 rc v3 w v4)
  note c = chunk_step3 [OF 11(1,2) 11(3) [unfolded suc2]]
  show ?case by (rule populate_pml4_step(2) [OF c(5,1,2,3) user_flags_ok 11(4,5,6,7)])
qed (simp_all add: user_flags_ok release_pml4_loop.simps populate_pml4_loop.simps)

section \<open>The tables of a process\<close>

text \<open>
  \<open>M\<close> is the map of a user address space, from page numbers to the entries of the last level, \<open>X\<close> the frames of the
  tables below the root and \<open>H\<close> the frames of all tables of the kernel. Only the lower half of the root is for user
  pages.
\<close>

definition user_space :: "(page_ptr \<times> nat) set \<Rightarrow> nat set \<Rightarrow> (nat \<Rightarrow> nat set) \<Rightarrow> vm \<Rightarrow> nat set \<Rightarrow> nat \<Rightarrow> (nat \<rightharpoonup> pte_t) \<Rightarrow> nat set \<Rightarrow> bool" where
  "user_space P K live v H root M X \<longleftrightarrow> tables P K live v H \<and> insert root X \<subseteq> H \<and> slots_ok 2 {..<256} v M root 0 X"

text \<open>What stays as it was: the other tables with their counts and the kernel half of the root.\<close>

definition other_tables_same :: "vm \<Rightarrow> vm \<Rightarrow> nat set \<Rightarrow> nat \<Rightarrow> nat set \<Rightarrow> bool" where
  "other_tables_same v v' H root X \<longleftrightarrow> (\<forall>g \<in> H - X - {root}. vm_pt v' g = vm_pt v g) \<and>
     (\<forall>i \<ge> 256. vm_pt v' root i = vm_pt v root i) \<and> (\<forall>g \<in> H - X. table_count v' g = table_count v g)"

definition first_page :: "u64 \<Rightarrow> nat" where "first_page from = unat from div 4096"
definition last_page :: "u64 \<Rightarrow> nat" where "last_page to = (unat to + 4095) div 4096"

lemma linear_user: "w \<le> 2 ^ 47 \<Longrightarrow> linear w = w"
proof -
  assume w: "w \<le> 2 ^ 47"
  have "unat w \<le> 2 ^ 47" using w unat_exp2 [of 47] by (simp add: word_le_nat_alt)
  then have "unat w < 2 ^ 48" by simp
  then have "take_bit 48 w = w" by (simp add: word_unat_eq_iff unsigned_take_bit_eq take_bit_nat_eq_self)
  moreover have "BITS_CONST 47 0 = (mask 48 :: u64)" by (rule bit_word_eqI) (auto simp: bit_BITS_CONST bit_simps)
  ultimately show "linear w = w" by (simp add: linear_def take_bit_eq_mask)
qed

lemma user_range:
  assumes "from < to" and "to \<le> 2 ^ 47"
  shows "linear from = from" "linear to = to" "ALIGN_DOWN from PAGE_SIZE = vaddr_of (first_page from)" "ALIGN to PAGE_SIZE = vaddr_of (last_page to)"
    "first_page from < last_page to" "last_page to \<le> 2 ^ 35" "pml4_i (vaddr_of (first_page from)) = slot_of 3 (first_page from)"
proof -
  show "linear from = from" "linear to = to" using assms by (auto intro: linear_user)
  have u: "unat to \<le> 2 ^ 47" "unat from < unat to" using assms unat_exp2 [of 47] by (simp_all add: word_le_nat_alt word_less_nat_alt)
  have ps: "PAGE_SIZE = 2 ^ 12" by (simp add: PAGE_SIZE_def PAGE_BITS_def BIT_CONST_exp)
  show l: "last_page to \<le> 2 ^ 35" using u(1) by (simp add: last_page_def)
  show "first_page from < last_page to" using u by (simp add: first_page_def last_page_def)
  then have f: "first_page from \<le> 2 ^ 36" "last_page to \<le> 2 ^ 36" using l by simp_all
  show "pml4_i (vaddr_of (first_page from)) = slot_of 3 (first_page from)"
    by (rule pml_i_page(1)) (use \<open>first_page from < last_page to\<close> l in simp)
  have "unat (ALIGN_DOWN from PAGE_SIZE) = 4096 * first_page from" unfolding ps by (subst ALIGN_DOWN_unat) (simp_all add: first_page_def)
  then show "ALIGN_DOWN from PAGE_SIZE = vaddr_of (first_page from)" by (simp only: word_unat_eq_iff vaddr_of_unat [OF f(1)])
  have "unat (ALIGN to PAGE_SIZE) = 4096 * last_page to" unfolding ps using u by (subst ALIGN_unat) (simp_all add: last_page_def)
  then show "ALIGN to PAGE_SIZE = vaddr_of (last_page to)" by (simp only: word_unat_eq_iff vaddr_of_unat [OF f(2)])
qed

lemma user_slots: "x < 2 ^ 35 \<Longrightarrow> slot_of 3 x \<in> {..<256}"
  by (simp add: slot_of_def less_mult_imp_div_less)

lemma framed_user:
  assumes "framed P K live v H root {..<256} X v' X'" and "insert root X \<subseteq> H" "root \<notin> X"
  shows "tables P K live v' (H - X \<union> X')" "insert root X' \<subseteq> H - X \<union> X'" "other_tables_same v v' H root X"
  using assms unfolding framed_def other_tables_same_def by auto

lemma pt_populate_range_ok:
  assumes a: "tables P K live v H" "slots_ok 2 {..<256} v M root 0 X" "insert root X \<subseteq> H" and "from < to" "to \<le> 2 ^ 47"
    and "\<forall>x \<in> {first_page from..<last_page to}. M x = None"
  shows "\<exists>rc v' X'. pt_populate_range root from to v = Some (rc, v') \<and> framed P K live v H root {..<256} X v' X' \<and>
    (rc = 0 \<and> slots_ok 2 {..<256} v' (M ++ zeros (first_page from) (last_page to)) root 0 X' \<or> rc = - ENOMEM \<and> slots_ok 2 {..<256} v' M root 0 X')"
proof -
  let ?n = "first_page from" and ?m = "last_page to"
  note r = user_range [OF assms(4,5)]
  have "zeros ?n ?n = Map.empty" by (rule ext) (simp add: zeros_def)
  then have s: "slots_ok 2 {..<256} v (M ++ zeros ?n ?n) root 0 X" using a(2) by simp
  have fl: "PTE_PT_FLAGS AND NOT PTE_FLAGS = 0" using user_flags_ok
    by (simp add: PTE_PT_FLAGS_def PTE_FLAGS_def PTE_PRESENT_def PTE_WRITE_def PTE_USER_def PTE_LARGE_def PTE_LOW_def BIT_CONST_def)
  have call: "pt_populate_range root from to v = populate_pml4_loop root (vaddr_of ?n) (slot_of 3 ?n) (vaddr_of ?n) (vaddr_of ?m) user_flags v"
    using assms(4) fl by (simp only: pt_populate_range_def pt_populate_range_flags_def r(1-4,7) user_flags_def pt_populate_pml4_def) simp
  show ?thesis
    unfolding call suc2 [symmetric]
    by (rule pml4.pop_loop_ok [OF a(1) s a(3)]) (use r(5,6) assms(6) user_slots in auto)
qed

lemma pt_release_range_ok:
  assumes a: "tables P K live v H" "slots_ok 2 {..<256} v M root 0 X" "insert root X \<subseteq> H" and "from < to" "to \<le> 2 ^ 47"
    and "\<forall>x \<in> {first_page from..<last_page to}. M x = Some 0"
  shows "\<exists>v' X'. pt_release_range root from to v = Some v' \<and> framed P K live v H root {..<256} X v' X' \<and>
    slots_ok 2 {..<256} v' (M |` (- {first_page from..<last_page to})) root 0 X'"
proof -
  let ?n = "first_page from" and ?m = "last_page to"
  note r = user_range [OF assms(4,5)]
  have call: "pt_release_range root from to v = release_pml4_loop root (slot_of 3 ?n) (vaddr_of ?n) (vaddr_of ?m) v"
    using assms(4) by (simp only: pt_release_range_def r(1-4,7) pt_release_pml4_def) simp
  show ?thesis
    unfolding call suc2 [symmetric] by (rule pml4.rel_loop_ok [OF a]) (use r(5,6) assms(6) user_slots in auto)
qed

text \<open>C32: populating a range of user addresses, aligned or not, of which no page is mapped, returns: with 0 the pages
  of the range are in the map with empty entries, with \<open>- ENOMEM\<close> the map is what it was and every table the attempt
  made is gone. The counts of the tables, the tables of other address spaces and the kernel half of the root are kept.\<close>

theorem pt_populate_range_correct:
  assumes "user_space P K live v H root M X" and "from < to" "to \<le> 2 ^ 47"
    and "\<forall>x \<in> {first_page from..<last_page to}. M x = None"
  shows "\<exists>rc v' X'. pt_populate_range root from to v = Some (rc, v') \<and> (rc = 0 \<or> rc = - ENOMEM) \<and>
    user_space P K live v' (H - X \<union> X') root (if rc = 0 then M ++ zeros (first_page from) (last_page to) else M) X' \<and>
    other_tables_same v v' H root X"
proof -
  let ?M = "M ++ zeros (first_page from) (last_page to)"
  have a: "tables P K live v H" "slots_ok 2 {..<256} v M root 0 X" "insert root X \<subseteq> H" using assms(1) by (simp_all add: user_space_def)
  have t: "root \<notin> X" using a(2) by (rule pt_slotsE)
  obtain rc v' X' where c: "pt_populate_range root from to v = Some (rc, v')" "framed P K live v H root {..<256} X v' X'"
    "rc = 0 \<and> slots_ok 2 {..<256} v' ?M root 0 X' \<or> rc = - ENOMEM \<and> slots_ok 2 {..<256} v' M root 0 X'"
    using pt_populate_range_ok [OF a assms(2-4)] by (elim exE conjE) (rule that)
  have "slots_ok 2 {..<256} v' (if rc = 0 then ?M else M) root 0 X'" "rc = 0 \<or> rc = - ENOMEM" using c(3) by auto
  then show ?thesis using c(1) framed_user [OF c(2) a(3) t] unfolding user_space_def by blast
qed

text \<open>C33: releasing a range whose entries are empty returns, takes exactly its pages out of the map and frees the
  tables that have no page left, again with the counts, other tables and the kernel half of the root kept.\<close>

theorem pt_release_range_correct:
  assumes "user_space P K live v H root M X" and "from < to" "to \<le> 2 ^ 47"
    and "\<forall>x \<in> {first_page from..<last_page to}. M x = Some 0"
  shows "\<exists>v' X'. pt_release_range root from to v = Some v' \<and>
    user_space P K live v' (H - X \<union> X') root (M |` (- {first_page from..<last_page to})) X' \<and> other_tables_same v v' H root X"
proof -
  have a: "tables P K live v H" "slots_ok 2 {..<256} v M root 0 X" "insert root X \<subseteq> H" using assms(1) by (simp_all add: user_space_def)
  have t: "root \<notin> X" using a(2) by (rule pt_slotsE)
  from pt_release_range_ok [OF a assms(2-4)] obtain v' X' where c: "pt_release_range root from to v = Some v'"
    "framed P K live v H root {..<256} X v' X'" "slots_ok 2 {..<256} v' (M |` (- {first_page from..<last_page to})) root 0 X'"
    by (elim exE conjE) (rule that)
  then show ?thesis using framed_user [OF c(2) a(3) t] unfolding user_space_def by blast
qed

section \<open>The iterator finds the entries\<close>

lemma pt_index_slot: "x < 2 ^ 36 \<Longrightarrow> l \<le> 3 \<Longrightarrow> pt_index (vaddr_of x) (Suc l) = slot_of l x"
proof -
  assume x: "x < 2 ^ 36" and "l \<le> 3"
  then consider "l = 0" | "l = 1" | "l = 2" | "l = 3" by linarith
  then show ?thesis using pml_i_page [OF x] by cases (simp_all only: pt_index_def, simp_all)
qed

text \<open>Where the way down for page \<open>x\<close> ends: at the entry of the page, or at an entry that is not present.\<close>

definition found :: "vm \<Rightarrow> (nat \<rightharpoonup> pte_t) \<Rightarrow> nat \<Rightarrow> nat \<Rightarrow> pt_iter \<Rightarrow> bool" where
  "found v M x lv it \<longleftrightarrow> (\<exists>t. it_pt it lv = Some t \<and> it_idx it lv = slot_of lv x \<and>
     (case M x of None \<Rightarrow> \<not> pte_present (vm_pt v t (slot_of lv x)) | Some e \<Rightarrow> lv = 0 \<and> vm_pt v t (slot_of lv x) = e))"

definition descends :: "vm \<Rightarrow> (nat \<rightharpoonup> pte_t) \<Rightarrow> nat \<Rightarrow> nat \<Rightarrow> nat \<Rightarrow> pt_iter \<Rightarrow> bool" where
  "descends v M x l t it \<longleftrightarrow> (\<forall>lv it'. it_pt it l = Some t \<longrightarrow> it_idx it l = slot_of l x \<longrightarrow>
     iter_descend (pt_index (vaddr_of x)) v l (vm_pt v t (slot_of l x)) it = (lv, it') \<longrightarrow>
     found v M x lv it' \<and> lv \<le> l \<and> (\<forall>k. lv \<le> k \<and> k < l \<longrightarrow> it_idx it' k = slot_of k x) \<and> (\<forall>k \<ge> l. it_idx it' k = it_idx it k))"

lemma iter_descend_slot:
  assumes sub: "\<And>f Y it. pt_tree l (vm_pt v) (table_count v) M f c Y \<Longrightarrow> descends v M x l f it"
    and sl: "slot_ok l v M t (slot_of (Suc l) x) c X" and x: "c \<le> x" "x < c + 512 ^ Suc l" "x < 2 ^ 36" and l: "l \<le> 3"
  shows "descends v M x (Suc l) t it"
  unfolding descends_def
proof (intro allI impI)
  let ?e = "vm_pt v t (slot_of (Suc l) x)"
  let ?f = "frame_of (pte_phys ?e)"
  fix lv it'
  assume it: "it_pt it (Suc l) = Some t" "it_idx it (Suc l) = slot_of (Suc l) x"
    and d: "iter_descend (pt_index (vaddr_of x)) v (Suc l) ?e it = (lv, it')"
  show "found v M x lv it' \<and> lv \<le> Suc l \<and> (\<forall>k. lv \<le> k \<and> k < Suc l \<longrightarrow> it_idx it' k = slot_of k x) \<and> (\<forall>k \<ge> Suc l. it_idx it' k = it_idx it k)"
  proof (cases "dom M \<inter> {c..<c + 512 ^ Suc l} = {}")
    case True
    then have np: "\<not> pte_present ?e" using sl unfolding pt_slot_def by (simp only: if_True simp_thms)
    have "x \<notin> dom M" using True x by (auto simp del: power_Suc)
    then have "M x = None" by (simp add: domIff)
    then show ?thesis using it d np by (auto simp: found_def)
  next
    case False
    obtain Y where Y: "pte_present ?e" "\<not> pte_large ?e" "pt_tree l (vm_pt v) (table_count v) M ?f c Y"
      using sl False unfolding pt_slot_def by (simp only: if_False) blast
    let ?it = "it\<lparr>it_idx := (it_idx it)(l := slot_of l x), it_pt := (it_pt it)(l := Some ?f)\<rparr>"
    have "pt_index (vaddr_of x) (Suc l) = slot_of l x" by (rule pt_index_slot [OF x(3) l])
    then have d': "iter_descend (pt_index (vaddr_of x)) v l (vm_pt v ?f (slot_of l x)) ?it = (lv, it')"
      using d Y(1,2) by (simp only: iter_descend.simps simp_thms if_True Let_def)
    have "found v M x lv it' \<and> lv \<le> l \<and> (\<forall>k. lv \<le> k \<and> k < l \<longrightarrow> it_idx it' k = slot_of k x) \<and> (\<forall>k \<ge> l. it_idx it' k = it_idx ?it k)"
      by (rule sub [OF Y(3), unfolded descends_def, rule_format, OF _ _ d']) simp_all
    then show ?thesis by (auto simp: less_Suc_eq)
  qed
qed

lemma iter_descend_found:
  assumes "pt_tree l (vm_pt v) (table_count v) M t b X" and "512 ^ Suc l dvd b" and "b \<le> x" "x < b + 512 ^ Suc l" "x < 2 ^ 36" "l \<le> 3"
  shows "descends v M x l t it"
  using assms
proof (induction l arbitrary: t b X it)
  case (0 t b X it)
  obtain c where "b = 512 * c" using 0(2) by auto
  then have "x mod 512 = x - b" using 0(3,4) by (auto simp: le_iff_add)
  then have "b + slot_of 0 x = x" "slot_of 0 x < 512" using 0(3,4) by (simp_all add: slot_of_def)
  then have "vm_pt v t (slot_of 0 x) = (case M x of None \<Rightarrow> 0 | Some e \<Rightarrow> e)" using 0(1) by (auto split: option.splits)
  then show ?case by (auto simp: found_def descends_def split: option.splits)
next
  case (Suc l t b X it)
  let ?N = "512 ^ Suc l :: nat" and ?j = "slot_of (Suc l) x"
  have r: "512 * ?N dvd b" "x < b + 512 * ?N" and N: "0 < ?N" using Suc.prems(2,4) by simp_all
  note g = slot_geometry [OF r(1) Suc.prems(3) r(2) N]
  have sl: "slots_ok l {..<512} v M t b X" using Suc.prems(1) unfolding pt_tree.simps .
  have jI: "?j \<in> {..<512}" by (simp add: slot_of_def)
  obtain X1 where X1: "slot_ok l v M t ?j (b + ?j * ?N) X1" by (rule slots_split [OF sl jI])
  have x: "b + ?j * ?N \<le> x" "x < b + ?j * ?N + ?N" "?N dvd b + ?j * ?N" using g by (simp_all add: slot_of_def)
  have l: "l \<le> 3" using Suc.prems(6) by simp
  show ?case by (rule iter_descend_slot [OF Suc.IH [OF _ x(3,1,2) Suc.prems(5) l] X1 x(1,2) Suc.prems(5) l])
qed

lemma slot_bits:
  assumes "x < 2 ^ 35" and "l \<le> 3"
  shows "(of_nat (slot_of l x) :: u64) = take_bit 9 (drop_bit (9 * l) (of_nat x))"
proof -
  have u: "unat (of_nat x :: u64) = x" using assms(1) by (intro unat_of_nat64) simp
  have "unat (of_nat (slot_of l x) :: u64) = slot_of l x" by (intro unat_of_nat64) (simp add: slot_of_def less_le_trans [OF mod_less_divisor])
  moreover have "unat (take_bit 9 (drop_bit (9 * l) (of_nat x :: u64))) = slot_of l x"
    unfolding unsigned_take_bit_eq unat_drop_bit_eq u by (simp add: take_bit_eq_mod drop_bit_eq_div slot_of_def power_mult)
  ultimately show ?thesis by (simp only: word_unat_eq_iff)
qed

lemma join_slots:
  fixes y :: u64
  assumes "\<And>n. bit y n \<Longrightarrow> n < 35"
  shows "push_bit 39 (take_bit 9 (drop_bit 27 y)) OR push_bit 30 (take_bit 9 (drop_bit 18 y)) OR
    push_bit 21 (take_bit 9 (drop_bit 9 y)) OR push_bit 12 (take_bit 9 y) = push_bit 12 y"
proof (rule bit_word_eqI)
  fix n assume n: "n < LENGTH(64)"
  let ?l = "push_bit 39 (take_bit 9 (drop_bit 27 y)) OR push_bit 30 (take_bit 9 (drop_bit 18 y)) OR
    push_bit 21 (take_bit 9 (drop_bit 9 y)) OR push_bit 12 (take_bit 9 y)"
  have at: "bit ?l (k + m) \<longleftrightarrow> bit (push_bit 12 y) (k + m)" if "k \<in> {12, 21, 30}" "m < 9" for k m using that by (auto simp: bit_simps)
  have last: "bit ?l (39 + m) \<longleftrightarrow> bit (push_bit 12 y) (39 + m)" for m using assms [of "27 + m"] by (auto simp: bit_simps)
  have low: "bit ?l m \<longleftrightarrow> bit (push_bit 12 y) m" if "m < 12" for m using that by (simp add: bit_simps)
  consider "n < 12" | "12 \<le> n" "n - 12 < 9" | "21 \<le> n" "n - 21 < 9" | "30 \<le> n" "n - 30 < 9" | "39 \<le> n" by linarith
  then show "bit ?l n \<longleftrightarrow> bit (push_bit 12 y) n"
    using low [of n] at [of 12 "n - 12"] at [of 21 "n - 21"] at [of 30 "n - 30"] last [of "n - 39"]
    by cases (simp_all only: le_add_diff_inverse insert_iff simp_thms)
qed

lemma slots_addr:
  assumes "x < 2 ^ 35" and "\<And>l. l \<le> 3 \<Longrightarrow> it_idx it l = slot_of l x"
  shows "pt_iter_addr it = vaddr_of x"
proof -
  let ?y = "of_nat x :: u64"
  have v: "vaddr_of x = push_bit 12 ?y" by (simp add: push_bit_eq_mult)
  have "unat ?y = x" using assms(1) by (intro unat_of_nat64) simp
  then have "take_bit 35 ?y = ?y"
    using assms(1) by (simp add: word_unat_eq_iff unsigned_take_bit_eq take_bit_nat_eq_self)
  then have small: "bit ?y n \<Longrightarrow> n < 35" for n by (metis bit_take_bit_iff)
  have i: "(of_nat (it_idx it 3) :: u64) = take_bit 9 (drop_bit 27 ?y)" "(of_nat (it_idx it 2) :: u64) = take_bit 9 (drop_bit 18 ?y)"
    "(of_nat (it_idx it 1) :: u64) = take_bit 9 (drop_bit 9 ?y)" "(of_nat (it_idx it 0) :: u64) = take_bit 9 ?y"
    using slot_bits [OF assms(1)] assms(2) by simp_all
  have "\<not> bit (push_bit 12 ?y) 47" using small [of 35] by (auto simp: bit_simps)
  then have "push_bit 12 ?y AND BIT_CONST 47 = 0" by (intro bit_word_eqI) (auto simp: bit_simps)
  moreover have "push_bit 39 (of_nat (it_idx it 3)) OR push_bit 30 (of_nat (it_idx it 2)) OR push_bit 21 (of_nat (it_idx it 1)) OR
    push_bit 12 (of_nat (it_idx it 0)) = push_bit 12 ?y" unfolding i by (rule join_slots [OF small])
  ultimately show ?thesis unfolding pt_iter_addr_def canonical_def v by (simp only: if_True simp_thms)
qed

text \<open>An iterator set to a user page of the map stands at the last level on the entry of that page with the address
  of the page; set to any other user page, it stands on an entry that is not present.\<close>

theorem pt_iter_set_finds:
  assumes "user_space P K live v H root M X" and "x < 2 ^ 35" and "it = pt_iter_set (Some root) (of_nat (4096 * x)) v"
  shows "case M x of
      Some e \<Rightarrow> it_level it = 0 \<and> iter_pte it v = Some e \<and> it_addr it = of_nat (4096 * x)
    | None \<Rightarrow> pt_iter_present it v = Some False"
proof -
  let ?it = "\<lparr>it_level = 0, it_pt = (\<lambda>_. None)(3 := Some root), it_idx = (\<lambda>_. 0)(3 := slot_of 3 x), it_addr = 0\<rparr>"
  obtain lv it' where d: "iter_descend (pt_index (vaddr_of x)) v 3 (vm_pt v root (slot_of 3 x)) ?it = (lv, it')" by (metis prod.exhaust)
  have x: "x < 2 ^ 36" using assms(2) by simp
  have it: "it = it'\<lparr>it_addr := pt_iter_addr it', it_level := lv\<rparr>"
    using d unfolding assms(3) pt_iter_set_def pml_i_page(1) [OF x] PT_MAX_LEVEL_def by (simp add: Let_def)
  have sl: "slots_ok 2 {..<256} v M root 0 X" using assms(1) by (simp add: user_space_def)
  let ?j = "slot_of 3 x" and ?N = "512 ^ Suc 2 :: nat"
  have "?j \<in> {..<256}" by (rule user_slots [OF assms(2)])
  then obtain X1 where "slot_ok 2 v M root ?j (0 + ?j * ?N) X1" by (rule slots_split [OF sl])
  then have X1: "slot_ok 2 v M root ?j (?j * ?N) X1" by (simp only: add_0)
  have g: "?j * ?N \<le> x" "x < ?j * ?N + ?N" "?N dvd ?j * ?N"
    using slot_geometry [of ?N 0 x] x by (simp_all add: slot_of_def)
  have "descends v M x 3 root ?it"
    using iter_descend_slot [OF iter_descend_found [OF _ g(3,1,2) x] _ g(1,2) x] X1 by (simp only: suc2)
  then have "found v M x lv it' \<and> lv \<le> 3 \<and> (\<forall>k. lv \<le> k \<and> k < 3 \<longrightarrow> it_idx it' k = slot_of k x) \<and> (\<forall>k \<ge> 3. it_idx it' k = it_idx ?it k)"
    unfolding descends_def using d by auto
  then have f: "found v M x lv it'" "lv \<le> 3" "\<forall>k. lv \<le> k \<and> k \<le> 3 \<longrightarrow> it_idx it' k = slot_of k x"
    by (auto simp: le_less)
  show ?thesis
  proof (cases "M x")
    case None
    then show ?thesis using f by (auto simp: it found_def pt_iter_present_def iter_pte_def)
  next
    case (Some e)
    then have "lv = 0" using f by (auto simp: found_def)
    then have "pt_iter_addr it' = vaddr_of x" using f assms(2) by (intro slots_addr) auto
    then show ?thesis using f Some by (auto simp: it found_def iter_pte_def simp del: of_nat_mult)
  qed
qed

section \<open>An address space with one page\<close>

text \<open>
  Four frames, all of them tables: the root, and one table of each level below it for page 0. The memory has no free
  pages, so that tables for other parts of the address space cannot be had.
\<close>

lemma node_inv_hold:
  assumes "node_inv node {} {}" and "block_partition (length (mn_mmap node)) L"
  shows "node_inv node {} L"
proof -
  obtain F where F: "buddy_inv node F {} {}" "{} = frames (blocks F)" using assms(1) by (auto simp: node_inv_def)
  have b: "blocks F = {}"
  proof (rule ccontr)
    assume "blocks F \<noteq> {}"
    then show False using F(2) by (fastforce simp: frames_def blk_def)
  qed
  have "wf_block (length (mn_mmap node)) x" if "x \<in> L" for x using assms(2) that by (simp add: block_partition_def)
  then have len: "fst x < length (mn_mmap node)" if "x \<in> L" for x
    using that unfolding wf_block_def by (metis add_lessD1 less_add_same_cancel1 order_less_le_trans zero_less_numeral zero_less_power)
  have "page_busy (mn_mmap node ! p)" if "p < length (mn_mmap node)" for p
    using F(1) b that by (simp add: buddy_inv_def flags_ok_def)
  then have "\<forall>x \<in> L. page_busy (mn_mmap node ! fst x)" using len by blast
  then have "buddy_inv node F L {}" using F(1) b assms(2) by (simp add: buddy_inv_def flags_ok_def)
  then show ?thesis using F(2) by (auto simp: node_inv_def)
qed

definition table_entry :: "nat \<Rightarrow> pte_t" where
  "table_entry f = push_bit 12 (of_nat f) OR user_flags"

definition table_node :: memory_node where
  "table_node = make_node NT_LOW 0 8 0 (\<lambda>_. 0) \<lparr>l_next = id, l_prev = id\<rparr>"

definition table_boot :: mem_state where
  "table_boot = sample_boot\<lparr>ms_nodes := [table_node]\<rparr>"

definition table_mem :: mem_state where
  "table_mem = order_nodes (the (free_region_loop 0 3 8 5 table_boot))"

definition sample_tables :: vm where
  "sample_tables = \<lparr>vm_kmem = kmem_small_cache_init 7 100 (2 ^ 4) (sample_kmem\<lparr>k_mem := table_mem\<rparr>),
     vm_pt = (\<lambda>_ _. 0), vm_kmap = sample_kmap, vm_cr3 = 0, vm_tlb_flushed = []\<rparr>"

text \<open>The first four frames as a table at each level, for one page.\<close>

definition sample_pt :: "nat \<Rightarrow> nat \<Rightarrow> pte_t" where
  "sample_pt f i = (if f < 3 \<and> i = 0 then table_entry (f + 1) else 0)"

definition sample_tree :: "vm \<Rightarrow> vm" where
  "sample_tree v = set_refcount (0, 1) 1 (set_refcount (0, 2) 1 (set_refcount (0, 3) 1
     (v\<lparr>vm_pt := sample_pt\<rparr>)))"

abbreviation sample_vm :: vm where
  "sample_vm \<equiv> sample_tree sample_tables"

abbreviation sample_map :: "nat \<rightharpoonup> pte_t" where
  "sample_map \<equiv> [0 \<mapsto> 0]"

text \<open>Four frames hold tables, one holds a page of data, and three are free.\<close>

abbreviation sample_page :: "(page_ptr \<times> nat) set" where
  "sample_page \<equiv> {((0, 4), 0)}"

lemma table_boot_inv: "mem_inv table_boot {} ((\<lambda>i. ((0, i), 0)) ` {..<5})"
proof -
  have live: "live_of 0 ((\<lambda>i. ((0, i), 0)) ` {..<5}) = (\<lambda>i. (i, 0)) ` {..<5}" by (auto simp: live_of_def)
  have "node_inv table_node {} {}" unfolding table_node_def by (rule make_node_inv) (simp add: MAX_MEMORY_NODES_def)
  moreover have "block_partition (length (mn_mmap table_node)) ((\<lambda>i. (i, 0)) ` {..<5})"
    by (auto simp: block_partition_def wf_block_def BUDDY_ORDERS_def table_node_def make_node_def disjnt_iff)
  ultimately have "node_inv table_node {} ((\<lambda>i. (i, 0)) ` {..<5})" by (rule node_inv_hold)
  then show ?thesis using live
    by (simp add: mem_inv_def nodes_ok_def table_boot_def sample_boot_def frames_of_def MAX_MEMORY_NODES_def) (auto simp: table_node_def make_node_def)
qed

lemma table_mem_ok:
  "mem_ready table_mem (Pair 0 ` {5..<8}) ((\<lambda>i. ((0, i), 0)) ` {..<5})" "f < 8 \<Longrightarrow> pfn2page table_mem f = Some (0, f)"
  "f < 8 \<Longrightarrow> frame_no table_mem (0, f) = f" "tried_nodes ty table_mem = [0]"
proof -
  have dj: "disjnt (Pair 0 ` {5..<5 + 3}) ({} \<union> \<Union> (page_extent ` (\<lambda>i. ((0, i), 0)) ` {..<5}))" by (auto simp: disjnt_iff page_extent_def)
  from free_region_loop_ok [OF table_boot_inv _ _ _ dj]
  obtain ms where ms: "free_region_loop 0 3 8 5 table_boot = Some ms" "mem_inv ms (Pair 0 ` {5..<8}) ((\<lambda>i. ((0, i), 0)) ` {..<5})" "same_frame table_boot ms"
    by (auto simp: table_boot_def table_node_def make_node_def)
  have "dlist (ms_links ms) NodeOrder []" using ms(3) dlist_init by (simp add: table_boot_def sample_boot_def same_frame_def)
  note o = order_nodes_ok [OF this]
  show "mem_ready table_mem (Pair 0 ` {5..<8}) ((\<lambda>i. ((0, i), 0)) ` {..<5})"
    using o ms(2) by (simp add: mem_ready_def table_mem_def ms(1) mem_inv_def nodes_ok_def)
  have n: "ms_nodes table_mem = ms_nodes ms" using o(2) by (simp add: table_mem_def ms(1))
  have "pfn2page table_mem f = pfn2page ms f" unfolding pfn2page_def pfn_node_def n ..
  moreover have "f < 8 \<Longrightarrow> pfn2page table_boot f = Some (0, f)"
    by (simp add: pfn2page_def pfn_node_def table_boot_def table_node_def make_node_def)
  ultimately show "f < 8 \<Longrightarrow> pfn2page table_mem f = Some (0, f)" using pfn2page_frame [OF ms(3), of f] by simp
  show "f < 8 \<Longrightarrow> frame_no table_mem (0, f) = f"
    using same_frame_no [OF ms(3), of "(0, f)"] n by (simp add: valid_page_def table_boot_def table_node_def make_node_def)
  have "tried_nodes ty table_mem = tried_nodes ty ms" using o(2) by (cases ty) (simp_all add: table_mem_def ms(1) node_ids_def)
  also have "\<dots> = tried_nodes ty table_boot" by (rule same_frame_tried [OF ms(3)])
  finally show "tried_nodes ty table_mem = [0]" by (cases ty) (simp_all add: node_ids_def table_boot_def sample_boot_def table_node_def make_node_def)
qed

lemma sample_tables_ok: "tables sample_page {7} (\<lambda>_. {}) sample_tables {..<4}" "f < 8 \<Longrightarrow> pfn2page (vm_mem sample_tables) f = Some (0, f)"
proof -
  let ?T = "Pair 0 ` {..<4 :: nat} :: page_ptr set"
  have P: "sample_page \<union> (\<lambda>p. (p, 0)) ` ?T = (\<lambda>i. ((0, i), 0)) ` {..<5}" by (auto simp: image_iff less_Suc_eq numeral_eq_Suc)
  have "kmem_core (sample_page \<union> (\<lambda>p. (p, 0)) ` ?T) (sample_kmem\<lparr>k_mem := table_mem\<rparr>) {} (\<lambda>_. []) (\<lambda>_. []) (Pair 0 ` {5..<8}) {}"
    unfolding P using table_mem_ok(1) by (simp add: kmem_core_def sample_kmem_def dl.fam_def)
  then have "kmem_inv (sample_page \<union> (\<lambda>p. (p, 0)) ` ?T) (sample_kmem\<lparr>k_mem := table_mem\<rparr>) {} (\<lambda>_. {})" unfolding kmem_inv_def by blast
  from kmem_small_cache_init_ok [OF this, of 7 100 4]
  have "kmem_inv (sample_page \<union> (\<lambda>p. (p, 0)) ` ?T) (vm_kmem sample_tables) {7} (\<lambda>_. {})" by (simp add: const_upd sample_tables_def)
  moreover have m: "vm_mem sample_tables = table_mem" by (simp add: sample_tables_def)
  moreover have "{..<4} = frame_no (vm_mem sample_tables) ` ?T" unfolding m using table_mem_ok(3) [of 0] by (auto simp: image_iff)
  moreover have "sample_page \<inter> (\<lambda>p. (p, 0)) ` ?T = {}" by auto
  ultimately show "tables sample_page {7} (\<lambda>_. {}) sample_tables {..<4}" unfolding tables_def by blast
  show "f < 8 \<Longrightarrow> pfn2page (vm_mem sample_tables) f = Some (0, f)" unfolding m by (rule table_mem_ok(2))
qed

lemma sample_tree_ok:
  assumes "tables P K live v {..<4}" and "\<And>f. f < 4 \<Longrightarrow> pfn2page (vm_mem v) f = Some (0, f)"
  shows "tables P K live (sample_tree v) {..<4}" "vm_pt (sample_tree v) = sample_pt"
    "f \<in> {1, 2, 3} \<Longrightarrow> table_count (sample_tree v) f = 1" "pfn2page (vm_mem (sample_tree v)) = pfn2page (vm_mem v)"
proof -
  let ?v = "v\<lparr>vm_pt := sample_pt\<rparr>"
  let ?v1 = "set_refcount (0, 3) 1 ?v"
  let ?v2 = "set_refcount (0, 2) 1 ?v1"
  have t: "tables P K live ?v {..<4}" "\<And>f. f < 4 \<Longrightarrow> pfn2page (vm_mem ?v) f = Some (0, f)" using assms by (simp_all add: tables_def)
  have f: "3 \<in> {..<4 :: nat}" "2 \<in> {..<4 :: nat}" "1 \<in> {..<4 :: nat}" by simp_all
  note s1 = set_refcount_ok [OF t(1) f(1) t(2), where u = 1, simplified]
  have p2: "pfn2page (vm_mem ?v1) 2 = Some (0, 2)" using s1(3) [of 2] t(2) [of 2] by simp
  note s2 = set_refcount_ok [OF s1(1) f(2) p2, where u = 1]
  have p1: "pfn2page (vm_mem ?v2) 1 = Some (0, 1)" using s2(3) [of 1] s1(3) [of 1] t(2) [of 1] by simp
  note s3 = set_refcount_ok [OF s2(1) f(3) p1, where u = 1]
  show "tables P K live (sample_tree v) {..<4}" unfolding sample_tree_def by (rule s3(1))
  show "vm_pt (sample_tree v) = sample_pt" unfolding sample_tree_def s3(2) s2(2) s1(2) by simp
  show "f \<in> {1, 2, 3} \<Longrightarrow> table_count (sample_tree v) f = 1" unfolding sample_tree_def
    using s3(4) [of f] s2(4) [of f] s1(4) [of f] by (auto simp: numeral_eq_iff)
  show "pfn2page (vm_mem (sample_tree v)) = pfn2page (vm_mem v)"
  proof
    fix x show "pfn2page (vm_mem (sample_tree v)) x = pfn2page (vm_mem v) x"
      using s1(3) [of x] s2(3) [of x] s3(3) [of x] by (simp add: sample_tree_def)
  qed
qed

lemma sample_entry:
  assumes "f < 3"
  shows "pte_present (sample_pt f 0)" "\<not> pte_large (sample_pt f 0)" "frame_of (pte_phys (sample_pt f 0)) = f + 1"
    "0 < i \<Longrightarrow> sample_pt f i = 0"
proof -
  have e: "sample_pt f 0 = push_bit 12 (of_nat (f + 1)) OR user_flags" "0 < i \<Longrightarrow> sample_pt f i = 0"
    using assms by (simp_all add: sample_pt_def table_entry_def)
  show "pte_present (sample_pt f 0)" "\<not> pte_large (sample_pt f 0)" "0 < i \<Longrightarrow> sample_pt f i = 0"
    unfolding e(1) using entry_flags [OF user_flags_ok] e(2) by simp_all
  show "frame_of (pte_phys (sample_pt f 0)) = f + 1"
    unfolding e(1) by (rule frame_of_entry(1)) (use assms entry_flags(4) [OF user_flags_ok] in simp_all)
qed

lemma sample_slots:
  assumes "f < 3" and sub: "pt_tree l (vm_pt v) (table_count v) sample_map (f + 1) 0 Y" and "0 \<in> I" "f \<notin> Y" "f + 1 \<notin> Y"
    and v: "vm_pt v = sample_pt" "\<And>f. f \<in> {1, 2, 3} \<Longrightarrow> table_count v f = 1"
  shows "slots_ok l I v sample_map f 0 (insert (f + 1) Y)"
proof -
  note e = sample_entry [OF assms(1), folded v(1)]
  let ?own = "\<lambda>i. if i = 0 then insert (f + 1) Y else {}"
  have c: "table_count v (f + 1) = 1" using assms(1) by (intro v(2)) auto
  have "pt_slot (\<lambda>f b X. pt_tree l (vm_pt v) (table_count v) sample_map f b X) (Suc l) (table_count v) sample_map
    (vm_pt v f i) (0 + i * 512 ^ Suc l) (?own i)" for i
  proof (cases "i = 0")
    case True
    have "pt_slot (\<lambda>f b X. pt_tree l (vm_pt v) (table_count v) sample_map f b X) (Suc l) (table_count v) sample_map
      (vm_pt v f 0) 0 (insert (f + 1) Y)"
      by (rule pt_slotI [OF e(1,2,3) assms(5)]) (use c sub in simp_all)
    then show ?thesis using True by simp
  next
    case False
    then have "dom sample_map \<inter> {0 + i * 512 ^ Suc l..<0 + i * 512 ^ Suc l + 512 ^ Suc l} = {}" by simp
    then show ?thesis using False e(4) [of i] unfolding pt_slot_def by (simp only: if_True if_False zero_not_present simp_thms)
  qed
  then show ?thesis using assms by (intro pt_slotsI [where own = ?own]) auto
qed

lemma sample_tree_space:
  assumes "tables P K live v {..<4}" and "\<And>f. f < 4 \<Longrightarrow> pfn2page (vm_mem v) f = Some (0, f)"
  shows "user_space P K live (sample_tree v) {..<4} 0 sample_map {1, 2, 3}"
proof -
  note t = sample_tree_ok [OF assms]
  let ?v = "sample_tree v"
  have n: "2 + 1 = (3 :: nat)" "1 + 1 = (2 :: nat)" "0 + 1 = (1 :: nat)" by simp_all
  have "pt_tree 0 (vm_pt ?v) (table_count ?v) sample_map 3 0 {}" by (simp add: t(2) sample_pt_def)
  then have "slots_ok 0 {..<512} ?v sample_map 2 0 {3}" by (rule sample_slots [of 2 0, unfolded n, OF _ _ _ _ _ t(2,3), rotated]) simp_all
  then have "pt_tree 1 (vm_pt ?v) (table_count ?v) sample_map 2 0 {3}" by (simp only: One_nat_def pt_tree.simps(2))
  then have "slots_ok 1 {..<512} ?v sample_map 1 0 {2, 3}" by (rule sample_slots [of 1 1, unfolded n, OF _ _ _ _ _ t(2,3), rotated]) simp_all
  then have "pt_tree 2 (vm_pt ?v) (table_count ?v) sample_map 1 0 {2, 3}" by (simp only: Suc_1 [symmetric] pt_tree.simps(2))
  then have "slots_ok 2 {..<256} ?v sample_map 0 0 {1, 2, 3}" by (rule sample_slots [of 0 2, unfolded n, OF _ _ _ _ _ t(2,3), rotated]) simp_all
  then show ?thesis using t(1) by (auto simp: user_space_def)
qed

lemma sample_space: "user_space sample_page {7} (\<lambda>_. {}) sample_vm {..<4} 0 sample_map {1, 2, 3}"
  by (rule sample_tree_space [OF sample_tables_ok(1)]) (simp add: sample_tables_ok(2))

theorem pt_populate_range_correct_witness:
  "\<exists>rc v' X'. pt_populate_range 0 4096 8192 sample_vm = Some (rc, v') \<and> (rc = 0 \<or> rc = - ENOMEM) \<and>
     user_space sample_page {7} (\<lambda>_. {}) v' ({..<4} - {1, 2, 3} \<union> X') 0 (if rc = 0 then [0 \<mapsto> 0] ++ zeros 1 2 else [0 \<mapsto> 0]) X'"
proof -
  have p: "first_page 4096 = 1" "last_page 8192 = 2" by (simp_all add: first_page_def last_page_def)
  have "\<forall>x \<in> {first_page 4096..<last_page 8192}. sample_map x = None" unfolding p by simp
  moreover have "4096 < (8192 :: u64)" "8192 \<le> (2 ^ 47 :: u64)" by simp_all
  ultimately show ?thesis using pt_populate_range_correct [OF sample_space, of 4096 8192] unfolding p by blast
qed

theorem pt_release_range_correct_witness:
  "\<exists>v' X'. pt_release_range 0 0 4096 sample_vm = Some v' \<and> user_space sample_page {7} (\<lambda>_. {}) v' ({..<4} - {1, 2, 3} \<union> X') 0 Map.empty X'"
proof -
  have p: "first_page 0 = 0" "last_page 4096 = 1" by (simp_all add: first_page_def last_page_def)
  have "[0 \<mapsto> 0] |` (- {0..<1}) = (Map.empty :: nat \<rightharpoonup> pte_t)" by (simp add: restrict_map_def fun_eq_iff)
  then show ?thesis using pt_release_range_correct [OF sample_space, of 0 4096] unfolding p by auto
qed

theorem pt_iter_set_finds_witness:
  "it_level (pt_iter_set (Some 0) 0 sample_vm) = 0 \<and> iter_pte (pt_iter_set (Some 0) 0 sample_vm) sample_vm = Some 0 \<and>
   pt_iter_present (pt_iter_set (Some 0) 4096 sample_vm) sample_vm = Some False"
  using pt_iter_set_finds [OF sample_space, of 0] pt_iter_set_finds [OF sample_space, of 1] by simp

end
