(* ===== verification/Paging_Iter.thy ===== *)
theory Paging_Iter
  imports Paging_Inv
begin

text \<open>
  The loops over the slots of a range: \<^verbatim>\<open>for_each_slot_in_range\<close> visits the pages of a populated range one by
  one, in order and each at the last level, even when the body changes the entries it visits.
\<close>

section \<open>The tables on the way to a page\<close>

text \<open>The table of level \<open>j\<close> on the way to page \<open>x\<close> from the table \<open>t\<close> of level \<open>l\<close>.\<close>

fun table_at :: "(nat \<Rightarrow> nat \<Rightarrow> pte_t) \<Rightarrow> nat \<Rightarrow> nat \<Rightarrow> nat \<Rightarrow> nat \<Rightarrow> nat" where
  "table_at pt 0 t x j = t"
| "table_at pt (Suc l) t x j = (if j = Suc l then t else table_at pt l (frame_of (pte_phys (pt t (slot_of (Suc l) x)))) x j)"

lemma table_at_top [simp]: "table_at pt l t x l = t"
  by (cases l) simp_all

lemma table_at_step: "j < l \<Longrightarrow> table_at pt l t x j = frame_of (pte_phys (pt (table_at pt l t x (Suc j)) (slot_of (Suc j) x)))"
proof (induction l arbitrary: t)
  case (Suc l)
  then show ?case by (cases "j = l") auto
qed simp

lemma table_at_same:
  assumes "\<And>i. j < i \<Longrightarrow> i \<le> l \<Longrightarrow> slot_of i y = slot_of i x" and "j \<le> l"
  shows "table_at pt l t y j = table_at pt l t x j"
  using assms
proof (induction l arbitrary: t)
  case (Suc l)
  then show ?case by (cases "j = Suc l") auto
qed simp

definition reached :: "vm \<Rightarrow> nat \<Rightarrow> nat \<Rightarrow> nat \<Rightarrow> bool" where
  "reached v l t x \<longleftrightarrow> (\<forall>j. 1 \<le> j \<and> j \<le> l \<longrightarrow> pte_present (vm_pt v (table_at (vm_pt v) l t x j) (slot_of j x)) \<and>
     \<not> pte_large (vm_pt v (table_at (vm_pt v) l t x j) (slot_of j x)))"

text \<open>The iterator stands on page \<open>x\<close>, at level \<open>lv\<close>.\<close>

definition stands :: "vm \<Rightarrow> nat \<Rightarrow> nat \<Rightarrow> nat \<Rightarrow> pt_iter \<Rightarrow> bool" where
  "stands v root x lv it \<longleftrightarrow> (\<forall>l. lv \<le> l \<and> l \<le> 3 \<longrightarrow> it_pt it l = Some (table_at (vm_pt v) 3 root x l) \<and> it_idx it l = slot_of l x)"

lemma iter_descend_stands:
  assumes "stands v root x l it" and "l \<le> 3" and "\<And>i. i < l \<Longrightarrow> f (Suc i) = slot_of i x"
    and "iter_descend f v l (vm_pt v (table_at (vm_pt v) 3 root x l) (slot_of l x)) it = (lv, it')"
  shows "lv \<le> l \<and> stands v root x lv it' \<and> (reached v 3 root x \<longrightarrow> lv = 0)"
  using assms
proof (induction l arbitrary: it)
  case 0
  then show ?case by simp
next
  case (Suc l)
  let ?e = "vm_pt v (table_at (vm_pt v) 3 root x (Suc l)) (slot_of (Suc l) x)"
  show ?case
  proof (cases "pte_present ?e \<and> \<not> pte_large ?e")
    case True
    have t: "table_at (vm_pt v) 3 root x l = frame_of (pte_phys ?e)" using Suc.prems(2) by (intro table_at_step) simp
    let ?it = "it\<lparr>it_idx := (it_idx it)(l := slot_of l x), it_pt := (it_pt it)(l := Some (frame_of (pte_phys ?e)))\<rparr>"
    have d: "iter_descend f v l (vm_pt v (table_at (vm_pt v) 3 root x l) (slot_of l x)) ?it = (lv, it')"
      using Suc.prems(3) [of l] Suc.prems(4) True t by (simp add: Let_def)
    have s: "stands v root x l ?it" using Suc.prems(1) t unfolding stands_def by (auto simp: le_Suc_eq less_eq_Suc_le)
    have "lv \<le> l \<and> stands v root x lv it' \<and> (reached v 3 root x \<longrightarrow> lv = 0)"
      by (rule Suc.IH [OF s _ _ d]) (use Suc.prems(2,3) in auto)
    then show ?thesis by auto
  next
    case False
    then have "\<not> reached v 3 root x" using Suc.prems(2) unfolding reached_def by (auto dest!: spec [of _ "Suc l"])
    moreover have "lv = Suc l" "it' = it" using Suc.prems(4) False by auto
    ultimately show ?thesis using Suc.prems(1) by simp
  qed
qed

section \<open>Steps of the iterator\<close>

lemma iter_climb_stands:
  assumes "stands v root x 0 it" and "l \<le> 3" and "\<forall>i < l. slot_of i x = 511"
  shows "\<exists>L \<le> 3. iter_climb it l (slot_of l x) = (L, slot_of L x) \<and> (\<forall>i < L. slot_of i x = 511) \<and> (slot_of L x = 511 \<longrightarrow> L = 3)"
  using assms(2,3)
proof (induction "3 - l" arbitrary: l)
  case 0
  then have "l = 3" by simp
  then show ?case using 0 by (intro exI [of _ 3]) (simp add: iter_climb.simps PT_MAX_LEVEL_def)
next
  case (Suc d)
  show ?case
  proof (cases "slot_of l x = 511")
    case True
    have l: "l < 3" using Suc.hyps(2) by simp
    have i: "it_idx it (l + 1) = slot_of (l + 1) x" using assms(1) Suc.hyps(2) by (auto simp: stands_def)
    have "iter_climb it l (slot_of l x) = iter_climb it (l + 1) (slot_of (l + 1) x)"
      using True l i by (subst iter_climb.simps) (simp add: PT_SIZE_def PT_MAX_LEVEL_def)
    moreover have "\<forall>i < l + 1. slot_of i x = 511" using True Suc.prems(2) by (auto simp: less_Suc_eq)
    ultimately show ?thesis using Suc.hyps(1) [of "l + 1"] Suc.hyps(2) by simp
  next
    case False
    then have "iter_climb it l (slot_of l x) = (l, slot_of l x)" by (subst iter_climb.simps) (simp add: PT_SIZE_def)
    then show ?thesis using Suc.prems False by auto
  qed
qed

lemma carry:
  assumes "\<forall>i < L. slot_of i x = 511"
  shows "\<exists>q. Suc x = 512 ^ L * Suc q \<and> q = x div 512 ^ L"
  using assms
proof (induction L)
  case (Suc L)
  then obtain q where q: "Suc x = 512 ^ L * Suc q" "q = x div 512 ^ L" by auto
  have "q mod 512 = 511" using Suc.prems q(2) by (simp add: slot_of_def)
  then have "Suc q = 512 * Suc (q div 512)" using mult_div_mod_eq [of 512 q] by simp
  moreover have "x div 512 ^ Suc L = q div 512" unfolding power_Suc2 div_mult2_eq q(2) ..
  moreover have "512 ^ L * (512 * Suc (q div 512)) = 512 ^ Suc L * Suc (q div 512)" unfolding power_Suc2 mult.assoc ..
  ultimately show ?case using q(1) by (intro exI [of _ "q div 512"]) metis
qed simp

lemma slot_of_Suc:
  assumes "\<forall>i < L. slot_of i x = 511" and "slot_of L x \<noteq> 511"
  shows "slot_of l (Suc x) = (if l < L then 0 else if l = L then slot_of L x + 1 else slot_of l x)"
proof -
  obtain q where q: "Suc x = 512 ^ L * Suc q" "q = x div 512 ^ L" using carry [OF assms(1)] by blast
  have m: "q mod 512 \<noteq> 511" using assms(2) q(2) by (simp add: slot_of_def)
  consider "l < L" | "l = L" | "L < l" by linarith
  then show ?thesis
  proof cases
    case 1
    then obtain d where d: "L = l + Suc d" using less_iff_Suc_add [of l L] by auto
    have "Suc x = 512 ^ l * (512 * (512 ^ d * Suc q))" by (simp add: q(1) d power_add algebra_simps)
    then have "Suc x div 512 ^ l = 512 * (512 ^ d * Suc q)" by (metis nonzero_mult_div_cancel_left power_not_zero zero_neq_numeral)
    then show ?thesis using 1 by (simp add: slot_of_def)
  next
    case 2
    have "Suc x div 512 ^ L = Suc q" by (simp add: q(1))
    moreover have "Suc q mod 512 = q mod 512 + 1" using m by (simp add: mod_Suc)
    ultimately show ?thesis using 2 q(2) by (simp add: slot_of_def)
  next
    case 3
    then obtain d where d: "l = L + Suc d" using less_iff_Suc_add [of L l] by auto
    have "Suc q div 512 = q div 512" using m by (simp add: div_Suc mod_Suc)
    moreover have e: "512 ^ l = 512 ^ L * 512 * (512 :: nat) ^ d" by (simp add: d power_add)
    have "Suc x div 512 ^ L = Suc q" unfolding q(1) by (rule nonzero_mult_div_cancel_left) simp
    then have "Suc x div 512 ^ l = Suc q div 512 div 512 ^ d" unfolding e div_mult2_eq by simp
    moreover have "x div 512 ^ l = q div 512 div 512 ^ d" unfolding e div_mult2_eq q(2) ..
    ultimately show ?thesis using 3 by (simp add: slot_of_def)
  qed
qed

lemma pt_iter_next_stands:
  assumes s: "stands v root x 0 it" "it_level it = 0" and x: "Suc x < 2 ^ 35"
  shows "\<exists>it'. pt_iter_next it v = Some (Some it') \<and> stands v root (Suc x) (it_level it') it' \<and> it_addr it' = vaddr_of (Suc x) \<and>
    (reached v 3 root (Suc x) \<longrightarrow> it_level it' = 0)"
proof -
  have i0: "it_idx it 0 = slot_of 0 x" using s(1) by (simp add: stands_def)
  obtain L where L: "L \<le> 3" "iter_climb it 0 (slot_of 0 x) = (L, slot_of L x)" "\<forall>i < L. slot_of i x = 511" "slot_of L x = 511 \<longrightarrow> L = 3"
    using iter_climb_stands [OF s(1), of 0] by auto
  have "slot_of 3 x < 256" using user_slots [of x] x by simp
  then have ne: "slot_of L x \<noteq> 511" using L(4) by auto
  note sl = slot_of_Suc [OF L(3) ne]
  have tab: "table_at (vm_pt v) 3 root (Suc x) j = table_at (vm_pt v) 3 root x j" if "L \<le> j" "j \<le> 3" for j
    using that sl by (intro table_at_same) auto
  let ?it = "it\<lparr>it_idx := (it_idx it)(L := slot_of L x + 1)\<rparr>"
  have st: "stands v root (Suc x) L ?it" using s(1) tab sl unfolding stands_def by auto
  let ?t = "table_at (vm_pt v) 3 root (Suc x) L"
  obtain lv it1 where d: "iter_descend (\<lambda>_. 0) v L (vm_pt v ?t (slot_of L (Suc x))) ?it = (lv, it1)" by (metis prod.exhaust)
  have r: "lv \<le> L \<and> stands v root (Suc x) lv it1 \<and> (reached v 3 root (Suc x) \<longrightarrow> lv = 0)"
    by (rule iter_descend_stands [OF st L(1) _ d]) (use sl L(1) in auto)
  let ?it2 = "clear_below lv (it1\<lparr>it_level := lv\<rparr>)"
  have pt: "it_pt it L = Some ?t" using s(1) tab [of L] L(1) by (simp add: stands_def)
  have "pt_iter_next it v = Some (Some (?it2\<lparr>it_addr := pt_iter_addr ?it2\<rparr>))"
    using d L(2) ne i0 s(2) pt sl [of L] by (simp add: pt_iter_next_def PT_SIZE_def Let_def)
  moreover have "stands v root (Suc x) lv ?it2" using r unfolding stands_def clear_below_def by simp
  moreover have "it_idx ?it2 l = slot_of l (Suc x)" if "l \<le> 3" for l
    using r that sl [of l] unfolding stands_def clear_below_def by auto
  then have "pt_iter_addr ?it2 = vaddr_of (Suc x)" by (rule slots_addr [OF x])
  moreover have "it_level ?it2 = lv" by (simp add: clear_below_def)
  ultimately show ?thesis using r by (auto simp: stands_def simp del: of_nat_mult)
qed

section \<open>The loop\<close>

text \<open>
  A rule for the loop: \<open>Inv x a v\<close> holds before the visit of page \<open>x\<close>. The body may change entries of the last level, so
  the iterator still stands on its page after it.
\<close>

lemma for_slots_rule:
  assumes "n \<le> m" and m: "m < 2 ^ 35" and "Inv n a v" and "n < m \<Longrightarrow> stands v root n 0 it \<and> it_level it = 0" and "it_addr it = vaddr_of n"
    and step: "\<And>x a v it. n \<le> x \<Longrightarrow> x < m \<Longrightarrow> Inv x a v \<Longrightarrow> stands v root x 0 it \<Longrightarrow> it_level it = 0 \<Longrightarrow> it_addr it = vaddr_of x \<Longrightarrow>
      \<exists>a' v'. body it a v = Some (a', v') \<and> Inv (Suc x) a' v' \<and> stands v' root x 0 it"
    and reach: "\<And>x a v y. Inv x a v \<Longrightarrow> n \<le> y \<Longrightarrow> y < m \<Longrightarrow> reached v 3 root y"
  shows "\<exists>a' v'. for_slots body (vaddr_of m) it a v = Some (a', v') \<and> Inv m a' v'"
  using assms(1,3-)
proof (induction "m - n" arbitrary: n a v it)
  case 0
  then have "n = m" by simp
  then show ?case using 0(3,5) by (subst for_slots.simps) simp
next
  case (Suc d)
  then have nm: "n < m" by simp
  have less: "it_addr it < vaddr_of m" unfolding Suc.prems(4) using nm m by (subst vaddr_of_less) simp_all
  obtain a1 v1 where b: "body it a v = Some (a1, v1)" "Inv (Suc n) a1 v1" "stands v1 root n 0 it"
    using Suc.prems(5) [OF order.refl nm Suc.prems(2)] Suc.prems(3,4) nm by blast
  have sm: "Suc n < 2 ^ 35" using nm m by simp
  have lv: "it_level it = 0" using Suc.prems(3) nm by blast
  from pt_iter_next_stands [OF b(3) lv sm] obtain it' where i: "pt_iter_next it v1 = Some (Some it')" "stands v1 root (Suc n) (it_level it') it'" "it_addr it' = vaddr_of (Suc n)"
    "reached v1 3 root (Suc n) \<longrightarrow> it_level it' = 0"
    by (elim exE conjE) (rule that)
  have at: "stands v1 root (Suc n) 0 it' \<and> it_level it' = 0" if "Suc n < m"
    using i(2,4) Suc.prems(6) [OF b(2), of "Suc n"] that by auto
  have "for_slots body (vaddr_of m) it a v = for_slots body (vaddr_of m) it' a1 v1"
    using less b(1) i(1) by (subst for_slots.simps) (simp del: of_nat_mult)
  moreover have "\<exists>a' v'. for_slots body (vaddr_of m) it' a1 v1 = Some (a', v') \<and> Inv m a' v'"
    by (rule Suc.hyps(1) [OF _ _ b(2) at i(3)]) (use Suc.hyps(2) nm Suc.prems(5,6) in \<open>auto intro: Suc_leD\<close>)
  ultimately show ?case by simp
qed

section \<open>Writing the entry of a page\<close>

definition leaf_ok :: "vm \<Rightarrow> (nat \<rightharpoonup> pte_t) \<Rightarrow> nat \<Rightarrow> pte_t \<Rightarrow> nat \<Rightarrow> nat \<Rightarrow> nat set \<Rightarrow> (vm \<Rightarrow> bool) \<Rightarrow> bool" where
  "leaf_ok v M x e l t X Q \<longleftrightarrow> (let f = table_at (vm_pt v) l t x 0 in f \<in> (if l = 0 then {t} else X) \<and> vm_pt v f (slot_of 0 x) = e \<and> reached v l t x \<and>
     (\<forall>e'. (\<forall>j \<le> l. table_at (vm_pt (set_pte f (slot_of 0 x) e' v)) l t x j = table_at (vm_pt v) l t x j)) \<and> (\<forall>e'. Q (set_pte f (slot_of 0 x) e' v)))"

lemma slots_leaf:
  assumes tb: "tables P K live v H" "insert t X \<subseteq> H" and sl: "slots_ok l I v M t b X" and j: "slot_of (Suc l) x \<in> I"
    and x: "b + slot_of (Suc l) x * 512 ^ Suc l \<le> x" "x < b + slot_of (Suc l) x * 512 ^ Suc l + 512 ^ Suc l" "M x = Some e"
    and out: "\<And>i. i \<in> I - {slot_of (Suc l) x} \<Longrightarrow> x \<notin> {b + i * 512 ^ Suc l..<b + i * 512 ^ Suc l + 512 ^ Suc l}"
    and sub: "\<And>f Y e'. pt_tree l (vm_pt v) (table_count v) M f (b + slot_of (Suc l) x * 512 ^ Suc l) Y \<Longrightarrow> insert f Y \<subseteq> H \<Longrightarrow>
      leaf_ok v M x e l f Y (\<lambda>v'. pt_tree l (vm_pt v') (table_count v') (M(x \<mapsto> vm_pt v' (table_at (vm_pt v) l f x 0) (slot_of 0 x))) f (b + slot_of (Suc l) x * 512 ^ Suc l) Y)"
  shows "leaf_ok v M x e (Suc l) t X (\<lambda>v'. slots_ok l I v' (M(x \<mapsto> vm_pt v' (table_at (vm_pt v) (Suc l) t x 0) (slot_of 0 x))) t b X)"
proof -
  let ?j = "slot_of (Suc l) x" and ?N = "512 ^ Suc l :: nat"
  let ?e = "vm_pt v t ?j"
  let ?f = "frame_of (pte_phys ?e)" and ?b = "b + slot_of (Suc l) x * 512 ^ Suc l"
  obtain X1 X2 where X: "X = X1 \<union> X2" "X1 \<inter> X2 = {}" "t \<notin> X" "slot_ok l v M t ?j ?b X1" "slots_ok l (I - {?j}) v M t b X2"
    by (rule slots_split [OF sl j])
  have ne: "dom M \<inter> {?b..<?b + ?N} \<noteq> {}" using x by (auto simp del: power_Suc)
  obtain Y where Y: "pte_present ?e" "\<not> pte_large ?e" "X1 = insert ?f Y" "?f \<notin> Y" "table_count v ?f = of_nat (mapped M (Suc l) ?b)"
    "pt_tree l (vm_pt v) (table_count v) M ?f ?b Y"
    using X(4) ne unfolding pt_slot_def by (simp only: if_False) blast
  have YH: "insert ?f Y \<subseteq> H" using X(1) Y(3) tb(2) by blast
  define f where "f = table_at (vm_pt v) l ?f x 0"
  note s = sub [OF Y(6) YH, unfolded leaf_ok_def Let_def, folded f_def]
  have "f \<in> insert ?f Y" using s by (auto split: if_splits)
  then have fX: "f \<in> X1" "f \<noteq> t" using Y(3) X(1,3) by blast+
  have top: "table_at (vm_pt v) (Suc l) t x 0 = f" by (simp add: f_def)
  have "reached v (Suc l) t x" using s Y(1,2) unfolding reached_def by (auto simp: le_Suc_eq)
  moreover have "table_at (vm_pt (set_pte f (slot_of 0 x) e' v)) (Suc l) t x i = table_at (vm_pt v) (Suc l) t x i" if "i \<le> Suc l" for e' i
    using s fX(2) that by (cases "i = Suc l") auto
  moreover have "slots_ok l I (set_pte f (slot_of 0 x) e' v) (M(x \<mapsto> e')) t b X" for e'
  proof -
    let ?v = "set_pte f (slot_of 0 x) e' v"
    have d: "dom (M(x \<mapsto> e')) = dom M" using x(3) by auto
    have vt: "vm_pt ?v t = vm_pt v t" using fX(2) by simp
    have fr: "framed P K live v H t {?j} X1 ?v X1"
      unfolding framed_def using tb X(1) fX by (auto simp: Un_absorb1 Un_absorb2 sup_absorb1 sup_absorb2)
    have tr: "pt_tree l (vm_pt ?v) (table_count ?v) (M(x \<mapsto> e')) ?f ?b Y"
      using s [THEN conjunct2, THEN conjunct2, THEN conjunct2, THEN conjunct2, rule_format, of e'] by (simp del: tables_set_pte(2))
    have so: "slot_ok l ?v (M(x \<mapsto> e')) t ?j ?b X1"
      unfolding Y(3) by (rule pt_slotI) (use Y ne vt tr d in \<open>simp_all add: card_eq_0_iff del: power_Suc\<close>)
    have "slots_ok l I ?v (M(x \<mapsto> e')) t b (X1 \<union> X2)"
      by (rule slot_replace(2) [OF fr X(5) _ j so]) (use X tb(2) out in \<open>auto simp del: power_Suc\<close>)
    then show ?thesis using X(1) by simp
  qed
  ultimately show ?thesis unfolding leaf_ok_def Let_def top using s fX(1) X(1) by auto
qed

lemma tree_leaf:
  assumes "tables P K live v H" and "insert t X \<subseteq> H" and "pt_tree l (vm_pt v) (table_count v) M t b X"
    and "512 ^ Suc l dvd b" "b \<le> x" "x < b + 512 ^ Suc l" "M x = Some e"
  shows "leaf_ok v M x e l t X (\<lambda>v'. pt_tree l (vm_pt v') (table_count v') (M(x \<mapsto> vm_pt v' (table_at (vm_pt v) l t x 0) (slot_of 0 x))) t b X)"
  using assms
proof (induction l arbitrary: t b X)
  case (0 t b X)
  obtain c where "b = 512 * c" using 0(4) by auto
  then have "x mod 512 = x - b" using 0(5,6) by (auto simp: le_iff_add)
  then have s: "b + slot_of 0 x = x" "slot_of 0 x < 512" using 0(5,6) by (simp_all add: slot_of_def)
  then have "vm_pt v t (slot_of 0 x) = e" using 0(3,7) by (auto dest!: spec [of _ "slot_of 0 x"])
  then show ?case using 0(3) s unfolding leaf_ok_def by (auto simp: reached_def)
next
  case (Suc l t b X)
  let ?N = "512 ^ Suc l :: nat" and ?j = "slot_of (Suc l) x"
  have r: "512 * ?N dvd b" "x < b + 512 * ?N" and N: "0 < ?N" using Suc.prems(4,6) by simp_all
  note g = slot_geometry [OF r(1) Suc.prems(5) r(2) N]
  have sl: "slots_ok l {..<512} v M t b X" using Suc.prems(3) unfolding pt_tree.simps .
  have jI: "?j \<in> {..<512}" by (simp add: slot_of_def)
  have x: "b + ?j * ?N \<le> x" "x < b + ?j * ?N + ?N" "?N dvd b + ?j * ?N" using g by (simp_all add: slot_of_def)
  have out: "x \<notin> {b + i * ?N..<b + i * ?N + ?N}" if "i \<in> {..<512} - {?j}" for i
  proof
    assume i: "x \<in> {b + i * ?N..<b + i * ?N + ?N}"
    then have "(x - b) div ?N = i" by (intro div_nat_eqI) (auto simp: algebra_simps)
    then show False using that g(1) by (simp add: slot_of_def)
  qed
  show ?case unfolding pt_tree.simps
    by (rule slots_leaf [OF Suc.prems(1,2) sl jI x(1,2) Suc.prems(7) out Suc.IH [OF Suc.prems(1) _ _ x(3,1,2) Suc.prems(7)]])
qed

lemma user_leaf:
  assumes us: "user_space P K live v H root M X" and M: "M x = Some e" and x: "x < 2 ^ 35"
  defines "f \<equiv> table_at (vm_pt v) 3 root x 0"
  shows "vm_pt v f (slot_of 0 x) = e" "reached v 3 root x" "f \<in> X"
    "user_space P K live (set_pte f (slot_of 0 x) e' v) H root (M(x \<mapsto> e')) X"
    "stands v root x 0 it \<Longrightarrow> stands (set_pte f (slot_of 0 x) e' v) root x 0 it"
proof -
  have u: "tables P K live v H" "insert root X \<subseteq> H" "slots_ok 2 {..<256} v M root 0 X" using us by (simp_all add: user_space_def)
  let ?j = "slot_of (Suc 2) x" and ?N = "512 ^ Suc 2 :: nat"
  have j: "?j \<in> {..<256}" using user_slots [OF x] by (simp add: suc2)
  have x36: "x < 512 * ?N" using x by simp
  have s: "0 + ?j * ?N \<le> x" "x < 0 + ?j * ?N + ?N" "?N dvd 0 + ?j * ?N" "x div ?N = ?j"
    using slot_geometry [of ?N 0 x] x36 by (simp_all add: slot_of_def)
  have out: "x \<notin> {0 + i * ?N..<0 + i * ?N + ?N}" if "i \<in> {..<256} - {?j}" for i
  proof
    assume i: "x \<in> {0 + i * ?N..<0 + i * ?N + ?N}"
    then have "x div ?N = i" by (intro div_nat_eqI) (auto simp: algebra_simps)
    then show False using that s(4) by simp
  qed
  have sub: "leaf_ok v M x e 2 g Y (\<lambda>v'. pt_tree 2 (vm_pt v') (table_count v') (M(x \<mapsto> vm_pt v' (table_at (vm_pt v) 2 g x 0) (slot_of 0 x))) g (0 + ?j * ?N) Y)"
    if "pt_tree 2 (vm_pt v) (table_count v) M g (0 + ?j * ?N) Y" "insert g Y \<subseteq> H" for g Y
    by (rule tree_leaf [OF u(1) that(2,1) s(3,1,2) M])
  have f': "f = table_at (vm_pt v) (Suc 2) root x 0" unfolding f_def suc2 ..
  note l = slots_leaf [OF u j s(1,2) M out sub, unfolded leaf_ok_def Let_def, folded f']
  show "vm_pt v f (slot_of 0 x) = e" "reached v 3 root x" "f \<in> X" using l by (simp_all add: suc2)
  show "user_space P K live (set_pte f (slot_of 0 x) e' v) H root (M(x \<mapsto> e')) X"
    using l u by (simp add: user_space_def)
  show "stands v root x 0 it \<Longrightarrow> stands (set_pte f (slot_of 0 x) e' v) root x 0 it"
    using l unfolding stands_def suc2 by simp
qed

lemma pt_iter_set_stands:
  assumes "reached v 3 root x" and "x < 2 ^ 35"
  shows "stands v root x 0 (pt_iter_set (Some root) (vaddr_of x) v)" "it_level (pt_iter_set (Some root) (vaddr_of x) v) = 0"
    "it_addr (pt_iter_set (Some root) (vaddr_of x) v) = vaddr_of x"
proof -
  let ?it = "\<lparr>it_level = 0, it_pt = (\<lambda>_. None)(3 := Some root), it_idx = (\<lambda>_. 0)(3 := slot_of 3 x), it_addr = 0\<rparr>"
  obtain lv it' where d: "iter_descend (pt_index (vaddr_of x)) v 3 (vm_pt v root (slot_of 3 x)) ?it = (lv, it')" by (metis prod.exhaust)
  have x: "x < 2 ^ 36" using assms(2) by simp
  have s: "stands v root x 3 ?it" by (auto simp: stands_def)
  have f: "pt_index (vaddr_of x) (Suc i) = slot_of i x" if "i < 3" for i by (rule pt_index_slot [OF x]) (use that in simp)
  have r: "lv = 0" "stands v root x 0 it'" using iter_descend_stands [OF s order.refl f] d assms(1) by auto
  have it: "pt_iter_set (Some root) (vaddr_of x) v = it'\<lparr>it_addr := pt_iter_addr it', it_level := 0\<rparr>"
    using d r(1) unfolding pt_iter_set_def pml_i_page(1) [OF x] PT_MAX_LEVEL_def by (simp add: Let_def)
  have "pt_iter_addr it' = vaddr_of x" by (rule slots_addr [OF assms(2)]) (use r(2) in \<open>simp add: stands_def\<close>)
  then show "stands v root x 0 (pt_iter_set (Some root) (vaddr_of x) v)" "it_level (pt_iter_set (Some root) (vaddr_of x) v) = 0"
    "it_addr (pt_iter_set (Some root) (vaddr_of x) v) = vaddr_of x"
    unfolding it using r(2) by (simp_all add: stands_def del: of_nat_mult)
qed

lemma for_each_slot_rule:
  assumes "n < m" and "m < 2 ^ 35" and "Inv n a v"
    and "\<And>x a v it. n \<le> x \<Longrightarrow> x < m \<Longrightarrow> Inv x a v \<Longrightarrow> stands v root x 0 it \<Longrightarrow> it_level it = 0 \<Longrightarrow> it_addr it = vaddr_of x \<Longrightarrow>
      \<exists>a' v'. body it a v = Some (a', v') \<and> Inv (Suc x) a' v' \<and> stands v' root x 0 it"
    and "\<And>x a v y. Inv x a v \<Longrightarrow> n \<le> y \<Longrightarrow> y < m \<Longrightarrow> reached v 3 root y"
  shows "\<exists>a' v'. for_each_slot_in_range (Some root) (vaddr_of n) (vaddr_of m) body a v = Some (a', v') \<and> Inv m a' v'"
  unfolding for_each_slot_in_range_def
  by (rule for_slots_rule [where Inv = Inv and root = root, OF _ assms(2,3)])
    (use assms pt_iter_set_stands [OF assms(5) [OF assms(3) order.refl assms(1)]] in \<open>auto simp del: of_nat_mult\<close>)

end
