(* ===== verification/Mm.thy ===== *)
theory Mm
  imports Paging_Iter Rb_Index
begin

text \<open>
  Address spaces, after \<^verbatim>\<open>src/mm.c\<close> and \<^verbatim>\<open>src/mm.h\<close>: the areas of an address space as a red-black tree of ranges of
  addresses, the pages mapped in them, page faults, and copying and releasing a whole address space. Objects are
  addresses with a record each; a table is the number of its frame and the data of other pages is a function
  of the page. \<^term>\<open>None\<close> is a failed assertion, a null pointer that is followed or a loop that does not end.
\<close>

section \<open>State\<close>

datatype vma_access = VMA_ACCESS_READ | VMA_ACCESS_WRITE

definition VMA_PERM_WRITE :: u32 where "VMA_PERM_WRITE = 1"

datatype vma_fault = No_fault | Anon_page_fault

record vma =
  vma_begin :: u64
  vma_end :: u64
  vma_perm :: u32
  vma_mm :: nat
  vma_fault :: vma_fault

record mm =
  mm_vma :: nat
  mm_pt :: "page_ptr option"
  mm_stack :: nat
  mm_stack_pointer :: u64
  mm_argv_addr :: u64
  mm_argc :: int

record mms =
  mm_vm :: vm
  mm_obj :: "nat \<Rightarrow> mm"
  vma_obj :: "nat \<Rightarrow> vma"
  vma_links :: rb_heap
  page_data :: "page_ptr \<Rightarrow> nat \<Rightarrow> u8"
  mm_cachep :: nat
  vma_cachep :: nat
  zero_page :: page_ptr

definition upd_vm :: "vm \<Rightarrow> mms \<Rightarrow> mms" where
  "upd_vm v s = s\<lparr>mm_vm := v\<rparr>"

definition upd_vma :: "nat \<Rightarrow> (vma \<Rightarrow> vma) \<Rightarrow> mms \<Rightarrow> mms" where
  "upd_vma a f s = s\<lparr>vma_obj := (vma_obj s)(a := f (vma_obj s a))\<rparr>"

definition upd_mm :: "nat \<Rightarrow> (mm \<Rightarrow> mm) \<Rightarrow> mms \<Rightarrow> mms" where
  "upd_mm m f s = s\<lparr>mm_obj := (mm_obj s)(m := f (mm_obj s m))\<rparr>"

text \<open>\<^verbatim>\<open>page_addr(mm->pt)\<close> as a table.\<close>

definition mm_root :: "nat \<Rightarrow> mms \<Rightarrow> nat option" where
  "mm_root m s = map_option (page2pfn (vm_mem (mm_vm s))) (mm_pt (mm_obj s m))"

text \<open>Writing back the tree of areas of an address space.\<close>

definition put_tree :: "nat \<Rightarrow> rb_tree \<Rightarrow> mms \<Rightarrow> mms" where
  "put_tree m t s = upd_mm m (\<lambda>x. x\<lparr>mm_vma := snd t\<rparr>) (s\<lparr>vma_links := fst t\<rparr>)"

section \<open>Objects\<close>

text \<open>The static \<^verbatim>\<open>alloc_page_table\<close> of \<^verbatim>\<open>mm.c\<close>, which does not set the count of the page.\<close>

definition alloc_root_table :: "mms \<Rightarrow> (page_ptr option \<times> mms) option" where
  "alloc_root_table s = do {
     (page, m) \<leftarrow> alloc_pages 0 (vm_mem (mm_vm s));
     let v = upd_vm_mem (\<lambda>_. m) (mm_vm s);
     (case page of
        None \<Rightarrow> Some (None, upd_vm v s)
      | Some p \<Rightarrow> Some (Some p, upd_vm (v\<lparr>vm_pt := (vm_pt v)(page2pfn (vm_mem v) p := (\<lambda>_. 0))\<rparr>) s))
   }"

definition free_root_table :: "page_ptr option \<Rightarrow> mms \<Rightarrow> mms" where
  "free_root_table pt s = upd_vm (upd_vm_mem (free_pages pt 0) (mm_vm s)) s"

definition mm_cache_alloc :: "nat \<Rightarrow> mms \<Rightarrow> (nat \<times> mms) option" where
  "mm_cache_alloc c s = do {
     (p, k) \<leftarrow> kmem_cache_alloc c (vm_kmem (mm_vm s));
     Some (p, upd_vm ((mm_vm s)\<lparr>vm_kmem := k\<rparr>) s)
   }"

definition mm_cache_free :: "nat \<Rightarrow> nat \<Rightarrow> mms \<Rightarrow> mms option" where
  "mm_cache_free c p s = do {
     k \<leftarrow> kmem_cache_free c p (vm_kmem (mm_vm s));
     Some (upd_vm ((mm_vm s)\<lparr>vm_kmem := k\<rparr>) s)
   }"

definition zero_vma :: vma where
  "zero_vma = \<lparr>vma_begin = 0, vma_end = 0, vma_perm = 0, vma_mm = 0, vma_fault = No_fault\<rparr>"

definition zero_mm :: mm where
  "zero_mm = \<lparr>mm_vma = 0, mm_pt = None, mm_stack = 0, mm_stack_pointer = 0, mm_argv_addr = 0, mm_argc = 0\<rparr>"

text \<open>The tree node in an area is cleared as well; the colour is a bit of the parent word.\<close>

definition clear_node :: "nat \<Rightarrow> rb_heap \<Rightarrow> rb_heap" where
  "clear_node n h = set_left n 0 (set_right n 0 (rb_set_color n RED (rb_set_parent n 0 h)))"

definition alloc_vma :: "mms \<Rightarrow> (nat \<times> mms) option" where
  "alloc_vma s = do {
     (a, s) \<leftarrow> mm_cache_alloc (vma_cachep s) s;
     Some (a, if a \<noteq> 0 then (upd_vma a (\<lambda>_. zero_vma) s)\<lparr>vma_links := clear_node a (vma_links s)\<rparr> else s)
   }"

definition free_vma :: "nat \<Rightarrow> mms \<Rightarrow> mms option" where
  "free_vma a s = mm_cache_free (vma_cachep s) a s"

definition alloc_mm :: "mms \<Rightarrow> (nat \<times> mms) option" where
  "alloc_mm s = do {
     (m, s) \<leftarrow> mm_cache_alloc (mm_cachep s) s;
     Some (m, if m \<noteq> 0 then upd_mm m (\<lambda>_. zero_mm) s else s)
   }"

definition free_mm :: "nat \<Rightarrow> mms \<Rightarrow> mms option" where
  "free_mm m s = mm_cache_free (mm_cachep s) m s"

section \<open>Pages\<close>

definition copy_page :: "page_ptr \<Rightarrow> mms \<Rightarrow> (page_ptr option \<times> mms) option" where
  "copy_page page s =
     (if refcount page (mm_vm s) = 1 then Some (Some page, s)
      else do {
        (new, m) \<leftarrow> alloc_pages 0 (vm_mem (mm_vm s));
        let s = upd_vm (upd_vm_mem (\<lambda>_. m) (mm_vm s)) s;
        (case new of
           None \<Rightarrow> Some (None, s)
         | Some new \<Rightarrow> Some (Some new, s\<lparr>page_data := (page_data s)(new := page_data s page)\<rparr>))
      })"

text \<open>The loop of \<^verbatim>\<open>mapped_page\<close>, left at the first entry that is present.\<close>

partial_function (option) mapped_page_loop :: "u64 \<Rightarrow> pt_iter \<Rightarrow> vm \<Rightarrow> page_ptr option option" where
  "mapped_page_loop to it v =
     (if it_addr it < to
      then if it_level it \<noteq> 0 then None
           else do {
             pte \<leftarrow> iter_pte it v;
             if pte_present pte then Some (pte_page pte v)
             else do {
               nxt \<leftarrow> pt_iter_next it v;
               (case nxt of None \<Rightarrow> Some None | Some it \<Rightarrow> mapped_page_loop to it v)
             }
           }
      else Some None)"

definition mapped_page :: "nat \<Rightarrow> u64 \<Rightarrow> mms \<Rightarrow> page_ptr option option" where
  "mapped_page m addr s = do {
     root \<leftarrow> mm_root m s;
     mapped_page_loop (addr + PAGE_SIZE) (pt_iter_set (Some root) addr (mm_vm s)) (mm_vm s)
   }"

definition mmap_slot :: "pte_t \<Rightarrow> pt_iter \<Rightarrow> page_ptr list \<Rightarrow> vm \<Rightarrow> (page_ptr list \<times> vm) option" where
  "mmap_slot flags it pages v =
     (if it_level it \<noteq> 0 then None
      else do {
        pt \<leftarrow> it_pt it (it_level it);
        (case pages of
           [] \<Rightarrow> None
         | p # pages \<Rightarrow>
             let paddr = page_paddr (vm_mem v) p;
                 v = get_page p v
             in Some (pages, set_pte pt (it_idx it (it_level it)) (paddr OR flags OR PTE_PRESENT) v))
      })"

definition mmap_pages :: "nat \<Rightarrow> u64 \<Rightarrow> page_ptr list \<Rightarrow> pte_t \<Rightarrow> vm \<Rightarrow> vm option" where
  "mmap_pages root addr pages flags v =
     (if addr AND (PAGE_SIZE - 1) \<noteq> 0 then None
      else do {
        (_, v) \<leftarrow> for_each_slot_in_range (Some root) addr (addr + push_bit PAGE_BITS (of_nat (length pages))) (mmap_slot flags) pages v;
        Some v
      })"

definition munmap_slot :: "pt_iter \<Rightarrow> unit \<Rightarrow> vm \<Rightarrow> (unit \<times> vm) option" where
  "munmap_slot it u v =
     (if it_level it \<noteq> 0 then None
      else do {
        pt \<leftarrow> it_pt it (it_level it);
        let pte = vm_pt v pt (it_idx it (it_level it));
        let v = set_pte pt (it_idx it (it_level it)) 0 v;
        if pte_present pte
        then do { p \<leftarrow> pte_page pte v; Some ((), put_page p v) }
        else Some ((), v)
      })"

definition munmap_pages :: "nat \<Rightarrow> u64 \<Rightarrow> u64 \<Rightarrow> vm \<Rightarrow> vm option" where
  "munmap_pages root addr count v =
     (if addr AND (PAGE_SIZE - 1) \<noteq> 0 then None
      else do {
        (_, v) \<leftarrow> for_each_slot_in_range (Some root) addr (addr + push_bit PAGE_BITS count) munmap_slot () v;
        Some v
      })"

section \<open>Page faults\<close>

definition anon_page_fault :: "nat \<Rightarrow> nat \<Rightarrow> u64 \<Rightarrow> vma_access \<Rightarrow> mms \<Rightarrow> (int \<times> mms) option" where
  "anon_page_fault m a vaddr access s =
     (if access = VMA_ACCESS_WRITE \<and> vma_perm (vma_obj s a) AND VMA_PERM_WRITE = 0 then Some (- EINVAL, s)
      else do {
        root \<leftarrow> mm_root m s;
        if access = VMA_ACCESS_READ
        then do {
          v \<leftarrow> mmap_pages root vaddr [zero_page s] PTE_USER (mm_vm s);
          Some (0, upd_vm (flush_tlb_addr vaddr v) s)
        }
        else do {
          old \<leftarrow> mapped_page m vaddr s;
          (case old of
             Some old \<Rightarrow> do {
               (new, s) \<leftarrow> copy_page old s;
               (case new of
                  None \<Rightarrow> Some (- ENOMEM, s)
                | Some new \<Rightarrow> do {
                    v \<leftarrow> mmap_pages root vaddr [new] (PTE_USER OR PTE_WRITE) (mm_vm s);
                    Some (0, upd_vm (put_page old (flush_tlb_addr vaddr v)) s)
                  })
             }
           | None \<Rightarrow> do {
               (page, mem) \<leftarrow> alloc_pages 0 (vm_mem (mm_vm s));
               let s = upd_vm (upd_vm_mem (\<lambda>_. mem) (mm_vm s)) s;
               (case page of
                  None \<Rightarrow> Some (- ENOMEM, s)
                | Some page \<Rightarrow> do {
                    let s = s\<lparr>page_data := (page_data s)(page := (\<lambda>_. 0))\<rparr>;
                    v \<leftarrow> mmap_pages root vaddr [page] (PTE_USER OR PTE_WRITE) (set_refcount page 0 (mm_vm s));
                    Some (0, upd_vm (flush_tlb_addr vaddr v) s)
                  })
             })
        }
      })"

section \<open>Areas\<close>

text \<open>How the area \<open>a\<close> compares with the range searched for: before it, behind it, or overlapping.\<close>

definition vma_cmp :: "mms \<Rightarrow> u64 \<Rightarrow> u64 \<Rightarrow> nat \<Rightarrow> int" where
  "vma_cmp s lo hi a = (if vma_end (vma_obj s a) \<le> lo then - 1 else if hi \<le> vma_begin (vma_obj s a) then 1 else 0)"

text \<open>\<^verbatim>\<open>__lookup_vma\<close> gives the area, or 0, with the parent and the link where the search ended.\<close>

definition lookup_vma_link :: "nat \<Rightarrow> u64 \<Rightarrow> u64 \<Rightarrow> mms \<Rightarrow> (nat \<times> nat \<times> plink) option" where
  "lookup_vma_link m lo hi s = rb_find (vma_cmp s lo hi) (vma_links s) (mm_vma (mm_obj s m)) 0 RootLink"

definition lookup_vma :: "nat \<Rightarrow> u64 \<Rightarrow> mms \<Rightarrow> nat option" where
  "lookup_vma m addr s = do {
     let addr = addr AND NOT (PAGE_SIZE - 1);
     (a, _, _) \<leftarrow> lookup_vma_link m addr (addr + 1) s;
     Some a
   }"

definition mm_page_fault :: "nat \<Rightarrow> u64 \<Rightarrow> vma_access \<Rightarrow> mms \<Rightarrow> (int \<times> mms) option" where
  "mm_page_fault m vaddr access s =
     (if m = 0 then Some (- EINVAL, s)
      else do {
        let vaddr = vaddr AND NOT (PAGE_SIZE - 1);
        (a, _, _) \<leftarrow> lookup_vma_link m vaddr (vaddr + 1) s;
        if a = 0 then Some (- EINVAL, s)
        else (case vma_fault (vma_obj s a) of
                No_fault \<Rightarrow> None
              | Anon_page_fault \<Rightarrow> anon_page_fault m a vaddr access s)
      })"

definition link_vma :: "nat \<Rightarrow> nat \<Rightarrow> nat \<Rightarrow> plink \<Rightarrow> mms \<Rightarrow> mms option" where
  "link_vma m a parent plink s = do {
     t \<leftarrow> rb_insert a (rb_link a parent plink (vma_links s, mm_vma (mm_obj s m)));
     Some (put_tree m t s)
   }"

definition insert_vma :: "nat \<Rightarrow> nat \<Rightarrow> mms \<Rightarrow> mms option" where
  "insert_vma m a s = do {
     (_, parent, plink) \<leftarrow> lookup_vma_link m (vma_begin (vma_obj s a)) (vma_end (vma_obj s a)) s;
     link_vma m a parent plink s
   }"

definition mmap_mm :: "nat \<Rightarrow> u64 \<Rightarrow> u64 \<Rightarrow> u32 \<Rightarrow> mms \<Rightarrow> (int \<times> mms) option" where
  "mmap_mm m lo hi perm s = do {
     let lo = ALIGN_DOWN lo PAGE_SIZE;
     let hi = ALIGN hi PAGE_SIZE;
     (a, parent, plink) \<leftarrow> lookup_vma_link m lo hi s;
     if a \<noteq> 0 then Some (- EBUSY, s)
     else do {
       root \<leftarrow> mm_root m s;
       (rc, v) \<leftarrow> pt_populate_range root lo hi (mm_vm s);
       let s = upd_vm v s;
       if rc \<noteq> 0 then Some (rc, s)
       else do {
         (a, s) \<leftarrow> alloc_vma s;
         if a = 0
         then do {
           root \<leftarrow> mm_root m s;
           v \<leftarrow> pt_release_range root lo hi (mm_vm s);
           Some (- ENOMEM, upd_vm v s)
         }
         else do {
           let s = upd_vma a (\<lambda>_. \<lparr>vma_begin = lo, vma_end = hi, vma_perm = perm, vma_mm = m, vma_fault = Anon_page_fault\<rparr>) s;
           s \<leftarrow> link_vma m a parent plink s;
           Some (0, s)
         }
       }
     }
   }"

text \<open>\<^verbatim>\<open>while (!high) high = alloc_vma();\<close>\<close>

partial_function (option) alloc_vma_nofail :: "mms \<Rightarrow> (nat \<times> mms) option" where
  "alloc_vma_nofail s = do {
     (high, s) \<leftarrow> alloc_vma s;
     if high \<noteq> 0 then Some (high, s) else alloc_vma_nofail s
   }"

text \<open>The node of the tree in an area is copied with it.\<close>

definition copy_node :: "nat \<Rightarrow> nat \<Rightarrow> rb_heap \<Rightarrow> rb_heap" where
  "copy_node n x h = set_left n (rb_left h x) (set_right n (rb_right h x) (rb_set_color n (rb_color h x) (rb_set_parent n (rb_parent h x) h)))"

definition split_vma :: "nat \<Rightarrow> nat \<Rightarrow> u64 \<Rightarrow> u64 \<Rightarrow> mms \<Rightarrow> mms option" where
  "split_vma m a lo hi s = do {
     (high, s) \<leftarrow> alloc_vma_nofail s;
     let s = (upd_vma high (\<lambda>_. vma_obj s a) s)\<lparr>vma_links := copy_node high a (vma_links s)\<rparr>;
     let s = upd_vma high (\<lambda>x. x\<lparr>vma_begin := hi\<rparr>) s;
     let s = upd_vma a (\<lambda>x. x\<lparr>vma_end := lo\<rparr>) s;
     insert_vma m high s
   }"

definition unmap_vma :: "nat \<Rightarrow> nat \<Rightarrow> u64 \<Rightarrow> u64 \<Rightarrow> mms \<Rightarrow> mms option" where
  "unmap_vma m a lo hi s =
     (if lo \<le> vma_begin (vma_obj s a)
      then if vma_end (vma_obj s a) \<le> hi
           then do {
             t \<leftarrow> rb_erase a (vma_links s, mm_vma (mm_obj s m));
             free_vma a (put_tree m t s)
           }
           else Some (upd_vma a (\<lambda>x. x\<lparr>vma_begin := hi\<rparr>) s)
      else if vma_end (vma_obj s a) \<le> hi
           then Some (upd_vma a (\<lambda>x. x\<lparr>vma_end := lo\<rparr>) s)
           else split_vma m a lo hi s)"

partial_function (option) unmap_vmas :: "nat \<Rightarrow> u64 \<Rightarrow> u64 \<Rightarrow> mms \<Rightarrow> mms option" where
  "unmap_vmas m lo hi s = do {
     (a, _, _) \<leftarrow> lookup_vma_link m lo hi s;
     if a = 0 then Some s
     else do {
       s \<leftarrow> unmap_vma m a lo hi s;
       unmap_vmas m lo hi s
     }
   }"

definition munmap_mm :: "nat \<Rightarrow> u64 \<Rightarrow> u64 \<Rightarrow> mms \<Rightarrow> mms option" where
  "munmap_mm m lo hi s = do {
     root \<leftarrow> mm_root m s;
     v \<leftarrow> munmap_pages root lo (drop_bit PAGE_BITS (hi - lo)) (mm_vm s);
     v \<leftarrow> pt_release_range root lo hi v;
     unmap_vmas m lo hi (upd_vm v s)
   }"

text \<open>The calls for the current thread, whose address space \<^verbatim>\<open>current()->mm\<close> is an argument.\<close>

definition mmap_current :: "nat \<Rightarrow> u64 \<Rightarrow> u64 \<Rightarrow> u32 \<Rightarrow> mms \<Rightarrow> (int \<times> mms) option" where
  "mmap_current cur lo hi perm s = mmap_mm cur lo hi perm s"

definition munmap_current :: "nat \<Rightarrow> u64 \<Rightarrow> u64 \<Rightarrow> mms \<Rightarrow> mms option" where
  "munmap_current cur lo hi s = munmap_mm cur lo hi s"

section \<open>Whole address spaces\<close>

definition create_mm :: "mms \<Rightarrow> (nat \<times> mms) option" where
  "create_mm s = do {
     (m, s) \<leftarrow> alloc_mm s;
     if m = 0 then Some (0, s)
     else do {
       (pt, s) \<leftarrow> alloc_root_table s;
       (case pt of
          None \<Rightarrow> do { s \<leftarrow> free_mm m s; Some (0, s) }
        | Some p \<Rightarrow>
            let v = mm_vm s;
                t = page2pfn (vm_mem v) p;
                kernel = vm_pt v (frame_of (load_pml4 v));
                v = v\<lparr>vm_pt := (vm_pt v)(t := (\<lambda>i. if pml4_i HIGH_BASE \<le> i \<and> i < PT_SIZE then kernel i else vm_pt v t i))\<rparr>
            in Some (m, upd_mm m (\<lambda>x. x\<lparr>mm_pt := Some p\<rparr>) (upd_vm v s)))
     }
   }"

text \<open>The body of the loop of \<^verbatim>\<open>copy_vma\<close>: a present page is shared and loses its right to be written.\<close>

definition copy_slot :: "nat \<Rightarrow> pt_iter \<Rightarrow> unit \<Rightarrow> vm \<Rightarrow> (unit \<times> vm) option" where
  "copy_slot dst it u v =
     (if it_level it \<noteq> 0 then None
      else do {
        pt \<leftarrow> it_pt it (it_level it);
        let i = it_idx it (it_level it);
        let pte = vm_pt v pt i;
        if \<not> pte_present pte then Some ((), v)
        else do {
          let page = pte_page pte v;
          let v = (if pte AND PTE_WRITE \<noteq> 0 then flush_tlb_addr (it_addr it) (set_pte pt i (pte AND NOT PTE_WRITE) v) else v);
          p \<leftarrow> page;
          v \<leftarrow> mmap_pages dst (it_addr it) [p] PTE_USER v;
          Some ((), v)
        }
      })"

definition copy_vma :: "nat \<Rightarrow> nat \<Rightarrow> mms \<Rightarrow> (int \<times> mms) option" where
  "copy_vma dst a s = do {
     let x = vma_obj s a;
     (rc, s) \<leftarrow> mmap_mm dst (vma_begin x) (vma_end x) (vma_perm x) s;
     if rc \<noteq> 0 then Some (- ENOMEM, s)
     else do {
       let x = vma_obj s a;
       dst_root \<leftarrow> mm_root dst s;
       root \<leftarrow> mm_root (vma_mm x) s;
       (_, v) \<leftarrow> for_each_slot_in_range (Some root) (vma_begin x) (vma_end x) (copy_slot dst_root) () (mm_vm s);
       Some (0, upd_vm v s)
     }
   }"

partial_function (option) copy_vmas :: "nat \<Rightarrow> nat \<Rightarrow> mms \<Rightarrow> (int \<times> mms) option" where
  "copy_vmas dst a s =
     (if a = 0 then Some (0, s)
      else do {
        (rc, s) \<leftarrow> copy_vma dst a s;
        if rc \<noteq> 0 then Some (rc, s)
        else do {
          a \<leftarrow> rb_next (vma_links s) a;
          copy_vmas dst a s
        }
      })"

definition copy_mm :: "nat \<Rightarrow> nat \<Rightarrow> mms \<Rightarrow> (int \<times> mms) option" where
  "copy_mm dst src s = do {
     a \<leftarrow> rb_leftmost (vma_links s) (mm_vma (mm_obj s src));
     copy_vmas dst a s
   }"

partial_function (option) unmap_all_loop :: "nat \<Rightarrow> nat \<Rightarrow> mms \<Rightarrow> mms option" where
  "unmap_all_loop m a s =
     (if a = 0 then Some s
      else do {
        nxt \<leftarrow> rb_next (vma_links s) a;
        s \<leftarrow> munmap_mm m (vma_begin (vma_obj s a)) (vma_end (vma_obj s a)) s;
        unmap_all_loop m nxt s
      })"

definition unmap_all_vma :: "nat \<Rightarrow> mms \<Rightarrow> mms option" where
  "unmap_all_vma m s = do {
     a \<leftarrow> rb_leftmost (vma_links s) (mm_vma (mm_obj s m));
     unmap_all_loop m a s
   }"

definition release_mm :: "nat \<Rightarrow> mms \<Rightarrow> mms option" where
  "release_mm m s = do {
     s \<leftarrow> unmap_all_vma m s;
     free_mm m (free_root_table (mm_pt (mm_obj s m)) s)
   }"

text \<open>The sizes and the alignment the compiler gives to the structures.\<close>

definition sizeof_mm :: u64 where "sizeof_mm = 48"
definition sizeof_vma :: u64 where "sizeof_vma = 64"

definition setup_mm :: "mms \<Rightarrow> mms option" where
  "setup_mm s = do {
     (mc, k) \<leftarrow> kmem_cache_create sizeof_mm 8 (vm_kmem (mm_vm s));
     if mc = 0 then None else do {
       (vc, k) \<leftarrow> kmem_cache_create sizeof_vma 8 k;
       if vc = 0 then None else do {
         (z, m) \<leftarrow> alloc_pages 0 (k_mem k);
         z \<leftarrow> z;
         let v = set_refcount z 1 ((mm_vm s)\<lparr>vm_kmem := k\<lparr>k_mem := m\<rparr>\<rparr>);
         Some (s\<lparr>mm_vm := v, mm_cachep := mc, vma_cachep := vc, zero_page := z, page_data := (page_data s)(z := (\<lambda>_. 0))\<rparr>)
       }
     }
   }"

end
