(* ===== verification/Threads.thy ===== *)
theory Threads
  imports Mm Sched
begin

text \<open>
  Processes: the part of \<^verbatim>\<open>src/threads.c\<close> beyond switching, with the allocation of threads in \<^verbatim>\<open>src/scheduler.c\<close>. A thread
  has a stack of two pages, an address space, a pid and a reference count; the threads that were not reaped are in a
  red-black tree by pid. The frame of a new thread and the registers at the end of its stack are records for each
  thread. The sections under \<^verbatim>\<open>threads_lock\<close> and the lock of a thread are atomic. \<^term>\<open>None\<close> is a failed assertion or a
  loop that does not end.
\<close>

section \<open>State\<close>

record thread_regs =
  tr_r15 :: u64
  tr_r14 :: u64
  tr_r13 :: u64
  tr_r12 :: u64
  tr_rbp :: u64
  tr_rbx :: u64
  tr_r11 :: u64
  tr_r10 :: u64
  tr_r9 :: u64
  tr_r8 :: u64
  tr_rax :: u64
  tr_rcx :: u64
  tr_rdx :: u64
  tr_rsi :: u64
  tr_rdi :: u64
  tr_intno :: u64
  tr_error :: u64
  tr_rip :: u64
  tr_cs :: u64
  tr_rflags :: u64
  tr_rsp :: u64
  tr_ss :: u64

record switch_stack_frame =
  sf_r15 :: u64
  sf_r14 :: u64
  sf_r13 :: u64
  sf_r12 :: u64
  sf_rbx :: u64
  sf_rbp :: u64
  sf_entry :: u64

definition sizeof_thread_regs :: u64 where "sizeof_thread_regs = 176"
definition sizeof_start_frame :: u64 where "sizeof_start_frame = 232"
definition sizeof_rr_thread :: u64 where "sizeof_rr_thread = 104"

definition zero_regs :: thread_regs where
  "zero_regs = \<lparr>tr_r15 = 0, tr_r14 = 0, tr_r13 = 0, tr_r12 = 0, tr_rbp = 0, tr_rbx = 0, tr_r11 = 0, tr_r10 = 0, tr_r9 = 0, tr_r8 = 0,
     tr_rax = 0, tr_rcx = 0, tr_rdx = 0, tr_rsi = 0, tr_rdi = 0, tr_intno = 0, tr_error = 0, tr_rip = 0, tr_cs = 0, tr_rflags = 0, tr_rsp = 0, tr_ss = 0\<rparr>"

definition zero_frame :: switch_stack_frame where
  "zero_frame = \<lparr>sf_r15 = 0, sf_r14 = 0, sf_r13 = 0, sf_r12 = 0, sf_rbx = 0, sf_rbp = 0, sf_entry = 0\<rparr>"

definition KERNEL_CS :: u64 where "KERNEL_CS = 0x08"
definition KERNEL_DS :: u64 where "KERNEL_DS = 0x10"

text \<open>The fields of a thread that the scheduler does not use. A \<^verbatim>\<open>pid_t\<close> does not overflow: there are never that many threads.\<close>

record thread_desc =
  td_pid :: int
  td_stack_pointer :: u64
  td_stack :: page_ptr
  td_mm :: nat
  td_refcount :: int

record tss_desc =
  td_low :: u64
  td_high :: u64

record tss =
  tss_iomap_base :: u16
  tss_iomap :: "u64 list"

text \<open>The addresses of the initial stack and of the two entry points are those the linker chose.\<close>

record procs =
  pr_mms :: mms
  pr_sched :: sched
  pr_desc :: "nat \<Rightarrow> thread_desc"
  pr_frame :: "nat \<Rightarrow> switch_stack_frame"
  pr_regs :: "nat \<Rightarrow> thread_regs"
  thr_links :: rb_heap
  thr_root :: nat
  next_pid :: int
  rr_thread_cache :: nat
  pr_tss :: tss
  init_stack_bottom :: u64
  init_stack_top :: u64
  thread_entry_addr :: u64
  exit_addr :: u64

definition upd_desc :: "nat \<Rightarrow> (thread_desc \<Rightarrow> thread_desc) \<Rightarrow> procs \<Rightarrow> procs" where
  "upd_desc t f s = s\<lparr>pr_desc := (pr_desc s)(t := f (pr_desc s t))\<rparr>"

definition upd_pmm :: "mms \<Rightarrow> procs \<Rightarrow> procs" where
  "upd_pmm x s = s\<lparr>pr_mms := x\<rparr>"

abbreviation pr_mem :: "procs \<Rightarrow> mem_state" where
  "pr_mem s \<equiv> vm_mem (mm_vm (pr_mms s))"

definition upd_pmem :: "(mem_state \<Rightarrow> mem_state) \<Rightarrow> procs \<Rightarrow> procs" where
  "upd_pmem f s = upd_pmm (upd_vm (upd_vm_mem f (mm_vm (pr_mms s))) (pr_mms s)) s"

section \<open>Stacks\<close>

definition KERNEL_STACK_ORDER :: nat where "KERNEL_STACK_ORDER = 1"

definition thread_stack_size :: u64 where
  "thread_stack_size = push_bit (KERNEL_STACK_ORDER + PAGE_BITS) 1"

definition thread_stack_begin :: "nat \<Rightarrow> procs \<Rightarrow> u64" where
  "thread_stack_begin t s = (if t = bootstrap then init_stack_bottom s else page_addr (pr_mem s) (td_stack (pr_desc s t)))"

definition thread_stack_end :: "nat \<Rightarrow> procs \<Rightarrow> u64" where
  "thread_stack_end t s = (if t = bootstrap then init_stack_top s else thread_stack_begin t s + thread_stack_size)"

text \<open>\<^verbatim>\<open>check_stack\<close> hangs when this does not hold.\<close>

definition check_stack :: "nat \<Rightarrow> procs \<Rightarrow> bool" where
  "check_stack t s \<longleftrightarrow>
     (let b = page_addr (pr_mem s) (td_stack (pr_desc s t));
          size = PAGE_SIZE * push_bit KERNEL_STACK_ORDER 1
      in \<not> (td_stack_pointer (pr_desc s t) < b \<or> b + size \<le> td_stack_pointer (pr_desc s t)))"

text \<open>The address of the saved registers.\<close>

definition thread_regs_addr :: "nat \<Rightarrow> procs \<Rightarrow> u64" where
  "thread_regs_addr t s = thread_stack_end t s - sizeof_thread_regs"

section \<open>The table of threads\<close>

definition thread_pid :: "procs \<Rightarrow> nat \<Rightarrow> int" where
  "thread_pid s t = td_pid (pr_desc s t)"

text \<open>\<^verbatim>\<open>__lookup_thread\<close>.\<close>

definition lookup_thread_link :: "int \<Rightarrow> procs \<Rightarrow> (nat \<times> nat \<times> plink) option" where
  "lookup_thread_link pid s = rb_find (\<lambda>t. thread_pid s t - pid) (thr_links s) (thr_root s) 0 RootLink"

definition get_thread :: "nat \<Rightarrow> procs \<Rightarrow> procs" where
  "get_thread t s = upd_desc t (\<lambda>d. d\<lparr>td_refcount := td_refcount d + 1\<rparr>) s"

definition lookup_thread :: "int \<Rightarrow> procs \<Rightarrow> (nat \<times> procs) option" where
  "lookup_thread pid s = do {
     (t, _, _) \<leftarrow> lookup_thread_link pid s;
     Some (t, if t \<noteq> 0 then get_thread t s else s)
   }"

definition take_pid :: "nat \<Rightarrow> procs \<Rightarrow> procs" where
  "take_pid t s = upd_desc t (\<lambda>d. d\<lparr>td_pid := next_pid s\<rparr>) (s\<lparr>next_pid := next_pid s + 1\<rparr>)"

partial_function (option) register_loop :: "nat \<Rightarrow> procs \<Rightarrow> (nat \<times> plink \<times> procs) option" where
  "register_loop t s = do {
     (x, parent, plink) \<leftarrow> lookup_thread_link (thread_pid s t) s;
     if x \<noteq> 0 then register_loop t (take_pid t s) else Some (parent, plink, s)
   }"

definition register_thread :: "nat \<Rightarrow> procs \<Rightarrow> procs option" where
  "register_thread t s = do {
     (parent, plink, s) \<leftarrow> register_loop t (take_pid t s);
     (h, root) \<leftarrow> rb_insert t (rb_link t parent plink (thr_links s, thr_root s));
     Some (s\<lparr>thr_links := h, thr_root := root\<rparr>)
   }"

section \<open>Allocation\<close>

definition rr_alloc_thread :: "procs \<Rightarrow> (nat \<times> procs) option" where
  "rr_alloc_thread s = do {
     (t, x) \<leftarrow> mm_cache_alloc (rr_thread_cache s) (pr_mms s);
     Some (t, upd_pmm x s)
   }"

definition rr_free_thread :: "nat \<Rightarrow> procs \<Rightarrow> procs option" where
  "rr_free_thread t s = do {
     x \<leftarrow> mm_cache_free (rr_thread_cache s) t (pr_mms s);
     Some (upd_pmm x s)
   }"

definition free_stack :: "page_ptr \<Rightarrow> procs \<Rightarrow> procs" where
  "free_stack stack s = upd_pmem (free_pages (Some stack) KERNEL_STACK_ORDER) s"

text \<open>The scheduler keeps the frame of the root table and the end of the stack of a thread in its own record.\<close>

definition sched_new_thread :: "nat \<Rightarrow> procs \<Rightarrow> procs" where
  "sched_new_thread t s = s\<lparr>pr_sched := (pr_sched s)\<lparr>sc_thread := (sc_thread (pr_sched s))(t := (sc_thread (pr_sched s) t)\<lparr>t_state := THREAD_BLOCKED,
     t_pt := (case mm_root (td_mm (pr_desc s t)) (pr_mms s) of None \<Rightarrow> 0 | Some r \<Rightarrow> r), t_stack_end := unat (thread_stack_end t s)\<rparr>)\<rparr>\<rparr>"

definition init_thread :: "nat \<Rightarrow> page_ptr \<Rightarrow> procs \<Rightarrow> procs" where
  "init_thread t stack s =
     (let s = upd_desc t (\<lambda>d. d\<lparr>td_refcount := 1, td_stack := stack, td_pid := - 1\<rparr>) s;
          s = sched_new_thread t s;
          s = s\<lparr>pr_frame := (pr_frame s)(t := zero_frame), pr_regs := (pr_regs s)(t := zero_regs)\<rparr>
      in upd_desc t (\<lambda>d. d\<lparr>td_stack_pointer := thread_stack_end t s\<rparr>) s)"

definition alloc_thread :: "procs \<Rightarrow> (nat \<times> procs) option" where
  "alloc_thread s = do {
     (stack, mem) \<leftarrow> alloc_pages KERNEL_STACK_ORDER (pr_mem s);
     let s = upd_pmem (\<lambda>_. mem) s;
     (case stack of
        None \<Rightarrow> Some (0, s)
      | Some stack \<Rightarrow> do {
          (t, s) \<leftarrow> rr_alloc_thread s;
          if t = 0 then Some (0, free_stack stack s)
          else do {
            (m, x) \<leftarrow> create_mm (pr_mms s);
            let s = upd_desc t (\<lambda>d. d\<lparr>td_mm := m\<rparr>) (upd_pmm x s);
            if m = 0
            then do { s \<leftarrow> rr_free_thread t s; Some (0, free_stack stack s) }
            else Some (t, init_thread t stack s)
          }
        })
   }"

section \<open>References\<close>

definition release_thread :: "nat \<Rightarrow> procs \<Rightarrow> procs option" where
  "release_thread t s = do {
     x \<leftarrow> release_mm (td_mm (pr_desc s t)) (pr_mms s);
     rr_free_thread t (free_stack (td_stack (pr_desc s t)) (upd_pmm x s))
   }"

definition put_thread :: "nat \<Rightarrow> procs \<Rightarrow> procs option" where
  "put_thread t s =
     (let s = upd_desc t (\<lambda>d. d\<lparr>td_refcount := td_refcount d - 1\<rparr>) s
      in if td_refcount (pr_desc s t) = 0 then release_thread t s else Some s)"

section \<open>Creation\<close>

definition kthread_frame :: "nat \<Rightarrow> u64 \<Rightarrow> u64 \<Rightarrow> procs \<Rightarrow> procs" where
  "kthread_frame t fptr arg s =
     s\<lparr>pr_frame := (pr_frame s)(t := (pr_frame s t)\<lparr>sf_entry := thread_entry_addr s, sf_r15 := of_nat t, sf_r14 := fptr, sf_r13 := arg\<rparr>),
       pr_regs := (pr_regs s)(t := (pr_regs s t)\<lparr>tr_ss := KERNEL_DS, tr_cs := KERNEL_CS, tr_rsp := thread_stack_end t s, tr_rip := exit_addr s\<rparr>)\<rparr>"

definition start_on_frame :: "nat \<Rightarrow> procs \<Rightarrow> procs" where
  "start_on_frame t s = upd_desc t (\<lambda>d. d\<lparr>td_stack_pointer := thread_stack_end t s - sizeof_start_frame\<rparr>) s"

text \<open>\<^verbatim>\<open>__create_thread\<close>.\<close>

definition create_thread :: "u64 \<Rightarrow> u64 \<Rightarrow> procs \<Rightarrow> (int \<times> procs) option" where
  "create_thread fptr arg s = do {
     (t, s) \<leftarrow> alloc_thread s;
     if t = 0 then Some (- ENOMEM, s)
     else do {
       s \<leftarrow> register_thread t (start_on_frame t (kthread_frame t fptr arg s));
       Some (thread_pid s t, s)
     }
   }"

text \<open>Both \<^verbatim>\<open>create_kthread\<close> and \<^verbatim>\<open>fork\<close> activate the thread behind its pid.\<close>

definition start_thread :: "int \<Rightarrow> procs \<Rightarrow> (int \<times> procs) option" where
  "start_thread pid s =
     (if pid < 0 then Some (pid, s)
      else do {
        (t, s) \<leftarrow> lookup_thread pid s;
        if t = 0 then None
        else do {
          x \<leftarrow> activate_thread t (pr_sched s);
          s \<leftarrow> put_thread t (s\<lparr>pr_sched := x\<rparr>);
          Some (pid, s)
        }
      })"

definition create_kthread :: "u64 \<Rightarrow> u64 \<Rightarrow> procs \<Rightarrow> (int \<times> procs) option" where
  "create_kthread fptr arg s = do {
     (pid, s) \<leftarrow> create_thread fptr arg s;
     start_thread pid s
   }"

definition fork_frame :: "nat \<Rightarrow> procs \<Rightarrow> procs" where
  "fork_frame t s =
     s\<lparr>pr_frame := (pr_frame s)(t := (pr_frame s t)\<lparr>sf_entry := thread_entry_addr s, sf_r15 := of_nat t, sf_r14 := 0, sf_r13 := 0\<rparr>),
       pr_regs := (pr_regs s)(t := (pr_regs s (current_thread (pr_sched s)))\<lparr>tr_rax := 0\<rparr>)\<rparr>"

text \<open>\<^verbatim>\<open>__fork\<close>.\<close>

definition fork_thread :: "procs \<Rightarrow> (int \<times> procs) option" where
  "fork_thread s = do {
     (t, s) \<leftarrow> alloc_thread s;
     if t = 0 then Some (- ENOMEM, s)
     else do {
       (rc, x) \<leftarrow> copy_mm (td_mm (pr_desc s t)) (td_mm (pr_desc s (current_thread (pr_sched s)))) (pr_mms s);
       let s = upd_pmm x s;
       if rc \<noteq> 0 then do { s \<leftarrow> put_thread t s; Some (rc, s) }
       else do {
         s \<leftarrow> register_thread t (start_on_frame t (fork_frame t s));
         Some (thread_pid s t, s)
       }
     }
   }"

definition fork :: "procs \<Rightarrow> (int \<times> procs) option" where
  "fork s = do {
     (pid, s) \<leftarrow> fork_thread s;
     start_thread pid s
   }"

section \<open>Waiting\<close>

definition reap_thread :: "nat \<Rightarrow> procs \<Rightarrow> (bool \<times> procs) option" where
  "reap_thread t s =
     (let (fresh, x) = reap_state t (pr_sched s);
          s = s\<lparr>pr_sched := x\<rparr>
      in if \<not> fresh then Some (False, s)
         else do {
           (h, root) \<leftarrow> rb_erase t (thr_links s, thr_root s);
           s \<leftarrow> put_thread t (s\<lparr>thr_links := h, thr_root := root\<rparr>);
           Some (True, s)
         })"

text \<open>The two parts of \<^verbatim>\<open>wait\<close> around the loop that calls \<^verbatim>\<open>schedule\<close> until the thread is dead.\<close>

definition wait_begin :: "int \<Rightarrow> procs \<Rightarrow> (int \<times> nat \<times> procs) option" where
  "wait_begin pid s = do {
     (t, s) \<leftarrow> lookup_thread pid s;
     Some (if t = 0 then (- ENOENT, 0, s) else (0, t, s))
   }"

definition wait_end :: "nat \<Rightarrow> procs \<Rightarrow> (int \<times> procs) option" where
  "wait_end t s = do {
     (reaped, s) \<leftarrow> reap_thread t s;
     s \<leftarrow> put_thread t s;
     Some (if reaped then 0 else - ENOENT, s)
   }"

section \<open>Start\<close>

text \<open>The map of ports has one word too many, all ones, as the processor wants it.\<close>

definition IO_MAP_BITS :: nat where "IO_MAP_BITS = 2 ^ 16"
definition IO_MAP_WORDS :: nat where "IO_MAP_WORDS = IO_MAP_BITS div 8"
definition sizeof_tss :: u64 where "sizeof_tss = 104 + 8 * (of_nat IO_MAP_WORDS + 1)"

definition setup_tss_desc :: "u64 \<Rightarrow> u64 \<Rightarrow> tss_desc" where
  "setup_tss_desc limit b =
     \<lparr>td_low = (limit AND BITS_CONST 15 0) OR push_bit 16 (b AND BITS_CONST 23 0) OR push_bit 40 (9 OR BIT_CONST 7)
               OR push_bit 32 (limit AND BITS_CONST 19 16) OR push_bit 32 (b AND BITS_CONST 31 24),
      td_high = drop_bit 32 b\<rparr>"

definition setup_tss :: "procs \<Rightarrow> procs" where
  "setup_tss s =
     s\<lparr>pr_tss := \<lparr>tss_iomap_base = 104, tss_iomap = replicate (IO_MAP_WORDS + 1) (- 1)\<rparr>,
       pr_sched := (pr_sched s)\<lparr>tss_rsp0 := unat (init_stack_top s)\<rparr>\<rparr>"

definition setup_round_robin :: "procs \<Rightarrow> procs option" where
  "setup_round_robin s = do {
     (c, k) \<leftarrow> kmem_cache_create sizeof_rr_thread 8 (vm_kmem (mm_vm (pr_mms s)));
     if c = 0 then None
     else Some ((upd_pmm (upd_vm ((mm_vm (pr_mms s))\<lparr>vm_kmem := k\<rparr>) (pr_mms s)) s)\<lparr>rr_thread_cache := c\<rparr>)
   }"

text \<open>\<open>m\<close> is the address of the static \<^verbatim>\<open>mm\<close> of the first thread.\<close>

definition setup_processes :: "nat \<Rightarrow> procs \<Rightarrow> procs option" where
  "setup_processes m s = do {
     s \<leftarrow> setup_round_robin s;
     x \<leftarrow> setup_mm (pr_mms s);
     let s = setup_tss (upd_pmm x s);
     let s = upd_desc bootstrap (\<lambda>d. d\<lparr>td_mm := m\<rparr>) s;
     let pt = pfn2page (pr_mem s) (frame_of (load_pml4 (mm_vm (pr_mms s))));
     Some (upd_pmm (upd_mm m (\<lambda>x. x\<lparr>mm_pt := pt\<rparr>) (pr_mms s)) (s\<lparr>pr_sched := setup_threading (pr_sched s)\<rparr>))
   }"

end
