(* ===== verification/User_Pages.thy ===== *)
theory User_Pages
  imports Mm "HOL-Library.Multiset"
begin

text \<open>
  The pages of user address spaces and the references to them: mapping pages takes references, unmapping
  drops them, and a page is given back exactly when its last reference is dropped.
\<close>

section \<open>Tables that stay as they were\<close>

definition vm_same :: "nat set \<Rightarrow> vm \<Rightarrow> vm \<Rightarrow> bool" where
  "vm_same Y v v' \<longleftrightarrow> (\<forall>g \<in> Y. vm_pt v' g = vm_pt v g \<and> table_count v' g = table_count v g) \<and> pfn2page (vm_mem v') = pfn2page (vm_mem v)"

lemma vm_same_trans: "vm_same Y v v' \<Longrightarrow> vm_same Y v' v'' \<Longrightarrow> vm_same Y v v''"
  by (simp add: vm_same_def)

lemma framed_vm_same: "framed P K live v H r I X v' X' \<Longrightarrow> Y \<subseteq> H - insert r X \<Longrightarrow> vm_same Y v v'"
  unfolding framed_def vm_same_def by blast

lemma slots_same:
  assumes "slots_ok 2 I v M r b X" and "vm_same (insert r X) v v'"
  shows "slots_ok 2 I v' M r b X"
proof (rule pt_slots_cong [OF assms(1)])
  fix f i Y assume f: "insert f Y \<subseteq> X" "pt_tree 2 (vm_pt v) (table_count v) M f (b + i * 512 ^ Suc 2) Y"
  show "pt_tree 2 (vm_pt v') (table_count v') M f (b + i * 512 ^ Suc 2) Y"
    by (rule pt_tree_cong [OF f(2)]) (use f(1) assms(2) in \<open>auto simp: vm_same_def\<close>)
qed (use assms(2) in \<open>auto simp: vm_same_def\<close>)

section \<open>References to pages\<close>

lemma set_refcount_held:
  fixes u :: u64
  assumes "tables P K live v H" and p: "(p, 0) \<in> P"
  defines "v' \<equiv> set_refcount p u v"
  shows "tables P K live v' H" "vm_pt v' = vm_pt v" "pfn2page (vm_mem v') = pfn2page (vm_mem v)"
    "g \<in> H \<Longrightarrow> table_count v' g = table_count v g" "refcount p v' = u" "q \<noteq> p \<Longrightarrow> refcount q v' = refcount q v"
proof -
  obtain T where T: "kmem_inv (P \<union> (\<lambda>p. (p, 0)) ` T) (vm_kmem v) K live" "P \<inter> (\<lambda>p. (p, 0)) ` T = {}" "H = frame_no (vm_mem v) ` T"
    "\<forall>p \<in> T. valid_page (vm_mem v) p" "\<forall>p \<in> T. pfn2page (vm_mem v) (frame_no (vm_mem v) p) = Some p"
    by (rule tablesE [OF assms(1)])
  have mem: "(p, 0) \<in> P \<union> (\<lambda>p. (p, 0)) ` T" using p by simp
  let ?ms = "node_upd (fst p) (page_upd (snd p) (\<lambda>x. x\<lparr>pg_u := u\<rparr>) (ms_nodes (vm_mem v) ! fst p)) (vm_mem v)"
  note h = heap_set_u [OF T(1) mem refl, where u = u]
  have v': "vm_kmem v' = (vm_kmem v)\<lparr>k_mem := ?ms\<rparr>" "vm_pt v' = vm_pt v" by (simp_all add: v'_def set_refcount_def)
  show "vm_pt v' = vm_pt v" by (rule v'(2))
  show pf: "pfn2page (vm_mem v') = pfn2page (vm_mem v)" by (rule ext) (use pfn2page_frame [OF h(2)] in \<open>simp add: v'\<close>)
  have "H = frame_no (vm_mem v') ` T" unfolding T(3) using same_frame_no [OF h(2) T(4) [rule_format]] by (intro image_cong) (simp_all add: v')
  then show "tables P K live v' H" using h(1) T(2) by (auto simp: tables_def v')
  show "refcount p v' = u" using h(3) by (simp add: refcount_def v')
  show rc: "refcount q v' = refcount q v" if "q \<noteq> p" for q using h(4) [OF that] by (simp add: refcount_def v')
  show "table_count v' g = table_count v g" if gH: "g \<in> H"
  proof -
    obtain q where q: "q \<in> T" "g = frame_no (vm_mem v) q" using gH T(3) by blast
    have "q \<noteq> p" using p q(1) T(2) by blast
    then show ?thesis using rc [of q] T(5) [rule_format, OF q(1)] q(2) by (simp add: table_count_def pf)
  qed
qed

lemma free_block_held:
  assumes "tables P K live v H" and p: "(p, k) \<in> P"
  defines "v' \<equiv> upd_vm_mem (free_pages (Some p) k) v"
  shows "tables (P - {(p, k)}) K live v' H" "vm_pt v' = vm_pt v" "pfn2page (vm_mem v') = pfn2page (vm_mem v)"
    "g \<in> H \<Longrightarrow> table_count v' g = table_count v g" "(q, 0) \<in> P \<Longrightarrow> (q, 0) \<noteq> (p, k) \<Longrightarrow> refcount q v' = refcount q v"
proof -
  obtain T where T: "kmem_inv (P \<union> (\<lambda>p. (p, 0)) ` T) (vm_kmem v) K live" "P \<inter> (\<lambda>p. (p, 0)) ` T = {}" "H = frame_no (vm_mem v) ` T"
    "\<forall>p \<in> T. valid_page (vm_mem v) p" "\<forall>p \<in> T. pfn2page (vm_mem v) (frame_no (vm_mem v) p) = Some p"
    by (rule tablesE [OF assms(1)])
  have mem: "(p, k) \<in> P \<union> (\<lambda>p. (p, 0)) ` T" using p by simp
  note h = heap_free_pages_ok(1) [OF T(1) mem] and fr = heap_free_pages_frame [OF T(1) mem]
  have v': "vm_kmem v' = heap_free_pages (Some p) k (vm_kmem v)" "vm_pt v' = vm_pt v"
    by (simp_all add: v'_def heap_free_pages_def upd_vm_mem_def)
  show "vm_pt v' = vm_pt v" by (rule v'(2))
  show pf: "pfn2page (vm_mem v') = pfn2page (vm_mem v)" by (rule ext) (use pfn2page_frame [OF fr(1)] in \<open>simp add: v'\<close>)
  have "H = frame_no (vm_mem v') ` T" unfolding T(3) using same_frame_no [OF fr(1) T(4) [rule_format]] by (intro image_cong) (simp_all add: v')
  moreover have "P \<union> (\<lambda>p. (p, 0)) ` T - {(p, k)} = (P - {(p, k)}) \<union> (\<lambda>p. (p, 0)) ` T" using T(2) p by auto
  ultimately have "kmem_inv ((P - {(p, k)}) \<union> (\<lambda>p. (p, 0)) ` T) (vm_kmem v') K live \<and> (P - {(p, k)}) \<inter> (\<lambda>p. (p, 0)) ` T = {} \<and> H = frame_no (vm_mem v') ` T"
    using h T(2) unfolding v'(1) by (simp only:) blast
  then show "tables (P - {(p, k)}) K live v' H" unfolding tables_def by (rule exI)
  show "refcount q v' = refcount q v" if "(q, 0) \<in> P" "(q, 0) \<noteq> (p, k)" using fr(2) [of q] that by (simp add: refcount_def v')
  show "table_count v' g = table_count v g" if gH: "g \<in> H"
  proof -
    obtain q where q: "q \<in> T" "g = frame_no (vm_mem v) q" using gH T(3) by blast
    have "(q, 0) \<noteq> (p, k)" using p q(1) T(2) by blast
    then have "refcount q v' = refcount q v" using fr(2) [of q] q(1) by (simp add: refcount_def v')
    then show ?thesis using T(5) [rule_format, OF q(1)] q(2) by (simp add: table_count_def pf)
  qed
qed

lemmas free_page_held = free_block_held [where k = 0]

text \<open>
  \<open>D\<close> are the pages with data, besides the blocks \<open>P\<close> with other holders, and \<open>refs\<close> the references to them that are held.
\<close>

definition refs_ok :: "page_ptr set \<Rightarrow> page_ptr multiset \<Rightarrow> vm \<Rightarrow> bool" where
  "refs_ok D refs v \<longleftrightarrow> (\<forall>p \<in> D. refcount p v = of_nat (count refs p)) \<and> set_mset refs \<subseteq> D \<and> size refs < 2 ^ 64"

abbreviation held :: "(page_ptr \<times> nat) set \<Rightarrow> page_ptr set \<Rightarrow> (page_ptr \<times> nat) set" where
  "held P D \<equiv> P \<union> (\<lambda>p. (p, 0)) ` D"

lemma get_page_ok:
  assumes "tables (held P D) K live v H" and "refs_ok D refs v" and "p \<in> D" and "size refs + 1 < 2 ^ 64"
  shows "tables (held P D) K live (get_page p v) H" "refs_ok D (add_mset p refs) (get_page p v)" "vm_same H v (get_page p v)" "vm_pt (get_page p v) = vm_pt v"
proof -
  have p: "(p, 0) \<in> held P D" using assms(3) by simp
  note s = set_refcount_held [OF assms(1) p, where u = "refcount p v + 1", folded get_page_def]
  show "tables (held P D) K live (get_page p v) H" "vm_pt (get_page p v) = vm_pt v" by (rule s)+
  show "vm_same H v (get_page p v)" using s(2,3,4) by (simp add: vm_same_def)
  show "refs_ok D (add_mset p refs) (get_page p v)" unfolding refs_ok_def
  proof (intro conjI ballI)
    fix q assume "q \<in> D"
    then show "refcount q (get_page p v) = of_nat (count (add_mset p refs) q)"
      using assms(2,3) s(5) s(6) [of q] by (cases "q = p") (auto simp: refs_ok_def)
  qed (use assms in \<open>auto simp: refs_ok_def\<close>)
qed

lemma put_page_ok:
  assumes tb: "tables (held P D) K live v H" and rf: "refs_ok D refs v" and p: "p \<in># refs" and dj: "P \<inter> (\<lambda>p. (p, 0)) ` D = {}"
  defines "D' \<equiv> if p \<in># refs - {#p#} then D else D - {p}"
  shows "tables (held P D') K live (put_page p v) H" "refs_ok D' (refs - {#p#}) (put_page p v)" "vm_same H v (put_page p v)" "vm_pt (put_page p v) = vm_pt v"
proof -
  have pD: "p \<in> D" using rf p by (auto simp: refs_ok_def)
  then have p0: "(p, 0) \<in> held P D" by simp
  let ?u = "refcount p v - 1"
  note s = set_refcount_held [OF tb p0, where u = ?u]
  have cnt: "refcount p v = of_nat (count refs p)" and sz: "size refs < 2 ^ 64" and sub: "set_mset refs \<subseteq> D" using rf pD by (auto simp: refs_ok_def)
  have c1: "count refs p = Suc (count (refs - {#p#}) p)" using p by (simp add: count_greater_zero_iff)
  have u: "?u = of_nat (count (refs - {#p#}) p)" unfolding cnt c1 by simp
  have "count refs p \<le> size refs" by (rule count_le_size)
  then have "count (refs - {#p#}) p < 2 ^ 64" using sz c1 by linarith
  then have z: "?u = 0 \<longleftrightarrow> p \<notin># refs - {#p#}" unfolding u by (simp only: of_nat64_zero not_in_iff)
  have rf1: "refcount q (set_refcount p ?u v) = of_nat (count (refs - {#p#}) q)" if "q \<in> D" for q
    using rf that s(5) s(6) [of q] u by (cases "q = p") (auto simp: refs_ok_def)
  have sz': "size (refs - {#p#}) < 2 ^ 64" using sz size_Diff1_le [of refs p] by linarith
  have D0: "held P (D - {p}) = held P D - {(p, 0)}" using pD dj by auto
  have "tables (held P D') K live (put_page p v) H \<and> refs_ok D' (refs - {#p#}) (put_page p v) \<and> vm_same H v (put_page p v) \<and> vm_pt (put_page p v) = vm_pt v"
  proof (cases "p \<in># refs - {#p#}")
    case True
    then have "put_page p v = set_refcount p ?u v" using z s(5) by (simp add: put_page_def Let_def)
    moreover have "D' = D" using True by (simp add: D'_def)
    moreover have "set_mset (refs - {#p#}) \<subseteq> D" using sub by (meson in_diffD subset_iff)
    ultimately show ?thesis using s rf1 sz' by (simp add: refs_ok_def vm_same_def)
  next
    case False
    then have e: "put_page p v = upd_vm_mem (free_pages (Some p) 0) (set_refcount p ?u v)" using z s(5) by (simp add: put_page_def Let_def)
    note f = free_page_held [OF s(1) p0, folded e]
    have D': "D' = D - {p}" using False by (simp add: D'_def)
    have "set_mset (refs - {#p#}) \<subseteq> D - {p}" using sub False by (auto dest: in_diffD)
    moreover have "refcount q (put_page p v) = of_nat (count (refs - {#p#}) q)" if "q \<in> D - {p}" for q using rf1 [of q] f(5) [of q] that by auto
    ultimately show ?thesis using f s sz' unfolding D' D0 by (auto simp: refs_ok_def vm_same_def)
  qed
  then show "tables (held P D') K live (put_page p v) H" "refs_ok D' (refs - {#p#}) (put_page p v)" "vm_same H v (put_page p v)" "vm_pt (put_page p v) = vm_pt v" by blast+
qed

section \<open>Mapping and unmapping pages\<close>

lemma user_space_same:
  assumes "user_space P K live v H root M X" and "tables P' K live v' H" and "vm_same H v v'"
  shows "user_space P' K live v' H root M X"
proof -
  have u: "insert root X \<subseteq> H" "slots_ok 2 {..<256} v M root 0 X" using assms(1) by (simp_all add: user_space_def)
  have "vm_same (insert root X) v v'" using assms(3) u(1) by (auto simp: vm_same_def)
  then show ?thesis using assms(2) u slots_same [OF u(2)] by (simp add: user_space_def)
qed

text \<open>The entry that maps a page, with the flags given, and the map after pages were put from page \<open>n\<close> to page \<open>x\<close>.\<close>

definition map_entry :: "mem_state \<Rightarrow> pte_t \<Rightarrow> page_ptr \<Rightarrow> pte_t" where
  "map_entry ms flags p = page_paddr ms p OR flags OR PTE_PRESENT"

definition put_pages :: "nat \<Rightarrow> pte_t list \<Rightarrow> (nat \<rightharpoonup> pte_t) \<Rightarrow> nat \<rightharpoonup> pte_t" where
  "put_pages n es M x = (if n \<le> x \<and> x < n + length es then Some (es ! (x - n)) else M x)"

lemma put_pages_snoc: "put_pages n (es @ [e]) M = (put_pages n es M)(n + length es \<mapsto> e)"
  by (rule ext) (auto simp: put_pages_def nth_append)

lemma put_pages_nil [simp]: "put_pages n [] M = M"
  by (rule ext) (auto simp: put_pages_def)

lemma vaddr_of_aligned: "vaddr_of n AND (PAGE_SIZE - 1) = 0"
proof -
  have "vaddr_of n = push_bit 12 (of_nat n)" by (simp add: push_bit_eq_mult)
  moreover have "PAGE_SIZE - 1 = mask 12" by (simp add: PAGE_SIZE_def PAGE_BITS_def BIT_CONST_exp mask_eq_exp_minus_1)
  ultimately show ?thesis by (simp only:) (rule bit_word_eqI, simp add: bit_simps)
qed

lemma vaddr_of_add: "vaddr_of n + push_bit PAGE_BITS (of_nat k) = vaddr_of (n + k)"
  by (simp add: push_bit_eq_mult PAGE_BITS_def)

lemma user_reached:
  assumes "user_space P K live v H root M X" and "M x \<noteq> None" and "x < 2 ^ 35"
  shows "reached v 3 root x"
  using user_leaf(2) [OF assms(1) _ assms(3)] assms(2) by auto

lemma vm_same_leaf:
  assumes "vm_same (H - X) v v1" and "f \<in> X"
  shows "vm_same (H - X) v (set_pte f i e v1)"
  using assms by (auto simp: vm_same_def)

lemma stands_0: "stands v root x 0 it \<Longrightarrow> it_pt it 0 = Some (table_at (vm_pt v) 3 root x 0) \<and> it_idx it 0 = slot_of 0 x"
  by (simp add: stands_def)

lemma mmap_pages_ok:
  assumes us: "user_space (held P D) K live v H root M X" and rf: "refs_ok D refs v" and ps: "pages \<noteq> []" "set pages \<subseteq> D"
    and n: "n + length pages < 2 ^ 35" "{n..<n + length pages} \<subseteq> dom M" and sz: "size refs + length pages < 2 ^ 64"
  shows "\<exists>v'. mmap_pages root (vaddr_of n) pages flags v = Some v' \<and>
    user_space (held P D) K live v' H root (put_pages n (map (map_entry (vm_mem v) flags) pages) M) X \<and>
    refs_ok D (refs + mset pages) v' \<and> vm_same (H - X) v v' \<and> (\<forall>q. page_paddr (vm_mem v') q = page_paddr (vm_mem v) q)"
proof -
  let ?m = "n + length pages"
  define Mx where "Mx x = put_pages n (map (map_entry (vm_mem v) flags) (take (x - n) pages)) M" for x
  define Inv where "Inv x a v1 \<longleftrightarrow> n \<le> x \<and> x \<le> ?m \<and> a = drop (x - n) pages \<and> user_space (held P D) K live v1 H root (Mx x) X \<and>
    refs_ok D (refs + mset (take (x - n) pages)) v1 \<and> vm_same (H - X) v v1 \<and> (\<forall>q. page_paddr (vm_mem v1) q = page_paddr (vm_mem v) q)" for x a v1
  have dom: "Mx x y \<noteq> None" if "y \<in> {n..<?m}" for x y
  proof -
    have "y \<in> dom M" using n(2) that by blast
    then show ?thesis by (auto simp: Mx_def put_pages_def)
  qed
  have "\<exists>a' v'. for_each_slot_in_range (Some root) (vaddr_of n) (vaddr_of ?m) (mmap_slot flags) pages v = Some (a', v') \<and> Inv ?m a' v'"
  proof (rule for_each_slot_rule [where Inv = Inv and root = root])
    show "n < ?m" "?m < 2 ^ 35" using ps(1) n(1) by simp_all
    show "Inv n pages v" using us rf by (simp add: Inv_def Mx_def vm_same_def)
    show "reached v1 3 root y" if "Inv x a v1" "n \<le> y" "y < ?m" for x a v1 y
      using that dom [of y x] n(1) by (intro user_reached [of "held P D" K live v1 H root "Mx x" X]) (auto simp: Inv_def)
    fix x a v1 it
    assume x: "n \<le> x" "x < ?m" and I: "Inv x a v1" and st: "stands v1 root x 0 it" "it_level it = 0"
    let ?p = "pages ! (x - n)" and ?f = "table_at (vm_pt v1) 3 root x 0"
    let ?e = "map_entry (vm_mem v) flags ?p"
    have I': "a = drop (x - n) pages" "user_space (held P D) K live v1 H root (Mx x) X" "refs_ok D (refs + mset (take (x - n) pages)) v1"
      "vm_same (H - X) v v1" "\<And>q. page_paddr (vm_mem v1) q = page_paddr (vm_mem v) q" using I by (auto simp: Inv_def)
    have i: "x - n < length pages" using x by simp
    have a: "a = ?p # drop (Suc x - n) pages" using i I'(1) x(1) by (simp add: Cons_nth_drop_Suc Suc_diff_le)
    have tk: "take (Suc x - n) pages = take (x - n) pages @ [?p]" using i x(1) by (simp add: take_Suc_conv_app_nth Suc_diff_le)
    have pD: "?p \<in> D" using ps(2) i by auto
    have tb1: "tables (held P D) K live v1 H" using I'(2) by (simp add: user_space_def)
    have "length (take (x - n) pages) + 1 \<le> length pages" using i by simp
    then have sz1: "size (refs + mset (take (x - n) pages)) + 1 < 2 ^ 64" using sz by (simp del: length_take)
    note g = get_page_ok [OF tb1 I'(3) pD sz1]
    let ?v = "get_page ?p v1"
    have us1: "user_space (held P D) K live ?v H root (Mx x) X" by (rule user_space_same [OF I'(2) g(1,3)])
    obtain e0 where e0: "Mx x x = Some e0" using dom [of x x] x by auto
    have x35: "x < 2 ^ 35" using x(2) n(1) by simp
    note l = user_leaf [OF us1 e0 x35, unfolded g(4)]
    let ?w = "set_pte ?f (slot_of 0 x) ?e ?v"
    have "mmap_slot flags it a v1 = Some (drop (Suc x - n) pages, ?w)"
      using stands_0 [OF st(1)] st(2) I'(5) by (simp add: mmap_slot_def a map_entry_def Let_def)
    moreover have "Mx (Suc x) = (Mx x)(x \<mapsto> ?e)"
      unfolding Mx_def tk map_append list.map put_pages_snoc using i x(1) by simp
    moreover have "refs_ok D (refs + mset (take (Suc x - n) pages)) ?w" using g(2) unfolding tk by (simp add: refs_ok_def refcount_def)
    moreover have "vm_same (H - X) v ?w"
      by (rule vm_same_leaf [OF _ l(3)], rule vm_same_trans [OF I'(4)]) (use g(3) in \<open>auto simp: vm_same_def\<close>)
    moreover have "page_paddr (vm_mem ?w) q = page_paddr (vm_mem v) q" for q using page_paddr_refcount I'(5) by (simp add: get_page_def)
    ultimately have "mmap_slot flags it a v1 = Some (drop (Suc x - n) pages, ?w) \<and> Inv (Suc x) (drop (Suc x - n) pages) ?w"
      using l(4) [of ?e] x unfolding Inv_def by simp
    moreover have "stands ?w root x 0 it" by (rule l(5)) (use st(1) g(4) in \<open>simp add: stands_def\<close>)
    ultimately show "\<exists>a' v'. mmap_slot flags it a v1 = Some (a', v') \<and> Inv (Suc x) a' v' \<and> stands v' root x 0 it" by blast
  qed
  then obtain a' v' where r: "for_each_slot_in_range (Some root) (vaddr_of n) (vaddr_of ?m) (mmap_slot flags) pages v = Some (a', v')" "Inv ?m a' v'" by blast
  have "mmap_pages root (vaddr_of n) pages flags v = Some v'"
    unfolding mmap_pages_def vaddr_of_add vaddr_of_aligned using r(1) by simp
  then show ?thesis using r(2) by (auto simp: Inv_def Mx_def)
qed

text \<open>The pages mapped at some addresses, the map without entries there, and the pages that are still held without some references.\<close>

definition pages_at :: "vm \<Rightarrow> (nat \<rightharpoonup> pte_t) \<Rightarrow> nat list \<Rightarrow> page_ptr list" where
  "pages_at v M xs = List.map_filter (\<lambda>x. case M x of None \<Rightarrow> None | Some e \<Rightarrow> if pte_present e then pte_page e v else None) xs"

definition clear_pages :: "nat \<Rightarrow> nat \<Rightarrow> (nat \<rightharpoonup> pte_t) \<Rightarrow> nat \<rightharpoonup> pte_t" where
  "clear_pages n m M x = (if n \<le> x \<and> x < m then Some 0 else M x)"

definition still_held :: "page_ptr set \<Rightarrow> page_ptr multiset \<Rightarrow> page_ptr list \<Rightarrow> page_ptr set" where
  "still_held D refs ps = D - {p \<in> set ps. p \<notin># refs - mset ps}"

lemma still_held_snoc:
  assumes "mset (ps @ [p]) \<subseteq># refs"
  shows "still_held D refs (ps @ [p]) = (if p \<in># refs - mset ps - {#p#} then still_held D refs ps else still_held D refs ps - {p})"
proof -
  have e: "refs - mset (ps @ [p]) = refs - mset ps - {#p#}" by (simp add: diff_diff_add_mset)
  have o: "q \<in># refs - mset ps - {#p#} \<longleftrightarrow> q \<in># refs - mset ps" if "q \<noteq> p" for q using that by (simp add: in_diff_count)
  have p: "p \<in># refs - mset ps" using mset_subset_eq_count [OF assms, of p] by (simp add: in_diff_count)
  show ?thesis unfolding still_held_def e
  proof (rule set_eqI)
    fix q
    show "q \<in> D - {x \<in> set (ps @ [p]). x \<notin># refs - mset ps - {#p#}} \<longleftrightarrow> q \<in> (if p \<in># refs - mset ps - {#p#} then D - {x \<in> set ps. x \<notin># refs - mset ps}
      else D - {x \<in> set ps. x \<notin># refs - mset ps} - {p})"
      using o [of q] p by (cases "q = p"; cases "p \<in># refs - mset ps - {#p#}") simp_all
  qed
qed

lemma pages_at_snoc:
  "pages_at v M (xs @ [x]) = pages_at v M xs @ (case M x of None \<Rightarrow> [] | Some e \<Rightarrow> if pte_present e then (case pte_page e v of None \<Rightarrow> [] | Some p \<Rightarrow> [p]) else [])"
  by (auto simp: pages_at_def List.map_filter_def split: option.splits)

lemma pages_at_prefix: "x \<le> m \<Longrightarrow> n \<le> x \<Longrightarrow> mset (pages_at v M [n..<x]) \<subseteq># mset (pages_at v M [n..<m])"
  using upt_add_eq_append [of n x "m - x"] by (auto simp: pages_at_def List.map_filter_def)

lemma munmap_slot_ok:
  assumes us: "user_space (held P D) K live v H root M X" and rf: "refs_ok D refs v" and dj: "P \<inter> (\<lambda>p. (p, 0)) ` D = {}"
    and M: "M x = Some e" "x < 2 ^ 35" and st: "stands v root x 0 it" "it_level it = 0"
    and pg: "pte_present e \<longrightarrow> pte_page e v = Some p \<and> p \<in># refs"
  defines "D' \<equiv> if pte_present e \<and> p \<notin># refs - {#p#} then D - {p} else D"
  shows "\<exists>v'. munmap_slot it () v = Some ((), v') \<and> user_space (held P D') K live v' H root (M(x \<mapsto> 0)) X \<and>
    refs_ok D' (if pte_present e then refs - {#p#} else refs) v' \<and> vm_same (H - X) v v' \<and> stands v' root x 0 it"
proof -
  let ?f = "table_at (vm_pt v) 3 root x 0"
  note l = user_leaf [OF us M]
  let ?v = "set_pte ?f (slot_of 0 x) 0 v"
  have tb: "tables (held P D) K live ?v H" and rf1: "refs_ok D refs ?v" and pp: "pte_page e ?v = pte_page e v"
    using us rf by (simp_all add: user_space_def refs_ok_def refcount_def pte_page_def)
  have s1: "vm_same (H - X) v ?v" by (rule vm_same_leaf [OF _ l(3)]) (simp add: vm_same_def)
  have call: "munmap_slot it () v = (if pte_present e then do { p \<leftarrow> pte_page e v; Some ((), put_page p ?v) } else Some ((), ?v))"
    using stands_0 [OF st(1)] st(2) l(1) pp by (simp add: munmap_slot_def Let_def)
  show ?thesis
  proof (cases "pte_present e")
    case False
    then show ?thesis using call l(4) [of 0] l(5) [OF st(1), of 0] rf1 s1 by (simp add: D'_def)
  next
    case True
    then have p: "pte_page e v = Some p" "p \<in># refs" using pg by auto
    note q = put_page_ok [OF tb rf1 p(2) dj]
    have D': "D' = (if p \<in># refs - {#p#} then D else D - {p})" using True by (auto simp: D'_def)
    have "user_space (held P D') K live (put_page p ?v) H root (M(x \<mapsto> 0)) X"
      unfolding D' by (rule user_space_same [OF l(4) q(1,3)])
    moreover have "vm_same (H - X) v (put_page p ?v)" by (rule vm_same_trans [OF s1]) (use q(3) in \<open>auto simp: vm_same_def\<close>)
    moreover have "stands (put_page p ?v) root x 0 it" using l(5) [OF st(1), of 0] q(4) by (simp add: stands_def)
    ultimately show ?thesis using call True p(1) q(2) unfolding D' by auto
  qed
qed

lemma munmap_pages_ok:
  assumes us: "user_space (held P D) K live v H root M X" and rf: "refs_ok D refs v" and dj: "P \<inter> (\<lambda>p. (p, 0)) ` D = {}"
    and n: "0 < c" "n + c < 2 ^ 35" "{n..<n + c} \<subseteq> dom M"
    and pg: "\<forall>x \<in> {n..<n + c}. \<forall>e. M x = Some e \<longrightarrow> pte_present e \<longrightarrow> pte_page e v \<noteq> None" and sub: "mset (pages_at v M [n..<n + c]) \<subseteq># refs"
  defines "ps \<equiv> pages_at v M [n..<n + c]"
  shows "\<exists>v'. munmap_pages root (vaddr_of n) (of_nat c) v = Some v' \<and>
    user_space (held P (still_held D refs ps)) K live v' H root (clear_pages n (n + c) M) X \<and>
    refs_ok (still_held D refs ps) (refs - mset ps) v' \<and> vm_same (H - X) v v'"
proof -
  let ?m = "n + c" and ?ps = "\<lambda>x. pages_at v M [n..<x]"
  define Inv where "Inv x u v1 \<longleftrightarrow> n \<le> x \<and> x \<le> ?m \<and> user_space (held P (still_held D refs (?ps x))) K live v1 H root (clear_pages n x M) X \<and>
    refs_ok (still_held D refs (?ps x)) (refs - mset (?ps x)) v1 \<and> vm_same (H - X) v v1" for x and u :: unit and v1
  have "\<exists>a' v'. for_each_slot_in_range (Some root) (vaddr_of n) (vaddr_of ?m) munmap_slot () v = Some (a', v') \<and> Inv ?m a' v'"
  proof (rule for_each_slot_rule [where Inv = Inv and root = root])
    show "n < ?m" "?m < 2 ^ 35" using n by simp_all
    have "clear_pages n n M = M" by (rule ext) (auto simp: clear_pages_def)
    moreover have "?ps n = []" "still_held D refs [] = D" by (auto simp: clear_pages_def pages_at_def List.map_filter_def still_held_def)
    ultimately show "Inv n () v" using us rf by (simp add: Inv_def vm_same_def)
    have dom: "clear_pages n x M y \<noteq> None" if "y \<in> {n..<?m}" for x y
    proof -
      have "y \<in> dom M" using n(3) that by blast
      then show ?thesis by (auto simp: clear_pages_def)
    qed
    show "reached v1 3 root y" if "Inv x a v1" "n \<le> y" "y < ?m" for x a v1 y
      using that dom [of y x] n(2) unfolding Inv_def by (intro user_reached [of _ K live v1 H root "clear_pages n x M" X]) auto
    fix x a v1 it
    assume x: "n \<le> x" "x < ?m" and I: "Inv x a v1" and st: "stands v1 root x 0 it" "it_level it = 0"
    have I': "user_space (held P (still_held D refs (?ps x))) K live v1 H root (clear_pages n x M) X"
      "refs_ok (still_held D refs (?ps x)) (refs - mset (?ps x)) v1" "vm_same (H - X) v v1" using I by (auto simp: Inv_def)
    obtain e where e: "M x = Some e" using n(3) x by (metis atLeastLessThan_iff domD subset_iff)
    have Me: "clear_pages n x M x = Some e" using e by (simp add: clear_pages_def)
    have pp: "pte_page e v1 = pte_page e v" using I'(3) by (simp add: vm_same_def pte_page_def)
    have snoc: "?ps (Suc x) = ?ps x @ (if pte_present e then (case pte_page e v of None \<Rightarrow> [] | Some p \<Rightarrow> [p]) else [])"
      using x(1) e by (simp add: pages_at_snoc)
    define p where "p = (case pte_page e v of None \<Rightarrow> (0, 0) | Some p \<Rightarrow> p)"
    have p: "pte_page e v = Some p" if "pte_present e" using pg e that x by (auto simp: p_def split: option.splits)
    have sn: "?ps (Suc x) = ?ps x @ (if pte_present e then [p] else [])" using snoc p by auto
    have sub1: "mset (?ps (Suc x)) \<subseteq># refs" using pages_at_prefix [of "Suc x" ?m n v M] sub x by auto
    have pin: "p \<in># refs - mset (?ps x)" if "pte_present e"
      using mset_subset_eq_count [OF sub1 [unfolded sn], of p] that by (simp add: in_diff_count)
    have dj1: "P \<inter> (\<lambda>p. (p, 0)) ` still_held D refs (?ps x) = {}" using dj by (auto simp: still_held_def)
    have x35: "x < 2 ^ 35" using x n(2) by simp
    have pg1: "pte_present e \<longrightarrow> pte_page e v1 = Some p \<and> p \<in># refs - mset (?ps x)" using p pin pp by simp
    from munmap_slot_ok [OF I'(1,2) dj1 Me x35 st pg1] obtain v2 where r: "munmap_slot it () v1 = Some ((), v2)"
      "user_space (held P (if pte_present e \<and> p \<notin># refs - mset (?ps x) - {#p#} then still_held D refs (?ps x) - {p} else still_held D refs (?ps x))) K live v2 H root ((clear_pages n x M)(x \<mapsto> 0)) X"
      "refs_ok (if pte_present e \<and> p \<notin># refs - mset (?ps x) - {#p#} then still_held D refs (?ps x) - {p} else still_held D refs (?ps x))
         (if pte_present e then refs - mset (?ps x) - {#p#} else refs - mset (?ps x)) v2" "vm_same (H - X) v1 v2" "stands v2 root x 0 it"
      by (elim exE conjE) (rule that)
    have D1: "(if pte_present e \<and> p \<notin># refs - mset (?ps x) - {#p#} then still_held D refs (?ps x) - {p} else still_held D refs (?ps x)) = still_held D refs (?ps (Suc x))"
      using still_held_snoc [of "?ps x" p refs D] sub1 unfolding sn by auto
    have R1: "(if pte_present e then refs - mset (?ps x) - {#p#} else refs - mset (?ps x)) = refs - mset (?ps (Suc x))"
      unfolding sn by (simp add: diff_diff_add_mset)
    have M1: "(clear_pages n x M)(x \<mapsto> 0) = clear_pages n (Suc x) M" by (rule ext) (use x(1) in \<open>auto simp: clear_pages_def\<close>)
    have "Inv (Suc x) () v2" using r(2,3) vm_same_trans [OF I'(3) r(4)] x unfolding Inv_def D1 R1 M1 by simp
    then show "\<exists>a' v'. munmap_slot it a v1 = Some (a', v') \<and> Inv (Suc x) a' v' \<and> stands v' root x 0 it" using r(1,5) by auto
  qed
  then obtain v' where r: "for_each_slot_in_range (Some root) (vaddr_of n) (vaddr_of ?m) munmap_slot () v = Some ((), v')" "Inv ?m () v'" by auto
  have "munmap_pages root (vaddr_of n) (of_nat c) v = Some v'"
    unfolding munmap_pages_def vaddr_of_add vaddr_of_aligned using r(1) by simp
  then show ?thesis using r(2) by (auto simp: Inv_def ps_def)
qed


text \<open>The entry of a held page leads back to it.\<close>

lemma user_entry_flags: "ok_flags (PTE_USER OR PTE_PRESENT)" "ok_flags (PTE_USER OR PTE_WRITE OR PTE_PRESENT)"
  by (simp_all add: ok_flags_def PTE_FLAGS_def PTE_PRESENT_def PTE_WRITE_def PTE_USER_def PTE_LARGE_def PTE_LOW_def
      BIT_CONST_def pte_present_def pte_large_def)

lemma map_entry_page:
  assumes "tables P K live v H" and "(p, 0) \<in> P" and "ok_flags (flags OR PTE_PRESENT)"
  shows "pte_present (map_entry (vm_mem v) flags p)" "pte_page (map_entry (vm_mem v) flags p) v = Some p"
proof -
  obtain T where T: "kmem_inv (P \<union> (\<lambda>p. (p, 0)) ` T) (vm_kmem v) K live" using assms(1) by (auto simp: tables_def)
  note h = held_page [OF T, of p]
  have e: "map_entry (vm_mem v) flags p = push_bit 12 (of_nat (frame_no (vm_mem v) p)) OR (flags OR PTE_PRESENT)"
    using h(2) assms(2) by (simp add: map_entry_def page_paddr_def PAGE_BITS_def or.assoc)
  show "pte_present (map_entry (vm_mem v) flags p)" unfolding e by (rule entry_flags(1) [OF assms(3)])
  have "frame_of (pte_phys (map_entry (vm_mem v) flags p)) = frame_no (vm_mem v) p"
    unfolding e by (rule frame_of_entry(1)) (use h(4) assms(2) entry_flags(4) [OF assms(3)] in simp_all)
  then show "pte_page (map_entry (vm_mem v) flags p) v = Some p" using h(3) assms(2) by (simp add: pte_page_def)
qed

section \<open>Properties\<close>

text \<open>C35: mapping pages into a populated range of an address space returns; afterwards the entry of each address of
  the range is the one of its page with the flags, every other entry is as it was, each page is
  referenced once more for every address it is mapped at, and no other table is touched.\<close>

theorem mmap_pages_correct:
  assumes "user_space (held P D) K live v H root M X" and "refs_ok D refs v" and "pages \<noteq> []" "set pages \<subseteq> D"
    and "n + length pages < 2 ^ 35" "{n..<n + length pages} \<subseteq> dom M" and "size refs + length pages < 2 ^ 64"
  shows "\<exists>v'. mmap_pages root (vaddr_of n) pages flags v = Some v' \<and>
    user_space (held P D) K live v' H root (put_pages n (map (map_entry (vm_mem v) flags) pages) M) X \<and>
    refs_ok D (refs + mset pages) v' \<and> vm_same (H - X) v v'"
  using mmap_pages_ok [OF assms] by blast

text \<open>C36: unmapping a populated range of an address space returns; afterwards no page is mapped there, every other
  entry is as it was, the references of the entries are given back, and exactly the pages without a
  reference left are freed.\<close>

theorem munmap_pages_correct:
  assumes "user_space (held P D) K live v H root M X" and "refs_ok D refs v" and "P \<inter> (\<lambda>p. (p, 0)) ` D = {}"
    and "0 < c" "n + c < 2 ^ 35" "{n..<n + c} \<subseteq> dom M"
    and "\<forall>x \<in> {n..<n + c}. \<forall>e. M x = Some e \<longrightarrow> pte_present e \<longrightarrow> pte_page e v \<noteq> None" and "mset (pages_at v M [n..<n + c]) \<subseteq># refs"
  shows "\<exists>v'. munmap_pages root (vaddr_of n) (of_nat c) v = Some v' \<and>
    user_space (held P (still_held D refs (pages_at v M [n..<n + c]))) K live v' H root (clear_pages n (n + c) M) X \<and>
    refs_ok (still_held D refs (pages_at v M [n..<n + c])) (refs - mset (pages_at v M [n..<n + c])) v' \<and> vm_same (H - X) v v'"
  by (rule munmap_pages_ok [OF assms])

section \<open>Witnesses\<close>

text \<open>The page of data with \<open>k\<close> references.\<close>

lemma sample_refs:
  assumes "user_space sample_page K live v {..<4} 0 sample_map {1, 2, 3}" and "k < 2 ^ 64"
  shows "user_space (held {} {(0, 4)}) K live (set_refcount (0, 4) (of_nat k) v) {..<4} 0 sample_map {1, 2, 3}"
    "refs_ok {(0, 4)} (replicate_mset k (0, 4)) (set_refcount (0, 4) (of_nat k) v)"
    "pfn2page (vm_mem (set_refcount (0, 4) (of_nat k) v)) = pfn2page (vm_mem v)"
proof -
  have tb: "tables sample_page K live v {..<4}" using assms(1) by (simp add: user_space_def)
  note s = set_refcount_held [OF tb singletonI, where u = "of_nat k"]
  have "user_space sample_page K live (set_refcount (0, 4) (of_nat k) v) {..<4} 0 sample_map {1, 2, 3}"
    by (rule user_space_same [OF assms(1) s(1)]) (use s(2-4) in \<open>simp add: vm_same_def\<close>)
  then show "user_space (held {} {(0, 4)}) K live (set_refcount (0, 4) (of_nat k) v) {..<4} 0 sample_map {1, 2, 3}" by simp
  show "refs_ok {(0, 4)} (replicate_mset k (0, 4)) (set_refcount (0, 4) (of_nat k) v)" using s(5) assms(2) by (auto simp: refs_ok_def)
  show "pfn2page (vm_mem (set_refcount (0, 4) (of_nat k) v)) = pfn2page (vm_mem v)" by (rule s(3))
qed

abbreviation unused_page :: vm where
  "unused_page \<equiv> set_refcount (0, 4) 0 sample_vm"

lemma unused_page_ok:
  "user_space (held {} {(0, 4)}) {7} (\<lambda>_. {}) unused_page {..<4} 0 sample_map {1, 2, 3}" "refs_ok {(0, 4)} {#} unused_page"
  using sample_refs(1,2) [OF sample_space, of 0] by simp_all

theorem mmap_pages_correct_witness:
  "\<exists>v'. mmap_pages 0 0 [(0, 4)] PTE_USER unused_page = Some v' \<and> refs_ok {(0, 4)} {#(0, 4)#} v' \<and>
     user_space sample_page {7} (\<lambda>_. {}) v' {..<4} 0 [0 \<mapsto> map_entry (vm_mem unused_page) PTE_USER (0, 4)] {1, 2, 3}"
proof -
  have "put_pages 0 [e] [0 \<mapsto> 0] = [0 \<mapsto> e]" for e using put_pages_snoc [of 0 "[]" e] by simp
  then show ?thesis using mmap_pages_correct [OF unused_page_ok, of "[(0, 4)]" 0 PTE_USER] by auto
qed

theorem munmap_pages_correct_witness:
  "\<exists>v v'. mmap_pages 0 0 [(0, 4)] PTE_USER unused_page = Some v \<and> munmap_pages 0 0 1 v = Some v' \<and>
     user_space {} {7} (\<lambda>_. {}) v' {..<4} 0 [0 \<mapsto> 0] {1, 2, 3}"
proof -
  let ?e = "map_entry (vm_mem unused_page) PTE_USER (0, 4)"
  have m: "put_pages 0 [?e] [0 \<mapsto> 0] = [0 \<mapsto> ?e]" "clear_pages 0 1 [0 \<mapsto> ?e] = [0 \<mapsto> 0]"
    using put_pages_snoc [of 0 "[]" ?e] by (auto simp: clear_pages_def fun_eq_iff)
  obtain v where v: "mmap_pages 0 0 [(0, 4)] PTE_USER unused_page = Some v" "user_space (held {} {(0, 4)}) {7} (\<lambda>_. {}) v {..<4} 0 [0 \<mapsto> ?e] {1, 2, 3}"
    "refs_ok {(0, 4)} {#(0, 4)#} v" "page_paddr (vm_mem v) (0, 4) = page_paddr (vm_mem unused_page) (0, 4)"
    using mmap_pages_ok [OF unused_page_ok, of "[(0, 4)]" 0 PTE_USER] m(1) by auto
  have tb: "tables (held {} {(0, 4)}) {7} (\<lambda>_. {}) v {..<4}" using v(2) by (simp add: user_space_def)
  have e: "?e = map_entry (vm_mem v) PTE_USER (0, 4)" using v(4) by (simp add: map_entry_def)
  have p: "pte_present ?e" "pte_page ?e v = Some (0, 4)" using map_entry_page [OF tb _ user_entry_flags(1), of "(0, 4)"] unfolding e by simp_all
  have "pages_at v [0 \<mapsto> ?e] [0..<1] = [(0, 4)]" using p by (simp add: pages_at_def List.map_filter_def)
  then show ?thesis using munmap_pages_correct [OF v(2,3), of 1 0] p m(2) v(1) by (auto simp: still_held_def)
qed

end
