(* ===== verification/Mm_Inv.thy ===== *)
theory Mm_Inv
  imports User_Pages
begin

text \<open>
  Correctness of address spaces: the areas of each are an ordered index of disjoint ranges, the page tables hold
  a map whose domain is the pages of these areas, and the spaces do not share tables or areas.
\<close>

section \<open>Areas\<close>

definition vmas_ok :: "mms \<Rightarrow> nat \<Rightarrow> nat list \<Rightarrow> bool" where
  "vmas_ok s m as \<longleftrightarrow> (\<exists>t. rbtree (vma_links s) (mm_vma (mm_obj s m)) t \<and> nodes t = as) \<and>
     sorted_wrt (\<lambda>a b. vma_end (vma_obj s a) \<le> vma_begin (vma_obj s b)) as \<and>
     (\<forall>a \<in> set as. vma_begin (vma_obj s a) < vma_end (vma_obj s a))"

definition overlaps :: "mms \<Rightarrow> u64 \<Rightarrow> u64 \<Rightarrow> nat \<Rightarrow> bool" where
  "overlaps s lo hi a \<longleftrightarrow> vma_begin (vma_obj s a) < hi \<and> lo < vma_end (vma_obj s a)"

lemma vma_cmp_simps:
  "vma_cmp s lo hi a < 0 \<longleftrightarrow> vma_end (vma_obj s a) \<le> lo" "0 \<le> vma_cmp s lo hi a \<longleftrightarrow> lo < vma_end (vma_obj s a)"
  "0 < vma_cmp s lo hi a \<longleftrightarrow> lo < vma_end (vma_obj s a) \<and> hi \<le> vma_begin (vma_obj s a)" "vma_cmp s lo hi a = 0 \<longleftrightarrow> overlaps s lo hi a"
  by (auto simp: vma_cmp_def overlaps_def not_le)

lemma rbtree_frame:
  assumes "rbtree h root t" and "same_out N h h'" and "N \<inter> set (nodes t) = {}"
  shows "rbtree h' root t"
proof -
  have "rep h' 0 t" by (rule rep_same_out [of h 0 t N]) (use assms in \<open>auto simp: rbtree_def tree_at_def\<close>)
  then show ?thesis using assms(1) by (auto simp: rbtree_def tree_at_def)
qed

text \<open>A link where a new area for the range keeps the order, also after writes to nodes of other trees.\<close>

definition free_link :: "mms \<Rightarrow> nat \<Rightarrow> nat list \<Rightarrow> u64 \<Rightarrow> u64 \<Rightarrow> nat \<Rightarrow> plink \<Rightarrow> bool" where
  "free_link s m as lo hi par pl \<longleftrightarrow> (\<exists>xs ys. as = xs @ ys \<and> (\<forall>x \<in> set xs. vma_end (vma_obj s x) \<le> lo) \<and>
     (\<forall>y \<in> set ys. hi \<le> vma_begin (vma_obj s y)) \<and>
     (\<forall>n N h. n \<noteq> 0 \<longrightarrow> n \<notin> set as \<longrightarrow> same_out N (vma_links s) h \<longrightarrow> N \<inter> set as = {} \<longrightarrow>
        (\<exists>h' root' t'. rb_insert n (rb_link n par pl (h, mm_vma (mm_obj s m))) = Some (h', root') \<and> rbtree h' root' t' \<and>
           nodes t' = xs @ n # ys \<and> same_out (insert n (set as)) h h')))"

lemma lookup_vma_link_ok:
  assumes "vmas_ok s m as" and "lo < hi"
  shows "\<exists>a par pl. lookup_vma_link m lo hi s = Some (a, par, pl) \<and>
    (a \<noteq> 0 \<and> a \<in> set as \<and> overlaps s lo hi a \<or> a = 0 \<and> (\<forall>b \<in> set as. \<not> overlaps s lo hi b) \<and> free_link s m as lo hi par pl)"
proof -
  let ?h = "vma_links s" and ?r = "mm_vma (mm_obj s m)" and ?cmp = "vma_cmp s lo hi"
  obtain t where t: "rbtree ?h ?r t" "nodes t = as" using assms(1) by (auto simp: vmas_ok_def)
  have ta: "tree_at ?h ?r (plug Top t)" using t(1) by (simp add: rbtree_def)
  have srt: "sorted_wrt (\<lambda>a b. vma_end (vma_obj s a) \<le> vma_begin (vma_obj s b)) as" and ne: "\<forall>a \<in> set as. vma_begin (vma_obj s a) < vma_end (vma_obj s a)"
    using assms(1) by (simp_all add: vmas_ok_def)
  have "sorted_wrt (\<lambda>a b. (0 \<le> ?cmp a \<longrightarrow> 0 \<le> ?cmp b) \<and> (0 < ?cmp a \<longrightarrow> 0 < ?cmp b)) (nodes t)"
    unfolding t(2) by (rule sorted_wrt_mono_rel [OF _ srt]) (use ne in \<open>force simp: vma_cmp_simps\<close>)
  from rb_find_tree [OF ta this] show ?thesis
  proof (elim disjE exE conjE, goal_cases)
    case (1 c' l n k r)
    have "n \<in> set as" using 1(3) t(2) by (auto simp: inorder_plug)
    then show ?case using 1(1,2,4) ta by (auto simp: lookup_vma_link_def vma_cmp_simps tree_at_def)
  next
    case (2 c' xs ys)
    have x: "as = xs @ ys" "\<forall>x \<in> set xs. vma_end (vma_obj s x) \<le> lo" "\<forall>y \<in> set ys. hi \<le> vma_begin (vma_obj s y)"
      using 2(5-7) t(2) by (auto simp: vma_cmp_simps)
    have c: "map fst (before c') = xs" "map fst (after c') = ys" "set (cnodes c') = set as" using 2(3,4) x(1) by auto
    have no: "\<not> overlaps s lo hi b" if "b \<in> set as" for b using that x by (auto simp: overlaps_def not_less)
    have find: "lookup_vma_link m lo hi s = Some (0, cptr c', clink c')" using 2(1) ta by (simp add: lookup_vma_link_def tree_at_def)
    have "\<exists>h' root' t'. rb_insert n (rb_link n (cptr c') (clink c') (h, ?r)) = Some (h', root') \<and> rbtree h' root' t' \<and>
           nodes t' = xs @ n # ys \<and> same_out (insert n (set as)) h h'"
      if n: "n \<noteq> 0" "n \<notin> set as" "same_out N ?h h" "N \<inter> set as = {}" for n N h
    proof -
      have "rbtree h ?r (plug c' Leaf)" using rbtree_frame [OF t(1) n(3)] n(4) t(2) 2(2) by simp
      moreover have "n \<notin> set (cnodes c')" using n(2) c(3) by simp
      ultimately show ?thesis using rb_insert_ok [of h ?r c' n] n(1) unfolding c by blast
    qed
    then have "free_link s m as lo hi (cptr c') (clink c')" unfolding free_link_def using x by blast
    then show ?case using find no by blast
  qed
qed

section \<open>Objects from the caches\<close>

lemma tables_pages_kept:
  assumes "kmem_inv (P \<union> (\<lambda>p. (p, 0)) ` T) (vm_kmem v) K live" "P \<inter> (\<lambda>p. (p, 0)) ` T = {}" "H = frame_no (vm_mem v) ` T"
    and "kmem_inv (P \<union> (\<lambda>p. (p, 0)) ` T) k K live'" and kept: "pages_kept (P \<union> (\<lambda>p. (p, 0)) ` T) (vm_mem v) (k_mem k)"
  shows "tables P K live' (v\<lparr>vm_kmem := k\<rparr>) H" "pfn2page (k_mem k) = pfn2page (vm_mem v)"
    "g \<in> H \<Longrightarrow> table_count (v\<lparr>vm_kmem := k\<rparr>) g = table_count v g"
    "(p, 0) \<in> P \<Longrightarrow> refcount p (v\<lparr>vm_kmem := k\<rparr>) = refcount p v"
proof -
  have sf: "same_frame (vm_mem v) (k_mem k)" and pg: "\<And>q. (q, 0) \<in> P \<union> (\<lambda>p. (p, 0)) ` T \<Longrightarrow> page_of (k_mem k) q = page_of (vm_mem v) q"
    using kept unfolding pages_kept_def by blast+
  show pf: "pfn2page (k_mem k) = pfn2page (vm_mem v)" by (rule ext) (rule pfn2page_frame [OF sf])
  have hp: "valid_page (vm_mem v) p" "pfn2page (vm_mem v) (frame_no (vm_mem v) p) = Some p" if "p \<in> T" for p
    using held_page(1,3) [OF assms(1), of p] that by simp_all
  have "H = frame_no (k_mem k) ` T" unfolding assms(3) using same_frame_no [OF sf hp(1)] by (intro image_cong) simp_all
  then show "tables P K live' (v\<lparr>vm_kmem := k\<rparr>) H" unfolding tables_def using assms(2,4) by auto
  show "table_count (v\<lparr>vm_kmem := k\<rparr>) g = table_count v g" if gH: "g \<in> H"
  proof -
    obtain q where q: "q \<in> T" "g = frame_no (vm_mem v) q" using gH assms(3) by blast
    then show ?thesis using hp(2) [OF q(1)] pg [of q] by (simp add: table_count_def pf refcount_def)
  qed
  show "(p, 0) \<in> P \<Longrightarrow> refcount p (v\<lparr>vm_kmem := k\<rparr>) = refcount p v" using pg [of p] by (simp add: refcount_def)
qed

text \<open>What an operation on objects leaves alone of the virtual memory.\<close>

definition vm_kept :: "(page_ptr \<times> nat) set \<Rightarrow> nat set \<Rightarrow> vm \<Rightarrow> vm \<Rightarrow> bool" where
  "vm_kept P H v v' \<longleftrightarrow> vm_pt v' = vm_pt v \<and> pfn2page (vm_mem v') = pfn2page (vm_mem v) \<and> (\<forall>g \<in> H. table_count v' g = table_count v g) \<and>
     (\<forall>p. (p, 0) \<in> P \<longrightarrow> refcount p v' = refcount p v)"

lemma mm_cache_alloc_ok:
  assumes "tables P K live (mm_vm s) H" and "c \<in> K"
  shows "\<exists>p v'. mm_cache_alloc c s = Some (p, upd_vm v' s) \<and> vm_kept P H (mm_vm s) v' \<and>
    (if p = 0 then tables P K live v' H else p \<notin> live c \<and> tables P K (live(c := insert p (live c))) v' H)"
proof -
  obtain T where T: "kmem_inv (P \<union> (\<lambda>p. (p, 0)) ` T) (vm_kmem (mm_vm s)) K live" "P \<inter> (\<lambda>p. (p, 0)) ` T = {}" "H = frame_no (vm_mem (mm_vm s)) ` T"
    using assms(1) by (auto simp: tables_def)
  obtain p k where a: "kmem_cache_alloc c (vm_kmem (mm_vm s)) = Some (p, k)" "pages_kept (P \<union> (\<lambda>p. (p, 0)) ` T) (vm_mem (mm_vm s)) (k_mem k)"
    "if p = 0 then kmem_inv (P \<union> (\<lambda>p. (p, 0)) ` T) k K live else p \<notin> live c \<and> kmem_inv (P \<union> (\<lambda>p. (p, 0)) ` T) k K (live(c := insert p (live c)))"
    using heap_cache_alloc_ok [OF T(1) assms(2)] by (elim exE conjE) (rule that)
  let ?l = "if p = 0 then live else live(c := insert p (live c))"
  have k: "kmem_inv (P \<union> (\<lambda>p. (p, 0)) ` T) k K ?l" using a(3) by (auto split: if_splits)
  note t = tables_pages_kept [OF T k a(2)]
  have "vm_kept P H (mm_vm s) ((mm_vm s)\<lparr>vm_kmem := k\<rparr>)" using t(2-4) by (simp add: vm_kept_def)
  moreover have "mm_cache_alloc c s = Some (p, upd_vm ((mm_vm s)\<lparr>vm_kmem := k\<rparr>) s)" using a(1) by (simp add: mm_cache_alloc_def)
  ultimately show ?thesis using t(1) a(3) by (auto split: if_splits)
qed

lemma mm_cache_free_ok:
  assumes "tables P K live (mm_vm s) H" and "c \<in> K" and "p \<in> live c"
  shows "\<exists>v'. mm_cache_free c p s = Some (upd_vm v' s) \<and> vm_kept P H (mm_vm s) v' \<and> tables P K (live(c := live c - {p})) v' H"
proof -
  obtain T where T: "kmem_inv (P \<union> (\<lambda>p. (p, 0)) ` T) (vm_kmem (mm_vm s)) K live" "P \<inter> (\<lambda>p. (p, 0)) ` T = {}" "H = frame_no (vm_mem (mm_vm s)) ` T"
    using assms(1) by (auto simp: tables_def)
  obtain k where k: "kmem_cache_free c p (vm_kmem (mm_vm s)) = Some k" "kmem_inv (P \<union> (\<lambda>p. (p, 0)) ` T) k K (live(c := live c - {p}))"
    "k_mem k = vm_mem (mm_vm s)" using kmem_cache_free_ok [OF T(1) assms(2,3)] by blast
  have "pages_kept (P \<union> (\<lambda>p. (p, 0)) ` T) (vm_mem (mm_vm s)) (k_mem k)" by (simp add: k(3))
  note t = tables_pages_kept [OF T k(2) this]
  have "vm_kept P H (mm_vm s) ((mm_vm s)\<lparr>vm_kmem := k\<rparr>)" using t(2-4) by (simp add: vm_kept_def)
  moreover have "mm_cache_free c p s = Some (upd_vm ((mm_vm s)\<lparr>vm_kmem := k\<rparr>) s)" using k(1) by (simp add: mm_cache_free_def)
  ultimately show ?thesis using t(1) by blast
qed

section \<open>One address space\<close>

definition area_pages :: "mms \<Rightarrow> nat list \<Rightarrow> nat set" where
  "area_pages s as = (\<Union>a \<in> set as. {first_page (vma_begin (vma_obj s a))..<last_page (vma_end (vma_obj s a))})"

definition page_aligned :: "u64 \<Rightarrow> bool" where
  "page_aligned w \<longleftrightarrow> 4096 dvd unat w"

text \<open>
  The space \<open>m\<close> with the root table \<open>r\<close>: \<open>as\<close> are its areas in order, \<open>M\<close> its pages and \<open>X\<close> its tables below the root.
  \<open>V\<close> are the live areas.
\<close>

definition space_ok :: "mms \<Rightarrow> nat set \<Rightarrow> nat set \<Rightarrow> nat \<Rightarrow> nat \<Rightarrow> nat list \<Rightarrow> (nat \<rightharpoonup> pte_t) \<Rightarrow> nat set \<Rightarrow> bool" where
  "space_ok s H V m r as M X \<longleftrightarrow> (\<exists>p. mm_pt (mm_obj s m) = Some p \<and> pfn2page (vm_mem (mm_vm s)) r = Some p) \<and> insert r X \<subseteq> H \<and>
     slots_ok 2 {..<256} (mm_vm s) M r 0 X \<and> vmas_ok s m as \<and> set as \<subseteq> V \<and>
     (\<forall>a \<in> set as. page_aligned (vma_begin (vma_obj s a)) \<and> page_aligned (vma_end (vma_obj s a)) \<and> vma_end (vma_obj s a) \<le> 2 ^ 47 \<and> vma_fault (vma_obj s a) = Anon_page_fault) \<and>
     dom M = area_pages s as"

lemma kept_vm_same: "vm_kept P H v v' \<Longrightarrow> Y \<subseteq> H \<Longrightarrow> vm_same Y v v'"
  by (auto simp: vm_kept_def vm_same_def)

lemma vmas_ok_cong:
  assumes "vmas_ok s m as" and "mm_vma (mm_obj s' m) = mm_vma (mm_obj s m)" and "\<And>a. a \<in> set as \<Longrightarrow> vma_obj s' a = vma_obj s a"
    and "same_out N (vma_links s) (vma_links s')" "N \<inter> set as = {}"
  shows "vmas_ok s' m as"
proof -
  obtain t where t: "rbtree (vma_links s) (mm_vma (mm_obj s m)) t" "nodes t = as" using assms(1) by (auto simp: vmas_ok_def)
  have "rbtree (vma_links s') (mm_vma (mm_obj s' m)) t" unfolding assms(2) by (rule rbtree_frame [OF t(1) assms(4)]) (use assms(5) t(2) in simp)
  moreover have "sorted_wrt (\<lambda>a b. vma_end (vma_obj s' a) \<le> vma_begin (vma_obj s' b)) as"
    using assms(1,3) sorted_wrt_mono_rel [of as "\<lambda>a b. vma_end (vma_obj s a) \<le> vma_begin (vma_obj s b)"] by (auto simp: vmas_ok_def)
  ultimately show ?thesis using t(2) assms(1,3) by (auto simp: vmas_ok_def)
qed

lemma space_ok_cong:
  assumes "space_ok s H V m r as M X" and "vm_same (insert r X) (mm_vm s) (mm_vm s')" and "mm_obj s' m = mm_obj s m"
    and "\<And>a. a \<in> set as \<Longrightarrow> vma_obj s' a = vma_obj s a" and "same_out N (vma_links s) (vma_links s')" "N \<inter> set as = {}"
    and "insert r X \<subseteq> H'" "set as \<subseteq> V'"
  shows "space_ok s' H' V' m r as M X"
proof -
  have "vmas_ok s' m as" by (rule vmas_ok_cong [OF _ _ assms(4-6)]) (use assms(1,3) in \<open>auto simp: space_ok_def\<close>)
  moreover have "slots_ok 2 {..<256} (mm_vm s') M r 0 X" by (rule slots_same [OF _ assms(2)]) (use assms(1) in \<open>simp add: space_ok_def\<close>)
  moreover have "area_pages s' as = area_pages s as" using assms(4) by (simp add: area_pages_def)
  ultimately show ?thesis using assms unfolding space_ok_def by (auto simp: vm_same_def)
qed

lemma mm_root_ok:
  assumes "tables P K live (mm_vm s) H" and "r \<in> H" and "mm_pt (mm_obj s m) = Some p" and "pfn2page (vm_mem (mm_vm s)) r = Some p"
  shows "mm_root m s = Some r"
  using table_page [OF assms(1,2)] assms(3,4) by (metis mm_root_def option.inject option.map(2))

section \<open>All address spaces\<close>

definition mms_inv :: "(page_ptr \<times> nat) set \<Rightarrow> nat set \<Rightarrow> (nat \<Rightarrow> nat set) \<Rightarrow> mms \<Rightarrow> nat set \<Rightarrow> nat set \<Rightarrow> (nat \<Rightarrow> nat) \<Rightarrow> (nat \<Rightarrow> nat list) \<Rightarrow>
    (nat \<Rightarrow> nat \<rightharpoonup> pte_t) \<Rightarrow> (nat \<Rightarrow> nat set) \<Rightarrow> bool" where
  "mms_inv P K live s H S rt as M X \<longleftrightarrow> tables P K live (mm_vm s) H \<and> vma_cachep s \<in> K \<and>
     (\<forall>m \<in> S. space_ok s H (live (vma_cachep s)) m (rt m) (as m) (M m) (X m)) \<and>
     (\<forall>m \<in> S. \<forall>m' \<in> S. m \<noteq> m' \<longrightarrow> insert (rt m) (X m) \<inter> insert (rt m') (X m') = {} \<and> set (as m) \<inter> set (as m') = {})"

text \<open>An operation on the space \<open>m\<close> that keeps the other ones.\<close>

lemma mms_inv_update:
  assumes inv: "mms_inv P K live s H S rt as M X" and m: "m \<in> S" and tb: "tables P' K live' (mm_vm s') H'"
    and H': "H' = H - X m \<union> X'" "X' \<inter> (H - X m) = {}" and same: "vm_same (H - insert (rt m) (X m)) (mm_vm s) (mm_vm s')"
    and obj: "\<And>m'. m' \<noteq> m \<Longrightarrow> mm_obj s' m' = mm_obj s m'" and vma: "\<And>a. a \<notin> N \<Longrightarrow> vma_obj s' a = vma_obj s a"
    and links: "same_out N (vma_links s) (vma_links s')" and N: "N \<inter> live (vma_cachep s) \<subseteq> set (as m)"
    and c: "vma_cachep s' = vma_cachep s" and V: "live (vma_cachep s) - set (as m) \<subseteq> live' (vma_cachep s)"
    and new: "space_ok s' H' (live' (vma_cachep s)) m (rt m) as' M' X'" and as': "set as' \<inter> live (vma_cachep s) \<subseteq> set (as m)"
  shows "mms_inv P' K live' s' H' S rt (as(m := as')) (M(m := M')) (X(m := X'))"
proof -
  have sp: "space_ok s H (live (vma_cachep s)) m' (rt m') (as m') (M m') (X m')" if "m' \<in> S" for m' using inv that by (simp add: mms_inv_def)
  have dj: "insert (rt m') (X m') \<inter> insert (rt m'') (X m'') = {}" "set (as m') \<inter> set (as m'') = {}" if "m' \<in> S" "m'' \<in> S" "m' \<noteq> m''" for m' m''
    using inv that by (auto simp: mms_inv_def)
  have oth: "space_ok s' H' (live' (vma_cachep s)) m' (rt m') (as m') (M m') (X m')" if m': "m' \<in> S" "m' \<noteq> m" for m'
  proof (rule space_ok_cong [OF sp [OF m'(1)] _ obj [OF m'(2)] _ links])
    have sub: "insert (rt m') (X m') \<subseteq> H - insert (rt m) (X m)" "set (as m') \<subseteq> live (vma_cachep s)"
      using sp [OF m'(1)] dj(1) [OF m'(1) m m'(2)] by (auto simp: space_ok_def)
    show "vm_same (insert (rt m') (X m')) (mm_vm s) (mm_vm s')" using same sub(1) by (auto simp: vm_same_def)
    show "insert (rt m') (X m') \<subseteq> H'" using sub(1) H'(1) by blast
    show N': "N \<inter> set (as m') = {}" using N sub(2) dj(2) [OF m'(1) m m'(2)] by blast
    show "set (as m') \<subseteq> live' (vma_cachep s)" using V sub(2) dj(2) [OF m'(1) m m'(2)] by blast
    show "vma_obj s' a = vma_obj s a" if "a \<in> set (as m')" for a using vma N' that by blast
  qed
  have d: "insert (rt m) X' \<inter> insert (rt m') (X m') = {} \<and> set as' \<inter> set (as m') = {}" if m': "m' \<in> S" "m' \<noteq> m" for m'
  proof -
    have "insert (rt m') (X m') \<subseteq> H - X m" "rt m \<notin> insert (rt m') (X m')" "set (as m') \<subseteq> live (vma_cachep s)"
      using sp [OF m'(1)] dj(1) [OF m'(1) m m'(2)] by (auto simp: space_ok_def)
    then show ?thesis using H'(2) as' dj(2) [OF m'(1) m m'(2)] by blast
  qed
  show ?thesis unfolding mms_inv_def c
  proof (intro conjI ballI impI)
    show "vma_cachep s \<in> K" using inv by (simp add: mms_inv_def)
    show "space_ok s' H' (live' (vma_cachep s)) m' (rt m') ((as(m := as')) m') ((M(m := M')) m') ((X(m := X')) m')" if "m' \<in> S" for m'
      using new oth [OF that] by (cases "m' = m") simp_all
    show "insert (rt m') ((X(m := X')) m') \<inter> insert (rt m'') ((X(m := X')) m'') = {}" if "m' \<in> S" "m'' \<in> S" "m' \<noteq> m''" for m' m''
      using d [of m'] d [of m''] dj(1) [OF that] that by (cases "m' = m"; cases "m'' = m") (auto simp: Int_commute)
    show "set ((as(m := as')) m') \<inter> set ((as(m := as')) m'') = {}" if "m' \<in> S" "m'' \<in> S" "m' \<noteq> m''" for m' m''
      using d [of m'] d [of m''] dj(2) [OF that] that by (cases "m' = m"; cases "m'' = m") (auto simp: Int_commute)
  qed (rule tb)
qed

section \<open>Mapping a range\<close>

lemma aligned_range:
  assumes "lo < hi" "hi \<le> 2 ^ 47"
  defines "b \<equiv> ALIGN_DOWN lo PAGE_SIZE" and "e \<equiv> ALIGN hi PAGE_SIZE"
  shows "unat b = 4096 * first_page lo" "unat e = 4096 * last_page hi" "first_page b = first_page lo" "last_page e = last_page hi"
    "b < e" "e \<le> 2 ^ 47" "page_aligned b" "page_aligned e"
proof -
  note r = user_range [OF assms(1,2)]
  have le: "first_page lo \<le> 2 ^ 36" "last_page hi \<le> 2 ^ 36" using r(5,6) by simp_all
  show ub: "unat b = 4096 * first_page lo" unfolding b_def r(3) by (rule vaddr_of_unat [OF le(1)])
  show ue: "unat e = 4096 * last_page hi" unfolding e_def r(4) by (rule vaddr_of_unat [OF le(2)])
  show "first_page b = first_page lo" "last_page e = last_page hi" by (simp_all add: first_page_def [of b] last_page_def [of e] ub ue)
  show "page_aligned b" "page_aligned e" by (simp_all add: page_aligned_def ub ue)
  show "b < e" "e \<le> 2 ^ 47" using r(5,6) unat_exp2 [of 47] by (simp_all add: word_less_nat_alt word_le_nat_alt ub ue)
qed

lemma aligned_pages:
  assumes "page_aligned w"
  shows "first_page w * 4096 = unat w" "last_page w * 4096 = unat w"
  using assms by (auto simp: page_aligned_def first_page_def last_page_def elim!: dvdE)

text \<open>Two page aligned ranges have a page in common exactly when they overlap.\<close>

lemma overlap_page:
  assumes "page_aligned b" "page_aligned e" "page_aligned (vma_begin (vma_obj s a))" "page_aligned (vma_end (vma_obj s a))"
    and "x \<in> {first_page b..<last_page e}" and "x \<in> {first_page (vma_begin (vma_obj s a))..<last_page (vma_end (vma_obj s a))}"
  shows "overlaps s b e a"
proof -
  note p = aligned_pages [OF assms(1)] aligned_pages [OF assms(2)] aligned_pages [OF assms(3)] aligned_pages [OF assms(4)]
  have "x * 4096 < last_page e * 4096" "first_page b * 4096 \<le> x * 4096" "x * 4096 < last_page (vma_end (vma_obj s a)) * 4096"
    "first_page (vma_begin (vma_obj s a)) * 4096 \<le> x * 4096" using assms(5,6) by simp_all
  then have "unat (vma_begin (vma_obj s a)) < unat e" "unat b < unat (vma_end (vma_obj s a))" unfolding p by linarith+
  then show ?thesis by (simp add: overlaps_def word_less_nat_alt)
qed

lemma space_free:
  assumes "space_ok s H V m r as M X" and "page_aligned b" "page_aligned e" and "\<forall>a \<in> set as. \<not> overlaps s b e a"
  shows "\<forall>x \<in> {first_page b..<last_page e}. M x = None"
proof
  fix x assume x: "x \<in> {first_page b..<last_page e}"
  show "M x = None"
  proof (rule ccontr)
    assume "M x \<noteq> None"
    then have "x \<in> area_pages s as" using assms(1) by (auto simp: space_ok_def)
    then obtain a where a: "a \<in> set as" "x \<in> {first_page (vma_begin (vma_obj s a))..<last_page (vma_end (vma_obj s a))}"
      unfolding area_pages_def by blast
    have "page_aligned (vma_begin (vma_obj s a))" "page_aligned (vma_end (vma_obj s a))" using assms(1) a(1) by (auto simp: space_ok_def)
    from overlap_page [OF assms(2,3) this x a(2)] show False using assms(4) a(1) by blast
  qed
qed

text \<open>The state after the new area is linked.\<close>

lemma link_vma_ok:
  assumes sp: "space_ok s H V m r as M X" and fl: "free_link s m as b e par pl" and be: "b < e" "e \<le> 2 ^ 47" "page_aligned b" "page_aligned e"
    and a: "a \<noteq> 0" "a \<notin> V" and s1: "same_out {a} (vma_links s) (vma_links s1)" "mm_obj s1 = mm_obj s" "vma_obj s1 = (vma_obj s)(a := x)"
    and x: "vma_begin x = b" "vma_end x = e" "vma_fault x = Anon_page_fault"
    and pt: "\<exists>p. mm_pt (mm_obj s m) = Some p \<and> pfn2page (vm_mem (mm_vm s1)) r = Some p" "insert r X1 \<subseteq> H1"
      "slots_ok 2 {..<256} (mm_vm s1) (M ++ zeros (first_page b) (last_page e)) r 0 X1"
  shows "\<exists>s' as'. link_vma m a par pl s1 = Some s' \<and> set as' = insert a (set as) \<and> mm_vm s' = mm_vm s1 \<and> vma_obj s' = vma_obj s1 \<and>
    (\<forall>m'. m' \<noteq> m \<longrightarrow> mm_obj s' m' = mm_obj s m') \<and> vma_cachep s' = vma_cachep s1 \<and> same_out (insert a (set as)) (vma_links s) (vma_links s') \<and>
    space_ok s' H1 (insert a V) m r as' (M ++ zeros (first_page b) (last_page e)) X1"
proof -
  have vo: "vmas_ok s m as" "set as \<subseteq> V" "dom M = area_pages s as"
    and al: "\<forall>a \<in> set as. page_aligned (vma_begin (vma_obj s a)) \<and> page_aligned (vma_end (vma_obj s a)) \<and> vma_end (vma_obj s a) \<le> 2 ^ 47 \<and>
      vma_fault (vma_obj s a) = Anon_page_fault"
    using sp by (simp_all add: space_ok_def)
  have aas: "a \<notin> set as" using a(2) vo(2) by blast
  obtain xs ys where xy: "as = xs @ ys" "\<forall>x \<in> set xs. vma_end (vma_obj s x) \<le> b" "\<forall>y \<in> set ys. e \<le> vma_begin (vma_obj s y)"
    "\<forall>n N h. n \<noteq> 0 \<longrightarrow> n \<notin> set as \<longrightarrow> same_out N (vma_links s) h \<longrightarrow> N \<inter> set as = {} \<longrightarrow>
        (\<exists>h' root' t'. rb_insert n (rb_link n par pl (h, mm_vma (mm_obj s m))) = Some (h', root') \<and> rbtree h' root' t' \<and>
           nodes t' = xs @ n # ys \<and> same_out (insert n (set as)) h h')" using fl unfolding free_link_def by (elim exE conjE) (rule that)
  obtain h' root' t' where h': "rb_insert a (rb_link a par pl (vma_links s1, mm_vma (mm_obj s m))) = Some (h', root')" "rbtree h' root' t'"
    "nodes t' = xs @ a # ys" "same_out (insert a (set as)) (vma_links s1) h'"
    using xy(4) a(1) aas s1(1) by (metis Int_insert_left_if0 inf_bot_left)
  let ?s = "put_tree m (h', root') s1"
  have f: "mm_vm ?s = mm_vm s1" "vma_obj ?s = vma_obj s1" "vma_links ?s = h'" "vma_cachep ?s = vma_cachep s1"
    "mm_obj ?s = (mm_obj s)(m := (mm_obj s m)\<lparr>mm_vma := root'\<rparr>)" by (simp_all add: put_tree_def upd_mm_def s1(2))
  have vx: "vma_obj s1 a = x" "\<And>c. c \<in> set as \<Longrightarrow> vma_obj s1 c = vma_obj s c" using aas by (auto simp: s1(3))
  have ne: "\<forall>c \<in> set as. vma_begin (vma_obj s c) < vma_end (vma_obj s c)" and srt: "sorted_wrt (\<lambda>a b. vma_end (vma_obj s a) \<le> vma_begin (vma_obj s b)) (xs @ ys)"
    using vo(1) xy(1) by (simp_all add: vmas_ok_def)
  have "sorted_wrt (\<lambda>a b. vma_end (vma_obj s1 a) \<le> vma_begin (vma_obj s1 b)) (xs @ ys)"
    by (rule sorted_wrt_mono_rel [OF _ srt]) (use vx(2) xy(1) in auto)
  then have srt': "sorted_wrt (\<lambda>a b. vma_end (vma_obj s1 a) \<le> vma_begin (vma_obj s1 b)) (xs @ a # ys)"
    using xy(1-3) vx x by (auto simp: sorted_wrt_append)
  have vok: "vmas_ok ?s m (xs @ a # ys)" unfolding vmas_ok_def f using h'(2,3) srt' ne vx x be(1) xy(1) by auto
  have "area_pages ?s (xs @ a # ys) = area_pages s as \<union> {first_page b..<last_page e}"
    unfolding area_pages_def f using vx x xy(1) by auto
  then have dom: "dom (M ++ zeros (first_page b) (last_page e)) = area_pages ?s (xs @ a # ys)"
    using vo(3) by (auto simp: zeros_def dom_def map_add_def split: option.splits if_splits)
  have "space_ok ?s H1 (insert a V) m r (xs @ a # ys) (M ++ zeros (first_page b) (last_page e)) X1"
    unfolding space_ok_def f(1,2) using vok dom pt al vx x be xy(1) vo(2) by (auto simp: f(5))
  moreover have "same_out (insert a (set as)) (vma_links s) h'"
    by (rule same_out_trans [OF same_out_mono [OF s1(1)] h'(4)]) auto
  moreover have "link_vma m a par pl s1 = Some ?s" using h'(1) by (simp add: link_vma_def s1(2))
  moreover have "set (xs @ a # ys) = insert a (set as)" using xy(1) by auto
  ultimately show ?thesis by (intro exI [of _ ?s] exI [of _ "xs @ a # ys"]) (simp add: f)
qed

lemma alloc_vma_ok:
  assumes "tables P K live (mm_vm s) H" and "vma_cachep s \<in> K"
  shows "\<exists>a v'. alloc_vma s = Some (a, if a = 0 then upd_vm v' s else
      (upd_vma a (\<lambda>_. zero_vma) (upd_vm v' s))\<lparr>vma_links := clear_node a (vma_links s)\<rparr>) \<and> vm_kept P H (mm_vm s) v' \<and>
    (if a = 0 then tables P K live v' H
     else a \<notin> live (vma_cachep s) \<and> tables P K (live(vma_cachep s := insert a (live (vma_cachep s)))) v' H)"
  using mm_cache_alloc_ok [OF assms] by (fastforce simp: alloc_vma_def upd_vm_def)

lemma clear_node_same: "same_out {a} h (clear_node a h)"
  by (simp add: clear_node_def same_out_def)

definition new_vma :: "u64 \<Rightarrow> u64 \<Rightarrow> u32 \<Rightarrow> nat \<Rightarrow> vma" where
  "new_vma b e perm m = \<lparr>vma_begin = b, vma_end = e, vma_perm = perm, vma_mm = m, vma_fault = Anon_page_fault\<rparr>"

lemma zeros_restrict:
  assumes "\<forall>x \<in> {n..<k}. M x = None"
  shows "(M ++ zeros n k) |` (- {n..<k}) = M"
proof
  fix x show "((M ++ zeros n k) |` (- {n..<k})) x = M x"
    using assms by (cases "x \<in> {n..<k}") (auto simp: restrict_map_def map_add_def zeros_def)
qed

lemma space_ok_tables:
  assumes "space_ok s H V m r as M X" and "mm_obj s' = mm_obj s" "vma_obj s' = vma_obj s" "vma_links s' = vma_links s"
    and "pfn2page (vm_mem (mm_vm s')) = pfn2page (vm_mem (mm_vm s))" "insert r X' \<subseteq> H'" "slots_ok 2 {..<256} (mm_vm s') M r 0 X'"
  shows "space_ok s' H' V m r as M X'"
  using assms unfolding space_ok_def vmas_ok_def area_pages_def by simp

lemma upd_vm_simps [simp]:
  "mm_vm (upd_vm v s) = v" "mm_obj (upd_vm v s) = mm_obj s" "vma_obj (upd_vm v s) = vma_obj s" "vma_links (upd_vm v s) = vma_links s"
  "vma_cachep (upd_vm v s) = vma_cachep s" "upd_vm v (upd_vm v' s) = upd_vm v s"
  by (simp_all add: upd_vm_def)

text \<open>Only the tables of one space changed.\<close>

lemma mms_inv_tables:
  assumes inv: "mms_inv P K live s H S rt as M X" and m: "m \<in> S" and tb: "tables P' K live v' (H - X m \<union> X')" "X' \<inter> (H - X m) = {}"
    and v': "vm_same (H - insert (rt m) (X m)) (mm_vm s) v'" "slots_ok 2 {..<256} v' (M m) (rt m) 0 X'"
  shows "mms_inv P' K live (upd_vm v' s) (H - X m \<union> X') S rt as M (X(m := X'))"
proof -
  have sp: "space_ok s H (live (vma_cachep s)) m (rt m) (as m) (M m) (X m)" using inv m by (simp add: mms_inv_def)
  then have "insert (rt m) X' \<subseteq> H - X m \<union> X'" by (auto simp: space_ok_def elim: pt_slotsE)
  then have "mms_inv P' K live (upd_vm v' s) (H - X m \<union> X') S rt (as(m := as m)) (M(m := M m)) (X(m := X'))"
    by (intro mms_inv_update [OF inv m _ refl tb(2), where N = "{}"])
      (use tb(1) v' space_ok_tables [OF sp, of "upd_vm v' s" X' "H - X m \<union> X'"] in \<open>auto simp: vm_same_def\<close>)
  then show ?thesis by simp
qed

text \<open>A new area was linked into one space, whose tables have the pages of the area.\<close>

lemma mms_inv_link:
  assumes inv: "mms_inv P K live s H S rt as M X" and m: "m \<in> S" and fl: "free_link s m (as m) b e par pl"
    and be: "b < e" "e \<le> 2 ^ 47" "page_aligned b" "page_aligned e" and a: "a \<noteq> 0" "a \<notin> live (vma_cachep s)"
    and tb: "tables P K (live(vma_cachep s := insert a (live (vma_cachep s)))) v' (H - X m \<union> X')" "X' \<inter> (H - X m) = {}"
    and v': "vm_same (H - insert (rt m) (X m)) (mm_vm s) v'" "pfn2page (vm_mem v') = pfn2page (vm_mem (mm_vm s))"
      "slots_ok 2 {..<256} v' (M m ++ zeros (first_page b) (last_page e)) (rt m) 0 X'"
  shows "\<exists>s' as'. link_vma m a par pl (upd_vma a (\<lambda>_. new_vma b e perm m) ((upd_vma a (\<lambda>_. zero_vma) (upd_vm v' s))\<lparr>vma_links := clear_node a (vma_links s)\<rparr>)) = Some s' \<and>
    set as' = insert a (set (as m)) \<and> vma_obj s' = (vma_obj s)(a := new_vma b e perm m) \<and>
    mms_inv P K (live(vma_cachep s := insert a (live (vma_cachep s)))) s' (H - X m \<union> X') S rt (as(m := as'))
      (M(m := M m ++ zeros (first_page b) (last_page e))) (X(m := X'))"
proof -
  let ?c = "vma_cachep s" and ?H = "H - X m \<union> X'" and ?M = "M m ++ zeros (first_page b) (last_page e)"
  have sp: "space_ok s H (live ?c) m (rt m) (as m) (M m) (X m)" using inv m by (simp add: mms_inv_def)
  then have pt: "\<exists>p. mm_pt (mm_obj s m) = Some p \<and> pfn2page (vm_mem v') (rt m) = Some p" and sub: "insert (rt m) X' \<subseteq> ?H"
    using v'(2) by (auto simp: space_ok_def elim: pt_slotsE)
  define s3 where "s3 = upd_vma a (\<lambda>_. new_vma b e perm m) ((upd_vma a (\<lambda>_. zero_vma) (upd_vm v' s))\<lparr>vma_links := clear_node a (vma_links s)\<rparr>)"
  have fs: "mm_vm s3 = v'" "vma_links s3 = clear_node a (vma_links s)" "mm_obj s3 = mm_obj s" "vma_obj s3 = (vma_obj s)(a := new_vma b e perm m)" "vma_cachep s3 = ?c"
    by (simp_all add: s3_def upd_vma_def)
  have "\<exists>s' as'. link_vma m a par pl s3 = Some s' \<and> set as' = insert a (set (as m)) \<and> mm_vm s' = mm_vm s3 \<and> vma_obj s' = vma_obj s3 \<and>
    (\<forall>m'. m' \<noteq> m \<longrightarrow> mm_obj s' m' = mm_obj s m') \<and> vma_cachep s' = vma_cachep s3 \<and> same_out (insert a (set (as m))) (vma_links s) (vma_links s') \<and>
    space_ok s' ?H (insert a (live ?c)) m (rt m) as' ?M X'"
    by (rule link_vma_ok [OF sp fl be a _ fs(3,4)]) (use clear_node_same [of a] pt sub v'(3) in \<open>auto simp: fs new_vma_def\<close>)
  then obtain s' as' where li: "link_vma m a par pl s3 = Some s'" "set as' = insert a (set (as m))" "mm_vm s' = v'"
    "vma_obj s' = (vma_obj s)(a := new_vma b e perm m)" "\<And>m'. m' \<noteq> m \<Longrightarrow> mm_obj s' m' = mm_obj s m'" "vma_cachep s' = ?c"
    "same_out (insert a (set (as m))) (vma_links s) (vma_links s')" "space_ok s' ?H (insert a (live ?c)) m (rt m) as' ?M X'" unfolding fs by blast
  have "mms_inv P K (live(?c := insert a (live ?c))) s' ?H S rt (as(m := as')) (M(m := ?M)) (X(m := X'))"
    by (rule mms_inv_update [OF inv m _ refl tb(2) _ li(5) _ li(7)]) (use tb(1) li a(2) v'(1) in auto)
  then show ?thesis using li(1,2,4) unfolding s3_def by blast
qed

section \<open>Properties\<close>

text \<open>C34: mapping a range of user addresses into an address space always returns. With an area in the way it
  fails with EBUSY and changes nothing; without memory it fails with ENOMEM and gives back what it took, so
  that every address space has the areas and the pages it had; otherwise one new area is linked
  in order, with the range widened to whole pages, the tables have an empty entry for each of its pages, and all
  other areas and address spaces are as they were.\<close>

theorem mmap_correct:
  assumes inv: "mms_inv P K live s H S rt as M X" and m: "m \<in> S" and range: "lo < hi" "hi \<le> 2 ^ 47"
  defines "b \<equiv> ALIGN_DOWN lo PAGE_SIZE" and "e \<equiv> ALIGN hi PAGE_SIZE"
  shows "\<exists>rc s'. mmap_mm m lo hi perm s = Some (rc, s') \<and>
    (if \<exists>a \<in> set (as m). overlaps s b e a then rc = - EBUSY \<and> s' = s
     else \<exists>H' X'. rc = - ENOMEM \<and> mms_inv P K live s' H' S rt as M (X(m := X')) \<or>
       rc = 0 \<and> (\<exists>a as'. a \<notin> live (vma_cachep s) \<and> set as' = insert a (set (as m)) \<and> vma_obj s' = (vma_obj s)(a := new_vma b e perm m) \<and>
         mms_inv P K (live(vma_cachep s := insert a (live (vma_cachep s)))) s' H' S rt (as(m := as'))
           (M(m := M m ++ zeros (first_page lo) (last_page hi))) (X(m := X'))))"
proof -
  note be = aligned_range [OF range, folded b_def e_def]
  let ?c = "vma_cachep s" and ?r = "rt m" and ?v = "mm_vm s" and ?M = "M m ++ zeros (first_page b) (last_page e)"
  have sp: "space_ok s H (live ?c) m ?r (as m) (M m) (X m)" and tb: "tables P K live ?v H" and cK: "?c \<in> K"
    using inv m by (simp_all add: mms_inv_def)
  obtain p where pt: "mm_pt (mm_obj s m) = Some p" "pfn2page (vm_mem ?v) ?r = Some p" and XH: "insert ?r (X m) \<subseteq> H"
    and sl: "slots_ok 2 {..<256} ?v (M m) ?r 0 (X m)" and vo: "vmas_ok s m (as m)" using sp by (auto simp: space_ok_def)
  have root: "mm_root m s = Some ?r" by (rule mm_root_ok [OF tb _ pt]) (use XH in blast)
  obtain a par pl where l: "lookup_vma_link m b e s = Some (a, par, pl)"
    "a \<noteq> 0 \<and> a \<in> set (as m) \<and> overlaps s b e a \<or> a = 0 \<and> (\<forall>b' \<in> set (as m). \<not> overlaps s b e b') \<and> free_link s m (as m) b e par pl"
    using lookup_vma_link_ok [OF vo be(5)] by blast
  show ?thesis
  proof (cases "\<exists>a \<in> set (as m). overlaps s b e a")
    case True
    then have "a \<noteq> 0" using l(2) by blast
    then have "mmap_mm m lo hi perm s = Some (- EBUSY, s)" using l(1) by (simp add: mmap_mm_def b_def [symmetric] e_def [symmetric])
    then show ?thesis using True by simp
  next
    case ov: False
    then have a0: "a = 0" and no: "\<forall>a \<in> set (as m). \<not> overlaps s b e a" and fl: "free_link s m (as m) b e par pl" using l(2) by auto
    have none: "\<forall>x \<in> {first_page b..<last_page e}. M m x = None" by (rule space_free [OF sp be(7,8) no])
    obtain rc v1 X1 where pop: "pt_populate_range ?r b e ?v = Some (rc, v1)" "framed P K live ?v H ?r {..<256} (X m) v1 X1"
      "rc = 0 \<and> slots_ok 2 {..<256} v1 ?M ?r 0 X1 \<or> rc = - ENOMEM \<and> slots_ok 2 {..<256} v1 (M m) ?r 0 X1"
      using pt_populate_range_ok [OF tb sl XH be(5,6) none] by (elim exE conjE) (rule that)
    let ?H1 = "H - X m \<union> X1" and ?Y = "H - insert ?r (X m)"
    have rX: "?r \<notin> X m" using sl by (rule pt_slotsE)
    have f1: "tables P K live v1 ?H1" "X1 \<inter> (H - X m) = {}" "pfn2page (vm_mem v1) = pfn2page (vm_mem ?v)" "vm_same ?Y ?v v1" "insert ?r X1 \<subseteq> ?H1"
      using pop(2) framed_vm_same [OF pop(2), of ?Y] rX XH by (auto simp: framed_def)
    have start: "mmap_mm m lo hi perm s = (if rc \<noteq> 0 then Some (rc, upd_vm v1 s) else do {
         (a, s) \<leftarrow> alloc_vma (upd_vm v1 s);
         if a = 0 then do { root \<leftarrow> mm_root m s; v \<leftarrow> pt_release_range root b e (mm_vm s); Some (- ENOMEM, upd_vm v s) }
         else do { s \<leftarrow> link_vma m a par pl (upd_vma a (\<lambda>_. new_vma b e perm m) s); Some (0, s) } })"
      unfolding mmap_mm_def Let_def b_def [symmetric] e_def [symmetric] new_vma_def [symmetric] using l(1) a0 root pop(1) by simp
    have nomem: ?thesis if call: "mmap_mm m lo hi perm s = Some (- ENOMEM, upd_vm v' s)" and v': "tables P K live v' (H - X m \<union> X')"
      "X' \<inter> (H - X m) = {}" "vm_same ?Y ?v v'" "slots_ok 2 {..<256} v' (M m) ?r 0 X'" for v' X'
      using call ov mms_inv_tables [OF inv m v'] by (intro exI conjI [OF call]) (simp, blast)
    show ?thesis
    proof (cases "rc = 0")
      case False
      then show ?thesis using nomem [OF _ f1(1,2,4)] start pop(3) by simp
    next
      case True
      then have sl1: "slots_ok 2 {..<256} v1 ?M ?r 0 X1" using pop(3) by simp
      obtain a v2 where al: "alloc_vma (upd_vm v1 s) = Some (a, if a = 0 then upd_vm v2 s else
          (upd_vma a (\<lambda>_. zero_vma) (upd_vm v2 s))\<lparr>vma_links := clear_node a (vma_links s)\<rparr>)" "vm_kept P ?H1 v1 v2"
        "if a = 0 then tables P K live v2 ?H1 else a \<notin> live ?c \<and> tables P K (live(?c := insert a (live ?c))) v2 ?H1"
        using alloc_vma_ok [of P K live "upd_vm v1 s" ?H1] f1(1) cK by (simp only: upd_vm_simps) blast
      have k: "vm_same (insert ?r X1) v1 v2" "vm_same ?Y v1 v2" "pfn2page (vm_mem v2) = pfn2page (vm_mem ?v)"
        using kept_vm_same [OF al(2)] f1(3,5) al(2) by (auto simp: vm_kept_def)
      have sl2: "slots_ok 2 {..<256} v2 ?M ?r 0 X1" by (rule slots_same [OF sl1 k(1)])
      have s2: "vm_same ?Y ?v v2" by (rule vm_same_trans [OF f1(4) k(2)])
      show ?thesis
      proof (cases "a = 0")
        case a: True
        then have tb2: "tables P K live v2 ?H1" using al(3) by simp
        have root2: "mm_root m (upd_vm v2 s) = Some ?r" by (rule mm_root_ok [of P K live _ ?H1]) (use tb2 pt k(3) f1(5) in auto)
        have "\<forall>x \<in> {first_page b..<last_page e}. ?M x = Some 0" by (simp add: zeros_def map_add_def)
        from pt_release_range_ok [OF tb2 sl2 f1(5) be(5,6) this] obtain v3 X3 where
          rel: "pt_release_range ?r b e v2 = Some v3" "framed P K live v2 ?H1 ?r {..<256} X1 v3 X3" "slots_ok 2 {..<256} v3 (M m) ?r 0 X3"
          unfolding zeros_restrict [OF none] by blast
        have d: "?H1 - X1 = H - X m" using f1(2) by blast
        have f3: "tables P K live v3 (H - X m \<union> X3)" "X3 \<inter> (H - X m) = {}" using rel(2) unfolding framed_def d by simp_all
        have "?Y \<subseteq> ?H1 - insert ?r X1" using f1(2) by blast
        then have "vm_same ?Y ?v v3" using vm_same_trans [OF s2] framed_vm_same [OF rel(2)] by blast
        moreover have "mmap_mm m lo hi perm s = Some (- ENOMEM, upd_vm v3 s)" using start True al(1) a root2 rel(1) by simp
        ultimately show ?thesis using nomem f3 rel(3) by blast
      next
        case a: False
        then have tb2: "tables P K (live(?c := insert a (live ?c))) v2 ?H1" and al2: "a \<notin> live ?c" using al(3) by simp_all
        from mms_inv_link [OF inv m fl be(5-8) a al2 tb2 f1(2) s2 k(3) sl2, of perm] obtain s' as' where
          li: "link_vma m a par pl (upd_vma a (\<lambda>_. new_vma b e perm m) ((upd_vma a (\<lambda>_. zero_vma) (upd_vm v2 s))\<lparr>vma_links := clear_node a (vma_links s)\<rparr>)) = Some s'"
          "set as' = insert a (set (as m))" "vma_obj s' = (vma_obj s)(a := new_vma b e perm m)"
          "mms_inv P K (live(?c := insert a (live ?c))) s' ?H1 S rt (as(m := as')) (M(m := M m ++ zeros (first_page lo) (last_page hi))) (X(m := X1))"
          unfolding be(3,4) by blast
        have call: "mmap_mm m lo hi perm s = Some (0, s')" using start True al(1) a li(1) by simp
        show ?thesis
          by (rule exI [of _ "0 :: int"], rule exI [of _ s'], rule conjI [OF call], subst if_not_P [OF ov], rule exI [of _ ?H1], rule exI [of _ X1],
              rule disjI2, rule conjI [OF refl], rule exI [of _ a], rule exI [of _ as']) (use li al2 in simp)
      qed
    qed
  qed
qed

section \<open>Witnesses\<close>

text \<open>One empty address space: its root table is a frame without entries.\<close>

definition sample_mms :: mms where
  "sample_mms = \<lparr>mm_vm = sample_tables\<lparr>vm_pt := \<lambda>_ _. 0\<rparr>, mm_obj = (\<lambda>_. zero_mm\<lparr>mm_pt := Some (0, 0)\<rparr>), vma_obj = (\<lambda>_. zero_vma),
     vma_links = \<lparr>rb_left = (\<lambda>_. 0), rb_right = (\<lambda>_. 0), rb_parent = (\<lambda>_. 0), rb_color = (\<lambda>_. RED)\<rparr>, page_data = (\<lambda>_ _. 0), mm_cachep = 8, vma_cachep = 7, zero_page = (0, 4)\<rparr>"

lemma sample_mms_inv: "mms_inv sample_page {7} (\<lambda>_. {}) sample_mms {..<4} {1} (\<lambda>_. 0) (\<lambda>_. []) (\<lambda>_. Map.empty) (\<lambda>_. {})"
proof -
  let ?v = "sample_tables\<lparr>vm_pt := \<lambda>_ _. 0\<rparr>"
  have "tables sample_page {7} (\<lambda>_. {}) ?v {..<4}" using sample_tables_ok(1) by (simp add: tables_def)
  moreover have "slots_ok 2 {..<256} ?v Map.empty 0 0 {}" by (rule pt_slotsI [where own = "\<lambda>_. {}"]) (auto simp: pt_slot_def)
  moreover have "vmas_ok sample_mms 1 []" unfolding vmas_ok_def
    by (intro conjI exI [of _ Leaf]) (simp_all add: rbtree_def tree_at_def sample_mms_def zero_mm_def)
  moreover have "pfn2page (vm_mem sample_tables) 0 = Some (0, 0)" by (rule sample_tables_ok(2)) simp
  ultimately show ?thesis by (simp add: mms_inv_def space_ok_def sample_mms_def zero_mm_def area_pages_def)
qed

theorem mmap_correct_witness:
  "\<exists>rc s' H' X'. mmap_mm 1 100 5000 VMA_PERM_WRITE sample_mms = Some (rc, s') \<and>
     (rc = - ENOMEM \<and> mms_inv sample_page {7} (\<lambda>_. {}) s' H' {1} (\<lambda>_. 0) (\<lambda>_. []) (\<lambda>_. Map.empty) X' \<or>
      rc = 0 \<and> (\<exists>a. vma_obj s' = (vma_obj sample_mms)(a := new_vma 0 8192 VMA_PERM_WRITE 1)))"
proof -
  have "ALIGN_DOWN 100 PAGE_SIZE = (0 :: u64)" "ALIGN 5000 PAGE_SIZE = (8192 :: u64)" by (simp_all add: ALIGN_DOWN_def ALIGN_def PAGE_SIZE_def PAGE_BITS_def BIT_CONST_def)
  moreover have "(100 :: u64) < 5000" "(5000 :: u64) \<le> 2 ^ 47" by simp_all
  ultimately show ?thesis using mmap_correct [OF sample_mms_inv, of 1 100 5000 VMA_PERM_WRITE] by simp blast
qed

end
