(* ===== verification/Mm_Fault.thy ===== *)
theory Mm_Fault
  imports Mm_Inv
begin

text \<open>
  Page faults: what the handler of \<^verbatim>\<open>src/mm.c\<close> does to the entry of the faulting page, to the references of pages
  and to their data.
\<close>

section \<open>Single pages\<close>

lemma zero_order: "0 < BUDDY_ORDERS"
  by (simp add: BUDDY_ORDERS_def)

lemma alloc_block_held:
  assumes "tables P K live v H" and k: "k < BUDDY_ORDERS"
  shows "\<exists>r mem. alloc_pages k (vm_mem v) = Some (r, mem) \<and> (case r of None \<Rightarrow> upd_vm_mem (\<lambda>_. mem) v = v
    | Some p \<Rightarrow> (p, k) \<notin> P \<and> tables (insert (p, k) P) K live (upd_vm_mem (\<lambda>_. mem) v) H \<and> vm_same H v (upd_vm_mem (\<lambda>_. mem) v) \<and>
        vm_pt (upd_vm_mem (\<lambda>_. mem) v) = vm_pt v \<and> (\<forall>q. (q, 0) \<in> P \<longrightarrow> refcount q (upd_vm_mem (\<lambda>_. mem) v) = refcount q v))"
proof -
  obtain T where T: "kmem_inv (P \<union> (\<lambda>p. (p, 0)) ` T) (vm_kmem v) K live" "P \<inter> (\<lambda>p. (p, 0)) ` T = {}" "H = frame_no (vm_mem v) ` T"
    "\<forall>p \<in> T. valid_page (vm_mem v) p" "\<forall>p \<in> T. pfn2page (vm_mem v) (frame_no (vm_mem v) p) = Some p"
    by (rule tablesE [OF assms(1)])
  obtain r st' where a: "heap_alloc_pages k (vm_kmem v) = Some (r, st')"
    "case r of None \<Rightarrow> st' = vm_kmem v | Some p \<Rightarrow> (p, k) \<notin> P \<union> (\<lambda>p. (p, 0)) ` T \<and> kmem_inv (insert (p, k) (P \<union> (\<lambda>p. (p, 0)) ` T)) st' K live"
    using heap_alloc_pages_ok [OF T(1) k] by (fastforce split: option.splits)
  note fr = heap_alloc_pages_frame [OF T(1) k a(1)]
  have al: "alloc_pages k (vm_mem v) = Some (r, k_mem st')" "st' = (vm_kmem v)\<lparr>k_mem := k_mem st'\<rparr>"
    using a(1) by (auto simp: heap_alloc_pages_def split: Option.bind_splits)
  let ?v = "upd_vm_mem (\<lambda>_. k_mem st') v"
  have v: "vm_kmem ?v = st'" using al(2) by simp
  have pf: "pfn2page (vm_mem ?v) = pfn2page (vm_mem v)" by (rule ext) (simp add: pfn2page_frame [OF fr(1)])
  have cnt: "table_count ?v g = table_count v g" if gH: "g \<in> H" for g
  proof -
    obtain q where q: "q \<in> T" "g = frame_no (vm_mem v) q" using gH T(3) by blast
    then show ?thesis using fr(2) [of q] T(5) [rule_format, OF q(1)] by (simp add: table_count_def refcount_def pf [simplified])
  qed
  show ?thesis
  proof (cases r)
    case None
    then show ?thesis using al(1) a(2) by (simp add: upd_vm_mem_def upd_mem_def)
  next
    case (Some p)
    then have p: "(p, k) \<notin> P" "(p, k) \<notin> (\<lambda>p. (p, 0)) ` T" "kmem_inv (insert (p, k) P \<union> (\<lambda>p. (p, 0)) ` T) st' K live" using a(2) by auto
    have "H = frame_no (k_mem st') ` T" unfolding T(3) using same_frame_no [OF fr(1) T(4) [rule_format]] by (intro image_cong) simp_all
    then have "tables (insert (p, k) P) K live ?v H" unfolding tables_def v using p T(2) by (intro exI [of _ T]) auto
    moreover have "vm_same H v ?v" using cnt pf by (simp add: vm_same_def)
    moreover have "refcount q ?v = refcount q v" if "(q, 0) \<in> P" for q using fr(2) [of q] that by (simp add: refcount_def)
    ultimately show ?thesis using al(1) Some p(1) by auto
  qed
qed

lemmas alloc_page_held = alloc_block_held [where k = 0, OF _ zero_order]

text \<open>Mapping one page, whatever its count is.\<close>

lemma mmap_page_ok:
  fixes flags :: pte_t
  assumes us: "user_space P K live v H root M X" and p: "(p, 0) \<in> P" and n: "n + 1 < 2 ^ 35" and M: "M n = Some e0"
  defines "e \<equiv> map_entry (vm_mem v) flags p"
  shows "\<exists>v'. mmap_pages root (vaddr_of n) [p] flags v = Some v' \<and> user_space P K live v' H root (M(n \<mapsto> e)) X \<and>
    refcount p v' = refcount p v + 1 \<and> (\<forall>q. q \<noteq> p \<longrightarrow> refcount q v' = refcount q v) \<and> vm_same (H - X) v v' \<and>
    (\<forall>q. page_paddr (vm_mem v') q = page_paddr (vm_mem v) q)"
proof -
  have tb: "tables P K live v H" using us by (simp add: user_space_def)
  have n35: "n < 2 ^ 35" using n by simp
  let ?g = "get_page p v"
  note s = set_refcount_held [OF tb p, where u = "refcount p v + 1", folded get_page_def]
  have same: "vm_same H v ?g" using s(2-4) by (simp add: vm_same_def)
  have us1: "user_space P K live ?g H root M X" by (rule user_space_same [OF us s(1) same])
  note l = user_leaf [OF us1 M n35, unfolded s(2)]
  have rch: "reached v 3 root n" by (rule user_reached [OF us]) (use M n35 in auto)
  note it = pt_iter_set_stands [OF rch n35]
  let ?it = "pt_iter_set (Some root) (vaddr_of n) v" and ?w = "set_pte (table_at (vm_pt v) 3 root n 0) (slot_of 0 n) e ?g"
  have body: "mmap_slot flags ?it [p] v = Some ([], ?w)"
    using stands_0 [OF it(1)] it(2) by (simp add: mmap_slot_def Let_def e_def map_entry_def)
  have st: "stands ?w root n 0 ?it" by (rule l(5)) (use it(1) s(2) in \<open>simp add: stands_def\<close>)
  obtain it' where nx: "pt_iter_next ?it ?w = Some (Some it')" "it_addr it' = vaddr_of (Suc n)"
    using pt_iter_next_stands [OF st it(2)] n by auto
  have less: "vaddr_of n < vaddr_of (Suc n)" using n by (subst vaddr_of_less) simp_all
  have "for_slots (mmap_slot flags) (vaddr_of (Suc n)) ?it [p] v = Some ([], ?w)"
    apply (subst for_slots.simps)
    unfolding it(3) using less body nx by (simp add: for_slots.simps del: of_nat_mult)
  then have "mmap_pages root (vaddr_of n) [p] flags v = Some ?w"
    unfolding mmap_pages_def vaddr_of_add vaddr_of_aligned for_each_slot_in_range_def by (simp del: of_nat_mult)
  moreover have "vm_same (H - X) v ?w" by (rule vm_same_leaf [OF _ l(3)]) (use same in \<open>auto simp: vm_same_def\<close>)
  moreover have "page_paddr (vm_mem ?w) q = page_paddr (vm_mem v) q" for q using page_paddr_refcount by (simp add: get_page_def)
  ultimately show ?thesis using l(4) [of e] s(5,6) by (intro exI [of _ ?w]) (auto simp: refcount_def)
qed

lemma mapped_page_loop_ok:
  assumes us: "user_space P K live v H root M X" and n: "n + 1 < 2 ^ 35" and M: "M n = Some e"
  shows "mapped_page_loop (vaddr_of n + PAGE_SIZE) (pt_iter_set (Some root) (vaddr_of n) v) v = Some (if pte_present e then pte_page e v else None)"
proof -
  have n35: "n < 2 ^ 35" using n by simp
  note l = user_leaf [OF us M n35]
  have rch: "reached v 3 root n" by (rule user_reached [OF us]) (use M n35 in auto)
  note it = pt_iter_set_stands [OF rch n35]
  let ?it = "pt_iter_set (Some root) (vaddr_of n) v"
  have e: "iter_pte ?it v = Some e" using stands_0 [OF it(1)] it(2) l(1) by (simp add: iter_pte_def)
  obtain it' where nx: "pt_iter_next ?it v = Some (Some it')" "it_addr it' = vaddr_of (Suc n)"
    using pt_iter_next_stands [OF it(1,2)] n by auto
  have less: "vaddr_of n < vaddr_of (Suc n)" using n by (subst vaddr_of_less) simp_all
  have to: "vaddr_of n + PAGE_SIZE = vaddr_of (Suc n)" by (simp add: PAGE_SIZE_def PAGE_BITS_def BIT_CONST_def algebra_simps)
  show ?thesis unfolding to
    apply (subst mapped_page_loop.simps)
    unfolding it(2,3) using less e nx by (auto simp: mapped_page_loop.simps simp del: of_nat_mult)
qed

section \<open>Entries of one address space\<close>

lemma flush_tlb_simps [simp]: "vm_kmem (flush_tlb_addr w v) = vm_kmem v" "vm_pt (flush_tlb_addr w v) = vm_pt v"
  by (simp_all add: flush_tlb_addr_def)

lemma refcount_flush [simp]: "refcount q (flush_tlb_addr w v) = refcount q v"
  by (simp add: refcount_def)

lemma table_count_flush [simp]: "table_count (flush_tlb_addr w v) = table_count v"
  by (simp add: table_count_def fun_eq_iff split: option.split)

lemma same_view [simp]:
  "tables P K live (flush_tlb_addr w v) H = tables P K live v H" "vm_same Y u (flush_tlb_addr w v) = vm_same Y u v"
  "refs_ok D refs (flush_tlb_addr w v) = refs_ok D refs v"
  by (simp_all add: tables_def vm_same_def refs_ok_def)

text \<open>No table and no area changed.\<close>

lemma mms_inv_vm:
  assumes inv: "mms_inv P K live s H S rt as M X" and tb: "tables P' K live' (mm_vm s') H'" "H \<subseteq> H'" "vm_same H (mm_vm s) (mm_vm s')"
    and f: "\<And>m. m \<in> S \<Longrightarrow> mm_obj s' m = mm_obj s m" "vma_obj s' = vma_obj s" "vma_links s' = vma_links s" "vma_cachep s' = vma_cachep s"
    and V: "live (vma_cachep s) \<subseteq> live' (vma_cachep s)"
  shows "mms_inv P' K live' s' H' S rt as M X"
proof -
  have "space_ok s' H' (live' (vma_cachep s)) m (rt m) (as m) (M m) (X m)" if m: "m \<in> S" for m
  proof -
    have sp: "space_ok s H (live (vma_cachep s)) m (rt m) (as m) (M m) (X m)" using inv m by (simp add: mms_inv_def)
    then have X: "insert (rt m) (X m) \<subseteq> H" "set (as m) \<subseteq> live (vma_cachep s)" by (simp_all add: space_ok_def)
    show ?thesis by (rule space_ok_cong [OF sp _ f(1) [OF m], where N = "{}"]) (use X tb(2,3) f V in \<open>auto simp: vm_same_def same_out_def\<close>)
  qed
  then show ?thesis using inv tb(1) f(4) unfolding mms_inv_def by simp
qed

text \<open>An entry of one space changed.\<close>

lemma mms_inv_entry:
  assumes inv: "mms_inv P K live s H S rt as M X" and m: "m \<in> S" and us: "user_space P' K live (mm_vm s') H (rt m) M' (X m)"
    and same: "vm_same (H - X m) (mm_vm s) (mm_vm s')" and dom: "dom M' = dom (M m)"
    and f: "mm_obj s' = mm_obj s" "vma_obj s' = vma_obj s" "vma_links s' = vma_links s" "vma_cachep s' = vma_cachep s"
  shows "mms_inv P' K live s' H S rt as (M(m := M')) X"
proof -
  have sp: "space_ok s H (live (vma_cachep s)) m (rt m) (as m) (M m) (X m)" using inv m by (simp add: mms_inv_def)
  then have H: "H = H - X m \<union> X m" by (auto simp: space_ok_def)
  have "space_ok s' H (live (vma_cachep s)) m (rt m) (as m) M' (X m)"
    using sp us dom same f unfolding space_ok_def vmas_ok_def area_pages_def user_space_def by (auto simp: vm_same_def)
  then have "mms_inv P' K live s' H S rt (as(m := as m)) (M(m := M')) (X(m := X m))"
    by (intro mms_inv_update [OF inv m _ H, where N = "{}"]) (use us same f in \<open>auto simp: user_space_def vm_same_def same_out_def\<close>)
  then show ?thesis by simp
qed

lemma mms_inv_user_space:
  assumes "mms_inv P K live s H S rt as M X" and "m \<in> S"
  shows "user_space P K live (mm_vm s) H (rt m) (M m) (X m)" "mm_root m s = Some (rt m)"
proof -
  have sp: "space_ok s H (live (vma_cachep s)) m (rt m) (as m) (M m) (X m)" and tb: "tables P K live (mm_vm s) H"
    using assms by (simp_all add: mms_inv_def)
  then show "user_space P K live (mm_vm s) H (rt m) (M m) (X m)" by (simp add: user_space_def space_ok_def)
  show "mm_root m s = Some (rt m)" using sp mm_root_ok [OF tb, of "rt m" m] by (auto simp: space_ok_def)
qed

lemma map_one:
  assumes inv: "mms_inv P K live s H S rt as M X" and m: "m \<in> S" and p: "(p, 0) \<in> P" and n: "n + 1 < 2 ^ 35" "M m n = Some e0"
  shows "\<exists>v'. mmap_pages (rt m) (vaddr_of n) [p] flags (mm_vm s) = Some v' \<and>
    mms_inv P K live (upd_vm (flush_tlb_addr w v') s) H S rt as (M(m := (M m)(n \<mapsto> map_entry (vm_mem v') flags p))) X \<and>
    refcount p v' = refcount p (mm_vm s) + 1 \<and> (\<forall>q. q \<noteq> p \<longrightarrow> refcount q v' = refcount q (mm_vm s))"
proof -
  note us = mms_inv_user_space(1) [OF inv m]
  obtain v' where v': "mmap_pages (rt m) (vaddr_of n) [p] flags (mm_vm s) = Some v'"
    "user_space P K live v' H (rt m) ((M m)(n \<mapsto> map_entry (vm_mem (mm_vm s)) flags p)) (X m)" "refcount p v' = refcount p (mm_vm s) + 1"
    "\<forall>q. q \<noteq> p \<longrightarrow> refcount q v' = refcount q (mm_vm s)" "vm_same (H - X m) (mm_vm s) v'" "\<forall>q. page_paddr (vm_mem v') q = page_paddr (vm_mem (mm_vm s)) q"
    using mmap_page_ok [OF us p n, of flags] by blast
  have e: "map_entry (vm_mem (mm_vm s)) flags p = map_entry (vm_mem v') flags p" using v'(6) unfolding map_entry_def by metis
  have "dom ((M m)(n \<mapsto> x)) = dom (M m)" for x using n(2) by auto
  then have "mms_inv P K live (upd_vm (flush_tlb_addr w v') s) H S rt as (M(m := (M m)(n \<mapsto> map_entry (vm_mem v') flags p))) X"
    by (intro mms_inv_entry [OF inv m]) (use v'(2,5) e in \<open>simp_all add: user_space_def\<close>)
  then show ?thesis using v' by blast
qed

section \<open>The area of an address\<close>

definition covers :: "mms \<Rightarrow> u64 \<Rightarrow> nat \<Rightarrow> bool" where
  "covers s addr a \<longleftrightarrow> vma_begin (vma_obj s a) \<le> addr \<and> addr < vma_end (vma_obj s a)"

lemma covers_page:
  assumes "addr < 2 ^ 47" and "page_aligned (vma_begin (vma_obj s a))" "page_aligned (vma_end (vma_obj s a))"
  shows "overlaps s (vaddr_of (first_page addr)) (vaddr_of (first_page addr) + 1) a \<longleftrightarrow> covers s addr a"
    "covers s addr a \<longleftrightarrow> first_page (vma_begin (vma_obj s a)) \<le> first_page addr \<and> first_page addr < last_page (vma_end (vma_obj s a))"
proof -
  let ?n = "first_page addr"
  have "unat addr < 2 ^ 47" using assms(1) unat_exp2 [of 47] by (simp add: word_less_nat_alt)
  then have n: "?n < 2 ^ 35" by (simp add: first_page_def)
  then have u: "unat (vaddr_of ?n) = 4096 * ?n" by (intro vaddr_of_unat) simp
  have "unat (vaddr_of ?n + 1) = 4096 * ?n + 1" using n by (subst unat_plus_simple [THEN iffD1]) (simp_all add: u word_le_nat_alt unat_word_ariths del: of_nat_mult)
  note u = u this
  obtain k l where kl: "unat (vma_begin (vma_obj s a)) = 4096 * k" "unat (vma_end (vma_obj s a)) = 4096 * l"
    using assms(2,3) by (auto simp: page_aligned_def elim!: dvdE)
  have p: "first_page (vma_begin (vma_obj s a)) = k" "last_page (vma_end (vma_obj s a)) = l" by (simp_all add: first_page_def last_page_def kl)
  show c: "covers s addr a \<longleftrightarrow> first_page (vma_begin (vma_obj s a)) \<le> ?n \<and> ?n < last_page (vma_end (vma_obj s a))"
    unfolding p covers_def word_le_nat_alt word_less_nat_alt kl first_page_def by (auto simp: less_eq_div_iff_mult_less_eq div_less_iff_less_mult)
  show "overlaps s (vaddr_of ?n) (vaddr_of ?n + 1) a \<longleftrightarrow> covers s addr a"
    unfolding c p overlaps_def word_less_nat_alt u kl by auto
qed

lemma covers_unique:
  assumes "vmas_ok s m as" and "a \<in> set as" "b \<in> set as" and "covers s addr a" "covers s addr b"
  shows "a = b"
proof (rule ccontr)
  assume ne: "a \<noteq> b"
  have R: "sorted_wrt (\<lambda>a b. vma_end (vma_obj s a) \<le> vma_begin (vma_obj s b)) as" using assms(1) by (simp add: vmas_ok_def)
  obtain i j where ij: "i < length as" "as ! i = a" "j < length as" "as ! j = b" using assms(2,3) by (auto simp: in_set_conv_nth)
  then have "vma_end (vma_obj s a) \<le> vma_begin (vma_obj s b) \<or> vma_end (vma_obj s b) \<le> vma_begin (vma_obj s a)"
    using ne sorted_wrt_nth_less [OF R, of i j] sorted_wrt_nth_less [OF R, of j i] by (cases i j rule: linorder_cases) auto
  then show False using assms(4,5) by (auto simp: covers_def)
qed

lemma fault_lookup:
  assumes sp: "space_ok s H V m r as M X" and addr: "addr < 2 ^ 47"
  shows "\<exists>a par pl. lookup_vma_link m (vaddr_of (first_page addr)) (vaddr_of (first_page addr) + 1) s = Some (a, par, pl) \<and>
    (a \<noteq> 0 \<and> a \<in> set as \<and> covers s addr a \<and> first_page addr \<in> dom M \<and> vma_fault (vma_obj s a) = Anon_page_fault \<or> a = 0 \<and> (\<forall>b \<in> set as. \<not> covers s addr b))"
proof -
  let ?w = "vaddr_of (first_page addr)"
  have vo: "vmas_ok s m as" and al: "\<And>a. a \<in> set as \<Longrightarrow> page_aligned (vma_begin (vma_obj s a))" "\<And>a. a \<in> set as \<Longrightarrow> page_aligned (vma_end (vma_obj s a))"
    "\<And>a. a \<in> set as \<Longrightarrow> vma_fault (vma_obj s a) = Anon_page_fault" and dom: "dom M = area_pages s as" using sp by (auto simp: space_ok_def)
  have "unat addr < 2 ^ 47" using addr unat_exp2 [of 47] by (simp add: word_less_nat_alt)
  then have "first_page addr < 2 ^ 35" by (simp add: first_page_def)
  then have lt: "?w < ?w + 1" using vaddr_of_unat [of "first_page addr"] by (simp add: word_less_nat_alt unat_word_ariths del: of_nat_mult)
  obtain a par pl where l: "lookup_vma_link m ?w (?w + 1) s = Some (a, par, pl)"
    "a \<noteq> 0 \<and> a \<in> set as \<and> overlaps s ?w (?w + 1) a \<or> a = 0 \<and> (\<forall>b \<in> set as. \<not> overlaps s ?w (?w + 1) b)"
    using lookup_vma_link_ok [OF vo lt] by blast
  have c: "overlaps s ?w (?w + 1) b \<longleftrightarrow> covers s addr b" if "b \<in> set as" for b by (rule covers_page(1) [OF addr al(1) [OF that] al(2) [OF that]])
  have d: "first_page addr \<in> dom M" if "b \<in> set as" "covers s addr b" for b
    unfolding dom area_pages_def using covers_page(2) [OF addr al(1) [OF that(1)] al(2) [OF that(1)]] that by auto
  from l(2) have "a \<noteq> 0 \<and> a \<in> set as \<and> covers s addr a \<and> first_page addr \<in> dom M \<and> vma_fault (vma_obj s a) = Anon_page_fault \<or>
      a = 0 \<and> (\<forall>b \<in> set as. \<not> covers s addr b)"
  proof (elim disjE conjE)
    assume "a \<noteq> 0" "a \<in> set as" "overlaps s ?w (?w + 1) a"
    then show ?thesis using c [of a] d [of a] al(3) [of a] by simp
  next
    assume "a = 0" "\<forall>b \<in> set as. \<not> overlaps s ?w (?w + 1) b"
    then show ?thesis using c by simp
  qed
  then show ?thesis using l(1) by (intro exI conjI)
qed

section \<open>The handler\<close>

lemma refs_map:
  assumes "refs_ok D refs v" and "p \<in> D" and "size refs + 1 < 2 ^ 64"
    and "refcount p v' = refcount p v + 1" "\<forall>q. q \<noteq> p \<longrightarrow> refcount q v' = refcount q v"
  shows "refs_ok D (add_mset p refs) v'"
  unfolding refs_ok_def
proof (intro conjI ballI)
  fix q assume "q \<in> D"
  then have "refcount q v = of_nat (count refs q)" using assms(1) by (simp add: refs_ok_def)
  then show "refcount q v' = of_nat (count (add_mset p refs) q)" using assms(4) assms(5) [rule_format, of q] by (cases "q = p") simp_all
qed (use assms in \<open>auto simp: refs_ok_def\<close>)

lemma refs_one:
  assumes "refs_ok D refs v" and "p \<in> D"
  shows "refcount p v = 1 \<longleftrightarrow> count refs p = 1"
proof -
  have "count refs p < 2 ^ 64" using assms(1) count_le_size [of refs p] by (simp add: refs_ok_def)
  then have "unat (of_nat (count refs p) :: u64) = count refs p" by (rule unat_of_nat64)
  moreover have "refcount p v = of_nat (count refs p)" using assms by (simp add: refs_ok_def)
  ultimately show ?thesis by (metis unat_1 word_unat_eq_iff)
qed

text \<open>A read maps the zero page.\<close>

lemma anon_fault_read_ok:
  assumes inv: "mms_inv (held P D) K live s H S rt as M X" and m: "m \<in> S" and rf: "refs_ok D refs (mm_vm s)" and z: "zero_page s \<in># refs"
    and sz: "size refs + 1 < 2 ^ 64" and n: "n + 1 < 2 ^ 35" "n \<in> dom (M m)"
  shows "\<exists>s'. anon_page_fault m a (vaddr_of n) VMA_ACCESS_READ s = Some (0, s') \<and>
    mms_inv (held P D) K live s' H S rt as (M(m := (M m)(n \<mapsto> map_entry (vm_mem (mm_vm s')) PTE_USER (zero_page s)))) X \<and>
    refs_ok D (add_mset (zero_page s) refs) (mm_vm s') \<and> page_data s' = page_data s"
proof -
  have zD: "zero_page s \<in> D" using rf z by (auto simp: refs_ok_def)
  then have z0: "(zero_page s, 0) \<in> held P D" by simp
  obtain e where e: "M m n = Some e" using n(2) by auto
  obtain v' where v': "mmap_pages (rt m) (vaddr_of n) [zero_page s] PTE_USER (mm_vm s) = Some v'"
    "mms_inv (held P D) K live (upd_vm (flush_tlb_addr (vaddr_of n) v') s) H S rt as (M(m := (M m)(n \<mapsto> map_entry (vm_mem v') PTE_USER (zero_page s)))) X"
    "refcount (zero_page s) v' = refcount (zero_page s) (mm_vm s) + 1" "\<forall>q. q \<noteq> zero_page s \<longrightarrow> refcount q v' = refcount q (mm_vm s)"
    using map_one [OF inv m z0 n(1) e] by blast
  have "anon_page_fault m a (vaddr_of n) VMA_ACCESS_READ s = Some (0, upd_vm (flush_tlb_addr (vaddr_of n) v') s)"
    using mms_inv_user_space(2) [OF inv m] v'(1) by (simp add: anon_page_fault_def del: of_nat_mult)
  moreover have "refs_ok D (add_mset (zero_page s) refs) v'" by (rule refs_map [OF rf zD sz v'(3,4)])
  ultimately show ?thesis using v'(2) by (intro exI [of _ "upd_vm (flush_tlb_addr (vaddr_of n) v') s"]) (simp add: upd_vm_def)
qed

lemma held_insert: "held P (insert p D) = insert (p, 0) (held P D)"
  by auto

text \<open>Putting the page \<open>p\<close> behind the faulting address with the right to write.\<close>

definition put_writable :: "(page_ptr \<times> nat) set \<Rightarrow> nat set \<Rightarrow> (nat \<Rightarrow> nat set) \<Rightarrow> mms \<Rightarrow> nat set \<Rightarrow> nat set \<Rightarrow> (nat \<Rightarrow> nat) \<Rightarrow> (nat \<Rightarrow> nat list) \<Rightarrow>
    (nat \<Rightarrow> nat \<rightharpoonup> pte_t) \<Rightarrow> (nat \<Rightarrow> nat set) \<Rightarrow> nat \<Rightarrow> nat \<Rightarrow> page_ptr \<Rightarrow> bool" where
  "put_writable P K live s' H S rt as M X m n p \<longleftrightarrow>
     mms_inv P K live s' H S rt as (M(m := (M m)(n \<mapsto> map_entry (vm_mem (mm_vm s')) (PTE_USER OR PTE_WRITE) p))) X"

text \<open>A write where no page is: a new page, all zeros.\<close>

lemma anon_fault_new_ok:
  assumes inv: "mms_inv (held P D) K live s H S rt as M X" and m: "m \<in> S" and rf: "refs_ok D refs (mm_vm s)"
    and sz: "size refs + 1 < 2 ^ 64" and n: "n + 1 < 2 ^ 35" "M m n = Some e" "\<not> pte_present e" and perm: "vma_perm (vma_obj s a) AND VMA_PERM_WRITE \<noteq> 0"
  shows "\<exists>rc s'. anon_page_fault m a (vaddr_of n) VMA_ACCESS_WRITE s = Some (rc, s') \<and>
    (rc = - ENOMEM \<and> s' = s \<or> rc = 0 \<and> (\<exists>p. p \<notin> D \<and> put_writable (held P (insert p D)) K live s' H S rt as M X m n p \<and>
       refs_ok (insert p D) (add_mset p refs) (mm_vm s') \<and> page_data s' = (page_data s)(p := (\<lambda>_. 0))))"
proof -
  note us = mms_inv_user_space [OF inv m]
  have tb: "tables (held P D) K live (mm_vm s) H" using inv by (simp add: mms_inv_def)
  have old: "mapped_page m (vaddr_of n) s = Some None" using mapped_page_loop_ok [OF us(1) n(1,2)] us(2) n(3) by (simp add: mapped_page_def del: of_nat_mult)
  obtain r mem where al: "alloc_pages 0 (vm_mem (mm_vm s)) = Some (r, mem)" "case r of None \<Rightarrow> upd_vm_mem (\<lambda>_. mem) (mm_vm s) = mm_vm s
    | Some p \<Rightarrow> (p, 0) \<notin> held P D \<and> tables (insert (p, 0) (held P D)) K live (upd_vm_mem (\<lambda>_. mem) (mm_vm s)) H \<and> vm_same H (mm_vm s) (upd_vm_mem (\<lambda>_. mem) (mm_vm s)) \<and>
        vm_pt (upd_vm_mem (\<lambda>_. mem) (mm_vm s)) = vm_pt (mm_vm s) \<and> (\<forall>q. (q, 0) \<in> held P D \<longrightarrow> refcount q (upd_vm_mem (\<lambda>_. mem) (mm_vm s)) = refcount q (mm_vm s))"
    using alloc_page_held [OF tb] by blast
  let ?v1 = "upd_vm_mem (\<lambda>_. mem) (mm_vm s)"
  show ?thesis
  proof (cases r)
    case None
    then have "upd_vm ?v1 s = s" using al(2) by (simp add: upd_vm_def)
    then show ?thesis using None al(1) old us(2) perm by (simp add: anon_page_fault_def Let_def del: of_nat_mult)
  next
    case (Some p)
    let ?P = "held P (insert p D)" and ?v2 = "set_refcount p 0 ?v1"
    let ?s = "(upd_vm ?v1 s)\<lparr>page_data := (page_data s)(p := (\<lambda>_. 0))\<rparr>"
    have p: "p \<notin> D" "tables ?P K live ?v1 H" "vm_same H (mm_vm s) ?v1" "\<And>q. q \<in> D \<Longrightarrow> refcount q ?v1 = refcount q (mm_vm s)"
      using al(2) Some by (auto simp: held_insert)
    have p0: "(p, 0) \<in> ?P" by simp
    note sr = set_refcount_held [OF p(2) p0, where u = 0]
    have inv2: "mms_inv ?P K live (upd_vm ?v2 ?s) H S rt as M X"
      by (rule mms_inv_vm [OF inv]) (use sr p(3) in \<open>auto simp: vm_same_def upd_vm_def\<close>)
    have rf2: "refs_ok (insert p D) refs ?v2"
    proof -
      have "count refs p = 0" using rf p(1) by (auto simp: refs_ok_def count_eq_zero_iff)
      moreover have "refcount q ?v2 = of_nat (count refs q)" if "q \<in> D" for q using rf that p(1) p(4) [OF that] sr(6) [of q] by (auto simp: refs_ok_def)
      ultimately show ?thesis using rf sr(5) unfolding refs_ok_def by auto
    qed
    obtain v' where v': "mmap_pages (rt m) (vaddr_of n) [p] (PTE_USER OR PTE_WRITE) ?v2 = Some v'"
      "mms_inv ?P K live (upd_vm (flush_tlb_addr (vaddr_of n) v') ?s) H S rt as (M(m := (M m)(n \<mapsto> map_entry (vm_mem v') (PTE_USER OR PTE_WRITE) p))) X"
      "refcount p v' = refcount p ?v2 + 1" "\<forall>q. q \<noteq> p \<longrightarrow> refcount q v' = refcount q ?v2"
      using map_one [OF inv2 m p0 n(1,2), of "PTE_USER OR PTE_WRITE" "vaddr_of n"] unfolding upd_vm_simps by blast
    have rf3: "refs_ok (insert p D) (add_mset p refs) v'" by (rule refs_map [OF rf2 insertI1 sz v'(3,4)])
    have "anon_page_fault m a (vaddr_of n) VMA_ACCESS_WRITE s = Some (0, upd_vm (flush_tlb_addr (vaddr_of n) v') ?s)"
      using al(1) Some old us(2) perm v'(1) by (simp add: anon_page_fault_def Let_def upd_vm_def del: of_nat_mult)
    then show ?thesis using v'(2) rf3 p(1) unfolding put_writable_def
      by (intro exI [of _ 0] exI [of _ "upd_vm (flush_tlb_addr (vaddr_of n) v') ?s"] conjI disjI2 exI [of _ p])
        (simp_all add: upd_vm_def del: of_nat_mult)
  qed
qed

lemma put_page_shared:
  assumes tb: "tables (held P D) K live v H" and rf: "refs_ok D refs v" and q: "q \<in># refs - {#q#}"
  shows "put_page q v = set_refcount q (refcount q v - 1) v"
proof -
  have qD: "q \<in> D" using rf in_diffD [OF q] by (auto simp: refs_ok_def)
  then have q0: "(q, 0) \<in> held P D" by simp
  have c: "refcount q v = of_nat (count refs q)" "1 < count refs q" "size refs < 2 ^ 64" using rf qD q by (auto simp: refs_ok_def in_diff_count)
  then have "count refs q < 2 ^ 64" using count_le_size [of refs q] by linarith
  then have "unat (refcount q v) = count refs q" unfolding c(1) by (rule unat_of_nat64)
  then have "refcount q v - 1 \<noteq> 0" using c(2) by (metis eq_iff_diff_eq_0 less_irrefl unat_1)
  then show ?thesis using set_refcount_held(5) [OF tb q0] by (simp add: put_page_def Let_def)
qed

text \<open>A write to a page: with one reference it stays, otherwise it is replaced by a copy and loses a reference.\<close>

lemma put_old_ok:
  assumes inv: "mms_inv (held P D) K live s H S rt as M X" and rf: "refs_ok D refs (mm_vm s)" and q: "q \<in># refs - {#q#}" and dj: "P \<inter> (\<lambda>p. (p, 0)) ` D = {}"
  shows "mms_inv (held P D) K live (upd_vm (put_page q (mm_vm s)) s) H S rt as M X" "refs_ok D (refs - {#q#}) (put_page q (mm_vm s))"
    "map_entry (vm_mem (put_page q (mm_vm s))) flags p = map_entry (vm_mem (mm_vm s)) flags p"
proof -
  have tb: "tables (held P D) K live (mm_vm s) H" using inv by (simp add: mms_inv_def)
  note pp = put_page_ok [OF tb rf in_diffD [OF q] dj, unfolded if_P [OF q]]
  show "mms_inv (held P D) K live (upd_vm (put_page q (mm_vm s)) s) H S rt as M X" by (rule mms_inv_vm [OF inv]) (use pp in simp_all)
  show "refs_ok D (refs - {#q#}) (put_page q (mm_vm s))" by (rule pp(2))
  show "map_entry (vm_mem (put_page q (mm_vm s))) flags p = map_entry (vm_mem (mm_vm s)) flags p"
    unfolding map_entry_def put_page_shared [OF tb rf q] page_paddr_refcount ..
qed

lemma anon_fault_copy_ok:
  assumes inv: "mms_inv (held P D) K live s H S rt as M X" and m: "m \<in> S" and dj: "P \<inter> (\<lambda>p. (p, 0)) ` D = {}" and rf: "refs_ok D refs (mm_vm s)"
    and sz: "size refs + 1 < 2 ^ 64" and n: "n + 1 < 2 ^ 35" "M m n = Some e" "pte_present e" "pte_page e (mm_vm s) = Some q" "q \<in># refs"
    and perm: "vma_perm (vma_obj s a) AND VMA_PERM_WRITE \<noteq> 0"
  shows "\<exists>rc s'. anon_page_fault m a (vaddr_of n) VMA_ACCESS_WRITE s = Some (rc, s') \<and>
    (if count refs q = 1
     then rc = 0 \<and> put_writable (held P D) K live s' H S rt as M X m n q \<and> refs_ok D refs (mm_vm s') \<and> page_data s' = page_data s
     else rc = - ENOMEM \<and> s' = s \<or> rc = 0 \<and> (\<exists>p. p \<notin> D \<and> put_writable (held P (insert p D)) K live s' H S rt as M X m n p \<and>
       refs_ok D (refs - {#q#}) (mm_vm s') \<and> page_data s' = (page_data s)(p := page_data s q)))"
proof -
  note us = mms_inv_user_space [OF inv m]
  have tb: "tables (held P D) K live (mm_vm s) H" using inv by (simp add: mms_inv_def)
  have old: "mapped_page m (vaddr_of n) s = Some (Some q)" using mapped_page_loop_ok [OF us(1) n(1,2)] us(2) n(3,4) by (simp add: mapped_page_def del: of_nat_mult)
  have qD: "q \<in> D" using rf n(5) by (auto simp: refs_ok_def)
  note one = refs_one [OF rf qD]
  let ?fl = "PTE_USER OR PTE_WRITE" and ?w = "vaddr_of n"
  have start: "anon_page_fault m a ?w VMA_ACCESS_WRITE s = do {
      (new, s1) \<leftarrow> copy_page q s;
      (case new of None \<Rightarrow> Some (- ENOMEM, s1) | Some p \<Rightarrow> do {
         v \<leftarrow> mmap_pages (rt m) ?w [p] ?fl (mm_vm s1);
         Some (0, upd_vm (put_page q (flush_tlb_addr ?w v)) s1) }) }"
    using old us(2) perm by (simp add: anon_page_fault_def del: of_nat_mult)
  show ?thesis
  proof (cases "count refs q = 1")
    case True
    have q0: "(q, 0) \<in> held P D" using qD by simp
    obtain v' where v': "mmap_pages (rt m) ?w [q] ?fl (mm_vm s) = Some v'"
      "mms_inv (held P D) K live (upd_vm (flush_tlb_addr ?w v') s) H S rt as (M(m := (M m)(n \<mapsto> map_entry (vm_mem v') ?fl q))) X"
      "refcount q v' = refcount q (mm_vm s) + 1" "\<forall>p. p \<noteq> q \<longrightarrow> refcount p v' = refcount p (mm_vm s)"
      using map_one [OF inv m q0 n(1,2), of ?fl ?w] by blast
    have rf': "refs_ok D (add_mset q refs) (mm_vm (upd_vm (flush_tlb_addr ?w v') s))" using refs_map [OF rf qD sz v'(3,4)] by simp
    have q': "q \<in># add_mset q refs - {#q#}" using n(5) by simp
    note po = put_old_ok [OF v'(2) rf' q' dj]
    have call: "anon_page_fault m a ?w VMA_ACCESS_WRITE s = Some (0, upd_vm (put_page q (flush_tlb_addr ?w v')) s)"
      unfolding start copy_page_def using True one v'(1) by simp
    show ?thesis by (rule exI [of _ 0], rule exI [of _ "upd_vm (put_page q (flush_tlb_addr ?w v')) s"], rule conjI [OF call], subst if_P [OF True])
        (use po in \<open>simp add: put_writable_def upd_vm_def\<close>)
  next
    case False
    obtain r mem where al: "alloc_pages 0 (vm_mem (mm_vm s)) = Some (r, mem)" "case r of None \<Rightarrow> upd_vm_mem (\<lambda>_. mem) (mm_vm s) = mm_vm s
      | Some p \<Rightarrow> (p, 0) \<notin> held P D \<and> tables (insert (p, 0) (held P D)) K live (upd_vm_mem (\<lambda>_. mem) (mm_vm s)) H \<and> vm_same H (mm_vm s) (upd_vm_mem (\<lambda>_. mem) (mm_vm s)) \<and>
          vm_pt (upd_vm_mem (\<lambda>_. mem) (mm_vm s)) = vm_pt (mm_vm s) \<and> (\<forall>q. (q, 0) \<in> held P D \<longrightarrow> refcount q (upd_vm_mem (\<lambda>_. mem) (mm_vm s)) = refcount q (mm_vm s))"
      using alloc_page_held [OF tb] by blast
    let ?v1 = "upd_vm_mem (\<lambda>_. mem) (mm_vm s)"
    show ?thesis
    proof (cases r)
      case None
      then have "upd_vm ?v1 s = s" using al(2) by (simp add: upd_vm_def)
      then have "anon_page_fault m a ?w VMA_ACCESS_WRITE s = Some (- ENOMEM, s)"
        unfolding start copy_page_def using None al(1) False one by simp
      then show ?thesis using False by simp
    next
      case (Some p)
      let ?s = "(upd_vm ?v1 s)\<lparr>page_data := (page_data s)(p := page_data s q)\<rparr>" and ?P = "insert (p, 0) P"
      have p: "p \<notin> D" "tables (held ?P D) K live ?v1 H" "vm_same H (mm_vm s) ?v1" "\<And>q. q \<in> D \<Longrightarrow> refcount q ?v1 = refcount q (mm_vm s)"
        using al(2) Some by auto
      have p0: "(p, 0) \<in> held ?P D" by simp
      have inv1: "mms_inv (held ?P D) K live ?s H S rt as M X" by (rule mms_inv_vm [OF inv]) (use p in \<open>simp_all add: upd_vm_def\<close>)
      obtain v' where v': "mmap_pages (rt m) ?w [p] ?fl (mm_vm ?s) = Some v'"
        "mms_inv (held ?P D) K live (upd_vm (flush_tlb_addr ?w v') ?s) H S rt as (M(m := (M m)(n \<mapsto> map_entry (vm_mem v') ?fl p))) X"
        "\<forall>q. q \<noteq> p \<longrightarrow> refcount q v' = refcount q (mm_vm ?s)"
        using map_one [OF inv1 m p0 n(1,2), of ?fl ?w] by blast
      have "refcount x v' = refcount x (mm_vm s)" if "x \<in> D" for x using v'(3) [rule_format, of x] p(1) p(4) [OF that] that by (auto simp: upd_vm_def)
      then have rf': "refs_ok D refs (mm_vm (upd_vm (flush_tlb_addr ?w v') ?s))" using rf by (simp add: refs_ok_def)
      have "0 < count refs q" using n(5) by (simp only: count_greater_zero_iff)
      then have "1 < count refs q" using False by linarith
      then have q': "q \<in># refs - {#q#}" by (simp add: in_diff_count)
      have dj': "?P \<inter> (\<lambda>p. (p, 0)) ` D = {}" using dj p(1) by auto
      note po = put_old_ok [OF v'(2) rf' q' dj']
      have call: "anon_page_fault m a ?w VMA_ACCESS_WRITE s = Some (0, upd_vm (put_page q (flush_tlb_addr ?w v')) ?s)"
        unfolding start copy_page_def using False one al(1) Some v'(1) by (simp add: Let_def upd_vm_def)
      show ?thesis
        by (rule exI [of _ 0], rule exI [of _ "upd_vm (put_page q (flush_tlb_addr ?w v')) ?s"], rule conjI [OF call], subst if_not_P [OF False],
            rule disjI2, rule conjI [OF refl], rule exI [of _ p]) (use po p(1) in \<open>simp add: put_writable_def upd_vm_def held_insert\<close>)
    qed
  qed
qed

section \<open>Properties\<close>

text \<open>C37: a page fault in an address space always returns. Outside of all areas, or for a write to an area that
  cannot be written, it fails with EINVAL and changes nothing. A read maps the zero page without the right to write. A write
  to a page that is not there maps a new page of zeros with one reference; a write to a page with a single reference
  makes it writable; a write to a shared page maps a new page with the same data in its place and drops one
  reference of the old page. Without memory a write fails with ENOMEM and changes nothing. All other entries,
  areas and address spaces are as they were.\<close>

theorem mm_page_fault_correct:
  assumes inv: "mms_inv (held P D) K live s H S rt as M X" and m: "m \<in> S" "m \<noteq> 0" and dj: "P \<inter> (\<lambda>p. (p, 0)) ` D = {}"
    and rf: "refs_ok D refs (mm_vm s)" "size refs + 1 < 2 ^ 64" and z: "zero_page s \<in># refs" and addr: "addr < 2 ^ 47 - 4096"
    and pg: "\<forall>e. M m (first_page addr) = Some e \<longrightarrow> pte_present e \<longrightarrow> (\<exists>q \<in># refs. pte_page e (mm_vm s) = Some q)"
  defines "n \<equiv> first_page addr"
  shows "\<exists>rc s'. mm_page_fault m addr access s = Some (rc, s') \<and>
    (if \<not> (\<exists>a \<in> set (as m). covers s addr a \<and> (access = VMA_ACCESS_WRITE \<longrightarrow> vma_perm (vma_obj s a) AND VMA_PERM_WRITE \<noteq> 0))
     then rc = - EINVAL \<and> s' = s
     else if access = VMA_ACCESS_READ
     then rc = 0 \<and> refs_ok D (add_mset (zero_page s) refs) (mm_vm s') \<and> page_data s' = page_data s \<and>
       mms_inv (held P D) K live s' H S rt as (M(m := (M m)(n \<mapsto> map_entry (vm_mem (mm_vm s')) PTE_USER (zero_page s)))) X
     else (case if pte_present (the (M m n)) then pte_page (the (M m n)) (mm_vm s) else None of
         None \<Rightarrow> rc = - ENOMEM \<and> s' = s \<or> rc = 0 \<and> (\<exists>p. p \<notin> D \<and> put_writable (held P (insert p D)) K live s' H S rt as M X m n p \<and>
           refs_ok (insert p D) (add_mset p refs) (mm_vm s') \<and> page_data s' = (page_data s)(p := (\<lambda>_. 0)))
       | Some q \<Rightarrow> if count refs q = 1
         then rc = 0 \<and> put_writable (held P D) K live s' H S rt as M X m n q \<and> refs_ok D refs (mm_vm s') \<and> page_data s' = page_data s
         else rc = - ENOMEM \<and> s' = s \<or> rc = 0 \<and> (\<exists>p. p \<notin> D \<and> put_writable (held P (insert p D)) K live s' H S rt as M X m n p \<and>
           refs_ok D (refs - {#q#}) (mm_vm s') \<and> page_data s' = (page_data s)(p := page_data s q))))"
proof -
  have ua: "unat addr < 2 ^ 47 - 4096" using addr by (simp add: word_less_nat_alt)
  then have "addr < 2 ^ 47" using unat_exp2 [of 47] by (simp add: word_less_nat_alt)
  note addr' = this and al = user_range(3) [OF this order.refl, folded n_def, unfolded ALIGN_DOWN_def]
  have n1: "n + 1 < 2 ^ 35" using ua by (simp add: n_def first_page_def)
  have sp: "space_ok s H (live (vma_cachep s)) m (rt m) (as m) (M m) (X m)" using inv m(1) by (simp add: mms_inv_def)
  then have vo: "vmas_ok s m (as m)" by (simp add: space_ok_def)
  obtain a par pl where l: "lookup_vma_link m (vaddr_of n) (vaddr_of n + 1) s = Some (a, par, pl)"
    "a \<noteq> 0 \<and> a \<in> set (as m) \<and> covers s addr a \<and> n \<in> dom (M m) \<and> vma_fault (vma_obj s a) = Anon_page_fault \<or>
     a = 0 \<and> (\<forall>b \<in> set (as m). \<not> covers s addr b)" using fault_lookup [OF sp addr'] unfolding n_def by blast
  have start: "mm_page_fault m addr access s = (if a = 0 then Some (- EINVAL, s) else
      case vma_fault (vma_obj s a) of No_fault \<Rightarrow> None | Anon_page_fault \<Rightarrow> anon_page_fault m a (vaddr_of n) access s)"
    unfolding mm_page_fault_def Let_def al using l(1) m(2) by simp
  show ?thesis
  proof (cases "\<exists>a \<in> set (as m). covers s addr a \<and> (access = VMA_ACCESS_WRITE \<longrightarrow> vma_perm (vma_obj s a) AND VMA_PERM_WRITE \<noteq> 0)")
    case False
    have "mm_page_fault m addr access s = Some (- EINVAL, s)"
    proof (cases "a = 0")
      case False': False
      then have "access = VMA_ACCESS_WRITE" "vma_perm (vma_obj s a) AND VMA_PERM_WRITE = 0" using False l(2) by auto
      then show ?thesis using start False' l(2) by (simp add: anon_page_fault_def)
    qed (simp add: start)
    then show ?thesis using False by simp
  next
    case T: True
    then obtain b where b: "b \<in> set (as m)" "covers s addr b" "access = VMA_ACCESS_WRITE \<longrightarrow> vma_perm (vma_obj s b) AND VMA_PERM_WRITE \<noteq> 0" by blast
    then have a: "a \<noteq> 0" "a \<in> set (as m)" "covers s addr a" "n \<in> dom (M m)" "vma_fault (vma_obj s a) = Anon_page_fault" using l(2) by auto
    have "a = b" by (rule covers_unique [OF vo a(2) b(1) a(3) b(2)])
    then have perm: "access = VMA_ACCESS_WRITE \<longrightarrow> vma_perm (vma_obj s a) AND VMA_PERM_WRITE \<noteq> 0" using b(3) by simp
    have call: "mm_page_fault m addr access s = anon_page_fault m a (vaddr_of n) access s" using start a(1,5) by simp
    obtain e where e: "M m n = Some e" using a(4) by auto
    have ne: "(\<not> (\<exists>a \<in> set (as m). covers s addr a \<and> (access = VMA_ACCESS_WRITE \<longrightarrow> vma_perm (vma_obj s a) AND VMA_PERM_WRITE \<noteq> 0))) = False" using T by simp
    show ?thesis
    proof (cases access)
      case VMA_ACCESS_READ
      show ?thesis unfolding call ne if_False unfolding VMA_ACCESS_READ if_P [OF refl] using anon_fault_read_ok [OF inv m(1) rf(1) z rf(2) n1 a(4)] by blast
    next
      case VMA_ACCESS_WRITE
      have w: "vma_perm (vma_obj s a) AND VMA_PERM_WRITE \<noteq> 0" "(VMA_ACCESS_WRITE = VMA_ACCESS_READ) = False" using perm VMA_ACCESS_WRITE by simp_all
      show ?thesis
      proof (cases "pte_present e")
        case False
        show ?thesis unfolding call ne if_False unfolding VMA_ACCESS_WRITE w(2) if_False e option.sel if_not_P [OF False] option.case
          by (rule anon_fault_new_ok [OF inv m(1) rf n1 e False w(1)])
      next
        case True
        then obtain q where q: "pte_page e (mm_vm s) = Some q" "q \<in># refs" using pg e unfolding n_def by blast
        show ?thesis unfolding call ne if_False unfolding VMA_ACCESS_WRITE w(2) if_False e option.sel if_P [OF True] q(1) option.case
          by (rule anon_fault_copy_ok [OF inv m(1) dj rf n1 e True q w(1)])
      qed
    qed
  qed
qed

section \<open>Witnesses\<close>

text \<open>One address space with an area of one page.\<close>

definition one_area :: "nat \<Rightarrow> vm \<Rightarrow> mms" where
  "one_area a v = \<lparr>mm_vm = v, mm_obj = (\<lambda>_. zero_mm\<lparr>mm_pt := Some (0, 0), mm_vma := a\<rparr>), vma_obj = (\<lambda>_. new_vma 0 4096 0 1),
     vma_links = \<lparr>rb_left = (\<lambda>_. 0), rb_right = (\<lambda>_. 0), rb_parent = (\<lambda>_. 0), rb_color = (\<lambda>_. BLACK)\<rparr>,
     page_data = (\<lambda>_ _. 0), mm_cachep = 8, vma_cachep = 7, zero_page = (0, 4)\<rparr>"

lemma sample_area:
  obtains a v live where "mms_inv (held {} {(0, 4)}) {7} live (one_area a v) {..<4} {1} (\<lambda>_. 0) (\<lambda>_. [a]) (\<lambda>_. [0 \<mapsto> 0]) (\<lambda>_. {1, 2, 3})"
    "refs_ok {(0, 4)} {#(0, 4)#} v"
proof -
  let ?s = "one_area 0 sample_tables"
  have tb: "tables sample_page {7} (\<lambda>_. {}) (mm_vm ?s) {..<4}" using sample_tables_ok(1) by (simp add: one_area_def)
  obtain a v0 where a: "mm_cache_alloc 7 ?s = Some (a, upd_vm v0 ?s)" "vm_kept sample_page {..<4} (mm_vm ?s) v0"
    "if a = 0 then tables sample_page {7} (\<lambda>_. {}) v0 {..<4} else a \<notin> {} \<and> tables sample_page {7} ((\<lambda>_. {})(7 := {a})) v0 {..<4}"
    using mm_cache_alloc_ok [OF tb, of 7] by auto
  obtain T where T: "kmem_inv (sample_page \<union> (\<lambda>p. (p, 0)) ` T) (vm_kmem sample_tables) {7} (\<lambda>_. {})" using sample_tables_ok(1) by (auto simp: tables_def)
  have "\<not> out_of_pages table_mem"
  proof
    assume "out_of_pages table_mem"
    then have "(0, 5) \<notin> Pair (0 :: nat) ` {5..<8 :: nat}" by (rule out_of_pagesD [OF _ table_mem_ok(1)]) (unfold table_mem_ok(4), simp)
    then show False by (simp add: image_iff)
  qed
  then have a0: "a \<noteq> 0" using small_caches.alloc_spec [OF T, of 7] a(1)
    by (auto simp: mm_cache_alloc_def one_area_def sample_tables_def split: Option.bind_splits if_splits)
  let ?live = "(\<lambda>_. {})(7 := {a})"
  have t1: "tables sample_page {7} ?live v0 {..<4}" using a(3) a0 by simp
  have p1: "pfn2page (vm_mem v0) f = Some (0, f)" if "f < 4" for f
    using a(2) sample_tables_ok(2) [of f] that by (simp add: vm_kept_def one_area_def)
  let ?v = "set_refcount (0, 4) (of_nat 1) (sample_tree v0)"
  have k1: "(1 :: nat) < 2 ^ 64" by simp
  note r = sample_refs [OF sample_tree_space [OF t1 p1] k1]
  have pf: "pfn2page (vm_mem ?v) 0 = Some (0, 0)" using r(3) sample_tree_ok(4) [OF t1 p1] p1 [of 0] by simp
  have vo: "vmas_ok (one_area a ?v) 1 [a]" unfolding vmas_ok_def
    by (intro conjI exI [of _ "Node Leaf (a, BLACK) Leaf"])
      (use a0 in \<open>simp_all add: rbtree_def tree_at_def one_area_def zero_mm_def new_vma_def exI [of _ "Suc 0"]\<close>)
  have pg: "area_pages (one_area a ?v) [a] = {0}" by (simp add: area_pages_def one_area_def new_vma_def first_page_def last_page_def)
  have "mms_inv (held {} {(0, 4)}) {7} ?live (one_area a ?v) {..<4} {1} (\<lambda>_. 0) (\<lambda>_. [a]) (\<lambda>_. [0 \<mapsto> 0]) (\<lambda>_. {1, 2, 3})"
    using r(1) vo pg pf unfolding mms_inv_def space_ok_def user_space_def
    by (simp add: one_area_def zero_mm_def new_vma_def page_aligned_def)
  then show thesis using r(2) by (intro that) simp_all
qed

theorem mm_page_fault_correct_witness:
  "\<exists>a v s'. mm_page_fault 1 100 VMA_ACCESS_READ (one_area a v) = Some (0, s') \<and> refs_ok {(0, 4)} {#(0, 4), (0, 4)#} (mm_vm s') \<and>
     mm_page_fault 1 100 VMA_ACCESS_WRITE (one_area a v) = Some (- EINVAL, one_area a v)"
proof -
  obtain a v live where i: "mms_inv (held {} {(0, 4)}) {7} live (one_area a v) {..<4} {1} (\<lambda>_. 0) (\<lambda>_. [a]) (\<lambda>_. [0 \<mapsto> 0]) (\<lambda>_. {1, 2, 3})"
    "refs_ok {(0, 4)} {#(0, 4)#} v" by (rule sample_area)
  have n: "first_page 100 = 0" by (simp add: first_page_def)
  have c: "covers (one_area a v) 100 a" "vma_perm (vma_obj (one_area a v) a) = 0" by (simp_all add: covers_def one_area_def new_vma_def)
  have f: "mm_vm (one_area a v) = v" "zero_page (one_area a v) = (0, 4)" by (simp_all add: one_area_def)
  note th = mm_page_fault_correct [OF i(1), of 1 "{#(0, 4)#}" 100, unfolded n f]
  show ?thesis using th [of VMA_ACCESS_READ] th [of VMA_ACCESS_WRITE] i(2) c by auto
qed

end
