(* ===== verification/Threads_Inv.thy ===== *)
theory Threads_Inv
  imports Threads Mm_Fault
begin

text \<open>
  The table of threads is an index by pid, and creating a thread composes the allocators, the address spaces, the
  table and the scheduler: either everything a thread needs is there, or all is given back.
\<close>

section \<open>The descriptor of the task state segment\<close>

text \<open>The fields the processor reads from a descriptor.\<close>

definition desc_base :: "tss_desc \<Rightarrow> u64" where
  "desc_base d = (drop_bit 16 (td_low d) AND mask 24) OR push_bit 24 (drop_bit 56 (td_low d)) OR push_bit 32 (td_high d)"

definition desc_limit :: "tss_desc \<Rightarrow> u64" where
  "desc_limit d = (td_low d AND mask 16) OR push_bit 16 (drop_bit 48 (td_low d) AND mask 4)"

definition desc_access :: "tss_desc \<Rightarrow> u64" where
  "desc_access d = drop_bit 40 (td_low d) AND mask 8"

lemma bit_three: "bit (push_bit i 1 OR push_bit j 1 OR push_bit k 1 :: u64) n \<longleftrightarrow> n < 64 \<and> (n = i \<or> n = j \<or> n = k)"
  by (auto simp: bit_simps)

lemma bit_access: "bit (9 OR BIT_CONST 7 :: u64) n \<longleftrightarrow> n = 0 \<or> n = 3 \<or> n = 7"
  using bit_three [of 0 3 7 n] by (auto simp: BIT_CONST_def)

lemma bit_below: "f < 2 ^ k \<Longrightarrow> bit (of_nat f :: u64) n \<Longrightarrow> n < k"
proof -
  assume f: "f < 2 ^ k" "bit (of_nat f :: u64) n"
  then have "take_bit k f = f" by (simp add: take_bit_nat_eq_self_iff)
  moreover have "bit f n" using f(2) by (simp add: bit_simps)
  ultimately show "n < k" using bit_take_bit_iff [of k f n] by simp
qed

lemma setup_tss_desc_ok:
  assumes "limit < 2 ^ 20"
  shows "desc_base (setup_tss_desc limit b) = b" "desc_limit (setup_tss_desc limit b) = limit" "desc_access (setup_tss_desc limit b) = 0x89"
proof -
  have "unat limit < 2 ^ 20" using assms unat_exp2 [of 20] by (simp add: word_less_nat_alt)
  then have l: "n < 20" if "bit limit n" for n using that bit_below [of "unat limit" 20 n] by simp
  have p: "bit (limit AND BITS_CONST 15 0) n \<longleftrightarrow> n < 16 \<and> bit limit n" "bit (push_bit 16 (b AND BITS_CONST 23 0)) n \<longleftrightarrow> 16 \<le> n \<and> n < 40 \<and> bit b (n - 16)"
    "bit (push_bit 40 (9 OR BIT_CONST 7 :: u64)) n \<longleftrightarrow> n = 40 \<or> n = 43 \<or> n = 47"
    "bit (push_bit 32 (limit AND BITS_CONST 19 16)) n \<longleftrightarrow> 48 \<le> n \<and> n < 52 \<and> bit limit (n - 32)"
    "bit (push_bit 32 (b AND BITS_CONST 31 24)) n \<longleftrightarrow> 56 \<le> n \<and> n < 64 \<and> bit b (n - 32)" for n
    unfolding bit_push_bit_iff bit_and_iff bit_access by (auto simp: bit_BITS_CONST)
  have low: "bit (td_low (setup_tss_desc limit b)) n \<longleftrightarrow> n < 16 \<and> bit limit n \<or> 16 \<le> n \<and> n < 40 \<and> bit b (n - 16) \<or>
      (n = 40 \<or> n = 43 \<or> n = 47) \<or> 48 \<le> n \<and> n < 52 \<and> bit limit (n - 32) \<or> 56 \<le> n \<and> n < 64 \<and> bit b (n - 32)" for n
    unfolding setup_tss_desc_def tss_desc.select_convs bit_or_iff p by blast
  have high: "bit (td_high (setup_tss_desc limit b)) n \<longleftrightarrow> bit b (n + 32)" for n by (simp add: setup_tss_desc_def bit_simps add.commute)
  show "desc_base (setup_tss_desc limit b) = b"
  proof (rule bit_word_eqI)
    fix n assume "n < LENGTH(64)"
    then show "bit (desc_base (setup_tss_desc limit b)) n = bit b n"
      unfolding desc_base_def by (cases "n < 32"; cases "n < 24") (auto simp: bit_simps low high)
  qed
  show "desc_limit (setup_tss_desc limit b) = limit"
  proof (rule bit_word_eqI)
    fix n assume "n < LENGTH(64)"
    then show "bit (desc_limit (setup_tss_desc limit b)) n = bit limit n" using l [of n] by (auto simp: desc_limit_def bit_simps low)
  qed
  show "desc_access (setup_tss_desc limit b) = 0x89"
  proof -
    have "bit (desc_access (setup_tss_desc limit b)) n \<longleftrightarrow> bit (9 OR BIT_CONST 7 :: u64) n" for n
      unfolding bit_access unfolding desc_access_def bit_and_iff bit_drop_bit_eq comp_apply low bit_mask_iff by auto
    then have "desc_access (setup_tss_desc limit b) = 9 OR BIT_CONST 7" by (intro bit_eqI) simp
    then show ?thesis by (simp add: BIT_CONST_def)
  qed
qed

section \<open>The table of threads\<close>

abbreviation pid_table :: "procs \<Rightarrow> nat list \<Rightarrow> bool" where
  "pid_table s ns \<equiv> by_int.index (thread_pid s) (thr_links s) (thr_root s) ns"

lemma take_pid_fields [simp]:
  "thr_links (take_pid t s) = thr_links s" "thr_root (take_pid t s) = thr_root s" "next_pid (take_pid t s) = next_pid s + 1"
  "thread_pid (take_pid t s) = (thread_pid s)(t := next_pid s)"
  by (auto simp: take_pid_def upd_desc_def thread_pid_def)

definition set_pid :: "nat \<Rightarrow> int \<Rightarrow> procs \<Rightarrow> procs" where
  "set_pid t q s = upd_desc t (\<lambda>d. d\<lparr>td_pid := q\<rparr>) (s\<lparr>next_pid := q + 1\<rparr>)"

lemma set_pid_take [simp]: "set_pid t q (take_pid t s) = set_pid t q s"
  by (simp add: set_pid_def take_pid_def upd_desc_def)

lemma set_pid_fields [simp]:
  "thr_links (set_pid t q s) = thr_links s" "thr_root (set_pid t q s) = thr_root s" "next_pid (set_pid t q s) = q + 1"
  "thread_pid (set_pid t q s) = (thread_pid s)(t := q)" "pr_desc (set_pid t q s) = (pr_desc s)(t := (pr_desc s t)\<lparr>td_pid := q\<rparr>)"
  by (auto simp: set_pid_def upd_desc_def thread_pid_def)

text \<open>The first pid not in the table, from \<open>p\<close> on.\<close>

lemma register_loop_ok:
  assumes "pid_table s ns" and "t \<notin> set ns"
  shows "\<exists>par pl q. register_loop t (set_pid t p s) = Some (par, pl, set_pid t q s) \<and> p \<le> q \<and> q \<notin> thread_pid s ` set ns \<and>
    (\<forall>r. p \<le> r \<and> r < q \<longrightarrow> r \<in> thread_pid s ` set ns) \<and> lookup_thread_link q (set_pid t q s) = Some (0, par, pl)"
proof (induction "card {r \<in> thread_pid s ` set ns. p \<le> r}" arbitrary: p rule: less_induct)
  case less
  let ?s = "set_pid t p s"
  have tab: "pid_table ?s ns" using assms by (auto intro: by_int.index_key_cong)
  obtain x par pl where f: "lookup_thread_link p ?s = Some (x, par, pl)"
    using by_int.find_returns [OF tab, of p] by (auto simp: lookup_thread_link_def)
  show ?case
  proof (cases "x = 0")
    case True
    then have "p \<notin> thread_pid ?s ` set ns" using by_int.find_miss [OF tab, of p] f by (auto simp: lookup_thread_link_def)
    then have "p \<notin> thread_pid s ` set ns" using assms(2) by (auto simp: image_iff)
    moreover have "register_loop t ?s = Some (par, pl, ?s)" using f True by (subst register_loop.simps) simp
    ultimately show ?thesis using f True by (intro exI [of _ par] exI [of _ pl] exI [of _ p]) auto
  next
    case False
    then have x: "x \<in> set ns" "thread_pid ?s x = p" using by_int.find_hit [OF tab, of p x par pl] f by (auto simp: lookup_thread_link_def)
    then have pin: "p \<in> thread_pid s ` set ns" using assms(2) by (auto simp: image_iff split: if_splits)
    have e: "take_pid t ?s = set_pid t (p + 1) s" by (simp add: take_pid_def set_pid_def upd_desc_def)
    have "{r \<in> thread_pid s ` set ns. p + 1 \<le> r} \<subset> {r \<in> thread_pid s ` set ns. p \<le> r}" using pin by force
    then have "card {r \<in> thread_pid s ` set ns. p + 1 \<le> r} < card {r \<in> thread_pid s ` set ns. p \<le> r}" by (intro psubset_card_mono) auto
    from less(1) [OF this] obtain par' pl' q where q: "register_loop t (set_pid t (p + 1) s) = Some (par', pl', set_pid t q s)" "p + 1 \<le> q"
      "q \<notin> thread_pid s ` set ns" "\<forall>r. p + 1 \<le> r \<and> r < q \<longrightarrow> r \<in> thread_pid s ` set ns" "lookup_thread_link q (set_pid t q s) = Some (0, par', pl')" by blast
    have "register_loop t ?s = Some (par', pl', set_pid t q s)" using f False q(1) e by (subst register_loop.simps) simp
    moreover have "r \<in> thread_pid s ` set ns" if "p \<le> r \<and> r < q" for r using q(4) pin that by (cases "r = p") auto
    ultimately show ?thesis using q(2,3,5) by (intro exI [of _ par'] exI [of _ pl'] exI [of _ q]) auto
  qed
qed

lemma register_thread_ok:
  assumes "pid_table s ns" and "t \<notin> set ns" "t \<noteq> 0"
  shows "\<exists>h root q ns'. register_thread t s = Some ((set_pid t q s)\<lparr>thr_links := h, thr_root := root\<rparr>) \<and>
    by_int.index ((thread_pid s)(t := q)) h root ns' \<and> set ns' = insert t (set ns) \<and> next_pid s \<le> q \<and> q \<notin> thread_pid s ` set ns \<and>
    (\<forall>r. next_pid s \<le> r \<and> r < q \<longrightarrow> r \<in> thread_pid s ` set ns)"
proof -
  obtain par pl q where r: "register_loop t (take_pid t s) = Some (par, pl, set_pid t q s)" "next_pid s \<le> q" "q \<notin> thread_pid s ` set ns"
    "\<forall>r. next_pid s \<le> r \<and> r < q \<longrightarrow> r \<in> thread_pid s ` set ns" "lookup_thread_link q (set_pid t q s) = Some (0, par, pl)"
    using register_loop_ok [OF assms(1,2), of "next_pid s"] by (auto simp: set_pid_def take_pid_def)
  have key: "by_int.index ((thread_pid s)(t := q)) (thr_links s) (thr_root s) ns" using assms(1,2) by (auto intro: by_int.index_key_cong)
  have "q \<notin> (thread_pid s)(t := q) ` set ns" using r(3) assms(2) by (auto simp: image_iff)
  from by_int.find_absent [OF key this]
  obtain par' pl' where a: "rb_find (\<lambda>x. ((thread_pid s)(t := q)) x - q) (thr_links s) (thr_root s) 0 RootLink = Some (0, par', pl')"
    "\<forall>n key'. n \<noteq> 0 \<longrightarrow> n \<notin> set ns \<longrightarrow> key' n = q \<longrightarrow> (\<forall>m \<in> set ns. key' m = ((thread_pid s)(t := q)) m) \<longrightarrow>
      (\<exists>h' root' ns'. rb_insert n (rb_link n par' pl' (thr_links s, thr_root s)) = Some (h', root') \<and> by_int.index key' h' root' ns' \<and>
        set ns' = insert n (set ns) \<and> same_out (insert n (set ns)) (thr_links s) h')" by blast
  have "par' = par" "pl' = pl" using a(1) r(5) by (simp_all add: lookup_thread_link_def)
  then obtain h root ns' where i: "rb_insert t (rb_link t par pl (thr_links s, thr_root s)) = Some (h, root)"
    "by_int.index ((thread_pid s)(t := q)) h root ns'" "set ns' = insert t (set ns)"
    using a(2) [rule_format, OF assms(3,2), of "(thread_pid s)(t := q)"] by auto
  have "register_thread t s = Some ((set_pid t q s)\<lparr>thr_links := h, thr_root := root\<rparr>)" using r(1) i(1) by (simp add: register_thread_def)
  then show ?thesis using i(2,3) r(2-4) by blast
qed

lemma lookup_thread_ok:
  assumes "pid_table s ns"
  shows "\<exists>t. lookup_thread pid s = Some (t, if t \<noteq> 0 then get_thread t s else s) \<and>
    (if t = 0 then pid \<notin> thread_pid s ` set ns else t \<in> set ns \<and> thread_pid s t = pid)"
proof -
  obtain t par pl where f: "lookup_thread_link pid s = Some (t, par, pl)"
    using by_int.find_returns [OF assms, of pid] by (auto simp: lookup_thread_link_def)
  then have "if t = 0 then pid \<notin> thread_pid s ` set ns else t \<in> set ns \<and> thread_pid s t = pid"
    using by_int.find_miss [OF assms, of pid] by_int.find_hit [OF assms, of pid t par pl] by (auto simp: lookup_thread_link_def)
  then show ?thesis using f by (auto simp: lookup_thread_def)
qed

section \<open>Properties\<close>

text \<open>C39: registering a thread always ends: it gives the thread the first pid from the counter on that no thread in the table
  has, sets the counter behind it and links the thread into the table, which stays an index by pid.\<close>

theorem register_thread_correct:
  assumes "pid_table s ns" and "t \<notin> set ns" "t \<noteq> 0"
  shows "\<exists>s' ns'. register_thread t s = Some s' \<and> pid_table s' ns' \<and> set ns' = insert t (set ns) \<and>
    next_pid s \<le> thread_pid s' t \<and> thread_pid s' t \<notin> thread_pid s ` set ns \<and> next_pid s' = thread_pid s' t + 1 \<and>
    (\<forall>r. next_pid s \<le> r \<and> r < thread_pid s' t \<longrightarrow> r \<in> thread_pid s ` set ns) \<and>
    pr_desc s' = (pr_desc s)(t := (pr_desc s t)\<lparr>td_pid := thread_pid s' t\<rparr>)"
proof -
  obtain h root q ns' where r: "register_thread t s = Some ((set_pid t q s)\<lparr>thr_links := h, thr_root := root\<rparr>)"
    "by_int.index ((thread_pid s)(t := q)) h root ns'" "set ns' = insert t (set ns)" "next_pid s \<le> q" "q \<notin> thread_pid s ` set ns"
    "\<forall>r. next_pid s \<le> r \<and> r < q \<longrightarrow> r \<in> thread_pid s ` set ns" using register_thread_ok [OF assms] by blast
  have k: "thread_pid ((set_pid t q s)\<lparr>thr_links := h, thr_root := root\<rparr>) = (thread_pid s)(t := q)"
    using set_pid_fields(4) [of t q s] by (simp add: thread_pid_def fun_eq_iff)
  show ?thesis by (rule exI, rule exI, rule conjI [OF r(1)], unfold k) (use r(2-) in simp)
qed

text \<open>C40: the descriptor of the task state segment has the base and the limit it was made for at the places where the
  processor reads them, and the access byte of a present, available 64-bit segment of that kind.\<close>

theorem setup_tss_desc_correct:
  assumes "limit < 2 ^ 20"
  shows "desc_base (setup_tss_desc limit b) = b \<and> desc_limit (setup_tss_desc limit b) = limit \<and> desc_access (setup_tss_desc limit b) = 0x89"
  using setup_tss_desc_ok [OF assms] by simp

section \<open>Witnesses\<close>

theorem setup_tss_desc_correct_witness:
  "desc_base (setup_tss_desc (sizeof_tss - 1) HIGH_BASE) = HIGH_BASE \<and> desc_limit (setup_tss_desc (sizeof_tss - 1) HIGH_BASE) = sizeof_tss - 1"
proof -
  have "sizeof_tss - 1 < (2 ^ 20 :: u64)" by (simp add: sizeof_tss_def IO_MAP_WORDS_def IO_MAP_BITS_def)
  then show ?thesis using setup_tss_desc_correct by blast
qed

text \<open>A table with the thread 7, whose pid is the value of the counter.\<close>

definition sample_procs :: "procs \<Rightarrow> procs" where
  "sample_procs s = s\<lparr>pr_desc := (\<lambda>_. \<lparr>td_pid = 0, td_stack_pointer = 0, td_stack = (0, 0), td_mm = 0, td_refcount = 1\<rparr>),
     thr_links := rb_heap0, thr_root := 7, next_pid := 0\<rparr>"

lemma sample_procs_table: "pid_table (sample_procs s) [7]"
  unfolding by_int.index_def using rbtree_single by (auto simp: sample_procs_def intro!: exI [of _ "Node Leaf (7, BLACK) Leaf"])

theorem register_thread_correct_witness:
  "\<forall>s. \<exists>s'. register_thread 8 (sample_procs s) = Some s' \<and> thread_pid s' 8 = 1 \<and> next_pid s' = 2"
proof
  fix s
  have p: "thread_pid (sample_procs s) 7 = 0" "next_pid (sample_procs s) = 0" by (simp_all add: thread_pid_def sample_procs_def)
  obtain s' where r: "register_thread 8 (sample_procs s) = Some s'" "0 \<le> thread_pid s' 8" "thread_pid s' 8 \<noteq> 0"
    "next_pid s' = thread_pid s' 8 + 1" "\<forall>r. 0 \<le> r \<and> r < thread_pid s' 8 \<longrightarrow> r = 0"
    using register_thread_correct [OF sample_procs_table, of 8 s] p by auto
  have "\<not> 1 < thread_pid s' 8" using r(5) [rule_format, of 1] by auto
  then have "thread_pid s' 8 = 1" using r(2,3) by linarith
  then show "\<exists>s'. register_thread 8 (sample_procs s) = Some s' \<and> thread_pid s' 8 = 1 \<and> next_pid s' = 2" using r(1,4) by auto
qed

end
