(* ===== verification/Threads_Create.thy ===== *)
theory Threads_Create
  imports Threads_Inv
begin

text \<open>
  Creating a thread: the stack from the page allocator, the thread and its address space from the caches, the table
  of threads and the run queue.
\<close>

section \<open>New address spaces\<close>

text \<open>A held page becomes a table.\<close>

lemma tables_adopt:
  assumes "tables (insert (p, 0) P) K live v H" and "(p, 0) \<notin> P"
  shows "tables P K live v (insert (page2pfn (vm_mem v) p) H)" "page2pfn (vm_mem v) p \<notin> H" "pfn2page (vm_mem v) (page2pfn (vm_mem v) p) = Some p"
proof -
  obtain T where T: "kmem_inv (insert (p, 0) P \<union> (\<lambda>p. (p, 0)) ` T) (vm_kmem v) K live" "insert (p, 0) P \<inter> (\<lambda>p. (p, 0)) ` T = {}" "H = frame_no (vm_mem v) ` T"
    "\<forall>p \<in> T. valid_page (vm_mem v) p" "\<forall>p \<in> T. pfn2page (vm_mem v) (frame_no (vm_mem v) p) = Some p" by (rule tablesE [OF assms(1)])
  have pT: "p \<notin> T" using T(2) by blast
  have mem: "(p, 0) \<in> insert (p, 0) P \<union> (\<lambda>p. (p, 0)) ` T" by simp
  note h = held_page [OF T(1) mem]
  have e: "P \<union> (\<lambda>p. (p, 0)) ` insert p T = insert (p, 0) P \<union> (\<lambda>p. (p, 0)) ` T" by auto
  have "kmem_inv (P \<union> (\<lambda>p. (p, 0)) ` insert p T) (vm_kmem v) K live" unfolding e by (rule T(1))
  moreover have "P \<inter> (\<lambda>p. (p, 0)) ` insert p T = {}" using T(2) assms(2) by auto
  moreover have "insert (page2pfn (vm_mem v) p) H = frame_no (vm_mem v) ` insert p T" using h(2) T(3) by simp
  ultimately show "tables P K live v (insert (page2pfn (vm_mem v) p) H)" unfolding tables_def by blast
  show "pfn2page (vm_mem v) (page2pfn (vm_mem v) p) = Some p" using h(2,3) by simp
  show "page2pfn (vm_mem v) p \<notin> H"
  proof
    assume "page2pfn (vm_mem v) p \<in> H"
    then obtain q where "q \<in> T" "frame_no (vm_mem v) q = frame_no (vm_mem v) p" using T(3) h(2) by auto
    then show False using T(5) h(3) pT by (metis option.inject)
  qed
qed

lemma empty_root:
  assumes "\<And>i. i < 256 \<Longrightarrow> vm_pt v f i = 0"
  shows "slots_ok 2 {..<256} v Map.empty f 0 {}"
  by (rule pt_slotsI [where own = "\<lambda>_. {}"]) (use assms in \<open>auto simp: pt_slot_def\<close>)

lemma mms_inv_add:
  assumes inv: "mms_inv P K live s H S rt as M X" and m: "m \<notin> S" and f: "f \<notin> (\<Union>m \<in> S. insert (rt m) (X m))" "f \<in> H"
    and pt: "mm_pt (mm_obj s m) = Some p" "pfn2page (vm_mem (mm_vm s)) f = Some p" "mm_vma (mm_obj s m) = 0" and z: "\<And>i. i < 256 \<Longrightarrow> vm_pt (mm_vm s) f i = 0"
  shows "mms_inv P K live s H (insert m S) (rt(m := f)) (as(m := [])) (M(m := Map.empty)) (X(m := {}))"
proof -
  have "vmas_ok s m []" unfolding vmas_ok_def by (intro conjI exI [of _ Leaf]) (simp_all add: rbtree_def tree_at_def pt(3))
  then have "space_ok s H (live (vma_cachep s)) m f [] Map.empty {}" using f(2) pt empty_root [OF z] by (simp add: space_ok_def area_pages_def)
  then show ?thesis using inv m f(1) unfolding mms_inv_def by auto
qed

lemma HIGH_BASE_slot: "pml4_i HIGH_BASE = 256"
  by code_simp

lemma table_count_pt [simp]: "table_count (v\<lparr>vm_pt := x\<rparr>) = table_count v"
  by (simp add: table_count_def refcount_def fun_eq_iff split: option.split)

lemma create_mm_ok:
  assumes inv: "mms_inv P K live s H S rt as M X" and c: "mm_cachep s \<in> K" "mm_cachep s \<noteq> vma_cachep s" "S \<subseteq> live (mm_cachep s)"
  shows "\<exists>m s'. create_mm s = Some (m, s') \<and> mm_cachep s' = mm_cachep s \<and> vma_cachep s' = vma_cachep s \<and>
    (if m = 0 then mms_inv P K live s' H S rt as M X
     else \<exists>f. m \<notin> live (mm_cachep s) \<and> f \<notin> H \<and> mms_inv P K (live(mm_cachep s := insert m (live (mm_cachep s)))) s' (insert f H)
       (insert m S) (rt(m := f)) (as(m := [])) (M(m := Map.empty)) (X(m := {})) \<and>
       (\<forall>i. 256 \<le> i \<and> i < 512 \<and> frame_of (load_pml4 (mm_vm s)) \<noteq> f \<longrightarrow> vm_pt (mm_vm s') f i = vm_pt (mm_vm s) (frame_of (load_pml4 (mm_vm s))) i))"
proof -
  let ?c = "mm_cachep s"
  have tb: "tables P K live (mm_vm s) H" using inv by (simp add: mms_inv_def)
  obtain m v1 where a: "mm_cache_alloc ?c s = Some (m, upd_vm v1 s)" "vm_kept P H (mm_vm s) v1"
    "if m = 0 then tables P K live v1 H else m \<notin> live ?c \<and> tables P K (live(?c := insert m (live ?c))) v1 H"
    using mm_cache_alloc_ok [OF tb c(1)] by blast
  obtain k where "upd_vm ((mm_vm s)\<lparr>vm_kmem := k\<rparr>) s = upd_vm v1 s" using a(1) by (auto simp: mm_cache_alloc_def split: Option.bind_splits)
  from arg_cong [OF this, of mm_vm] have cr3: "vm_cr3 v1 = vm_cr3 (mm_vm s)" by auto
  have k1: "vm_same H (mm_vm s) v1" by (rule kept_vm_same [OF a(2)]) simp
  show ?thesis
  proof (cases "m = 0")
    case True
    have "create_mm s = Some (0, upd_vm v1 s)" using a(1) True by (simp add: create_mm_def alloc_mm_def)
    moreover have "mms_inv P K live (upd_vm v1 s) H S rt as M X" by (rule mms_inv_vm [OF inv]) (use a(3) True k1 in auto)
    ultimately show ?thesis by (intro exI [of _ 0] exI [of _ "upd_vm v1 s"]) (simp add: upd_vm_def)
  next
    case m0: False
    let ?live = "live(?c := insert m (live ?c))" and ?s1 = "upd_mm m (\<lambda>_. zero_mm) (upd_vm v1 s)"
    have m: "m \<notin> live ?c" "m \<notin> S" "tables P K ?live v1 H" using a(3) m0 c(3) by auto
    have al: "alloc_mm s = Some (m, ?s1)" using a(1) m0 by (simp add: alloc_mm_def)
    have f1: "mm_vm ?s1 = v1" by (simp add: upd_mm_def upd_vm_def)
    obtain r mem where p: "alloc_pages 0 (vm_mem v1) = Some (r, mem)" "case r of None \<Rightarrow> upd_vm_mem (\<lambda>_. mem) v1 = v1
      | Some p \<Rightarrow> (p, 0) \<notin> P \<and> tables (insert (p, 0) P) K ?live (upd_vm_mem (\<lambda>_. mem) v1) H \<and> vm_same H v1 (upd_vm_mem (\<lambda>_. mem) v1) \<and>
          vm_pt (upd_vm_mem (\<lambda>_. mem) v1) = vm_pt v1 \<and> (\<forall>q. (q, 0) \<in> P \<longrightarrow> refcount q (upd_vm_mem (\<lambda>_. mem) v1) = refcount q v1)"
      using alloc_page_held [OF m(3)] by blast
    show ?thesis
    proof (cases r)
      case None
      then have rt: "alloc_root_table ?s1 = Some (None, ?s1)" using p by (simp add: alloc_root_table_def Let_def upd_mm_def upd_vm_def)
      have "tables P K ?live (mm_vm ?s1) H" "m \<in> ?live ?c" using m(3) f1 by simp_all
      from mm_cache_free_ok [OF this(1) c(1) this(2)] obtain v2 where fr: "mm_cache_free ?c m ?s1 = Some (upd_vm v2 ?s1)" "vm_kept P H v1 v2"
        "tables P K (?live(?c := ?live ?c - {m})) v2 H" unfolding f1 by blast
      have l: "?live(?c := ?live ?c - {m}) = live" using m(1) by auto
      have "create_mm s = Some (0, upd_vm v2 ?s1)"
        using al m0 rt fr(1) by (simp add: create_mm_def free_mm_def upd_mm_def upd_vm_def)
      moreover have "vm_same H (mm_vm s) v2" by (rule vm_same_trans [OF k1 kept_vm_same [OF fr(2)]]) simp
      then have "mms_inv P K live (upd_vm v2 ?s1) H S rt as M X"
        by (intro mms_inv_vm [OF inv]) (use fr(3) l m(2) in \<open>auto simp: upd_mm_def upd_vm_def\<close>)
      ultimately show ?thesis by (intro exI [of _ 0] exI [of _ "upd_vm v2 ?s1"]) (simp add: upd_vm_def upd_mm_def)
    next
      case (Some p')
      let ?v2 = "upd_vm_mem (\<lambda>_. mem) v1"
      define f where "f = page2pfn (vm_mem ?v2) p'"
      have q: "(p', 0) \<notin> P" "tables (insert (p', 0) P) K ?live ?v2 H" "vm_same H v1 ?v2" "vm_pt ?v2 = vm_pt v1" using p(2) Some by auto
      note ad = tables_adopt [OF q(2,1), folded f_def]
      let ?kern = "(vm_pt v1)(f := (\<lambda>_. 0))"
      define v3 where "v3 = ?v2\<lparr>vm_pt := ?kern(f := (\<lambda>i. if 256 \<le> i \<and> i < 512 then ?kern (frame_of (load_pml4 ?v2)) i else 0))\<rparr>"
      define s3 where "s3 = upd_mm m (\<lambda>x. x\<lparr>mm_pt := Some p'\<rparr>) (upd_vm v3 ?s1)"
      have call: "create_mm s = Some (m, s3)"
        using al m0 p(1) Some by (simp add: create_mm_def alloc_root_table_def Let_def f1 s3_def v3_def f_def q(4) HIGH_BASE_slot PT_SIZE_def upd_mm_def upd_vm_def load_pml4_def fun_eq_iff)
      have fld: "mm_vm s3 = v3" "vma_obj s3 = vma_obj s" "vma_links s3 = vma_links s" "vma_cachep s3 = vma_cachep s" "mm_cachep s3 = ?c"
        "mm_pt (mm_obj s3 m) = Some p'" "mm_vma (mm_obj s3 m) = 0" "\<And>m'. m' \<noteq> m \<Longrightarrow> mm_obj s3 m' = mm_obj s m'"
        by (simp_all add: s3_def upd_mm_def upd_vm_def zero_mm_def)
      have tb3: "tables P K ?live v3 (insert f H)" using ad(1) by (simp add: v3_def tables_def)
      have k3: "vm_same H (mm_vm s) v3" using k1 q(3) ad(2) by (auto simp: vm_same_def v3_def)
      have inv3: "mms_inv P K ?live s3 (insert f H) S rt as M X"
      proof (rule mms_inv_vm [OF inv])
        show "mm_obj s3 m' = mm_obj s m'" if "m' \<in> S" for m' using fld(8) [of m'] that m(2) by blast
      qed (use tb3 k3 fld(1-5) c(2) in auto)
      have "insert (rt m') (X m') \<subseteq> H" if "m' \<in> S" for m' using inv that by (simp add: mms_inv_def space_ok_def)
      then have fS: "f \<notin> (\<Union>m \<in> S. insert (rt m) (X m))" using ad(2) by blast
      have pf: "pfn2page (vm_mem (mm_vm s3)) f = Some p'" using ad(3) by (simp add: fld v3_def)
      have "mms_inv P K ?live s3 (insert f H) (insert m S) (rt(m := f)) (as(m := [])) (M(m := Map.empty)) (X(m := {}))"
        by (rule mms_inv_add [OF inv3 m(2) fS _ fld(6) pf fld(7)]) (simp_all add: fld v3_def)
      moreover have "vm_pt (mm_vm s3) f i = vm_pt (mm_vm s) (frame_of (load_pml4 (mm_vm s))) i"
        if "256 \<le> i \<and> i < 512 \<and> frame_of (load_pml4 (mm_vm s)) \<noteq> f" for i
        using that a(2) cr3 by (auto simp: fld v3_def vm_kept_def load_pml4_def)
      ultimately show ?thesis using call m(1) ad(2) m0 fld by (intro exI [of _ m] exI [of _ s3]) auto
    qed
  qed
qed

section \<open>All processes\<close>

text \<open>The stacks of the threads \<open>L\<close>, as blocks of pages.\<close>

definition stacks :: "procs \<Rightarrow> nat set \<Rightarrow> (page_ptr \<times> nat) set" where
  "stacks s L = (\<lambda>t. (td_stack (pr_desc s t), KERNEL_STACK_ORDER)) ` L"

abbreviation threads_of :: "procs \<Rightarrow> (nat \<Rightarrow> nat set) \<Rightarrow> nat set" where
  "threads_of s live \<equiv> live (rr_thread_cache s)"

definition caches_ok :: "procs \<Rightarrow> nat set \<Rightarrow> bool" where
  "caches_ok s K \<longleftrightarrow> rr_thread_cache s \<in> K \<and> mm_cachep (pr_mms s) \<in> K \<and>
     distinct [rr_thread_cache s, mm_cachep (pr_mms s), vma_cachep (pr_mms s)]"

definition procs_inv :: "(page_ptr \<times> nat) set \<Rightarrow> nat set \<Rightarrow> (nat \<Rightarrow> nat set) \<Rightarrow> procs \<Rightarrow> nat set \<Rightarrow> nat set \<Rightarrow> (nat \<Rightarrow> nat) \<Rightarrow> (nat \<Rightarrow> nat list) \<Rightarrow>
    (nat \<Rightarrow> nat \<rightharpoonup> pte_t) \<Rightarrow> (nat \<Rightarrow> nat set) \<Rightarrow> nat list \<Rightarrow> bool" where
  "procs_inv P K live s H S rt as M X ns \<longleftrightarrow> mms_inv (P \<union> stacks s (threads_of s live)) K live (pr_mms s) H S rt as M X \<and>
     P \<inter> stacks s (threads_of s live) = {} \<and> inj_on (\<lambda>t. td_stack (pr_desc s t)) (threads_of s live) \<and>
     pid_table s ns \<and> set ns \<subseteq> threads_of s live \<and> 0 \<le> next_pid s \<and> caches_ok s K \<and>
     S \<subseteq> live (mm_cachep (pr_mms s)) \<and> (\<forall>t \<in> threads_of s live. td_mm (pr_desc s t) \<in> S)"

text \<open>Only memory that no thread holds changed.\<close>

lemma procs_inv_mms:
  assumes inv: "procs_inv P K live s H S rt as M X ns" and x: "mms_inv (P \<union> stacks s (threads_of s live)) K live (pr_mms s') H S rt as M X"
    and c: "mm_cachep (pr_mms s') = mm_cachep (pr_mms s)" "vma_cachep (pr_mms s') = vma_cachep (pr_mms s)" "rr_thread_cache s' = rr_thread_cache s"
    and d: "\<And>t. t \<in> threads_of s live \<Longrightarrow> pr_desc s' t = pr_desc s t"
    and f: "thr_links s' = thr_links s" "thr_root s' = thr_root s" "next_pid s' = next_pid s"
  shows "procs_inv P K live s' H S rt as M X ns"
proof -
  have st: "stacks s' (threads_of s live) = stacks s (threads_of s live)" using d by (auto simp: stacks_def)
  have inj: "inj_on (\<lambda>t. td_stack (pr_desc s' t)) (threads_of s live)" using inv d by (simp add: procs_inv_def inj_on_def)
  have sub: "set ns \<subseteq> threads_of s live" using inv by (simp add: procs_inv_def)
  have "pid_table s' ns" unfolding f
    by (rule by_int.index_key_cong [of "thread_pid s"]) (use inv d sub in \<open>auto simp: procs_inv_def thread_pid_def subset_iff\<close>)
  then show ?thesis using inv x st inj d unfolding procs_inv_def caches_ok_def c f by simp
qed

lemma live_high:
  assumes "tables P K live v H" and "c \<in> K" and "p \<in> live c"
  shows "unat HIGH_BASE \<le> p"
proof -
  obtain T where "kmem_inv (P \<union> (\<lambda>p. (p, 0)) ` T) (vm_kmem v) K live" using assms(1) by (auto simp: tables_def)
  then obtain ls av U L where core: "kmem_core (P \<union> (\<lambda>p. (p, 0)) ` T) (vm_kmem v) K ls av U L" and l: "live c = live_objects (vm_kmem v) ls av c"
    using assms(2) by (auto simp: kmem_inv_def)
  note d = kmem_coreD [OF core]
  obtain sl where sl: "sl \<in> slabs_of ls c" "p \<in> slots sl (kc_padded_size (k_cache (vm_kmem v) c))" using assms(3) l by (auto simp: live_objects_def)
  then have ok: "slab_ok (vm_kmem v) c sl (av sl)" using core assms(2) by (auto simp: kmem_core_def)
  then have "unat (page_addr (vm_mem v) (sl_pages (k_slab (vm_kmem v) sl))) + SLAB_BYTES = sl" "valid_page (vm_mem v) (sl_pages (k_slab (vm_kmem v) sl))"
    by (simp_all add: slab_ok_def Let_def)
  then have "unat HIGH_BASE + SLAB_BYTES \<le> sl" using page_addr_unat [OF d(2)] by simp
  then show ?thesis using slots_inside(1) [OF sl(2)] by linarith
qed

lemma stack_order: "KERNEL_STACK_ORDER < BUDDY_ORDERS"
  by (simp add: KERNEL_STACK_ORDER_def BUDDY_ORDERS_def)

text \<open>Giving a stack back.\<close>

lemma free_stack_mms:
  assumes inv: "mms_inv (insert (p, k) Q) K live x H S rt as M X" and new: "(p, k) \<notin> Q"
  shows "mms_inv Q K live (upd_vm (upd_vm_mem (free_pages (Some p) k) (mm_vm x)) x) H S rt as M X"
proof -
  have tb: "tables (insert (p, k) Q) K live (mm_vm x) H" using inv by (simp add: mms_inv_def)
  note f = free_block_held [OF tb insertI1]
  have e: "insert (p, k) Q - {(p, k)} = Q" using new by blast
  show ?thesis by (rule mms_inv_vm [OF inv]) (use f(1) [unfolded e] f(2-4) in \<open>auto simp: vm_same_def\<close>)
qed

lemma upd_pmm_simps [simp]:
  "pr_mms (upd_pmm x s) = x" "pr_sched (upd_pmm x s) = pr_sched s" "pr_desc (upd_pmm x s) = pr_desc s" "thr_links (upd_pmm x s) = thr_links s"
  "thr_root (upd_pmm x s) = thr_root s" "next_pid (upd_pmm x s) = next_pid s" "rr_thread_cache (upd_pmm x s) = rr_thread_cache s"
  "upd_pmm x (upd_pmm y s) = upd_pmm x s" "upd_pmm (pr_mms s) s = s" "upd_desc t f (upd_pmm x s) = upd_pmm x (upd_desc t f s)"
  by (simp_all add: upd_pmm_def upd_desc_def)

lemma upd_vm_caches [simp]: "mm_cachep (upd_vm v x) = mm_cachep x" "upd_vm (mm_vm x) x = x"
  by (simp_all add: upd_vm_def)

lemma upd_desc_simps [simp]:
  "pr_mms (upd_desc t f s) = pr_mms s" "pr_sched (upd_desc t f s) = pr_sched s" "pr_desc (upd_desc t f s) = (pr_desc s)(t := f (pr_desc s t))"
  "thr_links (upd_desc t f s) = thr_links s" "thr_root (upd_desc t f s) = thr_root s" "next_pid (upd_desc t f s) = next_pid s"
  "rr_thread_cache (upd_desc t f s) = rr_thread_cache s"
  by (simp_all add: upd_desc_def)

lemma free_stack_upd: "free_stack p s = upd_pmm (upd_vm (upd_vm_mem (free_pages (Some p) KERNEL_STACK_ORDER) (mm_vm (pr_mms s))) (pr_mms s)) s"
  by (simp add: free_stack_def upd_pmem_def)

lemma alloc_thread_ok:
  assumes inv: "procs_inv P K live s H S rt as M X ns"
  defines "Q \<equiv> P \<union> stacks s (threads_of s live)" and "c \<equiv> rr_thread_cache s" and "d \<equiv> mm_cachep (pr_mms s)"
  shows "\<exists>t s'. alloc_thread s = Some (t, s') \<and> (if t = 0 then procs_inv P K live s' H S rt as M X ns \<and> pr_sched s' = pr_sched s
    else \<exists>m f stack x. s' = init_thread t stack (upd_desc t (\<lambda>d. d\<lparr>td_mm := m\<rparr>) (upd_pmm x s)) \<and> t \<notin> live c \<and> m \<notin> live d \<and> f \<notin> H \<and>
      (stack, KERNEL_STACK_ORDER) \<notin> Q \<and> mm_cachep x = d \<and> vma_cachep x = vma_cachep (pr_mms s) \<and>
      mms_inv (insert (stack, KERNEL_STACK_ORDER) Q) K (live(c := insert t (live c), d := insert m (live d))) x (insert f H)
        (insert m S) (rt(m := f)) (as(m := [])) (M(m := Map.empty)) (X(m := {})))"
proof -
  let ?x = "pr_mms s" and ?k = KERNEL_STACK_ORDER
  have m0: "mms_inv Q K live ?x H S rt as M X" and cs: "c \<in> K" "d \<in> K" "c \<noteq> d" "c \<noteq> vma_cachep ?x" "d \<noteq> vma_cachep ?x" "S \<subseteq> live d"
    using inv by (auto simp: procs_inv_def caches_ok_def Q_def c_def d_def)
  have keep: "procs_inv P K live s' H S rt as M X ns \<and> pr_sched s' = pr_sched s" if "s' = upd_pmm x (upd_desc t f s)" "mms_inv Q K live x H S rt as M X"
    "mm_cachep x = d" "vma_cachep x = vma_cachep ?x" "t \<notin> live c" for s' x t f
    by (intro conjI procs_inv_mms [OF inv]) (use that in \<open>auto simp: Q_def c_def d_def\<close>)
  have tb: "tables Q K live (mm_vm ?x) H" using m0 by (simp add: mms_inv_def)
  obtain r mem where a: "alloc_pages ?k (pr_mem s) = Some (r, mem)" "case r of None \<Rightarrow> upd_vm_mem (\<lambda>_. mem) (mm_vm ?x) = mm_vm ?x
    | Some p \<Rightarrow> (p, ?k) \<notin> Q \<and> tables (insert (p, ?k) Q) K live (upd_vm_mem (\<lambda>_. mem) (mm_vm ?x)) H \<and> vm_same H (mm_vm ?x) (upd_vm_mem (\<lambda>_. mem) (mm_vm ?x)) \<and>
        vm_pt (upd_vm_mem (\<lambda>_. mem) (mm_vm ?x)) = vm_pt (mm_vm ?x) \<and> (\<forall>q. (q, 0) \<in> Q \<longrightarrow> refcount q (upd_vm_mem (\<lambda>_. mem) (mm_vm ?x)) = refcount q (mm_vm ?x))"
    using alloc_block_held [OF tb stack_order] by blast
  show ?thesis
  proof (cases r)
    case None
    then have "alloc_thread s = Some (0, s)" using a by (simp add: alloc_thread_def upd_pmem_def)
    then show ?thesis using inv by simp
  next
    case (Some p)
    let ?Q = "insert (p, ?k) Q" and ?v1 = "upd_vm_mem (\<lambda>_. mem) (mm_vm ?x)"
    have p: "(p, ?k) \<notin> Q" "tables ?Q K live ?v1 H" "vm_same H (mm_vm ?x) ?v1" using a(2) Some by auto
    have m1: "mms_inv ?Q K live (upd_vm ?v1 ?x) H S rt as M X" by (rule mms_inv_vm [OF m0]) (use p in auto)
    have t1: "tables ?Q K live (mm_vm (upd_vm ?v1 ?x)) H" using p(2) by simp
    obtain t v2 where t: "mm_cache_alloc c (upd_vm ?v1 ?x) = Some (t, upd_vm v2 (upd_vm ?v1 ?x))" "vm_kept ?Q H ?v1 v2"
      "if t = 0 then tables ?Q K live v2 H else t \<notin> live c \<and> tables ?Q K (live(c := insert t (live c))) v2 H"
      using mm_cache_alloc_ok [OF t1 cs(1)] by auto
    have k2: "vm_same H (mm_vm ?x) v2" by (rule vm_same_trans [OF p(3) kept_vm_same [OF t(2)]]) simp
    have start: "alloc_thread s = (if t = 0 then Some (0, free_stack p (upd_pmm (upd_vm v2 ?x) s)) else do {
        (m, x) \<leftarrow> create_mm (upd_vm v2 ?x);
        let s = upd_desc t (\<lambda>d. d\<lparr>td_mm := m\<rparr>) (upd_pmm x s);
        if m = 0 then do { s \<leftarrow> rr_free_thread t s; Some (0, free_stack p s) } else Some (t, init_thread t p s) })"
      using a(1) Some t(1) by (simp add: alloc_thread_def upd_pmem_def rr_alloc_thread_def c_def)
    show ?thesis
    proof (cases "t = 0")
      case True
      have "mms_inv ?Q K live (upd_vm v2 ?x) H S rt as M X" by (rule mms_inv_vm [OF m0]) (use t(3) True k2 in auto)
      note m2 = free_stack_mms [OF this p(1)]
      have n0: "0 \<notin> live c" using live_high [OF tb cs(1), of 0] by (auto simp: HIGH_BASE_def)
      show ?thesis using start True keep [OF _ m2 _ _ n0, where f = id] by (auto simp: free_stack_upd upd_desc_def d_def)
    next
      case False
      let ?live = "live(c := insert t (live c))"
      have tl: "t \<notin> live c" "tables ?Q K ?live v2 H" using t(3) False by auto
      have m2: "mms_inv ?Q K ?live (upd_vm v2 ?x) H S rt as M X" by (rule mms_inv_vm [OF m0]) (use tl k2 in auto)
      have d2: "mm_cachep (upd_vm v2 ?x) = d" by (simp add: d_def)
      have c2: "d \<in> K" "d \<noteq> vma_cachep (upd_vm v2 ?x)" "S \<subseteq> ?live d" using cs by auto
      from create_mm_ok [OF m2, unfolded d2, OF c2] obtain m x where
        cm: "create_mm (upd_vm v2 ?x) = Some (m, x)" "mm_cachep x = d" "vma_cachep x = vma_cachep (upd_vm v2 ?x)"
        "if m = 0 then mms_inv ?Q K ?live x H S rt as M X else \<exists>f. m \<notin> ?live d \<and> f \<notin> H \<and>
          mms_inv ?Q K (?live(d := insert m (?live d))) x (insert f H) (insert m S) (rt(m := f)) (as(m := [])) (M(m := Map.empty)) (X(m := {})) \<and>
          (\<forall>i. 256 \<le> i \<and> i < 512 \<and> frame_of (load_pml4 (mm_vm (upd_vm v2 ?x))) \<noteq> f \<longrightarrow>
            vm_pt (mm_vm x) f i = vm_pt (mm_vm (upd_vm v2 ?x)) (frame_of (load_pml4 (mm_vm (upd_vm v2 ?x)))) i)"
        by (elim exE conjE) (rule that)
      show ?thesis
      proof (cases "m = 0")
        case m: True
        then have m3: "mms_inv ?Q K ?live x H S rt as M X" using cm(4) by simp
        then have t3: "tables ?Q K ?live (mm_vm x) H" by (simp add: mms_inv_def)
        have "t \<in> ?live c" by simp
        from mm_cache_free_ok [OF t3 cs(1) this] obtain v4 where f: "mm_cache_free c t x = Some (upd_vm v4 x)" "vm_kept ?Q H (mm_vm x) v4"
          "tables ?Q K (?live(c := ?live c - {t})) v4 H" by blast
        have l: "?live(c := ?live c - {t}) = live" using tl(1) by auto
        have "mms_inv ?Q K live (upd_vm v4 x) H S rt as M X"
          by (rule mms_inv_vm [OF m3]) (use f(3) l kept_vm_same [OF f(2)] cs(4) cm(3) in auto)
        note m4 = free_stack_mms [OF this p(1)]
        show ?thesis using start False cm(1) m f(1) keep [OF _ m4 _ _ tl(1), where f = "\<lambda>d. d\<lparr>td_mm := 0\<rparr>"] cm(2,3)
          by (auto simp: free_stack_upd rr_free_thread_def c_def)
      next
        case m: False
        then obtain f where f: "m \<notin> live d" "f \<notin> H"
          "mms_inv ?Q K (?live(d := insert m (?live d))) x (insert f H) (insert m S) (rt(m := f)) (as(m := [])) (M(m := Map.empty)) (X(m := {}))"
          using cm(4) cs(3) by (auto simp del: fun_upd_apply) (auto)
        have l: "?live d = live d" using cs(3) by simp
        let ?s1 = "init_thread t p (upd_desc t (\<lambda>d. d\<lparr>td_mm := m\<rparr>) (upd_pmm x s))"
        have call: "alloc_thread s = Some (t, ?s1)" using start False cm(1) m by simp
        show ?thesis
          by (rule exI [of _ t], rule exI [of _ ?s1], rule conjI [OF call], subst if_not_P [OF False], rule exI [of _ m], rule exI [of _ f],
              rule exI [of _ p], rule exI [of _ x])
            (use cm(2,3) f tl(1) p(1) l in simp)
      qed
    qed
  qed
qed

section \<open>Kernel threads\<close>

definition kthread_start :: "nat \<Rightarrow> page_ptr \<Rightarrow> nat \<Rightarrow> mms \<Rightarrow> u64 \<Rightarrow> u64 \<Rightarrow> procs \<Rightarrow> procs" where
  "kthread_start t stack m x fptr arg s = start_on_frame t (kthread_frame t fptr arg (init_thread t stack (upd_desc t (\<lambda>d. d\<lparr>td_mm := m\<rparr>) (upd_pmm x s))))"

lemma desc_update: "d\<lparr>td_mm := m, td_refcount := r, td_stack := st, td_pid := q, td_stack_pointer := w\<rparr> =
    \<lparr>td_pid = q, td_stack_pointer = w, td_stack = st, td_mm = m, td_refcount = r\<rparr>"
  by (cases d) simp

lemma kthread_start_fields:
  fixes stack :: page_ptr and m :: nat and x :: mms and fptr arg :: u64 and s :: procs
  assumes "t \<noteq> bootstrap"
  defines "s' \<equiv> kthread_start t stack m x fptr arg s" and "e \<equiv> page_addr (vm_mem (mm_vm x)) stack + thread_stack_size"
  shows "pr_mms s' = x" "pr_desc s' = (pr_desc s)(t := \<lparr>td_pid = - 1, td_stack_pointer = e - sizeof_start_frame, td_stack = stack, td_mm = m, td_refcount = 1\<rparr>)"
    "thr_links s' = thr_links s" "thr_root s' = thr_root s" "next_pid s' = next_pid s" "rr_thread_cache s' = rr_thread_cache s"
    "state_of (pr_sched s') t = THREAD_BLOCKED" "\<And>t'. t' \<noteq> t \<Longrightarrow> sc_thread (pr_sched s') t' = sc_thread (pr_sched s) t'"
    "rr_active_list (pr_sched s') = rr_active_list (pr_sched s)"
    "sf_entry (pr_frame s' t) = thread_entry_addr s \<and> sf_r15 (pr_frame s' t) = of_nat t \<and> sf_r14 (pr_frame s' t) = fptr \<and> sf_r13 (pr_frame s' t) = arg"
    "tr_rip (pr_regs s' t) = exit_addr s \<and> tr_rsp (pr_regs s' t) = e"
  using assms(1) by (simp_all add: s'_def e_def desc_update kthread_start_def start_on_frame_def kthread_frame_def init_thread_def sched_new_thread_def upd_desc_def upd_pmm_def
      thread_stack_end_def thread_stack_begin_def Let_def)

text \<open>A thread in the table with one reference is activated; the reference taken for that is dropped again.\<close>

lemma start_thread_ok:
  assumes tab: "pid_table s ns" and t: "t \<in> set ns" "t \<noteq> bootstrap" "td_refcount (pr_desc s t) = 1" "state_of (pr_sched s) t = THREAD_BLOCKED"
    and pid: "thread_pid s t = pid" "0 \<le> pid"
  shows "start_thread pid s = Some (pid, s\<lparr>pr_sched := (set_state t THREAD_ACTIVE (pr_sched s))\<lparr>rr_active_list := rr_active_list (pr_sched s) @ [t]\<rparr>\<rparr>)"
proof -
  obtain t' where l: "lookup_thread pid s = Some (t', if t' \<noteq> 0 then get_thread t' s else s)"
    "if t' = 0 then pid \<notin> thread_pid s ` set ns else t' \<in> set ns \<and> thread_pid s t' = pid" using lookup_thread_ok [OF tab] by blast
  have "pid \<in> thread_pid s ` set ns" using t(1) pid(1) by blast
  then have t': "t' \<noteq> 0" using l(2) by (auto split: if_splits)
  then have "t' = t" using l(2) by_int.index_inj [OF tab _ t(1)] pid(1) by auto
  moreover have "(pr_desc s)(t := pr_desc s t\<lparr>td_refcount := 1\<rparr>) = pr_desc s" using t(3) by (cases "pr_desc s t") (simp add: fun_eq_iff)
  then have "s\<lparr>pr_sched := y, pr_desc := (pr_desc s)(t := pr_desc s t\<lparr>td_refcount := 1\<rparr>)\<rparr> = s\<lparr>pr_sched := y\<rparr>" for y by (cases s) simp
  ultimately show ?thesis using l(1) t' pid t(2-4)
    by (simp add: start_thread_def get_thread_def put_thread_def activate_thread_def rr_activate_thread_def set_state_def upd_desc_def Let_def)
qed

text \<open>The invariant with a new thread, its stack and its address space.\<close>

lemma procs_inv_new:
  assumes inv: "procs_inv P K live s H S rt as M X ns" and new: "t \<notin> threads_of s live" "(stack, KERNEL_STACK_ORDER) \<notin> P \<union> stacks s (threads_of s live)"
    and x: "mms_inv (insert (stack, KERNEL_STACK_ORDER) (P \<union> stacks s (threads_of s live))) K
      (live(rr_thread_cache s := insert t (threads_of s live), mm_cachep (pr_mms s) := insert m (live (mm_cachep (pr_mms s))))) (pr_mms s')
      H' (insert m S) rt' as' M' X'"
    and c: "mm_cachep (pr_mms s') = mm_cachep (pr_mms s)" "vma_cachep (pr_mms s') = vma_cachep (pr_mms s)" "rr_thread_cache s' = rr_thread_cache s"
    and desc: "pr_desc s' = (pr_desc s)(t := D)" "td_stack D = stack" "td_mm D = m"
    and tab: "pid_table s' ns'" "set ns' = insert t (set ns)" "0 \<le> next_pid s'"
  shows "procs_inv P K (live(rr_thread_cache s := insert t (threads_of s live), mm_cachep (pr_mms s) := insert m (live (mm_cachep (pr_mms s))))) s'
    H' (insert m S) rt' as' M' X' ns'"
proof -
  let ?L = "threads_of s live"
  have i: "P \<inter> stacks s ?L = {}" "inj_on (\<lambda>t. td_stack (pr_desc s t)) ?L" "set ns \<subseteq> ?L" "caches_ok s K" "rr_thread_cache s \<noteq> mm_cachep (pr_mms s)"
    "S \<subseteq> live (mm_cachep (pr_mms s))" "\<forall>t \<in> ?L. td_mm (pr_desc s t) \<in> S"
    using inv by (auto simp: procs_inv_def caches_ok_def)
  have st: "stacks s' (insert t ?L) = insert (stack, KERNEL_STACK_ORDER) (stacks s ?L)" using new(1) by (auto simp: stacks_def desc)
  have "td_stack (pr_desc s t') \<noteq> stack" if "t' \<in> ?L" for t' using new(2) that by (auto simp: stacks_def)
  then have inj: "inj_on (\<lambda>t. td_stack (pr_desc s' t)) (insert t ?L)" using i(2) new(1) by (auto simp: inj_on_def desc)
  show ?thesis unfolding procs_inv_def c using x st inj i tab desc new by (auto simp: caches_ok_def c)
qed

section \<open>Properties\<close>

text \<open>C38: creating a kernel thread always returns. Without memory it fails with ENOMEM, everything it took is given back and the
  scheduler is as it was. Otherwise there is a new thread with a stack of its own, an empty address space of its own, a pid no other thread has and one reference; it is in the table of threads, its stack
  starts it in the given function with the given argument and lets it end in exit, and it is the last of the
  run queue. The memory, tables and objects of all other threads are as they were.\<close>

theorem create_kthread_correct:
  assumes inv: "procs_inv P K live s H S rt as M X ns"
  defines "c \<equiv> rr_thread_cache s" and "d \<equiv> mm_cachep (pr_mms s)"
  shows "\<exists>pid s'. create_kthread fptr arg s = Some (pid, s') \<and>
    (pid = - ENOMEM \<and> procs_inv P K live s' H S rt as M X ns \<and> pr_sched s' = pr_sched s \<or>
     0 \<le> pid \<and> pid \<notin> thread_pid s ` set ns \<and> (\<exists>t m f ns'. t \<notin> live c \<and> m \<notin> live d \<and> f \<notin> H \<and> set ns' = insert t (set ns) \<and>
       procs_inv P K (live(c := insert t (live c), d := insert m (live d))) s' (insert f H) (insert m S) (rt(m := f)) (as(m := []))
         (M(m := Map.empty)) (X(m := {})) ns' \<and>
       thread_pid s' t = pid \<and> td_mm (pr_desc s' t) = m \<and> td_refcount (pr_desc s' t) = 1 \<and>
       td_stack_pointer (pr_desc s' t) = thread_stack_end t s' - sizeof_start_frame \<and>
       sf_entry (pr_frame s' t) = thread_entry_addr s \<and> sf_r15 (pr_frame s' t) = of_nat t \<and> sf_r14 (pr_frame s' t) = fptr \<and> sf_r13 (pr_frame s' t) = arg \<and>
       tr_rip (pr_regs s' t) = exit_addr s \<and>
       (\<forall>t'. t' \<noteq> t \<longrightarrow> pr_desc s' t' = pr_desc s t' \<and> sc_thread (pr_sched s') t' = sc_thread (pr_sched s) t') \<and>
       state_of (pr_sched s') t = THREAD_ACTIVE \<and> rr_active_list (pr_sched s') = rr_active_list (pr_sched s) @ [t]))"
proof -
  let ?Q = "P \<union> stacks s (threads_of s live)" and ?k = KERNEL_STACK_ORDER
  obtain t s1 where a: "alloc_thread s = Some (t, s1)" "if t = 0 then procs_inv P K live s1 H S rt as M X ns \<and> pr_sched s1 = pr_sched s
    else \<exists>m f stack x. s1 = init_thread t stack (upd_desc t (\<lambda>d. d\<lparr>td_mm := m\<rparr>) (upd_pmm x s)) \<and> t \<notin> live c \<and> m \<notin> live d \<and> f \<notin> H \<and>
      (stack, ?k) \<notin> ?Q \<and> mm_cachep x = d \<and> vma_cachep x = vma_cachep (pr_mms s) \<and>
      mms_inv (insert (stack, ?k) ?Q) K (live(c := insert t (live c), d := insert m (live d))) x (insert f H)
        (insert m S) (rt(m := f)) (as(m := [])) (M(m := Map.empty)) (X(m := {}))"
    using alloc_thread_ok [OF inv] unfolding c_def d_def by blast
  show ?thesis
  proof (cases "t = 0")
    case True
    then have "create_kthread fptr arg s = Some (- ENOMEM, s1)" using a(1) by (simp add: create_kthread_def create_thread_def start_thread_def)
    then show ?thesis using a(2) True by auto
  next
    case False
    then obtain m f stack x where n: "s1 = init_thread t stack (upd_desc t (\<lambda>d. d\<lparr>td_mm := m\<rparr>) (upd_pmm x s))" "t \<notin> live c" "m \<notin> live d" "f \<notin> H"
      "(stack, ?k) \<notin> ?Q" "mm_cachep x = d" "vma_cachep x = vma_cachep (pr_mms s)"
      "mms_inv (insert (stack, ?k) ?Q) K (live(c := insert t (live c), d := insert m (live d))) x (insert f H)
        (insert m S) (rt(m := f)) (as(m := [])) (M(m := Map.empty)) (X(m := {}))" using a(2) by auto
    let ?live = "live(c := insert t (live c), d := insert m (live d))" and ?s2 = "kthread_start t stack m x fptr arg s"
    have cs: "c \<in> K" "c \<noteq> d" and tab: "pid_table s ns" and sub: "set ns \<subseteq> live c" using inv by (auto simp: procs_inv_def caches_ok_def c_def d_def)
    have "tables (insert (stack, ?k) ?Q) K ?live (mm_vm x) (insert f H)" using n(8) by (simp add: mms_inv_def)
    from live_high [OF this cs(1), of t] have tb: "t \<noteq> bootstrap" using cs(2) by (auto simp: bootstrap_def HIGH_BASE_def)
    note f2 = kthread_start_fields [OF tb, where stack = stack and m = m and x = x and fptr = fptr and arg = arg and s = s]
    have tn: "t \<notin> set ns" using sub n(2) by blast
    have pid2: "thread_pid ?s2 = (thread_pid s)(t := - 1)" by (auto simp: thread_pid_def f2(2))
    have tab2: "pid_table ?s2 ns" unfolding f2(3,4) pid2 by (rule by_int.index_key_cong [OF tab]) (use tn in auto)
    obtain h root q ns' where r: "register_thread t ?s2 = Some ((set_pid t q ?s2)\<lparr>thr_links := h, thr_root := root\<rparr>)"
      "by_int.index ((thread_pid ?s2)(t := q)) h root ns'" "set ns' = insert t (set ns)" "next_pid ?s2 \<le> q" "q \<notin> thread_pid ?s2 ` set ns"
      using register_thread_ok [OF tab2 tn False] by blast
    let ?s3 = "(set_pid t q ?s2)\<lparr>thr_links := h, thr_root := root\<rparr>"
    have pid3: "thread_pid ?s3 = (thread_pid ?s2)(t := q)" using set_pid_fields(4) [of t q ?s2] by (simp add: thread_pid_def fun_eq_iff)
    have sch: "pr_sched ?s3 = pr_sched ?s2" "pr_frame ?s3 = pr_frame ?s2" "pr_regs ?s3 = pr_regs ?s2" "pr_mms ?s3 = x"
      by (simp_all add: set_pid_def upd_desc_def f2(1))
    have q0: "0 \<le> q" using r(4) f2(5) inv by (simp add: procs_inv_def)
    let ?s4 = "?s3\<lparr>pr_sched := (set_state t THREAD_ACTIVE (pr_sched ?s3))\<lparr>rr_active_list := rr_active_list (pr_sched ?s3) @ [t]\<rparr>\<rparr>"
    have st: "start_thread q ?s3 = Some (q, ?s4)"
      by (rule start_thread_ok [where ns = ns']) (use r(2,3) pid3 tb q0 f2(2,7) sch in auto)
    have call: "create_kthread fptr arg s = Some (q, ?s4)" using a(1) False n(1) r(1) st pid3
      by (simp add: create_kthread_def create_thread_def kthread_start_def)
    let ?D = "\<lparr>td_pid = q, td_stack_pointer = page_addr (vm_mem (mm_vm x)) stack + thread_stack_size - sizeof_start_frame, td_stack = stack, td_mm = m, td_refcount = 1\<rparr>"
    have ds: "pr_desc ?s4 = (pr_desc s)(t := ?D)" by (simp add: set_pid_fields(5) f2(2))
    have f4: "pr_mms ?s4 = x" "rr_thread_cache ?s4 = c" "next_pid ?s4 = q + 1" "thr_links ?s4 = h" "thr_root ?s4 = root" "thread_pid ?s4 = thread_pid ?s3"
      "thread_stack_end t ?s4 = page_addr (vm_mem (mm_vm x)) stack + thread_stack_size"
      using sch(4) f2(2,6) tb set_pid_fields(3) [of t q ?s2]
      by (simp_all add: thread_pid_def fun_eq_iff set_pid_def upd_desc_def c_def thread_stack_end_def thread_stack_begin_def)
    have inv4: "procs_inv P K ?live ?s4 (insert f H) (insert m S) (rt(m := f)) (as(m := [])) (M(m := Map.empty)) (X(m := {})) ns'"
      unfolding c_def d_def by (rule procs_inv_new [OF inv n(2) [unfolded c_def] n(5), where D = ?D])
        (use n(6-8) [unfolded c_def d_def] f4(1) f4(2) [unfolded c_def] f4(3-6) ds r(2,3) pid3 q0 in simp_all)
    have old: "q \<notin> thread_pid s ` set ns" using r(5) pid2 tn by (auto simp: image_iff)
    show ?thesis
      by (rule exI [of _ q], rule exI [of _ ?s4], rule conjI [OF call], rule disjI2, rule conjI [OF q0], rule conjI [OF old],
          rule exI [of _ t], rule exI [of _ m], rule exI [of _ f], rule exI [of _ ns'])
        (use n(2-4) r(3) inv4 f4(6,7) pid3 ds sch f2(7-11) in \<open>simp add: set_state_def\<close>)
  qed
qed

section \<open>Witnesses\<close>

text \<open>No thread yet, with the three caches over a small memory.\<close>

definition empty_procs :: "procs \<Rightarrow> procs" where
  "empty_procs s = s\<lparr>pr_mms := sample_mms\<lparr>mm_vm := sample_tables\<lparr>vm_kmem := kmem_small_cache_init 9 104 (2 ^ 3)
       (kmem_small_cache_init 8 48 (2 ^ 3) (kmem_small_cache_init 7 64 (2 ^ 3) sample_kmem))\<rparr>\<rparr>,
     thr_root := 0, next_pid := 0, rr_thread_cache := 9\<rparr>"

lemma empty_procs_inv: "procs_inv {} {7, 8, 9} (\<lambda>_. {}) (empty_procs s) {} {} (\<lambda>_. 0) (\<lambda>_. []) (\<lambda>_. Map.empty) (\<lambda>_. {}) []"
proof -
  have k7: "kmem_inv {} (kmem_small_cache_init 7 64 (2 ^ 3) sample_kmem) {7} (\<lambda>_. {})"
    using kmem_small_cache_init_ok [OF sample_kmem_inv, of 7 64 3] by (simp add: const_upd)
  have k8: "kmem_inv {} (kmem_small_cache_init 8 48 (2 ^ 3) (kmem_small_cache_init 7 64 (2 ^ 3) sample_kmem)) {8, 7} (\<lambda>_. {})"
    using kmem_small_cache_init_ok [OF k7, of 8 48 3] by (simp add: const_upd)
  have "kmem_inv {} (kmem_small_cache_init 9 104 (2 ^ 3) (kmem_small_cache_init 8 48 (2 ^ 3) (kmem_small_cache_init 7 64 (2 ^ 3) sample_kmem))) {9, 8, 7} (\<lambda>_. {})"
    using kmem_small_cache_init_ok [OF k8, of 9 104 3] by (simp add: const_upd)
  then have "tables {} {7, 8, 9} (\<lambda>_. {}) (mm_vm (pr_mms (empty_procs s))) {}"
    unfolding tables_def by (intro exI [of _ "{}"]) (simp add: empty_procs_def insert_commute)
  then show ?thesis using by_int.index_empty [of "thread_pid (empty_procs s)" "thr_links (empty_procs s)"]
    by (simp add: procs_inv_def mms_inv_def caches_ok_def stacks_def empty_procs_def sample_mms_def)
qed

theorem create_kthread_correct_witness:
  "\<forall>s. \<exists>pid s'. create_kthread 1 2 (empty_procs s) = Some (pid, s') \<and>
     (pid = - ENOMEM \<and> pr_sched s' = pr_sched (empty_procs s) \<or>
      0 \<le> pid \<and> (\<exists>t. sf_r14 (pr_frame s' t) = 1 \<and> rr_active_list (pr_sched s') = rr_active_list (pr_sched (empty_procs s)) @ [t]))"
proof
  fix s
  show "\<exists>pid s'. create_kthread 1 2 (empty_procs s) = Some (pid, s') \<and>
     (pid = - ENOMEM \<and> pr_sched s' = pr_sched (empty_procs s) \<or>
      0 \<le> pid \<and> (\<exists>t. sf_r14 (pr_frame s' t) = 1 \<and> rr_active_list (pr_sched s') = rr_active_list (pr_sched (empty_procs s)) @ [t]))"
    using create_kthread_correct [OF empty_procs_inv, of 1 2 s] by blast
qed

end
