(* ===== verification/Spec2Isabelle.thy ===== *)
theory Spec2Isabelle
  imports Slab_Inv Format Vfs_Inv Sched_Inv Threads_Create
begin

text \<open>
  A verification development of a small 64-bit kernel for x86 machines. The theories model the code of
  \<^verbatim>\<open>src/\<close> as functions on explicit states and prove the properties that make its parts correct.

  \<^bold>\<open>The program.\<close> At boot the memory map of the loader goes to the boot allocator, which hands the free
  ranges over to the page allocator: a buddy system for each memory node. The object caches take their slabs from
  the page allocator, and everything else takes its objects from the caches: path entries, nodes and pages of the
  file systems, threads, address spaces. Page tables are built from pages as well. Intrusive lists and red-black
  trees are the containers of all parts. Threads are switched by a round robin scheduler, voluntarily or from the
  timer interrupt; spin locks mask interrupts on the single processor, mutexes and conditions put threads to sleep.
  The virtual file system resolves paths and dispatches to file systems, of which there is one in memory.

  \<^bold>\<open>The model.\<close> A pointer is a number or a value of a datatype with a constructor for each kind of object,
  and the memory behind pointers is a record of functions with one field for each structure or each structure field.
  Operations take and return the state. \<^term>\<open>None\<close> as the result of an operation is a failed \<^verbatim>\<open>DBG_ASSERT\<close>, a null
  dereference, an access outside of an array or a loop that does not end; error codes are negative results, as in C.
  Machine integers are words of their width wherever they can wrap. Loops that end for a local reason are functions
  with a measure; loops whose end depends on the shape of a data structure are partial functions into options, and
  the theorems say that they return. No definition uses fuel.

  \<^bold>\<open>Theories.\<close>

  \<^item> \<^verbatim>\<open>Kernel_Prelude\<close>: the arithmetic helpers of \<^verbatim>\<open>kernel.h\<close>, the codes and messages of \<^verbatim>\<open>error.c\<close>, lemmas on words,
    lists and alignment, and the collections of rules the others extend.
  \<^item> \<^verbatim>\<open>Intrusive_List\<close>: \<^verbatim>\<open>list.c\<close> as pointer writes. The locale \<^verbatim>\<open>intrusive_list\<close> is the contract its clients use: each
    operation acts on the sequence of entries of a list and leaves the other lists of a family alone.
  \<^item> \<^verbatim>\<open>Boot_Alloc\<close>: \<^verbatim>\<open>balloc.c\<close>. Insertion and deletion act on the set of addresses a pool covers; an aligned
    allocation returns free memory in range.
  \<^item> \<^verbatim>\<open>Local_Irq\<close>: the flags register, preemption and spin locks of \<^verbatim>\<open>interrupt.h\<close>, \<^verbatim>\<open>threads_defs.h\<close> and \<^verbatim>\<open>locking.h\<close>,
    with critical sections as the locale \<^verbatim>\<open>irq_section\<close>.
  \<^item> \<^verbatim>\<open>Buddy\<close> and \<^verbatim>\<open>Page_Alloc\<close>: \<^verbatim>\<open>memory.c\<close> and \<^verbatim>\<open>memory.h\<close>, first one node (splitting, merging), then all nodes and
    the construction at boot. The invariant says that the free lists and the live blocks partition the frames
    given to the allocator and that no two free buddies remain apart; no sequence of operations loses frames.
  \<^item> \<^verbatim>\<open>Slab\<close> and \<^verbatim>\<open>Slab_Inv\<close>: \<^verbatim>\<open>kmem_cache.c\<close>. For caches of small objects, allocation returns a fresh live object
    and release finds the slab from the address of the object; the locale \<^verbatim>\<open>object_cache\<close> is what clients rely on.
  \<^item> \<^verbatim>\<open>Kernel_Heap\<close>: caches and pages over one page allocator, with the blocks that clients hold.
  \<^item> \<^verbatim>\<open>CString\<close> and \<^verbatim>\<open>Format\<close>: \<^verbatim>\<open>string.c\<close>, \<^verbatim>\<open>ctype.c\<close>, \<^verbatim>\<open>stdlib.c\<close>, \<^verbatim>\<open>vsinkprintf.c\<close> and the sinks of \<^verbatim>\<open>stdio.c\<close>. Printing
    is proved against the text a format denotes, for any sink that satisfies the locale \<^verbatim>\<open>byte_sink\<close>.
  \<^item> \<^verbatim>\<open>Rb_Tree\<close> and \<^verbatim>\<open>Rb_Index\<close>: \<^verbatim>\<open>rbtree.c\<close> as pointer writes, with insertion and removal keeping the colour rules,
    and the search loops of its clients over keys (locale \<^verbatim>\<open>key_order\<close>).
  \<^item> \<^verbatim>\<open>Fs_State\<close>, \<^verbatim>\<open>Ramfs\<close>, \<^verbatim>\<open>Ramfs_Inv\<close>, \<^verbatim>\<open>Ramfs_Dirs\<close>: \<^verbatim>\<open>ramfs.c\<close>. A file refines an array of bytes with holes that
    read as zeros; a directory refines a finite map from names to nodes.
  \<^item> \<^verbatim>\<open>Vfs\<close> and \<^verbatim>\<open>Vfs_Inv\<close>: \<^verbatim>\<open>vfs.c\<close>. Path walking agrees with one step for each component of the path, and the
    lookup keeps the cache of path entries an index by name.
  \<^item> \<^verbatim>\<open>Sched\<close> and \<^verbatim>\<open>Sched_Inv\<close>: the switching code of \<^verbatim>\<open>threads.c\<close>, \<^verbatim>\<open>scheduler.c\<close>, \<^verbatim>\<open>locking.c\<close> and the tick of \<^verbatim>\<open>time.c\<close> as a
    step relation over blocks of code between two places where the processor can be taken away. Invariants of the
    reachable states: the run queue, mutual exclusion, no lost wake-up; and the fairness of the queue.
  \<^item> \<^verbatim>\<open>Kmap\<close>: the allocator of kernel address ranges in \<^verbatim>\<open>paging.c\<close>, complete: it fails only when there is no free run.
  \<^item> \<^verbatim>\<open>Paging\<close> and \<^verbatim>\<open>Paging_Inv\<close>: the rest of \<^verbatim>\<open>paging.c\<close> and \<^verbatim>\<open>paging.h\<close>. The tables below a root are a tree that
    refines a map from page numbers to entries, with the number of mapped pages as the count of each table.
    The three levels of the code are instances of one locale, \<^verbatim>\<open>pt_level\<close>, whose contract at one level
    is proved from the contract of the level below. \<^verbatim>\<open>Paging_Iter\<close> has the rule for loops over the slots of a range.
  \<^item> \<^verbatim>\<open>Mm\<close>, \<^verbatim>\<open>User_Pages\<close>, \<^verbatim>\<open>Mm_Inv\<close> and \<^verbatim>\<open>Mm_Fault\<close>: \<^verbatim>\<open>mm.c\<close>. The areas of an address space are an index of disjoint ranges and the domain
    of the map its tables hold is the set of their pages; spaces share neither tables nor areas. Pages with
    data have counted references, a multiset in the specification.
  \<^item> \<^verbatim>\<open>Threads\<close>, \<^verbatim>\<open>Threads_Inv\<close> and \<^verbatim>\<open>Threads_Create\<close>: the rest of \<^verbatim>\<open>threads.c\<close>: stacks and frames of new threads, the table of threads by pid,
    creation, fork, waiting and the task state segment. Registering a thread finds the first free pid; creating a
    kernel thread composes the page allocator, the caches, the address spaces, the table and the run queue, and
    keeps the invariant of all of them.

  \<^bold>\<open>Bounds.\<close> Frames are below \<open>2 ^ 24\<close> and the blocks of the buddy system have orders below \<^verbatim>\<open>BUDDY_ORDERS\<close>, so that
  addresses and counts do not wrap; user addresses are at most \<open>2 ^ 47\<close>. The theorems name these
  bounds where they need them.

  \<^bold>\<open>Not modelled.\<close> The assembly of booting, of interrupt entry and of the switch of stacks; the device drivers
  (\<^verbatim>\<open>ide.c\<close>, \<^verbatim>\<open>serial.c\<close>, \<^verbatim>\<open>vga.c\<close>, \<^verbatim>\<open>i8259a.c\<close> and the programming of the timer in \<^verbatim>\<open>time.c\<close>), whose effects are accesses to
  ports; the interrupt descriptor table and the dispatch of \<^verbatim>\<open>interrupt.c\<close>; loading of programs (\<^verbatim>\<open>exec.c\<close>) and
  unpacking of the initial file system (\<^verbatim>\<open>initramfs.c\<close>), which copy between raw memory and files; the host tool under
  \<^verbatim>\<open>hwfs/\<close>, which works on files of the host; the smoke tests and \<^verbatim>\<open>main.c\<close>, which only call the parts above.
\<close>

end
